(* ===== verification/Apr_Prelude.thy ===== *)
theory Apr_Prelude
  imports Main "HOL-Library.Word"
begin

text \<open>
  Shared ground of the development: the named collections of facts, the status
  codes of \<open>srclib/apr/include/apr_errno.h\<close> that the modelled functions
  return, C characters and the case folding of the C locale, index loops over
  a block of memory, and the facts on lists and machine words that several
  components use.
\<close>

named_theorems apr_invar \<open>operations keep the component's invariant\<close>
named_theorems apr_refine \<open>abstraction function of the state after an operation\<close>

section \<open>Status codes\<close>

text \<open>
  The values of \<open>apr_status_t\<close> that occur in the modelled functions; an error
  number of the operating system or of a callback is \<open>APR_OS_ERROR\<close>.
\<close>

datatype apr_status =
    APR_SUCCESS
  | APR_EINVAL
  | APR_ENOMEM
  | APR_ENOTIMPL
  | APR_INCOMPLETE
  | APR_EOF
  | APR_EINTR
  | APR_EAGAIN
  | APR_ENOPOOL
  | APR_EGENERAL
  | APR_EMISMATCH
  | APR_EBADDATE
  | APR_CHILD_DONE
  | APR_CHILD_NOTDONE
  | APR_OS_ERROR int

section \<open>C characters\<close>

text \<open>
  A C string is the list of its characters before the terminating NUL. Reading
  the position just behind the list gives that NUL.
\<close>

type_synonym cstr = string

abbreviation NUL :: char where
  "NUL \<equiv> CHR 0x00"

definition char_at :: "cstr \<Rightarrow> nat \<Rightarrow> char" where
  "char_at s i = (if i < length s then s ! i else NUL)"

definition byte_of :: "char \<Rightarrow> 8 word" where
  "byte_of c = word_of_nat (of_char c)"

text \<open>
  \<open>(apr_uint32_t)*k\<close> for a \<open>const char *k\<close>: plain \<open>char\<close> is signed on the
  platforms this source tree was built on, so the conversion sign-extends.
\<close>

definition char_to_u32 :: "char \<Rightarrow> 32 word" where
  "char_to_u32 c = signed_take_bit 7 (ucast (byte_of c))"

text \<open>\<open>isupper\<close> and \<open>tolower\<close> of the C library in the C locale.\<close>

definition isupper :: "char \<Rightarrow> bool" where
  "isupper c \<longleftrightarrow> 65 \<le> (of_char c :: nat) \<and> (of_char c :: nat) \<le> 90"

definition tolower :: "char \<Rightarrow> char" where
  "tolower c = (if isupper c then char_of (of_char c + 32 :: nat) else c)"

lemma char_at_simps [simp]:
  "char_at [] i = NUL"
  "char_at (c # s) 0 = c"
  "char_at (c # s) (Suc i) = char_at s i"
  by (simp_all add: char_at_def)

lemma of_char_less: "(of_char c :: nat) < 256"
  using of_char_mod_256 [of c, where ?'a = nat] by (metis mod_less_divisor zero_less_numeral)

lemma all_chars_of_nat: "(\<forall>c. P c) \<longleftrightarrow> (\<forall>n < 256. P (char_of (n :: nat)))"
  by (metis char_of_char of_char_less)

lemma tolower_NUL [simp]: "tolower NUL = NUL"
  by (simp add: tolower_def isupper_def)

lemma of_char_tolower:
  "(of_char (tolower c) :: nat) =
     (if isupper c then of_char c + 32 else of_char c)"
  by (simp add: tolower_def isupper_def)

lemma tolower_idem [simp]: "tolower (tolower c) = tolower c"
  by (simp add: tolower_def isupper_def)

section \<open>Loops over a block of memory\<close>

text \<open>
  \<open>for (; i <= hi; i++) if (p(i)) ...\<close>: the first index that satisfies the
  test, as the table and hash code searches with moving pointers.
\<close>

function scan :: "(nat \<Rightarrow> bool) \<Rightarrow> nat \<Rightarrow> nat \<Rightarrow> nat option" where
  "scan p i hi =
     (if i \<le> hi then (if p i then Some i else scan p (Suc i) hi) else None)"
  by pat_completeness auto
termination
  by (relation "measure (\<lambda>(p, i, hi). Suc hi - i)") auto

declare scan.simps [simp del]

lemma scan_find: "scan p i hi = find p [i..<Suc hi]"
proof (induction p i hi rule: scan.induct)
  case (1 p i hi)
  show ?case
  proof (cases "i \<le> hi")
    case True
    then have "[i..<Suc hi] = i # [Suc i..<Suc hi]"
      by (simp add: upt_rec)
    with True 1 show ?thesis by (simp add: scan.simps [of p i hi])
  qed (simp add: scan.simps [of p i hi])
qed

lemma scan_Some_iff:
  "scan p i hi = Some j \<longleftrightarrow> i \<le> j \<and> j \<le> hi \<and> p j \<and> (\<forall>k. i \<le> k \<and> k < j \<longrightarrow> \<not> p k)"
proof
  assume "scan p i hi = Some j"
  then obtain m where m: "m < Suc hi - i" "j = i + m" "p j" and "\<forall>q < m. \<not> p (i + q)"
    by (auto simp: scan_find find_Some_iff nth_upt simp del: upt_Suc)
  then have "\<not> p k" if "i \<le> k" "k < j" for k
    using that by (metis add_less_cancel_left le_add_diff_inverse)
  with m show "i \<le> j \<and> j \<le> hi \<and> p j \<and> (\<forall>k. i \<le> k \<and> k < j \<longrightarrow> \<not> p k)"
    by auto
next
  assume "i \<le> j \<and> j \<le> hi \<and> p j \<and> (\<forall>k. i \<le> k \<and> k < j \<longrightarrow> \<not> p k)"
  then show "scan p i hi = Some j"
    by (auto simp: scan_find find_Some_iff nth_upt simp del: upt_Suc intro!: exI [of _ "j - i"])
qed

lemma scan_None_iff:
  "scan p i hi = None \<longleftrightarrow> (\<forall>k. i \<le> k \<and> k \<le> hi \<longrightarrow> \<not> p k)"
  by (auto simp: scan_find find_None_iff less_Suc_eq_le simp del: upt_Suc)

text \<open>
  When every hit of a list lies between the bounds, the bounded search finds
  the first hit of the whole list.
\<close>

lemma scan_first_hit:
  assumes bnd: "\<And>i. i < length l \<Longrightarrow> p (l ! i) \<Longrightarrow> lo \<le> i \<and> i \<le> hi"
    and len: "hi < length l"
    and sc: "scan (\<lambda>i. p (l ! i)) lo hi = Some j"
  shows "j < length l" "p (l ! j)" "\<forall>x \<in> set (take j l). \<not> p x"
    "l = take j l @ l ! j # drop (Suc j) l"
proof -
  from sc have hit: "j \<le> hi" "p (l ! j)" and before: "\<And>k. lo \<le> k \<Longrightarrow> k < j \<Longrightarrow> \<not> p (l ! k)"
    unfolding scan_Some_iff by blast+
  from hit len show j: "j < length l" and "p (l ! j)"
    by simp_all
  show "\<forall>x \<in> set (take j l). \<not> p x"
  proof
    fix x assume "x \<in> set (take j l)"
    then obtain k where "k < j" "x = l ! k"
      by (auto simp: in_set_conv_nth)
    then show "\<not> p x"
      using j bnd [of k] before [of k] by auto
  qed
  from j show "l = take j l @ l ! j # drop (Suc j) l"
    by (rule id_take_nth_drop)
qed

lemma scan_no_hit:
  assumes bnd: "\<And>i. i < length l \<Longrightarrow> p (l ! i) \<Longrightarrow> lo \<le> i \<and> i \<le> hi"
    and sc: "scan (\<lambda>i. p (l ! i)) lo hi = None"
  shows "\<forall>x \<in> set l. \<not> p x"
proof
  fix x assume "x \<in> set l"
  then obtain k where k: "k < length l" "x = l ! k"
    by (auto simp: in_set_conv_nth)
  moreover from sc have "lo \<le> k \<Longrightarrow> k \<le> hi \<Longrightarrow> \<not> p (l ! k)"
    unfolding scan_None_iff by blast
  ultimately show "\<not> p x"
    using bnd [of k] by auto
qed

section \<open>In-place compaction\<close>

text \<open>
  The idiom \<open>for (; src < end; src++) if (!drop(src)) *dst++ = *src;\<close> with both
  pointers in one block. The result is the block and the final \<open>dst\<close>.
\<close>

function squeeze :: "('a \<Rightarrow> bool) \<Rightarrow> nat \<Rightarrow> nat \<Rightarrow> nat \<Rightarrow> 'a list \<Rightarrow> 'a list \<times> nat" where
  "squeeze out src end dst xs =
     (if src < end then
        if out (xs ! src) then squeeze out (Suc src) end dst xs
        else squeeze out (Suc src) end (Suc dst) (xs[dst := xs ! src])
      else (xs, dst))"
  by pat_completeness auto
termination
  by (relation "measure (\<lambda>(out, src, end, dst, xs). end - src)") auto

declare squeeze.simps [simp del]

lemma squeeze_result:
  assumes "dst \<le> src" "src \<le> end" "end \<le> length xs" "squeeze out src end dst xs = (ys, d)"
  shows "length ys = length xs \<and> d = dst + length (filter (\<lambda>x. \<not> out x) (drop src (take end xs))) \<and>
    take d ys = take dst xs @ filter (\<lambda>x. \<not> out x) (drop src (take end xs)) \<and>
    (\<forall>i \<ge> end. ys ! i = xs ! i)"
  using assms
proof (induction out src "end" dst xs arbitrary: ys d rule: squeeze.induct)
  case (1 out src "end" dst xs)
  note prems = "1.prems"
  show ?case
  proof (cases "src < end")
    case False
    then have "squeeze out src end dst xs = (xs, dst)"
      by (subst squeeze.simps) simp
    with prems False show ?thesis by simp
  next
    case True
    then have split: "drop src (take end xs) = xs ! src # drop (Suc src) (take end xs)"
      using prems(3) by (simp add: Cons_nth_drop_Suc [symmetric])
    show ?thesis
    proof (cases "out (xs ! src)")
      case out: True
      with prems True have "squeeze out (Suc src) end dst xs = (ys, d)"
        by (simp add: squeeze.simps [of out src])
      moreover have "dst \<le> Suc src" "Suc src \<le> end"
        using prems True by simp_all
      ultimately have "length ys = length xs \<and>
        d = dst + length (filter (\<lambda>x. \<not> out x) (drop (Suc src) (take end xs))) \<and>
        take d ys = take dst xs @ filter (\<lambda>x. \<not> out x) (drop (Suc src) (take end xs)) \<and>
        (\<forall>i \<ge> end. ys ! i = xs ! i)"
        using "1.IH"(1) [OF True out] prems(3) by blast
      then show ?thesis by (auto simp: split out)
    next
      case keep: False
      let ?xs = "xs[dst := xs ! src]"
      have "squeeze out (Suc src) end (Suc dst) ?xs = (ys, d)"
        using prems True keep by (simp add: squeeze.simps [of out src])
      moreover have "Suc dst \<le> Suc src" "Suc src \<le> end" "end \<le> length ?xs"
        using prems True by simp_all
      ultimately have IH: "length ys = length ?xs \<and>
        d = Suc dst + length (filter (\<lambda>x. \<not> out x) (drop (Suc src) (take end ?xs))) \<and>
        take d ys = take (Suc dst) ?xs @ filter (\<lambda>x. \<not> out x) (drop (Suc src) (take end ?xs)) \<and>
        (\<forall>i \<ge> end. ys ! i = ?xs ! i)"
        using "1.IH"(2) [OF True keep] by blast
      have "drop (Suc src) (take end ?xs) = drop (Suc src) (take end xs)"
        using prems by (simp add: drop_take drop_update_cancel)
      moreover have "take (Suc dst) ?xs = take dst xs @ [xs ! src]"
        using prems True by (simp add: take_Suc_conv_app_nth)
      moreover have "?xs ! i = xs ! i" if "end \<le> i" for i
        using that prems True by simp
      ultimately show ?thesis
        using IH keep by (auto simp: split)
    qed
  qed
qed

end
