(* ===== verification/Apr_Strings.thy ===== *)
theory Apr_Strings
  imports Apr_Prelude
begin

text \<open>
  The string routines of \<open>srclib/apr/strings\<close> that the tables and brigades
  call: duplication and concatenation into a pool (\<open>apr_strings.c\<close>), the
  bounded copy, the removal of white space and the case-insensitive comparison
  (\<open>apr_cpystrn.c\<close>). A pointer that may be NULL is an \<open>option\<close>; the pool that
  receives the copy does not appear, because a pool allocation either succeeds
  or aborts the process.
\<close>

section \<open>Copies into a pool\<close>

definition apr_pstrdup :: "cstr option \<Rightarrow> cstr option" where
  "apr_pstrdup s = (case s of None \<Rightarrow> None | Some str \<Rightarrow> Some (take (length str) str))"

text \<open>
  \<open>memchr\<close> looks for the terminating NUL in the first \<open>n\<close> bytes; it is there
  exactly when the string is shorter than \<open>n\<close>.
\<close>

definition apr_pstrndup :: "cstr option \<Rightarrow> nat \<Rightarrow> cstr option" where
  "apr_pstrndup s n =
     (case s of None \<Rightarrow> None
      | Some str \<Rightarrow> Some (take (if length str < n then length str else n) str))"

definition apr_pstrmemdup :: "cstr option \<Rightarrow> nat \<Rightarrow> cstr option" where
  "apr_pstrmemdup s n = (case s of None \<Rightarrow> None | Some str \<Rightarrow> Some (take n str))"

text \<open>
  The variadic arguments of \<open>apr_pstrcat\<close> are a list; the first NULL ends it,
  whatever follows.
\<close>

fun pstrcat_args :: "cstr option list \<Rightarrow> cstr list" where
  "pstrcat_args [] = []"
| "pstrcat_args (None # args) = []"
| "pstrcat_args (Some s # args) = s # pstrcat_args args"

definition apr_pstrcat :: "cstr option list \<Rightarrow> cstr" where
  "apr_pstrcat args = concat (pstrcat_args args)"

lemma apr_pstrdup_id [simp]: "apr_pstrdup s = s"
  by (simp add: apr_pstrdup_def split: option.splits)

lemma apr_pstrndup_eq: "apr_pstrndup s n = map_option (take n) s"
  by (auto simp: apr_pstrndup_def split: option.splits)

section \<open>Case-insensitive comparison\<close>

text \<open>
  \<open>strcasecmp\<close>: the tree's own version compares folded characters while both
  strings last. Only the sign of the result is used anywhere, so the difference
  of two characters is kept as it is.
\<close>

fun strcasecmp :: "cstr \<Rightarrow> cstr \<Rightarrow> int" where
  "strcasecmp (p # ps) (q # qs) =
     (let diff = int (of_char (tolower p)) - int (of_char (tolower q))
      in if diff \<noteq> 0 then diff else strcasecmp ps qs)"
| "strcasecmp (p # ps) [] = 1"
| "strcasecmp [] (q # qs) = - 1"
| "strcasecmp [] [] = 0"

abbreviation ci_eq :: "cstr \<Rightarrow> cstr \<Rightarrow> bool" where
  "ci_eq a b \<equiv> strcasecmp a b = 0"

lemma of_char_eq_iff: "(of_char a :: nat) = of_char b \<longleftrightarrow> a = b"
  by (metis char_of_char)

lemma ci_eq_iff: "ci_eq a b \<longleftrightarrow> map tolower a = map tolower b"
  by (induction a b rule: strcasecmp.induct) (auto simp: Let_def of_char_eq_iff)

lemma ci_eq_refl [simp]: "ci_eq a a"
  by (simp add: ci_eq_iff)

lemma ci_eq_sym: "ci_eq a b \<longleftrightarrow> ci_eq b a"
  by (auto simp: ci_eq_iff)

lemma ci_eq_trans: "ci_eq a b \<Longrightarrow> ci_eq b c \<Longrightarrow> ci_eq a c"
  by (simp add: ci_eq_iff)

lemma ci_eq_class: "ci_eq a b \<Longrightarrow> ci_eq a c \<longleftrightarrow> ci_eq b c"
  by (simp add: ci_eq_iff)

text \<open>The sign of the comparison is a total preorder on strings.\<close>

lemma strcasecmp_antisym: "strcasecmp a b > 0 \<longleftrightarrow> strcasecmp b a < 0"
  by (induction a b rule: strcasecmp.induct) (auto simp: Let_def)

lemma strcasecmp_le_trans:
  "strcasecmp a b \<le> 0 \<Longrightarrow> strcasecmp b c \<le> 0 \<Longrightarrow> strcasecmp a c \<le> 0"
proof (induction a b arbitrary: c rule: strcasecmp.induct)
  case (1 p ps q qs)
  then show ?case by (cases c) (auto simp: Let_def split: if_splits)
next
  case (3 q qs)
  then show ?case by (cases c) auto
qed auto

section \<open>Bounded copy\<close>

text \<open>
  \<open>apr_cpystrn\<close> writes into a buffer of \<open>dst_size\<close> bytes. The result is what the
  buffer then holds as bytes (\<open>None\<close> when \<open>dst_size\<close> is 0 and nothing is
  written) and the returned position of the terminating NUL.
\<close>

fun cpystrn_loop :: "cstr \<Rightarrow> nat \<Rightarrow> cstr" where
  "cpystrn_loop src 0 = [NUL]"
| "cpystrn_loop [] (Suc room) = [NUL]"
| "cpystrn_loop (c # src) (Suc room) = c # cpystrn_loop src room"

definition apr_cpystrn :: "cstr \<Rightarrow> nat \<Rightarrow> cstr \<times> nat" where
  "apr_cpystrn src dst_size =
     (if dst_size = 0 then ([], 0)
      else let written = cpystrn_loop src (dst_size - 1)
           in (written, length written - 1))"

lemma cpystrn_loop_eq: "cpystrn_loop src room = take room src @ [NUL]"
  by (induction src room rule: cpystrn_loop.induct) auto

section \<open>White space removal\<close>

text \<open>\<open>isspace\<close> of the C locale: space and the control characters 9 to 13.\<close>

definition apr_isspace :: "char \<Rightarrow> bool" where
  "apr_isspace c \<longleftrightarrow> c = CHR '' '' \<or> (9 \<le> (of_char c :: nat) \<and> (of_char c :: nat) \<le> 13)"

fun apr_collapse_spaces :: "cstr \<Rightarrow> cstr" where
  "apr_collapse_spaces [] = []"
| "apr_collapse_spaces (c # src) =
     (if \<not> apr_isspace c then c # apr_collapse_spaces src else apr_collapse_spaces src)"

lemma apr_collapse_spaces_filter: "apr_collapse_spaces src = filter (\<lambda>c. \<not> apr_isspace c) src"
  by (induction src) auto

end
