(* ===== verification/Apr_Arrays.thy ===== *)
theory Apr_Arrays
  imports Apr_Strings
begin

text \<open>
  The growable arrays of \<open>srclib/apr/tables/apr_tables.c\<close>. A header owns a block
  of \<open>nalloc\<close> slots of which the first \<open>nelts\<close> are in use. A slot of the block is
  an \<open>option\<close>: \<open>None\<close> is memory that was allocated and never written, so that a
  read of it is visible in the model; \<open>zero\<close> stands for an element whose bytes
  are all 0, as \<open>apr_pcalloc\<close> and \<open>memset\<close> leave it. The second half of the theory
  puts the blocks into a store, because \<open>apr_array_copy_hdr\<close> lets two headers
  share one block.
\<close>

section \<open>Headers and their operations\<close>

record 'a array_header =
  elts :: "'a option list"
  nelts :: nat
  nalloc :: nat

definition make_array_core :: "'a \<Rightarrow> int \<Rightarrow> bool \<Rightarrow> 'a array_header" where
  "make_array_core zero n clear =
     (let n' = nat (if n < 1 then 1 else n)
      in \<lparr>elts = replicate n' (if clear then Some zero else None), nelts = 0, nalloc = n'\<rparr>)"

definition apr_is_empty_array :: "'a array_header option \<Rightarrow> bool" where
  "apr_is_empty_array a = (case a of None \<Rightarrow> True | Some arr \<Rightarrow> nelts arr = 0)"

definition apr_array_make :: "'a \<Rightarrow> int \<Rightarrow> 'a array_header" where
  "apr_array_make zero n = make_array_core zero n True"

definition apr_array_clear :: "'a array_header \<Rightarrow> 'a array_header" where
  "apr_array_clear arr = arr\<lparr>nelts := 0\<rparr>"

text \<open>The pointers that \<open>pop\<close> and \<open>push\<close> return are indices of slots.\<close>

definition apr_array_pop :: "'a array_header \<Rightarrow> 'a array_header \<times> nat option" where
  "apr_array_pop arr =
     (if apr_is_empty_array (Some arr) then (arr, None)
      else (arr\<lparr>nelts := nelts arr - 1\<rparr>, Some (nelts arr - 1)))"

definition apr_array_push :: "'a \<Rightarrow> 'a array_header \<Rightarrow> 'a array_header \<times> nat" where
  "apr_array_push zero arr =
     (let arr' =
        (if nelts arr = nalloc arr then
           let new_size = (if nalloc arr \<le> 0 then 1 else nalloc arr * 2);
               new_data = take (nalloc arr) (elts arr) @
                          replicate (new_size - nalloc arr) (Some zero)
           in arr\<lparr>elts := new_data, nalloc := new_size\<rparr>
         else arr);
        arr'' = arr'\<lparr>nelts := Suc (nelts arr')\<rparr>
      in (arr'', nelts arr'' - 1))"

definition apr_array_push_noclear :: "'a array_header \<Rightarrow> 'a array_header \<times> nat" where
  "apr_array_push_noclear arr =
     (let arr' =
        (if nelts arr = nalloc arr then
           let new_size = (if nalloc arr \<le> 0 then 1 else nalloc arr * 2);
               new_data = take (nalloc arr) (elts arr) @
                          replicate (new_size - nalloc arr) None
           in arr\<lparr>elts := new_data, nalloc := new_size\<rparr>
         else arr);
        arr'' = arr'\<lparr>nelts := Suc (nelts arr')\<rparr>
      in (arr'', nelts arr'' - 1))"

text \<open>The caller stores the element through the returned pointer.\<close>

definition array_store :: "'a array_header \<Rightarrow> nat \<Rightarrow> 'a \<Rightarrow> 'a array_header" where
  "array_store arr i x = arr\<lparr>elts := (elts arr)[i := Some x]\<rparr>"

text \<open>
  \<open>while (need > new_size) new_size *= 2;\<close> starts from a positive size, which is
  what the second test of the guard says.
\<close>

function double_until :: "nat \<Rightarrow> nat \<Rightarrow> nat" where
  "double_until need new_size =
     (if need > new_size \<and> 0 < new_size then double_until need (new_size * 2) else new_size)"
  by pat_completeness auto
termination
  by (relation "measure (\<lambda>(need, new_size). need - new_size)") auto

declare double_until.simps [simp del]

definition apr_array_cat :: "'a \<Rightarrow> 'a array_header \<Rightarrow> 'a array_header \<Rightarrow> 'a array_header" where
  "apr_array_cat zero dst src =
     (let dst' =
        (if nelts dst + nelts src > nalloc dst then
           let new_size = double_until (nelts dst + nelts src)
                 (if nalloc dst \<le> 0 then 1 else nalloc dst * 2);
               new_data = take (nalloc dst) (elts dst) @
                          drop (nalloc dst) (replicate new_size (Some zero))
           in dst\<lparr>elts := new_data, nalloc := new_size\<rparr>
         else dst)
      in dst'\<lparr>elts := take (nelts dst) (elts dst') @ take (nelts src) (elts src) @
                       drop (nelts dst + nelts src) (elts dst'),
              nelts := nelts dst + nelts src\<rparr>)"

definition apr_array_copy :: "'a \<Rightarrow> 'a array_header \<Rightarrow> 'a array_header" where
  "apr_array_copy zero arr =
     (let res = make_array_core zero (int (nalloc arr)) False
      in res\<lparr>elts := take (nelts arr) (elts arr) @
                     replicate (nalloc res - nelts arr) (Some zero),
             nelts := nelts arr\<rparr>)"

definition copy_array_hdr_core :: "'a array_header \<Rightarrow> 'a array_header" where
  "copy_array_hdr_core arr = \<lparr>elts = elts arr, nelts = nelts arr, nalloc = nelts arr\<rparr>"

definition apr_array_append ::
    "'a \<Rightarrow> 'a array_header \<Rightarrow> 'a array_header \<Rightarrow> 'a array_header" where
  "apr_array_append zero first second = apr_array_cat zero (copy_array_hdr_core first) second"

text \<open>
  \<open>apr_array_pstrcat\<close> joins an array of strings; a NULL element contributes
  nothing but keeps its separator, and a NUL separator is no separator.
\<close>

fun pstrcat_elts :: "char \<Rightarrow> cstr option list \<Rightarrow> cstr" where
  "pstrcat_elts sep [] = []"
| "pstrcat_elts sep [s] = (case s of None \<Rightarrow> [] | Some str \<Rightarrow> str)"
| "pstrcat_elts sep (s # t # strs) =
     (case s of None \<Rightarrow> [] | Some str \<Rightarrow> str) @
     (if sep \<noteq> NUL then [sep] else []) @ pstrcat_elts sep (t # strs)"

definition apr_array_pstrcat :: "cstr option array_header \<Rightarrow> char \<Rightarrow> cstr" where
  "apr_array_pstrcat arr sep =
     (if nelts arr \<le> 0 then []
      else pstrcat_elts sep (map (\<lambda>slot. case slot of None \<Rightarrow> None | Some s \<Rightarrow> s)
             (take (nelts arr) (elts arr))))"

section \<open>Well-formedness and abstraction\<close>

definition array_ok :: "'a array_header \<Rightarrow> bool" where
  "array_ok arr \<longleftrightarrow> nelts arr \<le> nalloc arr \<and> nalloc arr \<le> length (elts arr) \<and>
     None \<notin> set (take (nelts arr) (elts arr))"

definition array_list :: "'a array_header \<Rightarrow> 'a list" where
  "array_list arr = map the (take (nelts arr) (elts arr))"

lemma array_okD:
  assumes "array_ok arr"
  shows "nelts arr \<le> nalloc arr" "nalloc arr \<le> length (elts arr)" "nelts arr \<le> length (elts arr)"
  using assms by (auto simp: array_ok_def)

lemma length_array_list [simp]: "array_ok arr \<Longrightarrow> length (array_list arr) = nelts arr"
  by (simp add: array_list_def array_okD min_absorb2)

lemma take_elts: "array_ok arr \<Longrightarrow> take (nelts arr) (elts arr) = map Some (array_list arr)"
proof -
  assume "array_ok arr"
  then have "None \<notin> set (take (nelts arr) (elts arr))"
    by (simp add: array_ok_def)
  then have "map (Some \<circ> the) (take (nelts arr) (elts arr)) = take (nelts arr) (elts arr)"
    by (induction "take (nelts arr) (elts arr)" rule: list.induct)
      (auto intro!: map_idI simp: not_Some_eq, metis option.collapse)
  then show ?thesis by (simp add: array_list_def)
qed

lemma array_list_nth: "array_ok arr \<Longrightarrow> i < nelts arr \<Longrightarrow> elts arr ! i = Some (array_list arr ! i)"
  using take_elts [of arr] array_okD(3) [of arr]
  by (metis length_array_list nth_map nth_take)

text \<open>
  A header is determined for its clients by the elements in use: any block with
  the elements in front is well formed.
\<close>

lemma array_okI:
  assumes "elts arr = map Some l @ rest" "nelts arr = length l" "nelts arr \<le> nalloc arr"
    "nalloc arr \<le> length (elts arr)"
  shows "array_ok arr \<and> array_list arr = l"
  using assms by (auto simp: array_ok_def array_list_def comp_def)

section \<open>The contract of a growing sequence\<close>

text \<open>
  What the callers of \<open>push\<close> and of \<open>apr_table_add\<close> rely on: each call appends
  one element. The lemmas lift this to the loops that append many.
\<close>

locale growable =
  fixes ok :: "'s \<Rightarrow> bool" and seq :: "'s \<Rightarrow> 'e list" and put :: "'s \<Rightarrow> 'e \<Rightarrow> 's"
  assumes ok_put: "ok s \<Longrightarrow> ok (put s x)"
    and seq_put: "ok s \<Longrightarrow> seq (put s x) = seq s @ [x]"
begin

lemma ok_fold: "ok s \<Longrightarrow> ok (foldl put s xs)"
  by (induction xs arbitrary: s) (auto intro: ok_put)

lemma seq_fold: "ok s \<Longrightarrow> seq (foldl put s xs) = seq s @ xs"
  by (induction xs arbitrary: s) (auto simp: ok_put seq_put)

end

definition array_put :: "'a \<Rightarrow> 'a array_header \<Rightarrow> 'a \<Rightarrow> 'a array_header" where
  "array_put zero arr x = (let (arr', i) = apr_array_push zero arr in array_store arr' i x)"

definition array_put_noclear :: "'a array_header \<Rightarrow> 'a \<Rightarrow> 'a array_header" where
  "array_put_noclear arr x = (let (arr', i) = apr_array_push_noclear arr in array_store arr' i x)"

lemma array_put_noclear_ok:
  assumes ok: "array_ok arr"
  shows "array_ok (array_put_noclear arr x) \<and> array_list (array_put_noclear arr x) = array_list arr @ [x]"
proof -
  note bounds = array_okD [OF ok]
  have old: "take (nelts arr) (elts arr) = map Some (array_list arr)"
    using ok by (rule take_elts)
  show ?thesis
  proof (rule array_okI)
    show "elts (array_put_noclear arr x) =
        map Some (array_list arr @ [x]) @ drop (Suc (nelts arr)) (elts (fst (apr_array_push_noclear arr)))"
      using bounds old
      by (auto simp: array_put_noclear_def apr_array_push_noclear_def array_store_def Let_def
          upd_conv_take_nth_drop min_absorb1 min_absorb2)
  qed (use bounds ok in \<open>auto simp: array_put_noclear_def apr_array_push_noclear_def
        array_store_def Let_def min_absorb2\<close>)
qed

lemma array_put_ok:
  assumes ok: "array_ok arr"
  shows "array_ok (array_put zero arr x) \<and> array_list (array_put zero arr x) = array_list arr @ [x]"
proof -
  note bounds = array_okD [OF ok]
  have old: "take (nelts arr) (elts arr) = map Some (array_list arr)"
    using ok by (rule take_elts)
  show ?thesis
  proof (rule array_okI)
    show "elts (array_put zero arr x) =
        map Some (array_list arr @ [x]) @ drop (Suc (nelts arr)) (elts (fst (apr_array_push zero arr)))"
      using bounds old
      by (auto simp: array_put_def apr_array_push_def array_store_def Let_def
          upd_conv_take_nth_drop min_absorb1 min_absorb2)
  qed (use bounds ok in \<open>auto simp: array_put_def apr_array_push_def
        array_store_def Let_def min_absorb2\<close>)
qed

interpretation array_push: growable array_ok array_list "array_put zero" for zero
  by unfold_locales (simp_all add: array_put_ok)

interpretation array_push_noclear: growable array_ok array_list array_put_noclear
  by unfold_locales (simp_all add: array_put_noclear_ok)

lemma apr_array_make_ok [simp]:
  "array_ok (apr_array_make zero n)" "array_list (apr_array_make zero n) = []"
  "array_ok (make_array_core zero n clear)" "array_list (make_array_core zero n clear) = []"
  by (simp_all add: apr_array_make_def make_array_core_def array_ok_def array_list_def Let_def)

lemma double_until_ge: "0 < new_size \<Longrightarrow> need \<le> double_until need new_size"
proof (induction need new_size rule: double_until.induct)
  case (1 need new_size)
  then show ?case by (subst double_until.simps) auto
qed

lemma double_until_start: "new_size \<le> double_until need new_size"
proof (induction need new_size rule: double_until.induct)
  case (1 need new_size)
  then show ?case by (subst double_until.simps) auto
qed

lemma apr_array_cat_ok:
  assumes dst: "array_ok dst" and src: "array_ok src"
  shows "array_ok (apr_array_cat zero dst src) \<and>
    array_list (apr_array_cat zero dst src) = array_list dst @ array_list src"
proof -
  let ?need = "nelts dst + nelts src" and ?start = "if nalloc dst \<le> 0 then 1 else nalloc dst * 2"
  let ?size = "double_until ?need ?start"
  let ?res = "apr_array_cat zero dst src"
  have size: "?need \<le> ?size" "nalloc dst \<le> ?size"
    using double_until_ge [of ?start ?need] double_until_start [of ?start ?need] by auto
  note d = array_okD [OF dst] take_elts [OF dst] length_array_list [OF dst]
    and s = array_okD [OF src] take_elts [OF src] length_array_list [OF src]
  show ?thesis
  proof (rule array_okI)
    show "elts ?res = map Some (array_list dst @ array_list src) @ drop (nelts ?res) (elts ?res)"
      using d s size
      by (auto simp: apr_array_cat_def Let_def min_absorb1 min_absorb2)
  qed (use d s size dst src in \<open>auto simp: apr_array_cat_def Let_def min_absorb2\<close>)
qed

lemma apr_array_copy_ok:
  assumes ok: "array_ok arr"
  shows "array_ok (apr_array_copy zero arr) \<and> array_list (apr_array_copy zero arr) = array_list arr"
proof (rule array_okI)
  show "elts (apr_array_copy zero arr) = map Some (array_list arr) @
      replicate (nalloc (make_array_core zero (int (nalloc arr)) False) - nelts arr) (Some zero)"
    by (simp add: apr_array_copy_def Let_def take_elts [OF ok])
qed (use array_okD [OF ok] ok in
    \<open>auto simp: apr_array_copy_def make_array_core_def Let_def min_absorb2\<close>)

lemma copy_array_hdr_core_ok:
  assumes "array_ok arr"
  shows "array_ok (copy_array_hdr_core arr) \<and> array_list (copy_array_hdr_core arr) = array_list arr"
  using assms by (auto simp: copy_array_hdr_core_def array_ok_def array_list_def)

lemma apr_array_append_ok:
  "array_ok first \<Longrightarrow> array_ok second \<Longrightarrow>
     array_ok (apr_array_append zero first second) \<and>
     array_list (apr_array_append zero first second) = array_list first @ array_list second"
  by (simp add: apr_array_append_def apr_array_cat_ok copy_array_hdr_core_ok)

lemma apr_array_pop_ok:
  assumes "array_ok arr" "apr_array_pop arr = (arr', Some i)"
  shows "array_ok arr' \<and> array_list arr = array_list arr' @ [array_list arr ! i] \<and> i = nelts arr'"
proof -
  from assms(2) have n: "0 < nelts arr" "arr' = arr\<lparr>nelts := nelts arr - 1\<rparr>" "i = nelts arr - 1"
    by (auto simp: apr_array_pop_def apr_is_empty_array_def split: if_splits)
  from assms(1) n have "take (nelts arr) (elts arr) = take i (elts arr) @ [elts arr ! i]"
    by (metis Suc_pred' array_okD(3) lessI order_less_le_trans take_Suc_conv_app_nth)
  moreover from this assms(1) n have "array_ok arr'"
    by (auto simp: array_ok_def)
  ultimately have "array_ok arr'" "array_list arr = array_list arr' @ [the (elts arr ! i)]"
    using n by (simp_all add: array_list_def)
  with n show ?thesis
    using length_array_list [of arr'] by (simp add: nth_append)
qed

section \<open>Headers that share a block\<close>

text \<open>
  \<open>apr_array_copy_hdr\<close> copies the header only. Here the blocks live in a store,
  a header names its block by the position in the store, and a call that
  allocates appends a new block. The operations are those above on the viewed
  header; they write to the block of their own header or to a new one.
\<close>

type_synonym 'a store = "'a option list list"

record array_ref =
  blk :: nat
  r_nelts :: nat
  r_nalloc :: nat

definition view :: "'a store \<Rightarrow> array_ref \<Rightarrow> 'a array_header" where
  "view H r = \<lparr>elts = H ! blk r, nelts = r_nelts r, nalloc = r_nalloc r\<rparr>"

definition put_back ::
    "'a store \<Rightarrow> array_ref \<Rightarrow> 'a array_header \<Rightarrow> bool \<Rightarrow> 'a store \<times> array_ref" where
  "put_back H r arr grown =
     (if grown then (H @ [elts arr], \<lparr>blk = length H, r_nelts = nelts arr, r_nalloc = nalloc arr\<rparr>)
      else (H[blk r := elts arr], \<lparr>blk = blk r, r_nelts = nelts arr, r_nalloc = nalloc arr\<rparr>))"

definition ref_push :: "'a \<Rightarrow> 'a store \<times> array_ref \<Rightarrow> 'a \<Rightarrow> 'a store \<times> array_ref" where
  "ref_push zero Hr x =
     (let (H, r) = Hr; arr = view H r
      in put_back H r (array_put zero arr x) (nelts arr = nalloc arr))"

definition ref_pop :: "'a store \<times> array_ref \<Rightarrow> 'a store \<times> array_ref" where
  "ref_pop Hr =
     (let (H, r) = Hr; (arr, i) = apr_array_pop (view H r)
      in (H, r\<lparr>r_nelts := nelts arr\<rparr>))"

definition ref_cat :: "'a \<Rightarrow> 'a store \<times> array_ref \<Rightarrow> array_ref \<Rightarrow> 'a store \<times> array_ref" where
  "ref_cat zero Hr src =
     (let (H, r) = Hr; dst = view H r; s = view H src
      in put_back H r (apr_array_cat zero dst s) (nelts dst + nelts s > nalloc dst))"

definition apr_array_copy_hdr :: "array_ref \<Rightarrow> array_ref" where
  "apr_array_copy_hdr r = \<lparr>blk = blk r, r_nelts = r_nelts r, r_nalloc = r_nelts r\<rparr>"

definition ref_append ::
    "'a \<Rightarrow> 'a store \<Rightarrow> array_ref \<Rightarrow> array_ref \<Rightarrow> 'a store \<times> array_ref" where
  "ref_append zero H first second = ref_cat zero (H, apr_array_copy_hdr first) second"

text \<open>
  \<open>fresh_from n\<close>: the first \<open>n\<close> blocks of the store are as they were and the
  header either would grow on the next push or owns a later block.
\<close>

definition fresh_from :: "'a store \<Rightarrow> 'a store \<times> array_ref \<Rightarrow> bool" where
  "fresh_from H0 Hr \<longleftrightarrow> take (length H0) (fst Hr) = H0 \<and> blk (snd Hr) < length (fst Hr) \<and>
     array_ok (view (fst Hr) (snd Hr)) \<and>
     (r_nelts (snd Hr) = r_nalloc (snd Hr) \<or> length H0 \<le> blk (snd Hr))"

abbreviation ref_list :: "'a store \<times> array_ref \<Rightarrow> 'a list" where
  "ref_list Hr \<equiv> array_list (view (fst Hr) (snd Hr))"

lemma view_put_back:
  "blk r < length H \<Longrightarrow> put_back H r arr grown = (H', r') \<Longrightarrow> view H' r' = arr \<and> blk r' < length H'"
  by (auto simp: put_back_def view_def split: if_splits)

lemma take_put_back:
  assumes "put_back H r arr grown = (H', r')" "take n H = H0" "n \<le> length H"
    "grown \<or> n \<le> blk r"
  shows "take n H' = H0 \<and> (grown \<longrightarrow> n \<le> blk r') \<and> (\<not> grown \<longrightarrow> blk r' = blk r)"
  using assms by (auto simp: put_back_def split: if_splits)

lemma ref_push_fresh:
  assumes "fresh_from H0 Hr" and push: "ref_push zero Hr x = Hr'"
  shows "fresh_from H0 Hr' \<and> ref_list Hr' = ref_list Hr @ [x]"
proof -
  obtain H r where Hr: "Hr = (H, r)" by (cases Hr)
  obtain H' r' where Hr': "Hr' = (H', r')" by (cases Hr')
  from assms(1) have old: "take (length H0) H = H0" "blk r < length H" "array_ok (view H r)"
      "r_nelts r = r_nalloc r \<or> length H0 \<le> blk r"
    by (simp_all add: fresh_from_def Hr)
  then have len: "length H0 \<le> length H"
    by (metis nat_le_linear take_all_iff)
  let ?arr = "array_put zero (view H r) x" and ?grown = "r_nelts r = r_nalloc r"
  from push have pb: "put_back H r ?arr ?grown = (H', r')"
    by (simp add: ref_push_def Hr Hr' view_def)
  have "view H' r' = ?arr \<and> blk r' < length H'"
    using view_put_back [OF old(2) pb] .
  moreover have "take (length H0) H' = H0 \<and> length H0 \<le> blk r'"
    using take_put_back [OF pb old(1) len] old(4) by auto
  moreover have "array_ok ?arr \<and> array_list ?arr = array_list (view H r) @ [x]"
    using old(3) by (rule array_put_ok)
  ultimately show ?thesis
    by (simp add: fresh_from_def Hr Hr')
qed

interpretation shared_push: growable "fresh_from H0" ref_list "ref_push zero" for H0 zero
  by unfold_locales (simp_all add: ref_push_fresh)

lemma copy_hdr_fresh:
  "blk r < length H \<Longrightarrow> array_ok (view H r) \<Longrightarrow>
     fresh_from H (H, apr_array_copy_hdr r) \<and> ref_list (H, apr_array_copy_hdr r) = ref_list (H, r)"
  by (auto simp: fresh_from_def apr_array_copy_hdr_def view_def array_ok_def array_list_def)

lemma ref_append_fresh:
  assumes "blk first < length H" "array_ok (view H first)" "array_ok (view H second)"
  shows "fresh_from H (ref_append zero H first second) \<and>
    ref_list (ref_append zero H first second) = ref_list (H, first) @ ref_list (H, second)"
proof -
  let ?r = "apr_array_copy_hdr first"
  let ?dst = "view H ?r" and ?src = "view H second"
  let ?cat = "apr_array_cat zero ?dst ?src"
  let ?grown = "nelts ?dst + nelts ?src > nalloc ?dst"
  obtain H' r' where res: "ref_append zero H first second = (H', r')"
    by fastforce
  then have pb: "put_back H ?r ?cat ?grown = (H', r')"
    by (simp add: ref_append_def ref_cat_def Let_def)
  have hdr: "fresh_from H (H, ?r)" "ref_list (H, ?r) = ref_list (H, first)"
    using copy_hdr_fresh assms by blast+
  then have ok: "array_ok ?dst" "blk ?r < length H"
    by (simp_all add: fresh_from_def)
  have cat: "array_ok ?cat" "array_list ?cat = array_list ?dst @ array_list ?src"
    using apr_array_cat_ok [OF ok(1) assms(3)] by blast+
  have view: "view H' r' = ?cat" "blk r' < length H'"
    using view_put_back [OF ok(2) pb] by blast+
  have "take (length H) H' = H \<and> (r_nelts r' = r_nalloc r' \<or> length H \<le> blk r')"
  proof (cases ?grown)
    case True
    with take_put_back [OF pb, of "length H" H] show ?thesis by simp
  next
    case False
    then have "nelts ?src = 0" "nelts ?dst = nalloc ?dst"
      by (simp_all add: apr_array_copy_hdr_def view_def)
    moreover from this have "elts ?cat = elts ?dst"
      by (simp add: apr_array_cat_def)
    ultimately show ?thesis
      using False pb by (auto simp: put_back_def apr_array_cat_def view_def)
  qed
  with view cat hdr show ?thesis
    by (simp add: res fresh_from_def)
qed

end
