(* ===== verification/Apr_Mergesort.thy ===== *)
theory Apr_Mergesort
  imports Apr_Prelude "HOL-Library.Multiset"
begin

text \<open>
  The bottom-up mergesort of \<open>srclib/apr/tables/apr_tables.c\<close>
  (\<open>table_mergesort\<close>), which sorts pointers to table entries. The comparison
  \<open>strcasecmp(x->key, y->key) > 0\<close> is the parameter \<open>gt\<close>; the locale
  \<open>weak_order\<close> states what the sort relies on, and the sort is proved sorted,
  a permutation and stable under it.
\<close>

section \<open>The sort\<close>

text \<open>First pass: sort pairs of elements.\<close>

fun sort_pairs :: "('a \<Rightarrow> 'a \<Rightarrow> bool) \<Rightarrow> 'a list \<Rightarrow> 'a list" where
  "sort_pairs gt (x # y # xs) =
     (if gt x y then y # x # sort_pairs gt xs else x # y # sort_pairs gt xs)"
| "sort_pairs gt xs = xs"

text \<open>Merge two blocks; when one is empty the other is copied.\<close>

fun merge_blocks :: "('a \<Rightarrow> 'a \<Rightarrow> bool) \<Rightarrow> 'a list \<Rightarrow> 'a list \<Rightarrow> 'a list" where
  "merge_blocks gt [] ys = ys"
| "merge_blocks gt (x # xs) [] = x # xs"
| "merge_blocks gt (x # xs) (y # ys) =
     (if gt x y then y # merge_blocks gt (x # xs) ys else x # merge_blocks gt xs (y # ys))"

text \<open>
  One pass over the array from \<open>next_start\<close> on; the second block may be short,
  and elements that do not reach a second block are copied as they are. The
  block size is at least 2 in every call, which the second test records.
\<close>

function merge_pass :: "('a \<Rightarrow> 'a \<Rightarrow> bool) \<Rightarrow> nat \<Rightarrow> 'a list \<Rightarrow> 'a list" where
  "merge_pass gt blocksize xs =
     (if blocksize < length xs \<and> 0 < blocksize
      then merge_blocks gt (take blocksize xs) (take blocksize (drop blocksize xs)) @
           merge_pass gt blocksize (drop (blocksize + blocksize) xs)
      else xs)"
  by pat_completeness auto
termination
  by (relation "measure (\<lambda>(gt, blocksize, xs). length xs)") auto

declare merge_pass.simps [simp del]

function merge_passes :: "('a \<Rightarrow> 'a \<Rightarrow> bool) \<Rightarrow> nat \<Rightarrow> nat \<Rightarrow> 'a list \<Rightarrow> 'a list" where
  "merge_passes gt n blocksize xs =
     (if blocksize < n \<and> 0 < blocksize
      then merge_passes gt n (blocksize + blocksize) (merge_pass gt blocksize xs)
      else xs)"
  by pat_completeness auto
termination
  by (relation "measure (\<lambda>(gt, n, blocksize, xs). n - blocksize)") auto

declare merge_passes.simps [simp del]

definition table_mergesort :: "('a \<Rightarrow> 'a \<Rightarrow> bool) \<Rightarrow> 'a list \<Rightarrow> 'a list" where
  "table_mergesort gt values = merge_passes gt (length values) 2 (sort_pairs gt values)"

section \<open>Permutation and length\<close>

lemma mset_sort_pairs [simp]: "mset (sort_pairs gt xs) = mset xs"
  by (induction gt xs rule: sort_pairs.induct) auto

lemma mset_merge_blocks [simp]: "mset (merge_blocks gt xs ys) = mset xs + mset ys"
  by (induction gt xs ys rule: merge_blocks.induct) auto

lemma mset_merge_pass [simp]: "mset (merge_pass gt b xs) = mset xs"
proof (induction gt b xs rule: merge_pass.induct)
  case (1 gt b xs)
  have "mset (take b xs) + (mset (take b (drop b xs)) + mset (drop (b + b) xs)) = mset xs"
    by (metis append_take_drop_id drop_drop mset_append)
  with 1 show ?case
    by (simp add: merge_pass.simps [of gt b xs] add.assoc)
qed

lemma mset_merge_passes [simp]: "mset (merge_passes gt n b xs) = mset xs"
proof (induction gt n b xs rule: merge_passes.induct)
  case (1 gt n b xs)
  then show ?case by (subst merge_passes.simps) auto
qed

lemma mset_table_mergesort [simp]: "mset (table_mergesort gt xs) = mset xs"
  by (simp add: table_mergesort_def)

lemma set_table_mergesort [simp]: "set (table_mergesort gt xs) = set xs"
  by (rule mset_eq_setD) simp

lemma length_merge_pass [simp]: "length (merge_pass gt b xs) = length xs"
  by (rule mset_eq_length) simp

lemma length_sort_pairs [simp]: "length (sort_pairs gt xs) = length xs"
  by (rule mset_eq_length) simp

section \<open>Sortedness and stability under a weak order\<close>

definition in_order :: "('a \<Rightarrow> 'a \<Rightarrow> bool) \<Rightarrow> 'a list \<Rightarrow> bool" where
  "in_order gt xs \<longleftrightarrow> sorted_wrt (\<lambda>x y. \<not> gt x y) xs"

lemma in_order_simps [simp]:
  "in_order gt []"
  "in_order gt (x # xs) \<longleftrightarrow> (\<forall>y \<in> set xs. \<not> gt x y) \<and> in_order gt xs"
  "in_order gt (xs @ ys) \<longleftrightarrow> in_order gt xs \<and> in_order gt ys \<and> (\<forall>x \<in> set xs. \<forall>y \<in> set ys. \<not> gt x y)"
  by (auto simp: in_order_def sorted_wrt_append)

lemma in_order_take: "in_order gt xs \<Longrightarrow> in_order gt (take n xs)"
  by (metis append_take_drop_id in_order_simps(3))

text \<open>Every aligned block of \<open>b\<close> elements is in order; the last may be short.\<close>

function blocks_sorted :: "('a \<Rightarrow> 'a \<Rightarrow> bool) \<Rightarrow> nat \<Rightarrow> 'a list \<Rightarrow> bool" where
  "blocks_sorted gt b xs \<longleftrightarrow>
     (if b < length xs \<and> 0 < b
      then in_order gt (take b xs) \<and> blocks_sorted gt b (drop b xs)
      else in_order gt xs)"
  by pat_completeness auto
termination
  by (relation "measure (\<lambda>(gt, b, xs). length xs)") auto

declare blocks_sorted.simps [simp del]

lemma blocks_sorted_short:
  "length xs \<le> b \<Longrightarrow> blocks_sorted gt b xs \<longleftrightarrow> in_order gt xs"
  by (subst blocks_sorted.simps) simp

lemma merge_pass_short: "length xs \<le> b \<Longrightarrow> merge_pass gt b xs = xs"
  by (subst merge_pass.simps) simp

lemma merge_passes_done: "n \<le> b \<Longrightarrow> merge_passes gt n b xs = xs"
  by (subst merge_passes.simps) simp

lemma blocks_sorted_append:
  assumes "length xs = b" "0 < b"
  shows "blocks_sorted gt b (xs @ ys) \<longleftrightarrow> in_order gt xs \<and> blocks_sorted gt b ys"
  using assms blocks_sorted.simps [of gt b "xs @ ys"] blocks_sorted.simps [of gt b "[]"]
  by (cases "ys = []") auto

lemma length_merge_blocks [simp]: "length (merge_blocks gt xs ys) = length xs + length ys"
  using mset_merge_blocks [of gt xs ys] by (metis mset_append mset_eq_length length_append)

lemma set_merge_blocks [simp]: "set (merge_blocks gt xs ys) = set xs \<union> set ys"
  by (metis mset_append mset_eq_setD mset_merge_blocks set_append)

lemma blocks_sorted_take_drop:
  assumes "0 < b" "blocks_sorted gt b xs"
  shows "in_order gt (take b xs) \<and> blocks_sorted gt b (drop b xs)"
proof (cases "b < length xs")
  case True
  with assms show ?thesis by (simp add: blocks_sorted.simps [of gt b xs])
next
  case False
  with assms show ?thesis by (simp add: blocks_sorted_short)
qed

locale weak_order =
  fixes gt :: "'a \<Rightarrow> 'a \<Rightarrow> bool"
  assumes asym: "gt x y \<Longrightarrow> \<not> gt y x"
    and not_gt_trans: "\<not> gt x y \<Longrightarrow> \<not> gt y z \<Longrightarrow> \<not> gt x z"
begin

lemma gt_not_gt: "gt x y \<Longrightarrow> \<not> gt x z \<Longrightarrow> \<not> gt y z"
  using asym not_gt_trans by blast

lemma gt_left: "gt x y \<Longrightarrow> \<not> gt x z \<Longrightarrow> gt z y"
  using not_gt_trans by blast

abbreviation same_rank :: "'a \<Rightarrow> 'a \<Rightarrow> bool" where
  "same_rank x y \<equiv> \<not> gt x y \<and> \<not> gt y x"

lemma in_order_merge_blocks:
  "in_order gt xs \<Longrightarrow> in_order gt ys \<Longrightarrow> in_order gt (merge_blocks gt xs ys)"
proof (induction "length xs + length ys" arbitrary: xs ys)
  case 0
  then show ?case by simp
next
  case (Suc n)
  show ?case
  proof (cases xs; cases ys)
    fix x xs' y ys' assume eq: "xs = x # xs'" "ys = y # ys'"
    show ?thesis
    proof (cases "gt x y")
      case True
      with Suc eq have "in_order gt (merge_blocks gt xs ys')" by simp
      moreover have "\<not> gt y z" if "z \<in> set xs \<union> set ys'" for z
        using that Suc.prems True eq by (auto dest: asym gt_not_gt)
      ultimately show ?thesis using True eq by simp
    next
      case False
      with Suc eq have "in_order gt (merge_blocks gt xs' ys)" by simp
      moreover have "\<not> gt x z" if "z \<in> set xs' \<union> set ys" for z
        using that Suc.prems False eq not_gt_trans [of x y z] by auto
      ultimately show ?thesis using False eq by simp
    qed
  qed (use Suc.prems in simp_all)
qed

text \<open>
  Stability: the elements of one rank keep their order. In a merge the left
  block comes first, since a tie takes from the left.
\<close>

lemma filter_merge_blocks:
  "in_order gt xs \<Longrightarrow> in_order gt ys \<Longrightarrow>
     filter (same_rank r) (merge_blocks gt xs ys) = filter (same_rank r) xs @ filter (same_rank r) ys"
proof (induction "length xs + length ys" arbitrary: xs ys)
  case 0
  then show ?case by simp
next
  case (Suc n)
  show ?case
  proof (cases xs; cases ys)
    fix x xs' y ys' assume eq: "xs = x # xs'" "ys = y # ys'"
    show ?thesis
    proof (cases "gt x y")
      case True
      have none: "filter (same_rank r) xs = []" if "same_rank r y"
      proof -
        have "gt z y" if "z \<in> set xs" for z
          using that Suc.prems True eq by (auto intro: gt_left)
        then show ?thesis
          using \<open>same_rank r y\<close> not_gt_trans [of _ r y] unfolding filter_empty_conv by blast
      qed
      from Suc eq have "filter (same_rank r) (merge_blocks gt xs ys') =
          filter (same_rank r) xs @ filter (same_rank r) ys'"
        by simp
      with none True eq show ?thesis by auto
    next
      case False
      from Suc eq have "filter (same_rank r) (merge_blocks gt xs' ys) =
          filter (same_rank r) xs' @ filter (same_rank r) ys"
        by simp
      with False eq show ?thesis by simp
    qed
  qed simp_all
qed

lemma in_order_merge_pass:
  "0 < b \<Longrightarrow> blocks_sorted gt b xs \<Longrightarrow> blocks_sorted gt (b + b) (merge_pass gt b xs)"
proof (induction "length xs" arbitrary: xs rule: less_induct)
  case less
  show ?case
  proof (cases "b < length xs")
    case False
    with less.prems show ?thesis
      using blocks_sorted_short [of xs b] blocks_sorted_short [of xs "b + b"]
        merge_pass_short [of xs b] by auto
  next
    case True
    let ?ys = "take b (drop b xs)" and ?zs = "drop (b + b) xs"
    have fst: "in_order gt (take b xs)" and rest: "blocks_sorted gt b (drop b xs)"
      using less.prems True by (simp_all add: blocks_sorted.simps [of gt b xs])
    have snd: "in_order gt ?ys" and tl: "blocks_sorted gt b ?zs"
      using blocks_sorted_take_drop [OF less.prems(1) rest] by (simp_all add: ac_simps)
    have merged: "in_order gt (merge_blocks gt (take b xs) ?ys)"
      using fst snd by (rule in_order_merge_blocks)
    have IH: "blocks_sorted gt (b + b) (merge_pass gt b ?zs)"
      using less.hyps [of ?zs] less.prems(1) True tl by simp
    have pass: "merge_pass gt b xs = merge_blocks gt (take b xs) ?ys @ merge_pass gt b ?zs"
      using True less.prems(1) by (simp add: merge_pass.simps [of gt b xs])
    show ?thesis
    proof (cases "b + b < length xs")
      case True
      then show ?thesis
        using merged IH less.prems(1) by (simp add: pass blocks_sorted_append)
    next
      case False
      then have "merge_pass gt b ?zs = []"
        by (simp add: merge_pass.simps)
      with merged pass False show ?thesis
        by (subst blocks_sorted.simps) auto
    qed
  qed
qed

lemma filter_merge_pass:
  "0 < b \<Longrightarrow> blocks_sorted gt b xs \<Longrightarrow>
     filter (same_rank r) (merge_pass gt b xs) = filter (same_rank r) xs"
proof (induction "length xs" arbitrary: xs rule: less_induct)
  case less
  show ?case
  proof (cases "b < length xs")
    case False
    then show ?thesis by (simp add: merge_pass_short)
  next
    case True
    let ?ys = "take b (drop b xs)" and ?zs = "drop (b + b) xs"
    have fst: "in_order gt (take b xs)" and rest: "blocks_sorted gt b (drop b xs)"
      using less.prems True by (simp_all add: blocks_sorted.simps [of gt b xs])
    have snd: "in_order gt ?ys" and tl: "blocks_sorted gt b ?zs"
      using blocks_sorted_take_drop [OF less.prems(1) rest] by (simp_all add: ac_simps)
    have "filter (same_rank r) (merge_pass gt b ?zs) = filter (same_rank r) ?zs"
      using less.hyps [of ?zs] less.prems(1) True tl by simp
    moreover have "xs = take b xs @ ?ys @ ?zs"
      by (metis append_take_drop_id drop_drop)
    then have "filter (same_rank r) xs =
        filter (same_rank r) (take b xs) @ filter (same_rank r) ?ys @ filter (same_rank r) ?zs"
      by (metis filter_append)
    moreover have "merge_pass gt b xs = merge_blocks gt (take b xs) ?ys @ merge_pass gt b ?zs"
      using True less.prems(1) by (simp add: merge_pass.simps [of gt b xs])
    ultimately show ?thesis
      using filter_merge_blocks [OF fst snd] by simp
  qed
qed

lemma merge_passes_sorted:
  "0 < b \<Longrightarrow> n = length xs \<Longrightarrow> blocks_sorted gt b xs \<Longrightarrow>
     in_order gt (merge_passes gt n b xs) \<and>
     filter (same_rank r) (merge_passes gt n b xs) = filter (same_rank r) xs"
proof (induction "n - b" arbitrary: b xs rule: less_induct)
  case less
  show ?case
  proof (cases "b < n")
    case False
    with less.prems show ?thesis
      by (simp add: merge_passes_done blocks_sorted_short)
  next
    case True
    with less.prems have "merge_passes gt n b xs = merge_passes gt n (b + b) (merge_pass gt b xs)"
      by (subst merge_passes.simps) simp
    with less.hyps [of "b + b" "merge_pass gt b xs"] less.prems True show ?thesis
      by (simp add: in_order_merge_pass filter_merge_pass)
  qed
qed

lemma sort_pairs_blocks:
  "blocks_sorted gt 2 (sort_pairs gt xs) \<and>
     filter (same_rank r) (sort_pairs gt xs) = filter (same_rank r) xs"
proof (induction "length xs" arbitrary: xs rule: less_induct)
  case less
  show ?case
  proof (cases "(gt, xs)" rule: sort_pairs.cases)
    case (1 gt' x y zs)
    then have [simp]: "xs = x # y # zs" by simp
    have IH: "blocks_sorted gt 2 (sort_pairs gt zs) \<and>
        filter (same_rank r) (sort_pairs gt zs) = filter (same_rank r) zs"
      using less.hyps [of zs] by simp
    show ?thesis
    proof (cases "gt x y")
      case True
      have "blocks_sorted gt 2 ([y, x] @ sort_pairs gt zs)"
        using True IH asym by (subst blocks_sorted_append) auto
      with True IH show ?thesis
        using not_gt_trans by auto
    next
      case False
      have "blocks_sorted gt 2 ([x, y] @ sort_pairs gt zs)"
        using False IH by (subst blocks_sorted_append) auto
      with False IH show ?thesis by auto
    qed
  qed (auto simp: blocks_sorted.simps)
qed

lemma table_mergesort_in_order: "in_order gt (table_mergesort gt xs)"
  using merge_passes_sorted [of 2 "length xs" "sort_pairs gt xs"] sort_pairs_blocks [of xs]
  by (simp add: table_mergesort_def)

lemma table_mergesort_stable:
  "filter (same_rank r) (table_mergesort gt xs) = filter (same_rank r) xs"
  using merge_passes_sorted [of 2 "length xs" "sort_pairs gt xs"] sort_pairs_blocks [of xs]
  by (simp add: table_mergesort_def)

end

end
