(* ===== verification/Apr_Store_Interface.thy ===== *)
theory Apr_Store_Interface
  imports Apr_Prelude
begin

text \<open>
  The contract of a store of values under keys, which both the string tables
  (\<open>apr_tables.c\<close>, keys compared without case) and the hash tables
  (\<open>apr_hash.c\<close>, keys compared as bytes) offer to their callers: what a lookup
  returns after an update or a removal. The lemmas derive from the contract what
  a whole sequence of updates leaves behind; each implementation interprets the
  locale on its own operations.
\<close>

locale keyed_store =
  fixes ok :: "'s \<Rightarrow> bool"
    and same :: "'k \<Rightarrow> 'k \<Rightarrow> bool"
    and lookup :: "'s \<Rightarrow> 'k \<Rightarrow> 'v option"
    and update :: "'s \<Rightarrow> 'k \<Rightarrow> 'v \<Rightarrow> 's"
    and delete :: "'s \<Rightarrow> 'k \<Rightarrow> 's"
  assumes ok_update: "ok s \<Longrightarrow> ok (update s k v)"
    and ok_delete: "ok s \<Longrightarrow> ok (delete s k)"
    and lookup_update: "ok s \<Longrightarrow> lookup (update s k v) k' = (if same k k' then Some v else lookup s k')"
    and lookup_delete: "ok s \<Longrightarrow> lookup (delete s k) k' = (if same k k' then None else lookup s k')"
begin

abbreviation update_all :: "'s \<Rightarrow> ('k \<times> 'v) list \<Rightarrow> 's" where
  "update_all \<equiv> foldl (\<lambda>s (k, v). update s k v)"

lemma ok_update_all: "ok s \<Longrightarrow> ok (update_all s kvs)"
  by (induction kvs arbitrary: s) (auto intro: ok_update)

text \<open>The last update of a key decides, whatever was updated in between.\<close>

lemma lookup_update_all:
  "ok s \<Longrightarrow> lookup (update_all s kvs) k' =
     (case find (\<lambda>(k, v). same k k') (rev kvs) of Some (k, v) \<Rightarrow> Some v | None \<Rightarrow> lookup s k')"
proof (induction kvs rule: rev_induct)
  case (snoc kv kvs)
  obtain k v where kv: "kv = (k, v)" by (cases kv)
  have "lookup (update_all s (kvs @ [kv])) k' = lookup (update (update_all s kvs) k v) k'"
    by (simp add: kv)
  then show ?case
    using snoc by (simp add: kv lookup_update ok_update_all)
qed simp

lemma lookup_update_commute:
  "ok s \<Longrightarrow> \<not> same k1 k' \<or> \<not> same k2 k' \<Longrightarrow>
     lookup (update (update s k1 v1) k2 v2) k' = lookup (update (update s k2 v2) k1 v1) k'"
  by (auto simp: lookup_update ok_update)

lemma lookup_delete_update:
  "ok s \<Longrightarrow> (\<And>x. same k x \<Longrightarrow> same k' x) \<Longrightarrow> lookup (delete (update s k v) k') x = lookup (delete s k') x"
  by (auto simp: lookup_update lookup_delete ok_update)

end

end
