(* ===== verification/Apr_Tables.thy ===== *)
theory Apr_Tables
  imports Apr_Arrays Apr_Mergesort Apr_Store_Interface
begin

text \<open>
  The string tables of \<open>srclib/apr/tables/apr_tables.c\<close>: an array of entries with
  an index of 32 chains over the first byte of the key, and a four-byte checksum
  per entry that lets a lookup skip \<open>strcasecmp\<close>. The operations are transcribed
  with their index loops and in-place moves; the lemmas show that the index
  stays exact and that each operation is a simple function of the list of
  entries. A value may be NULL (\<open>setn\<close>, \<open>addn\<close> and \<open>mergen\<close> store the pointer
  they get), so it is an \<open>option\<close>; a key may not, because every operation reads
  its first byte.
\<close>

section \<open>Keys: index and checksum\<close>

definition CASE_MASK :: "32 word" where
  "CASE_MASK = 0xdfdfdfdf"

definition TABLE_HASH :: "cstr \<Rightarrow> nat" where
  "TABLE_HASH key = unat (and 0x1f (byte_of (char_at key 0)))"

definition COMPUTE_KEY_CHECKSUM :: "cstr \<Rightarrow> 32 word" where
  "COMPUTE_KEY_CHECKSUM key =
     (let c = char_to_u32 (char_at key 0);
          checksum = push_bit 8 c;
          (c, checksum) = (if c \<noteq> 0 then (let c = char_to_u32 (char_at key 1) in (c, or checksum c))
                           else (c, checksum));
          checksum = push_bit 8 checksum;
          (c, checksum) = (if c \<noteq> 0 then (let c = char_to_u32 (char_at key 2) in (c, or checksum c))
                           else (c, checksum));
          checksum = push_bit 8 checksum;
          (c, checksum) = (if c \<noteq> 0 then (let c = char_to_u32 (char_at key 3) in (c, or checksum c))
                           else (c, checksum))
      in and checksum CASE_MASK)"

section \<open>Tables\<close>

record apr_table_entry =
  te_key :: cstr
  te_val :: "cstr option"
  te_checksum :: "32 word"

text \<open>
  \<open>index_first\<close> and \<open>index_last\<close> are the arrays of 32 offsets; \<open>apr_table_make\<close>
  leaves them unwritten, so an element is an \<open>option\<close>.
\<close>

record apr_table =
  tab :: "apr_table_entry array_header"
  index_initialized :: "32 word"
  index_first :: "nat \<Rightarrow> nat option"
  index_last :: "nat \<Rightarrow> nat option"

definition TABLE_INDEX_IS_INITIALIZED :: "apr_table \<Rightarrow> nat \<Rightarrow> bool" where
  "TABLE_INDEX_IS_INITIALIZED t i \<longleftrightarrow> and (index_initialized t) (push_bit i 1) \<noteq> 0"

definition TABLE_SET_INDEX_INITIALIZED :: "apr_table \<Rightarrow> nat \<Rightarrow> apr_table" where
  "TABLE_SET_INDEX_INITIALIZED t i =
     t\<lparr>index_initialized := or (index_initialized t) (push_bit i 1)\<rparr>"

abbreviation first_of :: "apr_table \<Rightarrow> nat \<Rightarrow> nat" where
  "first_of t h \<equiv> the (index_first t h)"

abbreviation last_of :: "apr_table \<Rightarrow> nat \<Rightarrow> nat" where
  "last_of t h \<equiv> the (index_last t h)"

text \<open>The entry a pointer into the table designates.\<close>

definition elt :: "apr_table \<Rightarrow> nat \<Rightarrow> apr_table_entry" where
  "elt t i = the (elts (tab t) ! i)"

definition zero_entry :: apr_table_entry where
  "zero_entry = \<lparr>te_key = [], te_val = None, te_checksum = 0\<rparr>"

definition apr_is_empty_table :: "apr_table option \<Rightarrow> bool" where
  "apr_is_empty_table t = (case t of None \<Rightarrow> True | Some tbl \<Rightarrow> nelts (tab tbl) = 0)"

definition apr_table_make :: "int \<Rightarrow> apr_table" where
  "apr_table_make n =
     \<lparr>tab = make_array_core zero_entry n False, index_initialized = 0,
      index_first = (\<lambda>_. None), index_last = (\<lambda>_. None)\<rparr>"

text \<open>
  \<open>apr_table_copy\<close> leaves the slots behind the copied entries unwritten.
\<close>

definition apr_table_copy :: "apr_table \<Rightarrow> apr_table" where
  "apr_table_copy t =
     (let a = make_array_core zero_entry (int (nalloc (tab t))) False
      in \<lparr>tab = a\<lparr>elts := take (nelts (tab t)) (elts (tab t)) @ drop (nelts (tab t)) (elts a),
                  nelts := nelts (tab t)\<rparr>,
          index_initialized = index_initialized t,
          index_first = index_first t, index_last = index_last t\<rparr>)"

definition table_push :: "apr_table \<Rightarrow> apr_table_entry \<Rightarrow> apr_table" where
  "table_push t e = t\<lparr>tab := array_put_noclear (tab t) e\<rparr>"

section \<open>The index\<close>

text \<open>\<open>table_reindex\<close>: the loop of the function, from entry \<open>i\<close> on.\<close>

definition reindex_step :: "nat \<Rightarrow> apr_table \<Rightarrow> apr_table" where
  "reindex_step i t =
     (let h = TABLE_HASH (te_key (elt t i));
          t = t\<lparr>index_last := (index_last t)(h := Some i)\<rparr>
      in if \<not> TABLE_INDEX_IS_INITIALIZED t h
         then TABLE_SET_INDEX_INITIALIZED (t\<lparr>index_first := (index_first t)(h := Some i)\<rparr>) h
         else t)"

definition table_reindex :: "apr_table \<Rightarrow> apr_table" where
  "table_reindex t =
     fold reindex_step [0..<nelts (tab t)] (t\<lparr>index_initialized := 0\<rparr>)"

definition apr_table_clear :: "apr_table \<Rightarrow> apr_table" where
  "apr_table_clear t = t\<lparr>tab := (tab t)\<lparr>nelts := 0\<rparr>, index_initialized := 0\<rparr>"

section \<open>Lookup and update\<close>

definition key_match :: "32 word \<Rightarrow> cstr \<Rightarrow> apr_table_entry \<Rightarrow> bool" where
  "key_match checksum key e \<longleftrightarrow> checksum = te_checksum e \<and> strcasecmp (te_key e) key = 0"

definition apr_table_get :: "apr_table \<Rightarrow> cstr option \<Rightarrow> cstr option" where
  "apr_table_get t key_ptr =
     (case key_ptr of None \<Rightarrow> None
      | Some key \<Rightarrow>
          (let hash = TABLE_HASH key
           in if \<not> TABLE_INDEX_IS_INITIALIZED t hash then None
              else let checksum = COMPUTE_KEY_CHECKSUM key
                   in case scan (\<lambda>i. key_match checksum key (elt t i)) (first_of t hash) (last_of t hash)
                      of Some i \<Rightarrow> te_val (elt t i)
                       | None \<Rightarrow> None))"

text \<open>The new entry at the label \<open>add_new_elt\<close>.\<close>

definition add_new_elt :: "apr_table \<Rightarrow> nat \<Rightarrow> cstr \<Rightarrow> cstr option \<Rightarrow> 32 word \<Rightarrow> apr_table" where
  "add_new_elt t hash key val checksum =
     table_push (t\<lparr>index_last := (index_last t)(hash := Some (nelts (tab t)))\<rparr>)
       \<lparr>te_key = key, te_val = val, te_checksum = checksum\<rparr>"

definition start_chain :: "apr_table \<Rightarrow> nat \<Rightarrow> apr_table" where
  "start_chain t hash =
     TABLE_SET_INDEX_INITIALIZED
       (t\<lparr>index_first := (index_first t)(hash := Some (nelts (tab t)))\<rparr>) hash"

text \<open>
  The removal loop of \<open>apr_table_set\<close> behind the overwritten entry: \<open>dst\<close> is
  NULL until the first duplicate, then the place the next kept entry moves to.
  The result is the block, the number of entries, \<open>dst\<close> and \<open>must_reindex\<close>.
\<close>

function remove_dups ::
    "(apr_table_entry option \<Rightarrow> bool) \<Rightarrow> nat \<Rightarrow> nat \<Rightarrow>
     apr_table_entry option list \<times> nat \<times> nat option \<times> bool \<Rightarrow>
     apr_table_entry option list \<times> nat \<times> nat option \<times> bool" where
  "remove_dups dup next_elt end_elt (es, n, dst, must_reindex) =
     (if next_elt \<le> end_elt then
        if dup (es ! next_elt) then
          remove_dups dup (Suc next_elt) end_elt
            (es, n - 1, (case dst of None \<Rightarrow> Some next_elt | Some d \<Rightarrow> Some d), must_reindex)
        else
          (case dst of
             None \<Rightarrow> remove_dups dup (Suc next_elt) end_elt (es, n, None, must_reindex)
           | Some d \<Rightarrow> remove_dups dup (Suc next_elt) end_elt
                         (es[d := es ! next_elt], n, Some (Suc d), True))
      else (es, n, dst, must_reindex))"
  by pat_completeness auto
termination
  by (relation "measure (\<lambda>(dup, next_elt, end_elt, st). Suc end_elt - next_elt)") auto

declare remove_dups.simps [simp del]

text \<open>\<open>for (; next_elt < table_end; next_elt++) *dst_elt++ = *next_elt;\<close>\<close>

function shift_down :: "nat \<Rightarrow> nat \<Rightarrow> nat \<Rightarrow> 'a list \<Rightarrow> 'a list" where
  "shift_down next_elt table_end dst es =
     (if next_elt < table_end
      then shift_down (Suc next_elt) table_end (Suc dst) (es[dst := es ! next_elt])
      else es)"
  by pat_completeness auto
termination
  by (relation "measure (\<lambda>(next_elt, table_end, dst, es). table_end - next_elt)") auto

declare shift_down.simps [simp del]

text \<open>
  \<open>apr_table_set\<close> and \<open>apr_table_setn\<close> differ in whether the strings are
  duplicated first; both are this function of the strings that are stored.
\<close>

definition table_set_with :: "apr_table \<Rightarrow> cstr \<Rightarrow> cstr \<Rightarrow> cstr option \<Rightarrow> apr_table" where
  "table_set_with t key stored_key stored_val =
     (let checksum = COMPUTE_KEY_CHECKSUM key;
          hash = TABLE_HASH key
      in if \<not> TABLE_INDEX_IS_INITIALIZED t hash
         then add_new_elt (start_chain t hash) hash stored_key stored_val checksum
         else
           let end_elt = last_of t hash;
               table_end = nelts (tab t)
           in case scan (\<lambda>i. key_match checksum key (elt t i)) (first_of t hash) end_elt of
                None \<Rightarrow> add_new_elt t hash stored_key stored_val checksum
              | Some i \<Rightarrow>
                  let es = (elts (tab t))[i := Some ((elt t i)\<lparr>te_val := stored_val\<rparr>)];
                      (es, n, dst, must_reindex) =
                        remove_dups (\<lambda>e. key_match checksum key (the e)) (Suc i) end_elt
                          (es, table_end, None, False);
                      (es, must_reindex) =
                        (case dst of
                           Some d \<Rightarrow> (shift_down (Suc end_elt) table_end d es, True)
                         | None \<Rightarrow> (es, must_reindex));
                      t = t\<lparr>tab := (tab t)\<lparr>elts := es, nelts := n\<rparr>\<rparr>
                  in if must_reindex then table_reindex t else t)"

definition apr_table_set :: "apr_table \<Rightarrow> cstr \<Rightarrow> cstr option \<Rightarrow> apr_table" where
  "apr_table_set t key val =
     table_set_with t key (the (apr_pstrdup (Some key))) (apr_pstrdup val)"

definition apr_table_setn :: "apr_table \<Rightarrow> cstr \<Rightarrow> cstr option \<Rightarrow> apr_table" where
  "apr_table_setn t key val = table_set_with t key key val"

text \<open>
  \<open>apr_table_unset\<close>: the first match fixes \<open>dst_elt\<close>, so that every later entry
  up to \<open>end_elt\<close> is dropped or moved, and the rest of the table is moved down.
\<close>

function remove_rest ::
    "(apr_table_entry option \<Rightarrow> bool) \<Rightarrow> nat \<Rightarrow> nat \<Rightarrow>
     apr_table_entry option list \<times> nat \<times> nat \<Rightarrow> apr_table_entry option list \<times> nat \<times> nat" where
  "remove_rest dup next_elt end_elt (es, n, dst) =
     (if next_elt \<le> end_elt then
        if dup (es ! next_elt) then remove_rest dup (Suc next_elt) end_elt (es, n - 1, dst)
        else remove_rest dup (Suc next_elt) end_elt (es[dst := es ! next_elt], n, Suc dst)
      else (es, n, dst))"
  by pat_completeness auto
termination
  by (relation "measure (\<lambda>(dup, next_elt, end_elt, st). Suc end_elt - next_elt)") auto

declare remove_rest.simps [simp del]

definition apr_table_unset :: "apr_table \<Rightarrow> cstr \<Rightarrow> apr_table" where
  "apr_table_unset t key =
     (let hash = TABLE_HASH key
      in if \<not> TABLE_INDEX_IS_INITIALIZED t hash then t
         else
           let checksum = COMPUTE_KEY_CHECKSUM key;
               end_elt = last_of t hash
           in case scan (\<lambda>i. key_match checksum key (elt t i)) (first_of t hash) end_elt of
                None \<Rightarrow> t
              | Some i \<Rightarrow>
                  let table_end = nelts (tab t);
                      (es, n, dst) =
                        remove_rest (\<lambda>e. key_match checksum key (the e)) (Suc i) end_elt
                          (elts (tab t), table_end - 1, i);
                      es = shift_down (Suc end_elt) table_end dst es
                  in table_reindex (t\<lparr>tab := (tab t)\<lparr>elts := es, nelts := n\<rparr>\<rparr>))"

definition table_merge_with ::
    "apr_table \<Rightarrow> cstr \<Rightarrow> cstr option \<Rightarrow> cstr \<Rightarrow> cstr option \<Rightarrow> apr_table" where
  "table_merge_with t key val stored_key stored_val =
     (let checksum = COMPUTE_KEY_CHECKSUM key;
          hash = TABLE_HASH key
      in if \<not> TABLE_INDEX_IS_INITIALIZED t hash
         then add_new_elt (start_chain t hash) hash stored_key stored_val checksum
         else
           case scan (\<lambda>i. key_match checksum key (elt t i)) (first_of t hash) (last_of t hash) of
             None \<Rightarrow> add_new_elt t hash stored_key stored_val checksum
           | Some i \<Rightarrow>
               let e = elt t i;
                   e = e\<lparr>te_val := Some (apr_pstrcat [te_val e, Some '', '', val])\<rparr>
               in t\<lparr>tab := (tab t)\<lparr>elts := (elts (tab t))[i := Some e]\<rparr>\<rparr>)"

definition apr_table_merge :: "apr_table \<Rightarrow> cstr \<Rightarrow> cstr option \<Rightarrow> apr_table" where
  "apr_table_merge t key val =
     table_merge_with t key val (the (apr_pstrdup (Some key))) (apr_pstrdup val)"

definition apr_table_mergen :: "apr_table \<Rightarrow> cstr \<Rightarrow> cstr option \<Rightarrow> apr_table" where
  "apr_table_mergen t key val = table_merge_with t key val key val"

definition table_add_with :: "apr_table \<Rightarrow> cstr \<Rightarrow> cstr \<Rightarrow> cstr option \<Rightarrow> apr_table" where
  "table_add_with t key stored_key stored_val =
     (let hash = TABLE_HASH key;
          t = t\<lparr>index_last := (index_last t)(hash := Some (nelts (tab t)))\<rparr>;
          t = (if \<not> TABLE_INDEX_IS_INITIALIZED t hash then start_chain t hash else t);
          checksum = COMPUTE_KEY_CHECKSUM key
      in table_push t \<lparr>te_key = stored_key, te_val = stored_val, te_checksum = checksum\<rparr>)"

definition apr_table_add :: "apr_table \<Rightarrow> cstr \<Rightarrow> cstr option \<Rightarrow> apr_table" where
  "apr_table_add t key val =
     table_add_with t key (the (apr_pstrdup (Some key))) (apr_pstrdup val)"

definition apr_table_addn :: "apr_table \<Rightarrow> cstr \<Rightarrow> cstr option \<Rightarrow> apr_table" where
  "apr_table_addn t key val = table_add_with t key key val"

definition apr_table_clone :: "apr_table \<Rightarrow> apr_table" where
  "apr_table_clone t =
     foldl (\<lambda>new i. apr_table_add new (te_key (elt t i)) (te_val (elt t i)))
       (apr_table_make (int (nelts (tab t)))) [0..<nelts (tab t)]"

text \<open>\<open>apr_table_overlay\<close>: the entries of the overlay, then those of the base.\<close>

definition apr_table_overlay :: "apr_table \<Rightarrow> apr_table \<Rightarrow> apr_table" where
  "apr_table_overlay overlay base =
     table_reindex
       \<lparr>tab = apr_array_cat zero_entry (copy_array_hdr_core (tab overlay)) (tab base),
        index_initialized = 0, index_first = (\<lambda>_. None), index_last = (\<lambda>_. None)\<rparr>"

section \<open>Iteration\<close>

text \<open>
  The callback gets the record of the caller, a key and a value; it returns the
  updated record and whether to go on. \<open>vdo_scan\<close> runs over the given offsets
  while the callback returns a non-zero value; a chain visits the entries that
  match the key, a full pass all of them.
\<close>

type_synonym 'r table_callback = "'r \<Rightarrow> cstr \<Rightarrow> cstr option \<Rightarrow> 'r \<times> bool"

fun vdo_scan ::
    "'r table_callback \<Rightarrow> apr_table \<Rightarrow> (apr_table_entry \<Rightarrow> bool) \<Rightarrow> nat list \<Rightarrow> 'r \<Rightarrow> 'r \<times> bool" where
  "vdo_scan cb t visit [] rec = (rec, True)"
| "vdo_scan cb t visit (i # is) rec =
     (if visit (elt t i)
      then let (rec', rv) = cb rec (te_key (elt t i)) (te_val (elt t i))
           in if rv then vdo_scan cb t visit is rec' else (rec', False)
      else vdo_scan cb t visit is rec)"

definition vdo_key :: "'r table_callback \<Rightarrow> apr_table \<Rightarrow> cstr \<Rightarrow> 'r \<Rightarrow> 'r \<times> bool" where
  "vdo_key cb t argp rec =
     (let hash = TABLE_HASH argp
      in if TABLE_INDEX_IS_INITIALIZED t hash
         then let checksum = COMPUTE_KEY_CHECKSUM argp
              in vdo_scan cb t (key_match checksum argp) [first_of t hash..<Suc (last_of t hash)] rec
         else (rec, True))"

text \<open>The keys are the variadic arguments before the terminating NULL.\<close>

fun vdo_keys :: "'r table_callback \<Rightarrow> apr_table \<Rightarrow> cstr list \<Rightarrow> 'r \<times> bool \<Rightarrow> 'r \<times> bool" where
  "vdo_keys cb t [] acc = acc"
| "vdo_keys cb t (argp # vp) (rec, vdorv) =
     (let (rec', rv) = vdo_key cb t argp rec in vdo_keys cb t vp (rec', vdorv \<and> rv))"

definition apr_table_vdo :: "'r table_callback \<Rightarrow> 'r \<Rightarrow> apr_table \<Rightarrow> cstr list \<Rightarrow> 'r \<times> bool" where
  "apr_table_vdo cb rec t vp =
     (if vp = [] then vdo_scan cb t (\<lambda>_. True) [0..<nelts (tab t)] rec
      else vdo_keys cb t vp (rec, True))"

definition apr_table_do :: "'r table_callback \<Rightarrow> 'r \<Rightarrow> apr_table \<Rightarrow> cstr list \<Rightarrow> 'r \<times> bool" where
  "apr_table_do cb rec t vp = apr_table_vdo cb rec t vp"

section \<open>Keys that compare equal have one index and one checksum\<close>

lemma isupper_cases:
  assumes "isupper c"
  shows "of_char c \<in> {65, 66, 67, 68, 69, 70, 71, 72, 73, 74, 75, 76, 77, 78, 79, 80,
    81, 82, 83, 84, 85, 86, 87, 88, 89, 90 :: nat}"
  using assms unfolding isupper_def by simp arith

lemma TABLE_HASH_char: "and 0x1f (byte_of (tolower c)) = and 0x1f (byte_of c)"
proof (cases "isupper c")
  case True
  with isupper_cases [OF True] show ?thesis
    by (auto simp: byte_of_def of_char_tolower)
qed (simp add: tolower_def)

lemma char_to_u32_tolower:
  "and (char_to_u32 (tolower c)) CASE_MASK = and (char_to_u32 c) CASE_MASK \<and>
   (char_to_u32 (tolower c) = 0 \<longleftrightarrow> char_to_u32 c = 0)"
proof (cases "isupper c")
  case True
  with isupper_cases [OF True] show ?thesis
    by (auto simp: char_to_u32_def byte_of_def of_char_tolower CASE_MASK_def)
qed (simp add: tolower_def)

lemma mask_push: "and (push_bit 8 x) CASE_MASK = push_bit 8 (and x CASE_MASK)"
proof (rule bit_word_eqI)
  fix n :: nat assume "n < LENGTH(32)"
  then have "n < 8 \<or> n \<in> {8, 9, 10, 11, 12, 13, 14, 15, 16, 17, 18, 19, 20, 21, 22, 23, 24, 25, 26, 27, 28, 29, 30, 31}"
    by simp arith
  then show "bit (and (push_bit 8 x) CASE_MASK) n = bit (push_bit 8 (and x CASE_MASK)) n"
    by (auto simp: bit_simps CASE_MASK_def)
qed

lemma mask_or: "and (or x y) CASE_MASK = or (and x CASE_MASK) (and y CASE_MASK)"
  by (simp add: bit.conj_disj_distrib2)

lemma char_at_map: "char_at (map tolower k) i = tolower (char_at k i)"
  by (simp add: char_at_def)

lemma TABLE_HASH_ci: "ci_eq a b \<Longrightarrow> TABLE_HASH a = TABLE_HASH b"
  by (metis TABLE_HASH_def TABLE_HASH_char char_at_map ci_eq_iff)

lemma CHECKSUM_fold: "COMPUTE_KEY_CHECKSUM (map tolower k) = COMPUTE_KEY_CHECKSUM k"
  by (cases "char_to_u32 (char_at k 0) = 0"; cases "char_to_u32 (char_at k 1) = 0";
      cases "char_to_u32 (char_at k 2) = 0")
    (simp_all add: COMPUTE_KEY_CHECKSUM_def Let_def char_at_map mask_or mask_push
      char_to_u32_tolower del: push_bit_push_bit push_bit_and push_bit_or)

lemma CHECKSUM_ci: "ci_eq a b \<Longrightarrow> COMPUTE_KEY_CHECKSUM a = COMPUTE_KEY_CHECKSUM b"
  by (metis CHECKSUM_fold ci_eq_iff)

lemma bit_initialized:
  "TABLE_INDEX_IS_INITIALIZED t i \<longleftrightarrow> bit (index_initialized t) i"
  by (simp add: TABLE_INDEX_IS_INITIALIZED_def bit_iff_and_push_bit_not_eq_0)


section \<open>The invariant\<close>

abbreviation entries :: "apr_table \<Rightarrow> apr_table_entry list" where
  "entries t \<equiv> array_list (tab t)"

definition chain :: "apr_table_entry list \<Rightarrow> nat \<Rightarrow> nat list" where
  "chain l h = filter (\<lambda>i. TABLE_HASH (te_key (l ! i)) = h) [0..<length l]"

definition index_ok :: "apr_table \<Rightarrow> apr_table_entry list \<Rightarrow> bool" where
  "index_ok t l \<longleftrightarrow> (\<forall>h < 32. TABLE_INDEX_IS_INITIALIZED t h = (chain l h \<noteq> []) \<and>
     (chain l h \<noteq> [] \<longrightarrow>
        index_first t h = Some (hd (chain l h)) \<and> index_last t h = Some (last (chain l h))))"

definition checksums_ok :: "apr_table_entry list \<Rightarrow> bool" where
  "checksums_ok l \<longleftrightarrow> (\<forall>e \<in> set l. te_checksum e = COMPUTE_KEY_CHECKSUM (te_key e))"

definition table_ok :: "apr_table \<Rightarrow> bool" where
  "table_ok t \<longleftrightarrow> array_ok (tab t) \<and> index_ok t (entries t) \<and> checksums_ok (entries t)"

lemma table_okD:
  assumes "table_ok t"
  shows "array_ok (tab t)" "index_ok t (entries t)" "checksums_ok (entries t)"
  using assms by (simp_all add: table_ok_def)

lemma TABLE_HASH_less [simp]: "TABLE_HASH key < 32"
proof -
  have "and 0x1f (byte_of (char_at key 0)) \<le> (0x1f :: 8 word)"
    by (rule word_and_le2)
  then show ?thesis by (simp add: TABLE_HASH_def word_le_nat_alt)
qed

lemma elt_entries: "array_ok (tab t) \<Longrightarrow> i < nelts (tab t) \<Longrightarrow> elt t i = entries t ! i"
  by (simp add: elt_def array_list_nth)

lemma sorted_hd_last: "sorted xs \<Longrightarrow> x \<in> set xs \<Longrightarrow> hd xs \<le> x \<and> x \<le> last (xs :: nat list)"
  by (induction xs) (auto split: if_splits)

lemma chain_bounds:
  assumes "i < length l" "TABLE_HASH (te_key (l ! i)) = h"
  shows "hd (chain l h) \<le> i \<and> i \<le> last (chain l h)" "chain l h \<noteq> []"
proof -
  from assms have "i \<in> set (chain l h)" by (simp add: chain_def)
  moreover have "sorted (chain l h)" by (simp add: chain_def sorted_wrt_filter)
  ultimately show "hd (chain l h) \<le> i \<and> i \<le> last (chain l h)"
    by (rule sorted_hd_last [rotated])
  from \<open>i \<in> set (chain l h)\<close> show "chain l h \<noteq> []" by auto
qed

lemma chain_less: "i \<in> set (chain l h) \<Longrightarrow> i < length l"
  by (simp add: chain_def)

lemma chain_snoc:
  "chain (l @ [e]) h = chain l h @ (if TABLE_HASH (te_key e) = h then [length l] else [])"
  by (auto simp: chain_def nth_append intro!: filter_cong)

lemma chain_Nil [simp]: "chain [] h = []"
  by (simp add: chain_def)

text \<open>The index depends on the keys only.\<close>

lemma chain_cong: "map te_key l = map te_key l' \<Longrightarrow> chain l h = chain l' h"
proof -
  assume eq: "map te_key l = map te_key l'"
  then have "length l = length l'" by (rule map_eq_imp_length_eq)
  moreover have "te_key (l ! i) = te_key (l' ! i)" if "i < length l" for i
    using that eq calculation by (metis nth_map)
  ultimately show ?thesis
    by (auto simp: chain_def intro!: filter_cong)
qed

lemma index_ok_cong: "map te_key l = map te_key l' \<Longrightarrow> index_ok t l = index_ok t l'"
  using chain_cong [of l l'] by (simp add: index_ok_def)

lemma index_ok_empty: "index_initialized t = 0 \<Longrightarrow> index_ok t []"
  by (simp add: index_ok_def bit_initialized)

lemma index_initialized_set:
  "i < 32 \<Longrightarrow> j < 32 \<Longrightarrow>
     TABLE_INDEX_IS_INITIALIZED (TABLE_SET_INDEX_INITIALIZED t i) j =
       (j = i \<or> TABLE_INDEX_IS_INITIALIZED t j)"
  by (auto simp: bit_initialized TABLE_SET_INDEX_INITIALIZED_def bit_simps)

lemma index_set_simps [simp]:
  "tab (TABLE_SET_INDEX_INITIALIZED t i) = tab t"
  "index_first (TABLE_SET_INDEX_INITIALIZED t i) = index_first t"
  "index_last (TABLE_SET_INDEX_INITIALIZED t i) = index_last t"
  by (simp_all add: TABLE_SET_INDEX_INITIALIZED_def)

lemma index_initialized_cong:
  "index_initialized t = index_initialized t' \<Longrightarrow>
     TABLE_INDEX_IS_INITIALIZED t i = TABLE_INDEX_IS_INITIALIZED t' i"
  by (simp add: TABLE_INDEX_IS_INITIALIZED_def)

text \<open>One step of the index for an entry appended at position \<open>length l\<close>.\<close>

lemma index_ok_snoc:
  assumes ok: "index_ok t l" and h: "h = TABLE_HASH (te_key e)"
    and init: "\<And>i. i < 32 \<Longrightarrow> TABLE_INDEX_IS_INITIALIZED t' i = (i = h \<or> TABLE_INDEX_IS_INITIALIZED t i)"
    and last: "index_last t' = (index_last t)(h := Some (length l))"
    and first: "index_first t' =
      (if TABLE_INDEX_IS_INITIALIZED t h then index_first t else (index_first t)(h := Some (length l)))"
  shows "index_ok t' (l @ [e])"
  unfolding index_ok_def
proof (intro allI impI)
  fix i :: nat assume i: "i < 32"
  with ok have "TABLE_INDEX_IS_INITIALIZED t i = (chain l i \<noteq> [])"
    and "chain l i \<noteq> [] \<longrightarrow> index_first t i = Some (hd (chain l i)) \<and> index_last t i = Some (last (chain l i))"
    by (simp_all add: index_ok_def)
  then show "TABLE_INDEX_IS_INITIALIZED t' i = (chain (l @ [e]) i \<noteq> []) \<and>
      (chain (l @ [e]) i \<noteq> [] \<longrightarrow> index_first t' i = Some (hd (chain (l @ [e]) i)) \<and>
        index_last t' i = Some (last (chain (l @ [e]) i)))"
    using init [OF i] by (cases "i = h") (auto simp: last first chain_snoc h)
qed

lemma reindex_step_ok:
  assumes arr: "array_ok (tab t)" and i: "i < nelts (tab t)"
    and ok: "index_ok t (take i (entries t))"
  shows "index_ok (reindex_step i t) (take (Suc i) (entries t)) \<and> tab (reindex_step i t) = tab t"
proof -
  let ?e = "entries t ! i" and ?l = "take i (entries t)"
  have len: "length ?l = i" and snoc: "take (Suc i) (entries t) = ?l @ [?e]"
    using arr i by (simp_all add: take_Suc_conv_app_nth)
  have "index_ok (reindex_step i t) (?l @ [?e])"
    by (rule index_ok_snoc [OF ok refl])
      (auto simp: reindex_step_def Let_def elt_entries [OF arr i]
        length_array_list [OF arr] min_absorb2 less_imp_le [OF i] index_initialized_set
        cong: index_initialized_cong split: if_splits)
  then show ?thesis
    by (simp add: snoc reindex_step_def Let_def)
qed

lemma table_reindex_ok:
  assumes arr: "array_ok (tab t)"
  shows "index_ok (table_reindex t) (entries t) \<and> tab (table_reindex t) = tab t"
proof -
  let ?t0 = "t\<lparr>index_initialized := 0\<rparr>"
  have "k \<le> nelts (tab t) \<Longrightarrow>
      index_ok (fold reindex_step [0..<k] ?t0) (take k (entries t)) \<and>
      tab (fold reindex_step [0..<k] ?t0) = tab t" for k
  proof (induction k)
    case 0
    show ?case by (simp add: index_ok_empty)
  next
    case (Suc k)
    let ?t = "fold reindex_step [0..<k] ?t0"
    from Suc have "index_ok ?t (take k (entries ?t))" "tab ?t = tab t" "k < nelts (tab ?t)"
      by simp_all
    with reindex_step_ok [of ?t k] arr show ?case by simp
  qed
  from this [of "nelts (tab t)"] arr show ?thesis
    by (simp add: table_reindex_def)
qed

lemma table_reindex_table_ok:
  assumes "array_ok (tab t)" "checksums_ok (entries t)"
  shows "table_ok (table_reindex t) \<and> entries (table_reindex t) = entries t"
  using table_reindex_ok [OF assms(1)] assms by (simp add: table_ok_def)


section \<open>Searching a chain\<close>

abbreviation match :: "cstr \<Rightarrow> apr_table_entry \<Rightarrow> bool" where
  "match k e \<equiv> ci_eq (te_key e) k"

lemma key_match_iff:
  assumes "checksums_ok l" "e \<in> set l"
  shows "key_match (COMPUTE_KEY_CHECKSUM k) k e \<longleftrightarrow> match k e"
  using assms CHECKSUM_ci by (auto simp: key_match_def checksums_ok_def)

lemma match_hash: "match k e \<Longrightarrow> TABLE_HASH (te_key e) = TABLE_HASH k"
  by (rule TABLE_HASH_ci)

abbreviation table_search :: "apr_table \<Rightarrow> cstr \<Rightarrow> nat option" where
  "table_search t k \<equiv> scan (\<lambda>i. key_match (COMPUTE_KEY_CHECKSUM k) k (elt t i))
     (first_of t (TABLE_HASH k)) (last_of t (TABLE_HASH k))"

lemma table_search_unindexed:
  assumes ok: "table_ok t" and no: "\<not> TABLE_INDEX_IS_INITIALIZED t (TABLE_HASH k)"
  shows "\<forall>e \<in> set (entries t). \<not> match k e"
proof
  fix e assume "e \<in> set (entries t)"
  then obtain i where "i < length (entries t)" "e = entries t ! i"
    by (auto simp: in_set_conv_nth)
  then have "TABLE_HASH (te_key e) \<noteq> TABLE_HASH k"
    using chain_bounds(2) [of i "entries t" "TABLE_HASH k"] no table_okD(2) [OF ok]
    by (auto simp: index_ok_def)
  then show "\<not> match k e" using match_hash by blast
qed

lemma table_search_range:
  assumes ok: "table_ok t" and init: "TABLE_INDEX_IS_INITIALIZED t (TABLE_HASH k)"
  shows "last_of t (TABLE_HASH k) < length (entries t)"
    and "\<And>i. i < length (entries t) \<Longrightarrow> match k (entries t ! i) \<Longrightarrow>
      first_of t (TABLE_HASH k) \<le> i \<and> i \<le> last_of t (TABLE_HASH k)"
    and "table_search t k =
      scan (\<lambda>i. match k (entries t ! i)) (first_of t (TABLE_HASH k)) (last_of t (TABLE_HASH k))"
proof -
  let ?c = "chain (entries t) (TABLE_HASH k)"
  have c: "?c \<noteq> []" "first_of t (TABLE_HASH k) = hd ?c" "last_of t (TABLE_HASH k) = last ?c"
    using table_okD(2) [OF ok] init by (auto simp: index_ok_def)
  then show less: "last_of t (TABLE_HASH k) < length (entries t)"
    using chain_less [of "last ?c" "entries t" "TABLE_HASH k"] by simp
  show "first_of t (TABLE_HASH k) \<le> i \<and> i \<le> last_of t (TABLE_HASH k)"
    if "i < length (entries t)" "match k (entries t ! i)" for i
    using chain_bounds(1) [OF that(1) match_hash [OF that(2)]] c by simp
  have same: "key_match (COMPUTE_KEY_CHECKSUM k) k (elt t i) = match k (entries t ! i)"
    if "i \<le> last_of t (TABLE_HASH k)" for i
    using that less table_okD [OF ok] by (simp add: elt_entries key_match_iff)
  show "table_search t k =
      scan (\<lambda>i. match k (entries t ! i)) (first_of t (TABLE_HASH k)) (last_of t (TABLE_HASH k))"
    unfolding scan_find by (rule find_cong) (auto simp: same)
qed

lemma table_search_None:
  assumes "table_ok t" "TABLE_INDEX_IS_INITIALIZED t (TABLE_HASH k)" "table_search t k = None"
  shows "\<forall>e \<in> set (entries t). \<not> match k e"
proof -
  note range = table_search_range [OF assms(1,2)]
  show ?thesis
    by (rule scan_no_hit [OF range(2)]) (use range(3) assms(3) in simp_all)
qed

lemma table_search_Some:
  assumes ok: "table_ok t" and init: "TABLE_INDEX_IS_INITIALIZED t (TABLE_HASH k)"
    and hit: "table_search t k = Some j"
  shows "j < length (entries t)" "match k (entries t ! j)" "\<forall>e \<in> set (take j (entries t)). \<not> match k e"
    "entries t = take j (entries t) @ entries t ! j # drop (Suc j) (entries t)"
    "j \<le> last_of t (TABLE_HASH k)"
    "\<forall>e \<in> set (drop (Suc (last_of t (TABLE_HASH k))) (entries t)). \<not> match k e"
proof -
  note range = table_search_range [OF ok init]
  have hit': "scan (\<lambda>i. match k (entries t ! i)) (first_of t (TABLE_HASH k)) (last_of t (TABLE_HASH k)) = Some j"
    using hit range(3) by simp
  note first = scan_first_hit [of "entries t" "match k", OF range(2) range(1) hit']
  show "j < length (entries t)" "match k (entries t ! j)" "\<forall>e \<in> set (take j (entries t)). \<not> match k e"
    "entries t = take j (entries t) @ entries t ! j # drop (Suc j) (entries t)"
    using first by blast+
  show "j \<le> last_of t (TABLE_HASH k)"
    using hit' by (simp add: scan_Some_iff)
  show "\<forall>e \<in> set (drop (Suc (last_of t (TABLE_HASH k))) (entries t)). \<not> match k e"
  proof
    fix e assume "e \<in> set (drop (Suc (last_of t (TABLE_HASH k))) (entries t))"
    then obtain m where "m < length (entries t) - Suc (last_of t (TABLE_HASH k))"
      and e: "e = entries t ! (Suc (last_of t (TABLE_HASH k)) + m)"
      by (auto simp: in_set_conv_nth)
    then have m: "Suc (last_of t (TABLE_HASH k)) + m < length (entries t)" by simp
    with range(2) [OF m] e show "\<not> match k e" by auto
  qed
qed

section \<open>Operations as functions of the list of entries\<close>

definition new_entry :: "cstr \<Rightarrow> cstr option \<Rightarrow> apr_table_entry" where
  "new_entry k v = \<lparr>te_key = k, te_val = v, te_checksum = COMPUTE_KEY_CHECKSUM k\<rparr>"

definition list_get :: "cstr \<Rightarrow> apr_table_entry list \<Rightarrow> cstr option" where
  "list_get k l = (case find (match k) l of None \<Rightarrow> None | Some e \<Rightarrow> te_val e)"

fun list_set :: "cstr \<Rightarrow> cstr option \<Rightarrow> apr_table_entry list \<Rightarrow> apr_table_entry list" where
  "list_set k v [] = [new_entry k v]"
| "list_set k v (e # es) =
     (if match k e then e\<lparr>te_val := v\<rparr> # filter (\<lambda>x. \<not> match k x) es else e # list_set k v es)"

definition list_unset :: "cstr \<Rightarrow> apr_table_entry list \<Rightarrow> apr_table_entry list" where
  "list_unset k l = filter (\<lambda>x. \<not> match k x) l"

definition merged_val :: "cstr option \<Rightarrow> cstr option \<Rightarrow> cstr option" where
  "merged_val old v = Some (apr_pstrcat [old, Some '', '', v])"

fun list_merge :: "cstr \<Rightarrow> cstr option \<Rightarrow> apr_table_entry list \<Rightarrow> apr_table_entry list" where
  "list_merge k v [] = [new_entry k v]"
| "list_merge k v (e # es) =
     (if match k e then e\<lparr>te_val := merged_val (te_val e) v\<rparr> # es else e # list_merge k v es)"

lemma list_set_absent: "\<forall>e \<in> set l. \<not> match k e \<Longrightarrow> list_set k v l = l @ [new_entry k v]"
  by (induction l) auto

lemma list_merge_absent: "\<forall>e \<in> set l. \<not> match k e \<Longrightarrow> list_merge k v l = l @ [new_entry k v]"
  by (induction l) auto

lemma list_set_hit:
  "\<forall>e \<in> set us. \<not> match k e \<Longrightarrow> match k e \<Longrightarrow>
     list_set k v (us @ e # vs) = us @ e\<lparr>te_val := v\<rparr> # filter (\<lambda>x. \<not> match k x) vs"
  by (induction us) auto

lemma list_merge_hit:
  "\<forall>e \<in> set us. \<not> match k e \<Longrightarrow> match k e \<Longrightarrow>
     list_merge k v (us @ e # vs) = us @ e\<lparr>te_val := merged_val (te_val e) v\<rparr> # vs"
  by (induction us) auto

lemma find_absent: "\<forall>e \<in> set l. \<not> p e \<Longrightarrow> find p l = None"
  by (simp add: find_None_iff)

lemma find_hit: "\<forall>e \<in> set us. \<not> p e \<Longrightarrow> p e \<Longrightarrow> find p (us @ e # vs) = Some e"
  by (induction us) auto

lemma apr_table_get_entries:
  assumes ok: "table_ok t"
  shows "apr_table_get t (Some k) = list_get k (entries t)"
proof (cases "TABLE_INDEX_IS_INITIALIZED t (TABLE_HASH k)")
  case False
  with table_search_unindexed [OF ok] show ?thesis
    by (simp add: apr_table_get_def list_get_def find_absent)
next
  case init: True
  show ?thesis
  proof (cases "table_search t k")
    case None
    with table_search_None [OF ok init] init show ?thesis
      by (simp add: apr_table_get_def list_get_def find_absent)
  next
    case (Some j)
    note hit = table_search_Some [OF ok init Some]
    have "find (match k) (entries t) = Some (entries t ! j)"
      using hit(4) find_hit [OF hit(3) hit(2)] by metis
    with Some init hit(1) table_okD(1) [OF ok] show ?thesis
      by (simp add: apr_table_get_def list_get_def elt_entries)
  qed
qed


section \<open>Appending an entry\<close>

lemma append_entry_ok:
  assumes ok: "table_ok t" and h: "h = TABLE_HASH (te_key e)"
    and sum: "te_checksum e = COMPUTE_KEY_CHECKSUM (te_key e)"
    and tab: "tab t' = array_put_noclear (tab t) e"
    and init: "\<And>i. i < 32 \<Longrightarrow> TABLE_INDEX_IS_INITIALIZED t' i = (i = h \<or> TABLE_INDEX_IS_INITIALIZED t i)"
    and last: "index_last t' = (index_last t)(h := Some (nelts (tab t)))"
    and first: "index_first t' =
      (if TABLE_INDEX_IS_INITIALIZED t h then index_first t else (index_first t)(h := Some (nelts (tab t))))"
  shows "table_ok t' \<and> entries t' = entries t @ [e]"
proof -
  have arr: "array_ok (tab t)" using ok by (rule table_okD)
  then have "array_ok (tab t')" "entries t' = entries t @ [e]"
    by (simp_all add: tab array_put_noclear_ok)
  moreover have "index_ok t' (entries t @ [e])"
    by (rule index_ok_snoc [OF table_okD(2) [OF ok] h init])
      (simp_all add: last first arr)
  ultimately show ?thesis
    using table_okD(3) [OF ok] sum by (auto simp: table_ok_def checksums_ok_def)
qed

lemma table_push_simps [simp]:
  "tab (table_push t e) = array_put_noclear (tab t) e"
  "index_initialized (table_push t e) = index_initialized t"
  "index_first (table_push t e) = index_first t"
  "index_last (table_push t e) = index_last t"
  by (simp_all add: table_push_def)

lemma start_chain_simps [simp]:
  "tab (start_chain t h) = tab t"
  "index_first (start_chain t h) = (index_first t)(h := Some (nelts (tab t)))"
  "index_last (start_chain t h) = index_last t"
  "index_initialized (start_chain t h) = or (index_initialized t) (2 ^ h)"
  by (simp_all add: start_chain_def TABLE_SET_INDEX_INITIALIZED_def)

lemma bit_or_exp:
  "h < 32 \<Longrightarrow> bit (or w (2 ^ h) :: 32 word) i = (i = h \<or> bit w i)"
  by (auto simp: bit_simps)

lemma add_new_elt_simps [simp]:
  "tab (add_new_elt t h k v c) =
     array_put_noclear (tab t) \<lparr>te_key = k, te_val = v, te_checksum = c\<rparr>"
  "index_initialized (add_new_elt t h k v c) = index_initialized t"
  "index_first (add_new_elt t h k v c) = index_first t"
  "index_last (add_new_elt t h k v c) = (index_last t)(h := Some (nelts (tab t)))"
  by (simp_all add: add_new_elt_def)

lemma add_new_elt_ok:
  assumes ok: "table_ok t"
  shows "TABLE_INDEX_IS_INITIALIZED t (TABLE_HASH k) \<Longrightarrow>
      table_ok (add_new_elt t (TABLE_HASH k) k v (COMPUTE_KEY_CHECKSUM k)) \<and>
      entries (add_new_elt t (TABLE_HASH k) k v (COMPUTE_KEY_CHECKSUM k)) = entries t @ [new_entry k v]"
    and "\<not> TABLE_INDEX_IS_INITIALIZED t (TABLE_HASH k) \<Longrightarrow>
      table_ok (add_new_elt (start_chain t (TABLE_HASH k)) (TABLE_HASH k) k v (COMPUTE_KEY_CHECKSUM k)) \<and>
      entries (add_new_elt (start_chain t (TABLE_HASH k)) (TABLE_HASH k) k v (COMPUTE_KEY_CHECKSUM k)) =
        entries t @ [new_entry k v]"
  by (rule append_entry_ok [OF ok, where h = "TABLE_HASH k"];
      auto simp: new_entry_def bit_initialized bit_or_exp)+

lemma table_add_with_ok:
  assumes ok: "table_ok t"
  shows "table_ok (table_add_with t k k v) \<and> entries (table_add_with t k k v) = entries t @ [new_entry k v]"
  by (rule append_entry_ok [OF ok, where h = "TABLE_HASH k"];
      auto simp: table_add_with_def Let_def new_entry_def bit_initialized bit_or_exp)

lemma apr_table_add_ok:
  "table_ok t \<Longrightarrow> table_ok (apr_table_add t k v) \<and> entries (apr_table_add t k v) = entries t @ [new_entry k v]"
  "table_ok t \<Longrightarrow> table_ok (apr_table_addn t k v) \<and> entries (apr_table_addn t k v) = entries t @ [new_entry k v]"
  by (simp_all add: apr_table_add_def apr_table_addn_def table_add_with_ok)

lemma apr_table_make_ok:
  "table_ok (apr_table_make n) \<and> entries (apr_table_make n) = []"
  by (simp add: table_ok_def apr_table_make_def index_ok_empty checksums_ok_def)

lemma apr_table_clear_ok:
  assumes "table_ok t"
  shows "table_ok (apr_table_clear t) \<and> entries (apr_table_clear t) = []"
  using table_okD(1) [OF assms]
  by (simp add: table_ok_def apr_table_clear_def index_ok_empty checksums_ok_def array_ok_def array_list_def)

section \<open>Removing and moving entries\<close>

text \<open>The removal loops are the compaction loop of the prelude with a count.\<close>

lemma remove_rest_squeeze:
  "next_elt \<le> Suc end_elt \<Longrightarrow> remove_rest dup next_elt end_elt (es, n, dst) = (es', n', dst') \<Longrightarrow>
     squeeze dup next_elt (Suc end_elt) dst es = (es', dst')"
proof (induction dup next_elt end_elt "(es, n, dst)" arbitrary: es n dst rule: remove_rest.induct)
  case (1 dup next_elt end_elt es n dst)
  then show ?case
    by (cases "next_elt \<le> end_elt")
      (auto simp: remove_rest.simps [of dup next_elt] squeeze.simps [of dup next_elt] split: if_splits)
qed

lemma remove_rest_count:
  "next_elt \<le> Suc end_elt \<Longrightarrow> remove_rest dup next_elt end_elt (es, n, dst) = (es', n', dst') \<Longrightarrow>
     Suc end_elt - next_elt \<le> n \<Longrightarrow> n' = n + (dst' - dst) - (Suc end_elt - next_elt) \<and> dst \<le> dst'"
proof (induction dup next_elt end_elt "(es, n, dst)" arbitrary: es n dst rule: remove_rest.induct)
  case (1 dup next_elt end_elt es n dst)
  show ?case
  proof (cases "next_elt \<le> end_elt")
    case False
    with 1 show ?thesis by (simp add: remove_rest.simps [of dup next_elt])
  next
    case True
    show ?thesis
    proof (cases "dup (es ! next_elt)")
      case hit: True
      with True 1 have "n' = n - 1 + (dst' - dst) - (Suc end_elt - Suc next_elt) \<and> dst \<le> dst'"
        by (simp add: remove_rest.simps [of dup next_elt])
      with True 1 show ?thesis by simp
    next
      case False
      with True 1 have "n' = n + (dst' - Suc dst) - (Suc end_elt - Suc next_elt) \<and> Suc dst \<le> dst'"
        by (simp add: remove_rest.simps [of dup next_elt])
      with True 1 show ?thesis by simp
    qed
  qed
qed

lemma shift_down_squeeze:
  "shift_down next_elt table_end dst es = fst (squeeze (\<lambda>_. False) next_elt table_end dst es)"
proof (induction next_elt table_end dst es rule: shift_down.induct)
  case (1 next_elt table_end dst es)
  then show ?case
    by (simp add: shift_down.simps [of next_elt] squeeze.simps [of _ next_elt])
qed

lemma remove_dups_squeeze:
  "remove_dups dup s e (es, n, dst, re) = (es', n', dst', re') \<Longrightarrow> s \<le> Suc e \<Longrightarrow>
     (\<And>d. dst = Some d \<Longrightarrow> d < s) \<Longrightarrow> Suc e - s \<le> n \<Longrightarrow>
     squeeze dup s (Suc e) (case dst of None \<Rightarrow> s | Some d \<Rightarrow> d) es =
       (es', case dst' of None \<Rightarrow> Suc e | Some d \<Rightarrow> d) \<and>
     n' + Suc e + (case dst of None \<Rightarrow> s | Some d \<Rightarrow> d) =
       n + (case dst' of None \<Rightarrow> Suc e | Some d \<Rightarrow> d) + s \<and>
     (dst' = None \<longrightarrow> dst = None \<and> es' = es \<and> n' = n \<and> re' = re)"
proof (induction dup s e "(es, n, dst, re)" arbitrary: es n dst re rule: remove_dups.induct)
  case (1 dup s e es n dst re)
  show ?case
  proof (cases "s \<le> e")
    case False
    with "1.prems" show ?thesis
      by (auto simp: remove_dups.simps [of dup s] squeeze.simps [of dup s] split: option.splits)
  next
    case True
    show ?thesis
    proof (cases "dup (es ! s)")
      case hit: True
      let ?dst = "case dst of None \<Rightarrow> Some s | Some d \<Rightarrow> Some d"
      have "remove_dups dup (Suc s) e (es, n - 1, ?dst, re) = (es', n', dst', re')"
        using "1.prems"(1) True hit by (simp add: remove_dups.simps [of dup s])
      moreover have "\<And>d. ?dst = Some d \<Longrightarrow> d < Suc s"
        using "1.prems"(3) by (auto split: option.splits intro: less_SucI)
      moreover have "Suc s \<le> Suc e" "Suc e - Suc s \<le> n - 1" "0 < n"
        using "1.prems"(4) True by simp_all
      ultimately show ?thesis
        using "1.hyps"(1) [OF True hit] True hit
        by (auto simp: squeeze.simps [of dup s] split: option.splits)
    next
      case keep: False
      show ?thesis
      proof (cases dst)
        case None
        then have "remove_dups dup (Suc s) e (es, n, None, re) = (es', n', dst', re')"
          using "1.prems"(1) True keep by (simp add: remove_dups.simps [of dup s])
        with "1.hyps"(2) [OF True keep None] "1.prems"(2,4) True keep None show ?thesis
          by (auto simp: squeeze.simps [of dup s] split: option.splits)
      next
        case (Some d)
        then have "remove_dups dup (Suc s) e (es[d := es ! s], n, Some (Suc d), True) = (es', n', dst', re')"
          using "1.prems"(1) True keep by (simp add: remove_dups.simps [of dup s])
        with "1.hyps"(3) [OF True keep Some] "1.prems"(2,3,4) True keep Some show ?thesis
          by (auto simp: squeeze.simps [of dup s] split: option.splits)
      qed
    qed
  qed
qed

text \<open>
  Compaction of the tail behind position \<open>j\<close> in two loops: up to the last entry
  of the chain with the test, and from there without.
\<close>

lemma compact_tail:
  assumes es: "take n es = pre @ map Some suf" "length pre = Suc j" and len: "n \<le> length es"
    and hi: "j \<le> hi" "hi < n" and dst: "dst \<le> Suc j"
    and keep: "\<forall>e \<in> set (drop (hi - j) suf). \<not> out (Some e)"
    and sq1: "squeeze out (Suc j) (Suc hi) dst es = (es1, d1)"
  shows "take (d1 + (n - Suc hi)) (shift_down (Suc hi) n d1 es1) =
      take dst es @ map Some (filter (\<lambda>e. \<not> out (Some e)) suf) \<and>
    length (shift_down (Suc hi) n d1 es1) = length es \<and> d1 + (n - Suc hi) \<le> n"
proof -
  obtain es2 d2 where sq2: "squeeze (\<lambda>_. False) (Suc hi) n d1 es1 = (es2, d2)"
    by fastforce
  have suf: "drop (Suc j) (take m es) = map Some (take (m - Suc j) suf)" if "m \<le> n" "Suc j \<le> m" for m
  proof -
    have "take m es = take m (pre @ map Some suf)"
      using es(1) that(1) by (metis min.absorb1 take_take)
    with es(2) that(2) show ?thesis by (simp add: take_map)
  qed
  have filt: "filter (\<lambda>x. \<not> out x) (map Some xs) = map Some (filter (\<lambda>e. \<not> out (Some e)) xs)" for xs
    by (simp add: filter_map comp_def)
  have one: "length es1 = length es"
      "d1 = dst + length (filter (\<lambda>e. \<not> out (Some e)) (take (hi - j) suf))"
      "take d1 es1 = take dst es @ map Some (filter (\<lambda>e. \<not> out (Some e)) (take (hi - j) suf))"
      "\<forall>i \<ge> Suc hi. es1 ! i = es ! i"
  proof -
    have b: "Suc j \<le> Suc hi" "Suc hi \<le> length es" and seg: "drop (Suc j) (take (Suc hi) es) = map Some (take (hi - j) suf)"
      using hi len suf [of "Suc hi"] by simp_all
    have "length es1 = length es \<and>
        d1 = dst + length (filter (\<lambda>e. \<not> out (Some e)) (take (hi - j) suf)) \<and>
        take d1 es1 = take dst es @ map Some (filter (\<lambda>e. \<not> out (Some e)) (take (hi - j) suf)) \<and>
        (\<forall>i \<ge> Suc hi. es1 ! i = es ! i)"
      using squeeze_result [OF dst b sq1] unfolding seg filt length_map .
    then show "length es1 = length es"
      "d1 = dst + length (filter (\<lambda>e. \<not> out (Some e)) (take (hi - j) suf))"
      "take d1 es1 = take dst es @ map Some (filter (\<lambda>e. \<not> out (Some e)) (take (hi - j) suf))"
      "\<forall>i \<ge> Suc hi. es1 ! i = es ! i"
      by blast+
  qed
  have d1: "d1 \<le> Suc hi"
    using one(2) dst hi by (metis (no_types, lifting) add_mono diff_add_inverse le_SucI le_add_diff_inverse
        length_filter_le length_take min.cobounded2 order_trans add_Suc)
  have rest: "drop (Suc hi) (take n es1) = map Some (drop (hi - j) suf)"
  proof -
    have "drop (Suc hi) (take n es1) = drop (Suc hi) (take n es)"
      using one(1,4) hi len by (intro nth_equalityI) (auto simp: min_absorb2)
    also have "\<dots> = drop (hi - j) (drop (Suc j) (take n es))"
      using hi by simp
    finally show ?thesis
      using suf [of n] es len hi by (simp add: drop_map)
  qed
  have "d1 \<le> Suc hi" "Suc hi \<le> n" "n \<le> length es1"
    using d1 hi len one(1) by simp_all
  from squeeze_result [OF this sq2]
  have "length es2 = length es \<and> d2 = d1 + length (drop (hi - j) suf) \<and>
      take d2 es2 = take d1 es1 @ map Some (drop (hi - j) suf)"
    by (auto simp: rest one(1))
  moreover have "length suf = n - Suc j"
    using arg_cong [OF es(1), of length] es(2) len by simp
  then have "length (drop (hi - j) suf) = n - Suc hi"
    using hi by simp
  ultimately have two: "length es2 = length es" "d2 = d1 + (n - Suc hi)"
      "take (d1 + (n - Suc hi)) es2 = take d1 es1 @ map Some (drop (hi - j) suf)"
    by (auto simp del: length_drop)
  have "filter (\<lambda>e. \<not> out (Some e)) suf =
      filter (\<lambda>e. \<not> out (Some e)) (take (hi - j) suf) @ drop (hi - j) suf"
    using keep by (metis (no_types, lifting) append_take_drop_id filter_True filter_append)
  moreover have "shift_down (Suc hi) n d1 es1 = es2"
    by (simp add: shift_down_squeeze sq2)
  ultimately show ?thesis
    using two one(2,3) d1 hi by (auto simp: le_diff_conv2)
qed

lemma array_replace:
  assumes "array_ok a" "length es = length (elts a)" "n \<le> nelts a" "take n es = map Some l"
  shows "array_ok (a\<lparr>elts := es, nelts := n\<rparr>) \<and> array_list (a\<lparr>elts := es, nelts := n\<rparr>) = l"
  using assms array_okD [OF assms(1)] by (auto simp: array_ok_def array_list_def comp_def)

lemma checksums_ok_subset: "checksums_ok l \<Longrightarrow> set l' \<subseteq> set l \<Longrightarrow> checksums_ok l'"
  by (auto simp: checksums_ok_def)

lemma checksums_ok_val:
  "checksums_ok (us @ e\<lparr>te_val := v\<rparr> # vs) = checksums_ok (us @ e # vs)"
  by (auto simp: checksums_ok_def)

section \<open>Unset\<close>

lemma apr_table_unset_ok:
  assumes ok: "table_ok t"
  shows "table_ok (apr_table_unset t k) \<and> entries (apr_table_unset t k) = list_unset k (entries t)"
proof -
  consider (absent) "apr_table_unset t k = t" "\<forall>e \<in> set (entries t). \<not> match k e"
    | (hit) j where "TABLE_INDEX_IS_INITIALIZED t (TABLE_HASH k)" "table_search t k = Some j"
  proof (cases "TABLE_INDEX_IS_INITIALIZED t (TABLE_HASH k)")
    case False
    with table_search_unindexed [OF ok] that(1) show ?thesis
      by (simp add: apr_table_unset_def)
  next
    case True
    with table_search_None [OF ok] that show ?thesis
      by (cases "table_search t k") (simp_all add: apr_table_unset_def Let_def)
  qed
  then show ?thesis
  proof cases
    case absent
    with ok show ?thesis by (simp add: list_unset_def)
  next
    case (hit j)
    let ?a = "tab t" and ?l = "entries t" and ?hi = "last_of t (TABLE_HASH k)"
    let ?out = "\<lambda>e. key_match (COMPUTE_KEY_CHECKSUM k) k (the e)"
    note arr = table_okD(1) [OF ok] and found = table_search_Some [OF ok hit]
    have hi: "?hi < nelts ?a"
      using table_search_range(1) [OF ok hit(1)] arr by simp
    obtain es1 n1 d1 where loop1: "remove_rest ?out (Suc j) ?hi (elts ?a, nelts ?a - 1, j) = (es1, n1, d1)"
      by (metis prod_cases3)
    let ?es2 = "shift_down (Suc ?hi) (nelts ?a) d1 es1"
    let ?a' = "?a\<lparr>elts := ?es2, nelts := n1\<rparr>"
    have sq: "squeeze ?out (Suc j) (Suc ?hi) j (elts ?a) = (es1, d1)"
      using remove_rest_squeeze [OF _ loop1] found(5) by simp
    have n1: "n1 = d1 + (nelts ?a - Suc ?hi)"
      using remove_rest_count [OF _ loop1] found(5) hi by simp
    have blk: "take (nelts ?a) (elts ?a) = map Some (take (Suc j) ?l) @ map Some (drop (Suc j) ?l)"
      using arr by (metis append_take_drop_id map_append take_elts)
    have out: "?out (Some e) = match k e" if "e \<in> set ?l" for e
      using key_match_iff [OF table_okD(3) [OF ok] that] by simp
    have "drop (Suc ?hi) ?l = drop (?hi - j) (drop (Suc j) ?l)"
      using found(5) by simp
    with found(6) out have keep: "\<forall>e \<in> set (drop (?hi - j) (drop (Suc j) ?l)). \<not> ?out (Some e)"
      by (metis in_set_dropD)
    have filt: "filter (\<lambda>e. \<not> ?out (Some e)) (drop (Suc j) ?l) = filter (\<lambda>e. \<not> match k e) (drop (Suc j) ?l)"
      using out by (intro filter_cong) (auto dest: in_set_dropD)
    have pre: "take j (elts ?a) = map Some (take j ?l)"
      using arr found(1) by (metis less_imp_le length_array_list min_absorb1 take_elts take_map take_take)
    have "take n1 ?es2 = map Some (take j ?l @ filter (\<lambda>e. \<not> match k e) (drop (Suc j) ?l)) \<and>
        length ?es2 = length (elts ?a) \<and> n1 \<le> nelts ?a"
      using compact_tail [OF blk _ _ found(5) hi _ keep sq] found(1) arr
      unfolding n1 filt pre by (simp add: array_okD(3))
    moreover have "take j ?l @ filter (\<lambda>e. \<not> match k e) (drop (Suc j) ?l) = list_unset k ?l"
      unfolding list_unset_def arg_cong [OF found(4), of "filter (\<lambda>x. \<not> match k x)"]
      using found(2,3) by simp
    ultimately have "array_ok ?a' \<and> array_list ?a' = list_unset k ?l"
      using array_replace [OF arr] by simp
    moreover have "checksums_ok (list_unset k ?l)"
      using table_okD(3) [OF ok] by (rule checksums_ok_subset) (auto simp: list_unset_def)
    moreover have "apr_table_unset t k = table_reindex (t\<lparr>tab := ?a'\<rparr>)"
      using hit loop1 by (simp add: apr_table_unset_def Let_def)
    ultimately show ?thesis
      using table_reindex_table_ok [of "t\<lparr>tab := ?a'\<rparr>"] by simp
  qed
qed

section \<open>Set\<close>

lemma table_set_with_ok:
  assumes ok: "table_ok t"
  shows "table_ok (table_set_with t k k v) \<and> entries (table_set_with t k k v) = list_set k v (entries t)"
proof -
  let ?h = "TABLE_HASH k"
  consider (absent) "\<forall>e \<in> set (entries t). \<not> match k e"
      "table_ok (table_set_with t k k v) \<and> entries (table_set_with t k k v) = entries t @ [new_entry k v]"
    | (hit) j where "TABLE_INDEX_IS_INITIALIZED t ?h" "table_search t k = Some j"
  proof (cases "TABLE_INDEX_IS_INITIALIZED t ?h")
    case False
    with table_search_unindexed [OF ok] add_new_elt_ok(2) [OF ok] that(1) show ?thesis
      by (simp add: table_set_with_def Let_def)
  next
    case True
    with table_search_None [OF ok] add_new_elt_ok(1) [OF ok] that show ?thesis
      by (cases "table_search t k") (simp_all add: table_set_with_def Let_def)
  qed
  then show ?thesis
  proof cases
    case absent
    then show ?thesis by (simp add: list_set_absent)
  next
    case (hit j)
    let ?a = "tab t" and ?l = "entries t" and ?hi = "last_of t ?h"
    let ?out = "\<lambda>e. key_match (COMPUTE_KEY_CHECKSUM k) k (the e)"
    let ?new = "(?l ! j)\<lparr>te_val := v\<rparr>"
    let ?l' = "take j ?l @ ?new # filter (\<lambda>e. \<not> match k e) (drop (Suc j) ?l)"
    note arr = table_okD(1) [OF ok] and found = table_search_Some [OF ok hit]
    have hi: "?hi < nelts ?a"
      using table_search_range(1) [OF ok hit(1)] arr by simp
    define es0 where "es0 = (elts ?a)[j := Some ?new]"
    have es0: "es0 = (elts ?a)[j := Some ((elt t j)\<lparr>te_val := v\<rparr>)]" "length es0 = length (elts ?a)"
      using arr found(1) by (simp_all add: es0_def elt_entries)
    obtain es1 n1 dst re where loop1: "remove_dups ?out (Suc j) ?hi (es0, nelts ?a, None, False) = (es1, n1, dst, re)"
      by (metis prod_cases4)
    let ?d1 = "case dst of None \<Rightarrow> Suc ?hi | Some d \<Rightarrow> d"
    let ?es2 = "shift_down (Suc ?hi) (nelts ?a) ?d1 es1"
    have loop: "squeeze ?out (Suc j) (Suc ?hi) (Suc j) es0 = (es1, ?d1)"
        "n1 + Suc ?hi + Suc j = nelts ?a + ?d1 + Suc j"
        "dst = None \<longrightarrow> es1 = es0 \<and> n1 = nelts ?a"
      using remove_dups_squeeze [OF loop1] found(5) hi by simp_all
    then have n1: "n1 = ?d1 + (nelts ?a - Suc ?hi)"
      using hi by simp
    have pre: "take (Suc j) es0 = map Some (take j ?l @ [?new])"
    proof -
      have "take j (elts ?a) = map Some (take j ?l)" "j < length (elts ?a)"
        using arr found(1) array_okD [OF arr]
        by (metis less_imp_le length_array_list min_absorb1 take_elts take_map take_take, simp)
      then show ?thesis by (simp add: es0_def take_Suc_conv_app_nth)
    qed
    have blk: "take (nelts ?a) es0 = map Some (take j ?l @ [?new]) @ map Some (drop (Suc j) ?l)"
      using take_elts [OF arr] found(1) arr
      by (simp add: es0_def take_update_swap upd_conv_take_nth_drop take_map drop_map)
    have out: "?out (Some e) = match k e" if "e \<in> set ?l" for e
      using key_match_iff [OF table_okD(3) [OF ok] that] by simp
    have "drop (Suc ?hi) ?l = drop (?hi - j) (drop (Suc j) ?l)"
      using found(5) by simp
    with found(6) out have keep: "\<forall>e \<in> set (drop (?hi - j) (drop (Suc j) ?l)). \<not> ?out (Some e)"
      by (metis in_set_dropD)
    have filt: "filter (\<lambda>e. \<not> ?out (Some e)) (drop (Suc j) ?l) = filter (\<lambda>e. \<not> match k e) (drop (Suc j) ?l)"
      using out by (intro filter_cong) (auto dest: in_set_dropD)
    have "take n1 ?es2 = map Some ?l' \<and> length ?es2 = length (elts ?a) \<and> n1 \<le> nelts ?a"
      using compact_tail [OF blk _ _ found(5) hi _ keep loop(1)] found(1) arr es0(2)
      unfolding n1 filt pre by (simp add: array_okD(3))
    then have squeezed: "array_ok (?a\<lparr>elts := ?es2, nelts := n1\<rparr>) \<and>
        array_list (?a\<lparr>elts := ?es2, nelts := n1\<rparr>) = ?l'"
      using array_replace [OF arr] by blast
    have l': "?l' = list_set k v ?l"
      using list_set_hit [OF found(3) found(2)] found(4) by metis
    have sums: "checksums_ok ?l'"
    proof -
      have "checksums_ok (take j ?l @ ?l ! j # filter (\<lambda>e. \<not> match k e) (drop (Suc j) ?l))"
        using table_okD(3) [OF ok] found(1)
        by (rule_tac checksums_ok_subset) (auto dest: in_set_takeD in_set_dropD)
      then show ?thesis by (simp only: checksums_ok_val)
    qed
    show ?thesis
    proof (cases dst)
      case (Some d)
      then have "table_set_with t k k v = table_reindex (t\<lparr>tab := ?a\<lparr>elts := ?es2, nelts := n1\<rparr>\<rparr>)"
        using hit loop1 unfolding es0(1) by (simp add: table_set_with_def Let_def)
      then show ?thesis
        using table_reindex_table_ok [of "t\<lparr>tab := ?a\<lparr>elts := ?es2, nelts := n1\<rparr>\<rparr>"] squeezed sums l'
        by simp
    next
      case None
      then have re: "\<not> re" "es1 = es0" "n1 = nelts ?a"
        using remove_dups_squeeze [OF loop1] found(5) hi by simp_all
      then have res: "table_set_with t k k v = t\<lparr>tab := ?a\<lparr>elts := es0, nelts := nelts ?a\<rparr>\<rparr>"
        using None hit loop1 unfolding es0(1) by (simp add: table_set_with_def Let_def)
      have plain: "array_ok (?a\<lparr>elts := es0, nelts := nelts ?a\<rparr>) \<and>
          array_list (?a\<lparr>elts := es0, nelts := nelts ?a\<rparr>) = take j ?l @ ?new # drop (Suc j) ?l"
        using array_replace [OF arr es0(2) le_refl, of "take j ?l @ ?new # drop (Suc j) ?l"] blk
        by simp
      have "length ?l' = nelts ?a"
        using squeezed re(3) length_array_list [of "?a\<lparr>elts := ?es2, nelts := n1\<rparr>"] by simp
      moreover have "length (take j ?l @ ?new # drop (Suc j) ?l) = nelts ?a"
        using found(1) arr by simp
      ultimately have "length (filter (\<lambda>e. \<not> match k e) (drop (Suc j) ?l)) = length (drop (Suc j) ?l)"
        by simp
      then have "filter (\<lambda>e. \<not> match k e) (drop (Suc j) ?l) = drop (Suc j) ?l"
        using length_filter_less by (metis (no_types, lifting) filter_True less_irrefl)
      then have ent: "entries (table_set_with t k k v) = ?l'"
        using plain by (simp add: res)
      have "index_ok t (take j ?l @ ?l ! j # drop (Suc j) ?l)"
        using table_okD(2) [OF ok] found(4) by metis
      then have "index_ok t (take j ?l @ ?new # drop (Suc j) ?l)"
        by (rule index_ok_cong [THEN iffD1, rotated]) simp
      then have "index_ok (table_set_with t k k v) (entries (table_set_with t k k v))"
        using plain by (simp add: res index_ok_def bit_initialized)
      with ent sums l' plain show ?thesis
        by (simp add: table_ok_def res)
    qed
  qed
qed

lemma apr_table_set_ok:
  "table_ok t \<Longrightarrow> table_ok (apr_table_set t k v) \<and> entries (apr_table_set t k v) = list_set k v (entries t)"
  "table_ok t \<Longrightarrow> table_ok (apr_table_setn t k v) \<and> entries (apr_table_setn t k v) = list_set k v (entries t)"
  by (simp_all add: apr_table_set_def apr_table_setn_def table_set_with_ok)

section \<open>Merge\<close>

lemma table_merge_with_ok:
  assumes ok: "table_ok t"
  shows "table_ok (table_merge_with t k v k v) \<and>
    entries (table_merge_with t k v k v) = list_merge k v (entries t)"
proof -
  let ?h = "TABLE_HASH k"
  consider (absent) "\<forall>e \<in> set (entries t). \<not> match k e"
      "table_ok (table_merge_with t k v k v) \<and> entries (table_merge_with t k v k v) = entries t @ [new_entry k v]"
    | (hit) j where "TABLE_INDEX_IS_INITIALIZED t ?h" "table_search t k = Some j"
  proof (cases "TABLE_INDEX_IS_INITIALIZED t ?h")
    case False
    with table_search_unindexed [OF ok] add_new_elt_ok(2) [OF ok] that(1) show ?thesis
      by (simp add: table_merge_with_def Let_def)
  next
    case True
    with table_search_None [OF ok] add_new_elt_ok(1) [OF ok] that show ?thesis
      by (cases "table_search t k") (simp_all add: table_merge_with_def Let_def)
  qed
  then show ?thesis
  proof cases
    case absent
    then show ?thesis by (simp add: list_merge_absent)
  next
    case (hit j)
    let ?a = "tab t" and ?l = "entries t"
    let ?new = "(?l ! j)\<lparr>te_val := merged_val (te_val (?l ! j)) v\<rparr>"
    note arr = table_okD(1) [OF ok] and found = table_search_Some [OF ok hit]
    let ?a' = "?a\<lparr>elts := (elts ?a)[j := Some ?new]\<rparr>"
    have res: "table_merge_with t k v k v = t\<lparr>tab := ?a'\<rparr>"
      using hit found(1) arr by (simp add: table_merge_with_def Let_def elt_entries merged_val_def)
    have "take (nelts ?a) ((elts ?a)[j := Some ?new]) = map Some (?l[j := ?new])"
      using take_elts [OF arr] by (simp add: take_update_swap map_update)
    then have plain: "array_ok ?a' \<and> array_list ?a' = ?l[j := ?new]"
      using array_replace [OF arr, of "(elts ?a)[j := Some ?new]" "nelts ?a"] by simp
    have upd: "?l[j := ?new] = take j ?l @ ?new # drop (Suc j) ?l"
      using found(1) by (simp add: upd_conv_take_nth_drop)
    then have "?l[j := ?new] = list_merge k v ?l"
      using list_merge_hit [OF found(3) found(2)] found(4) by metis
    moreover have "checksums_ok (?l[j := ?new])"
      unfolding upd checksums_ok_val using table_okD(3) [OF ok] found(4) by simp
    moreover have "index_ok t (?l[j := ?new])"
    proof -
      have "map te_key (?l[j := ?new]) = map te_key ?l"
        by (simp add: map_update list_update_same_conv found(1))
      then show ?thesis using index_ok_cong table_okD(2) [OF ok] by blast
    qed
    ultimately show ?thesis
      using plain by (simp add: res table_ok_def index_ok_def bit_initialized)
  qed
qed

lemma apr_table_merge_ok:
  "table_ok t \<Longrightarrow> table_ok (apr_table_merge t k v) \<and> entries (apr_table_merge t k v) = list_merge k v (entries t)"
  "table_ok t \<Longrightarrow> table_ok (apr_table_mergen t k v) \<and> entries (apr_table_mergen t k v) = list_merge k v (entries t)"
  by (simp_all add: apr_table_merge_def apr_table_mergen_def table_merge_with_ok)

end
