(* ===== verification/Apr_Table_Laws.thy ===== *)
theory Apr_Table_Laws
  imports Apr_Tables
begin

text \<open>
  What the operations of \<open>apr_tables.c\<close> promise their callers, on top of the list
  semantics proved in \<open>Apr_Tables\<close>: tables are keyed stores under comparison
  without case, additions keep every entry in order, copies and overlays hold
  the entries of their sources, and \<open>apr_table_vdo\<close> visits the entries it should
  in table order. The comparison of keys is a weak order, which is what the
  mergesort asks for.
\<close>

section \<open>Lookups after updates\<close>

lemma list_get_simps [simp]:
  "list_get k [] = None"
  "list_get k (e # es) = (if match k e then te_val e else list_get k es)"
  by (simp_all add: list_get_def)

lemma new_entry_simps [simp]:
  "te_key (new_entry k v) = k" "te_val (new_entry k v) = v"
  by (simp_all add: new_entry_def)

lemma match_same: "match k e \<Longrightarrow> match k' e \<longleftrightarrow> ci_eq k k'"
  by (simp add: ci_eq_iff)

lemma list_get_filter:
  "list_get k' (filter (\<lambda>e. \<not> match k e) l) = (if ci_eq k k' then None else list_get k' l)"
  by (induction l) (auto simp: match_same, auto simp: ci_eq_iff)

lemma list_get_set: "list_get k' (list_set k v l) = (if ci_eq k k' then v else list_get k' l)"
  by (induction l) (auto simp: match_same list_get_filter, auto simp: ci_eq_iff)

lemma list_get_unset: "list_get k' (list_unset k l) = (if ci_eq k k' then None else list_get k' l)"
  by (simp add: list_unset_def list_get_filter)

lemma list_get_merge:
  "list_get k' (list_merge k v l) =
     (if ci_eq k k' then (if \<exists>e \<in> set l. match k e then merged_val (list_get k l) v else v)
      else list_get k' l)"
  by (induction l) (auto simp: match_same, auto simp: ci_eq_iff)

lemma list_get_append:
  "list_get k (l1 @ l2) = (if \<exists>e \<in> set l1. match k e then list_get k l1 else list_get k l2)"
  by (induction l1) auto

text \<open>At most one entry of a table that is only updated by \<open>set\<close> matches a key.\<close>

lemma list_set_unique:
  "length (filter (match k') (list_set k v l)) =
     (if ci_eq k k' then 1 else length (filter (match k') l))"
proof (induction l)
  case (Cons e es)
  have "filter (match k') (filter (\<lambda>x. \<not> match k x) es) = (if ci_eq k k' then [] else filter (match k') es)"
    by (auto simp: filter_empty_conv match_same ci_eq_iff intro!: filter_cong)
  with Cons show ?case by (auto simp: match_same, auto simp: ci_eq_iff)
qed (auto simp: ci_eq_iff)

section \<open>Tables as keyed stores and growing sequences\<close>

interpretation table_store: keyed_store table_ok ci_eq "\<lambda>t k. apr_table_get t (Some k)"
    "\<lambda>t k v. apr_table_set t k (Some v)" apr_table_unset
  by unfold_locales
    (simp_all add: apr_table_set_ok apr_table_unset_ok apr_table_get_entries list_get_set list_get_unset)

interpretation table_setn_store: keyed_store table_ok ci_eq "\<lambda>t k. apr_table_get t (Some k)"
    "\<lambda>t k v. apr_table_setn t k (Some v)" apr_table_unset
  by unfold_locales
    (simp_all add: apr_table_set_ok apr_table_unset_ok apr_table_get_entries list_get_set list_get_unset)

interpretation table_grow: growable table_ok "\<lambda>t. map (\<lambda>e. (te_key e, te_val e)) (entries t)"
    "\<lambda>t (k, v). apr_table_add t k v"
  by unfold_locales (auto simp: apr_table_add_ok)

interpretation key_order: weak_order "\<lambda>(x :: apr_table_entry) y. strcasecmp (te_key x) (te_key y) > 0"
proof
  fix x y z :: apr_table_entry
  show "strcasecmp (te_key x) (te_key y) > 0 \<Longrightarrow> \<not> strcasecmp (te_key y) (te_key x) > 0"
    using strcasecmp_antisym [of "te_key x" "te_key y"] by simp
  show "\<not> strcasecmp (te_key x) (te_key y) > 0 \<Longrightarrow> \<not> strcasecmp (te_key y) (te_key z) > 0 \<Longrightarrow>
      \<not> strcasecmp (te_key x) (te_key z) > 0"
    using strcasecmp_le_trans [of "te_key x" "te_key y" "te_key z"] by simp
qed

section \<open>Copies and overlays\<close>

lemma new_entry_of: "te_checksum e = COMPUTE_KEY_CHECKSUM (te_key e) \<Longrightarrow> new_entry (te_key e) (te_val e) = e"
  by (simp add: new_entry_def)

lemma apr_table_copy_ok:
  assumes "table_ok t"
  shows "table_ok (apr_table_copy t) \<and> entries (apr_table_copy t) = entries t"
proof -
  have "array_ok (tab (apr_table_copy t)) \<and> array_list (tab (apr_table_copy t)) = entries t"
  proof (rule array_okI)
    show "elts (tab (apr_table_copy t)) = map Some (entries t) @
        drop (nelts (tab t)) (elts (make_array_core zero_entry (int (nalloc (tab t))) False))"
      by (simp add: apr_table_copy_def Let_def take_elts [OF table_okD(1) [OF assms]])
  qed (use array_okD [OF table_okD(1) [OF assms]] table_okD(1) [OF assms] in
      \<open>auto simp: apr_table_copy_def make_array_core_def Let_def\<close>)
  moreover have "index_ok (apr_table_copy t) l = index_ok t l" for l
    by (simp add: index_ok_def bit_initialized apr_table_copy_def Let_def)
  ultimately show ?thesis
    using table_okD(2,3) [OF assms] by (simp add: table_ok_def)
qed

lemma foldl_add_entries:
  "table_ok new \<Longrightarrow>
     table_ok (foldl (\<lambda>new e. apr_table_add new (te_key e) (te_val e)) new es) \<and>
     entries (foldl (\<lambda>new e. apr_table_add new (te_key e) (te_val e)) new es) =
       entries new @ map (\<lambda>e. new_entry (te_key e) (te_val e)) es"
  by (induction es arbitrary: new) (simp_all add: apr_table_add_ok)

lemma apr_table_clone_ok:
  assumes ok: "table_ok t"
  shows "table_ok (apr_table_clone t) \<and> entries (apr_table_clone t) = entries t"
proof -
  have nth: "[0..<nelts (tab t)] = [0..<length (entries t)]"
    using table_okD(1) [OF ok] by simp
  have "apr_table_clone t =
      foldl (\<lambda>new i. apr_table_add new (te_key (entries t ! i)) (te_val (entries t ! i)))
        (apr_table_make (int (nelts (tab t)))) [0..<nelts (tab t)]"
    unfolding apr_table_clone_def
    by (rule foldl_cong) (simp_all add: elt_entries [OF table_okD(1) [OF ok]])
  also have "\<dots> = foldl (\<lambda>new e. apr_table_add new (te_key e) (te_val e))
        (apr_table_make (int (nelts (tab t)))) (map ((!) (entries t)) [0..<nelts (tab t)])"
    by (simp add: foldl_map)
  finally have clone: "apr_table_clone t = foldl (\<lambda>new e. apr_table_add new (te_key e) (te_val e))
        (apr_table_make (int (nelts (tab t)))) (entries t)"
    by (simp only: nth map_nth)
  have "map (\<lambda>e. new_entry (te_key e) (te_val e)) (entries t) = entries t"
    using table_okD(3) [OF ok] by (auto simp: checksums_ok_def intro!: map_idI new_entry_of)
  then show ?thesis
    using foldl_add_entries [of "apr_table_make (int (nelts (tab t)))" "entries t"] apr_table_make_ok
    by (simp add: clone)
qed

lemma apr_table_overlay_ok:
  assumes "table_ok overlay" "table_ok base"
  shows "table_ok (apr_table_overlay overlay base) \<and>
    entries (apr_table_overlay overlay base) = entries overlay @ entries base"
proof -
  have "array_ok (apr_array_cat zero_entry (copy_array_hdr_core (tab overlay)) (tab base)) \<and>
      array_list (apr_array_cat zero_entry (copy_array_hdr_core (tab overlay)) (tab base)) =
        entries overlay @ entries base"
    using copy_array_hdr_core_ok [OF table_okD(1) [OF assms(1)]] table_okD(1) [OF assms(2)]
    by (simp add: apr_array_cat_ok)
  moreover have "checksums_ok (entries overlay @ entries base)"
    using table_okD(3) [OF assms(1)] table_okD(3) [OF assms(2)] by (auto simp: checksums_ok_def)
  ultimately show ?thesis
    using table_reindex_table_ok
      [of "\<lparr>tab = apr_array_cat zero_entry (copy_array_hdr_core (tab overlay)) (tab base),
            index_initialized = 0, index_first = (\<lambda>_. None), index_last = (\<lambda>_. None)\<rparr>"]
    by (simp add: apr_table_overlay_def)
qed

section \<open>Iteration\<close>

text \<open>The reference: the callback on a list of entries until it returns zero.\<close>

fun visit_entries :: "'r table_callback \<Rightarrow> apr_table_entry list \<Rightarrow> 'r \<Rightarrow> 'r \<times> bool" where
  "visit_entries cb [] rec = (rec, True)"
| "visit_entries cb (e # es) rec =
     (let (rec', rv) = cb rec (te_key e) (te_val e)
      in if rv then visit_entries cb es rec' else (rec', False))"

lemma vdo_scan_entries:
  "vdo_scan cb t visit is rec = visit_entries cb (filter visit (map (elt t) is)) rec"
  by (induction cb t visit "is" rec rule: vdo_scan.induct) (auto split: prod.splits)

lemma map_elt_upt:
  assumes "array_ok (tab t)" "hi \<le> nelts (tab t)"
  shows "map (elt t) [lo..<hi] = drop lo (take hi (entries t))"
proof (rule nth_equalityI)
  show "length (map (elt t) [lo..<hi]) = length (drop lo (take hi (entries t)))"
    using assms by simp
next
  fix i assume "i < length (map (elt t) [lo..<hi])"
  then show "map (elt t) [lo..<hi] ! i = drop lo (take hi (entries t)) ! i"
    using assms elt_entries [of t "lo + i"] by simp
qed

lemma filter_between:
  assumes "\<And>i. i < length l \<Longrightarrow> p (l ! i) \<Longrightarrow> lo \<le> i \<and> i < hi"
  shows "filter p (drop lo (take hi l)) = filter p l"
proof -
  have no: "\<not> p (l ! i)" if "i < length l" "i < lo \<or> hi \<le> i" for i
    using assms [of i] that by auto
  have "filter p (drop hi l) = []"
    unfolding filter_empty_conv
  proof
    fix x assume "x \<in> set (drop hi l)"
    then obtain i where "i < length l - hi" "x = l ! (hi + i)"
      by (auto simp: in_set_conv_nth)
    then show "\<not> p x" using no [of "hi + i"] by simp
  qed
  moreover have "filter p (take lo (take hi l)) = []"
    unfolding filter_empty_conv
  proof
    fix x assume "x \<in> set (take lo (take hi l))"
    then obtain i where "i < length l" "i < lo" "x = l ! i"
      by (auto simp: in_set_conv_nth)
    then show "\<not> p x" using no [of i] by simp
  qed
  ultimately show ?thesis
    by (metis append.right_neutral append_self_conv2 append_take_drop_id filter_append)
qed

lemma vdo_key_entries:
  assumes ok: "table_ok t"
  shows "vdo_key cb t k rec = visit_entries cb (filter (match k) (entries t)) rec"
proof (cases "TABLE_INDEX_IS_INITIALIZED t (TABLE_HASH k)")
  case False
  then have "filter (match k) (entries t) = []"
    using table_search_unindexed [OF ok] by (simp add: filter_empty_conv)
  with False show ?thesis by (simp add: vdo_key_def)
next
  case True
  note range = table_search_range [OF ok True]
  let ?lo = "first_of t (TABLE_HASH k)" and ?hi = "Suc (last_of t (TABLE_HASH k))"
  have sub: "set (drop ?lo (take ?hi (entries t))) \<subseteq> set (entries t)"
    using set_drop_subset set_take_subset by fastforce
  have "?hi \<le> nelts (tab t)"
    using range(1) table_okD(1) [OF ok] by simp
  then have "vdo_key cb t k rec =
      visit_entries cb (filter (key_match (COMPUTE_KEY_CHECKSUM k) k) (drop ?lo (take ?hi (entries t)))) rec"
    using True by (simp add: vdo_key_def Let_def vdo_scan_entries map_elt_upt [OF table_okD(1) [OF ok]] del: upt_Suc)
  also have "filter (key_match (COMPUTE_KEY_CHECKSUM k) k) (drop ?lo (take ?hi (entries t))) =
      filter (match k) (drop ?lo (take ?hi (entries t)))"
    by (rule filter_cong [OF refl]) (use sub key_match_iff [OF table_okD(3) [OF ok]] in blast)
  also have "\<dots> = filter (match k) (entries t)"
    by (rule filter_between) (use range(2) in \<open>simp add: less_Suc_eq_le\<close>)
  finally show ?thesis .
qed

lemma vdo_keys_entries:
  "table_ok t \<Longrightarrow> vdo_keys cb t ks (rec, rv) =
     foldl (\<lambda>(rec, rv) k. let (rec', rv') = visit_entries cb (filter (match k) (entries t)) rec
                          in (rec', rv \<and> rv')) (rec, rv) ks"
  by (induction ks arbitrary: rec rv) (simp_all add: vdo_key_entries split: prod.splits)

lemma apr_table_vdo_all:
  assumes "table_ok t"
  shows "apr_table_vdo cb rec t [] = visit_entries cb (entries t) rec"
  using assms table_okD(1) [OF assms]
  by (simp add: apr_table_vdo_def vdo_scan_entries map_elt_upt)

section \<open>Properties\<close>

lemma tolower_samples:
  "tolower CHR ''A'' = CHR ''a''" "tolower CHR ''a'' = CHR ''a''"
  "tolower CHR ''H'' = CHR ''h''" "tolower CHR ''h'' = CHR ''h''"
  "tolower CHR ''O'' = CHR ''o''" "tolower CHR ''o'' = CHR ''o''"
  "tolower CHR ''S'' = CHR ''s''" "tolower CHR ''s'' = CHR ''s''"
  "tolower CHR ''T'' = CHR ''t''" "tolower CHR ''t'' = CHR ''t''"
  by code_simp+

text \<open>A client of one table: the updates of the interface, in any order.\<close>

datatype table_op =
    Set cstr "cstr option" | Setn cstr "cstr option" | Unset cstr | Clear
  | Merge cstr "cstr option" | Mergen cstr "cstr option" | Add cstr "cstr option" | Addn cstr "cstr option"

fun table_step :: "apr_table \<Rightarrow> table_op \<Rightarrow> apr_table" where
  "table_step t (Set k v) = apr_table_set t k v"
| "table_step t (Setn k v) = apr_table_setn t k v"
| "table_step t (Unset k) = apr_table_unset t k"
| "table_step t Clear = apr_table_clear t"
| "table_step t (Merge k v) = apr_table_merge t k v"
| "table_step t (Mergen k v) = apr_table_mergen t k v"
| "table_step t (Add k v) = apr_table_add t k v"
| "table_step t (Addn k v) = apr_table_addn t k v"

fun list_step :: "apr_table_entry list \<Rightarrow> table_op \<Rightarrow> apr_table_entry list" where
  "list_step l (Set k v) = list_set k v l"
| "list_step l (Setn k v) = list_set k v l"
| "list_step l (Unset k) = list_unset k l"
| "list_step l Clear = []"
| "list_step l (Merge k v) = list_merge k v l"
| "list_step l (Mergen k v) = list_merge k v l"
| "list_step l (Add k v) = l @ [new_entry k v]"
| "list_step l (Addn k v) = l @ [new_entry k v]"

lemma table_step_ok [apr_refine]:
  "table_ok t \<Longrightarrow> table_ok (table_step t x) \<and> entries (table_step t x) = list_step (entries t) x"
  by (cases x) (simp_all add: apr_table_set_ok apr_table_unset_ok apr_table_clear_ok
    apr_table_merge_ok apr_table_add_ok)

lemma table_steps_ok:
  "table_ok t \<Longrightarrow> table_ok (foldl table_step t ops) \<and> entries (foldl table_step t ops) = foldl list_step (entries t) ops"
  by (induction ops arbitrary: t) (simp_all add: table_step_ok)

text \<open>
  C1. Refinement of tables to lists: whatever sequence of \<open>set\<close>, \<open>setn\<close>,
  \<open>unset\<close>, \<open>merge\<close>, \<open>mergen\<close>, \<open>add\<close>, \<open>addn\<close> and \<open>clear\<close> a client runs on a new
  table, the bucket index and the checksums stay exact, the entries in the
  array are those of the list semantics in the same order, and \<open>apr_table_get\<close>,
  which only looks at one chain and at checksums first, finds for every key the
  value of the first entry whose key compares equal without case.
\<close>

theorem apr_table_refines_list:
  "table_ok (foldl table_step (apr_table_make n) ops) \<and>
   entries (foldl table_step (apr_table_make n) ops) = foldl list_step [] ops \<and>
   apr_table_get (foldl table_step (apr_table_make n) ops) (Some k) =
     list_get k (foldl list_step [] ops)"
  using table_steps_ok [of "apr_table_make n" ops] apr_table_make_ok [of n]
  by (simp add: apr_table_get_entries)

text \<open>
  \<open>apr_table_set\<close> and \<open>apr_table_get\<close>: after a sequence of sets on a
  well-formed table a lookup returns the value of the last set of that key, in
  any mixture of upper and lower case, and what it returned before if there was
  none.
\<close>

theorem apr_table_get_after_sets:
  assumes "table_ok t"
  shows "apr_table_get (foldl (\<lambda>t (k, v). apr_table_set t k (Some v)) t kvs) (Some k') =
    (case find (\<lambda>(k, v). strcasecmp k k' = 0) (rev kvs) of
       Some (k, v) \<Rightarrow> Some v | None \<Rightarrow> apr_table_get t (Some k'))"
  by (rule table_store.lookup_update_all [OF assms])

theorem apr_table_get_after_sets_witness:
  "apr_table_get (foldl (\<lambda>t (k, v). apr_table_set t k (Some v)) (apr_table_make 2)
     [(''Host'', ''a''), (''HOST'', ''b'')]) (Some ''host'') = Some ''b''"
  using apr_table_get_after_sets [of "apr_table_make 2" "[(''Host'', ''a''), (''HOST'', ''b'')]" "''host''"]
    apr_table_make_ok [of 2]
  by (simp add: ci_eq_iff tolower_samples)

text \<open>
  \<open>apr_table_unset\<close> removes every entry whose key compares equal, keeps all
  others in order and leaves the index exact, although it moves the entries of
  the one chain and the rest of the array in two separate loops.
\<close>

theorem apr_table_unset_removes:
  assumes "table_ok t"
  shows "table_ok (apr_table_unset t k) \<and>
    entries (apr_table_unset t k) = filter (\<lambda>e. strcasecmp (te_key e) k \<noteq> 0) (entries t) \<and>
    apr_table_get (apr_table_unset t k) (Some k') =
      (if strcasecmp k k' = 0 then None else apr_table_get t (Some k'))"
  using apr_table_unset_ok [OF assms, of k] assms
  by (simp add: apr_table_get_entries list_unset_def list_get_filter)

theorem apr_table_unset_removes_witness:
  "apr_table_get (apr_table_unset (apr_table_add (apr_table_make 1) ''a'' (Some ''x'')) ''A'') (Some ''a'') = None"
  using apr_table_unset_removes [of "apr_table_add (apr_table_make 1) ''a'' (Some ''x'')" "''A''" "''a''"]
    apr_table_make_ok [of 1] apr_table_add_ok(1) [of "apr_table_make 1" "''a''" "Some ''x''"]
  by (simp add: ci_eq_iff tolower_samples)

text \<open>
  \<open>apr_table_merge\<close> joins the new value to the one a lookup would return,
  with a comma and a blank between, adds the entry when there is none, and does
  not change what any other key finds.
\<close>

theorem apr_table_get_after_merge:
  assumes "table_ok t"
  shows "apr_table_get (apr_table_merge t k (Some v)) (Some k') =
    (if strcasecmp k k' = 0 then
       (case apr_table_get t (Some k) of
          Some old \<Rightarrow> Some (old @ '', '' @ v)
        | None \<Rightarrow> if \<exists>e \<in> set (entries t). strcasecmp (te_key e) k = 0 then Some [] else Some v)
     else apr_table_get t (Some k'))"
proof -
  have "list_get k l = None" if "\<not> (\<exists>e \<in> set l. match k e)" for l
    using that by (induction l) auto
  then show ?thesis
    using apr_table_merge_ok(1) [OF assms, of k "Some v"] assms
    by (auto simp: apr_table_get_entries list_get_merge merged_val_def apr_pstrcat_def split: option.splits)
qed

theorem apr_table_get_after_merge_witness:
  "apr_table_get (apr_table_merge (apr_table_add (apr_table_make 1) ''a'' (Some ''x'')) ''A'' (Some ''y'')) (Some ''a'') =
     Some ''x, y''"
  using apr_table_get_after_merge [of "apr_table_add (apr_table_make 1) ''a'' (Some ''x'')" "''A''" "''y''" "''a''"]
    apr_table_make_ok [of 1] apr_table_add_ok(1) [of "apr_table_make 1" "''a''" "Some ''x''"]
  by (simp add: ci_eq_iff tolower_samples apr_table_get_entries)

text \<open>
  \<open>apr_table_vdo\<close> with a list of keys runs the callback, key by key, over
  exactly the entries with that key in the order they were added, stops a key
  when the callback returns zero, goes on with the next, and returns zero when
  one of the keys was stopped; without keys it runs over all entries.
\<close>

theorem apr_table_vdo_visits:
  assumes "table_ok t"
  shows "apr_table_vdo cb rec t ks =
    (if ks = [] then visit_entries cb (entries t) rec
     else foldl (\<lambda>(rec, rv) k.
            let (rec', rv') = visit_entries cb (filter (\<lambda>e. strcasecmp (te_key e) k = 0) (entries t)) rec
            in (rec', rv \<and> rv')) (rec, True) ks)"
  using apr_table_vdo_all [OF assms, of cb rec] vdo_keys_entries [OF assms, of cb ks rec True]
  by (simp add: apr_table_vdo_def)

theorem apr_table_vdo_visits_witness:
  "apr_table_vdo (\<lambda>r k v. (v # r, True)) [] (apr_table_add (apr_table_make 1) ''a'' (Some ''x'')) [''A''] =
     ([Some ''x''], True)"
  using apr_table_vdo_visits [of "apr_table_add (apr_table_make 1) ''a'' (Some ''x'')" "\<lambda>r k v. (v # r, True)" "[]" "[''A'']"]
    apr_table_make_ok [of 1] apr_table_add_ok(1) [of "apr_table_make 1" "''a''" "Some ''x''"]
  by (simp add: ci_eq_iff tolower_samples)

text \<open>
  \<open>apr_table_overlay\<close>, \<open>apr_table_copy\<close> and \<open>apr_table_clone\<close> build
  well-formed tables: a lookup in an overlay finds the entry of the overlay when
  that has the key and the one of the base otherwise, and copies hold the
  entries of their source.
\<close>

theorem apr_table_overlay_copy_clone:
  assumes "table_ok t" "table_ok base"
  shows "table_ok (apr_table_overlay t base) \<and>
    apr_table_get (apr_table_overlay t base) (Some k) =
      (if \<exists>e \<in> set (entries t). strcasecmp (te_key e) k = 0 then apr_table_get t (Some k)
       else apr_table_get base (Some k)) \<and>
    table_ok (apr_table_copy t) \<and> entries (apr_table_copy t) = entries t \<and>
    table_ok (apr_table_clone t) \<and> entries (apr_table_clone t) = entries t"
  using apr_table_overlay_ok [OF assms] apr_table_copy_ok [OF assms(1)] apr_table_clone_ok [OF assms(1)] assms
  by (simp add: apr_table_get_entries list_get_append)

theorem apr_table_overlay_copy_clone_witness:
  "apr_table_get (apr_table_overlay (apr_table_make 0) (apr_table_make 1)) (Some ''k'') = None"
  using apr_table_overlay_copy_clone [of "apr_table_make 0" "apr_table_make 1" "''k''"]
    apr_table_make_ok [of 0] apr_table_make_ok [of 1]
  by (simp add: apr_table_get_entries)

end
