(* ===== verification/Apr_Overlap.thy ===== *)
theory Apr_Overlap
  imports Apr_Table_Laws
begin

text \<open>
  Compressing and overlapping tables (\<open>apr_table_compress\<close>, \<open>apr_table_cat\<close> and
  \<open>apr_table_overlap\<close> of \<open>srclib/apr/tables/apr_tables.c\<close>). Compression sorts
  pointers to the entries with the stable mergesort, collapses each run of equal
  keys into its first entry and closes the holes. The lemmas show that the
  result is the declarative one (the first entry of each key stays in its place,
  its value computed from all entries of the key), that this is what storing the
  entries one after the other with \<open>apr_table_setn\<close> or \<open>apr_table_mergen\<close> gives, and
  when the overlap is the loop the header file documents.
\<close>

section \<open>The code\<close>

definition APR_OVERLAP_TABLES_SET :: "32 word" where
  "APR_OVERLAP_TABLES_SET = 0"

definition APR_OVERLAP_TABLES_MERGE :: "32 word" where
  "APR_OVERLAP_TABLES_MERGE = 1"

text \<open>
  A pointer to an entry is its index. While duplicates are processed a slot
  is \<open>None\<close> when its key has been set to NULL.
\<close>

type_synonym slots = "apr_table_entry option list"

definition dup_of :: "slots \<Rightarrow> nat \<Rightarrow> nat \<Rightarrow> bool" where
  "dup_of es last_elt i \<longleftrightarrow>
     te_checksum (the (es ! i)) = te_checksum (the (es ! last_elt)) \<and>
     strcasecmp (te_key (the (es ! i))) (te_key (the (es ! last_elt))) = 0"

text \<open>
  The value of a run in \<open>APR_OVERLAP_TABLES_MERGE\<close> mode: \<open>run_len\<close> is the size
  of the buffer the first loop computes, \<open>run_join\<close> the string the second loop
  writes before its terminating NUL. \<open>strlen\<close> of a NULL value is not defined:
  \<open>None\<close>.
\<close>

fun run_len :: "cstr option list \<Rightarrow> nat option" where
  "run_len [] = Some 0"
| "run_len (v # vs) =
     (case v of None \<Rightarrow> None
      | Some s \<Rightarrow> (case run_len vs of None \<Rightarrow> None | Some len \<Rightarrow> Some (length s + 2 + len)))"

fun run_join :: "cstr list \<Rightarrow> cstr" where
  "run_join [] = []"
| "run_join [s] = s"
| "run_join (s # t # ss) = s @ '', '' @ run_join (t # ss)"

definition run_value :: "32 word \<Rightarrow> cstr option list \<Rightarrow> cstr option option" where
  "run_value flags vals =
     (if flags = APR_OVERLAP_TABLES_MERGE
      then (case run_len vals of None \<Rightarrow> None | Some len \<Rightarrow> Some (Some (run_join (map the vals))))
      else Some (last vals))"

text \<open>
  The main loop: \<open>last_elt\<close> is \<open>*last\<close>, the list is what is left from
  \<open>sort_next\<close> to \<open>sort_end\<close>. The result is \<open>None\<close> when a NULL value is read.
\<close>

function compress_dups ::
    "32 word \<Rightarrow> slots \<Rightarrow> nat \<Rightarrow> nat list \<Rightarrow> bool \<Rightarrow> (slots \<times> bool) option" where
  "compress_dups flags es last_elt [] dups_found = Some (es, dups_found)"
| "compress_dups flags es last_elt (sort_next # rest) dups_found =
     (if dup_of es last_elt sort_next then
        let run = sort_next # takeWhile (dup_of es last_elt) rest;
            more = dropWhile (dup_of es last_elt) rest
        in case run_value flags (map (\<lambda>i. te_val (the (es ! i))) (last_elt # run)) of
             None \<Rightarrow> None
           | Some v \<Rightarrow>
               let es = es[last_elt := Some ((the (es ! last_elt))\<lparr>te_val := v\<rparr>)];
                   es = fold (\<lambda>i es. es[i := None]) run es
               in compress_dups flags es last_elt more True
      else compress_dups flags es sort_next rest dups_found)"
  by pat_completeness auto
termination
  by (relation "measure (\<lambda>(flags, es, last_elt, rest, found). length rest)")
    (auto simp: less_Suc_eq_le length_dropWhile_le)

declare compress_dups.simps(2) [simp del]

definition apr_table_compress :: "apr_table \<Rightarrow> 32 word \<Rightarrow> apr_table option" where
  "apr_table_compress t flags =
     (let n = nelts (tab t)
      in if n \<le> 1 then Some t
         else
           let sort_array = table_mergesort
                 (\<lambda>i j. strcasecmp (te_key (elt t i)) (te_key (elt t j)) > 0) [0..<n]
           in case compress_dups flags (elts (tab t)) (hd sort_array) (tl sort_array) False of
                None \<Rightarrow> None
              | Some (es, dups_found) \<Rightarrow>
                  let (es, n) = (if dups_found then squeeze (\<lambda>s. s = None) 0 n 0 es else (es, n))
                  in Some (table_reindex (t\<lparr>tab := (tab t)\<lparr>elts := es, nelts := n\<rparr>\<rparr>)))"

text \<open>\<open>apr_table_cat\<close> moves the index of \<open>s\<close> behind the \<open>n\<close> entries of \<open>t\<close>.\<close>

definition cat_step :: "nat \<Rightarrow> apr_table \<Rightarrow> nat \<Rightarrow> apr_table \<Rightarrow> apr_table" where
  "cat_step n s idx t =
     (if TABLE_INDEX_IS_INITIALIZED s idx then
        let t' = t\<lparr>index_last := (index_last t)(idx := Some (last_of s idx + n))\<rparr>
        in if \<not> TABLE_INDEX_IS_INITIALIZED t idx
           then t'\<lparr>index_first := (index_first t)(idx := Some (first_of s idx + n))\<rparr>
           else t'
      else t)"

definition apr_table_cat :: "apr_table \<Rightarrow> apr_table \<Rightarrow> apr_table" where
  "apr_table_cat t s =
     (let n = nelts (tab t);
          t = t\<lparr>tab := apr_array_cat zero_entry (tab t) (tab s)\<rparr>
      in if n = 0 then
           t\<lparr>index_first := index_first s, index_last := index_last s,
             index_initialized := index_initialized s\<rparr>
         else
           let t = fold (cat_step n s) [0..<32] t
           in t\<lparr>index_initialized := or (index_initialized t) (index_initialized s)\<rparr>)"

definition apr_table_overlap :: "apr_table \<Rightarrow> apr_table \<Rightarrow> 32 word \<Rightarrow> apr_table option" where
  "apr_table_overlap a b flags =
     (if nelts (tab a) + nelts (tab b) = 0 then Some a
      else apr_table_compress (apr_table_cat a b) flags)"

section \<open>The declarative result\<close>

text \<open>
  The first entry of each key, in table order, with a value computed from all
  entries of that key.
\<close>

definition is_first :: "apr_table_entry list \<Rightarrow> nat \<Rightarrow> bool" where
  "is_first l i \<longleftrightarrow> (\<forall>e \<in> set (take i l). \<not> match (te_key (l ! i)) e)"

definition key_group :: "apr_table_entry list \<Rightarrow> cstr \<Rightarrow> cstr option list" where
  "key_group l k = map te_val (filter (match k) l)"

definition group_value :: "32 word \<Rightarrow> cstr option list \<Rightarrow> cstr option" where
  "group_value flags vs =
     (if flags = APR_OVERLAP_TABLES_MERGE \<and> 1 < length vs then Some (run_join (map the vs)) else last vs)"

definition compressed :: "32 word \<Rightarrow> apr_table_entry list \<Rightarrow> apr_table_entry list" where
  "compressed flags l =
     map (\<lambda>i. (l ! i)\<lparr>te_val := group_value flags (key_group l (te_key (l ! i)))\<rparr>)
       (filter (is_first l) [0..<length l])"

text \<open>The values the merge dereferences are not NULL.\<close>

definition mergeable :: "32 word \<Rightarrow> apr_table_entry list \<Rightarrow> bool" where
  "mergeable flags l \<longleftrightarrow> (flags = APR_OVERLAP_TABLES_MERGE \<longrightarrow> (\<forall>e \<in> set l. te_val e \<noteq> None))"

text \<open>The buffer of a merged value holds the string and its NUL.\<close>

lemma run_len_Some: "None \<notin> set vs \<Longrightarrow> run_len vs = Some (sum_list (map (\<lambda>v. length (the v) + 2) vs))"
proof (induction vs)
  case (Cons v vs)
  then show ?case by (cases v) auto
qed simp

lemma run_len_None: "None \<in> set vs \<Longrightarrow> run_len vs = None"
  by (induction vs) (auto split: option.splits)

lemma length_run_join:
  "ss \<noteq> [] \<Longrightarrow> length (run_join ss) + 2 = sum_list (map (\<lambda>s. length s + 2) ss)"
  by (induction ss rule: run_join.induct) auto

lemma run_join_fits:
  assumes "run_len vs = Some len" "vs \<noteq> []"
  shows "Suc (length (run_join (map the vs))) \<le> len"
proof -
  have "None \<notin> set vs" using assms(1) run_len_None by fastforce
  then have "len = sum_list (map (\<lambda>s. length s + 2) (map the vs))"
    using assms(1) by (simp add: run_len_Some comp_def)
  then show ?thesis
    using length_run_join [of "map the vs"] assms(2) by simp
qed

lemma run_join_snoc: "ss \<noteq> [] \<Longrightarrow> run_join (ss @ [s]) = run_join ss @ '', '' @ s"
  by (induction ss rule: run_join.induct) auto

section \<open>Collapsing the runs of the sorted pointers\<close>

definition group :: "apr_table_entry list \<Rightarrow> nat list \<Rightarrow> nat \<Rightarrow> nat list" where
  "group l is i = filter (\<lambda>j. match (te_key (l ! i)) (l ! j)) is"

definition cell :: "32 word \<Rightarrow> apr_table_entry list \<Rightarrow> nat list \<Rightarrow> nat \<Rightarrow> apr_table_entry option" where
  "cell flags l is i =
     (if i = hd (group l is i)
      then Some ((l ! i)\<lparr>te_val := group_value flags (map (\<lambda>j. te_val (l ! j)) (group l is i))\<rparr>)
      else None)"

abbreviation key_gt :: "apr_table_entry list \<Rightarrow> nat \<Rightarrow> nat \<Rightarrow> bool" where
  "key_gt l \<equiv> \<lambda>i j. strcasecmp (te_key (l ! i)) (te_key (l ! j)) > 0"

interpretation index_order: weak_order "key_gt l" for l
  using key_order.asym key_order.not_gt_trans by unfold_locales blast+

lemma same_rank_match:
  "\<not> key_gt l i j \<and> \<not> key_gt l j i \<longleftrightarrow> match (te_key (l ! i)) (l ! j)"
  using strcasecmp_antisym [of "te_key (l ! i)" "te_key (l ! j)"]
    strcasecmp_antisym [of "te_key (l ! j)" "te_key (l ! i)"] by auto

lemma in_set_hd: "x \<in> set xs \<Longrightarrow> \<exists>y ys. xs = y # ys"
  by (cases xs) auto

text \<open>In sorted pointers the group of the first one is a prefix.\<close>

lemma group_split:
  assumes ord: "in_order (key_gt l) (a # xs)"
  shows "group l (a # xs) a = a # takeWhile (\<lambda>j. match (te_key (l ! a)) (l ! j)) xs"
    and "m \<in> set (dropWhile (\<lambda>j. match (te_key (l ! a)) (l ! j)) xs) \<Longrightarrow>
      group l (a # xs) m = group l (dropWhile (\<lambda>j. match (te_key (l ! a)) (l ! j)) xs) m"
    and "m \<in> set (dropWhile (\<lambda>j. match (te_key (l ! a)) (l ! j)) xs) \<Longrightarrow>
      \<not> match (te_key (l ! a)) (l ! m)"
proof -
  let ?P = "\<lambda>j. match (te_key (l ! a)) (l ! j)"
  have later: "\<not> ?P m" if "m \<in> set (dropWhile ?P xs)" for m
  proof -
    from in_set_hd [OF that] obtain m0 ms where more: "dropWhile ?P xs = m0 # ms" by blast
    then have m0: "\<not> ?P m0" by (rule dropWhile_eq_Cons_conv [THEN iffD1, THEN conjunct2])
    have "in_order (key_gt l) (takeWhile ?P xs @ m0 # ms)"
      using ord more by (metis in_order_simps(2) takeWhile_dropWhile_id)
    then have "m = m0 \<or> \<not> key_gt l m0 m" using that more by auto
    moreover have "\<not> key_gt l a m0"
      using ord more by (metis in_order_simps(2) list.set_intros(1) set_dropWhileD)
    then have "key_gt l m0 a" using m0 same_rank_match by blast
    ultimately show ?thesis
      using m0 same_rank_match [of l a m] index_order.gt_left [of l m0 a m] by blast
  qed
  have "filter ?P xs = filter ?P (takeWhile ?P xs) @ filter ?P (dropWhile ?P xs)"
    by (simp only: filter_append [symmetric] takeWhile_dropWhile_id)
  also have "filter ?P (dropWhile ?P xs) = []"
    unfolding filter_empty_conv using later by blast
  also have "filter ?P (takeWhile ?P xs) = takeWhile ?P xs"
    by (rule filter_True) (auto dest: set_takeWhileD)
  finally show "group l (a # xs) a = a # takeWhile ?P xs"
    by (simp add: group_def)
  assume m: "m \<in> set (dropWhile ?P xs)"
  with later show "\<not> ?P m" by blast
  have "filter (\<lambda>j. match (te_key (l ! m)) (l ! j)) (a # takeWhile ?P xs) = []"
    unfolding filter_empty_conv
    using later [OF m] by (auto simp: ci_eq_iff dest!: set_takeWhileD)
  then show "group l (a # xs) m = group l (dropWhile ?P xs) m"
    using filter_append [of "\<lambda>j. match (te_key (l ! m)) (l ! j)" "a # takeWhile ?P xs" "dropWhile ?P xs"]
    by (simp only: group_def append_Cons takeWhile_dropWhile_id append_Nil)
qed

lemma fold_clear:
  "length (fold (\<lambda>i es. es[i := None]) is es) = length es \<and>
   (\<forall>i < length es. fold (\<lambda>i es. es[i := None]) is es ! i = (if i \<in> set is then None else es ! i))"
  by (induction "is" arbitrary: es) (auto simp: nth_list_update)

lemma dup_of_iff:
  assumes "checksums_ok l" "i < length l" "j < length l"
    and "te_key (the (es ! a)) = te_key (l ! i)" "te_checksum (the (es ! a)) = te_checksum (l ! i)"
    "es ! b = Some (l ! j)"
  shows "dup_of es a b \<longleftrightarrow> match (te_key (l ! i)) (l ! j)"
proof -
  have "te_checksum (l ! i) = COMPUTE_KEY_CHECKSUM (te_key (l ! i))"
    "te_checksum (l ! j) = COMPUTE_KEY_CHECKSUM (te_key (l ! j))"
    using assms(1-3) by (simp_all add: checksums_ok_def)
  then show ?thesis
    using assms(4-6) CHECKSUM_ci by (auto simp: dup_of_def)
qed

lemma run_value_group:
  assumes "flags = APR_OVERLAP_TABLES_MERGE \<Longrightarrow> None \<notin> set vs" "1 < length vs"
  shows "run_value flags vs = Some (group_value flags vs)"
  using assms by (simp add: run_value_def group_value_def run_len_Some)

text \<open>The main loop on a run, in terms of the entries.\<close>

definition collapse_run :: "32 word \<Rightarrow> apr_table_entry list \<Rightarrow> nat \<Rightarrow> nat list \<Rightarrow> slots \<Rightarrow> slots" where
  "collapse_run flags l a run es = fold (\<lambda>i es. es[i := None]) run
     (es[a := Some ((l ! a)\<lparr>te_val := group_value flags (map (\<lambda>j. te_val (l ! j)) (a # run))\<rparr>)])"

lemma compress_dups_run:
  assumes "checksums_ok l" "mergeable flags l"
    and slots: "\<forall>i \<in> set (a # s # rest). i < length l \<and> es ! i = Some (l ! i)"
    and dup: "match (te_key (l ! a)) (l ! s)"
  shows "compress_dups flags es a (s # rest) found =
    compress_dups flags
      (collapse_run flags l a (s # takeWhile (\<lambda>j. match (te_key (l ! a)) (l ! j)) rest) es) a
      (dropWhile (\<lambda>j. match (te_key (l ! a)) (l ! j)) rest) True"
proof -
  let ?P = "\<lambda>j. match (te_key (l ! a)) (l ! j)"
  have P: "dup_of es a j = ?P j" if "j \<in> set (s # rest)" for j
    by (rule dup_of_iff [OF assms(1)]) (use that slots in auto)
  then have run: "takeWhile (dup_of es a) rest = takeWhile ?P rest"
    "dropWhile (dup_of es a) rest = dropWhile ?P rest"
    by (auto intro: takeWhile_cong dropWhile_cong)
  let ?run = "s # takeWhile ?P rest"
  have sub: "set ?run \<subseteq> set (s # rest)" by (auto dest: set_takeWhileD)
  have vals: "map (\<lambda>i. te_val (the (es ! i))) (a # ?run) = map (\<lambda>j. te_val (l ! j)) (a # ?run)"
    by (rule map_cong [OF refl]) (use slots sub in auto)
  have "te_val (l ! i) \<noteq> None" if "i \<in> set (a # ?run)" "flags = APR_OVERLAP_TABLES_MERGE" for i
  proof -
    have "i \<in> set (a # s # rest)" using that(1) sub by auto
    then have "i < length l" using slots by blast
    then have "l ! i \<in> set l" by simp
    then show ?thesis using that(2) assms(2) by (simp add: mergeable_def)
  qed
  then have val: "run_value flags (map (\<lambda>j. te_val (l ! j)) (a # ?run)) =
      Some (group_value flags (map (\<lambda>j. te_val (l ! j)) (a # ?run)))"
    by (intro run_value_group) (force simp only: set_map image_iff, simp)
  have "dup_of es a s" and ea: "es ! a = Some (l ! a)"
    using P [of s] dup slots by simp_all
  then show ?thesis
    by (subst compress_dups.simps(2))
      (simp only: if_True Let_def run vals val option.case option.sel ea collapse_run_def)
qed

lemma compress_dups_skip:
  assumes "checksums_ok l" "s < length l" "a < length l" "\<not> match (te_key (l ! a)) (l ! s)"
    and "te_key (the (es ! a)) = te_key (l ! a)" "te_checksum (the (es ! a)) = te_checksum (l ! a)"
    "es ! s = Some (l ! s)"
  shows "compress_dups flags es a (s # rest) found = compress_dups flags es s rest found"
  using dup_of_iff [OF assms(1,3,2,5-7)] assms(4) by (simp add: compress_dups.simps(2))

lemma collapse_run_nth:
  assumes "a < length es" "i < length es" "a \<notin> set run"
  shows "collapse_run flags l a run es ! i =
    (if i \<in> set run then None
     else if i = a then Some ((l ! a)\<lparr>te_val := group_value flags (map (\<lambda>j. te_val (l ! j)) (a # run))\<rparr>)
     else es ! i)"
  using assms fold_clear [of run "es[a := Some ((l ! a)\<lparr>te_val := group_value flags (map (\<lambda>j. te_val (l ! j)) (a # run))\<rparr>)]"]
  by (auto simp: collapse_run_def nth_list_update)

lemma length_collapse_run [simp]: "length (collapse_run flags l a run es) = length es"
  by (simp add: collapse_run_def fold_clear)

text \<open>The cells of the first run, and of the pointers behind it.\<close>

lemma cell_split:
  assumes ord: "in_order (key_gt l) (a # xs)" and dist: "distinct (a # xs)"
  defines "run \<equiv> takeWhile (\<lambda>j. match (te_key (l ! a)) (l ! j)) xs"
    and "tail \<equiv> dropWhile (\<lambda>j. match (te_key (l ! a)) (l ! j)) xs"
  shows "cell flags l (a # xs) a =
      Some ((l ! a)\<lparr>te_val := group_value flags (map (\<lambda>j. te_val (l ! j)) (a # run))\<rparr>)"
    and "i \<in> set run \<Longrightarrow> cell flags l (a # xs) i = None"
    and "i \<in> set tail \<Longrightarrow> cell flags l (a # xs) i = cell flags l tail i"
proof -
  note split = group_split [OF ord, folded run_def tail_def]
  show "cell flags l (a # xs) a =
      Some ((l ! a)\<lparr>te_val := group_value flags (map (\<lambda>j. te_val (l ! j)) (a # run))\<rparr>)"
    by (simp add: cell_def split(1))
  show "cell flags l (a # xs) i = cell flags l tail i" if "i \<in> set tail"
    by (simp add: cell_def split(2) [OF that])
  assume i: "i \<in> set run"
  then have "match (te_key (l ! a)) (l ! i)" and mem: "i \<in> set xs"
    unfolding run_def by (auto dest: set_takeWhileD)
  then have "group l (a # xs) i = group l (a # xs) a"
    unfolding group_def by (intro filter_cong refl) (simp add: ci_eq_iff)
  moreover have "i \<noteq> a" using dist mem by auto
  ultimately show "cell flags l (a # xs) i = None"
    by (simp add: cell_def split(1))
qed

lemma compress_dups_spec:
  assumes "checksums_ok l" "mergeable flags l"
    and "distinct (a # xs)" "in_order (key_gt l) (a # xs)" "length l \<le> length es"
    and "\<forall>i \<in> set (a # xs). i < length l \<and> es ! i = Some (l ! i)"
  shows "\<exists>es' found'. compress_dups flags es a xs found = Some (es', found') \<and>
    length es' = length es \<and> (\<forall>i < length es. es' ! i = (if i \<in> set (a # xs) then cell flags l (a # xs) i else es ! i)) \<and>
    (found \<longrightarrow> found') \<and> (\<not> found' \<longrightarrow> es' = es)"
  using assms(3-)
proof (induction xs arbitrary: a es found rule: length_induct)
  case (1 xs)
  note IH = "1.IH" and prems = "1.prems"
  let ?P = "\<lambda>j. match (te_key (l ! a)) (l ! j)"
  define run where "run = takeWhile ?P xs"
  define tail where "tail = dropWhile ?P xs"
  define es1 where "es1 = (if run = [] then es else collapse_run flags l a run es)"
  note cells = cell_split [OF prems(2,1), where flags = flags, folded run_def tail_def]
  have xs: "xs = run @ tail" by (simp add: run_def tail_def)
  have a: "a < length es" "a < length l" "a \<notin> set run" "a \<notin> set tail"
    using prems xs by auto
  have len: "length es1 = length es" by (simp add: es1_def)
  have run_id: "Some ((l ! a)\<lparr>te_val := group_value flags (map (\<lambda>j. te_val (l ! j)) [a])\<rparr>) = es ! a"
    using prems(4) by (simp add: group_value_def)
  have es1: "es1 ! i = (if i \<in> set (a # run) then cell flags l (a # xs) i else es ! i)"
    if "i < length es" for i
    using collapse_run_nth [OF a(1) that a(3), of flags l] cells(1) cells(2) [of i] run_id
    by (cases "i = a") (auto simp: es1_def split: if_splits)
  have loop: "compress_dups flags es a xs found = compress_dups flags es1 a tail (found \<or> run \<noteq> [])"
  proof (cases xs)
    case (Cons s rest)
    with prems compress_dups_run [OF assms(1,2), of a s rest es found]
    show ?thesis by (cases "?P s") (auto simp: es1_def run_def tail_def)
  qed (simp add: es1_def run_def tail_def)
  show ?case
  proof (cases tail)
    case Nil
    then have "compress_dups flags es a xs found = Some (es1, found \<or> run \<noteq> [])" "set xs = set run"
      using loop xs by simp_all
    moreover have "found \<or> run \<noteq> [] \<or> es1 = es" by (simp add: es1_def)
    ultimately show ?thesis using es1 len by auto
  next
    case (Cons s rest)
    have rest: "length rest < length xs" "distinct (s # rest)" "in_order (key_gt l) (s # rest)"
      using prems(1,2) xs Cons by auto
    have keep: "\<forall>i \<in> set (s # rest). i < length l \<and> es1 ! i = Some (l ! i)"
    proof
      fix i assume i: "i \<in> set (s # rest)"
      then have "i \<in> set (a # xs)" "i \<notin> set (a # run)"
        using xs Cons prems(1) by auto
      then show "i < length l \<and> es1 ! i = Some (l ! i)"
        using prems(3,4) es1 [of i] by auto
    qed
    have "es1 ! a = cell flags l (a # xs) a" using es1 [OF a(1)] by simp
    then have "compress_dups flags es1 a (s # rest) (found \<or> run \<noteq> []) =
        compress_dups flags es1 s rest (found \<or> run \<noteq> [])"
      using group_split(3) [OF prems(2), of s, folded tail_def] keep a(2) Cons cells(1)
      by (intro compress_dups_skip [OF assms(1)]) simp_all
    moreover obtain es' found' where res:
        "compress_dups flags es1 s rest (found \<or> run \<noteq> []) = Some (es', found')" "length es' = length es1"
        "\<And>i. i < length es1 \<Longrightarrow> es' ! i = (if i \<in> set (s # rest) then cell flags l (s # rest) i else es1 ! i)"
        "found \<or> run \<noteq> [] \<Longrightarrow> found'" "\<not> found' \<Longrightarrow> es' = es1"
    proof -
      have "length l \<le> length es1" using prems(3) len by simp
      from IH [rule_format, OF rest(1,2,3) this keep [rule_format], of "found \<or> run \<noteq> []"] that
      show thesis by blast
    qed
    moreover have "es' ! i = (if i \<in> set (a # xs) then cell flags l (a # xs) i else es ! i)"
      if "i < length es" for i
      using res(3) [of i] es1 [OF that] that len cells(3) [of i] xs Cons by auto
    moreover have "es' = es" if "\<not> found'"
      using that res(4,5) by (auto simp: es1_def)
    ultimately show ?thesis
      using loop Cons len by auto
  qed
qed

section \<open>Compression\<close>

interpretation elt_order: weak_order "\<lambda>i j. strcasecmp (te_key (elt t i)) (te_key (elt t j)) > 0" for t
  using key_order.asym key_order.not_gt_trans by unfold_locales blast+

abbreviation sorted_ptrs :: "apr_table \<Rightarrow> nat list" where
  "sorted_ptrs t \<equiv> table_mergesort
     (\<lambda>i j. strcasecmp (te_key (elt t i)) (te_key (elt t j)) > 0) [0..<nelts (tab t)]"

lemma sorted_ptrs_props:
  assumes arr: "array_ok (tab t)"
  shows "distinct (sorted_ptrs t)" "set (sorted_ptrs t) = {..<length (entries t)}"
    "in_order (key_gt (entries t)) (sorted_ptrs t)"
    "i < length (entries t) \<Longrightarrow> group (entries t) (sorted_ptrs t) i = group (entries t) [0..<length (entries t)] i"
proof -
  define S where "S = sorted_ptrs t"
  have "mset S = mset [0..<nelts (tab t)]" unfolding S_def by (rule mset_table_mergesort)
  then show "distinct (sorted_ptrs t)" unfolding S_def by (metis distinct_upt mset_eq_imp_distinct_iff)
  show mem: "set (sorted_ptrs t) = {..<length (entries t)}"
    using arr by auto
  have key: "te_key (elt t i) = te_key (entries t ! i)" if "i \<in> set S" for i
  proof -
    have "i < nelts (tab t)" using that by (simp add: S_def)
    then show ?thesis by (simp only: elt_entries [OF arr])
  qed
  have "in_order (\<lambda>i j. strcasecmp (te_key (elt t i)) (te_key (elt t j)) > 0) S"
    unfolding S_def by (rule elt_order.table_mergesort_in_order)
  then have "in_order (key_gt (entries t)) S"
    unfolding in_order_def by (rule sorted_wrt_mono_rel [rotated]) (simp only: key not_False_eq_True)
  then show "in_order (key_gt (entries t)) (sorted_ptrs t)" unfolding S_def .
  assume i: "i < length (entries t)"
  then have i': "i \<in> set S" using mem by (simp add: S_def)
  have same: "match (te_key (entries t ! i)) (entries t ! j) = elt_order.same_rank t i j"
    if "j \<in> set S" for j
    unfolding same_rank_match [symmetric] key [OF i'] key [OF that] ..
  have "group (entries t) S i = filter (elt_order.same_rank t i) S"
    unfolding group_def by (rule filter_cong [OF refl]) (rule same)
  also have "\<dots> = filter (elt_order.same_rank t i) [0..<nelts (tab t)]"
    unfolding S_def by (rule elt_order.table_mergesort_stable)
  also have "[0..<nelts (tab t)] = [0..<length (entries t)]"
    using arr by simp
  also have "filter (elt_order.same_rank t i) [0..<length (entries t)] = group (entries t) [0..<length (entries t)] i"
    unfolding group_def by (rule filter_cong [OF refl]) (use same [symmetric] arr in \<open>simp add: S_def\<close>)
  finally show "group (entries t) (sorted_ptrs t) i = group (entries t) [0..<length (entries t)] i"
    unfolding S_def .
qed

lemma hd_filter_upt:
  assumes "i < n" "p i"
  shows "i = hd (filter p [0..<n]) \<longleftrightarrow> (\<forall>j < i. \<not> p j)"
proof -
  have split: "[0..<n] = [0..<i] @ i # [Suc i..<n]"
    using assms(1) using upt_add_eq_append [of 0 i "n - i"] upt_conv_Cons [of i n] by simp
  show ?thesis
  proof (cases "\<forall>j < i. \<not> p j")
    case True
    then have "filter p [0..<i] = []" by (simp add: filter_empty_conv)
    with True assms(2) show ?thesis unfolding split by simp
  next
    case False
    then have "filter p [0..<i] \<noteq> []" by (auto simp: filter_empty_conv)
    then have "hd (filter p [0..<n]) \<in> set (filter p [0..<i])"
      unfolding split by (metis filter_append hd_append2 hd_in_set)
    then show ?thesis using False by auto
  qed
qed

lemma map_nth_filter: "map ((!) l) (filter (\<lambda>i. p (l ! i)) [0..<length l]) = filter p l"
  by (subst (3) map_nth [symmetric]) (simp add: filter_map comp_def)

lemma cell_upt:
  assumes i: "i < length l"
  shows "cell flags l [0..<length l] i =
    (if is_first l i then Some ((l ! i)\<lparr>te_val := group_value flags (key_group l (te_key (l ! i)))\<rparr>) else None)"
proof -
  have "map (\<lambda>j. te_val (l ! j)) (group l [0..<length l] i) = map te_val (map ((!) l) (group l [0..<length l] i))"
    by simp
  then have "map (\<lambda>j. te_val (l ! j)) (group l [0..<length l] i) = key_group l (te_key (l ! i))"
    by (simp only: map_nth_filter [of l "match (te_key (l ! i))"] group_def key_group_def)
  moreover have "i = hd (group l [0..<length l] i) \<longleftrightarrow> is_first l i"
  proof -
    have "(\<forall>j < i. \<not> match (te_key (l ! i)) (l ! j)) \<longleftrightarrow> is_first l i"
      using i unfolding is_first_def all_set_conv_all_nth by (simp add: min_absorb2)
    then show ?thesis
      using hd_filter_upt [OF i, of "\<lambda>j. match (te_key (l ! i)) (l ! j)"] by (simp add: group_def)
  qed
  ultimately show ?thesis by (simp add: cell_def)
qed

lemma compressed_short: "length l \<le> 1 \<Longrightarrow> compressed flags l = l"
  by (cases l) (auto simp: compressed_def is_first_def key_group_def group_value_def)

lemma compressed_cells:
  "compressed flags l =
     map the (filter (\<lambda>s. s \<noteq> None) (map (cell flags l [0..<length l]) [0..<length l]))"
proof -
  have "filter (\<lambda>i. cell flags l [0..<length l] i \<noteq> None) [0..<length l] = filter (is_first l) [0..<length l]"
    by (rule filter_cong) (simp_all add: cell_upt)
  then show ?thesis
    by (auto simp: compressed_def filter_map comp_def cell_upt)
qed

lemma filter_Some_the: "filter (\<lambda>s. s \<noteq> None) xs = map Some (map the (filter (\<lambda>s. s \<noteq> None) xs))"
  by (induction xs) auto

lemma compressed_keys: "te_key ` set (compressed flags l) \<subseteq> te_key ` set l"
  by (auto simp: compressed_def)

lemma compressed_checksums: "checksums_ok l \<Longrightarrow> checksums_ok (compressed flags l)"
  by (auto simp: checksums_ok_def compressed_def)

lemma apr_table_compress_ok:
  assumes ok: "table_ok t" and "mergeable flags (entries t)"
  shows "\<exists>t'. apr_table_compress t flags = Some t' \<and> table_ok t' \<and> entries t' = compressed flags (entries t)"
proof (cases "nelts (tab t) \<le> 1")
  case True
  then show ?thesis
    using ok compressed_short [of "entries t" flags] table_okD(1) [OF ok]
    by (simp add: apr_table_compress_def)
next
  case False
  note arr = table_okD(1) [OF ok] and sums = table_okD(3) [OF ok]
  define l where "l = entries t"
  define n where "n = nelts (tab t)"
  have n: "length l = n" "n \<le> length (elts (tab t))" and old: "take n (elts (tab t)) = map Some l"
    using arr array_okD(3) [OF arr] take_elts [OF arr] by (simp_all add: l_def n_def)
  note ptrs = sorted_ptrs_props [OF arr, folded l_def]
  have "0 \<in> set (sorted_ptrs t)"
    using False by (simp add: n_def)
  from in_set_hd [OF this] obtain a xs where S: "sorted_ptrs t = a # xs" by blast
  have slots: "elts (tab t) ! i = Some (l ! i)" if "i < n" for i
    using array_list_nth [OF arr, of i] that by (simp add: l_def n_def)
  then have "\<forall>i \<in> set (a # xs). i < length l \<and> elts (tab t) ! i = Some (l ! i)"
    using ptrs(2) n(1) unfolding S by auto
  moreover have mem: "i \<in> set (a # xs) \<longleftrightarrow> i < n" for i
    using ptrs(2) n(1) unfolding S by auto
  moreover have "distinct (a # xs)" "in_order (key_gt l) (a # xs)"
    using ptrs(1,3) unfolding S .
  ultimately obtain es' found' where run: "compress_dups flags (elts (tab t)) a xs False = Some (es', found')"
    and len: "length es' = length (elts (tab t))"
    and nth': "\<And>i. i < length (elts (tab t)) \<Longrightarrow>
        es' ! i = (if i \<in> set (a # xs) then cell flags l (a # xs) i else elts (tab t) ! i)"
    and same: "\<not> found' \<Longrightarrow> es' = elts (tab t)"
    using compress_dups_spec [of l flags a xs "elts (tab t)" False] sums assms(2) n
    unfolding l_def [symmetric] by metis
  have nth: "es' ! i = cell flags l (a # xs) i" if "i < n" for i
    using nth' [of i] that n(2) mem [of i] by (simp only: if_True)
  have cells: "take n es' = map (cell flags l [0..<length l]) [0..<n]"
  proof (rule nth_equalityI)
    show "take n es' ! i = map (cell flags l [0..<length l]) [0..<n] ! i" if "i < length (take n es')" for i
      using that nth [of i] ptrs(4) [of i] n len by (simp add: cell_def S)
  qed (use n len in simp)
  have keep: "filter (\<lambda>s. s \<noteq> None) (take n es') = map Some (compressed flags l)"
    unfolding compressed_cells n(1) cells by (rule filter_Some_the)
  obtain es'' n'' where sq: "(if found' then squeeze (\<lambda>s. s = None) 0 n 0 es' else (es', n)) = (es'', n'')"
    by fastforce
  have "n'' \<le> n \<and> length es'' = length (elts (tab t)) \<and> take n'' es'' = map Some (compressed flags l)"
  proof (cases found')
    case True
    then have "squeeze (\<lambda>s. s = None) 0 n 0 es' = (es'', n'')" using sq by simp
    from squeeze_result [OF _ _ _ this] n len
    have sq: "length es'' = length es'" "n'' = length (filter (\<lambda>s. s \<noteq> None) (take n es'))"
        "take n'' es'' = filter (\<lambda>s. s \<noteq> None) (take n es')"
      by auto
    have "n'' \<le> n"
      using sq(2) length_filter_le [of "\<lambda>s. s \<noteq> None" "take n es'"] by simp
    then show ?thesis
      using sq(1) len sq(3) keep by simp
  next
    case False
    then have "es'' = elts (tab t)" "n'' = n" using sq same by auto
    moreover have "filter (\<lambda>s. s \<noteq> None) (take n es') = take n es'"
      using same [OF False] old by (simp add: filter_id_conv)
    ultimately show ?thesis using keep same [OF False] by simp
  qed
  then have "array_ok ((tab t)\<lparr>elts := es'', nelts := n''\<rparr>) \<and>
      array_list ((tab t)\<lparr>elts := es'', nelts := n''\<rparr>) = compressed flags l"
    by (intro array_replace [OF arr]) (simp_all add: n_def)
  moreover have "apr_table_compress t flags =
      Some (table_reindex (t\<lparr>tab := (tab t)\<lparr>elts := es'', nelts := n''\<rparr>\<rparr>))"
    using False run sq unfolding n_def by (simp add: apr_table_compress_def Let_def S)
  ultimately show ?thesis
    using table_reindex_table_ok [of "t\<lparr>tab := (tab t)\<lparr>elts := es'', nelts := n''\<rparr>\<rparr>"]
      compressed_checksums [OF sums, of flags] by (simp add: l_def)
qed

section \<open>Compression as repeated storing\<close>

text \<open>Storing the entries one after the other, with the list semantics.\<close>

definition store_all :: "32 word \<Rightarrow> apr_table_entry list \<Rightarrow> apr_table_entry list \<Rightarrow> apr_table_entry list" where
  "store_all flags l es =
     foldl (\<lambda>l e. if flags = APR_OVERLAP_TABLES_MERGE then list_merge (te_key e) (te_val e) l
                  else list_set (te_key e) (te_val e) l) l es"

definition unique_keys :: "apr_table_entry list \<Rightarrow> bool" where
  "unique_keys l \<longleftrightarrow> sorted_wrt (\<lambda>x y. \<not> match (te_key x) y) l"

lemma unique_keys_snoc:
  "unique_keys (l @ [e]) \<longleftrightarrow> unique_keys l \<and> (\<forall>x \<in> set l. \<not> match (te_key e) x)"
  by (auto simp: unique_keys_def sorted_wrt_append ci_eq_sym)

lemma list_set_unique_keys:
  "unique_keys l \<Longrightarrow> list_set k v l =
     (if \<exists>x \<in> set l. match k x then map (\<lambda>x. if match k x then x\<lparr>te_val := v\<rparr> else x) l
      else l @ [new_entry k v])"
proof (induction l)
  case (Cons e l)
  then have IH: "list_set k v l = (if \<exists>x \<in> set l. match k x then map (\<lambda>x. if match k x then x\<lparr>te_val := v\<rparr> else x) l
      else l @ [new_entry k v])" and no: "\<forall>x \<in> set l. \<not> match (te_key e) x"
    by (simp_all add: unique_keys_def)
  show ?case
  proof (cases "match k e")
    case True
    then have "\<forall>x \<in> set l. \<not> match k x"
      using no by (auto simp: ci_eq_iff)
    then have "filter (\<lambda>x. \<not> match k x) l = l"
      "map (\<lambda>x. if match k x then x\<lparr>te_val := v\<rparr> else x) l = l"
      by (auto simp: filter_id_conv intro: map_idI)
    with True show ?thesis by simp
  qed (use IH in auto)
qed simp

lemma list_merge_unique_keys:
  "unique_keys l \<Longrightarrow> list_merge k v l =
     (if \<exists>x \<in> set l. match k x
      then map (\<lambda>x. if match k x then x\<lparr>te_val := merged_val (te_val x) v\<rparr> else x) l
      else l @ [new_entry k v])"
proof (induction l)
  case (Cons e l)
  then have IH: "list_merge k v l = (if \<exists>x \<in> set l. match k x
      then map (\<lambda>x. if match k x then x\<lparr>te_val := merged_val (te_val x) v\<rparr> else x) l
      else l @ [new_entry k v])" and no: "\<forall>x \<in> set l. \<not> match (te_key e) x"
    by (simp_all add: unique_keys_def)
  show ?case
  proof (cases "match k e")
    case True
    then have "\<forall>x \<in> set l. \<not> match k x"
      using no by (auto simp: ci_eq_iff)
    then have "map (\<lambda>x. if match k x then x\<lparr>te_val := merged_val (te_val x) v\<rparr> else x) l = l"
      by (auto intro: map_idI)
    with True show ?thesis by simp
  qed (use IH in auto)
qed simp

text \<open>How the collapsed list grows with one more entry.\<close>

lemma is_first_snoc: "i < length l \<Longrightarrow> is_first (l @ [e]) i = is_first l i"
  by (simp add: is_first_def nth_append)

lemma is_first_last: "is_first (l @ [e]) (length l) \<longleftrightarrow> (\<forall>x \<in> set l. \<not> match (te_key e) x)"
  by (auto simp: is_first_def ci_eq_sym)

lemma key_group_snoc:
  "key_group (l @ [e]) k = key_group l k @ (if match k e then [te_val e] else [])"
  by (simp add: key_group_def)

lemma compressed_snoc:
  "compressed flags (l @ [e]) =
     map (\<lambda>x. if match (te_key e) x
              then x\<lparr>te_val := group_value flags (key_group l (te_key e) @ [te_val e])\<rparr> else x)
       (compressed flags l) @
     (if \<exists>x \<in> set l. match (te_key e) x then [] else [e])"
proof -
  let ?upd = "\<lambda>x. if match (te_key e) x
    then x\<lparr>te_val := group_value flags (key_group l (te_key e) @ [te_val e])\<rparr> else x"
  have group: "key_group l k = key_group l (te_key e)" if "match k e" for k
    unfolding key_group_def using that by (intro arg_cong [where f = "map te_val"] filter_cong) (auto simp: ci_eq_iff)
  have old: "((l @ [e]) ! i)\<lparr>te_val := group_value flags (key_group (l @ [e]) (te_key ((l @ [e]) ! i)))\<rparr> =
      ?upd ((l ! i)\<lparr>te_val := group_value flags (key_group l (te_key (l ! i)))\<rparr>)" if "i < length l" for i
    using that group [of "te_key (l ! i)"] by (auto simp: key_group_snoc nth_append ci_eq_sym)
  have "e\<lparr>te_val := group_value flags (key_group (l @ [e]) (te_key e))\<rparr> = e"
    if "\<forall>x \<in> set l. \<not> match (te_key e) x"
  proof -
    have "key_group l (te_key e) = []" using that by (simp add: key_group_def filter_empty_conv)
    then show ?thesis by (simp add: key_group_snoc group_value_def)
  qed
  moreover have "filter (is_first (l @ [e])) [0..<length l] = filter (is_first l) [0..<length l]"
    by (rule filter_cong) (simp_all add: is_first_snoc)
  moreover have "map (\<lambda>i. ((l @ [e]) ! i)\<lparr>te_val := group_value flags (key_group (l @ [e]) (te_key ((l @ [e]) ! i)))\<rparr>)
      (filter (is_first l) [0..<length l]) = map ?upd (compressed flags l)"
    unfolding compressed_def map_map by (rule map_cong [OF refl]) (use old in \<open>simp add: comp_def\<close>)
  ultimately show ?thesis
    unfolding compressed_def [of flags "l @ [e]"]
    by (simp add: is_first_last del: ci_eq_refl)
qed

lemma compressed_keys_snoc:
  "map te_key (compressed flags (l @ [e])) =
     map te_key (compressed flags l) @ (if \<exists>x \<in> set l. match (te_key e) x then [] else [te_key e])"
  by (auto simp: compressed_snoc)

lemma match_keys: "(\<exists>x \<in> set l. match k x) \<longleftrightarrow> (\<exists>q \<in> set (map te_key l). ci_eq q k)"
  by auto

lemma unique_keys_map: "unique_keys l \<longleftrightarrow> sorted_wrt (\<lambda>p q. \<not> ci_eq q p) (map te_key l)"
  by (simp add: unique_keys_def sorted_wrt_map)

lemma compressed_match:
  "(\<exists>x \<in> set (compressed flags l). match k x) \<longleftrightarrow> (\<exists>x \<in> set l. match k x)"
proof (induction l rule: rev_induct)
  case (snoc e l)
  show ?case
  proof (cases "\<exists>x \<in> set l. match (te_key e) x")
    case True
    then have "match k e \<Longrightarrow> \<exists>x \<in> set l. match k x" by (auto simp: ci_eq_iff)
    then show ?thesis
      using snoc.IH True unfolding match_keys compressed_keys_snoc by auto
  next
    case False
    then show ?thesis
      using snoc.IH unfolding match_keys compressed_keys_snoc by auto
  qed
qed (simp add: compressed_def)

lemma compressed_unique: "unique_keys (compressed flags l)"
proof (induction l rule: rev_induct)
  case (snoc e l)
  show ?case
  proof (cases "\<exists>x \<in> set l. match (te_key e) x")
    case True
    with snoc show ?thesis unfolding unique_keys_map compressed_keys_snoc by simp
  next
    case False
    then have "\<not> (\<exists>x \<in> set (compressed flags l). match (te_key e) x)"
      unfolding compressed_match .
    then have "\<forall>q \<in> set (map te_key (compressed flags l)). \<not> ci_eq (te_key e) q"
      unfolding match_keys by (simp add: ci_eq_sym)
    with False snoc show ?thesis
      unfolding unique_keys_map compressed_keys_snoc by (simp add: sorted_wrt_append)
  qed
qed (simp add: compressed_def unique_keys_def)

lemma compressed_val:
  assumes "x \<in> set (compressed flags l)" "match k x"
  shows "te_val x = group_value flags (key_group l k)"
proof -
  from assms(1) obtain i where x: "x = (l ! i)\<lparr>te_val := group_value flags (key_group l (te_key (l ! i)))\<rparr>"
    by (auto simp: compressed_def)
  with assms(2) have "key_group l (te_key (l ! i)) = key_group l k"
    unfolding key_group_def by (intro arg_cong [where f = "map te_val"] filter_cong) (auto simp: ci_eq_iff)
  with x show ?thesis by simp
qed

lemma group_value_merge:
  assumes "None \<notin> set g" "g \<noteq> []" "v \<noteq> None" "flags = APR_OVERLAP_TABLES_MERGE"
  shows "group_value flags (g @ [v]) = merged_val (group_value flags g) v"
proof -
  obtain s u where v: "v = Some u" and last: "last g = Some s"
    using assms(1-3) by (metis last_in_set not_None_eq)
  show ?thesis
  proof (cases "1 < length g")
    case True
    with v assms(2,4) show ?thesis
      by (simp add: group_value_def merged_val_def apr_pstrcat_def run_join_snoc)
  next
    case False
    with assms(2) last have "g = [Some s]" by (cases g) auto
    with v assms(4) show ?thesis
      by (simp add: group_value_def merged_val_def apr_pstrcat_def)
  qed
qed

lemma store_all_compressed:
  "checksums_ok l \<Longrightarrow> mergeable flags l \<Longrightarrow> store_all flags [] l = compressed flags l"
proof (induction l rule: rev_induct)
  case Nil
  then show ?case by (simp add: store_all_def compressed_def)
next
  case (snoc e l)
  let ?c = "compressed flags l"
  have sums: "checksums_ok l" and merg: "mergeable flags l"
    and e: "new_entry (te_key e) (te_val e) = e" "flags = APR_OVERLAP_TABLES_MERGE \<longrightarrow> te_val e \<noteq> None"
    using snoc.prems by (auto simp: checksums_ok_def mergeable_def new_entry_of)
  have step: "store_all flags [] (l @ [e]) =
      (if flags = APR_OVERLAP_TABLES_MERGE then list_merge (te_key e) (te_val e) ?c
       else list_set (te_key e) (te_val e) ?c)"
    using snoc.IH [OF sums merg] by (simp add: store_all_def)
  have none: "None \<notin> set (key_group l k)" if "flags = APR_OVERLAP_TABLES_MERGE" for k
    using merg that by (auto simp: mergeable_def key_group_def)
  have val: "group_value flags (key_group l (te_key e) @ [te_val e]) =
      (if flags = APR_OVERLAP_TABLES_MERGE then merged_val (te_val x) (te_val e) else te_val e)"
    if "x \<in> set ?c" "match (te_key e) x" for x
  proof -
    have "key_group l (te_key e) \<noteq> []"
      using that compressed_match [of flags l "te_key e"] by (auto simp: key_group_def filter_empty_conv)
    then show ?thesis
      using compressed_val [OF that] none e(2)
      by (auto simp: group_value_merge, simp_all add: group_value_def)
  qed
  note uset = list_set_unique_keys [OF compressed_unique [of flags l], of "te_key e" "te_val e"]
    and umerge = list_merge_unique_keys [OF compressed_unique [of flags l], of "te_key e" "te_val e"]
  show ?case
  proof (cases "\<exists>x \<in> set l. match (te_key e) x")
    case True
    then have hit: "\<exists>x \<in> set ?c. match (te_key e) x" unfolding compressed_match .
    have "store_all flags [] (l @ [e]) = map (\<lambda>x. if match (te_key e) x
        then x\<lparr>te_val := if flags = APR_OVERLAP_TABLES_MERGE then merged_val (te_val x) (te_val e) else te_val e\<rparr>
        else x) ?c"
      unfolding step uset umerge if_P [OF hit] by simp
    also have "\<dots> = map (\<lambda>x. if match (te_key e) x
        then x\<lparr>te_val := group_value flags (key_group l (te_key e) @ [te_val e])\<rparr> else x) ?c"
      by (rule map_cong [OF refl]) (simp add: val)
    finally show ?thesis unfolding compressed_snoc if_P [OF True] by simp
  next
    case False
    then have miss: "\<not> (\<exists>x \<in> set ?c. match (te_key e) x)" unfolding compressed_match .
    then have "store_all flags [] (l @ [e]) = ?c @ [e]"
      unfolding step uset umerge if_not_P [OF miss] by (simp add: e(1))
    moreover have "map (\<lambda>x. if match (te_key e) x
        then x\<lparr>te_val := group_value flags (key_group l (te_key e) @ [te_val e])\<rparr> else x) ?c = ?c"
      by (rule map_idI) (use miss in auto)
    ultimately show ?thesis unfolding compressed_snoc if_not_P [OF False] by simp
  qed
qed

text \<open>A list of distinct keys is its own compression.\<close>

lemma store_all_append: "store_all flags l (es @ fs) = store_all flags (store_all flags l es) fs"
  by (simp add: store_all_def)

lemma store_all_unique:
  "unique_keys l \<Longrightarrow> checksums_ok l \<Longrightarrow> store_all flags [] l = l"
proof (induction l rule: rev_induct)
  case (snoc e l)
  then have "store_all flags [] l = l" "\<forall>x \<in> set l. \<not> match (te_key e) x" "new_entry (te_key e) (te_val e) = e"
    by (auto simp: unique_keys_snoc checksums_ok_def new_entry_of)
  then show ?case
    by (simp add: store_all_append) (simp add: store_all_def list_set_absent list_merge_absent)
qed (simp add: store_all_def)

section \<open>Concatenation and overlap\<close>

lemma chain_append: "chain (l1 @ l2) h = chain l1 h @ map (\<lambda>i. i + length l1) (chain l2 h)"
  by (induction l2 rule: rev_induct) (simp_all add: chain_snoc flip: append_assoc)

lemma cat_steps:
  assumes "m \<le> 32" and res: "t' = fold (cat_step n s) [0..<m] t"
  shows "tab t' = tab t \<and> index_initialized t' = index_initialized t \<and>
    (\<forall>h. index_last t' h = (if h < m \<and> TABLE_INDEX_IS_INITIALIZED s h then Some (last_of s h + n) else index_last t h) \<and>
      index_first t' h = (if h < m \<and> TABLE_INDEX_IS_INITIALIZED s h \<and> \<not> TABLE_INDEX_IS_INITIALIZED t h
        then Some (first_of s h + n) else index_first t h))"
  using assms(1) unfolding res
proof (induction m)
  case (Suc m)
  let ?f = "fold (cat_step n s) [0..<m] t"
  have IH: "tab ?f = tab t" "index_initialized ?f = index_initialized t"
    "index_last ?f h = (if h < m \<and> TABLE_INDEX_IS_INITIALIZED s h then Some (last_of s h + n) else index_last t h)"
    "index_first ?f h = (if h < m \<and> TABLE_INDEX_IS_INITIALIZED s h \<and> \<not> TABLE_INDEX_IS_INITIALIZED t h
        then Some (first_of s h + n) else index_first t h)" for h
    using Suc by simp_all
  then have "TABLE_INDEX_IS_INITIALIZED ?f m = TABLE_INDEX_IS_INITIALIZED t m"
    by (intro index_initialized_cong)
  then show ?case
    by (auto simp: cat_step_def [of n s m ?f] Let_def IH less_Suc_eq)
qed simp

lemma apr_table_cat_ok:
  assumes okt: "table_ok t" and oks: "table_ok s"
  shows "table_ok (apr_table_cat t s) \<and> entries (apr_table_cat t s) = entries t @ entries s"
proof -
  let ?a = "apr_array_cat zero_entry (tab t) (tab s)" and ?n = "nelts (tab t)"
  have arr: "array_ok ?a" "array_list ?a = entries t @ entries s"
    using apr_array_cat_ok [OF table_okD(1) [OF okt] table_okD(1) [OF oks], of zero_entry] by simp_all
  have sums: "checksums_ok (entries t @ entries s)"
    using table_okD(3) [OF okt] table_okD(3) [OF oks] by (auto simp: checksums_ok_def)
  have n: "length (entries t) = ?n" using table_okD(1) [OF okt] by simp
  have tab: "tab (apr_table_cat t s) = ?a"
    using cat_steps [of 32 _ ?n s "t\<lparr>tab := ?a\<rparr>", OF _ refl] by (simp add: apr_table_cat_def Let_def)
  have "index_ok (apr_table_cat t s) (entries t @ entries s)"
  proof (cases "?n = 0")
    case True
    then have "entries t = []" using n by simp
    with True table_okD(2) [OF oks] show ?thesis
      by (simp add: index_ok_def bit_initialized apr_table_cat_def Let_def)
  next
    case False
    show ?thesis
      unfolding index_ok_def
    proof (intro allI impI)
      fix h :: nat assume h: "h < 32"
      let ?ct = "chain (entries t) h" and ?cs = "chain (entries s) h"
      have t: "TABLE_INDEX_IS_INITIALIZED t h = (?ct \<noteq> [])"
          "?ct \<noteq> [] \<longrightarrow> index_first t h = Some (hd ?ct) \<and> index_last t h = Some (last ?ct)"
        using table_okD(2) [OF okt] h by (simp_all add: index_ok_def)
      have s: "TABLE_INDEX_IS_INITIALIZED s h = (?cs \<noteq> [])"
          "?cs \<noteq> [] \<longrightarrow> index_first s h = Some (hd ?cs) \<and> index_last s h = Some (last ?cs)"
        using table_okD(2) [OF oks] h by (simp_all add: index_ok_def)
      let ?t' = "fold (cat_step ?n s) [0..<32] (t\<lparr>tab := ?a\<rparr>)"
      have ini: "TABLE_INDEX_IS_INITIALIZED (t\<lparr>tab := ?a\<rparr>) h = TABLE_INDEX_IS_INITIALIZED t h"
        by (rule index_initialized_cong) simp
      have cat: "index_last (apr_table_cat t s) h = (if ?cs \<noteq> [] then Some (last ?cs + ?n) else index_last t h)"
          "index_first (apr_table_cat t s) h = (if ?cs \<noteq> [] \<and> ?ct = [] then Some (hd ?cs + ?n) else index_first t h)"
          "index_initialized (apr_table_cat t s) = or (index_initialized t) (index_initialized s)"
        using cat_steps [of 32 _ ?n s "t\<lparr>tab := ?a\<rparr>", OF _ refl] False h t s ini
        by (simp_all add: apr_table_cat_def Let_def)
      have "TABLE_INDEX_IS_INITIALIZED (apr_table_cat t s) h = (?ct \<noteq> [] \<or> ?cs \<noteq> [])"
        using t(1) s(1) by (simp add: bit_initialized cat(3) bit_simps)
      then show "TABLE_INDEX_IS_INITIALIZED (apr_table_cat t s) h = (chain (entries t @ entries s) h \<noteq> []) \<and>
        (chain (entries t @ entries s) h \<noteq> [] \<longrightarrow>
          index_first (apr_table_cat t s) h = Some (hd (chain (entries t @ entries s) h)) \<and>
          index_last (apr_table_cat t s) h = Some (last (chain (entries t @ entries s) h)))"
        unfolding chain_append n cat using t(2) s(2)
        by (auto simp: hd_append hd_map last_append last_map)
    qed
  qed
  then show ?thesis
    using arr sums by (simp add: table_ok_def tab)
qed

lemma apr_table_overlap_ok:
  assumes "table_ok a" "table_ok b" "mergeable flags (entries a @ entries b)"
  shows "\<exists>t'. apr_table_overlap a b flags = Some t' \<and> table_ok t' \<and>
    entries t' = compressed flags (entries a @ entries b)"
proof (cases "nelts (tab a) + nelts (tab b) = 0")
  case True
  then have "entries a = []" "entries b = []"
    using assms(1,2) table_okD(1) by (metis add_is_0 length_0_conv length_array_list)+
  with True assms(1) show ?thesis
    unfolding apr_table_overlap_def by (simp add: compressed_def)
next
  case False
  then show ?thesis
    using apr_table_compress_ok [of "apr_table_cat a b" flags] apr_table_cat_ok [OF assms(1,2)] assms(3)
    unfolding apr_table_overlap_def if_not_P [OF False] by simp
qed

section \<open>Properties\<close>

text \<open>
  Storing entries one by one, with the test of the flags that the code has, and the loop that the header
  documents for \<open>apr_table_overlap\<close> (\<open>apr_tables.h:448\<close>), which tests a bit of the flags.
\<close>

definition store_entries :: "32 word \<Rightarrow> apr_table \<Rightarrow> apr_table_entry list \<Rightarrow> apr_table" where
  "store_entries flags t es =
     foldl (\<lambda>t e. if flags = APR_OVERLAP_TABLES_MERGE then apr_table_mergen t (te_key e) (te_val e)
                  else apr_table_setn t (te_key e) (te_val e)) t es"

definition documented_overlap :: "apr_table \<Rightarrow> apr_table \<Rightarrow> 32 word \<Rightarrow> apr_table" where
  "documented_overlap a b flags =
     foldl (\<lambda>a belt. if and flags APR_OVERLAP_TABLES_MERGE \<noteq> 0 then apr_table_mergen a (te_key belt) (te_val belt)
                     else apr_table_setn a (te_key belt) (te_val belt)) a (entries b)"

lemma documented_store_entries:
  "(and flags APR_OVERLAP_TABLES_MERGE \<noteq> 0) = (flags = APR_OVERLAP_TABLES_MERGE) \<Longrightarrow>
   documented_overlap a b flags = store_entries flags a (entries b)"
  by (simp add: documented_overlap_def store_entries_def)

lemma store_entries_ok:
  "table_ok t \<Longrightarrow> table_ok (store_entries flags t es) \<and>
     entries (store_entries flags t es) = store_all flags (entries t) es"
  unfolding store_entries_def store_all_def
  by (induction es arbitrary: t) (simp_all add: apr_table_set_ok apr_table_merge_ok)

abbreviation entry_gt :: "apr_table_entry \<Rightarrow> apr_table_entry \<Rightarrow> bool" where
  "entry_gt x y \<equiv> strcasecmp (te_key x) (te_key y) > 0"

text \<open>
  C29. The mergesort of \<open>apr_table_compress\<close>: on the pointers to the entries it
  returns a permutation that is sorted by key without case, and entries with
  equal keys keep their table order, which the choice of the first and the last
  value of a key relies on.
\<close>

theorem table_mergesort_sorts_stably:
  "mset (table_mergesort entry_gt es) = mset es \<and>
   sorted_wrt (\<lambda>x y. \<not> entry_gt x y) (table_mergesort entry_gt es) \<and>
   filter (\<lambda>e. strcasecmp (te_key e) k = 0) (table_mergesort entry_gt es) =
     filter (\<lambda>e. strcasecmp (te_key e) k = 0) es"
proof -
  let ?r = "new_entry k None"
  have "match k e \<longleftrightarrow> key_order.same_rank ?r e" for e
    using strcasecmp_antisym [of k "te_key e"] strcasecmp_antisym [of "te_key e" k] by auto
  then have "filter (match k) (table_mergesort entry_gt es) = filter (match k) es"
    using key_order.table_mergesort_stable [of ?r es] by simp
  then show ?thesis
    using key_order.table_mergesort_in_order [of es] by (simp add: in_order_def)
qed

text \<open>
  C20. \<open>apr_table_compress\<close> is storing one by one: sorting, collapsing runs and
  closing holes leave exactly the entries that storing all entries one after
  the other into a new table with \<open>apr_table_setn\<close> (or \<open>apr_table_mergen\<close> in
  merge mode, where the values must not be NULL) would leave, in the same
  order, with an exact index.
\<close>

theorem apr_table_compress_stores:
  assumes "table_ok t" "mergeable flags (entries t)"
  shows "\<exists>t'. apr_table_compress t flags = Some t' \<and> table_ok t' \<and>
    entries t' = entries (store_entries flags (apr_table_make n) (entries t))"
  using apr_table_compress_ok [OF assms] store_all_compressed [OF table_okD(3) [OF assms(1)] assms(2)]
    store_entries_ok [of "apr_table_make n" flags "entries t"] apr_table_make_ok [of n]
  by simp

definition dup_table :: apr_table where
  "dup_table = apr_table_addn (apr_table_addn (apr_table_make 2) ''k'' (Some ''1'')) ''K'' (Some ''2'')"

definition other_table :: apr_table where
  "other_table = apr_table_addn (apr_table_make 1) ''z'' (Some ''3'')"

lemma sample_tables:
  "table_ok dup_table" "entries dup_table = [new_entry ''k'' (Some ''1''), new_entry ''K'' (Some ''2'')]"
  "table_ok other_table" "entries other_table = [new_entry ''z'' (Some ''3'')]"
  using apr_table_make_ok [of 2] apr_table_make_ok [of 1]
  by (simp_all add: dup_table_def other_table_def apr_table_add_ok)

theorem apr_table_compress_stores_witness:
  "\<exists>t'. apr_table_compress dup_table APR_OVERLAP_TABLES_MERGE = Some t' \<and> table_ok t'"
  using apr_table_compress_stores [OF sample_tables(1), of APR_OVERLAP_TABLES_MERGE 0]
  by (simp add: mergeable_def sample_tables) blast

text \<open>
  C12. \<open>apr_table_overlap\<close> is the documented loop when the keys of \<open>a\<close> are
  distinct, no value to be merged is NULL, and the bit test of the documentation agrees with the comparison of the code, as
  it does for the two documented flags and every other even number: concatenating and compressing gives the entries that calling
  \<open>apr_table_setn\<close> (\<open>apr_table_mergen\<close>) on \<open>a\<close> for each entry of \<open>b\<close> would.
\<close>

theorem apr_table_overlap_documented:
  assumes "table_ok a" "table_ok b" "unique_keys (entries a)" "mergeable flags (entries a @ entries b)"
    and "(and flags APR_OVERLAP_TABLES_MERGE \<noteq> 0) = (flags = APR_OVERLAP_TABLES_MERGE)"
  shows "\<exists>t'. apr_table_overlap a b flags = Some t' \<and> table_ok t' \<and> entries t' = entries (documented_overlap a b flags)"
proof -
  have "checksums_ok (entries a @ entries b)"
    using table_okD(3) [OF assms(1)] table_okD(3) [OF assms(2)] by (auto simp: checksums_ok_def)
  then have "compressed flags (entries a @ entries b) = store_all flags (entries a) (entries b)"
    using store_all_compressed [OF _ assms(4)] store_all_unique [OF assms(3) table_okD(3) [OF assms(1)]]
    by (simp add: store_all_append)
  then show ?thesis
    using apr_table_overlap_ok [OF assms(1,2,4)] store_entries_ok [OF assms(1), of flags "entries b"]
    by (simp add: documented_store_entries [OF assms(5)])
qed

theorem apr_table_overlap_documented_witness:
  "\<exists>t'. apr_table_overlap other_table dup_table APR_OVERLAP_TABLES_MERGE = Some t' \<and> table_ok t' \<and>
    entries t' = entries (documented_overlap other_table dup_table APR_OVERLAP_TABLES_MERGE)"
  by (rule apr_table_overlap_documented)
    (simp_all add: mergeable_def unique_keys_def sample_tables APR_OVERLAP_TABLES_MERGE_def)

text \<open>
  When \<open>a\<close> holds a key twice, \<open>apr_table_overlap\<close> is not the documented
  loop, even if \<open>b\<close> does not mention the key: the loop leaves the lookup of the
  key at the first value, the function collapses the two entries of \<open>a\<close> and the
  lookup returns the second.
\<close>

theorem apr_table_overlap_collapses_duplicates:
  "apr_table_get (documented_overlap dup_table other_table APR_OVERLAP_TABLES_SET) (Some ''k'') = Some ''1'' \<and>
   (\<exists>t'. apr_table_overlap dup_table other_table APR_OVERLAP_TABLES_SET = Some t' \<and>
      apr_table_get t' (Some ''k'') = Some ''2'')"
proof -
  note ok = sample_tables
  have low: "tolower CHR ''k'' = CHR ''k''" "tolower CHR ''K'' = CHR ''k''" "tolower CHR ''z'' = CHR ''z''"
    by code_simp+
  have flag: "APR_OVERLAP_TABLES_SET \<noteq> APR_OVERLAP_TABLES_MERGE"
    by (simp add: APR_OVERLAP_TABLES_SET_def APR_OVERLAP_TABLES_MERGE_def)
  have "(and APR_OVERLAP_TABLES_SET APR_OVERLAP_TABLES_MERGE \<noteq> 0) = (APR_OVERLAP_TABLES_SET = APR_OVERLAP_TABLES_MERGE)"
    using flag by (simp add: APR_OVERLAP_TABLES_SET_def)
  then have "apr_table_get (documented_overlap dup_table other_table APR_OVERLAP_TABLES_SET) (Some ''k'') = Some ''1''"
    using store_entries_ok [OF ok(1), of APR_OVERLAP_TABLES_SET "entries other_table"] ok(2,4) flag
    by (simp add: documented_store_entries apr_table_get_entries store_all_def ci_eq_iff low)
  moreover have "list_get ''k'' (compressed APR_OVERLAP_TABLES_SET (entries dup_table @ entries other_table)) = Some ''2''"
    using flag unfolding ok
    by (simp add: compressed_def is_first_def key_group_def group_value_def ci_eq_iff low)
  ultimately show ?thesis
    using apr_table_overlap_ok [OF ok(1,3), of APR_OVERLAP_TABLES_SET] flag
    by (auto simp: mergeable_def apr_table_get_entries)
qed

end
