(* ===== verification/Apr_Hash.thy ===== *)
theory Apr_Hash
  imports Apr_Arrays Apr_Store_Interface "HOL-Library.Multiset"
begin

text \<open>
  The hash tables of \<open>srclib/apr/tables/apr_hash.c\<close>: an array of collision chains
  whose size is a power of two, doubled when there are more entries than
  buckets; removed entries are recycled through a free list. A chain is the
  list of its entries, a pointer \<open>hep\<close> to a link is the bucket and the position
  in its chain. The hash function is a field of the table, as in the code.
  \<open>count\<close> and \<open>max\<close> are \<open>unsigned int\<close> in the code and natural numbers here:
  the model is that of tables of fewer than \<open>2\<^sup>3\<^sup>2\<close> entries.
\<close>

section \<open>Data\<close>

text \<open>
  A key is the memory it points to and its length; with the length
  \<open>APR_HASH_KEY_STRING\<close> it ends at the first NUL. The hash function returns the
  hash and the length, which it computes in the second case.
\<close>

definition APR_HASH_KEY_STRING :: int where
  "APR_HASH_KEY_STRING = -1"

type_synonym hashfunc = "cstr \<Rightarrow> int \<Rightarrow> 32 word \<times> int"

record 'v hash_entry =
  he_hash :: "32 word"
  he_key :: cstr
  he_klen :: int
  he_val :: "'v option"

text \<open>
  An iterator holds the rest of the chain it is in: \<open>next\<close> points to an entry,
  and the entries behind it are not changed by the loops below while it is held.
\<close>

record 'v hash_index =
  it_this :: "'v hash_entry option"
  it_next :: "'v hash_entry list"
  it_index :: nat

text \<open>\<open>iterator\<close> is the one that \<open>apr_hash_first(NULL, ht)\<close> uses; unwritten at first.\<close>

record 'v apr_hash =
  h_array :: "'v hash_entry list list"
  h_iterator :: "'v hash_index option"
  h_count :: nat
  h_max :: nat
  h_func :: hashfunc
  h_free :: "'v hash_entry list"

definition INITIAL_MAX :: nat where
  "INITIAL_MAX = 15"

definition alloc_array :: "nat \<Rightarrow> 'v hash_entry list list" where
  "alloc_array max_ix = replicate (max_ix + 1) []"

text \<open>The two loops of the times-33 hash, over the bytes of the key.\<close>

definition times33 :: "cstr \<Rightarrow> 32 word" where
  "times33 bytes = foldl (\<lambda>hash p. hash * 33 + of_char p) 0 bytes"

definition apr_hashfunc_default :: hashfunc where
  "apr_hashfunc_default key klen =
     (if klen = APR_HASH_KEY_STRING then
        let bytes = takeWhile (\<lambda>c. c \<noteq> NUL) key in (times33 bytes, int (length bytes))
      else (times33 (take (nat klen) key), klen))"

definition apr_hash_make :: "'v apr_hash" where
  "apr_hash_make =
     \<lparr>h_array = alloc_array INITIAL_MAX, h_iterator = None, h_count = 0, h_max = INITIAL_MAX,
      h_func = apr_hashfunc_default, h_free = []\<rparr>"

definition apr_hash_make_custom :: "hashfunc \<Rightarrow> 'v apr_hash" where
  "apr_hash_make_custom hash_func = apr_hash_make\<lparr>h_func := hash_func\<rparr>"

definition bucket :: "32 word \<Rightarrow> nat \<Rightarrow> nat" where
  "bucket hash max_ix = unat (and hash (of_nat max_ix))"

section \<open>Iteration\<close>

text \<open>The \<open>while (!hi->this)\<close> loop of \<open>apr_hash_next\<close> from a bucket on.\<close>

function next_bucket ::
    "'v apr_hash \<Rightarrow> nat \<Rightarrow> 'v hash_entry list \<times> nat" where
  "next_bucket ht index =
     (if index > h_max ht then ([], index)
      else case h_array ht ! index of
             [] \<Rightarrow> next_bucket ht (index + 1)
           | e # es \<Rightarrow> (e # es, index + 1))"
  by pat_completeness auto
termination
  by (relation "measure (\<lambda>(ht, index). Suc (h_max ht) - index)") auto

declare next_bucket.simps [simp del]

text \<open>The second component is False when the code returns NULL.\<close>

definition apr_hash_next :: "'v apr_hash \<Rightarrow> 'v hash_index \<Rightarrow> 'v hash_index \<times> bool" where
  "apr_hash_next ht hi =
     (case it_next hi of
        e # es \<Rightarrow> (hi\<lparr>it_this := Some e, it_next := es\<rparr>, True)
      | [] \<Rightarrow>
          (case next_bucket ht (it_index hi) of
             ([], index) \<Rightarrow> (hi\<lparr>it_this := None, it_index := index\<rparr>, False)
           | (e # es, index) \<Rightarrow> (hi\<lparr>it_this := Some e, it_next := es, it_index := index\<rparr>, True)))"

definition apr_hash_first :: "'v apr_hash \<Rightarrow> 'v hash_index \<times> bool" where
  "apr_hash_first ht = apr_hash_next ht \<lparr>it_this = None, it_next = [], it_index = 0\<rparr>"

definition apr_hash_this :: "'v hash_index \<Rightarrow> cstr \<times> int \<times> 'v option" where
  "apr_hash_this hi = (let e = the (it_this hi) in (he_key e, he_klen e, he_val e))"

text \<open>The entries an iterator has still ahead.\<close>

definition rest_from :: "'v apr_hash \<Rightarrow> nat \<Rightarrow> 'v hash_entry list" where
  "rest_from ht index = concat (map ((!) (h_array ht)) [index..<Suc (h_max ht)])"

definition ahead :: "'v apr_hash \<Rightarrow> 'v hash_index \<Rightarrow> 'v hash_entry list" where
  "ahead ht hi = it_next hi @ rest_from ht (it_index hi)"

lemma next_bucket_rest:
  "next_bucket ht i = (c, j) \<Longrightarrow>
     rest_from ht i = c @ rest_from ht j \<and> (c = [] \<longrightarrow> rest_from ht j = [])"
proof (induction ht i arbitrary: c j rule: next_bucket.induct)
  case (1 ht i)
  show ?case
  proof (cases "i > h_max ht")
    case True
    with 1 show ?thesis by (auto simp: next_bucket.simps [of ht i] rest_from_def)
  next
    case False
    then have "rest_from ht i = h_array ht ! i @ rest_from ht (Suc i)"
      by (simp add: rest_from_def upt_conv_Cons del: upt_Suc)
    then show ?thesis
      using 1 False by (cases "h_array ht ! i") (auto simp: next_bucket.simps [of ht i])
  qed
qed

lemma apr_hash_next_ahead:
  assumes "apr_hash_next ht hi = (hi', ok)"
  shows "if ok then \<exists>e. it_this hi' = Some e \<and> ahead ht hi = e # ahead ht hi'
    else it_this hi' = None \<and> ahead ht hi = []"
proof (cases "it_next hi")
  case Nil
  obtain c j where nb: "next_bucket ht (it_index hi) = (c, j)" by fastforce
  with Nil assms next_bucket_rest [OF nb] show ?thesis
    by (cases c) (auto simp: apr_hash_next_def ahead_def)
next
  case (Cons e es)
  with assms show ?thesis by (auto simp: apr_hash_next_def ahead_def)
qed

lemma apr_hash_next_shorter:
  "apr_hash_next ht hi = (hi', True) \<Longrightarrow> length (ahead ht hi') < length (ahead ht hi)"
  using apr_hash_next_ahead [of ht hi hi' True] by auto

text \<open>
  \<open>for (hi = ...; hi; hi = apr_hash_next(hi)) body\<close> over a table that the body
  does not change: the state \<open>s\<close> and the iterator at the end.
\<close>

function hash_for ::
    "'v apr_hash \<Rightarrow> ('v hash_entry \<Rightarrow> 's \<Rightarrow> 's) \<Rightarrow> 'v hash_index \<times> bool \<Rightarrow> 's \<Rightarrow> 's \<times> 'v hash_index" where
  "hash_for ht body (hi, found) s =
     (if found then hash_for ht body (apr_hash_next ht hi) (body (the (it_this hi)) s) else (s, hi))"
  by pat_completeness auto
termination
  by (relation "measure (\<lambda>(ht, body, (hi, found), s). if found then Suc (length (ahead ht hi)) else 0)")
    (auto intro: apr_hash_next_shorter split: prod.splits)

declare hash_for.simps [simp del]

lemma hash_for_fold:
  "fst (hash_for ht body (hi, found) s) =
     (if found then fold body (the (it_this hi) # ahead ht hi) s else s)"
proof (induction ht body "(hi, found)" s arbitrary: hi found rule: hash_for.induct)
  case (1 ht body hi found s)
  obtain hi' found' where next_eq: "apr_hash_next ht hi = (hi', found')" by fastforce
  have "fst (hash_for ht body (hi', found') (body (the (it_this hi)) s)) =
      (if found' then fold body (the (it_this hi') # ahead ht hi') (body (the (it_this hi)) s)
       else body (the (it_this hi)) s)" if found
    using "1.hyps" [OF that, of hi' found'] next_eq by simp
  then show ?case
    using apr_hash_next_ahead [OF next_eq] next_eq
    by (auto simp: hash_for.simps [of ht body hi] split: if_splits)
qed

lemma hash_for_first:
  "fst (hash_for ht body (apr_hash_first ht) s) = fold body (rest_from ht 0) s"
proof -
  obtain hi found where first: "apr_hash_first ht = (hi, found)" by fastforce
  then have "if found then \<exists>e. it_this hi = Some e \<and> rest_from ht 0 = e # ahead ht hi
      else rest_from ht 0 = []"
    using apr_hash_next_ahead [of ht "\<lparr>it_this = None, it_next = [], it_index = 0\<rparr>" hi found]
    by (auto simp: apr_hash_first_def ahead_def split: if_splits)
  then show ?thesis
    using hash_for_fold [of ht body hi found s] first by (auto split: if_splits)
qed

section \<open>The operations\<close>

text \<open>
  Moving an entry to the front of its chain in the new array, the body of the
  loop of \<open>expand_array\<close>; its iterator is the one inside the table.
\<close>

definition push_entry :: "nat \<Rightarrow> 'v hash_entry \<Rightarrow> 'v hash_entry list list \<Rightarrow> 'v hash_entry list list" where
  "push_entry new_max e new_array =
     (let i = bucket (he_hash e) new_max in new_array[i := e # new_array ! i])"

definition expand_array :: "'v apr_hash \<Rightarrow> 'v apr_hash" where
  "expand_array ht =
     (let new_max = h_max ht * 2 + 1;
          new_array = alloc_array new_max;
          (new_array, hi) = hash_for ht (push_entry new_max) (apr_hash_first ht) new_array
      in ht\<lparr>h_array := new_array, h_max := new_max, h_iterator := Some hi\<rparr>)"

definition entry_match :: "32 word \<Rightarrow> int \<Rightarrow> cstr \<Rightarrow> 'v hash_entry \<Rightarrow> bool" where
  "entry_match hash klen key he \<longleftrightarrow>
     he_hash he = hash \<and> he_klen he = klen \<and> take (nat klen) (he_key he) = take (nat klen) key"

text \<open>Position of the first entry of a chain that satisfies a test, or of its end.\<close>

fun chain_pos :: "('e \<Rightarrow> bool) \<Rightarrow> 'e list \<Rightarrow> nat" where
  "chain_pos p [] = 0"
| "chain_pos p (he # hes) = (if p he then 0 else Suc (chain_pos p hes))"

text \<open>
  The link that \<open>find_entry\<close> returns is a bucket and a position in its chain,
  the position behind the last entry standing for a link that holds NULL.
\<close>

definition find_entry ::
    "'v apr_hash \<Rightarrow> cstr \<Rightarrow> int \<Rightarrow> 'v option \<Rightarrow> 'v apr_hash \<times> nat \<times> nat" where
  "find_entry ht key klen val =
     (let (hash, klen) = h_func ht key klen;
          i = bucket hash (h_max ht);
          hes = h_array ht ! i;
          pos = chain_pos (entry_match hash klen key) hes
      in if pos < length hes \<or> val = None then (ht, i, pos)
         else
           let he = \<lparr>he_hash = hash, he_key = key, he_klen = klen, he_val = val\<rparr>
           in (ht\<lparr>h_free := (case h_free ht of [] \<Rightarrow> [] | _ # rest \<Rightarrow> rest),
                  h_array := (h_array ht)[i := hes @ [he]],
                  h_count := h_count ht + 1\<rparr>, i, pos))"

definition apr_hash_get :: "'v apr_hash \<Rightarrow> cstr \<Rightarrow> int \<Rightarrow> 'v option" where
  "apr_hash_get ht key klen =
     (let (ht, i, pos) = find_entry ht key klen None
      in if pos < length (h_array ht ! i) then he_val (h_array ht ! i ! pos) else None)"

definition apr_hash_set :: "'v apr_hash \<Rightarrow> cstr \<Rightarrow> int \<Rightarrow> 'v option \<Rightarrow> 'v apr_hash" where
  "apr_hash_set ht key klen val =
     (let (ht, i, pos) = find_entry ht key klen val;
          hes = h_array ht ! i
      in if pos < length hes then
           (case val of
              None \<Rightarrow>
                ht\<lparr>h_array := (h_array ht)[i := take pos hes @ drop (Suc pos) hes],
                   h_free := hes ! pos # h_free ht,
                   h_count := h_count ht - 1\<rparr>
            | Some v \<Rightarrow>
                let ht = ht\<lparr>h_array := (h_array ht)[i := hes[pos := (hes ! pos)\<lparr>he_val := Some v\<rparr>]]\<rparr>
                in if h_count ht > h_max ht then expand_array ht else ht)
         else ht)"

definition apr_hash_count :: "'v apr_hash \<Rightarrow> nat" where
  "apr_hash_count ht = h_count ht"

text \<open>
  \<open>apr_hash_copy\<close>: the chains are copied entry by entry into the block
  \<open>new_vals\<close>; \<open>j\<close> counts the entries used of it.
\<close>

fun copy_chain :: "'v hash_entry list \<Rightarrow> nat \<Rightarrow> 'v hash_entry list \<times> nat" where
  "copy_chain [] j = ([], j)"
| "copy_chain (orig_entry # rest) j =
     (let new_entry = \<lparr>he_hash = he_hash orig_entry, he_key = he_key orig_entry,
                       he_klen = he_klen orig_entry, he_val = he_val orig_entry\<rparr>;
          (chain, j) = copy_chain rest (j + 1)
      in (new_entry # chain, j))"

fun copy_chains :: "'v hash_entry list list \<Rightarrow> nat \<Rightarrow> 'v hash_entry list list \<times> nat" where
  "copy_chains [] j = ([], j)"
| "copy_chains (hes # rest) j =
     (let (chain, j) = copy_chain hes j; (chains, j) = copy_chains rest j in (chain # chains, j))"

definition apr_hash_copy :: "'v apr_hash \<Rightarrow> 'v apr_hash \<times> nat" where
  "apr_hash_copy orig =
     (let (array, j) = copy_chains (take (Suc (h_max orig)) (h_array orig)) 0
      in (\<lparr>h_array = array, h_iterator = None, h_count = h_count orig, h_max = h_max orig,
          h_func = h_func orig, h_free = []\<rparr>, j))"

text \<open>
  \<open>apr_hash_merge\<close>: the base entries are pushed first, then every overlay entry
  either updates the entry with its key or is pushed. \<open>merger\<close> is NULL in
  \<open>apr_hash_overlay\<close>; \<open>j\<close> is the number of entries of \<open>new_vals\<close> in use.
\<close>

type_synonym 'v merger = "cstr \<Rightarrow> int \<Rightarrow> 'v option \<Rightarrow> 'v option \<Rightarrow> 'v option"

definition merge_step ::
    "'v merger option \<Rightarrow> nat \<Rightarrow> 'v hash_entry \<Rightarrow> 'v hash_entry list list \<times> nat \<times> nat \<Rightarrow>
     'v hash_entry list list \<times> nat \<times> nat" where
  "merge_step merger res_max iter st =
     (let (arr, cnt, j) = st;
          i = bucket (he_hash iter) res_max;
          hes = arr ! i;
          pos = chain_pos (\<lambda>ent. he_klen ent = he_klen iter \<and>
                  take (nat (he_klen iter)) (he_key ent) = take (nat (he_klen iter)) (he_key iter)) hes
      in if pos < length hes then
           let ent = hes ! pos;
               v = (case merger of
                      Some m \<Rightarrow> m (he_key iter) (he_klen iter) (he_val iter) (he_val ent)
                    | None \<Rightarrow> he_val iter)
           in (arr[i := hes[pos := ent\<lparr>he_val := v\<rparr>]], cnt, j)
         else (push_entry res_max iter arr, cnt + 1, j + 1))"

definition merge_max :: "'v apr_hash \<Rightarrow> 'v apr_hash \<Rightarrow> nat" where
  "merge_max overlay base =
     (let m = (if h_max overlay > h_max base then h_max overlay else h_max base)
      in if h_count base + h_count overlay > m then m * 2 + 1 else m)"

definition apr_hash_merge ::
    "'v apr_hash \<Rightarrow> 'v apr_hash \<Rightarrow> 'v merger option \<Rightarrow> 'v apr_hash \<times> nat" where
  "apr_hash_merge overlay base merger =
     (let res_max = merge_max overlay base;
          arr = fold (push_entry res_max) (rest_from base 0) (alloc_array res_max);
          j = length (rest_from base 0);
          (arr, cnt, j) = fold (merge_step merger res_max) (rest_from overlay 0) (arr, h_count base, j)
      in (\<lparr>h_array = arr, h_iterator = None, h_count = cnt, h_max = res_max,
          h_func = h_func base, h_free = []\<rparr>, j))"

definition apr_hash_overlay :: "'v apr_hash \<Rightarrow> 'v apr_hash \<Rightarrow> 'v apr_hash \<times> nat" where
  "apr_hash_overlay overlay base = apr_hash_merge overlay base None"

text \<open>\<open>apr_hash_do\<close>: the callback returns the new record and whether to go on.\<close>

type_synonym ('v, 'r) hash_callback = "'r \<Rightarrow> cstr \<Rightarrow> int \<Rightarrow> 'v option \<Rightarrow> 'r \<times> bool"

function do_loop ::
    "'v apr_hash \<Rightarrow> ('v, 'r) hash_callback \<Rightarrow> 'v hash_index \<times> bool \<Rightarrow> 'r \<Rightarrow> 'r \<times> bool" where
  "do_loop ht cb (hi, found) rec =
     (if found then
        let (key, klen, val) = apr_hash_this hi; (rec, rv) = cb rec key klen val
        in if rv then do_loop ht cb (apr_hash_next ht hi) rec else (rec, False)
      else (rec, True))"
  by pat_completeness auto
termination
  by (relation "measure (\<lambda>(ht, cb, (hi, found), rec). if found then Suc (length (ahead ht hi)) else 0)")
    (auto intro: apr_hash_next_shorter split: prod.splits)

declare do_loop.simps [simp del]

definition apr_hash_do :: "('v, 'r) hash_callback \<Rightarrow> 'r \<Rightarrow> 'v apr_hash \<Rightarrow> 'r \<times> bool" where
  "apr_hash_do cb rec ht = do_loop ht cb (apr_hash_first ht) rec"

text \<open>
  \<open>apr_hash_clear\<close> deletes the current entry and goes on, the one change of a
  table that its iteration allows. Deleting never makes what lies ahead longer,
  so the loop ends on every table.
\<close>

lemma length_update_le: "length c \<le> length (xs ! j) \<Longrightarrow> length (xs[j := c] ! i) \<le> length (xs ! i)"
  by (cases "j < length xs"; cases "i = j") (simp_all add: list_update_beyond)

lemma delete_lengths:
  "h_max (apr_hash_set ht key klen None) = h_max ht \<and>
   length (h_array (apr_hash_set ht key klen None) ! i) \<le> length (h_array ht ! i)"
  by (auto simp: apr_hash_set_def find_entry_def Let_def intro: length_update_le split: prod.splits)

lemma delete_rest:
  "length (rest_from (apr_hash_set ht key klen None) i) \<le> length (rest_from ht i)"
  unfolding rest_from_def delete_lengths [THEN conjunct1] length_concat map_map
  by (rule sum_list_mono) (simp add: delete_lengths)

lemma delete_ahead:
  "length (ahead (apr_hash_set ht key klen None) hi) \<le> length (ahead ht hi)"
  by (simp add: ahead_def delete_rest)

function clear_loop :: "'v apr_hash \<Rightarrow> 'v hash_index \<times> bool \<Rightarrow> 'v apr_hash \<times> 'v hash_index" where
  "clear_loop ht (hi, found) =
     (if found then
        let (key, klen, val) = apr_hash_this hi; ht = apr_hash_set ht key klen None
        in clear_loop ht (apr_hash_next ht hi)
      else (ht, hi))"
  by pat_completeness auto
termination
  by (relation "measure (\<lambda>(ht, (hi, found)). if found then Suc (length (ahead ht hi)) else 0)")
    (auto intro: apr_hash_next_shorter order_less_le_trans [OF _ delete_ahead] split: prod.splits)

declare clear_loop.simps [simp del]

definition apr_hash_clear :: "'v apr_hash \<Rightarrow> 'v apr_hash" where
  "apr_hash_clear ht = (let (ht, hi) = clear_loop ht (apr_hash_first ht) in ht\<lparr>h_iterator := Some hi\<rparr>)"

section \<open>The invariant\<close>

text \<open>
  What the documentation asks of a hash function, and what keys a caller may
  pass: the bytes a key stands for decide the hash, and the length comes back.
\<close>

definition key_bytes :: "cstr \<Rightarrow> int \<Rightarrow> cstr" where
  "key_bytes key klen =
     (if klen = APR_HASH_KEY_STRING then takeWhile (\<lambda>c. c \<noteq> NUL) key else take (nat klen) key)"

definition key_ok :: "cstr \<Rightarrow> int \<Rightarrow> bool" where
  "key_ok key klen \<longleftrightarrow> klen = APR_HASH_KEY_STRING \<or> 0 \<le> klen \<and> nat klen \<le> length key"

definition hashes_bytes :: "hashfunc \<Rightarrow> (cstr \<Rightarrow> 32 word) \<Rightarrow> bool" where
  "hashes_bytes hf g \<longleftrightarrow> (\<forall>key klen. key_ok key klen \<longrightarrow>
     hf key klen = (g (key_bytes key klen), int (length (key_bytes key klen))))"

lemma hashes_bytes_default: "hashes_bytes apr_hashfunc_default times33"
  by (auto simp: hashes_bytes_def apr_hashfunc_default_def key_ok_def key_bytes_def Let_def)

abbreviation ekey :: "'v hash_entry \<Rightarrow> cstr" where
  "ekey e \<equiv> take (nat (he_klen e)) (he_key e)"

definition entry_ok :: "(cstr \<Rightarrow> 32 word) \<Rightarrow> 'v hash_entry \<Rightarrow> bool" where
  "entry_ok g e \<longleftrightarrow> 0 \<le> he_klen e \<and> nat (he_klen e) \<le> length (he_key e) \<and> he_hash e = g (ekey e)"

lemma entry_ok_val [simp]: "entry_ok g (e\<lparr>he_val := v\<rparr>) = entry_ok g e"
  by (simp add: entry_ok_def)

lemma alloc_array_simps [simp]:
  "i < Suc m \<Longrightarrow> alloc_array m ! i = []"
  "length (alloc_array m) = Suc m"
  "concat (alloc_array m) = []"
  by (simp_all add: alloc_array_def del: replicate_Suc)

text \<open>The array: every entry in the bucket of its hash, no key twice.\<close>

definition array_inv :: "(cstr \<Rightarrow> 32 word) \<Rightarrow> nat \<Rightarrow> 'v hash_entry list list \<Rightarrow> bool" where
  "array_inv g m arr \<longleftrightarrow> length arr = Suc m \<and>
     (\<forall>i < Suc m. distinct (map ekey (arr ! i)) \<and>
        (\<forall>e \<in> set (arr ! i). entry_ok g e \<and> bucket (he_hash e) m = i))"

definition hash_inv :: "(cstr \<Rightarrow> 32 word) \<Rightarrow> 'v apr_hash \<Rightarrow> bool" where
  "hash_inv g ht \<longleftrightarrow> hashes_bytes (h_func ht) g \<and> array_inv g (h_max ht) (h_array ht) \<and>
     h_count ht = length (concat (h_array ht)) \<and> (\<exists>k. Suc (h_max ht) = 2 ^ k)"

lemma bucket_less: "bucket w m < Suc m"
proof -
  have "unat (and w (of_nat m)) \<le> unat (of_nat m :: 32 word)"
    using word_and_le1 by (simp add: word_le_nat_alt)
  also have "\<dots> \<le> m" by (simp add: unat_of_nat)
  finally show ?thesis by (simp add: bucket_def)
qed

text \<open>The first entry of a chain with given bytes.\<close>

definition chain_find :: "cstr \<Rightarrow> 'v hash_entry list \<Rightarrow> 'v hash_entry option" where
  "chain_find b hes = find (\<lambda>e. ekey e = b) hes"

definition hash_find :: "(cstr \<Rightarrow> 32 word) \<Rightarrow> 'v apr_hash \<Rightarrow> cstr \<Rightarrow> 'v hash_entry option" where
  "hash_find g ht b = chain_find b (h_array ht ! bucket (g b) (h_max ht))"

lemma chain_pos_find:
  "chain_pos p hes < length hes \<longleftrightarrow> find p hes \<noteq> None"
  "find p hes = Some e \<Longrightarrow> chain_pos p hes < length hes \<and> hes ! chain_pos p hes = e"
  by (induction hes) auto

lemma chain_pos_cong: "(\<And>x. x \<in> set hes \<Longrightarrow> p x = q x) \<Longrightarrow> chain_pos p hes = chain_pos q hes"
  by (induction hes) auto

lemma chain_find_Some_iff:
  "distinct (map ekey hes) \<Longrightarrow> chain_find b hes = Some e \<longleftrightarrow> e \<in> set hes \<and> ekey e = b"
  unfolding chain_find_def
  by (induction hes) (auto simp: image_iff dest: arg_cong [where f = ekey])

lemma chain_find_cong:
  assumes "distinct (map ekey hes)" "distinct (map ekey hes')"
    and "\<And>e. ekey e = b \<Longrightarrow> e \<in> set hes \<longleftrightarrow> e \<in> set hes'"
  shows "chain_find b hes = chain_find b hes'"
proof (cases "chain_find b hes")
  case None
  then have "e \<notin> set hes" if "ekey e = b" for e
    using that by (auto simp: chain_find_def find_None_iff)
  then have "chain_find b hes' = None"
    using assms(3) by (auto simp: chain_find_def find_None_iff)
  with None show ?thesis by simp
next
  case (Some e)
  then have "e \<in> set hes" "ekey e = b"
    using chain_find_Some_iff [OF assms(1)] by blast+
  then have "chain_find b hes' = Some e"
    using assms(3) chain_find_Some_iff [OF assms(2)] by blast
  with Some show ?thesis by simp
qed

lemma in_concat_iff: "e \<in> set (concat xs) \<longleftrightarrow> (\<exists>i < length xs. e \<in> set (xs ! i))"
  unfolding set_concat UN_iff by (metis in_set_conv_nth)

lemma hash_invD:
  assumes "hash_inv g ht"
  shows "hashes_bytes (h_func ht) g" "array_inv g (h_max ht) (h_array ht)"
    "h_count ht = length (concat (h_array ht))" "length (h_array ht) = Suc (h_max ht)"
  using assms by (simp_all add: hash_inv_def array_inv_def)

lemma array_invD:
  assumes "array_inv g m arr" "i < Suc m"
  shows "distinct (map ekey (arr ! i))" "e \<in> set (arr ! i) \<Longrightarrow> entry_ok g e"
    "e \<in> set (arr ! i) \<Longrightarrow> bucket (he_hash e) m = i" "e \<in> set (arr ! i) \<Longrightarrow> bucket (g (ekey e)) m = i"
proof -
  show "distinct (map ekey (arr ! i))" using assms by (simp add: array_inv_def)
  assume "e \<in> set (arr ! i)"
  then show ok: "entry_ok g e" and "bucket (he_hash e) m = i"
    using assms by (auto simp: array_inv_def)
  then show "bucket (g (ekey e)) m = i" by (simp add: entry_ok_def)
qed

lemma rest_from_all: "length (h_array ht) = Suc (h_max ht) \<Longrightarrow> rest_from ht 0 = concat (h_array ht)"
  unfolding rest_from_def by (metis map_nth)

lemma array_inv_distinct:
  assumes "array_inv g m arr"
  shows "distinct (map ekey (concat arr))"
proof -
  have len: "length arr = Suc m" using assms by (simp add: array_inv_def)
  have "distinct (map ekey (concat (take n arr)))" if "n \<le> Suc m" for n
    using that
  proof (induction n)
    case (Suc n)
    have "take (Suc n) arr = take n arr @ [arr ! n]"
      using Suc.prems len by (simp add: take_Suc_conv_app_nth)
    moreover have "ekey x \<noteq> ekey y" if "x \<in> set (concat (take n arr))" "y \<in> set (arr ! n)" for x y
    proof -
      from that(1) obtain i where i: "i < n" "x \<in> set (arr ! i)"
        using Suc.prems len unfolding in_concat_iff by auto
      then have "bucket (g (ekey x)) m = i" "bucket (g (ekey y)) m = n"
        using array_invD(4) [OF assms] that(2) Suc.prems by auto
      with i(1) show ?thesis by auto
    qed
    ultimately show ?case
      using Suc array_invD(1) [OF assms, of n] by fastforce
  qed simp
  from this [of "Suc m"] len show ?thesis by simp
qed

lemma array_inv_entry:
  "array_inv g m arr \<Longrightarrow> e \<in> set (concat arr) \<Longrightarrow> entry_ok g e"
  unfolding in_concat_iff array_inv_def by auto

lemma array_inv_in_bucket:
  assumes "array_inv g m arr"
  shows "e \<in> set (concat arr) \<longleftrightarrow> e \<in> set (arr ! bucket (g (ekey e)) m)"
proof
  assume "e \<in> set (concat arr)"
  then obtain i where "i < Suc m" "e \<in> set (arr ! i)"
    using assms unfolding in_concat_iff array_inv_def by auto
  then show "e \<in> set (arr ! bucket (g (ekey e)) m)"
    using array_invD(4) [OF assms] by simp
next
  assume "e \<in> set (arr ! bucket (g (ekey e)) m)"
  then show "e \<in> set (concat arr)"
    using bucket_less [of "g (ekey e)" m] assms unfolding in_concat_iff array_inv_def by auto
qed

lemma array_inv_update:
  assumes "array_inv g m arr" "distinct (map ekey c)"
    and "\<And>e. e \<in> set c \<Longrightarrow> entry_ok g e \<and> bucket (he_hash e) m = i"
  shows "array_inv g m (arr[i := c])"
proof -
  have "distinct (map ekey (arr[i := c] ! j)) \<and>
      (\<forall>e \<in> set (arr[i := c] ! j). entry_ok g e \<and> bucket (he_hash e) m = j)" if "j < Suc m" for j
    using that assms by (cases "j = i") (auto simp: array_inv_def)
  then show ?thesis using assms(1) by (simp add: array_inv_def)
qed

lemma length_concat_update:
  "i < length arr \<Longrightarrow> length (concat (arr[i := c])) + length (arr ! i) = length (concat arr) + length c"
proof (induction arr arbitrary: i)
  case (Cons x arr)
  then show ?case by (cases i) auto
qed simp

section \<open>Finding an entry\<close>

lemma entry_match_iff:
  assumes "key_ok key klen" "entry_ok g e" "b = key_bytes key klen"
  shows "entry_match (g b) (int (length b)) key e \<longleftrightarrow> ekey e = b"
proof -
  have b: "take (length b) key = b"
    using assms(1,3) by (auto simp: key_ok_def key_bytes_def takeWhile_eq_take [symmetric] min_def)
  have e: "0 \<le> he_klen e" "length (ekey e) = nat (he_klen e)" "he_hash e = g (ekey e)"
    using assms(2) by (auto simp: entry_ok_def)
  show ?thesis
  proof
    assume "entry_match (g b) (int (length b)) key e"
    then show "ekey e = b" by (simp add: entry_match_def b)
  next
    assume eq: "ekey e = b"
    then have "he_klen e = int (length b)" using e by simp
    with e eq show "entry_match (g b) (int (length b)) key e" by (simp add: entry_match_def b)
  qed
qed

lemma find_entry_pos:
  assumes inv: "hash_inv g ht" and key: "key_ok key klen"
  defines "b \<equiv> key_bytes key klen"
  defines "i \<equiv> bucket (g b) (h_max ht)"
  defines "pos \<equiv> chain_pos (\<lambda>e. ekey e = b) (h_array ht ! i)"
  shows "find_entry ht key klen val =
    (if pos < length (h_array ht ! i) \<or> val = None then (ht, i, pos)
     else (ht\<lparr>h_free := (case h_free ht of [] \<Rightarrow> [] | _ # rest \<Rightarrow> rest),
              h_array := (h_array ht)[i := h_array ht ! i @
                [\<lparr>he_hash = g b, he_key = key, he_klen = int (length b), he_val = val\<rparr>]],
              h_count := h_count ht + 1\<rparr>, i, pos))"
proof -
  have hf: "h_func ht key klen = (g b, int (length b))"
    using hash_invD(1) [OF inv] key by (simp add: hashes_bytes_def b_def)
  have m: "entry_match (g b) (int (length b)) key e \<longleftrightarrow> ekey e = b" if "e \<in> set (h_array ht ! i)" for e
    by (rule entry_match_iff [OF key array_invD(2) [OF hash_invD(2) [OF inv] bucket_less that [unfolded i_def]]])
      (simp add: b_def)
  have "chain_pos (entry_match (g b) (int (length b)) key) (h_array ht ! i) = pos"
    unfolding pos_def by (rule chain_pos_cong) (rule m)
  then show ?thesis
    by (simp add: find_entry_def hf Let_def i_def)
qed

lemma apr_hash_get_find:
  assumes "hash_inv g ht" "key_ok key klen"
  shows "apr_hash_get ht key klen =
    (case hash_find g ht (key_bytes key klen) of None \<Rightarrow> None | Some e \<Rightarrow> he_val e)"
  unfolding apr_hash_get_def find_entry_pos [OF assms]
  using chain_pos_find [of "\<lambda>e. ekey e = key_bytes key klen"
      "h_array ht ! bucket (g (key_bytes key klen)) (h_max ht)"]
  by (auto simp: hash_find_def chain_find_def split: option.splits)

section \<open>Expanding\<close>

lemma fold_push_entry:
  "length (fold (push_entry m) es arr) = length arr \<and>
   (length arr = Suc m \<longrightarrow> i < Suc m \<longrightarrow>
      fold (push_entry m) es arr ! i = rev (filter (\<lambda>e. bucket (he_hash e) m = i) es) @ arr ! i)"
  by (induction es arbitrary: arr) (auto simp: push_entry_def Let_def nth_list_update bucket_less)

lemma length_concat_push:
  "length arr = Suc m \<Longrightarrow> length (concat (fold (push_entry m) es arr)) = length es + length (concat arr)"
proof (induction es arbitrary: arr)
  case (Cons e es)
  let ?i = "bucket (he_hash e) m"
  have "length (concat (arr[?i := e # arr ! ?i])) = Suc (length (concat arr))"
    using length_concat_update [of ?i arr "e # arr ! ?i"] Cons.prems bucket_less [of "he_hash e" m] by simp
  with Cons.IH [of "arr[?i := e # arr ! ?i]"] Cons.prems show ?case
    by (simp add: push_entry_def Let_def)
qed simp

text \<open>An array rebuilt from the entries of another one holds the same entries.\<close>

lemma rebuilt_array:
  assumes "distinct (map ekey es)" "\<And>e. e \<in> set es \<Longrightarrow> entry_ok g e"
    and arr_def: "arr = fold (push_entry m) es (alloc_array m)"
  shows "array_inv g m arr \<and> length (concat arr) = length es \<and>
    (\<forall>b. chain_find b (arr ! bucket (g b) m) = chain_find b es)"
proof -
  have nth: "arr ! i = rev (filter (\<lambda>e. bucket (he_hash e) m = i) es)" if "i < Suc m" for i
    using fold_push_entry [of m es "alloc_array m" i] that
    by (simp add: arr_def)
  have len: "length arr = Suc m"
    using fold_push_entry [of m es "alloc_array m" 0] by (simp add: arr_def)
  have dist: "distinct (map ekey (arr ! i))" if "i < Suc m" for i
    using assms(1) nth [OF that] by (simp add: rev_map [symmetric] distinct_map_filter)
  have "array_inv g m arr"
    using len dist nth assms(2) by (simp add: array_inv_def)
  moreover have "length (concat arr) = length es"
    using length_concat_push [of "alloc_array m" m es] by (simp add: arr_def)
  moreover have "chain_find b (arr ! bucket (g b) m) = chain_find b es" for b
  proof (rule chain_find_cong [OF dist assms(1)])
    fix e :: "'a hash_entry" assume e: "ekey e = b"
    have "e \<in> set es \<Longrightarrow> bucket (he_hash e) m = bucket (g b) m"
      using assms(2) [of e] e by (simp add: entry_ok_def)
    then show "e \<in> set (arr ! bucket (g b) m) \<longleftrightarrow> e \<in> set es"
      using nth [OF bucket_less] by auto
  qed (rule bucket_less)
  ultimately show ?thesis by blast
qed

lemma chain_find_concat:
  assumes "array_inv g m arr"
  shows "chain_find b (concat arr) = chain_find b (arr ! bucket (g b) m)"
proof (rule chain_find_cong [OF array_inv_distinct [OF assms] array_invD(1) [OF assms bucket_less]])
  fix e :: "'a hash_entry" assume "ekey e = b"
  then show "e \<in> set (concat arr) \<longleftrightarrow> e \<in> set (arr ! bucket (g b) m)"
    using array_inv_in_bucket [OF assms, of e] by simp
qed

lemma expand_array_ok:
  assumes inv: "hash_inv g ht"
  shows "hash_inv g (expand_array ht) \<and> hash_find g (expand_array ht) = hash_find g ht \<and>
    h_max (expand_array ht) = 2 * h_max ht + 1 \<and> h_count (expand_array ht) = h_count ht"
proof -
  let ?m = "h_max ht * 2 + 1" and ?es = "concat (h_array ht)"
  note arr = hash_invD(2) [OF inv]
  obtain new hi where loop: "hash_for ht (push_entry ?m) (apr_hash_first ht) (alloc_array ?m) = (new, hi)"
    by fastforce
  then have new: "new = fold (push_entry ?m) ?es (alloc_array ?m)"
    using hash_for_first [of ht "push_entry ?m" "alloc_array ?m"] rest_from_all [OF hash_invD(4) [OF inv]]
    by simp
  have expand: "expand_array ht = ht\<lparr>h_array := new, h_max := ?m, h_iterator := Some hi\<rparr>"
    using loop by (simp add: expand_array_def Let_def)
  note rebuilt = rebuilt_array [OF array_inv_distinct [OF arr] array_inv_entry [OF arr] new]
  obtain k where "Suc (h_max ht) = 2 ^ k" using inv by (auto simp: hash_inv_def)
  then have "Suc ?m = 2 ^ Suc k" by simp
  then show ?thesis
    using rebuilt hash_invD [OF inv] chain_find_concat [OF arr]
    by (auto simp: expand hash_inv_def hash_find_def fun_eq_iff simp del: power_Suc)
qed

section \<open>Setting and deleting\<close>

text \<open>The value a table holds for some bytes: absent, or present and possibly NULL.\<close>

definition hash_val :: "(cstr \<Rightarrow> 32 word) \<Rightarrow> 'v apr_hash \<Rightarrow> cstr \<Rightarrow> 'v option option" where
  "hash_val g ht b = map_option he_val (hash_find g ht b)"

lemma apr_hash_get_val:
  "hash_inv g ht \<Longrightarrow> key_ok key klen \<Longrightarrow>
     apr_hash_get ht key klen = (case hash_val g ht (key_bytes key klen) of None \<Rightarrow> None | Some v \<Rightarrow> v)"
  by (simp add: apr_hash_get_find hash_val_def split: option.splits)

lemma bucket_update:
  assumes inv: "hash_inv g ht" and i: "i = bucket (g b) (h_max ht)"
    and c: "distinct (map ekey c)" "\<And>e. e \<in> set c \<Longrightarrow> entry_ok g e \<and> bucket (he_hash e) (h_max ht) = i"
    and n: "n + length (h_array ht ! i) = h_count ht + length c"
    and ht': "ht' = ht\<lparr>h_array := (h_array ht)[i := c], h_count := n, h_free := f\<rparr>"
  shows "hash_inv g ht' \<and>
    hash_find g ht' b' = (if bucket (g b') (h_max ht) = i then chain_find b' c else hash_find g ht b')"
proof -
  have "i < length (h_array ht)"
    using bucket_less hash_invD(4) [OF inv] i by simp
  then show ?thesis
    using length_concat_update [of i "h_array ht" c] array_inv_update [OF hash_invD(2) [OF inv] c] n
      hash_invD(3) [OF inv] inv
    by (simp add: ht' hash_inv_def hash_find_def nth_list_update)
qed

lemma chain_split:
  assumes "chain_pos p hes < length hes"
  shows "hes = take (chain_pos p hes) hes @ hes ! chain_pos p hes # drop (Suc (chain_pos p hes)) hes"
    "p (hes ! chain_pos p hes)"
  using assms id_take_nth_drop [OF assms] by (simp_all, induction hes) auto

lemma chain_find_append:
  "chain_find b (us @ vs) = (case chain_find b us of None \<Rightarrow> chain_find b vs | Some e \<Rightarrow> Some e)"
  by (induction us) (simp_all add: chain_find_def)

lemma chain_find_Cons:
  "chain_find b (e # es) = (if ekey e = b then Some e else chain_find b es)"
  by (simp add: chain_find_def)

lemma chain_find_None_iff: "chain_find b hes = None \<longleftrightarrow> b \<notin> ekey ` set hes"
  by (auto simp: chain_find_def find_None_iff)

lemma chain_find_absent: "b \<notin> ekey ` set hes \<Longrightarrow> chain_find b hes = None"
  by (simp add: chain_find_None_iff)

lemma chain_delete:
  assumes "distinct (map ekey (us @ e # vs))"
  shows "distinct (map ekey (us @ vs))"
    "chain_find b (us @ vs) = (if b = ekey e then None else chain_find b (us @ e # vs))"
proof -
  show "distinct (map ekey (us @ vs))" using assms by auto
  have "chain_find (ekey e) (us @ vs) = None"
    by (rule chain_find_absent) (use assms in auto)
  then show "chain_find b (us @ vs) = (if b = ekey e then None else chain_find b (us @ e # vs))"
    by (auto simp: chain_find_append chain_find_Cons split: option.split)
qed

lemma chain_replace:
  assumes "distinct (map ekey (us @ e # vs))"
  shows "distinct (map ekey (us @ e\<lparr>he_val := v\<rparr> # vs))"
    "map_option he_val (chain_find b (us @ e\<lparr>he_val := v\<rparr> # vs)) =
      (if b = ekey e then Some v else map_option he_val (chain_find b (us @ e # vs)))"
proof -
  show "distinct (map ekey (us @ e\<lparr>he_val := v\<rparr> # vs))" using assms by auto
  have "chain_find (ekey e) us = None"
    by (rule chain_find_absent) (use assms in auto)
  then show "map_option he_val (chain_find b (us @ e\<lparr>he_val := v\<rparr> # vs)) =
      (if b = ekey e then Some v else map_option he_val (chain_find b (us @ e # vs)))"
    by (auto simp: chain_find_append chain_find_Cons split: option.split)
qed

lemma hash_chain_snoc:
  assumes "distinct (map ekey hes)" "chain_find (ekey e) hes = None"
  shows "distinct (map ekey (hes @ [e]))"
    "chain_find b (hes @ [e]) = (if b = ekey e then Some e else chain_find b hes)"
proof -
  show "distinct (map ekey (hes @ [e]))"
    using assms unfolding chain_find_None_iff by auto
  show "chain_find b (hes @ [e]) = (if b = ekey e then Some e else chain_find b hes)"
    using assms(2) chain_find_absent [of b "[]"]
    by (auto simp: chain_find_append chain_find_Cons split: option.split)
qed

lemma maybe_expand_ok:
  assumes "hash_inv g ht" "res = (if h_count ht > h_max ht then expand_array ht else ht)"
  shows "hash_inv g res \<and> hash_val g res = hash_val g ht"
  using assms expand_array_ok [OF assms(1)] by (simp add: hash_val_def fun_eq_iff)

lemma apr_hash_set_ok:
  assumes inv: "hash_inv g ht" and key: "key_ok key klen"
  shows "hash_inv g (apr_hash_set ht key klen val) \<and>
    hash_val g (apr_hash_set ht key klen val) b =
      (if b = key_bytes key klen then (case val of None \<Rightarrow> None | Some v \<Rightarrow> Some (Some v)) else hash_val g ht b)"
proof -
  define k where "k = key_bytes key klen"
  define i where "i = bucket (g k) (h_max ht)"
  define hes where "hes = h_array ht ! i"
  define pos where "pos = chain_pos (\<lambda>e. ekey e = k) hes"
  note find_eq = find_entry_pos [OF inv key, folded k_def, folded i_def, folded hes_def, folded pos_def]
  have dist: "distinct (map ekey hes)" and hes: "\<And>e. e \<in> set hes \<Longrightarrow> entry_ok g e \<and> bucket (he_hash e) (h_max ht) = i"
    using array_invD [OF hash_invD(2) [OF inv], of i] bucket_less by (auto simp: hes_def i_def)
  have i_len: "i < length (h_array ht)" using bucket_less hash_invD(4) [OF inv] by (simp add: i_def)
  have i_cong: "bucket (g b) (h_max ht) = i" if "b = k" for b using that by (simp add: i_def)
  have keep: "hash_find g ht b = chain_find b hes" if "bucket (g b) (h_max ht) = i" for b
    using that by (simp add: hash_find_def hes_def)
  show ?thesis
  proof (cases "pos < length hes")
    case hit: True
    define us e vs where "us = take pos hes" and "e = hes ! pos" and "vs = drop (Suc pos) hes"
    have split: "hes = us @ e # vs" and e: "ekey e = k"
      using chain_split [of "\<lambda>e. ekey e = k" hes] hit by (simp_all add: us_def e_def vs_def pos_def)
    show ?thesis
    proof (cases val)
      case None
      have res: "apr_hash_set ht key klen val = ht\<lparr>h_array := (h_array ht)[i := us @ vs],
          h_count := h_count ht - 1, h_free := e # h_free ht\<rparr>"
        using hit None by (simp add: apr_hash_set_def find_eq us_def e_def vs_def hes_def Let_def)
      have "0 < h_count ht"
        using length_concat_update [OF i_len, of "[]"] hit unfolding hash_invD(3) [OF inv] hes_def list.size by linarith
      then have "hash_inv g (apr_hash_set ht key klen val) \<and> hash_find g (apr_hash_set ht key klen val) b =
          (if bucket (g b) (h_max ht) = i then chain_find b (us @ vs) else hash_find g ht b)" for b
        by (intro bucket_update [OF inv i_def chain_delete(1) [OF dist [unfolded split]] _ _ res])
          (use hes split in \<open>auto simp: hes_def [symmetric]\<close>)
      then show ?thesis
        using chain_delete(2) [OF dist [unfolded split]] keep None i_cong
        by (auto simp: hash_val_def e split k_def [symmetric])
    next
      case (Some v)
      let ?ht = "ht\<lparr>h_array := (h_array ht)[i := us @ e\<lparr>he_val := Some v\<rparr> # vs],
          h_count := h_count ht, h_free := h_free ht\<rparr>"
      have "hes[pos := e\<lparr>he_val := Some v\<rparr>] = us @ e\<lparr>he_val := Some v\<rparr> # vs"
        using hit by (simp add: upd_conv_take_nth_drop us_def vs_def)
      then have res: "apr_hash_set ht key klen val = (if h_count ?ht > h_max ?ht then expand_array ?ht else ?ht)"
        using hit Some by (simp add: apr_hash_set_def find_eq e_def hes_def Let_def)
      have upd: "hash_inv g ?ht \<and> hash_find g ?ht b =
          (if bucket (g b) (h_max ht) = i then chain_find b (us @ e\<lparr>he_val := Some v\<rparr> # vs) else hash_find g ht b)" for b
        by (intro bucket_update [OF inv i_def chain_replace(1) [OF dist [unfolded split]] _ _ refl])
          (use hes split in \<open>auto simp: hes_def [symmetric]\<close>)
      then have val: "hash_val g ?ht b = (if b = k then Some (Some v) else hash_val g ht b)" for b
        using chain_replace(2) [OF dist [unfolded split], where v = "Some v" and b = b] keep i_cong
        by (auto simp: hash_val_def e split)
      then show ?thesis
        using maybe_expand_ok [OF conjunct1 [OF upd] res] by (simp only: val k_def [symmetric] Some option.case)
    qed
  next
    case miss: False
    then have none: "chain_find k hes = None"
      using chain_pos_find(1) [of "\<lambda>e. ekey e = k" hes] by (simp add: pos_def chain_find_def)
    show ?thesis
    proof (cases val)
      case None
      have "apr_hash_set ht key klen val = ht"
        using miss None by (simp add: apr_hash_set_def find_eq hes_def)
      moreover have "hash_val g ht k = None"
        using none keep [of k] by (simp add: hash_val_def i_def)
      ultimately show ?thesis using inv None by (simp add: k_def)
    next
      case (Some v)
      let ?new = "\<lparr>he_hash = g k, he_key = key, he_klen = int (length k), he_val = Some v\<rparr>"
      let ?free = "case h_free ht of [] \<Rightarrow> [] | _ # rest \<Rightarrow> rest"
      let ?ht = "ht\<lparr>h_free := ?free, h_count := h_count ht + 1, h_array := (h_array ht)[i := hes @ [?new]]\<rparr>"
      have ht: "?ht = ht\<lparr>h_array := (h_array ht)[i := hes @ [?new]], h_count := h_count ht + 1, h_free := ?free\<rparr>"
        by simp
      have k: "take (length k) key = k" "length k \<le> length key"
        using key by (auto simp: k_def key_ok_def key_bytes_def takeWhile_eq_take [symmetric] length_takeWhile_le min_def)
      then have new: "ekey ?new = k" "entry_ok g ?new" "bucket (he_hash ?new) (h_max ht) = i"
        by (simp_all add: entry_ok_def i_def)
      have "pos = length hes"
        using miss unfolding pos_def by (induction hes) (auto split: if_splits)
      then have res: "apr_hash_set ht key klen val = (if h_count ?ht > h_max ?ht then expand_array ?ht else ?ht)"
        using Some i_len by (simp add: apr_hash_set_def find_eq hes_def Let_def)
      have snoc: "chain_find (ekey ?new) hes = None" using none new(1) by simp
      have upd: "hash_inv g ?ht \<and> hash_find g ?ht b =
          (if bucket (g b) (h_max ht) = i then chain_find b (hes @ [?new]) else hash_find g ht b)" for b
        by (intro bucket_update [OF inv i_def hash_chain_snoc(1) [OF dist snoc] _ _ ht])
          (use hes new in \<open>auto simp: hes_def [symmetric]\<close>)
      then have val: "hash_val g ?ht b = (if b = k then Some (Some v) else hash_val g ht b)" for b
        using hash_chain_snoc(2) [OF dist snoc, of b] keep [of b] i_cong [of b] new(1)
        by (auto simp: hash_val_def)
      then show ?thesis
        using maybe_expand_ok [OF conjunct1 [OF upd] res] by (simp only: val k_def [symmetric] Some option.case)
    qed
  qed
qed

lemma apr_hash_make_ok:
  "hash_inv times33 apr_hash_make \<and> hash_val times33 apr_hash_make b = None"
  "hashes_bytes hf g \<Longrightarrow> hash_inv g (apr_hash_make_custom hf) \<and> hash_val g (apr_hash_make_custom hf) b = None"
proof -
  have two: "\<exists>k. Suc INITIAL_MAX = 2 ^ k" by (rule exI [of _ 4]) (simp add: INITIAL_MAX_def)
  show "hash_inv times33 apr_hash_make \<and> hash_val times33 apr_hash_make b = None"
    using two bucket_less
    by (simp add: hash_inv_def array_inv_def apr_hash_make_def hashes_bytes_default hash_val_def
      hash_find_def chain_find_def)
  show "hash_inv g (apr_hash_make_custom hf) \<and> hash_val g (apr_hash_make_custom hf) b = None"
    if "hashes_bytes hf g"
    using two bucket_less that
    by (simp add: hash_inv_def array_inv_def apr_hash_make_custom_def apr_hash_make_def hash_val_def
      hash_find_def chain_find_def)
qed

text \<open>Keys given by their bytes: the store contract.\<close>

lemma key_ok_bytes [simp]: "key_ok b (int (length b))" "key_bytes b (int (length b)) = b"
  by (simp_all add: key_ok_def key_bytes_def APR_HASH_KEY_STRING_def)

interpretation hash_store: keyed_store "hash_inv g" "(=)" "\<lambda>ht b. apr_hash_get ht b (int (length b))"
    "\<lambda>ht b v. apr_hash_set ht b (int (length b)) (Some v)" "\<lambda>ht b. apr_hash_set ht b (int (length b)) None"
  for g
proof
  fix ht :: "'v apr_hash" and k v k'
  assume inv: "hash_inv g ht"
  note set_ok = apr_hash_set_ok [OF inv key_ok_bytes(1)]
  show "hash_inv g (apr_hash_set ht k (int (length k)) (Some v))" "hash_inv g (apr_hash_set ht k (int (length k)) None)"
    using set_ok by blast+
  show "apr_hash_get (apr_hash_set ht k (int (length k)) (Some v)) k' (int (length k')) =
      (if k = k' then Some v else apr_hash_get ht k' (int (length k')))"
    using set_ok [of k "Some v" k'] inv by (auto simp: apr_hash_get_val)
  show "apr_hash_get (apr_hash_set ht k (int (length k)) None) k' (int (length k')) =
      (if k = k' then None else apr_hash_get ht k' (int (length k')))"
    using set_ok [of k None k'] inv by (auto simp: apr_hash_get_val)
qed

section \<open>Iterating, copying and merging\<close>

fun visit_hash :: "('v, 'r) hash_callback \<Rightarrow> 'v hash_entry list \<Rightarrow> 'r \<Rightarrow> 'r \<times> bool" where
  "visit_hash cb [] rec = (rec, True)"
| "visit_hash cb (e # es) rec =
     (let (rec', rv) = cb rec (he_key e) (he_klen e) (he_val e)
      in if rv then visit_hash cb es rec' else (rec', False))"

lemma do_loop_entries:
  "do_loop ht cb (hi, found) rec =
     (if found then visit_hash cb (the (it_this hi) # ahead ht hi) rec else (rec, True))"
proof (induction ht cb "(hi, found)" rec arbitrary: hi found rule: do_loop.induct)
  case (1 ht cb hi found rec)
  obtain hi' found' where next_eq: "apr_hash_next ht hi = (hi', found')" by fastforce
  let ?e = "the (it_this hi)"
  obtain rec' rv where cb_eq: "cb rec (he_key ?e) (he_klen ?e) (he_val ?e) = (rec', rv)" by fastforce
  have "do_loop ht cb (hi', found') rec' =
      (if found' then visit_hash cb (the (it_this hi') # ahead ht hi') rec' else (rec', True))" if found rv
    using "1.hyps" [OF that(1)] that(2) next_eq cb_eq by (simp add: apr_hash_this_def Let_def)
  then show ?case
    using apr_hash_next_ahead [OF next_eq] next_eq cb_eq
    by (auto simp: do_loop.simps [of ht cb hi] apr_hash_this_def Let_def split: if_splits)
qed

lemma first_ahead:
  "apr_hash_first ht = (hi, found) \<Longrightarrow>
     if found then \<exists>e. it_this hi = Some e \<and> rest_from ht 0 = e # ahead ht hi else rest_from ht 0 = []"
  using apr_hash_next_ahead [of ht "\<lparr>it_this = None, it_next = [], it_index = 0\<rparr>" hi found]
  by (auto simp: apr_hash_first_def ahead_def split: if_splits)

lemma apr_hash_do_entries:
  assumes "hash_inv g ht"
  shows "apr_hash_do cb rec ht = visit_hash cb (concat (h_array ht)) rec"
  using do_loop_entries [of ht cb "fst (apr_hash_first ht)" "snd (apr_hash_first ht)" rec]
    first_ahead [of ht "fst (apr_hash_first ht)" "snd (apr_hash_first ht)"]
  unfolding rest_from_all [OF hash_invD(4) [OF assms], symmetric]
  by (auto simp: apr_hash_do_def split: if_splits)

lemma copy_chain_id: "copy_chain hes j = (hes, j + length hes)"
  by (induction hes arbitrary: j) (auto simp: split: prod.splits)

lemma copy_chains_id: "copy_chains arr j = (arr, j + length (concat arr))"
  by (induction arr arbitrary: j) (auto simp: copy_chain_id split: prod.splits)

lemma apr_hash_copy_ok:
  assumes "hash_inv g ht" "apr_hash_copy ht = (ht', j)"
  shows "hash_inv g ht' \<and> h_array ht' = h_array ht \<and> h_max ht' = h_max ht \<and>
    hash_find g ht' = hash_find g ht \<and> j = h_count ht"
  using assms hash_invD(3,4) [OF assms(1)]
  by (auto simp: apr_hash_copy_def copy_chains_id hash_inv_def hash_find_def fun_eq_iff)

section \<open>Clearing\<close>

lemma next_bucket_spec:
  "next_bucket ht i = (c, j) \<Longrightarrow> i \<le> j \<and>
     (c = [] \<longrightarrow> h_max ht < j \<and> (\<forall>k. i \<le> k \<and> k < Suc (h_max ht) \<longrightarrow> h_array ht ! k = [])) \<and>
     (c \<noteq> [] \<longrightarrow> (\<exists>n. j = Suc n \<and> i \<le> n \<and> n < Suc (h_max ht) \<and> h_array ht ! n = c \<and>
        (\<forall>k. i \<le> k \<and> k < n \<longrightarrow> h_array ht ! k = [])))"
proof (induction ht i arbitrary: c j rule: next_bucket.induct)
  case (1 ht i)
  consider "h_max ht < i" | "\<not> h_max ht < i" "h_array ht ! i = []"
    | e es where "\<not> h_max ht < i" "h_array ht ! i = e # es"
    by (cases "h_array ht ! i") auto
  then show ?case
  proof cases
    case 1
    with "1.prems" show ?thesis by (auto simp: next_bucket.simps [of ht i])
  next
    case 2
    then have "next_bucket ht (i + 1) = (c, j)"
      using "1.prems" by (simp add: next_bucket.simps [of ht i])
    moreover have "i \<le> k \<longleftrightarrow> k = i \<or> i + 1 \<le> k" for k by auto
    ultimately show ?thesis using "1.IH" [OF 2] 2(2) by auto
  next
    case 3
    with "1.prems" show ?thesis by (auto simp: next_bucket.simps [of ht i])
  qed
qed

text \<open>
  The current entry is the first of the first chain that is not empty, and the
  iterator holds the rest of that chain.
\<close>

definition clear_inv :: "'v apr_hash \<Rightarrow> 'v hash_index \<Rightarrow> bool" where
  "clear_inv ht hi \<longleftrightarrow> (\<exists>e i. it_this hi = Some e \<and> it_index hi = Suc i \<and> i < Suc (h_max ht) \<and>
     h_array ht ! i = e # it_next hi \<and> (\<forall>j < i. h_array ht ! j = []))"

lemma concat_Nil_nth: "(\<And>j. j < length xs \<Longrightarrow> xs ! j = []) \<Longrightarrow> concat xs = []"
  by (simp add: all_set_conv_all_nth)

lemma next_clear_inv:
  assumes len: "length (h_array ht) = Suc (h_max ht)" and n: "it_index hi \<le> Suc (h_max ht)"
    and before: "\<And>j. j < it_index hi \<Longrightarrow> h_array ht ! j = (if Suc j = it_index hi then it_next hi else [])"
    and zero: "it_index hi = 0 \<Longrightarrow> it_next hi = []"
    and step: "apr_hash_next ht hi = (hi', found)"
  shows "if found then clear_inv ht hi' else concat (h_array ht) = []"
proof (cases "it_next hi")
  case (Cons e es)
  then obtain i where "it_index hi = Suc i" using zero by (cases "it_index hi") auto
  with Cons step before [of i] before n show ?thesis
    by (auto simp: apr_hash_next_def clear_inv_def)
next
  case Nil
  with before have empty: "h_array ht ! j = []" if "j < it_index hi" for j
    using that by simp
  obtain c j where nb: "next_bucket ht (it_index hi) = (c, j)" by fastforce
  show ?thesis
  proof (cases c)
    case c: Nil
    then have "\<not> found" using step Nil nb by (simp add: apr_hash_next_def)
    moreover have "h_array ht ! k = []" if "k < length (h_array ht)" for k
      using that empty next_bucket_spec [OF nb] c len by (cases "k < it_index hi") auto
    ultimately show ?thesis by (simp add: concat_Nil_nth)
  next
    case c: (Cons e es)
    then obtain m where m: "j = Suc m" "it_index hi \<le> m" "m < Suc (h_max ht)" "h_array ht ! m = e # es"
        "\<forall>k. it_index hi \<le> k \<and> k < m \<longrightarrow> h_array ht ! k = []"
      using next_bucket_spec [OF nb] by auto
    have "h_array ht ! k = []" if "k < m" for k
      using that empty m(5) by (cases "k < it_index hi") auto
    with c m step Nil nb show ?thesis
      by (auto simp: apr_hash_next_def clear_inv_def)
  qed
qed

lemma delete_current:
  assumes inv: "hash_inv g ht" and cur: "i < Suc (h_max ht)" "h_array ht ! i = e # es"
  shows "\<exists>f. apr_hash_set ht (he_key e) (he_klen e) None =
      ht\<lparr>h_array := (h_array ht)[i := es], h_free := f, h_count := h_count ht - 1\<rparr>"
proof -
  have e: "entry_ok g e" "bucket (g (ekey e)) (h_max ht) = i"
    using array_invD(2,4) [OF hash_invD(2) [OF inv] cur(1), of e] cur(2) by auto
  then have key: "key_ok (he_key e) (he_klen e)" "key_bytes (he_key e) (he_klen e) = ekey e"
    by (auto simp: entry_ok_def key_ok_def key_bytes_def APR_HASH_KEY_STRING_def)
  then show ?thesis
    using find_entry_pos [OF inv key(1), of None] e(2) cur(2)
    by (auto simp: apr_hash_set_def)
qed

lemma clear_loop_ok:
  "hash_inv g ht \<Longrightarrow> (found \<Longrightarrow> clear_inv ht hi) \<Longrightarrow> (\<not> found \<Longrightarrow> concat (h_array ht) = []) \<Longrightarrow>
     hash_inv g (fst (clear_loop ht (hi, found))) \<and>
     concat (h_array (fst (clear_loop ht (hi, found)))) = [] \<and>
     h_max (fst (clear_loop ht (hi, found))) = h_max ht"
proof (induction ht "(hi, found)" arbitrary: hi found rule: clear_loop.induct)
  case (1 ht hi found)
  show ?case
  proof (cases found)
    case False
    with 1 show ?thesis by (simp add: clear_loop.simps [of ht hi])
  next
    case True
    then obtain e i where cur: "it_this hi = Some e" "it_index hi = Suc i" "i < Suc (h_max ht)"
        "h_array ht ! i = e # it_next hi" "\<And>j. j < i \<Longrightarrow> h_array ht ! j = []"
      using "1.prems"(2) by (auto simp: clear_inv_def)
    define ht' where "ht' = apr_hash_set ht (he_key e) (he_klen e) None"
    have key: "key_ok (he_key e) (he_klen e)"
      using array_invD(2) [OF hash_invD(2) [OF "1.prems"(1)] cur(3), of e] cur(4)
      by (auto simp: entry_ok_def key_ok_def)
    have inv': "hash_inv g ht'"
      using apr_hash_set_ok [OF "1.prems"(1) key] by (simp add: ht'_def)
    obtain f where ht': "ht' = ht\<lparr>h_array := (h_array ht)[i := it_next hi], h_free := f, h_count := h_count ht - 1\<rparr>"
      using delete_current [OF "1.prems"(1) cur(3,4)] ht'_def by blast
    have len: "length (h_array ht) = Suc (h_max ht)" using hash_invD(4) [OF "1.prems"(1)] .
    obtain hi' found' where step: "apr_hash_next ht' hi = (hi', found')" by fastforce
    have next_inv: "if found' then clear_inv ht' hi' else concat (h_array ht') = []"
      by (rule next_clear_inv [OF _ _ _ _ step])
        (use cur len in \<open>auto simp: ht' nth_list_update less_Suc_eq\<close>)
    have "clear_loop ht (hi, found) = clear_loop ht' (hi', found')"
      using True cur(1) step by (simp add: clear_loop.simps [of ht hi] apr_hash_this_def ht'_def [symmetric])
    moreover have "h_max ht' = h_max ht" by (simp add: ht')
    moreover have "(he_key e, he_klen e, he_val e) = apr_hash_this hi"
      using cur(1) by (simp add: apr_hash_this_def)
    from "1.hyps" [OF True refl this refl ht'_def step inv']
    have "hash_inv g (fst (clear_loop ht' (hi', found'))) \<and>
        concat (h_array (fst (clear_loop ht' (hi', found')))) = [] \<and>
        h_max (fst (clear_loop ht' (hi', found'))) = h_max ht'"
      using next_inv by (auto split: if_splits)
    ultimately show ?thesis by simp
  qed
qed

lemma apr_hash_clear_ok:
  assumes inv: "hash_inv g ht"
  shows "hash_inv g (apr_hash_clear ht) \<and> concat (h_array (apr_hash_clear ht)) = [] \<and>
    h_max (apr_hash_clear ht) = h_max ht"
proof -
  obtain hi found where first: "apr_hash_first ht = (hi, found)" by fastforce
  have "if found then clear_inv ht hi else concat (h_array ht) = []"
    by (rule next_clear_inv [OF hash_invD(4) [OF inv] _ _ _ first [unfolded apr_hash_first_def]]) simp_all
  moreover obtain ht' hi' where loop: "clear_loop ht (hi, found) = (ht', hi')" by fastforce
  ultimately have "hash_inv g ht' \<and> concat (h_array ht') = [] \<and> h_max ht' = h_max ht"
    using clear_loop_ok [OF inv, of found hi] by (auto split: if_splits)
  then show ?thesis
    using first loop by (auto simp: apr_hash_clear_def hash_inv_def)
qed

section \<open>Merging\<close>

definition arr_val :: "(cstr \<Rightarrow> 32 word) \<Rightarrow> nat \<Rightarrow> 'v hash_entry list list \<Rightarrow> cstr \<Rightarrow> 'v option option" where
  "arr_val g m arr b = map_option he_val (chain_find b (arr ! bucket (g b) m))"

definition merged :: "'v merger option \<Rightarrow> 'v hash_entry \<Rightarrow> 'v option option \<Rightarrow> 'v option" where
  "merged merger iter old =
     (case old of
        None \<Rightarrow> he_val iter
      | Some v \<Rightarrow> (case merger of
                    Some m \<Rightarrow> m (he_key iter) (he_klen iter) (he_val iter) v
                  | None \<Rightarrow> he_val iter))"

lemma entry_key_iff:
  "entry_ok g x \<Longrightarrow> entry_ok g y \<Longrightarrow>
     (he_klen x = he_klen y \<and> take (nat (he_klen y)) (he_key x) = take (nat (he_klen y)) (he_key y)) \<longleftrightarrow>
     ekey x = ekey y"
  unfolding entry_ok_def by (metis eq_nat_nat_iff length_take min_absorb2)

definition merge_inv :: "(cstr \<Rightarrow> 32 word) \<Rightarrow> nat \<Rightarrow> 'v hash_entry list list \<times> nat \<times> nat \<Rightarrow> bool" where
  "merge_inv g m st \<longleftrightarrow> (case st of (arr, cnt, j) \<Rightarrow>
     array_inv g m arr \<and> cnt = length (concat arr) \<and> j = cnt)"

lemma merge_step_ok:
  assumes inv: "merge_inv g m (arr, cnt, j)" and ent: "entry_ok g iter"
    and res: "merge_step merger m iter (arr, cnt, j) = (arr', cnt', j')"
  shows "merge_inv g m (arr', cnt', j') \<and> cnt \<le> cnt' \<and> cnt' \<le> Suc cnt \<and>
    arr_val g m arr' b =
      (if b = ekey iter then Some (merged merger iter (arr_val g m arr b)) else arr_val g m arr b)"
proof -
  define i where "i = bucket (he_hash iter) m"
  define hes where "hes = arr ! i"
  define pos where "pos = chain_pos (\<lambda>e. ekey e = ekey iter) hes"
  have arr: "array_inv g m arr" "cnt = length (concat arr)" "j = cnt"
    using inv by (simp_all add: merge_inv_def)
  have i: "i < Suc m" "i < length arr" "i = bucket (g (ekey iter)) m"
    using bucket_less arr(1) ent by (simp_all add: i_def array_inv_def entry_ok_def)
  have hes: "distinct (map ekey hes)" "\<And>e. e \<in> set hes \<Longrightarrow> entry_ok g e \<and> bucket (he_hash e) m = i"
    using array_invD [OF arr(1) i(1)] by (simp_all add: hes_def)
  have pos_eq: "chain_pos (\<lambda>e. he_klen e = he_klen iter \<and>
      take (nat (he_klen iter)) (he_key e) = take (nat (he_klen iter)) (he_key iter)) hes = pos"
    unfolding pos_def by (rule chain_pos_cong) (rule entry_key_iff [OF conjunct1 [OF hes(2)] ent])
  have val: "arr_val g m (arr[i := c]) b =
      (if bucket (g b) m = i then map_option he_val (chain_find b c) else arr_val g m arr b)" for c
    using i(2) by (simp add: arr_val_def nth_list_update)
  have old: "arr_val g m arr b = map_option he_val (chain_find b hes)" if "bucket (g b) m = i"
    using that by (simp add: arr_val_def hes_def)
  have mine: "bucket (g b) m = i" if "b = ekey iter" using that i(3) by simp
  show ?thesis
  proof (cases "pos < length hes")
    case True
    define us e vs where "us = take pos hes" and "e = hes ! pos" and "vs = drop (Suc pos) hes"
    have split: "hes = us @ e # vs" and e: "ekey e = ekey iter"
      using chain_split [of "\<lambda>e. ekey e = ekey iter" hes] True by (simp_all add: us_def e_def vs_def pos_def)
    have found: "chain_find (ekey iter) hes = Some e"
      using chain_find_Some_iff [OF hes(1)] e split by simp
    define v where "v = merged merger iter (Some (he_val e))"
    have "hes[pos := e\<lparr>he_val := v\<rparr>] = us @ e\<lparr>he_val := v\<rparr> # vs"
      using True by (simp add: upd_conv_take_nth_drop us_def vs_def)
    then have res': "arr' = arr[i := us @ e\<lparr>he_val := v\<rparr> # vs]" "cnt' = cnt" "j' = j"
      using res True by (auto simp: merge_step_def Let_def i_def [symmetric] hes_def [symmetric] pos_eq
          v_def merged_def e_def)
    have "array_inv g m arr'"
      unfolding res'(1)
      by (rule array_inv_update [OF arr(1) chain_replace(1) [OF hes(1) [unfolded split]]])
        (use hes(2) split in auto)
    moreover have "length (concat arr') = cnt"
      using length_concat_update [OF i(2), of "us @ e\<lparr>he_val := v\<rparr> # vs"] arr(2) split
      by (simp add: res'(1) hes_def [symmetric])
    ultimately show ?thesis
      using chain_replace(2) [OF hes(1) [unfolded split], where v = v and b = b] val old mine found arr(3)
      by (auto simp: merge_inv_def res' e split v_def)
  next
    case False
    have none: "chain_find (ekey iter) hes = None"
      using False chain_pos_find(1) [of "\<lambda>e. ekey e = ekey iter" hes] by (simp add: pos_def chain_find_def)
    have res': "arr' = arr[i := iter # hes]" "cnt' = cnt + 1" "j' = j + 1"
      using res False by (auto simp: merge_step_def Let_def i_def [symmetric] hes_def [symmetric] pos_eq push_entry_def)
    have "distinct (map ekey (iter # hes))"
      using hes(1) none by (auto simp: chain_find_None_iff)
    then have "array_inv g m arr'"
      unfolding res'(1) by (rule array_inv_update [OF arr(1)]) (use hes(2) ent in \<open>auto simp: i_def\<close>)
    moreover have "length (concat arr') = Suc cnt"
      using length_concat_update [OF i(2), of "iter # hes"] arr(2) by (simp add: res'(1) hes_def [symmetric])
    ultimately show ?thesis
      using val [of "iter # hes"] old mine none arr(3)
      by (auto simp: merge_inv_def res' chain_find_Cons merged_def)
  qed
qed

lemma merge_fold_ok:
  assumes "merge_inv g m st" "\<And>e. e \<in> set es \<Longrightarrow> entry_ok g e" "distinct (map ekey es)"
  shows "merge_inv g m (fold (merge_step merger m) es st) \<and>
    fst (snd (fold (merge_step merger m) es st)) \<le> fst (snd st) + length es \<and>
    arr_val g m (fst (fold (merge_step merger m) es st)) b =
      (case chain_find b es of
         None \<Rightarrow> arr_val g m (fst st) b
       | Some iter \<Rightarrow> Some (merged merger iter (arr_val g m (fst st) b)))"
  using assms
proof (induction es arbitrary: st)
  case Nil
  then show ?case by (simp add: chain_find_def)
next
  case (Cons iter es)
  obtain arr cnt j where st: "st = (arr, cnt, j)" by (cases st)
  obtain arr' cnt' j' where step: "merge_step merger m iter st = (arr', cnt', j')" by (cases "merge_step merger m iter st")
  note ok = merge_step_ok [OF Cons.prems(1) [unfolded st] Cons.prems(2) [of iter] step [unfolded st]]
  have inv: "merge_inv g m (merge_step merger m iter st)"
    using ok [of b] by (simp add: step)
  have "chain_find (ekey iter) es = None"
    using Cons.prems(3) by (auto simp: chain_find_None_iff)
  then show ?case
    using Cons.IH [OF inv] Cons.prems(2,3) ok [of b]
    unfolding st step [unfolded st] fold_simps fst_conv snd_conv
    by (auto simp: step [unfolded st] chain_find_Cons split: option.splits)
qed

lemma merge_max_power:
  assumes "hash_inv g1 overlay" "hash_inv g2 base"
  shows "\<exists>k. Suc (merge_max overlay base) = 2 ^ k"
proof -
  obtain k1 k2 where k: "Suc (h_max overlay) = 2 ^ k1" "Suc (h_max base) = 2 ^ k2"
    using assms by (auto simp: hash_inv_def)
  have double: "\<exists>k. Suc (n * 2 + 1) = 2 ^ k" if "Suc n = 2 ^ k" for n k
    by (rule exI [of _ "Suc k"]) (use that in simp)
  show ?thesis
    using double [OF k(1)] double [OF k(2)] k unfolding merge_max_def Let_def by (auto split: if_splits)
qed

lemma apr_hash_merge_ok:
  assumes ov: "hash_inv g overlay" and base: "hash_inv g base"
    and res: "apr_hash_merge overlay base merger = (ht, j)"
  shows "hash_inv g ht \<and> j = h_count ht \<and> h_count ht \<le> h_count base + h_count overlay \<and>
    hash_val g ht b =
      (case hash_find g overlay b of
         None \<Rightarrow> hash_val g base b
       | Some iter \<Rightarrow> Some (merged merger iter (hash_val g base b)))"
proof -
  let ?m = "merge_max overlay base"
  define arr0 where "arr0 = fold (push_entry ?m) (concat (h_array base)) (alloc_array ?m)"
  note bases = array_inv_distinct [OF hash_invD(2) [OF base]] array_inv_entry [OF hash_invD(2) [OF base]]
  note overs = array_inv_entry [OF hash_invD(2) [OF ov]] array_inv_distinct [OF hash_invD(2) [OF ov]]
  have arr0: "array_inv g ?m arr0" "length (concat arr0) = h_count base"
      "\<And>b. arr_val g ?m arr0 b = hash_val g base b"
    using rebuilt_array [OF bases arr0_def] hash_invD(3) [OF base] chain_find_concat [OF hash_invD(2) [OF base]]
    by (simp_all add: arr_val_def hash_val_def hash_find_def)
  then have inv0: "merge_inv g ?m (arr0, h_count base, length (concat (h_array base)))"
    using hash_invD(3) [OF base] by (simp add: merge_inv_def)
  obtain arr' cnt j' where fold_eq: "fold (merge_step merger ?m) (concat (h_array overlay))
      (arr0, h_count base, length (concat (h_array base))) = (arr', cnt, j')"
    by (metis prod_cases3)
  note ok = merge_fold_ok [OF inv0 overs, of merger b, unfolded fold_eq fst_conv snd_conv arr0(3)]
  have ht: "ht = \<lparr>h_array = arr', h_iterator = None, h_count = cnt, h_max = ?m, h_func = h_func base, h_free = []\<rparr>"
    and j: "j = j'"
    using res rest_from_all [OF hash_invD(4) [OF base]] rest_from_all [OF hash_invD(4) [OF ov]] fold_eq
    by (auto simp: apr_hash_merge_def Let_def arr0_def)
  have "chain_find b (concat (h_array overlay)) = hash_find g overlay b"
    using chain_find_concat [OF hash_invD(2) [OF ov]] by (simp add: hash_find_def)
  moreover have "hash_val g ht b = arr_val g ?m arr' b"
    by (simp add: ht hash_val_def hash_find_def arr_val_def)
  ultimately show ?thesis
    using ok arr0(3) hash_invD(1) [OF base] merge_max_power [OF ov base] hash_invD(3) [OF ov] j
    by (auto simp: merge_inv_def hash_inv_def ht)
qed

section \<open>Counting\<close>

lemma hash_find_Some_iff:
  assumes "hash_inv g ht"
  shows "hash_find g ht b = Some e \<longleftrightarrow> e \<in> set (concat (h_array ht)) \<and> ekey e = b"
  using chain_find_Some_iff [OF array_inv_distinct [OF hash_invD(2) [OF assms]]]
    chain_find_concat [OF hash_invD(2) [OF assms]] by (simp only: hash_find_def)

lemma hash_count_card:
  assumes "hash_inv g ht"
  shows "h_count ht = card {b. hash_val g ht b \<noteq> None}"
proof -
  have "{b. hash_val g ht b \<noteq> None} = set (map ekey (concat (h_array ht)))"
    using hash_find_Some_iff [OF assms] by (auto simp: hash_val_def simp del: set_concat)
  also have "card \<dots> = length (concat (h_array ht))"
    using distinct_card [OF array_inv_distinct [OF hash_invD(2) [OF assms]]] by simp
  finally show ?thesis using hash_invD(3) [OF assms] by simp
qed

text \<open>The load bound that \<open>apr_hash_set\<close> keeps.\<close>

lemma expand_array_bound:
  "h_count (expand_array ht) = h_count ht \<and> h_max (expand_array ht) = h_max ht * 2 + 1"
  by (simp add: expand_array_def Let_def split: prod.splits)

lemma chain_pos_le: "chain_pos p hes \<le> length hes"
  by (induction hes) auto

lemma apr_hash_set_bound:
  "length (h_array ht) = Suc (h_max ht) \<Longrightarrow> h_count ht \<le> h_max ht \<Longrightarrow>
     h_count (apr_hash_set ht key klen val) \<le> h_max (apr_hash_set ht key klen val)"
  by (auto simp: apr_hash_set_def find_entry_def Let_def expand_array_bound bucket_less chain_pos_le le_imp_less_Suc
    split: prod.splits option.splits)

section \<open>Properties\<close>

text \<open>A client that sets and deletes keys, and the map it has in mind.\<close>

definition hash_run :: "'v apr_hash \<Rightarrow> (cstr \<times> int \<times> 'v option) list \<Rightarrow> 'v apr_hash" where
  "hash_run = foldl (\<lambda>ht (key, klen, val). apr_hash_set ht key klen val)"

definition map_run :: "(cstr \<rightharpoonup> 'v) \<Rightarrow> (cstr \<times> int \<times> 'v option) list \<Rightarrow> (cstr \<rightharpoonup> 'v)" where
  "map_run = foldl (\<lambda>m (key, klen, val). m(key_bytes key klen := val))"

lemma hash_run_ok:
  assumes "\<And>key klen val. (key, klen, val) \<in> set ops \<Longrightarrow> key_ok key klen"
    and "hash_inv g ht" "\<And>b. hash_val g ht b = map_option Some (m b)" "h_count ht \<le> h_max ht"
  shows "hash_inv g (hash_run ht ops) \<and> (\<forall>b. hash_val g (hash_run ht ops) b = map_option Some (map_run m ops b)) \<and>
    h_count (hash_run ht ops) \<le> h_max (hash_run ht ops)"
  using assms
proof (induction ops arbitrary: ht m)
  case (Cons x ops)
  obtain key klen val where x: "x = (key, klen, val)" by (cases x)
  have "key_ok key klen" by (rule Cons.prems(1) [of key klen val]) (simp add: x)
  note set_ok = apr_hash_set_ok [OF Cons.prems(2) this, of val]
  have "hash_val g (apr_hash_set ht key klen val) b = map_option Some ((m(key_bytes key klen := val)) b)" for b
    using set_ok [of b] Cons.prems(3) [of b] by (auto split: option.splits)
  moreover have "h_count (apr_hash_set ht key klen val) \<le> h_max (apr_hash_set ht key klen val)"
    by (rule apr_hash_set_bound [OF hash_invD(4) [OF Cons.prems(2)] Cons.prems(4)])
  ultimately have "hash_inv g (hash_run (apr_hash_set ht key klen val) ops) \<and>
      (\<forall>b. hash_val g (hash_run (apr_hash_set ht key klen val) ops) b =
        map_option Some (map_run (m(key_bytes key klen := val)) ops b)) \<and>
      h_count (hash_run (apr_hash_set ht key klen val) ops) \<le> h_max (hash_run (apr_hash_set ht key klen val) ops)"
    using set_ok by (intro Cons.IH Cons.prems(1)) auto
  then show ?case by (simp add: hash_run_def map_run_def x del: fun_upd_apply)
qed (simp add: hash_run_def map_run_def)

text \<open>
  C2. Hash tables refine finite maps: after any sequence of \<open>apr_hash_set\<close> calls
  (deletions included) on a new table with a hash function that does what the
  header asks, \<open>apr_hash_get\<close> returns what the map from key bytes to values holds,
  whether the key was given with its length or as a C string;
  \<open>apr_hash_count\<close> is the number of keys of the map, and the load never exceeds
  the maximum index, whatever expansions that took.
\<close>

theorem apr_hash_refines_map:
  assumes "hashes_bytes hf g" "\<forall>(key, klen, val) \<in> set ops. key_ok key klen" "key_ok key klen"
  shows "apr_hash_get (hash_run (apr_hash_make_custom hf) ops) key klen = map_run Map.empty ops (key_bytes key klen) \<and>
    apr_hash_count (hash_run (apr_hash_make_custom hf) ops) = card (dom (map_run Map.empty ops)) \<and>
    h_count (hash_run (apr_hash_make_custom hf) ops) \<le> h_max (hash_run (apr_hash_make_custom hf) ops)"
proof -
  let ?ht = "hash_run (apr_hash_make_custom hf) ops" and ?m = "map_run Map.empty ops"
  have run: "hash_inv g ?ht" "\<And>b. hash_val g ?ht b = map_option Some (?m b)" "h_count ?ht \<le> h_max ?ht"
  proof -
    have "h_count (apr_hash_make_custom hf) \<le> h_max (apr_hash_make_custom hf)"
      by (simp add: apr_hash_make_custom_def apr_hash_make_def)
    from hash_run_ok [of ops, OF _ conjunct1 [OF apr_hash_make_ok(2) [OF assms(1)]] _ this, of Map.empty]
    show "hash_inv g ?ht" "\<And>b. hash_val g ?ht b = map_option Some (?m b)" "h_count ?ht \<le> h_max ?ht"
      using assms(2) apr_hash_make_ok(2) [OF assms(1)] by fastforce+
  qed
  then show ?thesis
    using assms(3) hash_count_card [OF run(1)]
    by (auto simp: apr_hash_get_val apr_hash_count_def dom_def split: option.splits)
qed

theorem apr_hash_refines_map_witness:
  "apr_hash_get (hash_run (apr_hash_make_custom apr_hashfunc_default)
     [(''ab'', APR_HASH_KEY_STRING, Some (1 :: nat)), (''abc'', 2, Some 2)]) ''ab'' 2 = Some 2"
  using apr_hash_refines_map [OF hashes_bytes_default,
      of "[(''ab'', APR_HASH_KEY_STRING, Some (1 :: nat)), (''abc'', 2, Some 2)]" "''ab''" 2]
  by (simp add: key_ok_def map_run_def key_bytes_def APR_HASH_KEY_STRING_def)

text \<open>
  \<open>apr_hash_set\<close> on any well-formed table: the key gets the value, or is gone
  when the value is NULL, every other key keeps its value, and the table stays
  well-formed (each entry in the bucket of its hash, no key twice, the count
  exact, the array a power of two) although the call may add, replace, recycle
  an entry or rebuild the whole array.
\<close>

theorem apr_hash_set_updates:
  assumes "hash_inv g ht" "key_ok key klen" "key_ok key' klen'"
  shows "hash_inv g (apr_hash_set ht key klen val) \<and>
    apr_hash_get (apr_hash_set ht key klen val) key' klen' =
      (if key_bytes key klen = key_bytes key' klen' then val else apr_hash_get ht key' klen')"
  using apr_hash_set_ok [OF assms(1,2), of val "key_bytes key' klen'"] assms
  by (auto simp: apr_hash_get_val split: option.splits)

theorem apr_hash_set_updates_witness:
  "apr_hash_get (apr_hash_set apr_hash_make ''k'' APR_HASH_KEY_STRING (Some (7 :: nat))) ''k'' 1 = Some 7"
  using apr_hash_set_updates [OF conjunct1 [OF apr_hash_make_ok(1)], of "''k''" APR_HASH_KEY_STRING "''k''" 1 "Some (7 :: nat)"]
  by (simp add: key_ok_def key_bytes_def APR_HASH_KEY_STRING_def)

text \<open>
  C30. \<open>apr_hash_do\<close>, with the iterator it advances, calls back once for every key
  of the table and no other: the entries it walks have pairwise distinct keys,
  are exactly those that \<open>apr_hash_get\<close> can find, and the walk ends early, with
  result zero, at the first callback that returns zero.
\<close>

theorem apr_hash_do_visits_each_key:
  assumes "hash_inv g ht"
  shows "\<exists>es. apr_hash_do cb rec ht = visit_hash cb es rec \<and> length es = apr_hash_count ht \<and>
    distinct (map (\<lambda>e. key_bytes (he_key e) (he_klen e)) es) \<and>
    (\<forall>e \<in> set es. apr_hash_get ht (he_key e) (he_klen e) = he_val e) \<and>
    (\<forall>key klen v. key_ok key klen \<longrightarrow> apr_hash_get ht key klen = Some v \<longrightarrow>
       (\<exists>e \<in> set es. key_bytes (he_key e) (he_klen e) = key_bytes key klen \<and> he_val e = Some v))"
proof (intro exI conjI)
  let ?es = "concat (h_array ht)"
  have ok: "key_ok (he_key e) (he_klen e)" "key_bytes (he_key e) (he_klen e) = ekey e" if "e \<in> set ?es" for e
    using array_inv_entry [OF hash_invD(2) [OF assms] that]
    by (auto simp: entry_ok_def key_ok_def key_bytes_def APR_HASH_KEY_STRING_def)
  show "apr_hash_do cb rec ht = visit_hash cb ?es rec" by (rule apr_hash_do_entries [OF assms])
  show "length ?es = apr_hash_count ht"
    using hash_invD(3) [OF assms] by (simp add: apr_hash_count_def)
  have "map (\<lambda>e. key_bytes (he_key e) (he_klen e)) ?es = map ekey ?es"
    by (rule map_cong [OF refl]) (rule ok(2))
  then show "distinct (map (\<lambda>e. key_bytes (he_key e) (he_klen e)) ?es)"
    using array_inv_distinct [OF hash_invD(2) [OF assms]] by (simp only:)
  show "\<forall>e \<in> set ?es. apr_hash_get ht (he_key e) (he_klen e) = he_val e"
  proof
    fix e assume e: "e \<in> set ?es"
    then have "hash_find g ht (ekey e) = Some e" using hash_find_Some_iff [OF assms] by blast
    then show "apr_hash_get ht (he_key e) (he_klen e) = he_val e"
      using apr_hash_get_find [OF assms ok(1) [OF e]] ok(2) [OF e] by simp
  qed
  show "\<forall>key klen v. key_ok key klen \<longrightarrow> apr_hash_get ht key klen = Some v \<longrightarrow>
       (\<exists>e \<in> set ?es. key_bytes (he_key e) (he_klen e) = key_bytes key klen \<and> he_val e = Some v)"
  proof (intro allI impI)
    fix key klen v assume "key_ok key klen" "apr_hash_get ht key klen = Some v"
    then obtain e where e: "hash_find g ht (key_bytes key klen) = Some e" "he_val e = Some v"
      by (auto simp: apr_hash_get_find [OF assms] split: option.splits)
    then have "e \<in> set ?es" "ekey e = key_bytes key klen"
      using hash_find_Some_iff [OF assms] by blast+
    with e(2) ok(2) show "\<exists>e \<in> set ?es. key_bytes (he_key e) (he_klen e) = key_bytes key klen \<and> he_val e = Some v"
      by metis
  qed
qed

theorem apr_hash_do_visits_each_key_witness:
  "\<exists>es :: bool hash_entry list. apr_hash_do (\<lambda>n k l v. (n + 1, True)) (0 :: nat) (apr_hash_set apr_hash_make ''k'' 1 (Some True)) =
     visit_hash (\<lambda>n k l v. (n + 1, True)) es 0"
proof -
  have "hash_inv times33 (apr_hash_set apr_hash_make ''k'' 1 (Some True))"
    using apr_hash_set_ok [OF conjunct1 [OF apr_hash_make_ok(1)], of "''k''" 1 "Some True"] by (simp add: key_ok_def)
  from apr_hash_do_visits_each_key [OF this, of "\<lambda>n k l v. (n + 1, True)" "0 :: nat"]
  show ?thesis by blast
qed

text \<open>
  \<open>apr_hash_clear\<close> empties a table while it iterates over it: afterwards no
  key is found, the count is zero, the array keeps its size, and the table is
  well-formed. Deleting the current entry is safe because the iterator has
  already moved past it.
\<close>

theorem apr_hash_clear_empties:
  assumes "hash_inv g ht"
  shows "hash_inv g (apr_hash_clear ht) \<and> apr_hash_count (apr_hash_clear ht) = 0 \<and>
    h_max (apr_hash_clear ht) = h_max ht \<and> (key_ok key klen \<longrightarrow> apr_hash_get (apr_hash_clear ht) key klen = None)"
proof -
  note ok = apr_hash_clear_ok [OF assms]
  then have inv: "hash_inv g (apr_hash_clear ht)" and empty: "concat (h_array (apr_hash_clear ht)) = []"
    by blast+
  have "hash_find g (apr_hash_clear ht) b = None" for b
    using hash_find_Some_iff [OF inv, of b] unfolding empty by (cases "hash_find g (apr_hash_clear ht) b") auto
  then show ?thesis
    using ok hash_invD(3) [OF inv] by (simp add: apr_hash_count_def apr_hash_get_find [OF inv])
qed

theorem apr_hash_clear_empties_witness:
  "apr_hash_count (apr_hash_clear (apr_hash_set apr_hash_make ''k'' 1 (Some True))) = 0"
  using apr_hash_clear_empties [of times33 "apr_hash_set apr_hash_make ''k'' 1 (Some True)" "''k''" 1]
    apr_hash_set_ok [OF conjunct1 [OF apr_hash_make_ok(1)], of "''k''" 1 "Some True"]
  by (simp add: key_ok_def)

text \<open>
  C31. \<open>apr_hash_merge\<close> (and \<open>apr_hash_overlay\<close>, where the merger is NULL) of two
  tables with the same hash function: a key of both tables gets the merger's
  value of the overlay's value and the base's, or the overlay's value; a key of one table
  keeps its value; the result is well-formed; and the block of entries that the
  code allocates for the sum of both counts is not overrun.
\<close>

theorem apr_hash_merge_combines:
  assumes "hash_inv g overlay" "hash_inv g base" "apr_hash_merge overlay base merger = (ht, j)"
  shows "hash_inv g ht \<and> j \<le> h_count base + h_count overlay \<and>
    hash_val g ht b =
      (case hash_find g overlay b of
         None \<Rightarrow> hash_val g base b
       | Some iter \<Rightarrow>
           (case hash_val g base b of
              None \<Rightarrow> Some (he_val iter)
            | Some v \<Rightarrow> Some (case merger of
                None \<Rightarrow> he_val iter
              | Some m \<Rightarrow> m (he_key iter) (he_klen iter) (he_val iter) v)))"
  using apr_hash_merge_ok [OF assms, of b] by (auto simp: merged_def split: option.splits)

theorem apr_hash_merge_combines_witness:
  "hash_val times33 (fst (apr_hash_overlay (apr_hash_set apr_hash_make ''k'' 1 (Some (1 :: nat)))
     (apr_hash_set apr_hash_make ''k'' 1 (Some 2)))) ''k'' = Some (Some 1)"
proof -
  let ?ov = "apr_hash_set apr_hash_make ''k'' 1 (Some (1 :: nat))" and ?base = "apr_hash_set apr_hash_make ''k'' 1 (Some (2 :: nat))"
  obtain ht j where res: "apr_hash_merge ?ov ?base None = (ht, j)" by fastforce
  have key: "key_ok ''k'' 1" "key_bytes ''k'' 1 = ''k''"
    by (simp_all add: key_ok_def key_bytes_def APR_HASH_KEY_STRING_def)
  note set_ok = apr_hash_set_ok [OF conjunct1 [OF apr_hash_make_ok(1)] key(1)]
  have ov: "hash_inv times33 ?ov" "hash_val times33 ?ov ''k'' = Some (Some 1)"
    and base: "hash_inv times33 ?base" "hash_val times33 ?base ''k'' = Some (Some 2)"
    using set_ok [of "Some (1 :: nat)" "''k''"] set_ok [of "Some (2 :: nat)" "''k''"] key(2) by simp_all
  show ?thesis
    using apr_hash_merge_combines [OF ov(1) base(1) res, of "''k''"] ov(2) base(2)
    unfolding apr_hash_overlay_def res fst_conv by (auto simp: hash_val_def)
qed

end
