(* ===== verification/Apr_Fnmatch.thy ===== *)
theory Apr_Fnmatch
  imports Apr_Arrays
begin

text \<open>
  Shell patterns (\<open>srclib/apr/strings/apr_fnmatch.c\<close>). A \<open>char *\<close> into the
  pattern or the string is the rest of it from there on; pointers into one string
  are compared by the length of the rest, which is smaller further to the right.
  \<open>APR_FNM_NOMATCH\<close> is 1 and a match is 0; the model returns whether it is 0.
\<close>

section \<open>Flags\<close>

type_synonym fnm_flags = "32 word"

definition APR_FNM_NOESCAPE :: fnm_flags where "APR_FNM_NOESCAPE = 0x01"
definition APR_FNM_PATHNAME :: fnm_flags where "APR_FNM_PATHNAME = 0x02"
definition APR_FNM_PERIOD :: fnm_flags where "APR_FNM_PERIOD = 0x04"
definition APR_FNM_CASE_BLIND :: fnm_flags where "APR_FNM_CASE_BLIND = 0x08"

text \<open>The local constants \<open>nocase\<close>, \<open>escape\<close> and \<open>slash\<close> of the code, and the test of \<open>APR_FNM_PERIOD\<close>.\<close>

definition fnm_escape :: "fnm_flags \<Rightarrow> bool" where
  "fnm_escape flags \<longleftrightarrow> and flags APR_FNM_NOESCAPE = 0"

definition fnm_slash :: "fnm_flags \<Rightarrow> bool" where
  "fnm_slash flags \<longleftrightarrow> and flags APR_FNM_PATHNAME \<noteq> 0"

definition fnm_period :: "fnm_flags \<Rightarrow> bool" where
  "fnm_period flags \<longleftrightarrow> and flags APR_FNM_PERIOD \<noteq> 0"

definition fnm_nocase :: "fnm_flags \<Rightarrow> bool" where
  "fnm_nocase flags \<longleftrightarrow> and flags APR_FNM_CASE_BLIND \<noteq> 0"

section \<open>One character\<close>

text \<open>The value of a signed \<open>char\<close>, by which ranges are compared.\<close>

definition char_value :: "char \<Rightarrow> int" where
  "char_value c = sint (byte_of c)"

text \<open>The tests of the string's character \<open>c\<close> against a range and against one character.\<close>

definition in_range :: "fnm_flags \<Rightarrow> char \<Rightarrow> char \<Rightarrow> char \<Rightarrow> bool" where
  "in_range flags c a b \<longleftrightarrow>
     (char_value c \<ge> char_value a \<and> char_value c \<le> char_value b) \<or>
     (fnm_nocase flags \<and> (isupper c \<or> isupper a \<or> isupper b) \<and>
      char_value (tolower c) \<ge> char_value (tolower a) \<and> char_value (tolower c) \<le> char_value (tolower b))"

definition same_char :: "fnm_flags \<Rightarrow> char \<Rightarrow> char \<Rightarrow> bool" where
  "same_char flags c a \<longleftrightarrow>
     c = a \<or> (fnm_nocase flags \<and> (isupper c \<or> isupper a) \<and> tolower c = tolower a)"

text \<open>
  The loop over a bracket expression; \<open>lead\<close> is the jump to \<open>leadingclosebrace\<close>,
  \<open>res\<close> is \<open>result == 0\<close>. \<open>None\<close> is the fall through to the rewind.
\<close>

function bracket_loop :: "fnm_flags \<Rightarrow> char \<Rightarrow> bool \<Rightarrow> bool \<Rightarrow> cstr \<Rightarrow> (bool \<times> cstr) option" where
  "bracket_loop flags c lead res pattern =
     (if pattern = [] then None
      else if \<not> lead \<and> hd pattern = CHR '']'' then Some (res, tl pattern)
      else
        let pattern = (if \<not> lead \<and> fnm_escape flags \<and> hd pattern = CHR 0x5C then tl pattern else pattern)
        in if pattern = [] then None
        else if \<not> lead \<and> fnm_slash flags \<and> hd pattern = CHR ''/'' then None
        else if char_at pattern 1 = CHR ''-'' \<and> char_at pattern 2 \<noteq> CHR '']'' then
          let startch = hd pattern;
              pattern = drop (if fnm_escape flags \<and> char_at pattern 2 = CHR 0x5C then 3 else 2) pattern
          in if pattern = [] \<or> fnm_slash flags \<and> hd pattern = CHR ''/'' then None
             else bracket_loop flags c False (res \<or> in_range flags c startch (hd pattern)) (tl pattern)
        else bracket_loop flags c False (res \<or> same_char flags c (hd pattern)) (tl pattern))"
  by pat_completeness auto
termination
  by (relation "measure (\<lambda>(flags, c, lead, res, pattern). length pattern)") (auto simp: Let_def diff_less_mono2 split: if_splits)

text \<open>The comparison at the end of \<open>fnmatch_ch\<close>, which does not move over a slash or the end.\<close>

definition fnmatch_literal :: "fnm_flags \<Rightarrow> cstr \<Rightarrow> cstr \<Rightarrow> bool \<times> cstr \<times> cstr" where
  "fnmatch_literal flags pattern string =
     (let c = char_at string 0; a = char_at pattern 0; res = same_char flags c a
      in if string = [] \<or> pattern = [] \<or> fnm_slash flags \<and> (c = CHR ''/'' \<or> a = CHR ''/'')
         then (res, pattern, string)
         else (res, tl pattern, tl string))"

definition fnmatch_ch :: "fnm_flags \<Rightarrow> cstr \<Rightarrow> cstr \<Rightarrow> bool \<times> cstr \<times> cstr" where
  "fnmatch_ch flags pattern string =
     (if char_at pattern 0 = CHR ''['' then
        let inner = tl pattern;
            negate = (char_at inner 0 = CHR ''!'' \<or> char_at inner 0 = CHR 0x5E);
            inner = (if negate then tl inner else inner)
        in case bracket_loop flags (char_at string 0) (char_at inner 0 = CHR '']'') False inner of
             Some (res, rest) \<Rightarrow> (res \<noteq> negate, rest, tl string)
           | None \<Rightarrow> fnmatch_literal flags pattern string
      else if char_at pattern 0 = CHR ''?'' then
        if string = [] \<or> fnm_slash flags \<and> hd string = CHR ''/'' then (False, pattern, string)
        else (True, tl pattern, tl string)
      else if fnm_escape flags \<and> char_at pattern 0 = CHR 0x5C \<and> char_at pattern 1 \<noteq> NUL then
        fnmatch_literal flags (tl pattern) string
      else fnmatch_literal flags pattern string)"

section \<open>The match\<close>

text \<open>
  Each loop returns with the pattern and the string where it left off, or the
  whole match returns \<open>APR_FNM_NOMATCH\<close>. The loops are partial functions: a
  loop that would not end has the value \<open>None\<close>.
\<close>

datatype fnm_exit = No_match | Left_off cstr cstr

text \<open>\<open>pattern\<close> stands at a slash, escaped or not.\<close>

definition at_slash :: "fnm_flags \<Rightarrow> cstr \<Rightarrow> bool" where
  "at_slash flags pattern \<longleftrightarrow>
     char_at pattern 0 = CHR ''/'' \<or>
     (fnm_escape flags \<and> char_at pattern 0 = CHR 0x5C \<and> char_at pattern 1 = CHR ''/'')"

text \<open>Groups of \<open>*\<close> and \<open>?\<close>: whether there was a \<open>*\<close>, with the pattern and the string behind.\<close>

fun skip_wild :: "cstr \<Rightarrow> bool \<Rightarrow> cstr \<Rightarrow> cstr \<Rightarrow> (bool \<times> cstr \<times> cstr) option" where
  "skip_wild strendseg wild [] string = Some (wild, [], string)"
| "skip_wild strendseg wild (a # pattern) string =
     (if a = CHR ''*'' then skip_wild strendseg True pattern string
      else if a = CHR ''?'' then
        if length string > length strendseg then skip_wild strendseg wild pattern (tl string) else None
      else Some (wild, a # pattern, string))"

text \<open>
  The number of characters the pattern needs up to the next \<open>*\<close> (then with
  \<open>True\<close>) or up to the end of the segment.
\<close>

partial_function (option) count_fixed :: "fnm_flags \<Rightarrow> cstr \<Rightarrow> nat \<Rightarrow> (nat \<times> bool) option" where
  "count_fixed flags matchptr matchlen =
     (if matchptr = [] \<or> fnm_slash flags \<and> at_slash flags matchptr then Some (matchlen, False)
      else if hd matchptr = CHR ''*'' then Some (matchlen, True)
      else if fnm_escape flags \<and> hd matchptr = CHR 0x5C \<and> char_at matchptr 1 \<noteq> NUL
        then count_fixed flags (drop 2 matchptr) (matchlen + 1)
      else if hd matchptr = CHR ''[''
        then (case fnmatch_ch flags matchptr '' '' of (_, rest, _) \<Rightarrow> count_fixed flags rest (matchlen + 1))
      else count_fixed flags (tl matchptr) (matchlen + 1))"

declare count_fixed.simps [code]

partial_function (option) match_loop ::
    "fnm_flags \<Rightarrow> cstr \<Rightarrow> bool \<Rightarrow> nat \<Rightarrow> cstr \<Rightarrow> cstr \<Rightarrow> cstr \<Rightarrow> cstr \<Rightarrow> fnm_exit option" where
  "match_loop flags strendseg wild matchlen mismatch strstartseg pattern string =
     (if pattern = [] \<or> length string \<le> length strendseg \<or> hd pattern = CHR ''*'' \<or>
         fnm_slash flags \<and> (char_at string 0 = CHR ''/'' \<or> at_slash flags pattern)
      then Some (Left_off pattern string)
      else (case fnmatch_ch flags pattern string of (matched, pattern, string) \<Rightarrow>
        if matched then match_loop flags strendseg wild matchlen mismatch strstartseg pattern string
        else if wild then
          let strstartseg = tl strstartseg
          in if length strstartseg < length strendseg + matchlen then Some No_match
             else match_loop flags strendseg wild matchlen mismatch strstartseg mismatch strstartseg
        else Some No_match))"

declare match_loop.simps [code]

partial_function (option) segment_loop :: "fnm_flags \<Rightarrow> cstr \<Rightarrow> cstr \<Rightarrow> cstr \<Rightarrow> fnm_exit option" where
  "segment_loop flags strendseg pattern string =
     (if pattern = [] \<or> length string < length strendseg \<or> length string = length strendseg \<and> hd pattern \<noteq> CHR ''*'' \<or>
         fnm_slash flags \<and> at_slash flags pattern
      then Some (Left_off pattern string)
      else (case skip_wild strendseg False pattern string of
          None \<Rightarrow> Some No_match
        | Some (wild, pattern, string) \<Rightarrow>
            Option.bind
              (if wild then
                 Option.bind (count_fixed flags pattern 0) (\<lambda>(matchlen, star).
                   if length string < length strendseg + matchlen then Some No_match
                   else if star then match_loop flags strendseg True matchlen pattern string pattern string
                   else match_loop flags strendseg False matchlen pattern string pattern
                          (drop (length string - (length strendseg + matchlen)) string))
               else match_loop flags strendseg False 0 [] [] pattern string)
              (\<lambda>r. case r of No_match \<Rightarrow> Some No_match
                 | Left_off pattern string \<Rightarrow> segment_loop flags strendseg pattern string)))"

declare segment_loop.simps [code]

text \<open>The leading period; \<open>None\<close> is \<open>APR_FNM_NOMATCH\<close>.\<close>

definition leading_period :: "fnm_flags \<Rightarrow> cstr \<Rightarrow> cstr \<Rightarrow> (cstr \<times> cstr) option" where
  "leading_period flags pattern string =
     (if fnm_period flags \<and> char_at string 0 = CHR ''.'' then
        if char_at pattern 0 = CHR ''.'' then Some (tl pattern, tl string)
        else if fnm_escape flags \<and> char_at pattern 0 = CHR 0x5C \<and> char_at pattern 1 = CHR ''.''
          then Some (drop 2 pattern, tl string)
        else None
      else Some (pattern, string))"

text \<open>\<open>strchr (string, '/')\<close> in path name mode, the end of the string otherwise.\<close>

definition segment_end :: "fnm_flags \<Rightarrow> cstr \<Rightarrow> cstr" where
  "segment_end flags string = (if fnm_slash flags then dropWhile (\<lambda>c. c \<noteq> CHR ''/'') string else [])"

text \<open>The body of the outer loop from \<open>firstsegment\<close> on, with the two tests behind the segment.\<close>

definition match_segment :: "fnm_flags \<Rightarrow> cstr \<Rightarrow> cstr \<Rightarrow> fnm_exit option" where
  "match_segment flags pattern string =
     (case leading_period flags pattern string of
        None \<Rightarrow> Some No_match
      | Some (pattern, string) \<Rightarrow>
          Option.bind (segment_loop flags (segment_end flags string) pattern string) (\<lambda>r. case r of
            No_match \<Rightarrow> Some No_match
          | Left_off pattern string \<Rightarrow>
              if string \<noteq> [] \<and> \<not> (fnm_slash flags \<and> hd string = CHR ''/'') then Some No_match
              else if pattern \<noteq> [] \<and> \<not> (fnm_slash flags \<and> at_slash flags pattern) then Some No_match
              else Some (Left_off pattern string)))"

partial_function (option) fnmatch_loop :: "fnm_flags \<Rightarrow> cstr \<Rightarrow> cstr \<Rightarrow> bool option" where
  "fnmatch_loop flags pattern string =
     (if pattern = [] \<or> string = [] then Some (string = [] \<and> pattern = [])
      else
        let pattern = (if fnm_slash flags \<and> fnm_escape flags \<and> char_at pattern 0 = CHR 0x5C \<and> char_at pattern 1 = CHR ''/''
                       then tl pattern else pattern);
            both = (fnm_slash flags \<and> char_at pattern 0 = CHR ''/'' \<and> char_at string 0 = CHR ''/'')
        in Option.bind
             (match_segment flags (if both then tl pattern else pattern) (if both then tl string else string))
             (\<lambda>r. case r of No_match \<Rightarrow> Some False | Left_off pattern string \<Rightarrow> fnmatch_loop flags pattern string))"

declare fnmatch_loop.simps [code]

definition apr_fnmatch :: "cstr \<Rightarrow> cstr \<Rightarrow> fnm_flags \<Rightarrow> bool option" where
  "apr_fnmatch pattern string flags =
     (if char_at pattern 0 = CHR ''*'' then
        Option.bind (match_segment flags pattern string)
          (\<lambda>r. case r of No_match \<Rightarrow> Some False | Left_off pattern string \<Rightarrow> fnmatch_loop flags pattern string)
      else fnmatch_loop flags pattern string)"

section \<open>Patterns without wildcards\<close>

fun test_loop :: "nat \<Rightarrow> cstr \<Rightarrow> bool" where
  "test_loop nesting [] = False"
| "test_loop nesting (a # pattern) =
     (if a = CHR ''?'' \<or> a = CHR ''*'' then True
      else if a = CHR 0x5C then (case pattern of [] \<Rightarrow> False | _ # pattern \<Rightarrow> test_loop nesting pattern)
      else if a = CHR ''['' then test_loop (nesting + 1) pattern
      else if a = CHR '']'' \<and> nesting \<noteq> 0 then True
      else test_loop nesting pattern)"

definition apr_fnmatch_test :: "cstr \<Rightarrow> bool" where
  "apr_fnmatch_test pattern = test_loop 0 pattern"

section \<open>Files that match\<close>

fun strrchr :: "cstr \<Rightarrow> char \<Rightarrow> nat option" where
  "strrchr [] c = None"
| "strrchr (a # s) c =
     (case strrchr s c of Some i \<Rightarrow> Some (Suc i) | None \<Rightarrow> if a = c then Some 0 else None)"

text \<open>
  \<open>dir\<close> is the file system: the status of \<open>apr_dir_open\<close> on a path and the names that
  \<open>apr_dir_read\<close> delivers from there.
\<close>

definition apr_match_glob ::
    "(cstr \<Rightarrow> apr_status \<times> cstr list) \<Rightarrow> cstr \<Rightarrow> apr_status \<times> cstr option array_header" where
  "apr_match_glob dir pattern =
     (let idx = (case strrchr pattern CHR ''/'' of Some i \<Rightarrow> Some i | None \<Rightarrow> strrchr pattern CHR 0x5C);
          (path, pattern) = (case idx of None \<Rightarrow> (''.'', pattern)
                                       | Some i \<Rightarrow> (the (apr_pstrndup (Some pattern) i), drop (i + 1) pattern));
          result = apr_array_make None 0
      in case dir path of (rv, names) \<Rightarrow>
        if rv \<noteq> APR_SUCCESS then (rv, result)
        else (APR_SUCCESS,
              foldl (\<lambda>result name. if apr_fnmatch pattern name 0 = Some True
                                   then array_put None result (apr_pstrdup (Some name)) else result) result names))"

section \<open>What a pattern means\<close>

text \<open>
  The reference: a pattern is parsed into pieces, and matching is defined by
  recursion over the pieces and the string, trying every length for a \<open>*\<close>.
\<close>

datatype piece = Star | AnyChar | Lit char | Class bool "(char \<times> char) list" | Slash

text \<open>
  The ranges of a bracket expression and what follows it; single characters are
  ranges. \<open>lead\<close>: at the first character, where a closing bracket is ordinary.
\<close>

definition class_item :: "fnm_flags \<Rightarrow> bool \<Rightarrow> cstr \<Rightarrow> ((char \<times> char) \<times> cstr) option" where
  "class_item flags lead p =
     (let p = (if \<not> lead \<and> fnm_escape flags \<and> p \<noteq> [] \<and> hd p = CHR 0x5C then tl p else p)
      in if p = [] \<or> \<not> lead \<and> fnm_slash flags \<and> hd p = CHR ''/'' then None
      else if char_at p 1 = CHR ''-'' \<and> char_at p 2 \<noteq> CHR '']'' then
        let q = drop (if fnm_escape flags \<and> char_at p 2 = CHR 0x5C then 3 else 2) p
        in if q = [] \<or> fnm_slash flags \<and> hd q = CHR ''/'' then None else Some ((hd p, hd q), tl q)
      else Some ((hd p, hd p), tl p))"

lemma class_item_shorter: "class_item flags lead p = Some (item, rest) \<Longrightarrow> length rest < length p"
  by (auto simp: class_item_def Let_def split: if_splits)

function class_items :: "fnm_flags \<Rightarrow> bool \<Rightarrow> cstr \<Rightarrow> ((char \<times> char) list \<times> cstr) option" where
  "class_items flags lead p =
     (if \<not> lead \<and> p \<noteq> [] \<and> hd p = CHR '']'' then Some ([], tl p)
      else (case class_item flags lead p of
          None \<Rightarrow> None
        | Some (item, rest) \<Rightarrow> map_option (\<lambda>(items, rest). (item # items, rest)) (class_items flags False rest)))"
  by pat_completeness auto
termination
  by (relation "measure (\<lambda>(flags, lead, p). length p)") (auto dest: class_item_shorter)

declare bracket_loop.simps [simp del] class_items.simps [simp del]

definition bracket_class :: "fnm_flags \<Rightarrow> cstr \<Rightarrow> (piece \<times> cstr) option" where
  "bracket_class flags p =
     (let negate = (char_at p 0 = CHR ''!'' \<or> char_at p 0 = CHR 0x5E);
          p = (if negate then tl p else p)
      in map_option (\<lambda>(items, rest). (Class negate items, rest)) (class_items flags (char_at p 0 = CHR '']'') p))"

definition next_piece :: "fnm_flags \<Rightarrow> cstr \<Rightarrow> piece \<times> cstr" where
  "next_piece flags p =
     (let a = hd p; q = tl p
      in if a = CHR ''*'' then (Star, q)
      else if a = CHR ''?'' then (AnyChar, q)
      else if fnm_slash flags \<and> a = CHR ''/'' then (Slash, q)
      else if fnm_escape flags \<and> a = CHR 0x5C \<and> char_at q 0 \<noteq> NUL
        then (if fnm_slash flags \<and> hd q = CHR ''/'' then Slash else Lit (hd q), tl q)
      else if a = CHR ''['' then (case bracket_class flags q of Some r \<Rightarrow> r | None \<Rightarrow> (Lit a, q))
      else (Lit a, q))"

lemma class_items_shorter: "class_items flags lead p = Some (items, rest) \<Longrightarrow> length rest < length p"
proof (induction flags lead p arbitrary: items rest rule: class_items.induct)
  case (1 flags lead p)
  show ?case
  proof (cases "\<not> lead \<and> p \<noteq> [] \<and> hd p = CHR '']''")
    case True
    then have "class_items flags lead p = Some ([], tl p)" by (subst class_items.simps) simp
    then show ?thesis using "1.prems" True by (cases p) auto
  next
    case False
    then obtain item r its where "class_item flags lead p = Some (item, r)" "class_items flags False r = Some (its, rest)"
      using "1.prems" by (auto simp: class_items.simps [of flags lead] simp del: not_not split: option.splits if_splits)
    then show ?thesis using "1.IH" [OF False, of "(item, r)" item r its rest] class_item_shorter by fastforce
  qed
qed

lemma next_piece_shorter: "p \<noteq> [] \<Longrightarrow> next_piece flags p = (x, q) \<Longrightarrow> length q < length p"
  by (cases p) (auto simp: next_piece_def bracket_class_def Let_def split: if_splits option.splits dest!: class_items_shorter)

function pieces :: "fnm_flags \<Rightarrow> cstr \<Rightarrow> piece list" where
  "pieces flags p = (if p = [] then [] else case next_piece flags p of (x, q) \<Rightarrow> x # pieces flags q)"
  by pat_completeness auto
termination
  by (relation "measure (\<lambda>(flags, p). length p)") (auto dest: next_piece_shorter [OF _ sym])

text \<open>Whether one character matches a piece that stands for one character.\<close>

fun piece_ok :: "fnm_flags \<Rightarrow> piece \<Rightarrow> char \<Rightarrow> bool" where
  "piece_ok flags AnyChar c = True"
| "piece_ok flags (Lit a) c = same_char flags c a"
| "piece_ok flags (Class negate items) c = ((\<exists>(a, b) \<in> set items. in_range flags c a b) \<noteq> negate)"
| "piece_ok flags _ c = False"

text \<open>
  The match of a string: no piece but a slash stands for a slash in path name
  mode, and a period at the start of a segment (\<open>start\<close>) is matched by a literal period
  only when \<open>APR_FNM_PERIOD\<close> is given.
\<close>

fun glob :: "fnm_flags \<Rightarrow> bool \<Rightarrow> piece list \<Rightarrow> cstr \<Rightarrow> bool" where
  "glob flags start [] s = (s = [])"
| "glob flags start (Star # ps) [] = glob flags False ps []"
| "glob flags start (Star # ps) (c # s) =
     (\<not> (start \<and> fnm_period flags \<and> c = CHR ''.'') \<and>
      (glob flags False ps (c # s) \<or> \<not> (fnm_slash flags \<and> c = CHR ''/'') \<and> glob flags False (Star # ps) s))"
| "glob flags start (x # ps) [] = False"
| "glob flags start (Slash # ps) (c # s) = (c = CHR ''/'' \<and> glob flags True ps s)"
| "glob flags start (x # ps) (c # s) =
     (\<not> (fnm_slash flags \<and> c = CHR ''/'') \<and>
      \<not> (start \<and> fnm_period flags \<and> c = CHR ''.'' \<and> x \<noteq> Lit CHR ''.'') \<and>
      piece_ok flags x c \<and> glob flags False ps s)"

declare pieces.simps [simp del]

end
