(* ===== verification/Apr_Fnmatch_Laws.thy ===== *)
theory Apr_Fnmatch_Laws
  imports Apr_Fnmatch
begin

text \<open>
  The shell pattern matcher against its reference: what a piece, a segment and
  the whole match do, then the properties of the three functions.
\<close>

section \<open>One piece\<close>

lemma char_value_inj: "char_value a = char_value b \<longleftrightarrow> a = b"
proof
  assume "char_value a = char_value b"
  then have "byte_of a = byte_of b" unfolding char_value_def by (rule signed_word_eqI)
  then have "(of_char a :: nat) mod 256 = of_char b mod 256"
    by (simp add: byte_of_def word_of_nat_eq_iff take_bit_eq_mod)
  then have "(of_char a :: nat) = of_char b" by simp
  then show "a = b" by (metis char_of_char)
qed simp

lemma same_char_range: "same_char flags c a = in_range flags c a a"
proof -
  have "x \<ge> y \<and> x \<le> y \<longleftrightarrow> x = y" for x y :: int by auto
  then show ?thesis by (simp add: in_range_def same_char_def char_value_inj)
qed

lemma bracket_loop_step:
  "bracket_loop flags c lead res p =
    (if \<not> lead \<and> p \<noteq> [] \<and> hd p = CHR '']'' then Some (res, tl p)
     else case class_item flags lead p of None \<Rightarrow> None
       | Some ((a, b), rest) \<Rightarrow> bracket_loop flags c False (res \<or> in_range flags c a b) rest)"
proof (cases "p = [] \<or> \<not> lead \<and> hd p = CHR '']''")
  case True
  then show ?thesis by (subst bracket_loop.simps) (auto simp: class_item_def)
next
  case False
  then have F: "(p = []) = False" "(\<not> lead \<and> hd p = CHR '']'') = False"
    "(\<not> lead \<and> p \<noteq> [] \<and> hd p = CHR '']'') = False" by auto
  define p1 where "p1 = (if \<not> lead \<and> fnm_escape flags \<and> hd p = CHR 0x5C then tl p else p)"
  define p2 where "p2 = drop (if fnm_escape flags \<and> char_at p1 2 = CHR 0x5C then 3 else 2) p1"
  have loop: "bracket_loop flags c lead res p =
      (if p1 = [] then None
       else if \<not> lead \<and> fnm_slash flags \<and> hd p1 = CHR ''/'' then None
       else if char_at p1 1 = CHR ''-'' \<and> char_at p1 2 \<noteq> CHR '']'' then
         if p2 = [] \<or> fnm_slash flags \<and> hd p2 = CHR ''/'' then None
         else bracket_loop flags c False (res \<or> in_range flags c (hd p1) (hd p2)) (tl p2)
       else bracket_loop flags c False (res \<or> same_char flags c (hd p1)) (tl p1))"
    by (subst bracket_loop.simps) (simp only: F if_False Let_def p1_def p2_def)
  have item: "class_item flags lead p =
      (if p1 = [] \<or> \<not> lead \<and> fnm_slash flags \<and> hd p1 = CHR ''/'' then None
       else if char_at p1 1 = CHR ''-'' \<and> char_at p1 2 \<noteq> CHR '']'' then
         if p2 = [] \<or> fnm_slash flags \<and> hd p2 = CHR ''/'' then None else Some ((hd p1, hd p2), tl p2)
       else Some ((hd p1, hd p1), tl p1))"
    by (simp only: class_item_def Let_def p1_def p2_def F not_False_eq_True simp_thms)
  show ?thesis
    unfolding loop item same_char_range F(3) if_False by (simp split: if_split)
qed

lemma bracket_loop_class:
  "bracket_loop flags c lead res p =
     map_option (\<lambda>(items, rest). (res \<or> (\<exists>(a, b) \<in> set items. in_range flags c a b), rest)) (class_items flags lead p)"
proof (induction flags lead p arbitrary: res rule: class_items.induct)
  case (1 flags lead p)
  note step = bracket_loop_step [of flags c lead res p]
  show ?case
  proof (cases "\<not> lead \<and> p \<noteq> [] \<and> hd p = CHR '']''")
    case True
    then have "class_items flags lead p = Some ([], tl p)" by (subst class_items.simps) simp
    then show ?thesis unfolding step using True by simp
  next
    case False
    show ?thesis
    proof (cases "class_item flags lead p")
      case None
      then show ?thesis unfolding step class_items.simps [of flags lead p] using False by simp
    next
      case (Some r)
      obtain a b rest where r: "r = ((a, b), rest)" by (metis surj_pair)
      show ?thesis
        unfolding step class_items.simps [of flags lead p] using False Some "1.IH" [OF False Some] r
        by (auto simp: option.map_comp comp_def split_def)
    qed
  qed
qed

definition single :: "piece \<Rightarrow> bool" where
  "single x \<longleftrightarrow> x \<noteq> Star \<and> x \<noteq> Slash"

text \<open>A piece for one character is what \<open>fnmatch_ch\<close> compares and moves over.\<close>

lemma fnmatch_ch_piece:
  assumes "p \<noteq> []" "next_piece flags p = (x, q)" "single x" "\<not> (fnm_slash flags \<and> c = CHR ''/'')"
  shows "fnmatch_ch flags p (c # s) = (piece_ok flags x c, q, s)"
proof -
  obtain a r where p: "p = a # r" using assms(1) by (cases p) auto
  consider (bracket) "a = CHR ''[''" | (any) "a = CHR ''?''"
    | (escape) "a = CHR 0x5C" "fnm_escape flags" "char_at r 0 \<noteq> NUL"
    | (lit) "a \<noteq> CHR ''[''" "a \<noteq> CHR ''?''" "\<not> (a = CHR 0x5C \<and> fnm_escape flags \<and> char_at r 0 \<noteq> NUL)" by blast
  then show ?thesis
  proof cases
    case bracket
    let ?neg = "char_at r 0 = CHR ''!'' \<or> char_at r 0 = CHR 0x5E"
    let ?r = "if ?neg then tl r else r"
    have np: "next_piece flags p = (case bracket_class flags r of Some r \<Rightarrow> r | None \<Rightarrow> (Lit a, r))"
      using p bracket by (auto simp: next_piece_def split: option.split)
    show ?thesis
    proof (cases "class_items flags (char_at ?r 0 = CHR '']'') ?r")
      case None
      then have "x = Lit a" "q = r" using np assms(2) by (simp_all add: bracket_class_def Let_def)
      then show ?thesis
        using None p bracket assms(4) by (simp add: fnmatch_ch_def Let_def bracket_loop_class fnmatch_literal_def)
    next
      case (Some res)
      obtain items rest where res: "res = (items, rest)" by fastforce
      then have "x = Class ?neg items" "q = rest" using np assms(2) Some by (simp_all add: bracket_class_def Let_def)
      then show ?thesis
        using Some p bracket res by (simp add: fnmatch_ch_def Let_def bracket_loop_class)
    qed
  next
    case any
    then show ?thesis using p assms by (auto simp: next_piece_def fnmatch_ch_def)
  next
    case escape
    then obtain b t where "r = b # t" by (cases r) auto
    then show ?thesis
      using p assms escape by (auto simp: next_piece_def fnmatch_ch_def fnmatch_literal_def Let_def single_def split: if_splits)
  next
    case lit
    then show ?thesis
      using p assms by (auto simp: next_piece_def fnmatch_ch_def fnmatch_literal_def Let_def single_def split: if_splits)
  qed
qed

text \<open>How the first piece shows in the pattern.\<close>

lemma pieces_Nil [simp]: "pieces flags [] = []"
  by (simp add: pieces.simps)

lemma pieces_step: "p \<noteq> [] \<Longrightarrow> next_piece flags p = (x, q) \<Longrightarrow> pieces flags p = x # pieces flags q"
  by (subst pieces.simps) simp

lemma pieces_eq_Nil [simp]: "pieces flags p = [] \<longleftrightarrow> p = []"
  by (subst pieces.simps) (simp split: prod.split)

lemma bracket_class_Class: "bracket_class flags p = Some (x, q) \<Longrightarrow> \<exists>n items. x = Class n items"
  by (auto simp: bracket_class_def Let_def)

lemma next_piece_Star: "p \<noteq> [] \<Longrightarrow> next_piece flags p = (x, q) \<Longrightarrow> x = Star \<longleftrightarrow> hd p = CHR ''*''"
  by (auto simp: next_piece_def Let_def split: if_splits option.splits dest: bracket_class_Class)

lemma next_piece_Slash:
  "p \<noteq> [] \<Longrightarrow> next_piece flags p = (x, q) \<Longrightarrow> x = Slash \<longleftrightarrow> fnm_slash flags \<and> at_slash flags p"
  by (cases p; cases "tl p") (auto simp: next_piece_def Let_def at_slash_def split: if_splits option.splits dest: bracket_class_Class)

lemma next_piece_period:
  assumes "p \<noteq> []" "next_piece flags p = (x, q)"
  shows "x = Lit CHR ''.'' \<longleftrightarrow> hd p = CHR ''.'' \<or> fnm_escape flags \<and> hd p = CHR 0x5C \<and> char_at p 1 = CHR ''.''"
    "hd p = CHR ''.'' \<Longrightarrow> q = tl p" "fnm_escape flags \<Longrightarrow> hd p = CHR 0x5C \<Longrightarrow> char_at p 1 = CHR ''.'' \<Longrightarrow> q = drop 2 p"
  using assms
  by (cases p; cases "tl p"; auto simp: next_piece_def Let_def split: if_splits option.splits dest: bracket_class_Class)+

section \<open>Segments\<close>

text \<open>The pieces of the pattern's first segment and those from the slash behind it.\<close>

definition seg_pieces :: "fnm_flags \<Rightarrow> cstr \<Rightarrow> piece list" where
  "seg_pieces flags p = takeWhile (\<lambda>x. x \<noteq> Slash) (pieces flags p)"

definition rest_pieces :: "fnm_flags \<Rightarrow> cstr \<Rightarrow> piece list" where
  "rest_pieces flags p = dropWhile (\<lambda>x. x \<noteq> Slash) (pieces flags p)"

lemma seg_step:
  assumes "p \<noteq> []" "next_piece flags p = (x, q)"
  shows "x \<noteq> Slash \<Longrightarrow> seg_pieces flags p = x # seg_pieces flags q \<and> rest_pieces flags p = rest_pieces flags q"
    "x = Slash \<Longrightarrow> seg_pieces flags p = [] \<and> rest_pieces flags p = pieces flags p"
  using pieces_step [OF assms] by (auto simp: seg_pieces_def rest_pieces_def)

lemma seg_Nil [simp]: "seg_pieces flags [] = []" "rest_pieces flags [] = []"
  by (simp_all add: seg_pieces_def rest_pieces_def)

lemma seg_eq_Nil: "seg_pieces flags p = [] \<longleftrightarrow> p = [] \<or> fnm_slash flags \<and> at_slash flags p"
proof (cases "p = []")
  case False
  obtain x q where np: "next_piece flags p = (x, q)" by fastforce
  show ?thesis using False seg_step [OF False np] next_piece_Slash [OF False np] by (cases "x = Slash") auto
qed simp

lemma count_fixed_ok:
  "count_fixed flags p n =
     Some (n + length (takeWhile single (seg_pieces flags p)), dropWhile single (seg_pieces flags p) \<noteq> [])"
proof (induction "length p" arbitrary: p n rule: less_induct)
  case less
  show ?case
  proof (cases "p = []")
    case True
    then show ?thesis by (subst count_fixed.simps) simp
  next
    case False
    obtain x q where np: "next_piece flags p = (x, q)" by fastforce
    note st = seg_step [OF False np] next_piece_Star [OF False np] next_piece_Slash [OF False np]
    have short: "length q < length p" using next_piece_shorter [OF False np] .
    show ?thesis
    proof (cases "single x")
      case True
      have "snd (snd (fnmatch_ch flags p '' '')) = [] \<and> fst (snd (fnmatch_ch flags p '' '')) = q"
        using fnmatch_ch_piece [OF False np True, of "CHR '' ''" "[]"] by simp
      moreover have "hd p = CHR ''['' \<or> (if fnm_escape flags \<and> hd p = CHR 0x5C \<and> char_at p 1 \<noteq> NUL then drop 2 p else tl p) = q"
        using np False True by (cases p; cases "tl p") (auto simp: next_piece_def Let_def single_def split: if_splits)
      ultimately have "count_fixed flags p n = count_fixed flags q (n + 1)"
        using st True False
        by (subst count_fixed.simps) (auto simp: single_def split: prod.splits if_splits)
      then show ?thesis using less [OF short, of "n + 1"] st True by (simp add: single_def)
    next
      case F: False
      then consider "x = Star" | "x = Slash" by (auto simp: single_def)
      then show ?thesis
        using st False by cases (subst count_fixed.simps, auto simp: single_def)+
    qed
  qed
qed

section \<open>Matching inside a segment\<close>

definition plain :: "fnm_flags \<Rightarrow> cstr \<Rightarrow> bool" where
  "plain flags s \<longleftrightarrow> (fnm_slash flags \<longrightarrow> CHR ''/'' \<notin> set s)"

lemma plain_simps [simp]:
  "plain flags []"
  "plain flags (c # s) \<longleftrightarrow> \<not> (fnm_slash flags \<and> c = CHR ''/'') \<and> plain flags s"
  "plain flags (s @ t) \<longleftrightarrow> plain flags s \<and> plain flags t"
  by (auto simp: plain_def)

lemma plain_drop [simp]: "plain flags s \<Longrightarrow> plain flags (drop i s)"
  by (auto simp: plain_def dest: in_set_dropD)

abbreviation seg_match :: "fnm_flags \<Rightarrow> piece list \<Rightarrow> cstr \<Rightarrow> bool" where
  "seg_match flags ps s \<equiv> glob flags False ps s"

lemma seg_match_single:
  "single x \<Longrightarrow> plain flags s \<Longrightarrow>
   seg_match flags (x # ps) s \<longleftrightarrow> s \<noteq> [] \<and> piece_ok flags x (hd s) \<and> seg_match flags ps (tl s)"
  by (cases x; cases s) (auto simp: single_def)

lemma ex_le_Suc_split: "(\<exists>i \<le> Suc n. P i) \<longleftrightarrow> P 0 \<or> (\<exists>i \<le> n. P (Suc i))"
  by (simp only: less_Suc_eq_le [symmetric] Ex_less_Suc2)

lemma seg_match_Star:
  "plain flags s \<Longrightarrow> seg_match flags (Star # ps) s \<longleftrightarrow> (\<exists>i \<le> length s. seg_match flags ps (drop i s))"
proof (induction s)
  case (Cons c s)
  then show ?case by (simp add: ex_le_Suc_split)
qed simp

lemma seg_match_Star_drop:
  "plain flags s \<Longrightarrow> seg_match flags (Star # ps) (drop j s) \<Longrightarrow> seg_match flags (Star # ps) s"
proof -
  assume s: "plain flags s" "seg_match flags (Star # ps) (drop j s)"
  then obtain i where "seg_match flags ps (drop (i + j) s)" by (auto simp: seg_match_Star)
  then have "seg_match flags ps (drop (min (i + j) (length s)) s)"
    by (cases "i + j \<le> length s") (simp_all add: min_def)
  then show ?thesis unfolding seg_match_Star [OF s(1)] using min.cobounded2 by blast
qed

lemma seg_match_Star_Star: "plain flags s \<Longrightarrow> seg_match flags (Star # Star # ps) s \<longleftrightarrow> seg_match flags (Star # ps) s"
  using seg_match_Star_drop [of flags s ps] seg_match_Star [of flags s "Star # ps"] by (metis drop0 le0)

lemma seg_match_Star_Any:
  assumes "plain flags s"
  shows "seg_match flags (Star # AnyChar # ps) s \<longleftrightarrow> s \<noteq> [] \<and> seg_match flags (Star # ps) (tl s)"
proof -
  have any: "seg_match flags (AnyChar # ps) (drop i s) \<longleftrightarrow> i < length s \<and> seg_match flags ps (drop i (tl s))" for i
    using assms seg_match_single [of AnyChar flags "drop i s" ps] by (auto simp: single_def drop_tl)
  have "(\<exists>i \<le> length s. i < length s \<and> P i) \<longleftrightarrow> s \<noteq> [] \<and> (\<exists>i \<le> length (tl s). P i)" for P
    by (cases s) (auto simp: less_Suc_eq_le intro: le_SucI)
  moreover have "plain flags (tl s)" using assms by (cases s) auto
  ultimately show ?thesis by (simp only: seg_match_Star [OF assms] seg_match_Star any)
qed

lemma seg_match_fixed:
  assumes "\<forall>x \<in> set fs. single x" "plain flags s"
  shows "seg_match flags (fs @ ps) s \<longleftrightarrow>
    length fs \<le> length s \<and> list_all2 (piece_ok flags) fs (take (length fs) s) \<and> seg_match flags ps (drop (length fs) s)"
  using assms
proof (induction fs arbitrary: s)
  case (Cons x fs)
  then show ?case by (cases s) (auto simp: seg_match_single)
qed simp

lemma seg_match_Star_end:
  assumes "\<forall>x \<in> set fs. single x" "plain flags s"
  shows "seg_match flags (Star # fs) s \<longleftrightarrow> length fs \<le> length s \<and> seg_match flags fs (drop (length s - length fs) s)"
proof -
  have len: "seg_match flags fs t \<Longrightarrow> length t = length fs" if "plain flags t" for t
    using seg_match_fixed [OF assms(1) that, of "[]"] by simp
  show ?thesis
  proof
    assume "seg_match flags (Star # fs) s"
    then obtain i where i: "i \<le> length s" "seg_match flags fs (drop i s)" using assms(2) by (auto simp: seg_match_Star)
    then have "length s - i = length fs" using len [of "drop i s"] assms(2) by simp
    then have "i = length s - length fs" "length fs \<le> length s" using i(1) by arith+
    then show "length fs \<le> length s \<and> seg_match flags fs (drop (length s - length fs) s)" using i(2) by simp
  qed (metis assms(2) diff_le_self seg_match_Star)
qed

text \<open>When the fixed pieces between two stars fit here, no later place has to be tried.\<close>

lemma seg_match_leftmost:
  assumes "\<forall>x \<in> set fs. single x" "plain flags s" "length fs \<le> length s" "list_all2 (piece_ok flags) fs (take (length fs) s)"
  shows "seg_match flags (Star # fs @ Star # qs) s \<longleftrightarrow> seg_match flags (Star # qs) (drop (length fs) s)"
proof
  assume "seg_match flags (Star # fs @ Star # qs) s"
  then obtain i where "seg_match flags (fs @ Star # qs) (drop i s)" using assms(2) by (auto simp: seg_match_Star simp del: glob.simps)
  then have "seg_match flags (Star # qs) (drop i (drop (length fs) s))"
    using assms(1,2) by (simp add: seg_match_fixed add.commute)
  then show "seg_match flags (Star # qs) (drop (length fs) s)" using seg_match_Star_drop assms(2) by simp
next
  assume "seg_match flags (Star # qs) (drop (length fs) s)"
  then have "seg_match flags (fs @ Star # qs) (drop 0 s)" using assms by (simp add: seg_match_fixed)
  then show "seg_match flags (Star # fs @ Star # qs) s" using assms(2) seg_match_Star by blast
qed

lemma seg_match_length:
  assumes "\<forall>x \<in> set fs. single x" "plain flags s" "seg_match flags (Star # fs @ ps) s"
  shows "length fs \<le> length s"
proof -
  obtain i where "i \<le> length s" "seg_match flags (fs @ ps) (drop i s)" using assms(2,3) by (auto simp: seg_match_Star simp del: glob.simps)
  then show ?thesis using assms(1,2) by (auto simp: seg_match_fixed)
qed

section \<open>The loops\<close>

text \<open>
  The string in a segment is \<open>s @ e\<close>: \<open>s\<close> lies before \<open>strendseg\<close>, which points to \<open>e\<close>.
  What a loop of the match promises: where it leaves off the same question is
  left, and it has moved over the pattern unless it stopped at once.
\<close>

abbreviation starred :: "bool \<Rightarrow> piece list \<Rightarrow> piece list" where
  "starred wild ps \<equiv> (if wild then Star # ps else ps)"

lemma skip_wild_ok:
  assumes "plain flags s"
  shows "case skip_wild e wild p (s @ e) of
      None \<Rightarrow> \<not> seg_match flags (starred wild (seg_pieces flags p)) s
    | Some (wild', p', s') \<Rightarrow> \<exists>t. s' = t @ e \<and> plain flags t \<and> rest_pieces flags p' = rest_pieces flags p \<and>
        (length p' < length p \<or> p' = p \<and> t = s \<and> wild' = wild) \<and> (p' = [] \<or> hd p' \<noteq> CHR ''*'' \<and> hd p' \<noteq> CHR ''?'') \<and>
        (seg_match flags (starred wild (seg_pieces flags p)) s \<longleftrightarrow> seg_match flags (starred wild' (seg_pieces flags p')) t)"
  using assms
proof (induction p arbitrary: wild s)
  case (Cons a p)
  consider (star) "a = CHR ''*''" | (any) "a = CHR ''?''" | (other) "a \<noteq> CHR ''*''" "a \<noteq> CHR ''?''" by blast
  then show ?case
  proof cases
    case star
    have "next_piece flags (a # p) = (Star, p)" using star by (simp add: next_piece_def)
    then have "seg_pieces flags (a # p) = Star # seg_pieces flags p" "rest_pieces flags (a # p) = rest_pieces flags p"
      using seg_step(1) by force+
    moreover have "seg_match flags (starred wild (Star # seg_pieces flags p)) s \<longleftrightarrow> seg_match flags (Star # seg_pieces flags p) s"
      using seg_match_Star_Star [OF Cons.prems] by simp
    ultimately show ?thesis
      using Cons.IH [OF Cons.prems, of True] star by (auto split: option.splits simp del: glob.simps)
  next
    case any
    have "next_piece flags (a # p) = (AnyChar, p)" using any by (simp add: next_piece_def)
    then have sp: "seg_pieces flags (a # p) = AnyChar # seg_pieces flags p" "rest_pieces flags (a # p) = rest_pieces flags p"
      using seg_step(1) by force+
    have M: "seg_match flags (starred wild (AnyChar # seg_pieces flags p)) s \<longleftrightarrow>
        s \<noteq> [] \<and> seg_match flags (starred wild (seg_pieces flags p)) (tl s)"
      using seg_match_Star_Any [OF Cons.prems] seg_match_single [OF _ Cons.prems, of AnyChar] by (simp add: single_def)
    show ?thesis
    proof (cases s)
      case (Cons c t)
      then show ?thesis
        using Cons.IH [of t wild] Cons.prems any sp M by (auto split: option.splits simp del: glob.simps)
    qed (use any sp M in simp)
  qed (use Cons.prems in auto)
qed simp

lemma match_loop_once:
  assumes "plain flags s"
  shows "\<exists>r. match_loop flags e False n mm ss p (s @ e) = Some r \<and> (case r of
      No_match \<Rightarrow> \<not> seg_match flags (seg_pieces flags p) s
    | Left_off p' s' \<Rightarrow> \<exists>t. s' = t @ e \<and> plain flags t \<and> rest_pieces flags p' = rest_pieces flags p \<and>
        (length p' < length p \<or> p' = p \<and> (p = [] \<or> s = [] \<or> hd p = CHR ''*'' \<or> fnm_slash flags \<and> at_slash flags p)) \<and>
        (seg_match flags (seg_pieces flags p) s \<longleftrightarrow> seg_match flags (seg_pieces flags p') t))"
  using assms
proof (induction s arbitrary: p)
  case (Cons c s)
  show ?case
  proof (cases "p = [] \<or> hd p = CHR ''*'' \<or> fnm_slash flags \<and> at_slash flags p")
    case True
    then show ?thesis using Cons.prems by (subst match_loop.simps) auto
  next
    case False
    then have p: "p \<noteq> []" by blast
    obtain x q where np: "next_piece flags p = (x, q)" by fastforce
    have x: "single x" using next_piece_Star [OF p np] next_piece_Slash [OF p np] False by (auto simp: single_def)
    have ch: "fnmatch_ch flags p ((c # s) @ e) = (piece_ok flags x c, q, s @ e)"
      using fnmatch_ch_piece [OF p np x, of c "s @ e"] Cons.prems by simp
    have sp: "seg_pieces flags p = x # seg_pieces flags q" "rest_pieces flags p = rest_pieces flags q"
      using seg_step(1) [OF p np] x by (auto simp: single_def)
    have step: "match_loop flags e False n mm ss p ((c # s) @ e) =
        (if piece_ok flags x c then match_loop flags e False n mm ss q (s @ e) else Some No_match)"
      using False ch Cons.prems by (subst match_loop.simps) auto
    have M: "seg_match flags (seg_pieces flags p) (c # s) \<longleftrightarrow> piece_ok flags x c \<and> seg_match flags (seg_pieces flags q) s"
      using sp seg_match_single [OF x Cons.prems] by simp
    have "plain flags s" using Cons.prems by simp
    from Cons.IH [OF this, of q] obtain r where r: "match_loop flags e False n mm ss q (s @ e) = Some r"
      "case r of No_match \<Rightarrow> \<not> seg_match flags (seg_pieces flags q) s
        | Left_off p' s' \<Rightarrow> \<exists>t. s' = t @ e \<and> plain flags t \<and> rest_pieces flags p' = rest_pieces flags q \<and>
            (length p' < length q \<or> p' = q \<and> (q = [] \<or> s = [] \<or> hd q = CHR ''*'' \<or> fnm_slash flags \<and> at_slash flags q)) \<and>
            (seg_match flags (seg_pieces flags q) s \<longleftrightarrow> seg_match flags (seg_pieces flags p') t)" by blast
    show ?thesis
    proof (cases "piece_ok flags x c")
      case True
      have "length p' < length p" if "length p' < length q \<or> p' = q" for p'
        using that next_piece_shorter [OF p np] by auto
      then show ?thesis unfolding step using True r M sp(2) by (cases r) (simp, fastforce)
    qed (use step M in simp)
  qed
qed (subst match_loop.simps, auto)

lemma match_loop_star:
  assumes "\<forall>x \<in> set fs. single x" "seg_pieces flags P = fs @ Star # qs"
  shows "plain flags S \<Longrightarrow> length fs \<le> length S \<Longrightarrow> j \<le> length fs \<Longrightarrow>
    list_all2 (piece_ok flags) (take j fs) (take j S) \<Longrightarrow> seg_pieces flags p = drop j fs @ Star # qs \<Longrightarrow>
    rest_pieces flags p = rest_pieces flags P \<Longrightarrow> length p \<le> length P \<Longrightarrow>
    \<exists>r. match_loop flags e True (length fs) P (S @ e) p (drop j S @ e) = Some r \<and> (case r of
      No_match \<Rightarrow> \<not> seg_match flags (Star # fs @ Star # qs) S
    | Left_off p' s' \<Rightarrow> \<exists>t. s' = t @ e \<and> plain flags t \<and> rest_pieces flags p' = rest_pieces flags P \<and>
        length p' \<le> length P \<and> (seg_match flags (Star # fs @ Star # qs) S \<longleftrightarrow> seg_match flags (seg_pieces flags p') t))"
proof (induction "length S * Suc (length fs) + (length fs - j)" arbitrary: S j p rule: less_induct)
  case less
  have p: "p \<noteq> []" using less.prems(5) by auto
  obtain x q where np: "next_piece flags p = (x, q)" by fastforce
  show ?case
  proof (cases "j = length fs")
    case True
    then have "seg_pieces flags p = Star # qs" using less.prems(5) by simp
    then have "hd p = CHR ''*''"
      using seg_step [OF p np] next_piece_Star [OF p np] by (cases "x = Slash") auto
    then have "match_loop flags e True (length fs) P (S @ e) p (drop j S @ e) = Some (Left_off p (drop j S @ e))"
      using p by (subst match_loop.simps) simp
    then show ?thesis
      using seg_match_leftmost [OF assms(1) less.prems(1,2)] less.prems True \<open>seg_pieces flags p = Star # qs\<close>
      by (simp del: glob.simps)
  next
    case False
    then have j: "j < length fs" "j < length S" using less.prems(2,3) by simp_all
    then have fs: "drop j fs = fs ! j # drop (Suc j) fs" and S: "drop j S = S ! j # drop (Suc j) S"
      by (simp_all add: Cons_nth_drop_Suc)
    have x: "x = fs ! j" "single x"
      using seg_step [OF p np] less.prems(5) fs assms(1) j by (cases "x = Slash"; auto)+
    have sp: "seg_pieces flags q = drop (Suc j) fs @ Star # qs" "rest_pieces flags q = rest_pieces flags P"
      using seg_step(1) [OF p np] x less.prems(5,6) fs by (auto simp: single_def)
    have c: "\<not> (fnm_slash flags \<and> S ! j = CHR ''/'')" using less.prems(1) j(2) by (metis nth_mem plain_def)
    have ch: "fnmatch_ch flags p (drop j S @ e) = (piece_ok flags x (S ! j), q, drop (Suc j) S @ e)"
      using fnmatch_ch_piece [OF p np x(2) c] S by simp
    have go: "\<not> (p = [] \<or> length (drop j S @ e) \<le> length e \<or> hd p = CHR ''*'' \<or>
         fnm_slash flags \<and> (char_at (drop j S @ e) 0 = CHR ''/'' \<or> at_slash flags p))"
      using p j next_piece_Star [OF p np] next_piece_Slash [OF p np] x(2) c S by (auto simp: single_def)
    have step: "match_loop flags e True (length fs) P (S @ e) p (drop j S @ e) =
      (if piece_ok flags x (S ! j) then match_loop flags e True (length fs) P (S @ e) q (drop (Suc j) S @ e)
       else if length (tl S) < length fs then Some No_match
       else match_loop flags e True (length fs) P (tl S @ e) P (drop 0 (tl S) @ e))"
      using j(2) unfolding match_loop.simps [of flags e True "length fs" P "S @ e" p] if_not_P [OF go] ch
      by (cases S) (simp_all add: Let_def)
    show ?thesis
    proof (cases "piece_ok flags x (S ! j)")
      case True
      have "length S * Suc (length fs) + (length fs - Suc j) < length S * Suc (length fs) + (length fs - j)" using j by simp
      moreover have "list_all2 (piece_ok flags) (take (Suc j) fs) (take (Suc j) S)"
        using less.prems(4) j x(1) True by (simp add: take_Suc_conv_app_nth list_all2_appendI)
      ultimately show ?thesis
        using less.hyps [of S "Suc j" q] less.prems(1,2,7) j sp next_piece_shorter [OF p np] step True by auto
    next
      case no: False
      obtain c T where ST: "S = c # T" using j by (cases S) auto
      have pl: "plain flags T" using less.prems(1) ST by simp
      have "\<not> list_all2 (piece_ok flags) fs (take (length fs) S)"
        using no x(1) j by (auto simp: list_all2_conv_all_nth)
      then have M: "seg_match flags (Star # fs @ Star # qs) S \<longleftrightarrow> seg_match flags (Star # fs @ Star # qs) T"
        using less.prems(1) ST seg_match_fixed [OF assms(1) less.prems(1), of "Star # qs"] by (simp del: list_all2_Cons2 take_Suc_Cons)
      show ?thesis
      proof (cases "length T < length fs")
        case True
        then have "\<not> seg_match flags (Star # fs @ Star # qs) S"
          using M seg_match_length [OF assms(1) pl, of "Star # qs"] by auto
        then show ?thesis using step no True ST by (simp del: glob.simps)
      next
        case False
        have "length T * Suc (length fs) + (length fs - 0) < length S * Suc (length fs) + (length fs - j)" using ST by simp
        then have "\<exists>r. match_loop flags e True (length fs) P (T @ e) P (drop 0 T @ e) = Some r \<and> (case r of
            No_match \<Rightarrow> \<not> seg_match flags (Star # fs @ Star # qs) T
          | Left_off p' s' \<Rightarrow> \<exists>t. s' = t @ e \<and> plain flags t \<and> rest_pieces flags p' = rest_pieces flags P \<and>
              length p' \<le> length P \<and> (seg_match flags (Star # fs @ Star # qs) T \<longleftrightarrow> seg_match flags (seg_pieces flags p') t))"
          using less.hyps [of T 0 P] pl False assms(2) by simp
        then show ?thesis using step no False ST unfolding M by (simp del: glob.simps)
      qed
    qed
  qed
qed

text \<open>The loop over a segment answers for the whole segment.\<close>

definition segment_end_ok :: "fnm_flags \<Rightarrow> cstr \<Rightarrow> bool" where
  "segment_end_ok flags e \<longleftrightarrow> e = [] \<or> fnm_slash flags \<and> hd e = CHR ''/''"

abbreviation wild_part :: "fnm_flags \<Rightarrow> cstr \<Rightarrow> bool \<Rightarrow> cstr \<Rightarrow> cstr \<Rightarrow> fnm_exit option" where
  "wild_part flags e wild p s \<equiv>
     (if wild then
        Option.bind (count_fixed flags p 0) (\<lambda>(matchlen, star).
          if length s < length e + matchlen then Some No_match
          else if star then match_loop flags e True matchlen p s p s
          else match_loop flags e False matchlen p s p (drop (length s - (length e + matchlen)) s))
      else match_loop flags e False 0 [] [] p s)"

lemma seg_pieces_singles: "\<forall>x \<in> set (takeWhile single ps). single x"
  by (auto dest: set_takeWhileD)

lemma seg_split:
  "dropWhile single (seg_pieces flags p) \<noteq> [] \<Longrightarrow>
   seg_pieces flags p = takeWhile single (seg_pieces flags p) @ Star # tl (dropWhile single (seg_pieces flags p))"
  (is "?d \<noteq> [] \<Longrightarrow> _")
proof -
  assume d: "?d \<noteq> []"
  then have "hd ?d \<in> set (seg_pieces flags p)" "\<not> single (hd ?d)"
    by (metis hd_in_set set_dropWhileD, metis hd_dropWhile)
  moreover have "Slash \<notin> set (seg_pieces flags p)" by (auto simp: seg_pieces_def dest: set_takeWhileD)
  ultimately have "hd ?d = Star" by (auto simp: single_def)
  then show ?thesis using d takeWhile_dropWhile_id [of single "seg_pieces flags p"] by (cases ?d) auto
qed

lemma wild_part_ok:
  assumes "plain flags s"
  shows "\<exists>r. wild_part flags e wild p (s @ e) = Some r \<and> (case r of
      No_match \<Rightarrow> \<not> seg_match flags (starred wild (seg_pieces flags p)) s
    | Left_off p' s' \<Rightarrow> \<exists>t. s' = t @ e \<and> plain flags t \<and> rest_pieces flags p' = rest_pieces flags p \<and>
        (length p' < length p \<or> p' = p \<or> wild \<and> length p' \<le> length p) \<and>
        (\<not> wild \<longrightarrow> length p' < length p \<or> p = [] \<or> s = [] \<or> hd p = CHR ''*'' \<or> fnm_slash flags \<and> at_slash flags p) \<and>
        (seg_match flags (starred wild (seg_pieces flags p)) s \<longleftrightarrow> seg_match flags (seg_pieces flags p') t))"
proof (cases wild)
  case False
  from match_loop_once [OF assms, of e 0 "[]" "[]" p] obtain r where
    r: "match_loop flags e False 0 [] [] p (s @ e) = Some r" and
    c: "case r of No_match \<Rightarrow> \<not> seg_match flags (seg_pieces flags p) s
    | Left_off p' s' \<Rightarrow> \<exists>t. s' = t @ e \<and> plain flags t \<and> rest_pieces flags p' = rest_pieces flags p \<and>
        (length p' < length p \<or> p' = p \<and> (p = [] \<or> s = [] \<or> hd p = CHR ''*'' \<or> fnm_slash flags \<and> at_slash flags p)) \<and>
        (seg_match flags (seg_pieces flags p) s \<longleftrightarrow> seg_match flags (seg_pieces flags p') t)" by blast
  show ?thesis using False r c by (cases r) (auto simp del: glob.simps)
next
  case True
  let ?fs = "takeWhile single (seg_pieces flags p)" and ?d = "dropWhile single (seg_pieces flags p)"
  note fs = seg_pieces_singles [of "seg_pieces flags p"]
  have sp: "seg_pieces flags p = ?fs @ ?d" by simp
  have W: "wild_part flags e wild p (s @ e) =
      (if length s < length ?fs then Some No_match
       else if ?d \<noteq> [] then match_loop flags e True (length ?fs) p (s @ e) p (s @ e)
       else match_loop flags e False (length ?fs) p (s @ e) p (drop (length s - length ?fs) s @ e))"
    using True by (simp add: count_fixed_ok)
  show ?thesis
  proof (cases "length s < length ?fs")
    case short: True
    then have "\<not> seg_match flags (Star # seg_pieces flags p) s"
      using seg_match_length [OF fs assms, of ?d] sp by (metis linorder_not_less)
    then show ?thesis using W short True by (simp del: glob.simps)
  next
    case long: False
    show ?thesis
    proof (cases "?d = []")
      case end': True
      then have all: "seg_pieces flags p = ?fs" using sp by (metis append_Nil2)
      let ?t = "drop (length s - length ?fs) s"
      have M: "seg_match flags (Star # seg_pieces flags p) s \<longleftrightarrow> seg_match flags (seg_pieces flags p) ?t"
        using seg_match_Star_end [OF fs assms] all long by simp
      have "plain flags ?t" using assms by simp
      from match_loop_once [OF this, of e "length ?fs" p "s @ e" p] obtain r where
        r: "match_loop flags e False (length ?fs) p (s @ e) p (?t @ e) = Some r" and
        c: "case r of No_match \<Rightarrow> \<not> seg_match flags (seg_pieces flags p) ?t
        | Left_off p' s' \<Rightarrow> \<exists>t. s' = t @ e \<and> plain flags t \<and> rest_pieces flags p' = rest_pieces flags p \<and>
            (length p' < length p \<or> p' = p \<and> (p = [] \<or> ?t = [] \<or> hd p = CHR ''*'' \<or> fnm_slash flags \<and> at_slash flags p)) \<and>
            (seg_match flags (seg_pieces flags p) ?t \<longleftrightarrow> seg_match flags (seg_pieces flags p') t)" by blast
      have "wild_part flags e wild p (s @ e) = Some r" using W long end' r by simp
      then show ?thesis using c M True by (cases r) (auto simp del: glob.simps)
    next
      case False
      note star = seg_split [OF False]
      have "length ?fs \<le> length s" using long by simp
      from match_loop_star [OF fs star assms this, of 0 p e] star obtain r where
        r: "match_loop flags e True (length ?fs) p (s @ e) p (s @ e) = Some r" and
        c: "case r of No_match \<Rightarrow> \<not> seg_match flags (Star # ?fs @ Star # tl ?d) s
        | Left_off p' s' \<Rightarrow> \<exists>t. s' = t @ e \<and> plain flags t \<and> rest_pieces flags p' = rest_pieces flags p \<and>
            length p' \<le> length p \<and> (seg_match flags (Star # ?fs @ Star # tl ?d) s \<longleftrightarrow> seg_match flags (seg_pieces flags p') t)"
        by auto
      have "wild_part flags e wild p (s @ e) = Some r" using W long False r by simp
      moreover have "case r of No_match \<Rightarrow> \<not> seg_match flags (Star # seg_pieces flags p) s
        | Left_off p' s' \<Rightarrow> \<exists>t. s' = t @ e \<and> plain flags t \<and> rest_pieces flags p' = rest_pieces flags p \<and>
            length p' \<le> length p \<and> (seg_match flags (Star # seg_pieces flags p) s \<longleftrightarrow> seg_match flags (seg_pieces flags p') t)"
        using c unfolding star [symmetric] .
      ultimately show ?thesis using True by (cases r) (auto simp del: glob.simps)
    qed
  qed
qed

lemma segment_loop_ok:
  assumes "plain flags s"
  shows "\<exists>r. segment_loop flags e p (s @ e) = Some r \<and> (case r of
      No_match \<Rightarrow> \<not> seg_match flags (seg_pieces flags p) s
    | Left_off p' s' \<Rightarrow> \<exists>t. s' = t @ e \<and> plain flags t \<and> rest_pieces flags p' = rest_pieces flags p \<and>
        (length p' < length p \<or> p' = p \<and> t = s) \<and>
        (seg_match flags (seg_pieces flags p) s \<longleftrightarrow> t = [] \<and> seg_pieces flags p' = []))"
  using assms
proof (induction "length p" arbitrary: p s rule: less_induct)
  case less
  let ?stop = "p = [] \<or> length (s @ e) < length e \<or> length (s @ e) = length e \<and> hd p \<noteq> CHR ''*'' \<or>
         fnm_slash flags \<and> at_slash flags p"
  show ?case
  proof (cases ?stop)
    case True
    then have "segment_loop flags e p (s @ e) = Some (Left_off p (s @ e))" by (subst segment_loop.simps) simp
    moreover have "seg_match flags (seg_pieces flags p) s \<longleftrightarrow> s = [] \<and> seg_pieces flags p = []"
    proof (cases "seg_pieces flags p = []")
      case False
      then have p: "p \<noteq> []" "\<not> (fnm_slash flags \<and> at_slash flags p)" by (simp_all add: seg_eq_Nil)
      then have s: "s = []" "hd p \<noteq> CHR ''*''" using True by auto
      obtain x q where np: "next_piece flags p = (x, q)" by fastforce
      have "x \<noteq> Star" "x \<noteq> Slash" using next_piece_Star [OF p(1) np] next_piece_Slash [OF p(1) np] p(2) s(2) by auto
      then show ?thesis using seg_step(1) [OF p(1) np] s(1) by (cases x) auto
    qed simp
    ultimately show ?thesis using less.prems by simp
  next
    case go: False
    have unfold: "segment_loop flags e p (s @ e) =
        (case skip_wild e False p (s @ e) of None \<Rightarrow> Some No_match
         | Some (wild, pattern, string) \<Rightarrow> Option.bind (wild_part flags e wild pattern string)
             (\<lambda>r. case r of No_match \<Rightarrow> Some No_match | Left_off pattern string \<Rightarrow> segment_loop flags e pattern string))"
      unfolding segment_loop.simps [of flags e p] if_not_P [OF go] ..
    note W = skip_wild_ok [OF less.prems, where e = e and wild = False and p = p]
    show ?thesis
    proof (cases "skip_wild e False p (s @ e)")
      case None
      then show ?thesis using W unfold by simp
    next
      case (Some res)
      then obtain wild p1 t1 where sw: "skip_wild e False p (s @ e) = Some (wild, p1, t1 @ e)" "plain flags t1"
          "rest_pieces flags p1 = rest_pieces flags p" "length p1 < length p \<or> p1 = p \<and> t1 = s \<and> \<not> wild"
          "p1 = [] \<or> hd p1 \<noteq> CHR ''*'' \<and> hd p1 \<noteq> CHR ''?''"
          "seg_match flags (seg_pieces flags p) s \<longleftrightarrow> seg_match flags (starred wild (seg_pieces flags p1)) t1"
        using W by (cases res) auto
      from wild_part_ok [OF sw(2), where e = e and wild = wild and p = p1] obtain r1 where
        r1: "wild_part flags e wild p1 (t1 @ e) = Some r1" and
        c1: "case r1 of No_match \<Rightarrow> \<not> seg_match flags (starred wild (seg_pieces flags p1)) t1
          | Left_off p' s' \<Rightarrow> \<exists>t. s' = t @ e \<and> plain flags t \<and> rest_pieces flags p' = rest_pieces flags p1 \<and>
              (length p' < length p1 \<or> p' = p1 \<or> wild \<and> length p' \<le> length p1) \<and>
              (\<not> wild \<longrightarrow> length p' < length p1 \<or> p1 = [] \<or> t1 = [] \<or> hd p1 = CHR ''*'' \<or> fnm_slash flags \<and> at_slash flags p1) \<and>
              (seg_match flags (starred wild (seg_pieces flags p1)) t1 \<longleftrightarrow> seg_match flags (seg_pieces flags p') t)" by blast
      have step: "segment_loop flags e p (s @ e) = (case r1 of No_match \<Rightarrow> Some No_match
          | Left_off pattern string \<Rightarrow> segment_loop flags e pattern string)"
        unfolding unfold sw(1) option.case prod.case r1 bind.bind_lunit ..
      show ?thesis
      proof (cases r1)
        case No_match
        then show ?thesis using c1 sw(6) step by simp
      next
        case (Left_off p2 s2)
        then obtain t2 where t2: "s2 = t2 @ e" "plain flags t2" "rest_pieces flags p2 = rest_pieces flags p"
            "seg_match flags (seg_pieces flags p) s \<longleftrightarrow> seg_match flags (seg_pieces flags p2) t2"
          using c1 sw(3,6) by auto
        have "length p2 < length p"
          using c1 Left_off sw(4,5) go by auto
        from less.hyps [OF this t2(2)] obtain r where r: "segment_loop flags e p2 (t2 @ e) = Some r"
          "case r of No_match \<Rightarrow> \<not> seg_match flags (seg_pieces flags p2) t2
          | Left_off p' s' \<Rightarrow> \<exists>t. s' = t @ e \<and> plain flags t \<and> rest_pieces flags p' = rest_pieces flags p2 \<and>
            (length p' < length p2 \<or> p' = p2 \<and> t = t2) \<and>
            (seg_match flags (seg_pieces flags p2) t2 \<longleftrightarrow> t = [] \<and> seg_pieces flags p' = [])" by blast
        have "segment_loop flags e p (s @ e) = Some r" using step Left_off t2(1) r(1) by simp
        then show ?thesis using r(2) t2(3,4) \<open>length p2 < length p\<close> by (cases r) auto
      qed
    qed
  qed
qed

section \<open>The whole match\<close>

lemma no_slash_pieces: "\<not> fnm_slash flags \<Longrightarrow> Slash \<notin> set (pieces flags p)"
proof (induction "length p" arbitrary: p rule: less_induct)
  case less
  show ?case
  proof (cases "p = []")
    case False
    obtain x q where np: "next_piece flags p = (x, q)" by fastforce
    then show ?thesis
      using less next_piece_shorter [OF False np] pieces_step [OF False np] next_piece_Slash [OF False np] by auto
  qed simp
qed

lemma glob_segments:
  assumes "Slash \<in> set ps \<Longrightarrow> fnm_slash flags" "plain flags s" "segment_end_ok flags e"
  shows "glob flags False ps (s @ e) \<longleftrightarrow>
    seg_match flags (takeWhile (\<lambda>x. x \<noteq> Slash) ps) s \<and> glob flags False (dropWhile (\<lambda>x. x \<noteq> Slash) ps) e"
  using assms
proof (induction ps arbitrary: s)
  case (Cons x ps)
  have IH: "plain flags t \<Longrightarrow> glob flags False ps (t @ e) \<longleftrightarrow>
    seg_match flags (takeWhile (\<lambda>x. x \<noteq> Slash) ps) t \<and> glob flags False (dropWhile (\<lambda>x. x \<noteq> Slash) ps) e" for t
    using Cons.IH Cons.prems(1,3) by simp
  have e: "e = [] \<or> (\<exists>e'. e = CHR ''/'' # e' \<and> fnm_slash flags)"
    using Cons.prems(3) by (cases e) (auto simp: segment_end_ok_def)
  show ?case
  proof (cases "x = Star")
    case True
    show ?thesis using Cons.prems(2)
    proof (induction s)
      case Nil
      have "glob flags False (Star # ps) e \<longleftrightarrow> glob flags False ps ([] @ e)" using e by auto
      then show ?case using IH [of "[]"] True by simp
    next
      case (Cons c s)
      then show ?case using IH [of "c # s"] True by auto
    qed
  next
    case False
    show ?thesis
    proof (cases "x = Slash")
      case True
      then show ?thesis using Cons.prems e by (cases s) auto
    next
      case no: False
      then have x: "single x" using False by (simp add: single_def)
      show ?thesis
      proof (cases s)
        case Nil
        then show ?thesis using e False no by (cases x) auto
      next
        case (Cons c t)
        then show ?thesis using IH [of t] Cons.prems(2) False no \<open>plain flags s\<close> by (cases x) auto
      qed
    qed
  qed
qed (auto simp: segment_end_ok_def)

definition between :: "fnm_flags \<Rightarrow> cstr \<Rightarrow> cstr \<Rightarrow> bool" where
  "between flags p s \<longleftrightarrow> (p = [] \<or> fnm_slash flags \<and> at_slash flags p) \<and> (s = [] \<or> fnm_slash flags \<and> hd s = CHR ''/'')"

lemma segment_end_split:
  obtains t where "s = t @ segment_end flags s" "plain flags t" "segment_end_ok flags (segment_end flags s)"
proof
  show "s = takeWhile (\<lambda>c. fnm_slash flags \<longrightarrow> c \<noteq> CHR ''/'') s @ segment_end flags s"
    by (simp add: segment_end_def takeWhile_eq_all_conv [THEN iffD2])
  show "plain flags (takeWhile (\<lambda>c. fnm_slash flags \<longrightarrow> c \<noteq> CHR ''/'') s)"
    by (auto simp: plain_def dest: set_takeWhileD)
  show "segment_end_ok flags (segment_end flags s)"
    using hd_dropWhile [of "\<lambda>c. c \<noteq> CHR ''/''" s] by (auto simp: segment_end_ok_def segment_end_def)
qed

lemma segment_tests:
  "\<exists>r. Option.bind (segment_loop flags (segment_end flags s) p s) (\<lambda>r. case r of
          No_match \<Rightarrow> Some No_match
        | Left_off pattern string \<Rightarrow>
            if string \<noteq> [] \<and> \<not> (fnm_slash flags \<and> hd string = CHR ''/'') then Some No_match
            else if pattern \<noteq> [] \<and> \<not> (fnm_slash flags \<and> at_slash flags pattern) then Some No_match
            else Some (Left_off pattern string)) = Some r \<and> (case r of
      No_match \<Rightarrow> \<not> glob flags False (pieces flags p) s
    | Left_off p' s' \<Rightarrow> between flags p' s' \<and> (length p' < length p \<or> p' = p \<and> s' = s) \<and>
        (glob flags False (pieces flags p) s \<longleftrightarrow> glob flags False (pieces flags p') s'))"
proof -
  let ?e = "segment_end flags s"
  obtain t where t: "s = t @ ?e" "plain flags t" "segment_end_ok flags ?e" by (rule segment_end_split)
  have G: "glob flags False (pieces flags p) s \<longleftrightarrow> seg_match flags (seg_pieces flags p) t \<and> glob flags False (rest_pieces flags p) ?e"
    using glob_segments [OF _ t(2,3), of "pieces flags p"] no_slash_pieces [of flags p]
    unfolding seg_pieces_def rest_pieces_def t(1) [symmetric] by blast
  from segment_loop_ok [OF t(2), of ?e p] obtain r where r: "segment_loop flags ?e p s = Some r"
    "case r of No_match \<Rightarrow> \<not> seg_match flags (seg_pieces flags p) t
    | Left_off p' s' \<Rightarrow> \<exists>u. s' = u @ ?e \<and> plain flags u \<and> rest_pieces flags p' = rest_pieces flags p \<and>
        (length p' < length p \<or> p' = p \<and> u = t) \<and>
        (seg_match flags (seg_pieces flags p) t \<longleftrightarrow> u = [] \<and> seg_pieces flags p' = [])"
    unfolding t(1) [symmetric] by blast
  show ?thesis
  proof (cases r)
    case No_match
    then show ?thesis using r G by simp
  next
    case (Left_off p' s')
    then obtain u where u: "s' = u @ ?e" "plain flags u" "rest_pieces flags p' = rest_pieces flags p"
        "length p' < length p \<or> p' = p \<and> u = t" "seg_match flags (seg_pieces flags p) t \<longleftrightarrow> u = [] \<and> seg_pieces flags p' = []"
      using r(2) by auto
    have s': "s' \<noteq> [] \<and> \<not> (fnm_slash flags \<and> hd s' = CHR ''/'') \<longleftrightarrow> u \<noteq> []"
      using u(1,2) t(3) by (cases u) (auto simp: segment_end_ok_def)
    have p': "p' \<noteq> [] \<and> \<not> (fnm_slash flags \<and> at_slash flags p') \<longleftrightarrow> seg_pieces flags p' \<noteq> []"
      by (auto simp: seg_eq_Nil)
    show ?thesis
    proof (cases "u = [] \<and> seg_pieces flags p' = []")
      case True
      have "rest_pieces flags p' = pieces flags p'"
        using True takeWhile_dropWhile_id [of "\<lambda>x. x \<noteq> Slash" "pieces flags p'"] unfolding seg_pieces_def rest_pieces_def
        by (metis append_Nil)
      then have "glob flags False (pieces flags p) s \<longleftrightarrow> glob flags False (pieces flags p') s'"
        using G u True by simp
      moreover have "between flags p' s'" using True u(1) t(3) by (auto simp: between_def seg_eq_Nil segment_end_ok_def)
      moreover have "length p' < length p \<or> p' = p \<and> s' = s" using u(4) unfolding u(1) by (metis t(1))
      ultimately show ?thesis unfolding r(1) Left_off bind.bind_lunit fnm_exit.case s' p' using True by simp
    next
      case False
      then show ?thesis unfolding r(1) Left_off bind.bind_lunit fnm_exit.case s' p' using G u(5) by auto
    qed
  qed
qed

lemma glob_start: "\<not> (fnm_period flags \<and> s \<noteq> [] \<and> hd s = CHR ''.'') \<Longrightarrow> glob flags True ps s = glob flags False ps s"
  by (cases ps; cases s; cases "hd ps") auto

lemma glob_hidden:
  "fnm_period flags \<Longrightarrow> glob flags True (x # ps) (CHR ''.'' # s) \<longleftrightarrow> x = Lit CHR ''.'' \<and> glob flags False ps s"
  by (cases x) (auto simp: same_char_def)

lemma leading_period_ok:
  "case leading_period flags p s of
     None \<Rightarrow> \<not> glob flags True (pieces flags p) s
   | Some (p', s') \<Rightarrow> (length p' < length p \<or> p' = p \<and> s' = s) \<and>
       (glob flags True (pieces flags p) s \<longleftrightarrow> glob flags False (pieces flags p') s')"
proof (cases "fnm_period flags \<and> char_at s 0 = CHR ''.''")
  case False
  then have "\<not> (fnm_period flags \<and> s \<noteq> [] \<and> hd s = CHR ''.'')" by (cases s) auto
  moreover have "leading_period flags p s = Some (p, s)" using False by (auto simp: leading_period_def)
  ultimately show ?thesis by (simp add: glob_start)
next
  case True
  then obtain t where s: "s = CHR ''.'' # t" by (cases s) auto
  show ?thesis
  proof (cases "p = []")
    case True
    then show ?thesis using s by (simp add: leading_period_def)
  next
    case False
    obtain x q where np: "next_piece flags p = (x, q)" by fastforce
    have c0: "char_at p 0 = hd p" using False by (cases p) auto
    show ?thesis
      using True s pieces_step [OF False np] glob_hidden [of flags x "pieces flags q" t] next_piece_period [OF False np] c0
        next_piece_shorter [OF False np]
      by (auto simp: leading_period_def)
  qed
qed

lemma match_segment_ok:
  "\<exists>r. match_segment flags p s = Some r \<and> (case r of
      No_match \<Rightarrow> \<not> glob flags True (pieces flags p) s
    | Left_off p' s' \<Rightarrow> between flags p' s' \<and> (length p' < length p \<or> p' = p \<and> s' = s) \<and>
        (glob flags True (pieces flags p) s \<longleftrightarrow> glob flags True (pieces flags p') s'))"
proof (cases "leading_period flags p s")
  case None
  then show ?thesis using leading_period_ok [of flags p s] by (simp add: match_segment_def)
next
  case (Some a)
  then obtain p1 s1 where lp: "leading_period flags p s = Some (p1, s1)" "length p1 < length p \<or> p1 = p \<and> s1 = s"
      "glob flags True (pieces flags p) s \<longleftrightarrow> glob flags False (pieces flags p1) s1"
    using leading_period_ok [of flags p s] by (cases a) auto
  have start: "glob flags True (pieces flags p') s' \<longleftrightarrow> glob flags False (pieces flags p') s'" if b: "between flags p' s'" for p' s'
    using b by (intro glob_start) (auto simp: between_def)
  from segment_tests [of flags s1 p1] obtain r where
    "match_segment flags p s = Some r" "case r of
      No_match \<Rightarrow> \<not> glob flags False (pieces flags p1) s1
    | Left_off p' s' \<Rightarrow> between flags p' s' \<and> (length p' < length p1 \<or> p' = p1 \<and> s' = s1) \<and>
        (glob flags False (pieces flags p1) s1 \<longleftrightarrow> glob flags False (pieces flags p') s')"
    unfolding match_segment_def lp(1) option.case prod.case by blast
  then show ?thesis using lp(2,3) start by (cases r) auto
qed

lemma fnmatch_loop_ok:
  "p = [] \<or> hd p \<noteq> CHR ''*'' \<Longrightarrow> fnmatch_loop flags p s = Some (glob flags True (pieces flags p) s)"
proof (induction "length p" arbitrary: p s rule: less_induct)
  case less
  show ?case
  proof (cases "p = [] \<or> s = []")
    case True
    show ?thesis
    proof (cases "p = []")
      case False
      obtain x q where np: "next_piece flags p = (x, q)" by fastforce
      have "x \<noteq> Star" using next_piece_Star [OF False np] False less.prems by simp
      then have "\<not> glob flags True (pieces flags p) []" using pieces_step [OF False np] by (cases x) auto
      then show ?thesis using True False by (subst fnmatch_loop.simps) simp
    qed (subst fnmatch_loop.simps, simp)
  next
    case False
    then have p: "p \<noteq> []" and s: "s \<noteq> []" by blast+
    obtain x q where np: "next_piece flags p = (x, q)" by fastforce
    define p1 where "p1 = (if fnm_slash flags \<and> fnm_escape flags \<and> char_at p 0 = CHR 0x5C \<and> char_at p 1 = CHR ''/''
                       then tl p else p)"
    define both where "both \<longleftrightarrow> fnm_slash flags \<and> char_at p1 0 = CHR ''/'' \<and> char_at s 0 = CHR ''/''"
    define p2 where "p2 = (if both then tl p1 else p1)"
    define s2 where "s2 = (if both then tl s else s)"
    have unfold: "fnmatch_loop flags p s = Option.bind (match_segment flags p2 s2)
        (\<lambda>r. case r of No_match \<Rightarrow> Some False | Left_off pattern string \<Rightarrow> fnmatch_loop flags pattern string)"
      unfolding fnmatch_loop.simps [of flags p] if_not_P [OF False] Let_def p1_def [symmetric] both_def [symmetric] p2_def s2_def ..
    have same: "glob flags True (pieces flags p) s \<longleftrightarrow> glob flags True (pieces flags p2) s2"
      and len: "length p2 \<le> length p" "\<not> between flags p2 s2 \<or> length p2 < length p"
    proof -
      have "(glob flags True (pieces flags p) s \<longleftrightarrow> glob flags True (pieces flags p2) s2) \<and>
          length p2 \<le> length p \<and> (\<not> between flags p2 s2 \<or> length p2 < length p)"
      proof (cases "fnm_slash flags \<and> at_slash flags p")
        case True
        then have x: "x = Slash" using next_piece_Slash [OF p np] by simp
        then have ps: "pieces flags p = Slash # pieces flags q" using pieces_step [OF p np] by simp
        have p1: "p1 = CHR ''/'' # q" "length p1 \<le> length p"
          using True np p x by (cases p; cases "tl p"; auto simp: p1_def at_slash_def next_piece_def Let_def split: if_splits)+
        have "next_piece flags p1 = (Slash, q)" using p1 True by (simp add: next_piece_def)
        then have ps1: "pieces flags p1 = Slash # pieces flags q" using pieces_step [of p1] p1 by simp
        show ?thesis
        proof (cases both)
          case True
          then show ?thesis using s p1 ps by (cases s) (auto simp: p2_def s2_def both_def)
        next
          case no: False
          then have "hd s \<noteq> CHR ''/''" using p1(1) True s by (cases s) (auto simp: both_def)
          then have "\<not> between flags p2 s2" using no s by (simp add: between_def s2_def)
          then show ?thesis using no ps ps1 p1(2) by (simp add: p2_def s2_def)
        qed
      next
        case no: False
        then have "p1 = p" "\<not> both" by (auto simp: p1_def both_def at_slash_def)
        then show ?thesis using no p by (auto simp: p2_def s2_def between_def)
      qed
      then show "glob flags True (pieces flags p) s \<longleftrightarrow> glob flags True (pieces flags p2) s2"
        "length p2 \<le> length p" "\<not> between flags p2 s2 \<or> length p2 < length p" by blast+
    qed
    from match_segment_ok [of flags p2 s2] obtain r where r: "match_segment flags p2 s2 = Some r" "case r of
        No_match \<Rightarrow> \<not> glob flags True (pieces flags p2) s2
      | Left_off p' s' \<Rightarrow> between flags p' s' \<and> (length p' < length p2 \<or> p' = p2 \<and> s' = s2) \<and>
          (glob flags True (pieces flags p2) s2 \<longleftrightarrow> glob flags True (pieces flags p') s')" by blast
    show ?thesis
    proof (cases r)
      case No_match
      then show ?thesis using r same unfold by simp
    next
      case (Left_off p' s')
      then have "length p' < length p" "between flags p' s'" using r(2) len by auto
      moreover from this have "p' = [] \<or> hd p' \<noteq> CHR ''*''" by (cases p') (auto simp: between_def at_slash_def)
      ultimately have "fnmatch_loop flags p' s' = Some (glob flags True (pieces flags p') s')" using less.hyps by blast
      then show ?thesis using r Left_off same unfold by simp
    qed
  qed
qed

text \<open>
  C5. \<open>apr_fnmatch\<close> returns on every pattern and string, under every combination
  of flags, and returns 0 exactly when the string matches the pattern's pieces in the
  reference: the scan that tries the leftmost place for the text between two
  stars and only the last place behind the final one decides what trying every
  length for every star does, segment by segment in path name mode.
\<close>

theorem apr_fnmatch_decides_glob: "apr_fnmatch p s flags = Some (glob flags True (pieces flags p) s)"
proof (cases "char_at p 0 = CHR ''*''")
  case True
  from match_segment_ok [of flags p s] obtain r where r: "match_segment flags p s = Some r" "case r of
      No_match \<Rightarrow> \<not> glob flags True (pieces flags p) s
    | Left_off p' s' \<Rightarrow> between flags p' s' \<and> (length p' < length p \<or> p' = p \<and> s' = s) \<and>
        (glob flags True (pieces flags p) s \<longleftrightarrow> glob flags True (pieces flags p') s')" by blast
  show ?thesis
  proof (cases r)
    case (Left_off p' s')
    then have "p' = [] \<or> hd p' \<noteq> CHR ''*''" using r(2) by (cases p') (auto simp: between_def at_slash_def)
    then show ?thesis using True r Left_off fnmatch_loop_ok [of p' flags s'] by (simp add: apr_fnmatch_def)
  qed (use True r in \<open>simp add: apr_fnmatch_def\<close>)
next
  case False
  then have "p = [] \<or> hd p \<noteq> CHR ''*''" by (cases p) auto
  then show ?thesis using False fnmatch_loop_ok by (simp add: apr_fnmatch_def)
qed

section \<open>Patterns without wildcards\<close>

lemma flags_0 [simp]: "fnm_escape 0" "\<not> fnm_slash 0" "\<not> fnm_period 0" "\<not> fnm_nocase 0"
  by (simp_all add: fnm_escape_def fnm_slash_def fnm_period_def fnm_nocase_def)

lemma test_item:
  assumes "class_item 0 False p = Some (item, rest)" "\<not> test_loop (Suc n) p" "hd p \<noteq> CHR '']''"
  shows "\<exists>m. \<not> test_loop (Suc m) rest"
proof -
  define p1 where "p1 = (if p \<noteq> [] \<and> hd p = CHR 0x5C then tl p else p)"
  have ci: "class_item 0 False p =
      (if p1 = [] then None
       else if char_at p1 1 = CHR ''-'' \<and> char_at p1 2 \<noteq> CHR '']'' then
         let q = drop (if char_at p1 2 = CHR 0x5C then 3 else 2) p1 in if q = [] then None else Some ((hd p1, hd q), tl q)
       else Some ((hd p1, hd p1), tl p1))"
    by (simp only: class_item_def p1_def Let_def flags_0 simp_thms not_False_eq_True)
  have p: "p \<noteq> []" "p1 \<noteq> []" using assms(1) unfolding ci by (auto simp: p1_def split: if_splits)
  then obtain a q where q: "p1 = a # q" by (cases p1) auto
  have t: "\<exists>m. \<not> test_loop (Suc m) q"
    using assms(2,3) p q by (cases p) (auto simp: p1_def split: if_splits)
  show ?thesis
  proof (cases "char_at p1 1 = CHR ''-'' \<and> char_at p1 2 \<noteq> CHR '']''")
    case False
    then have "rest = q" using assms(1) q unfolding ci if_not_P [OF False] by simp
    then show ?thesis using t by simp
  next
    case True
    then obtain r where r: "q = CHR ''-'' # r" using q by (cases q) auto
    then obtain m where m: "\<not> test_loop (Suc m) r" using t by auto
    have "rest = (if char_at r 0 = CHR 0x5C then drop 2 r else tl r)" "r \<noteq> []" "char_at r 0 = CHR 0x5C \<Longrightarrow> tl r \<noteq> []"
      using assms(1) q r unfolding ci if_P [OF True] by (auto simp: Let_def numeral_eq_Suc drop_Suc tl_drop split: if_splits)
    moreover have "char_at r 0 \<noteq> CHR '']''" using True q r by (simp add: numeral_eq_Suc)
    ultimately show ?thesis using m by (cases r; cases "tl r") (auto split: if_splits)
  qed
qed

lemma test_class: "class_items 0 False p = Some (items, rest) \<Longrightarrow> test_loop (Suc n) p"
proof (induction "length p" arbitrary: p n items rule: less_induct)
  case less
  show ?case
  proof (cases "p \<noteq> [] \<and> hd p = CHR '']''")
    case True
    then show ?thesis by (cases p) auto
  next
    case False
    then obtain item r its where it: "class_item 0 False p = Some (item, r)" "class_items 0 False r = Some (its, rest)"
      using less.prems by (subst (asm) class_items.simps) (auto split: option.splits)
    have "p \<noteq> []" using it(1) by (auto simp: class_item_def)
    show ?thesis
    proof (rule ccontr)
      assume "\<not> test_loop (Suc n) p"
      then obtain m where "\<not> test_loop (Suc m) r" using test_item [OF it(1)] False \<open>p \<noteq> []\<close> by blast
      then show False using less.hyps [OF class_item_shorter [OF it(1)] it(2)] by blast
    qed
  qed
qed

definition lit_char :: "piece \<Rightarrow> char" where
  "lit_char x = (case x of Lit c \<Rightarrow> c | _ \<Rightarrow> NUL)"

lemma test_pieces: "\<not> test_loop n p \<Longrightarrow> pieces 0 p = map (\<lambda>c. Lit c) (map lit_char (pieces 0 p))"
proof (induction "length p" arbitrary: p n rule: less_induct)
  case less
  show ?case
  proof (cases p)
    case (Cons a q)
    then have p: "p \<noteq> []" by simp
    obtain x r where np: "next_piece 0 p = (x, r)" by fastforce
    have "(\<exists>c. x = Lit c) \<and> (\<exists>m. \<not> test_loop m r)"
    proof (cases "a = CHR ''[''")
      case True
      have "bracket_class 0 q = None"
      proof (rule ccontr)
        assume some: "bracket_class 0 q \<noteq> None"
        define neg where "neg \<longleftrightarrow> char_at q 0 = CHR ''!'' \<or> char_at q 0 = CHR 0x5E"
        define q1 where "q1 = (if neg then tl q else q)"
        obtain items rest where ci: "class_items 0 (char_at q1 0 = CHR '']'') q1 = Some (items, rest)"
          using some by (auto simp: bracket_class_def Let_def neg_def [symmetric] q1_def [symmetric])
        have "\<not> test_loop (Suc n) q" using less.prems Cons True by simp
        then have t1: "\<not> test_loop (Suc n) q1"
          by (cases q) (auto simp: q1_def neg_def split: if_splits)
        moreover have "char_at q1 0 \<noteq> CHR '']''" using t1 by (cases q1) auto
        ultimately show False using ci test_class by auto
      qed
      then show ?thesis using np Cons True less.prems by (auto simp: next_piece_def intro!: exI [of _ "Suc n"])
    next
      case no: False
      then have bs: "a \<noteq> CHR ''?''" "a \<noteq> CHR ''*''" using less.prems Cons by auto
      show ?thesis
      proof (cases "a = CHR 0x5C")
        case True
        then show ?thesis using np Cons less.prems by (cases q) (auto simp: next_piece_def Let_def split: if_splits)
      next
        case False
        then have "x = Lit a" "r = q" using np Cons no bs by (simp_all add: next_piece_def)
        then show ?thesis using less.prems Cons no bs False by (auto split: if_splits)
      qed
    qed
    then show ?thesis
      using less.hyps [of r] next_piece_shorter [OF p np] pieces_step [OF p np] by (auto simp: lit_char_def)
  qed simp
qed

lemma glob_literals: "glob 0 start (map (\<lambda>c. Lit c) t) s \<longleftrightarrow> s = t"
proof (induction t arbitrary: s start)
  case (Cons c t)
  then show ?case by (cases s) (auto simp: same_char_def)
qed simp

text \<open>
  A pattern in which \<open>apr_fnmatch_test\<close> finds no glob character matches one
  string only, its text with the escapes taken away, so it may be used as a name.
\<close>

theorem apr_fnmatch_test_literal:
  assumes "\<not> apr_fnmatch_test p"
  shows "apr_fnmatch p s 0 = Some (s = map lit_char (pieces 0 p))"
proof -
  have "glob 0 True (pieces 0 p) s \<longleftrightarrow> s = map lit_char (pieces 0 p)"
    using test_pieces [OF assms [unfolded apr_fnmatch_test_def]] glob_literals [of True "map lit_char (pieces 0 p)" s] by simp
  then show ?thesis unfolding apr_fnmatch_decides_glob by simp
qed

lemma apr_fnmatch_test_literal_witness:
  "\<not> apr_fnmatch_test ''a[b'' \<and> apr_fnmatch ''a[b'' ''a[b'' 0 = Some True \<and> apr_fnmatch ''a[b'' ''ab'' 0 = Some False"
proof -
  have t: "\<not> apr_fnmatch_test ''a[b''" by (simp add: apr_fnmatch_test_def)
  have "class_item 0 False ''b'' = Some ((CHR ''b'', CHR ''b''), [])" "class_items 0 False [] = None"
    by (simp add: class_item_def char_at_def, subst class_items.simps, simp add: class_item_def)
  then have "class_items 0 False ''b'' = None" by (subst class_items.simps) simp
  then have "map lit_char (pieces 0 ''a[b'') = ''a[b''"
    by (simp add: pieces.simps next_piece_def bracket_class_def lit_char_def Let_def)
  then show ?thesis using t apr_fnmatch_test_literal [OF t, of "''a[b''"] apr_fnmatch_test_literal [OF t, of "''ab''"] by simp
qed

text \<open>
  \<open>apr_match_glob\<close> lists, in the order of the directory, the names there that
  match the last component of the pattern, and passes the error of a directory that
  cannot be opened on with an empty list. The part before the last slash (or,
  without a slash, before the last backslash) is the directory.
\<close>

theorem apr_match_glob_lists:
  "let cut = (case strrchr pattern CHR ''/'' of Some i \<Rightarrow> Some i | None \<Rightarrow> strrchr pattern CHR 0x5C);
       path = (case cut of None \<Rightarrow> ''.'' | Some i \<Rightarrow> take i pattern);
       name_part = (case cut of None \<Rightarrow> pattern | Some i \<Rightarrow> drop (i + 1) pattern)
   in case apr_match_glob dir pattern of (rv, result) \<Rightarrow>
        rv = fst (dir path) \<and> array_ok result \<and>
        array_list result = (if rv = APR_SUCCESS
          then map Some (filter (glob 0 True (pieces 0 name_part)) (snd (dir path))) else [])"
proof -
  let ?cut = "case strrchr pattern CHR ''/'' of Some i \<Rightarrow> Some i | None \<Rightarrow> strrchr pattern CHR 0x5C"
  let ?path = "case ?cut of None \<Rightarrow> ''.'' | Some i \<Rightarrow> take i pattern"
  let ?pat = "case ?cut of None \<Rightarrow> pattern | Some i \<Rightarrow> drop (i + 1) pattern"
  let ?step = "\<lambda>result name. if glob 0 True (pieces 0 ?pat) name then array_put None result (Some name) else result"
  have fold: "array_ok r \<Longrightarrow> array_ok (foldl ?step r names) \<and>
      array_list (foldl ?step r names) = array_list r @ map Some (filter (glob 0 True (pieces 0 ?pat)) names)" for r names
    by (induction names arbitrary: r) (auto simp: array_put_ok)
  have "apr_match_glob dir pattern =
      (case dir ?path of (rv, names) \<Rightarrow> if rv \<noteq> APR_SUCCESS then (rv, apr_array_make None 0)
       else (APR_SUCCESS, foldl ?step (apr_array_make None 0) names))"
    unfolding apr_match_glob_def Let_def apr_pstrndup_eq apr_fnmatch_decides_glob apr_pstrdup_id option.inject simp_thms
      Suc_eq_plus1 [symmetric]
    by (simp split: option.split)
  then show ?thesis using fold [of "apr_array_make None 0" "snd (dir ?path)"]
    by (auto simp: Let_def split: prod.split)
qed

end
