(* ===== verification/Apr_Numbers.thy ===== *)
theory Apr_Numbers
  imports Apr_Strings "HOL-Library.Signed_Division"
begin

unbundle bit_operations_syntax

text \<open>
  Numbers as strings (\<open>srclib/apr/strings/apr_strings.c\<close>): \<open>apr_strtoi64\<close> as it is compiled where
  the C library has no \<open>strtoll\<close>, and the functions that print integers. 64-bit integers are words read as
  signed; arithmetic that overflows wraps, which the tests of \<open>apr_strtoi64\<close> count on.
\<close>

section \<open>Parsing\<close>

datatype strto_errno = No_error | EINVAL | ERANGE

text \<open>The value of a digit or letter; \<open>None\<close> for any other character, at which the loop breaks.\<close>

definition digit_value :: "char \<Rightarrow> nat option" where
  "digit_value c =
     (let n = of_char c :: nat
      in if 48 \<le> n \<and> n \<le> 57 then Some (n - 48)
         else if 65 \<le> n \<and> n \<le> 90 then Some (n - 55)
         else if 97 \<le> n \<and> n \<le> 122 then Some (n - 87)
         else None)"

text \<open>
  The loop over the digits: the rest of the string, then \<open>acc\<close>, \<open>val\<close>, \<open>any\<close> and the
  number of characters read.
\<close>

fun strto_loop :: "int \<Rightarrow> bool \<Rightarrow> cstr \<Rightarrow> 64 word \<Rightarrow> 64 word \<Rightarrow> int \<Rightarrow> nat \<Rightarrow> 64 word \<times> int \<times> nat" where
  "strto_loop base neg [] acc val any i = (acc, any, i)"
| "strto_loop base neg (c # s) acc val any i =
     (case digit_value c of
        None \<Rightarrow> (acc, any, i)
      | Some d \<Rightarrow>
          if int d \<ge> base then (acc, any, i)
          else
            let val = val * word_of_int base;
                val' = (if neg then val - of_nat d else val + of_nat d)
            in if any < 0 then strto_loop base neg s acc val (- 1) (Suc i)
               else if neg \<and> acc <s val \<or> \<not> neg \<and> val <s acc then strto_loop base neg s acc val (- 1) (Suc i)
               else if neg \<and> acc <s val' \<or> \<not> neg \<and> val' <s acc then strto_loop base neg s acc val' (- 1) (Suc i)
               else strto_loop base neg s val' val' 1 (Suc i))"

definition skip_space :: "cstr \<Rightarrow> nat" where
  "skip_space s = length (takeWhile apr_isspace s)"

text \<open>The position behind the white space, the sign and the prefix, the sign, and the base to use.\<close>

definition strto_prefix :: "cstr \<Rightarrow> int \<Rightarrow> nat \<times> bool \<times> int" where
  "strto_prefix s base =
     (let i = skip_space s;
          neg = (char_at s i = CHR ''-'');
          i = (if neg \<or> char_at s i = CHR ''+'' then i + 1 else i);
          hex = ((base = 0 \<or> base = 16) \<and> char_at s i = CHR ''0'' \<and>
            (char_at s (i + 1) = CHR ''x'' \<or> char_at s (i + 1) = CHR ''X''));
          i = (if hex then i + 2 else i);
          base = (if hex then 16 else base)
      in (i, neg, if base = 0 then (if char_at s i = CHR ''0'' then 8 else 10) else base))"

text \<open>The value, \<open>errno\<close>, and the offset that \<open>endptr\<close> is set to.\<close>

definition apr_strtoi64 :: "cstr \<Rightarrow> int \<Rightarrow> int \<times> strto_errno \<times> nat" where
  "apr_strtoi64 s base =
     (let (i, neg, base) = strto_prefix s base
      in if base < 2 \<or> base > 36 then (0, EINVAL, 0)
         else
           let (acc, any, i) = strto_loop base neg (drop i s) 0 0 0 i;
               val = (if any < 0 then (if neg then - (2 ^ 63) else 2 ^ 63 - 1) else sint acc);
               err = (if any < 0 then ERANGE else if any = 0 then EINVAL else No_error)
           in (val, err, if any \<noteq> 0 then i else 0))"

definition apr_atoi64 :: "cstr \<Rightarrow> int \<times> strto_errno" where
  "apr_atoi64 buf = (case apr_strtoi64 buf 10 of (val, err, endptr) \<Rightarrow> (val, err))"

section \<open>Printing\<close>

text \<open>\<open>do { *--start = '0' + (n % 10); n /= 10; } while (n);\<close> in front of \<open>start\<close>.\<close>

function put_digits :: "int \<Rightarrow> cstr \<Rightarrow> cstr" where
  "put_digits n start =
     (let start = char_of (nat (48 + n smod 10)) # start;
          n = n sdiv 10
      in if n \<noteq> 0 then put_digits n start else start)"
  by pat_completeness auto
termination
  by (relation "measure (\<lambda>(n, start). nat \<bar>n\<bar>)") (auto simp: signed_divide_int_def sgn_if abs_mult)

declare put_digits.simps [simp del]

text \<open>The common body, for an integer of \<open>bits + 1\<close> bits; \<open>- n\<close> wraps.\<close>

definition print_int :: "nat \<Rightarrow> int \<Rightarrow> cstr" where
  "print_int bits n =
     (let negative = (n < 0);
          n = (if n < 0 then signed_take_bit bits (- n) else n);
          start = put_digits n []
      in if negative then CHR ''-'' # start else start)"

definition apr_itoa :: "int \<Rightarrow> cstr" where
  "apr_itoa n = print_int 31 n"

definition apr_ltoa :: "int \<Rightarrow> cstr" where
  "apr_ltoa n = print_int 63 n"

definition apr_off_t_toa :: "int \<Rightarrow> cstr" where
  "apr_off_t_toa n = print_int 63 n"

section \<open>The value of a string of digits\<close>

definition digits_of :: "int \<Rightarrow> cstr \<Rightarrow> bool" where
  "digits_of base ds \<longleftrightarrow> list_all (\<lambda>c. case digit_value c of None \<Rightarrow> False | Some d \<Rightarrow> int d < base) ds"

fun digits_value :: "int \<Rightarrow> int \<Rightarrow> cstr \<Rightarrow> int" where
  "digits_value base v [] = v"
| "digits_value base v (c # ds) = digits_value base (v * base + int (the (digit_value c))) ds"

lemma digits_of_simps [simp]:
  "digits_of base []"
  "digits_of base (c # ds) \<longleftrightarrow> (\<exists>d. digit_value c = Some d \<and> int d < base) \<and> digits_of base ds"
  by (auto simp: digits_of_def split: option.splits)

lemma digits_value_mono: "0 \<le> v \<Longrightarrow> 1 \<le> base \<Longrightarrow> v \<le> digits_value base v ds"
proof (induction ds arbitrary: v)
  case (Cons c ds)
  let ?w = "v * base + int (the (digit_value c))"
  have "v \<le> v * base" using Cons.prems by (simp add: mult_le_cancel_left1)
  then have "v \<le> ?w" by simp
  also have "\<dots> \<le> digits_value base ?w ds" using Cons.prems \<open>v \<le> ?w\<close> by (intro Cons.IH) simp_all
  finally show ?case by simp
qed simp

lemma sint_small: "- (2 ^ 63) \<le> x \<Longrightarrow> x < 2 ^ 63 \<Longrightarrow> sint (word_of_int x :: 64 word) = x"
  by (simp add: signed_of_int signed_take_bit_int_eq_self)

text \<open>As long as the value fits no test of the loop fires.\<close>

lemma strto_loop_value:
  assumes "digits_of base ds" "2 \<le> base" "0 \<le> v" "0 \<le> any" "acc = word_of_int (if neg then - v else v)"
    "digits_value base v ds \<le> (if neg then 2 ^ 63 else 2 ^ 63 - 1)"
  shows "strto_loop base neg ds acc acc any i =
    (word_of_int (if neg then - digits_value base v ds else digits_value base v ds), if ds = [] then any else 1, i + length ds)"
  using assms
proof (induction ds arbitrary: v acc any i)
  case (Cons c ds)
  from Cons.prems(1) obtain d where d: "digit_value c = Some d" "int d < base" "digits_of base ds" by auto
  let ?w = "v * base + int d"
  have vb: "v \<le> v * base" using Cons.prems(2,3) by (simp add: mult_le_cancel_left1)
  have w0: "0 \<le> ?w" using vb Cons.prems(3) by simp
  have wle: "?w \<le> (if neg then 2 ^ 63 else 2 ^ 63 - 1)"
    using digits_value_mono [OF w0, of base ds] Cons.prems(2,6) d(1) by simp
  define sg where "sg = (\<lambda>x :: int. if neg then - x else x)"
  have acc: "sint acc = sg v" unfolding Cons.prems(5) sg_def using vb wle Cons.prems(3) by (intro sint_small) (auto split: if_splits)
  have val: "acc * word_of_int base = word_of_int (sg (v * base))" by (simp add: Cons.prems(5) sg_def)
  have val': "(if neg then acc * word_of_int base - of_nat d else acc * word_of_int base + of_nat d) = word_of_int (sg ?w)"
    unfolding val by (simp add: sg_def algebra_simps)
  have s1: "sint (word_of_int (sg (v * base)) :: 64 word) = sg (v * base)"
    unfolding sg_def using vb wle Cons.prems(3) by (intro sint_small) (auto split: if_splits)
  have s2: "sint (word_of_int (sg ?w) :: 64 word) = sg ?w"
    unfolding sg_def using wle w0 by (intro sint_small) (auto split: if_splits)
  have t1: "\<not> (neg \<and> acc <s acc * word_of_int base \<or> \<not> neg \<and> acc * word_of_int base <s acc)"
    unfolding word_sless_alt val s1 acc using vb by (simp add: sg_def)
  have t2: "\<not> (neg \<and> acc <s word_of_int (sg ?w) \<or> \<not> neg \<and> word_of_int (sg ?w) <s acc)"
    unfolding word_sless_alt s2 acc using vb by (simp add: sg_def)
  have "strto_loop base neg (c # ds) acc acc any i = strto_loop base neg ds (word_of_int (sg ?w)) (word_of_int (sg ?w)) 1 (Suc i)"
    using d(1,2) Cons.prems(4) t1 t2 by (simp only: strto_loop.simps option.case Let_def val' not_le [symmetric] if_False) simp
  also have "\<dots> = (word_of_int (sg (digits_value base ?w ds)), 1, Suc i + length ds)"
    using Cons.IH [OF d(3) Cons.prems(2) w0, of 1 "word_of_int (sg ?w)" "Suc i"] Cons.prems(6) d(1) by (simp add: sg_def)
  finally show ?case using d(1) by (simp add: sg_def)
qed simp

section \<open>What is printed\<close>

lemma digits_value_append: "digits_value base v (ds @ es) = digits_value base (digits_value base v ds) es"
  by (induction ds arbitrary: v) simp_all

definition decimal :: "char \<Rightarrow> bool" where
  "decimal c \<longleftrightarrow> 48 \<le> (of_char c :: nat) \<and> (of_char c :: nat) \<le> 57"

lemma decimal_digit:
  assumes "0 \<le> k" "k < 10"
  shows "decimal (char_of (nat (48 + k)))" "digit_value (char_of (nat (48 + k))) = Some (nat k)"
  using assms by (auto simp: decimal_def digit_value_def nat_add_distrib Let_def)

lemma decimal_value: "decimal c \<Longrightarrow> \<exists>d. digit_value c = Some d \<and> int d < 10"
  by (auto simp: decimal_def digit_value_def)

lemma decimals: "list_all decimal ds \<Longrightarrow> digits_of 10 ds"
  by (induction ds) (auto dest: decimal_value)

lemma put_digits_ok:
  assumes "0 \<le> n" "n < 10 ^ k" "1 \<le> k"
  shows "\<exists>ds. (\<forall>start. put_digits n start = ds @ start) \<and> ds \<noteq> [] \<and> list_all decimal ds \<and> digits_value 10 0 ds = n \<and>
    length ds \<le> k"
  using assms
proof (induction k arbitrary: n)
  case (Suc k)
  let ?c = "char_of (nat (48 + n mod 10)) :: char"
  have sd: "n smod 10 = n mod 10" "n sdiv 10 = n div 10"
    using Suc.prems(1) by (simp_all add: signed_divide_int_def signed_modulo_int_def sgn_if mod_eq_0_iff_dvd minus_div_mult_eq_mod)
  have unfold: "put_digits n start = (if n div 10 \<noteq> 0 then put_digits (n div 10) (?c # start) else ?c # start)" for start
    by (subst put_digits.simps) (simp add: sd Let_def)
  have c: "decimal ?c" "digit_value ?c = Some (nat (n mod 10))" using decimal_digit [of "n mod 10"] by simp_all
  show ?case
  proof (cases "n div 10 = 0")
    case True
    then have "n < 10" using Suc.prems(1) by (auto simp: zdiv_eq_0_iff)
    then have "n = n mod 10" using Suc.prems(1) by (simp add: mod_pos_pos_trivial)
    then show ?thesis using c unfold True Suc.prems(1) by (intro exI [of _ "[?c]"]) simp
  next
    case False
    then have "k \<noteq> 0" using Suc.prems by (cases k) (auto simp: zdiv_eq_0_iff)
    moreover have "n div 10 < 10 ^ k" using Suc.prems(2) by (simp add: div_less_iff_less_mult)
    ultimately obtain ds where ds: "\<forall>start. put_digits (n div 10) start = ds @ start" "ds \<noteq> []" "list_all decimal ds"
      "digits_value 10 0 ds = n div 10" "length ds \<le> k"
      using Suc.IH [of "n div 10"] pos_imp_zdiv_nonneg_iff [of 10 n] Suc.prems(1) by auto
    then show ?thesis
      using c unfold False Suc.prems(1) by (intro exI [of _ "ds @ [?c]"]) (simp add: digits_value_append)
  qed
qed simp

lemma print_int_ok:
  assumes "\<bar>n\<bar> < 2 ^ bits" "bits \<le> 63" "2 ^ bits \<le> (10 :: int) ^ k" "1 \<le> k"
  shows "\<exists>ds. print_int bits n = (if n < 0 then CHR ''-'' # ds else ds) \<and> ds \<noteq> [] \<and> list_all decimal ds \<and>
    digits_value 10 0 ds = \<bar>n\<bar> \<and> length ds \<le> k"
proof -
  have "signed_take_bit bits (- n) = - n" if "n < 0"
    using assms(1) that by (intro signed_take_bit_int_eq_self) auto
  then have "print_int bits n = (if n < 0 then CHR ''-'' # put_digits \<bar>n\<bar> [] else put_digits \<bar>n\<bar> [])"
    by (simp add: print_int_def Let_def)
  moreover obtain ds where "\<forall>start. put_digits \<bar>n\<bar> start = ds @ start" "ds \<noteq> []" "list_all decimal ds"
    "digits_value 10 0 ds = \<bar>n\<bar>" "length ds \<le> k"
    using put_digits_ok [of "\<bar>n\<bar>" k] assms by auto
  ultimately show ?thesis by auto
qed

text \<open>Parsing a string of decimal digits with or without a minus sign.\<close>

lemma decimal_cases: "decimal c \<Longrightarrow> c \<noteq> CHR ''-'' \<and> c \<noteq> CHR ''+'' \<and> \<not> apr_isspace c"
  by (auto simp: decimal_def apr_isspace_def)

lemma atoi64_decimal:
  assumes "list_all decimal ds" "ds \<noteq> []" "digits_value 10 0 ds = v" "v < 2 ^ 63"
  shows "apr_atoi64 (if neg then CHR ''-'' # ds else ds) = (if neg then - v else v, No_error)"
proof -
  obtain c cs where cs: "ds = c # cs" "decimal c" using assms(1,2) by (cases ds) auto
  have pre: "strto_prefix (if neg then CHR ''-'' # ds else ds) 10 = (if neg then 1 else 0, neg, 10)"
    using decimal_cases [OF cs(2)] by (auto simp: strto_prefix_def skip_space_def cs(1) apr_isspace_def Let_def)
  have v0: "0 \<le> v" using digits_value_mono [of 0 10 ds] assms(3) by simp
  have "strto_loop 10 neg ds 0 0 0 i = (word_of_int (if neg then - v else v), 1, i + length ds)" for i
    using strto_loop_value [of 10 ds 0 0 0 neg i] decimals [OF assms(1)] assms(2-4) by auto
  moreover have "sint (word_of_int (if neg then - v else v) :: 64 word) = (if neg then - v else v)"
    using v0 assms(4) by (intro sint_small) auto
  ultimately show ?thesis unfolding apr_atoi64_def apr_strtoi64_def pre by (cases neg) simp_all
qed

text \<open>
  C36. Printing a 32- or 64-bit integer other than the smallest and parsing it again gives the integer,
  without an error, and the string with its NUL fits the buffer that the printing function allocates.
\<close>

theorem apr_ltoa_atoi64_roundtrip:
  assumes "\<bar>n\<bar> < 2 ^ 63" "\<bar>m\<bar> < 2 ^ 31"
  shows "apr_atoi64 (apr_ltoa n) = (n, No_error) \<and> apr_atoi64 (apr_off_t_toa n) = (n, No_error) \<and>
    length (apr_ltoa n) < 8 * 3 + 2 \<and> apr_atoi64 (apr_itoa m) = (m, No_error) \<and> length (apr_itoa m) < 4 * 3 + 2"
proof -
  obtain ds where ds: "apr_ltoa n = (if n < 0 then CHR ''-'' # ds else ds)" "ds \<noteq> []" "list_all decimal ds"
    "digits_value 10 0 ds = \<bar>n\<bar>" "length ds \<le> 19"
    using print_int_ok [of n 63 19] assms(1) by (auto simp: apr_ltoa_def)
  obtain es where es: "apr_itoa m = (if m < 0 then CHR ''-'' # es else es)" "es \<noteq> []" "list_all decimal es"
    "digits_value 10 0 es = \<bar>m\<bar>" "length es \<le> 10"
    using print_int_ok [of m 31 10] assms(2) by (auto simp: apr_itoa_def)
  have "\<bar>m\<bar> < 2 ^ 63" using assms(2) by simp
  then show ?thesis
    using atoi64_decimal [OF ds(3,2,4) assms(1), of "n < 0"] atoi64_decimal [OF es(3,2,4), of "m < 0"] ds(1,5) es(1,5)
    by (auto simp: apr_off_t_toa_def apr_ltoa_def split: if_splits)
qed

lemma apr_ltoa_atoi64_roundtrip_witness:
  "apr_atoi64 (apr_ltoa (- 9223372036854775807)) = (- 9223372036854775807, No_error) \<and>
   apr_atoi64 (apr_itoa 2147483647) = (2147483647, No_error)"
  using apr_ltoa_atoi64_roundtrip [of "- 9223372036854775807" 2147483647] by simp

text \<open>
  The overflow tests of \<open>apr_strtoi64\<close> look at the wrapped product only: a number above \<open>2 ^ 64\<close> whose
  product wraps to more than the value before it is taken for valid.
\<close>

theorem apr_strtoi64_misses_overflow:
  "apr_atoi64 ''21000000000000000000'' = (2553255926290448384, No_error)"
  by (simp add: apr_atoi64_def apr_strtoi64_def strto_prefix_def skip_space_def apr_isspace_def digit_value_def Let_def
      word_sless_alt)

end
