(* ===== verification/Apr_Allocator.thy ===== *)
theory Apr_Allocator
  imports Apr_Prelude "HOL-Library.Multiset"
begin

text \<open>
  The node allocator under the memory pools (\<open>srclib/apr/memory/unix/apr_pools.c\<close>),
  built without mmap and pool debugging, on a 64-bit platform. A node is a block from
  \<open>malloc\<close> of \<open>(index + 1) * BOUNDARY_SIZE\<close> bytes that starts with an \<open>apr_memnode_t\<close>;
  the lists linked by \<open>next\<close> are lists of nodes. The mutex is left out: it
  makes every operation atomic. What \<open>malloc\<close> returns is an argument, an address
  or \<open>None\<close> for NULL.
\<close>

unbundle bit_operations_syntax

section \<open>Nodes and sizes\<close>

definition MIN_ALLOC :: "64 word" where "MIN_ALLOC = 8192"
definition MAX_INDEX :: nat where "MAX_INDEX = 20"
definition BOUNDARY_INDEX :: nat where "BOUNDARY_INDEX = 12"

abbreviation BOUNDARY_SIZE :: "'a::len word" where
  "BOUNDARY_SIZE \<equiv> 4096"

definition APR_ALIGN :: "'a::len word \<Rightarrow> 'a word \<Rightarrow> 'a word" where
  "APR_ALIGN sz boundary = (sz + (boundary - 1)) AND NOT (boundary - 1)"

definition APR_ALIGN_DEFAULT :: "64 word \<Rightarrow> 64 word" where
  "APR_ALIGN_DEFAULT sz = APR_ALIGN sz 8"

text \<open>\<open>sizeof (apr_memnode_t)\<close>: two pointers, two 32-bit integers, two pointers.\<close>

definition APR_MEMNODE_T_SIZE :: "64 word" where
  "APR_MEMNODE_T_SIZE = APR_ALIGN_DEFAULT 40"

record memnode =
  node_at :: nat
  node_index :: "32 word"
  free_index :: "32 word"
  first_avail :: nat
  endp :: nat

record allocator =
  max_index :: nat
  max_free_index :: "32 word"
  current_free_index :: "32 word"
  free_nodes :: "memnode list list"
  owner :: "nat option"

definition APR_ALLOCATOR_MAX_FREE_UNLIMITED :: "32 word" where
  "APR_ALLOCATOR_MAX_FREE_UNLIMITED = 0"

section \<open>Operations\<close>

definition new_allocator :: allocator where
  "new_allocator = \<lparr>max_index = 0, max_free_index = APR_ALLOCATOR_MAX_FREE_UNLIMITED, current_free_index = 0,
     free_nodes = replicate MAX_INDEX [], owner = None\<rparr>"

definition apr_allocator_create :: "bool \<Rightarrow> apr_status \<times> allocator option" where
  "apr_allocator_create memory = (if \<not> memory then (APR_ENOMEM, None) else (APR_SUCCESS, Some new_allocator))"

text \<open>The nodes in the order in which \<open>free\<close> gets them.\<close>

definition apr_allocator_destroy :: "allocator \<Rightarrow> memnode list" where
  "apr_allocator_destroy allocator = concat (free_nodes allocator)"

definition apr_allocator_owner_set :: "allocator \<Rightarrow> nat option \<Rightarrow> allocator" where
  "apr_allocator_owner_set allocator pool = allocator\<lparr>owner := pool\<rparr>"

definition apr_allocator_owner_get :: "allocator \<Rightarrow> nat option" where
  "apr_allocator_owner_get allocator = owner allocator"

definition apr_allocator_max_free_set :: "allocator \<Rightarrow> 64 word \<Rightarrow> allocator" where
  "apr_allocator_max_free_set allocator in_size =
     (let sz = ucast in_size :: 32 word;
          max_free = drop_bit BOUNDARY_INDEX (APR_ALIGN sz BOUNDARY_SIZE);
          current = current_free_index allocator + max_free - max_free_index allocator
      in allocator\<lparr>max_free_index := max_free,
                   current_free_index := (if current > max_free then max_free else current)\<rparr>)"

text \<open>The walk up from slot \<open>i\<close> to the first list that is not empty, \<open>max_index\<close> at the latest.\<close>

function seek_slot :: "memnode list list \<Rightarrow> nat \<Rightarrow> nat \<Rightarrow> nat" where
  "seek_slot slots i mx = (if slots ! i = [] \<and> i < mx then seek_slot slots (i + 1) mx else i)"
  by pat_completeness auto
termination
  by (relation "measure (\<lambda>(slots, i, mx). mx - i)") auto

declare seek_slot.simps [simp del]

text \<open>The new \<open>max_index\<close> when the highest list became empty.\<close>

fun lower_max :: "memnode list list \<Rightarrow> nat \<Rightarrow> nat" where
  "lower_max slots 0 = 0"
| "lower_max slots (Suc m) = (if slots ! m = [] \<and> m > 0 then lower_max slots m else m)"

text \<open>The walk along the sink to the first node that is large enough.\<close>

fun sink_take :: "32 word \<Rightarrow> memnode list \<Rightarrow> (memnode \<times> memnode list) option" where
  "sink_take index [] = None"
| "sink_take index (node # nodes) =
     (if index > node_index node then map_option (\<lambda>(n, ns). (n, node # ns)) (sink_take index nodes)
      else Some (node, nodes))"

text \<open>\<open>current_free_index\<close> when a node leaves the free lists.\<close>

definition count_taken :: "allocator \<Rightarrow> memnode \<Rightarrow> 32 word" where
  "count_taken allocator node =
     (let current = current_free_index allocator + (node_index node + 1)
      in if current > max_free_index allocator then max_free_index allocator else current)"

definition fresh_node :: "memnode \<Rightarrow> memnode" where
  "fresh_node node = node\<lparr>first_avail := node_at node + unat APR_MEMNODE_T_SIZE\<rparr>"

definition malloc_node :: "nat option \<Rightarrow> 64 word \<Rightarrow> 64 word \<Rightarrow> memnode option" where
  "malloc_node mem sz index =
     (case mem of None \<Rightarrow> None
      | Some p \<Rightarrow> Some \<lparr>node_at = p, node_index = ucast index, free_index = 0,
                        first_avail = p + unat APR_MEMNODE_T_SIZE, endp = p + unat sz\<rparr>)"

definition allocator_alloc :: "nat option \<Rightarrow> allocator \<Rightarrow> 64 word \<Rightarrow> memnode option \<times> allocator" where
  "allocator_alloc mem allocator in_size =
     (let sz = APR_ALIGN (in_size + APR_MEMNODE_T_SIZE) BOUNDARY_SIZE
      in if sz < in_size then (None, allocator)
      else
        let sz = (if sz < MIN_ALLOC then MIN_ALLOC else sz);
            index = drop_bit BOUNDARY_INDEX sz - 1;
            slots = free_nodes allocator;
            mx = max_index allocator
        in if index > 0xFFFFFFFF then (None, allocator)
        else if unat index \<le> mx then
          let i = seek_slot slots (unat index) mx
          in (case slots ! i of
              node # nodes \<Rightarrow>
                let slots = slots[i := nodes]
                in (Some (fresh_node node),
                    allocator\<lparr>free_nodes := slots,
                              max_index := (if nodes = [] \<and> i \<ge> mx then lower_max slots mx else mx),
                              current_free_index := count_taken allocator node\<rparr>)
            | [] \<Rightarrow> (malloc_node mem sz index, allocator))
        else
          (case sink_take (ucast index) (slots ! 0) of
              Some (node, nodes) \<Rightarrow>
                (Some (fresh_node node),
                 allocator\<lparr>free_nodes := slots[0 := nodes], current_free_index := count_taken allocator node\<rparr>)
            | None \<Rightarrow> (malloc_node mem sz index, allocator)))"

text \<open>One node of the list given back; \<open>freelist\<close> holds those that go to \<open>free\<close>.\<close>

definition free_one :: "allocator \<times> memnode list \<Rightarrow> memnode \<Rightarrow> allocator \<times> memnode list" where
  "free_one af node =
     (let (allocator, freelist) = af;
          index = node_index node;
          current = current_free_index allocator;
          counted = (if current \<ge> index + 1 then current - (index + 1) else 0);
          slots = free_nodes allocator;
          i = unat index
      in if max_free_index allocator \<noteq> APR_ALLOCATOR_MAX_FREE_UNLIMITED \<and> index + 1 > current
         then (allocator, node # freelist)
         else if i < MAX_INDEX then
           (allocator\<lparr>max_index := (if slots ! i = [] \<and> i > max_index allocator then i else max_index allocator),
                      free_nodes := slots[i := node # slots ! i], current_free_index := counted\<rparr>, freelist)
         else
           (allocator\<lparr>free_nodes := slots[0 := node # slots ! 0], current_free_index := counted\<rparr>, freelist))"

text \<open>The list is not empty; the result has the nodes in the order in which \<open>free\<close> gets them.\<close>

definition allocator_free :: "allocator \<Rightarrow> memnode list \<Rightarrow> allocator \<times> memnode list" where
  "allocator_free allocator nodes = foldl free_one (allocator, []) nodes"

definition apr_allocator_alloc :: "nat option \<Rightarrow> allocator \<Rightarrow> 64 word \<Rightarrow> memnode option \<times> allocator" where
  "apr_allocator_alloc mem allocator sz = allocator_alloc mem allocator sz"

definition apr_allocator_free :: "allocator \<Rightarrow> memnode list \<Rightarrow> allocator \<times> memnode list" where
  "apr_allocator_free allocator nodes = allocator_free allocator nodes"

section \<open>Sizes in numbers\<close>

lemma unat_drop_div: "unat (drop_bit n y) = unat y div 2 ^ n"
  unfolding unat_drop_bit_eq by (rule drop_bit_eq_div)

lemma align_unat: "unat (APR_ALIGN (x :: 'a::len word) (2 ^ n)) = unat (x + (2 ^ n - 1)) div 2 ^ n * 2 ^ n"
proof -
  define y where "y = x + (2 ^ n - 1)"
  have "APR_ALIGN x (2 ^ n) = y AND NOT (mask n)" by (simp add: APR_ALIGN_def y_def mask_eq_exp_minus_1)
  moreover have "y AND NOT (mask n) = push_bit n (drop_bit n y)"
    by (rule bit_word_eqI) (auto simp: bit_simps)
  moreover have "unat (push_bit n (drop_bit n y)) = unat (drop_bit n y) * 2 ^ n"
  proof -
    have "unat y div 2 ^ n * 2 ^ n \<le> unat y" by simp
    also have "unat y < 2 ^ LENGTH('a)" by (rule unsigned_less)
    finally have small: "unat (drop_bit n y) * 2 ^ n < 2 ^ LENGTH('a)"
      by (simp only: unat_drop_div)
    have "unat (push_bit n (drop_bit n y)) = take_bit LENGTH('a) (push_bit n (unat (drop_bit n y)))"
      by (rule unsigned_push_bit_eq)
    then show ?thesis using small by (simp only: push_bit_eq_mult take_bit_nat_eq_self_iff)
  qed
  ultimately show ?thesis by (simp only: y_def unat_drop_div)
qed

lemma memnode_size [simp]: "APR_MEMNODE_T_SIZE = 40"
  by (simp add: APR_MEMNODE_T_SIZE_def APR_ALIGN_DEFAULT_def APR_ALIGN_def)

lemma align_boundary: "unat (APR_ALIGN x BOUNDARY_SIZE) = unat (x + 4095) div 4096 * 4096"
  using align_unat [of x 12] by simp

text \<open>The size a request is rounded to, when it is not refused.\<close>

lemma rounded_size:
  fixes in_size :: "64 word"
  defines "sz \<equiv> APR_ALIGN (in_size + APR_MEMNODE_T_SIZE) BOUNDARY_SIZE"
  assumes "\<not> sz < in_size"
  defines "sz' \<equiv> if sz < MIN_ALLOC then MIN_ALLOC else sz"
  defines "index \<equiv> drop_bit BOUNDARY_INDEX sz' - 1"
  shows "unat sz' = (unat index + 1) * 4096" "1 \<le> unat index" "unat in_size + 40 \<le> (unat index + 1) * 4096"
    "unat index \<le> 1 \<or> (unat index + 1) * 4096 \<le> unat in_size + 4135"
proof -
  have sum: "unat (in_size + 40 + 4095) = (unat in_size + 4135) mod 2 ^ 64"
    by (simp add: add.assoc unat_word_ariths)
  have sz: "unat sz = (unat in_size + 4135) mod 2 ^ 64 div 4096 * 4096"
    by (simp only: sz_def memnode_size align_boundary sum)
  have lt: "unat in_size < 2 ^ 64" using unsigned_less [of in_size] by simp
  have le: "unat in_size \<le> unat sz" using assms(2) by (simp add: word_less_nat_alt)
  have small: "unat in_size + 4135 < 2 ^ 64"
  proof (rule ccontr)
    assume large: "\<not> ?thesis"
    then have "(unat in_size + 4135) mod 2 ^ 64 = unat in_size + 4135 - 2 ^ 64" using lt by (simp add: mod_if)
    then have "unat sz \<le> unat in_size + 4135 - 2 ^ 64" using sz by simp
    then show False using le lt large by simp
  qed
  then have sz2: "unat sz = (unat in_size + 4135) div 4096 * 4096" using sz by simp
  have sz': "unat sz' = (if unat sz < 8192 then 8192 else unat sz)"
    by (simp add: sz'_def MIN_ALLOC_def word_less_nat_alt)
  define m where "m = unat sz' div 4096"
  have m: "unat sz' = m * 4096" "2 \<le> m" "unat in_size + 40 \<le> m * 4096" "m = 2 \<or> m * 4096 \<le> unat in_size + 4135"
    using sz' sz2 by (auto simp: m_def)
  have q: "unat (drop_bit BOUNDARY_INDEX sz') = m" by (simp only: unat_drop_div BOUNDARY_INDEX_def m_def) simp
  then have "1 \<le> drop_bit BOUNDARY_INDEX sz'" using m(2) by (simp only: word_le_nat_alt) simp
  then have "unat index = m - 1" by (simp only: index_def unat_sub q) simp
  then show "unat sz' = (unat index + 1) * 4096" "1 \<le> unat index" "unat in_size + 40 \<le> (unat index + 1) * 4096"
    "unat index \<le> 1 \<or> (unat index + 1) * 4096 \<le> unat in_size + 4135"
    using m by auto
qed

section \<open>The free lists\<close>

definition node_ok :: "memnode \<Rightarrow> bool" where
  "node_ok n \<longleftrightarrow> 1 \<le> unat (node_index n) \<and> endp n = node_at n + (unat (node_index n) + 1) * 4096"

text \<open>
  Slot \<open>i\<close> above 0 has the nodes with index \<open>i\<close>, slot 0 those with larger ones than
  any slot; \<open>max_index\<close> is the last slot in use.
\<close>

definition allocator_ok :: "allocator \<Rightarrow> bool" where
  "allocator_ok a \<longleftrightarrow>
     length (free_nodes a) = MAX_INDEX \<and> max_index a < MAX_INDEX \<and>
     (\<forall>i < MAX_INDEX. \<forall>n \<in> set (free_nodes a ! i). node_ok n \<and>
        (if i = 0 then MAX_INDEX \<le> unat (node_index n) else unat (node_index n) = i)) \<and>
     (\<forall>i. max_index a < i \<and> i < MAX_INDEX \<longrightarrow> free_nodes a ! i = []) \<and>
     (max_index a \<noteq> 0 \<longrightarrow> free_nodes a ! max_index a \<noteq> [])"

definition held :: "allocator \<Rightarrow> memnode multiset" where
  "held a = mset (concat (free_nodes a))"

lemma new_allocator_ok [simp]: "allocator_ok new_allocator" "held new_allocator = {#}"
  by (auto simp: allocator_ok_def new_allocator_def MAX_INDEX_def held_def)

lemma allocator_okD:
  assumes "allocator_ok a"
  shows "length (free_nodes a) = 20" "max_index a < 20"
    "i < 20 \<Longrightarrow> n \<in> set (free_nodes a ! i) \<Longrightarrow> node_ok n \<and> (if i = 0 then 20 \<le> unat (node_index n) else unat (node_index n) = i)"
    "max_index a < i \<Longrightarrow> i < 20 \<Longrightarrow> free_nodes a ! i = []"
    "max_index a \<noteq> 0 \<Longrightarrow> free_nodes a ! max_index a \<noteq> []"
  using assms unfolding allocator_ok_def MAX_INDEX_def by blast+

lemma allocator_okI:
  assumes "length slots = 20" "m < 20"
    "\<forall>i < 20. \<forall>n \<in> set (slots ! i). node_ok n \<and> (if i = 0 then 20 \<le> unat (node_index n) else unat (node_index n) = i)"
    "\<forall>i. m < i \<and> i < 20 \<longrightarrow> slots ! i = []" "m \<noteq> 0 \<longrightarrow> slots ! m \<noteq> []"
  shows "allocator_ok (a\<lparr>max_index := m, free_nodes := slots, current_free_index := c\<rparr>)"
proof -
  have r: "free_nodes (a\<lparr>max_index := m, free_nodes := slots, current_free_index := c\<rparr>) = slots"
    "max_index (a\<lparr>max_index := m, free_nodes := slots, current_free_index := c\<rparr>) = m" by simp_all
  show ?thesis unfolding allocator_ok_def MAX_INDEX_def r by (intro conjI assms)
qed

lemma mset_concat_update:
  "i < length xs \<Longrightarrow> mset (concat (xs[i := ys])) + mset (xs ! i) = mset (concat xs) + mset ys"
proof (induction xs arbitrary: i)
  case (Cons x xs)
  then show ?case by (cases i) (auto simp: ac_simps)
qed simp

lemma seek_slot_ok:
  "i \<le> mx \<Longrightarrow> i \<le> seek_slot slots i mx \<and> seek_slot slots i mx \<le> mx \<and>
   (slots ! seek_slot slots i mx \<noteq> [] \<or> seek_slot slots i mx = mx)"
proof (induction slots i mx rule: seek_slot.induct)
  case (1 slots i mx)
  have "seek_slot slots i mx = (if slots ! i = [] \<and> i < mx then seek_slot slots (i + 1) mx else i)"
    by (rule seek_slot.simps)
  then show ?case using 1 by (auto split: if_splits)
qed

lemma lower_max_ok:
  "0 < m \<Longrightarrow> lower_max slots m < m \<and> (\<forall>j. lower_max slots m < j \<and> j < m \<longrightarrow> slots ! j = []) \<and>
   (lower_max slots m = 0 \<or> slots ! lower_max slots m \<noteq> [])"
proof (induction slots m rule: lower_max.induct)
  case (2 slots m)
  show ?case
  proof (cases "slots ! m = [] \<and> m > 0")
    case True
    then have "j < Suc m \<Longrightarrow> lower_max slots m < j \<Longrightarrow> slots ! j = []" for j
      using 2 by (cases "j = m") auto
    then show ?thesis using 2 True by (auto simp: less_Suc_eq)
  qed auto
qed simp

lemma sink_take_ok:
  "sink_take index ns = Some (n, ns') \<Longrightarrow> mset ns = add_mset n (mset ns') \<and> index \<le> node_index n"
proof (induction ns arbitrary: ns')
  case (Cons x ns)
  then show ?case by (auto split: if_splits)
qed simp

text \<open>Taking a node off the front of a slot, or out of the sink.\<close>

lemma take_slot_ok:
  assumes ok: "allocator_ok a" and i: "0 < i" "i \<le> max_index a" "free_nodes a ! i = n # ns"
  defines "slots \<equiv> (free_nodes a)[i := ns]"
  shows "allocator_ok (a\<lparr>free_nodes := slots,
      max_index := (if ns = [] \<and> i \<ge> max_index a then lower_max slots (max_index a) else max_index a), current_free_index := c\<rparr>)"
    "held a = add_mset n (held (a\<lparr>free_nodes := slots, max_index := m, current_free_index := c\<rparr>))"
proof -
  note D = allocator_okD [OF ok]
  have i20: "i < 20" using i D(2) by simp
  let ?m = "if ns = [] \<and> i \<ge> max_index a then lower_max slots (max_index a) else max_index a"
  have nodes: "\<forall>j < MAX_INDEX. \<forall>x \<in> set (slots ! j). node_ok x \<and>
        (if j = 0 then MAX_INDEX \<le> unat (node_index x) else unat (node_index x) = j)"
    using D(1,3) i i20 by (auto simp: slots_def MAX_INDEX_def nth_list_update)
  have length_slots: "length slots = MAX_INDEX" using D(1) by (simp add: slots_def MAX_INDEX_def)
  have keep: "slots ! j = free_nodes a ! j" if "j \<noteq> i" for j using that by (simp add: slots_def)
  have "?m < MAX_INDEX \<and> (\<forall>j. ?m < j \<and> j < MAX_INDEX \<longrightarrow> slots ! j = []) \<and> (?m \<noteq> 0 \<longrightarrow> slots ! ?m \<noteq> [])"
  proof (cases "ns = [] \<and> i \<ge> max_index a")
    case True
    then have im: "i = max_index a" using i by simp
    have L: "lower_max slots i < i \<and> (\<forall>j. lower_max slots i < j \<and> j < i \<longrightarrow> slots ! j = []) \<and>
        (lower_max slots i = 0 \<or> slots ! lower_max slots i \<noteq> [])" using lower_max_ok i(1) by blast
    have "slots ! j = []" if "lower_max slots i < j" "j < 20" for j
      using that L True D(1,4) im i20 keep [of j] by (cases "j < i"; cases "j = i") (auto simp: slots_def)
    then show ?thesis using L True D(2) by (auto simp: MAX_INDEX_def im)
  next
    case False
    then have "slots ! max_index a \<noteq> []"
      using i D keep by (cases "i = max_index a") (auto simp: slots_def)
    then show ?thesis using False D keep i by (auto simp: MAX_INDEX_def)
  qed
  then show "allocator_ok (a\<lparr>free_nodes := slots, max_index := ?m, current_free_index := c\<rparr>)"
    using nodes D(1) unfolding allocator_ok_def by (simp add: slots_def [symmetric] length_slots)
  show "held a = add_mset n (held (a\<lparr>free_nodes := slots, max_index := m, current_free_index := c\<rparr>))"
    using mset_concat_update [of i "free_nodes a" ns] i(3) D(1) i20 by (simp add: held_def slots_def)
qed

lemma take_sink_ok:
  assumes ok: "allocator_ok a" and s: "sink_take index (free_nodes a ! 0) = Some (n, ns)"
  shows "allocator_ok (a\<lparr>free_nodes := (free_nodes a)[0 := ns], current_free_index := c\<rparr>)"
    "held a = add_mset n (held (a\<lparr>free_nodes := (free_nodes a)[0 := ns], current_free_index := c\<rparr>))"
proof -
  note D = allocator_okD [OF ok]
  have m: "mset (free_nodes a ! 0) = add_mset n (mset ns)" using sink_take_ok [OF s] by simp
  then have "set ns \<subseteq> set (free_nodes a ! 0)" by (metis set_mset_add_mset_insert set_mset_mset subset_insertI)
  then show "allocator_ok (a\<lparr>free_nodes := (free_nodes a)[0 := ns], current_free_index := c\<rparr>)"
    using D(1,2,4,5) D(3) [of 0] D(3) by (auto simp: allocator_ok_def MAX_INDEX_def nth_list_update split: if_splits)
  show "held a = add_mset n (held (a\<lparr>free_nodes := (free_nodes a)[0 := ns], current_free_index := c\<rparr>))"
    using mset_concat_update [of 0 "free_nodes a" ns] m D(1) by (simp add: held_def)
qed

lemma fresh_node_simps [simp]:
  "node_at (fresh_node n) = node_at n" "node_index (fresh_node n) = node_index n" "endp (fresh_node n) = endp n"
  "first_avail (fresh_node n) = node_at n + 40" "node_ok (fresh_node n) = node_ok n"
  by (simp_all add: fresh_node_def node_ok_def)

text \<open>What a client gets: a node of the size asked for, from the free lists or from \<open>malloc\<close>.\<close>

definition good_node :: "nat \<Rightarrow> memnode \<Rightarrow> bool" where
  "good_node n node \<longleftrightarrow> node_ok node \<and> first_avail node = node_at node + 40 \<and> n + 40 \<le> (unat (node_index node) + 1) * 4096"

lemma allocator_alloc_ok:
  assumes ok: "allocator_ok a" and res: "allocator_alloc mem a in_size = (r, a')"
  shows "allocator_ok a'"
    "r = Some n \<Longrightarrow> good_node (unat in_size) n \<and>
       ((\<exists>m. n = fresh_node m \<and> held a = add_mset m (held a')) \<or> mem = Some (node_at n) \<and> a' = a)"
    "r = None \<Longrightarrow> a' = a \<and> (mem = None \<or> 2 ^ 44 \<le> unat in_size + 39)"
proof -
  define s0 where "s0 = APR_ALIGN (in_size + APR_MEMNODE_T_SIZE) BOUNDARY_SIZE"
  define sz where "sz = (if s0 < MIN_ALLOC then MIN_ALLOC else s0)"
  define index where "index = drop_bit BOUNDARY_INDEX sz - 1"
  have R: "(r, a') =
     (if s0 < in_size then (None, a)
      else if index > 0xFFFFFFFF then (None, a)
      else if unat index \<le> max_index a then
        (case free_nodes a ! seek_slot (free_nodes a) (unat index) (max_index a) of
           node # nodes \<Rightarrow>
             (Some (fresh_node node),
              a\<lparr>free_nodes := (free_nodes a)[seek_slot (free_nodes a) (unat index) (max_index a) := nodes],
                max_index := (if nodes = [] \<and> seek_slot (free_nodes a) (unat index) (max_index a) \<ge> max_index a
                  then lower_max ((free_nodes a)[seek_slot (free_nodes a) (unat index) (max_index a) := nodes]) (max_index a)
                  else max_index a),
                current_free_index := count_taken a node\<rparr>)
         | [] \<Rightarrow> (malloc_node mem sz index, a))
      else (case sink_take (ucast index) (free_nodes a ! 0) of
           Some (node, nodes) \<Rightarrow>
             (Some (fresh_node node), a\<lparr>free_nodes := (free_nodes a)[0 := nodes], current_free_index := count_taken a node\<rparr>)
         | None \<Rightarrow> (malloc_node mem sz index, a)))"
    unfolding res [symmetric] allocator_alloc_def Let_def s0_def sz_def index_def ..
  have "allocator_ok a' \<and> (\<forall>n. r = Some n \<longrightarrow> good_node (unat in_size) n \<and>
       ((\<exists>m. n = fresh_node m \<and> held a = add_mset m (held a')) \<or> mem = Some (node_at n) \<and> a' = a)) \<and>
    (r = None \<longrightarrow> a' = a \<and> (mem = None \<or> 2 ^ 44 \<le> unat in_size + 39))"
  proof (cases "s0 < in_size")
    case True
    have "unat s0 < unat in_size" using True by (simp add: word_less_nat_alt)
    have "2 ^ 44 \<le> unat in_size + 39"
    proof (rule ccontr)
      assume "\<not> ?thesis"
      then have "unat (in_size + 40 + 4095) = unat in_size + 4135" by (simp add: add.assoc unat_word_ariths)
      then have "unat s0 = (unat in_size + 4135) div 4096 * 4096"
        by (simp only: s0_def memnode_size align_boundary)
      then show False using \<open>unat s0 < unat in_size\<close> by simp
    qed
    then show ?thesis using True R ok by simp
  next
    case enough: False
    note S = rounded_size [OF enough [unfolded s0_def], folded s0_def, folded sz_def, folded index_def]
    show ?thesis
    proof (cases "index > 0xFFFFFFFF")
      case True
      then have "unat index > 0xFFFFFFFF" by (simp add: word_less_nat_alt)
      then have "2 ^ 44 \<le> unat in_size + 39" using S(4) by simp
      then show ?thesis using True enough R ok by simp
    next
      case False
      then have i32: "unat index < 2 ^ 32" by (simp add: word_less_nat_alt)
      then have uc: "unat (ucast index :: 32 word) = unat index" by (simp add: unsigned_ucast_eq take_bit_nat_eq_self)
      have new: "malloc_node mem sz index = Some n \<Longrightarrow> good_node (unat in_size) n \<and> mem = Some (node_at n)" for n
        using S uc by (auto simp: malloc_node_def good_node_def node_ok_def split: option.splits)
      have none: "malloc_node mem sz index = None \<Longrightarrow> mem = None" by (auto simp: malloc_node_def split: option.splits)
      show ?thesis
      proof (cases "unat index \<le> max_index a")
        case True
        define i where "i = seek_slot (free_nodes a) (unat index) (max_index a)"
        have i: "unat index \<le> i" "i \<le> max_index a" "free_nodes a ! i \<noteq> []"
          using seek_slot_ok [OF True, of "free_nodes a"] allocator_okD(5) [OF ok] S(2) True by (auto simp: i_def)
        then obtain m ns where m: "free_nodes a ! i = m # ns" by (cases "free_nodes a ! i") auto
        have i0: "0 < i" "i < 20" using i S(2) allocator_okD(2) [OF ok] by simp_all
        have mi: "node_ok m" "unat (node_index m) = i" using allocator_okD(3) [OF ok i0(2), of m] i0 m by auto
        have "(unat index + 1) * 4096 \<le> (i + 1) * 4096" using i(1) by simp
        then have "good_node (unat in_size) (fresh_node m)" using mi S(3) by (simp add: good_node_def)
        moreover have ra: "r = Some (fresh_node m)" "a' = a\<lparr>free_nodes := (free_nodes a)[i := ns],
            max_index := (if ns = [] \<and> i \<ge> max_index a then lower_max ((free_nodes a)[i := ns]) (max_index a) else max_index a),
            current_free_index := count_taken a m\<rparr>"
          using R enough False True m by (simp_all add: i_def [symmetric])
        moreover have "allocator_ok a'" unfolding ra(2) by (rule take_slot_ok(1) [OF ok i0(1) i(2) m])
        moreover have "held a = add_mset m (held a')" unfolding ra(2) by (rule take_slot_ok(2) [OF ok i0(1) i(2) m])
        ultimately show ?thesis by blast
      next
        case no: False
        show ?thesis
        proof (cases "sink_take (ucast index) (free_nodes a ! 0)")
          case None
          then have "r = malloc_node mem sz index" "a' = a" using R enough False no by simp_all
          then show ?thesis using new none ok by auto
        next
          case (Some x)
          then obtain m ns where m: "sink_take (ucast index) (free_nodes a ! 0) = Some (m, ns)" by (cases x) auto
          have ra: "r = Some (fresh_node m)" "a' = a\<lparr>free_nodes := (free_nodes a)[0 := ns], current_free_index := count_taken a m\<rparr>"
            using R enough False no m by simp_all
          have "m \<in> set (free_nodes a ! 0)" using sink_take_ok [OF m] by (metis set_mset_mset union_single_eq_member)
          then have "node_ok m" using allocator_okD(3) [OF ok, of 0 m] by simp
          moreover have "unat index \<le> unat (node_index m)" using sink_take_ok [OF m] uc by (simp add: word_le_nat_alt)
          then have "(unat index + 1) * 4096 \<le> (unat (node_index m) + 1) * 4096" by simp
          ultimately have "good_node (unat in_size) (fresh_node m)" using S(3) by (simp add: good_node_def)
          then show ?thesis using ra take_sink_ok [OF ok m] by auto
        qed
      qed
    qed
  qed
  then show "allocator_ok a'"
    "r = Some n \<Longrightarrow> good_node (unat in_size) n \<and>
       ((\<exists>m. n = fresh_node m \<and> held a = add_mset m (held a')) \<or> mem = Some (node_at n) \<and> a' = a)"
    "r = None \<Longrightarrow> a' = a \<and> (mem = None \<or> 2 ^ 44 \<le> unat in_size + 39)" by blast+
qed

section \<open>Giving nodes back\<close>

text \<open>The block of memory a node is, whatever its client did with its header.\<close>

definition node_block :: "memnode \<Rightarrow> nat \<times> nat" where
  "node_block n = (node_at n, unat (node_index n))"

definition blocks :: "memnode list \<Rightarrow> (nat \<times> nat) multiset" where
  "blocks ns = image_mset node_block (mset ns)"

definition stock :: "allocator \<Rightarrow> (nat \<times> nat) multiset" where
  "stock a = image_mset node_block (held a)"

lemma node_block_simps [simp]: "node_block (fresh_node n) = node_block n"
  by (simp add: node_block_def)

lemma blocks_simps [simp]:
  "blocks [] = {#}" "blocks (n # ns) = add_mset (node_block n) (blocks ns)" "blocks (ns @ ms) = blocks ns + blocks ms"
  by (simp_all add: blocks_def)

lemma new_allocator_stock [simp]: "stock new_allocator = {#}"
  by (simp add: stock_def)

lemma free_one_ok:
  assumes ok: "allocator_ok a" and n: "node_ok n" and res: "free_one (a, given) n = (a', given')"
  shows "allocator_ok a'" "held a' + mset given' = add_mset n (held a + mset given)"
proof -
  note D = allocator_okD [OF ok]
  let ?i = "unat (node_index n)" and ?s = "free_nodes a"
  have i: "0 < ?i" using n by (simp add: node_ok_def)
  have held_put: "held (a\<lparr>max_index := m, free_nodes := ?s[j := n # ?s ! j], current_free_index := c\<rparr>) = add_mset n (held a)"
    if "j < 20" for j m c
    using mset_concat_update [of j ?s "n # ?s ! j"] that D(1) by (simp add: held_def)
  consider (os) "(a', given') = (a, n # given)"
    | (slot) c where "?i < MAX_INDEX" "given' = given"
        "a' = a\<lparr>max_index := (if ?s ! ?i = [] \<and> ?i > max_index a then ?i else max_index a),
          free_nodes := ?s[?i := n # ?s ! ?i], current_free_index := c\<rparr>"
    | (sink) c where "\<not> ?i < MAX_INDEX" "given' = given" "a' = a\<lparr>free_nodes := ?s[0 := n # ?s ! 0], current_free_index := c\<rparr>"
    using res by (auto simp: free_one_def Let_def split: if_splits)
  then have "allocator_ok a' \<and> held a' + mset given' = add_mset n (held a + mset given)"
  proof cases
    case os
    then show ?thesis using ok by simp
  next
    case slot
    then have i20: "?i < 20" by (simp add: MAX_INDEX_def)
    have h: "held a' = add_mset n (held a)" unfolding slot(3) using held_put i20 by blast
    define m where "m = (if ?s ! ?i = [] \<and> ?i > max_index a then ?i else max_index a)"
    have m: "?i \<le> m" "max_index a \<le> m" "m < 20" "m = ?i \<or> m = max_index a"
      using D(2) D(4) [of ?i] i20 by (auto simp: m_def not_less [symmetric])
    have nodes: "\<forall>j < 20. \<forall>x \<in> set (?s[?i := n # ?s ! ?i] ! j). node_ok x \<and>
        (if j = 0 then 20 \<le> unat (node_index x) else unat (node_index x) = j)"
      using D(1,3) n i i20 by (auto simp: nth_list_update)
    have above: "\<forall>j. m < j \<and> j < 20 \<longrightarrow> ?s[?i := n # ?s ! ?i] ! j = []" using m D(4) by auto
    have top: "m \<noteq> 0 \<longrightarrow> ?s[?i := n # ?s ! ?i] ! m \<noteq> []"
      using m(4) D(1,5) i20 by (cases "m = ?i") auto
    have "allocator_ok a'"
      unfolding slot(3) m_def [symmetric] by (rule allocator_okI [OF _ m(3) nodes above top]) (simp add: D(1))
    then show ?thesis using h slot(2) by simp
  next
    case sink
    have h: "held a' = add_mset n (held a)"
      unfolding sink(3) using held_put [where j = 0 and m = "max_index a" and c = c] by simp
    have "allocator_ok a'"
      unfolding allocator_ok_def sink(3) MAX_INDEX_def
      using D(1,2) D(3) D(3) [of 0] D(4) D(5) sink(1) n by (auto simp: nth_list_update MAX_INDEX_def split: if_splits)
    then show ?thesis using h sink(2) by simp
  qed
  then show "allocator_ok a'" "held a' + mset given' = add_mset n (held a + mset given)" by blast+
qed

lemma allocator_free_ok:
  assumes "allocator_ok a" "\<forall>n \<in> set nodes. node_ok n" "allocator_free a nodes = (a', given)"
  shows "allocator_ok a'" "held a' + mset given = held a + mset nodes"
proof -
  have "allocator_ok b \<Longrightarrow> \<forall>n \<in> set ns. node_ok n \<Longrightarrow> foldl free_one (b, g) ns = (b', g') \<Longrightarrow>
      allocator_ok b' \<and> held b' + mset g' = held b + mset g + mset ns" for b g ns b' g'
  proof (induction ns arbitrary: b g)
    case (Cons n ns)
    obtain b1 g1 where f: "free_one (b, g) n = (b1, g1)" by fastforce
    note F = free_one_ok [OF Cons.prems(1) _ f]
    show ?case using Cons.IH [of b1 g1] Cons.prems f F by auto
  qed simp
  from this [OF assms(1,2), of "[]"] assms(3) show "allocator_ok a'" "held a' + mset given = held a + mset nodes"
    by (simp_all add: allocator_free_def)
qed

section \<open>A source of nodes\<close>

text \<open>Every byte belongs to one block at most.\<close>

definition span :: "nat \<times> nat \<Rightarrow> nat set" where
  "span b = {fst b ..< fst b + (snd b + 1) * 4096}"

definition apart :: "(nat \<times> nat) multiset \<Rightarrow> bool" where
  "apart B \<longleftrightarrow> (\<forall>p. size {#b \<in># B. p \<in> span b#} \<le> 1)"

lemma apart_add: "apart (add_mset b B) \<longleftrightarrow> apart B \<and> (\<forall>c \<in># B. span b \<inter> span c = {})"
proof -
  have "size {#c \<in># B. p \<in> span c#} = 0 \<longleftrightarrow> (\<forall>c \<in># B. p \<notin> span c)" for p
    by (induction B) auto
  then have "apart (add_mset b B) \<longleftrightarrow> (\<forall>p. size {#c \<in># B. p \<in> span c#} \<le> 1 \<and> (p \<in> span b \<longrightarrow> (\<forall>c \<in># B. p \<notin> span c)))"
    unfolding apart_def by (simp del: size_eq_0_iff_empty) (metis le_SucI le_zero_eq)
  then show ?thesis by (auto simp: apart_def disjoint_iff)
qed

lemma apart_empty [simp]: "apart {#}"
  by (simp add: apart_def)

lemma apart_mono: "apart (B + C) \<Longrightarrow> apart B"
  unfolding apart_def by (metis filter_union_mset le_add1 order_trans size_union)

text \<open>
  What the pools rely on: a node handed out comes from the stock or is the block that
  \<open>malloc\<close> returned, and nodes given back go to the stock or to \<open>free\<close>.
\<close>

locale node_source =
  fixes take_node :: "nat option \<Rightarrow> 's \<Rightarrow> 'r \<Rightarrow> memnode option \<times> 's"
    and give_back :: "'s \<Rightarrow> memnode list \<Rightarrow> 's \<times> memnode list"
    and stock_of :: "'s \<Rightarrow> (nat \<times> nat) multiset"
    and ok :: "'s \<Rightarrow> bool"
    and fits :: "'r \<Rightarrow> memnode \<Rightarrow> bool"
  assumes take_ok: "ok s \<Longrightarrow> take_node mem s r = (res, s') \<Longrightarrow> ok s'"
    and take_some: "ok s \<Longrightarrow> take_node mem s r = (Some n, s') \<Longrightarrow> fits r n \<and>
      (stock_of s = add_mset (node_block n) (stock_of s') \<or> mem = Some (node_at n) \<and> s' = s)"
    and give_ok: "ok s \<Longrightarrow> \<forall>n \<in> set ns. node_ok n \<Longrightarrow> give_back s ns = (s', given) \<Longrightarrow>
      ok s' \<and> stock_of s' + blocks given = stock_of s + blocks ns"
begin

text \<open>\<open>C\<close> are the blocks of all clients; \<open>malloc\<close> returns a block apart from all that are in use.\<close>

lemma take_apart:
  assumes "ok s" "apart (stock_of s + C)" "take_node mem s r = (Some n, s')"
    and "mem = Some (node_at n) \<Longrightarrow> \<forall>b \<in># stock_of s + C. span (node_block n) \<inter> span b = {}"
  shows "apart (stock_of s' + add_mset (node_block n) C)"
proof -
  from take_some [OF assms(1,3)] consider "stock_of s + C = stock_of s' + add_mset (node_block n) C"
    | "mem = Some (node_at n)" "s' = s" by auto
  then show ?thesis using assms(2,4) by cases (simp_all add: apart_add)
qed

lemma give_apart:
  assumes "ok s" "\<forall>n \<in> set ns. node_ok n" "give_back s ns = (s', given)" "apart (stock_of s + (blocks ns + C))"
  shows "apart (stock_of s' + C)"
proof -
  have "stock_of s + (blocks ns + C) = (stock_of s' + C) + blocks given"
    using give_ok [OF assms(1-3)] by (metis add.assoc add.commute)
  then show ?thesis using assms(4) apart_mono by metis
qed

end

interpretation ns: node_source allocator_alloc allocator_free stock allocator_ok "\<lambda>sz n. good_node (unat sz) n"
proof
  fix s mem r n s'
  assume "allocator_ok s" "allocator_alloc mem s r = (Some n, s')"
  from allocator_alloc_ok(2) [OF this refl]
  show "good_node (unat r) n \<and> (stock s = add_mset (node_block n) (stock s') \<or> mem = Some (node_at n) \<and> s' = s)"
    by (auto simp: stock_def)
next
  fix s ns s' given
  assume "allocator_ok s" "\<forall>n \<in> set ns. node_ok n" "allocator_free s ns = (s', given)"
  from allocator_free_ok [OF this]
  show "allocator_ok s' \<and> stock s' + blocks given = stock s + blocks ns"
    by (simp add: stock_def blocks_def flip: image_mset_union)
qed (rule allocator_alloc_ok(1))

section \<open>Histories\<close>

text \<open>
  The states of an allocator whose clients give back what they got: \<open>out\<close> are the
  blocks they hold. \<open>malloc\<close> is assumed to return a block that is not in use.
\<close>

inductive allocator_run :: "allocator \<Rightarrow> (nat \<times> nat) multiset \<Rightarrow> bool" where
  start: "apr_allocator_create True = (APR_SUCCESS, Some a) \<Longrightarrow> allocator_run a {#}"
| limit: "allocator_run a out \<Longrightarrow> allocator_run (apr_allocator_max_free_set a sz) out"
| alloc: "allocator_run a out \<Longrightarrow> apr_allocator_alloc mem a sz = (Some n, a') \<Longrightarrow>
    mem = Some (node_at n) \<longrightarrow> (\<forall>b \<in># stock a + out. span (node_block n) \<inter> span b = {}) \<Longrightarrow>
    allocator_run a' (add_mset (node_block n) out)"
| free: "allocator_run a (out + blocks ns) \<Longrightarrow> \<forall>n \<in> set ns. node_ok n \<Longrightarrow>
    apr_allocator_free a ns = (a', given) \<Longrightarrow> allocator_run a' out"

lemma max_free_set_simps [simp]:
  "free_nodes (apr_allocator_max_free_set a sz) = free_nodes a" "max_index (apr_allocator_max_free_set a sz) = max_index a"
  "held (apr_allocator_max_free_set a sz) = held a" "stock (apr_allocator_max_free_set a sz) = stock a"
  "allocator_ok (apr_allocator_max_free_set a sz) = allocator_ok a"
  by (simp_all add: apr_allocator_max_free_set_def Let_def held_def stock_def allocator_ok_def)

lemma allocator_run_ok: "allocator_run a out \<Longrightarrow> allocator_ok a \<and> apart (stock a + out)"
proof (induction rule: allocator_run.induct)
  case (start a)
  then show ?case by (simp add: apr_allocator_create_def)
next
  case (alloc a out mem sz n a')
  then show ?case
    using ns.take_apart [of a out mem sz n a'] ns.take_ok [of a mem sz "Some n" a'] by (auto simp: apr_allocator_alloc_def)
next
  case (free a out ns a' given)
  then show ?case
    using ns.give_apart [of a ns a' given out] ns.give_ok [of a ns a' given] by (auto simp: apr_allocator_free_def ac_simps)
qed simp

text \<open>
  C11. Whatever the clients of an allocator do, every block they hold is apart
  from every other and from the free lists, so no memory is handed out twice; a
  request is met with a node that has room for it behind its header; and it fails only
  when \<open>malloc\<close> fails or the size does not fit the 32-bit index.
\<close>

theorem apr_allocator_blocks_apart:
  assumes "allocator_run a out" "apr_allocator_alloc mem a sz = (r, a')"
  shows "apart (stock a + out) \<and> (case r of
      None \<Rightarrow> a' = a \<and> (mem = None \<or> 2 ^ 44 \<le> unat sz + 39)
    | Some n \<Rightarrow> first_avail n = node_at n + 40 \<and> first_avail n + unat sz \<le> endp n \<and>
        (node_block n \<in># stock a \<or> mem = Some (node_at n) \<and> a' = a))"
proof -
  note ok = allocator_run_ok [OF assms(1)]
  have res: "allocator_alloc mem a sz = (r, a')" using assms(2) by (simp add: apr_allocator_alloc_def)
  show ?thesis
  proof (cases r)
    case None
    then show ?thesis using allocator_alloc_ok(3) [OF _ res None] ok by simp
  next
    case (Some n)
    have "good_node (unat sz) n \<and> (node_block n \<in># stock a \<or> mem = Some (node_at n) \<and> a' = a)"
      using ns.take_some [of a mem sz n a'] ok res Some by auto
    then show ?thesis using ok Some by (auto simp: good_node_def node_ok_def)
  qed
qed

text \<open>A node of 8192 bytes is allocated, given back and handed out again.\<close>

definition sample_node :: memnode where
  "sample_node = \<lparr>node_at = 65536, node_index = 1, free_index = 0, first_avail = 65576, endp = 73728\<rparr>"

lemma apr_allocator_blocks_apart_witness:
  "\<exists>a. allocator_run a {#} \<and> apr_allocator_alloc None a 100 = (Some sample_node, new_allocator) \<and>
     first_avail sample_node + 100 \<le> endp sample_node"
proof -
  have got: "apr_allocator_alloc (Some 65536) new_allocator 100 = (Some sample_node, new_allocator)"
    by (simp add: apr_allocator_alloc_def allocator_alloc_def new_allocator_def APR_ALIGN_def MIN_ALLOC_def BOUNDARY_INDEX_def
        Let_def malloc_node_def sample_node_def MAX_INDEX_def)
  define a where "a = new_allocator\<lparr>max_index := 1, free_nodes := (replicate 20 [])[1 := [sample_node]]\<rparr>"
  have given_back: "apr_allocator_free new_allocator [sample_node] = (a, [])"
    by (simp add: apr_allocator_free_def allocator_free_def free_one_def new_allocator_def sample_node_def a_def
        APR_ALLOCATOR_MAX_FREE_UNLIMITED_def MAX_INDEX_def Let_def)
  have "allocator_run new_allocator {#}" by (rule allocator_run.start) (simp add: apr_allocator_create_def)
  then have "allocator_run new_allocator (add_mset (node_block sample_node) {#})"
    by (rule allocator_run.alloc [OF _ got]) simp
  then have "allocator_run new_allocator ({#} + blocks [sample_node])" by simp
  then have run: "allocator_run a {#}"
    by (rule allocator_run.free [OF _ _ given_back]) (simp add: sample_node_def node_ok_def)
  have same: "(replicate 20 ([] :: memnode list))[Suc 0 := []] = replicate 20 []"
    by (simp add: eval_nat_numeral)
  have again: "apr_allocator_alloc None a 100 = (Some sample_node, new_allocator)"
    by (simp add: apr_allocator_alloc_def allocator_alloc_def a_def new_allocator_def APR_ALIGN_def MIN_ALLOC_def BOUNDARY_INDEX_def
        Let_def MAX_INDEX_def seek_slot.simps fresh_node_def sample_node_def count_taken_def APR_ALLOCATOR_MAX_FREE_UNLIMITED_def same)
  show ?thesis using apr_allocator_blocks_apart [OF run again] run again by auto
qed

section \<open>The limit on free memory\<close>

text \<open>The free memory that is kept, in units of \<open>BOUNDARY_SIZE\<close>, and what is left of the limit.\<close>

definition retained :: "allocator \<Rightarrow> nat" where
  "retained a = (\<Sum>n \<in># held a. unat (node_index n) + 1)"

definition budget :: "allocator \<Rightarrow> bool" where
  "budget a \<longleftrightarrow> max_free_index a \<noteq> 0 \<and> unat (current_free_index a) + retained a = unat (max_free_index a)"

lemma count_taken_ok:
  assumes "budget a" "held a = add_mset m h"
  shows "unat (count_taken a m) = unat (current_free_index a) + (unat (node_index m) + 1)"
proof -
  let ?c = "unat (current_free_index a)" and ?i = "unat (node_index m)"
  have le: "?c + (?i + 1) \<le> unat (max_free_index a)" using assms by (simp add: budget_def retained_def)
  moreover have "unat (max_free_index a) < 2 ^ 32" using unsigned_less [of "max_free_index a"] by simp
  ultimately have "unat (current_free_index a + (node_index m + 1)) = ?c + (?i + 1)" by (simp add: unat_word_ariths)
  then show ?thesis using le by (simp add: count_taken_def Let_def word_less_nat_alt)
qed

lemma budget_alloc:
  assumes "allocator_ok a" "budget a" "apr_allocator_alloc mem a sz = (r, a')"
  shows "budget a' \<and> max_free_index a' = max_free_index a"
proof -
  have res: "allocator_alloc mem a sz = (r, a')" using assms(3) by (simp add: apr_allocator_alloc_def)
  have taken: "budget a'" if "held a = add_mset m (held a')" "current_free_index a' = count_taken a m"
    "max_free_index a' = max_free_index a" for m
    using count_taken_ok [OF assms(2) that(1)] assms(2) that by (simp add: budget_def retained_def)
  have "a' = a \<or> max_free_index a' = max_free_index a \<and> (\<exists>m. r = Some (fresh_node m) \<and> current_free_index a' = count_taken a m)"
    using res by (auto simp: allocator_alloc_def Let_def split: if_splits option.splits list.splits prod.splits)
  then show ?thesis
  proof
    assume "max_free_index a' = max_free_index a \<and> (\<exists>m. r = Some (fresh_node m) \<and> current_free_index a' = count_taken a m)"
    then obtain m where m: "r = Some (fresh_node m)" "current_free_index a' = count_taken a m" "max_free_index a' = max_free_index a"
      by blast
    from allocator_alloc_ok(2) [OF assms(1) res m(1)] consider
      (shelf) m' where "fresh_node m = fresh_node m'" "held a = add_mset m' (held a')" | (os) "a' = a" by blast
    then show ?thesis
    proof cases
      case shelf
      then have "node_index m = node_index m'" by (metis fresh_node_simps(2))
      then have "count_taken a m = count_taken a m'" by (simp add: count_taken_def)
      then show ?thesis using taken shelf(2) m by simp
    qed (use assms(2) in simp)
  qed (use assms(2) in simp)
qed

lemma budget_free_one:
  assumes "allocator_ok a" "budget a" "node_ok n" "unat (node_index n) + 1 < 2 ^ 32" "free_one (a, given) n = (a', given')"
  shows "budget a' \<and> max_free_index a' = max_free_index a"
proof -
  have i: "unat (node_index n + 1) = unat (node_index n) + 1"
    using assms(4) by (simp add: unat_word_ariths)
  have fits: "node_index n + 1 \<le> current_free_index a"
    if "\<not> (max_free_index a \<noteq> APR_ALLOCATOR_MAX_FREE_UNLIMITED \<and> node_index n + 1 > current_free_index a)"
    using that assms(2) by (simp add: budget_def APR_ALLOCATOR_MAX_FREE_UNLIMITED_def not_less)
  have cases: "a' = a \<and> given' = n # given \<or> node_index n + 1 \<le> current_free_index a \<and> given' = given \<and>
      current_free_index a' = current_free_index a - (node_index n + 1) \<and> max_free_index a' = max_free_index a"
    using assms(5) fits by (auto simp: free_one_def Let_def split: if_splits)
  then show ?thesis
  proof
    assume kept: "node_index n + 1 \<le> current_free_index a \<and> given' = given \<and>
      current_free_index a' = current_free_index a - (node_index n + 1) \<and> max_free_index a' = max_free_index a"
    then have "held a' = add_mset n (held a)" using free_one_ok(2) [OF assms(1,3,5)] by simp
    moreover have "unat (current_free_index a') = unat (current_free_index a) - (unat (node_index n) + 1)"
      "unat (node_index n) + 1 \<le> unat (current_free_index a)"
      using kept by (simp_all add: unat_sub i word_le_nat_alt)
    ultimately show ?thesis using kept assms(2) by (simp add: budget_def retained_def)
  qed (use assms(2) in simp)
qed

lemma budget_free:
  assumes "allocator_ok a" "budget a" "\<forall>n \<in> set ns. node_ok n \<and> unat (node_index n) + 1 < 2 ^ 32"
    "foldl free_one (a, given) ns = (a', given')"
  shows "budget a' \<and> max_free_index a' = max_free_index a"
  using assms
proof (induction ns arbitrary: a given)
  case (Cons n ns)
  obtain b g where b: "free_one (a, given) n = (b, g)" by fastforce
  then have "budget b \<and> max_free_index b = max_free_index a" "allocator_ok b"
    using budget_free_one [of a n given b g] free_one_ok(1) [of a n given b g] Cons.prems by auto
  then show ?case using Cons.IH [of b g] Cons.prems b by simp
qed simp

text \<open>An allocator that got its limit before any node was given back.\<close>

inductive allocator_limited :: "64 word \<Rightarrow> allocator \<Rightarrow> bool" for lim :: "64 word" where
  start: "allocator_limited lim (apr_allocator_max_free_set new_allocator lim)"
| alloc: "allocator_limited lim a \<Longrightarrow> apr_allocator_alloc mem a sz = (r, a') \<Longrightarrow> allocator_limited lim a'"
| free: "allocator_limited lim a \<Longrightarrow> \<forall>n \<in> set ns. node_ok n \<and> unat (node_index n) + 1 < 2 ^ 32 \<Longrightarrow>
    apr_allocator_free a ns = (a', given) \<Longrightarrow> allocator_limited lim a'"

lemma limit_in_blocks:
  fixes lim :: "64 word"
  assumes "0 < unat lim" "unat lim + 4095 < 2 ^ 32"
  shows "unat (drop_bit BOUNDARY_INDEX (APR_ALIGN (ucast lim :: 32 word) BOUNDARY_SIZE)) = (unat lim + 4095) div 4096"
proof -
  have "unat (ucast lim :: 32 word) = unat lim"
    using assms by (simp add: unsigned_ucast_eq take_bit_nat_eq_self)
  then have "unat ((ucast lim :: 32 word) + 4095) = unat lim + 4095" using assms by (simp add: unat_word_ariths)
  then show ?thesis by (simp only: unat_drop_div BOUNDARY_INDEX_def align_boundary) simp
qed

lemma allocator_limited_ok:
  assumes "allocator_limited lim a" "0 < unat lim" "unat lim + 4095 < 2 ^ 32"
  shows "allocator_ok a \<and> budget a \<and> unat (max_free_index a) = (unat lim + 4095) div 4096"
  using assms
proof (induction rule: allocator_limited.induct)
  case start
  define m where "m = drop_bit BOUNDARY_INDEX (APR_ALIGN (ucast lim :: 32 word) BOUNDARY_SIZE)"
  have m: "unat m = (unat lim + 4095) div 4096" unfolding m_def by (rule limit_in_blocks [OF start])
  then have "m \<noteq> 0" using start by auto
  have c: "current_free_index (apr_allocator_max_free_set new_allocator lim) = m"
    "max_free_index (apr_allocator_max_free_set new_allocator lim) = m"
    by (simp_all add: apr_allocator_max_free_set_def Let_def m_def [symmetric])
      (simp add: new_allocator_def APR_ALLOCATOR_MAX_FREE_UNLIMITED_def)
  show ?case using m \<open>m \<noteq> 0\<close> by (simp add: budget_def retained_def c)
next
  case (alloc a mem sz r a')
  then show ?case
    using budget_alloc [of a mem sz r a'] ns.take_ok [of a mem sz r a'] by (simp add: apr_allocator_alloc_def)
next
  case (free a ns a' given)
  then show ?case
    using budget_free [of a ns "[]" a' given] ns.give_ok [of a ns a' given]
    by (simp add: apr_allocator_free_def allocator_free_def)
qed

text \<open>
  An allocator whose limit is set when it is made keeps no more free memory than
  the limit, rounded up to whole blocks, in whatever order nodes are taken and given back.
\<close>

theorem apr_allocator_keeps_limit:
  assumes "allocator_limited lim a" "0 < unat lim" "unat lim + 4095 < 2 ^ 32"
  shows "retained a * 4096 \<le> unat lim + 4095"
proof -
  have "retained a \<le> (unat lim + 4095) div 4096"
    using allocator_limited_ok [OF assms] by (simp add: budget_def)
  then have "retained a * 4096 \<le> (unat lim + 4095) div 4096 * 4096" by (rule mult_le_mono1)
  also have "\<dots> \<le> unat lim + 4095" by simp
  finally show ?thesis .
qed

text \<open>With a limit of 8192 bytes, of two nodes given back the first is kept.\<close>

lemma apr_allocator_keeps_limit_witness:
  "\<exists>a. apr_allocator_free (apr_allocator_max_free_set new_allocator 8192)
       [sample_node, sample_node\<lparr>node_at := 81920, first_avail := 81960, endp := 90112\<rparr>] =
     (a, [sample_node\<lparr>node_at := 81920, first_avail := 81960, endp := 90112\<rparr>]) \<and>
     retained a * 4096 \<le> 8192 + 4095"
proof -
  let ?other = "sample_node\<lparr>node_at := 81920, first_avail := 81960, endp := 90112\<rparr>"
  define a where "a = new_allocator\<lparr>max_index := 1, max_free_index := 2, free_nodes := (replicate 20 [])[1 := [sample_node]]\<rparr>"
  have freed: "apr_allocator_free (apr_allocator_max_free_set new_allocator 8192) [sample_node, ?other] = (a, [?other])"
    by (simp add: apr_allocator_free_def allocator_free_def free_one_def new_allocator_def sample_node_def a_def
        APR_ALLOCATOR_MAX_FREE_UNLIMITED_def MAX_INDEX_def Let_def apr_allocator_max_free_set_def APR_ALIGN_def BOUNDARY_INDEX_def)
  have "allocator_limited 8192 a"
    by (rule allocator_limited.free [OF allocator_limited.start _ freed]) (simp add: sample_node_def node_ok_def)
  from apr_allocator_keeps_limit [OF this] show ?thesis using freed by auto
qed

text \<open>An allocator with a limit of 16384 bytes that holds two nodes of 8192 bytes.\<close>

definition full_allocator :: allocator where
  "full_allocator = fst (apr_allocator_free (apr_allocator_max_free_set new_allocator 16384)
     [sample_node, sample_node\<lparr>node_at := 81920, first_avail := 81960, endp := 90112\<rparr>])"

text \<open>
  Lowering the limit of an allocator that holds more than the new limit: the index
  of what may still be kept wraps below zero and is then cut to the whole new limit, so
  the allocator goes on keeping memory. Here 16384 bytes are held when the limit becomes 8192, and
  8192 bytes more are kept.
\<close>

theorem apr_allocator_lowered_limit_ignored:
  "retained full_allocator = 4 \<and>
   (let a = apr_allocator_max_free_set full_allocator 8192 in
      max_free_index a = 2 \<and> retained (fst (apr_allocator_free a [sample_node\<lparr>node_at := 98304\<rparr>])) = 6)"
proof -
  let ?other = "sample_node\<lparr>node_at := 81920, first_avail := 81960, endp := 90112\<rparr>"
  have full: "full_allocator = new_allocator\<lparr>max_index := 1, max_free_index := 4, current_free_index := 0,
      free_nodes := (replicate 20 [])[1 := [?other, sample_node]]\<rparr>"
    by (simp add: full_allocator_def apr_allocator_free_def allocator_free_def free_one_def new_allocator_def sample_node_def
        APR_ALLOCATOR_MAX_FREE_UNLIMITED_def MAX_INDEX_def Let_def apr_allocator_max_free_set_def APR_ALIGN_def BOUNDARY_INDEX_def)
  have slot: "concat ((replicate 20 [])[Suc 0 := ns]) = ns" for ns :: "memnode list"
    by (simp add: eval_nat_numeral)
  show ?thesis
    by (simp add: full retained_def held_def apr_allocator_free_def allocator_free_def free_one_def new_allocator_def
        sample_node_def APR_ALLOCATOR_MAX_FREE_UNLIMITED_def MAX_INDEX_def Let_def apr_allocator_max_free_set_def
        APR_ALIGN_def BOUNDARY_INDEX_def slot)
qed

end
