(* ===== verification/Apr_Subprocess.thy ===== *)
theory Apr_Subprocess
  imports Apr_Prelude
begin

text \<open>
  How a pool disposes of its subprocesses: \<open>free_proc_chain\<close> of
  \<open>srclib/apr/memory/unix/apr_pools.c\<close>. The operating system is a record of the three calls
  the code makes, over any state \<open>'x\<close>: \<open>apr_proc_wait\<close>, which with \<open>APR_NOWAIT\<close> returns at once and
  with \<open>APR_WAIT\<close> may wait for ever (\<open>None\<close>), \<open>apr_proc_kill\<close> and \<open>apr_sleep\<close>. Every call that
  returns is also written to a trace.
\<close>

section \<open>Calls and their trace\<close>

datatype kill_conditions =
    APR_KILL_NEVER
  | APR_KILL_ALWAYS
  | APR_KILL_AFTER_TIMEOUT
  | APR_JUST_WAIT
  | APR_KILL_ONLY_ONCE

datatype wait_how = APR_WAIT | APR_NOWAIT

datatype signal = SIGTERM | SIGKILL

datatype os_call =
    Waited nat wait_how apr_status
  | Signalled nat signal apr_status
  | Slept nat

record 'x proc_os =
  os_poll :: "nat \<Rightarrow> 'x \<Rightarrow> apr_status \<times> 'x"
  os_wait :: "nat \<Rightarrow> 'x \<Rightarrow> (apr_status \<times> 'x) option"
  os_kill :: "nat \<Rightarrow> signal \<Rightarrow> 'x \<Rightarrow> apr_status \<times> 'x"
  os_sleep :: "nat \<Rightarrow> 'x \<Rightarrow> 'x"

type_synonym 'x sys = "'x \<times> os_call list"
type_synonym proc_chain = "(nat \<times> kill_conditions) list"

text \<open>\<open>apr_proc_wait\<close> with \<open>APR_NOWAIT\<close>, and with \<open>APR_WAIT\<close>.\<close>

definition apr_proc_poll :: "'x proc_os \<Rightarrow> nat \<Rightarrow> 'x sys \<Rightarrow> apr_status \<times> 'x sys" where
  "apr_proc_poll os p s =
     (let (rv, x) = os_poll os p (fst s) in (rv, (x, snd s @ [Waited p APR_NOWAIT rv])))"

definition apr_proc_wait :: "'x proc_os \<Rightarrow> nat \<Rightarrow> 'x sys \<Rightarrow> (apr_status \<times> 'x sys) option" where
  "apr_proc_wait os p s =
     map_option (\<lambda>(rv, x). (rv, (x, snd s @ [Waited p APR_WAIT rv]))) (os_wait os p (fst s))"

definition apr_proc_kill :: "'x proc_os \<Rightarrow> nat \<Rightarrow> signal \<Rightarrow> 'x sys \<Rightarrow> apr_status \<times> 'x sys" where
  "apr_proc_kill os p sg s =
     (let (rv, x) = os_kill os p sg (fst s) in (rv, (x, snd s @ [Signalled p sg rv])))"

definition apr_sleep :: "'x proc_os \<Rightarrow> nat \<Rightarrow> 'x sys \<Rightarrow> 'x sys" where
  "apr_sleep os t s = (os_sleep os t (fst s), snd s @ [Slept t])"

section \<open>The chain\<close>

definition TIMEOUT_USECS :: nat where "TIMEOUT_USECS = 3000000"
definition TIMEOUT_INTERVAL :: nat where "TIMEOUT_INTERVAL = 46875"

text \<open>Pick up all defunct processes.\<close>

fun pick_up_defunct :: "'x proc_os \<Rightarrow> proc_chain \<Rightarrow> 'x sys \<Rightarrow> proc_chain \<times> 'x sys" where
  "pick_up_defunct os [] s = ([], s)"
| "pick_up_defunct os ((p, kill_how) # pc) s =
     (let (rv, s) = apr_proc_poll os p s;
          (pc', s) = pick_up_defunct os pc s
      in ((p, if rv \<noteq> APR_CHILD_NOTDONE then APR_KILL_NEVER else kill_how) # pc', s))"

text \<open>The first round of signals.\<close>

fun signal_chain :: "'x proc_os \<Rightarrow> proc_chain \<Rightarrow> bool \<Rightarrow> 'x sys \<Rightarrow> bool \<times> 'x sys" where
  "signal_chain os [] need_timeout s = (need_timeout, s)"
| "signal_chain os ((p, kill_how) # pc) need_timeout s =
     (if kill_how = APR_KILL_AFTER_TIMEOUT \<or> kill_how = APR_KILL_ONLY_ONCE then
        let (rv, s) = apr_proc_kill os p SIGTERM s
        in signal_chain os pc (if rv = APR_SUCCESS then True else need_timeout) s
      else if kill_how = APR_KILL_ALWAYS then
        signal_chain os pc need_timeout (snd (apr_proc_kill os p SIGKILL s))
      else signal_chain os pc need_timeout s)"

text \<open>One check of the status of the subprocesses.\<close>

fun poll_chain :: "'x proc_os \<Rightarrow> proc_chain \<Rightarrow> bool \<Rightarrow> 'x sys \<Rightarrow> bool \<times> proc_chain \<times> 'x sys" where
  "poll_chain os [] need_timeout s = (need_timeout, [], s)"
| "poll_chain os ((p, kill_how) # pc) need_timeout s =
     (if kill_how = APR_KILL_AFTER_TIMEOUT then
        let (rv, s) = apr_proc_poll os p s
        in if rv = APR_CHILD_NOTDONE
           then let (need, pc', s) = poll_chain os pc True s in (need, (p, kill_how) # pc', s)
           else let (need, pc', s) = poll_chain os pc need_timeout s in (need, (p, APR_KILL_NEVER) # pc', s)
      else let (need, pc', s) = poll_chain os pc need_timeout s in (need, (p, kill_how) # pc', s))"

text \<open>The loop around it, entered with \<open>timeout_interval = t\<close>.\<close>

partial_function (option) wait_chain ::
  "'x proc_os \<Rightarrow> proc_chain \<Rightarrow> nat \<Rightarrow> 'x sys \<Rightarrow> (proc_chain \<times> 'x sys) option" where
  "wait_chain os procs t s =
     (case poll_chain os procs False s of
        (need_timeout, procs, s) \<Rightarrow>
          if need_timeout
          then if t \<ge> TIMEOUT_USECS then Some (procs, s)
               else wait_chain os procs (t * 2) (apr_sleep os t s)
          else Some (procs, s))"

declare wait_chain.simps [code]

fun kill_rest :: "'x proc_os \<Rightarrow> proc_chain \<Rightarrow> 'x sys \<Rightarrow> 'x sys" where
  "kill_rest os [] s = s"
| "kill_rest os ((p, kill_how) # pc) s =
     kill_rest os pc (if kill_how = APR_KILL_AFTER_TIMEOUT then snd (apr_proc_kill os p SIGKILL s) else s)"

fun reap_chain :: "'x proc_os \<Rightarrow> proc_chain \<Rightarrow> 'x sys \<Rightarrow> 'x sys option" where
  "reap_chain os [] s = Some s"
| "reap_chain os ((p, kill_how) # pc) s =
     (if kill_how \<noteq> APR_KILL_NEVER
      then Option.bind (apr_proc_wait os p s) (\<lambda>(rv, s). reap_chain os pc s)
      else reap_chain os pc s)"

text \<open>All but the last loop, and the whole.\<close>

definition end_chain :: "'x proc_os \<Rightarrow> proc_chain \<Rightarrow> 'x sys \<Rightarrow> (proc_chain \<times> 'x sys) option" where
  "end_chain os procs s =
     (let (procs, s) = pick_up_defunct os procs s;
          (need_timeout, s) = signal_chain os procs False s
      in Option.bind
           (if need_timeout
            then wait_chain os procs TIMEOUT_INTERVAL (apr_sleep os TIMEOUT_INTERVAL s)
            else Some (procs, s))
           (\<lambda>(procs, s). Some (procs, kill_rest os procs s)))"

definition free_proc_chain :: "'x proc_os \<Rightarrow> proc_chain \<Rightarrow> 'x sys \<Rightarrow> 'x sys option" where
  "free_proc_chain os procs s =
     (if procs = [] then Some s
      else Option.bind (end_chain os procs s) (\<lambda>(procs, s). reap_chain os procs s))"

section \<open>What each pass adds to the trace\<close>

text \<open>The time slept in a trace, and the calls that concern one process.\<close>

fun slept :: "os_call list \<Rightarrow> nat" where
  "slept [] = 0"
| "slept (Slept t # ev) = t + slept ev"
| "slept (_ # ev) = slept ev"

lemma slept_append [simp]: "slept (ev @ ev') = slept ev + slept ev'"
  by (induction ev rule: slept.induct) simp_all

text \<open>What a subprocess may get, by the way it was noted.\<close>

fun may_signal :: "kill_conditions \<Rightarrow> signal \<Rightarrow> bool" where
  "may_signal APR_KILL_ALWAYS sg = (sg = SIGKILL)"
| "may_signal APR_KILL_AFTER_TIMEOUT sg = True"
| "may_signal APR_KILL_ONLY_ONCE sg = (sg = SIGTERM)"
| "may_signal APR_KILL_NEVER sg = False"
| "may_signal APR_JUST_WAIT sg = False"

fun call_ok :: "proc_chain \<Rightarrow> os_call \<Rightarrow> bool" where
  "call_ok procs (Signalled p sg rv) = (\<exists>how. (p, how) \<in> set procs \<and> may_signal how sg)"
| "call_ok procs (Waited p how rv) = True"
| "call_ok procs (Slept t) = True"

definition signals_ok :: "proc_chain \<Rightarrow> os_call list \<Rightarrow> bool" where
  "signals_ok procs ev \<longleftrightarrow> (\<forall>c \<in> set ev. call_ok procs c)"

text \<open>A chain in which some entries were turned off, each because its process was found to have ended.\<close>

definition turned_off :: "os_call list \<Rightarrow> nat \<times> kill_conditions \<Rightarrow> nat \<times> kill_conditions \<Rightarrow> bool" where
  "turned_off ev x y \<longleftrightarrow> y = x \<or>
     y = (fst x, APR_KILL_NEVER) \<and> (\<exists>rv. rv \<noteq> APR_CHILD_NOTDONE \<and> Waited (fst x) APR_NOWAIT rv \<in> set ev)"

lemma turned_off_mono: "turned_off ev x y \<Longrightarrow> set ev \<subseteq> set ev' \<Longrightarrow> turned_off ev' x y"
  by (auto simp: turned_off_def)

lemma turned_off_trans: "turned_off ev x y \<Longrightarrow> turned_off ev y z \<Longrightarrow> turned_off ev x z"
  by (auto simp: turned_off_def)

lemma turned_off_list_mono:
  "list_all2 (turned_off ev) xs ys \<Longrightarrow> set ev \<subseteq> set ev' \<Longrightarrow> list_all2 (turned_off ev') xs ys"
  using list_all2_mono turned_off_mono by blast

lemma turned_off_list_trans:
  "list_all2 (turned_off ev) xs ys \<Longrightarrow> list_all2 (turned_off ev) ys zs \<Longrightarrow> list_all2 (turned_off ev) xs zs"
  by (rule list_all2_trans [OF turned_off_trans])

lemma turned_off_refl [simp]: "list_all2 (turned_off ev) xs xs"
  by (simp add: list_all2_refl turned_off_def)

lemma signals_ok_simps [simp]:
  "signals_ok procs []" "signals_ok procs (ev @ ev') \<longleftrightarrow> signals_ok procs ev \<and> signals_ok procs ev'"
  "signals_ok procs (c # ev) \<longleftrightarrow> call_ok procs c \<and> signals_ok procs ev"
  by (auto simp: signals_ok_def)

lemma signals_ok_mono: "set procs \<subseteq> set procs' \<Longrightarrow> signals_ok procs ev \<Longrightarrow> signals_ok procs' ev"
proof -
  assume sub: "set procs \<subseteq> set procs'"
  have "call_ok procs c \<Longrightarrow> call_ok procs' c" for c using sub by (cases c) auto
  then show "signals_ok procs ev \<Longrightarrow> signals_ok procs' ev" by (auto simp: signals_ok_def)
qed

lemma turned_off_signals:
  assumes "list_all2 (turned_off e) xs ys" "signals_ok ys ev"
  shows "signals_ok xs ev"
proof -
  have "\<exists>how. (p, how) \<in> set xs \<and> may_signal how sg" if "(p, how) \<in> set ys" "may_signal how sg" for p how sg
    using assms(1) that
  proof (induction rule: list_all2_induct)
    case (Cons x xs y ys)
    then show ?case by (cases x) (auto simp: turned_off_def)
  qed simp
  then have "call_ok ys c \<Longrightarrow> call_ok xs c" for c by (cases c) auto
  then show ?thesis using assms(2) by (auto simp: signals_ok_def)
qed

text \<open>The calls of one step.\<close>

lemma step_trace [simp]:
  "snd (snd (apr_proc_poll os p s)) = snd s @ [Waited p APR_NOWAIT (fst (apr_proc_poll os p s))]"
  "snd (snd (apr_proc_kill os p sg s)) = snd s @ [Signalled p sg (fst (apr_proc_kill os p sg s))]"
  "snd (apr_sleep os t s) = snd s @ [Slept t]"
  by (simp_all add: apr_proc_poll_def apr_proc_kill_def apr_sleep_def split: prod.splits)

lemma pick_up_trace:
  assumes "pick_up_defunct os procs s = (procs', s')"
  shows "\<exists>ev. snd s' = snd s @ ev \<and> list_all2 (turned_off ev) procs procs' \<and> slept ev = 0 \<and> signals_ok procs ev"
  using assms
proof (induction os procs s arbitrary: procs' s' rule: pick_up_defunct.induct)
  case (2 os p how pc s)
  obtain rv s1 where w: "apr_proc_poll os p s = (rv, s1)" by (rule prod.exhaust)
  obtain pc' s2 where r: "pick_up_defunct os pc s1 = (pc', s2)" by (rule prod.exhaust)
  have res: "procs' = (p, if rv \<noteq> APR_CHILD_NOTDONE then APR_KILL_NEVER else how) # pc'" "s' = s2"
    using "2.prems" w r by simp_all
  obtain ev where ev: "snd s2 = snd s1 @ ev" "list_all2 (turned_off ev) pc pc'" "slept ev = 0" "signals_ok pc ev"
    using "2.IH" [OF w [symmetric] refl r] by blast
  have t: "snd s1 = snd s @ [Waited p APR_NOWAIT rv]" using step_trace(1) [of os p s] by (simp add: w)
  let ?ev = "Waited p APR_NOWAIT rv # ev"
  have "list_all2 (turned_off ?ev) pc pc'" using ev(2) by (rule turned_off_list_mono) auto
  moreover have "turned_off ?ev (p, how) (p, if rv \<noteq> APR_CHILD_NOTDONE then APR_KILL_NEVER else how)"
    by (auto simp: turned_off_def)
  moreover have "signals_ok ((p, how) # pc) ev" using ev(4) by (rule signals_ok_mono [rotated]) auto
  ultimately show ?case using ev t by (intro exI [of _ ?ev]) (simp add: res)
qed simp

lemma signal_chain_trace:
  assumes "signal_chain os procs need s = (need', s')"
  shows "\<exists>ev. snd s' = snd s @ ev \<and> slept ev = 0 \<and> signals_ok procs ev"
  using assms
proof (induction procs arbitrary: need s)
  case (Cons x pc)
  obtain p how where x: "x = (p, how)" by (rule prod.exhaust)
  note up = signals_ok_mono [OF set_subset_Cons]
  consider (soft) "how = APR_KILL_AFTER_TIMEOUT \<or> how = APR_KILL_ONLY_ONCE" | (kill) "how = APR_KILL_ALWAYS"
    | (none) "\<not> (how = APR_KILL_AFTER_TIMEOUT \<or> how = APR_KILL_ONLY_ONCE)" "how \<noteq> APR_KILL_ALWAYS" by blast
  then show ?case
  proof cases
    case soft
    obtain rv s1 where k: "apr_proc_kill os p SIGTERM s = (rv, s1)" by (rule prod.exhaust)
    have "signal_chain os pc (if rv = APR_SUCCESS then True else need) s1 = (need', s')"
      using Cons.prems x soft k by simp
    from Cons.IH [OF this]
    obtain ev where ev: "snd s' = snd s1 @ ev" "slept ev = 0" "signals_ok pc ev" by blast
    have "snd s1 = snd s @ [Signalled p SIGTERM rv]" using step_trace(2) [of os p SIGTERM s] by (simp add: k)
    then show ?thesis using ev up [OF ev(3)] soft x by (intro exI [of _ "Signalled p SIGTERM rv # ev"]) auto
  next
    case kill
    then have "signal_chain os pc need (snd (apr_proc_kill os p SIGKILL s)) = (need', s')" using Cons.prems x by simp
    from Cons.IH [OF this]
    obtain ev where ev: "snd s' = snd (snd (apr_proc_kill os p SIGKILL s)) @ ev" "slept ev = 0" "signals_ok pc ev" by auto
    then show ?thesis
      using ev up [OF ev(3)] kill x
      by (intro exI [of _ "Signalled p SIGKILL (fst (apr_proc_kill os p SIGKILL s)) # ev"]) auto
  next
    case none
    then have "signal_chain os pc need s = (need', s')" using Cons.prems x by simp
    from Cons.IH [OF this] show ?thesis using up by blast
  qed
qed simp

lemma poll_chain_trace:
  assumes "poll_chain os procs need s = (need', procs', s')"
  shows "\<exists>ev. snd s' = snd s @ ev \<and> list_all2 (turned_off ev) procs procs' \<and> slept ev = 0 \<and> signals_ok procs ev \<and>
    (need' \<longrightarrow> need \<or> APR_KILL_AFTER_TIMEOUT \<in> snd ` set procs) \<and> (\<not> need' \<longrightarrow> APR_KILL_AFTER_TIMEOUT \<notin> snd ` set procs') \<and> (need \<longrightarrow> need')"
  using assms
proof (induction procs arbitrary: need s procs')
  case (Cons x pc)
  obtain p how where x: "x = (p, how)" by (rule prod.exhaust)
  note up = signals_ok_mono [OF set_subset_Cons]
  consider (live) "how = APR_KILL_AFTER_TIMEOUT" | (os) "how \<noteq> APR_KILL_AFTER_TIMEOUT" by blast
  then show ?case
  proof cases
    case live
    obtain rv s1 where w: "apr_proc_poll os p s = (rv, s1)" by (rule prod.exhaust)
    have t: "snd s1 = snd s @ [Waited p APR_NOWAIT rv]" using step_trace(1) [of os p s] by (simp add: w)
    define m where "m = (if rv = APR_CHILD_NOTDONE then True else need)"
    obtain pc' where r: "poll_chain os pc m s1 = (need', pc', s')"
      and p': "procs' = (p, if rv = APR_CHILD_NOTDONE then how else APR_KILL_NEVER) # pc'"
      using Cons.prems x live w by (auto simp: m_def split: if_splits prod.splits)
    obtain ev where ev: "snd s' = snd s1 @ ev" "list_all2 (turned_off ev) pc pc'" "slept ev = 0" "signals_ok pc ev"
      "need' \<longrightarrow> m \<or> APR_KILL_AFTER_TIMEOUT \<in> snd ` set pc" "\<not> need' \<longrightarrow> APR_KILL_AFTER_TIMEOUT \<notin> snd ` set pc'"
      "m \<longrightarrow> need'"
      using Cons.IH [OF r] by blast
    let ?ev = "Waited p APR_NOWAIT rv # ev"
    have "list_all2 (turned_off ?ev) pc pc'" using ev(2) by (rule turned_off_list_mono) auto
    moreover have "turned_off ?ev (p, how) (p, if rv = APR_CHILD_NOTDONE then how else APR_KILL_NEVER)"
      by (auto simp: turned_off_def)
    ultimately show ?thesis
      using ev t up [OF ev(4)] live by (intro exI [of _ ?ev]) (auto simp: p' m_def x split: if_splits)
  next
    case os
    obtain pc' where r: "poll_chain os pc need s = (need', pc', s')" "procs' = (p, how) # pc'"
      using Cons.prems x os by (auto split: prod.splits)
    show ?thesis
      using Cons.IH [OF r(1)] up os by (auto simp: r(2) x turned_off_def)
  qed
qed simp

text \<open>
  The sleeps double from \<open>TIMEOUT_INTERVAL\<close>, one 64th of \<open>TIMEOUT_USECS\<close>, and the first
  is taken twice, so they add up to \<open>TIMEOUT_USECS\<close> when the loop is left by its \<open>break\<close>.
\<close>

lemma wait_chain_trace:
  assumes "k \<le> 6" "t = TIMEOUT_INTERVAL * 2 ^ k"
  shows "\<exists>procs' s' ev. wait_chain os procs t s = Some (procs', s') \<and> snd s' = snd s @ ev \<and>
    list_all2 (turned_off ev) procs procs' \<and> signals_ok procs ev \<and> t + slept ev \<le> TIMEOUT_USECS \<and>
    (APR_KILL_AFTER_TIMEOUT \<in> snd ` set procs' \<longrightarrow> t + slept ev = TIMEOUT_USECS)"
  using assms
proof (induction "6 - k" arbitrary: k t procs s)
  case 0
  then have t: "t = TIMEOUT_USECS" by (simp add: TIMEOUT_INTERVAL_def TIMEOUT_USECS_def)
  obtain need procs1 s1 where p: "poll_chain os procs False s = (need, procs1, s1)" by (metis surj_pair)
  have "wait_chain os procs t s = Some (procs1, s1)"
    by (subst wait_chain.simps) (simp add: p t)
  then show ?case using poll_chain_trace [OF p] t by auto
next
  case (Suc n)
  from Suc.hyps(2) consider "k = 0" | "k = 1" | "k = 2" | "k = 3" | "k = 4" | "k = 5" by linarith
  then have t: "\<not> t \<ge> TIMEOUT_USECS" "t * 2 \<le> TIMEOUT_USECS"
    unfolding Suc.prems(2) by (cases; simp add: TIMEOUT_INTERVAL_def TIMEOUT_USECS_def)+
  obtain need procs1 s1 where p: "poll_chain os procs False s = (need, procs1, s1)" by (metis surj_pair)
  obtain ev where ev: "snd s1 = snd s @ ev" "list_all2 (turned_off ev) procs procs1" "slept ev = 0" "signals_ok procs ev"
    "\<not> need \<longrightarrow> APR_KILL_AFTER_TIMEOUT \<notin> snd ` set procs1" using poll_chain_trace [OF p] by blast
  show ?case
  proof (cases need)
    case True
    have w: "wait_chain os procs t s = wait_chain os procs1 (t * 2) (apr_sleep os t s1)"
      using True t by (subst wait_chain.simps) (simp add: p)
    have next_k: "n = 6 - Suc k" "Suc k \<le> 6" "t * 2 = TIMEOUT_INTERVAL * 2 ^ Suc k"
      using Suc.hyps(2) Suc.prems by auto
    obtain procs' s' ev' where e: "wait_chain os procs1 (t * 2) (apr_sleep os t s1) = Some (procs', s')"
      "snd s' = snd (apr_sleep os t s1) @ ev'" "list_all2 (turned_off ev') procs1 procs'" "signals_ok procs1 ev'"
      "t * 2 + slept ev' \<le> TIMEOUT_USECS" "APR_KILL_AFTER_TIMEOUT \<in> snd ` set procs' \<longrightarrow> t * 2 + slept ev' = TIMEOUT_USECS"
      using Suc.hyps(1) [OF next_k, of procs1 "apr_sleep os t s1"] by blast
    let ?ev = "ev @ Slept t # ev'"
    have "list_all2 (turned_off ?ev) procs procs'"
      using turned_off_list_mono [OF ev(2), of ?ev] turned_off_list_mono [OF e(3), of ?ev] turned_off_list_trans by fastforce
    moreover have "signals_ok procs ?ev" using ev(4) turned_off_signals [OF ev(2) e(4)] by simp
    ultimately show ?thesis
      unfolding w e(1) using e(2,5,6) ev(1,3) by (intro exI [of _ procs'] exI [of _ s'] exI [of _ ?ev]) auto
  next
    case False
    then have "wait_chain os procs t s = Some (procs1, s1)" by (subst wait_chain.simps) (simp add: p)
    then show ?thesis using ev False t by (intro exI [of _ procs1] exI [of _ s1] exI [of _ ev]) simp
  qed
qed

lemma kill_rest_trace:
  "\<exists>ev. snd (kill_rest os procs s) = snd s @ ev \<and> slept ev = 0 \<and> signals_ok procs ev \<and>
     (APR_KILL_AFTER_TIMEOUT \<notin> snd ` set procs \<longrightarrow> ev = [])"
proof (induction procs arbitrary: s)
  case (Cons x pc)
  obtain p how where x: "x = (p, how)" by (rule prod.exhaust)
  note up = signals_ok_mono [OF set_subset_Cons]
  define s1 where "s1 = (if how = APR_KILL_AFTER_TIMEOUT then snd (apr_proc_kill os p SIGKILL s) else s)"
  obtain ev where ev: "snd (kill_rest os pc s1) = snd s1 @ ev" "slept ev = 0" "signals_ok pc ev"
    "APR_KILL_AFTER_TIMEOUT \<notin> snd ` set pc \<longrightarrow> ev = []" using Cons.IH by blast
  have k: "kill_rest os (x # pc) s = kill_rest os pc s1" by (simp add: x s1_def)
  show ?case
  proof (cases "how = APR_KILL_AFTER_TIMEOUT")
    case True
    then show ?thesis
      unfolding k using ev up [OF ev(3)] x
      by (intro exI [of _ "Signalled p SIGKILL (fst (apr_proc_kill os p SIGKILL s)) # ev"]) (auto simp: s1_def)
  next
    case False
    then show ?thesis unfolding k using ev up [OF ev(3)] x by (intro exI [of _ ev]) (auto simp: s1_def)
  qed
qed simp

text \<open>The last loop: what it adds when it returns, and the wait in which it stays when it does not.\<close>

lemma reap_chain_trace:
  "case reap_chain os procs s of
     Some s' \<Rightarrow> \<exists>ev. snd s' = snd s @ ev \<and> slept ev = 0 \<and> signals_ok [] ev \<and>
       (\<forall>(p, how) \<in> set procs. how \<noteq> APR_KILL_NEVER \<longrightarrow> (\<exists>rv. Waited p APR_WAIT rv \<in> set ev))
   | None \<Rightarrow> \<exists>p how x. (p, how) \<in> set procs \<and> how \<noteq> APR_KILL_NEVER \<and> os_wait os p x = None"
proof (induction procs arbitrary: s)
  case (Cons x pc)
  obtain p how where x: "x = (p, how)" by (rule prod.exhaust)
  show ?case
  proof (cases "how \<noteq> APR_KILL_NEVER")
    case True
    show ?thesis
    proof (cases "os_wait os p (fst s)")
      case None
      then show ?thesis using True x by (auto simp: apr_proc_wait_def)
    next
      case (Some r)
      obtain rv y where r: "r = (rv, y)" by (rule prod.exhaust)
      let ?s = "(y, snd s @ [Waited p APR_WAIT rv])"
      have k: "reap_chain os (x # pc) s = reap_chain os pc ?s" using True x Some r by (simp add: apr_proc_wait_def)
      show ?thesis
      proof (cases "reap_chain os pc ?s")
        case None
        then show ?thesis using Cons.IH [of ?s] by (auto simp: k)
      next
        case (Some s')
        then obtain ev where ev: "snd s' = snd s @ Waited p APR_WAIT rv # ev" "slept ev = 0" "signals_ok [] ev"
          "\<forall>(p, how) \<in> set pc. how \<noteq> APR_KILL_NEVER \<longrightarrow> (\<exists>rv. Waited p APR_WAIT rv \<in> set ev)"
          using Cons.IH [of ?s] by auto
        then show ?thesis unfolding k Some using x by (auto intro!: exI [of _ "Waited p APR_WAIT rv # ev"])
      qed
    qed
  next
    case False
    then have "reap_chain os (x # pc) s = reap_chain os pc s" using x by simp
    then show ?thesis using Cons.IH [of s] False x by (auto split: option.splits)
  qed
qed simp

section \<open>The whole pass\<close>

lemma end_chain_trace:
  "\<exists>procs' s' ev. end_chain os procs s = Some (procs', s') \<and> snd s' = snd s @ ev \<and> signals_ok procs ev \<and>
     slept ev \<le> TIMEOUT_USECS \<and> list_all2 (turned_off ev) procs procs'"
proof -
  obtain procs1 s1 where a: "pick_up_defunct os procs s = (procs1, s1)" by (rule prod.exhaust)
  obtain need s2 where b: "signal_chain os procs1 False s1 = (need, s2)" by (rule prod.exhaust)
  from pick_up_trace [OF a] obtain e1 where
    e1: "snd s1 = snd s @ e1" "list_all2 (turned_off e1) procs procs1" "slept e1 = 0" "signals_ok procs e1" by blast
  from signal_chain_trace [OF b] obtain e2 where e2: "snd s2 = snd s1 @ e2" "slept e2 = 0" "signals_ok procs1 e2" by blast
  obtain procs3 s3 e3 where c: "(if need then wait_chain os procs1 TIMEOUT_INTERVAL (apr_sleep os TIMEOUT_INTERVAL s2)
      else Some (procs1, s2)) = Some (procs3, s3)"
    and e3: "snd s3 = snd s2 @ e3" "list_all2 (turned_off e3) procs1 procs3" "signals_ok procs1 e3" "slept e3 \<le> TIMEOUT_USECS"
  proof (cases need)
    case True
    obtain procs3 s3 e where w: "wait_chain os procs1 TIMEOUT_INTERVAL (apr_sleep os TIMEOUT_INTERVAL s2) = Some (procs3, s3)"
      "snd s3 = snd (apr_sleep os TIMEOUT_INTERVAL s2) @ e" "list_all2 (turned_off e) procs1 procs3" "signals_ok procs1 e"
      "TIMEOUT_INTERVAL + slept e \<le> TIMEOUT_USECS"
      using wait_chain_trace [of 0 TIMEOUT_INTERVAL os procs1 "apr_sleep os TIMEOUT_INTERVAL s2"] by auto
    have "list_all2 (turned_off (Slept TIMEOUT_INTERVAL # e)) procs1 procs3" using w(3) by (rule turned_off_list_mono) auto
    then show thesis using w True by (intro that [of procs3 s3 "Slept TIMEOUT_INTERVAL # e"]) auto
  next
    case False
    then show thesis by (intro that [of procs1 s2 "[]"]) auto
  qed
  obtain e4 where e4: "snd (kill_rest os procs3 s3) = snd s3 @ e4" "slept e4 = 0" "signals_ok procs3 e4"
    using kill_rest_trace by blast
  let ?ev = "e1 @ e2 @ e3 @ e4"
  have res: "end_chain os procs s = Some (procs3, kill_rest os procs3 s3)"
    by (simp add: end_chain_def a b c)
  have off: "list_all2 (turned_off ?ev) procs procs3"
    using turned_off_list_mono [OF e1(2), of ?ev] turned_off_list_mono [OF e3(2), of ?ev] turned_off_list_trans
    by fastforce
  have sig: "signals_ok procs ?ev"
    using e1(4) turned_off_signals [OF e1(2) e2(3)] turned_off_signals [OF e1(2) e3(3)] turned_off_signals [OF off e4(3)] by simp
  show ?thesis
    unfolding res using sig e1(1,3) e2(1,2) e3(1,4) e4(1,2) off
    by (intro exI [of _ procs3] exI [of _ "kill_rest os procs3 s3"] exI [of _ ?ev]) simp
qed

text \<open>The waits that return.\<close>

definition waits_return :: "'x proc_os \<Rightarrow> bool" where
  "waits_return os \<longleftrightarrow> (\<forall>p x. os_wait os p x \<noteq> None)"

lemma free_proc_chain_cases:
  "\<exists>procs' s1 ev. end_chain os procs s = Some (procs', s1) \<and> snd s1 = snd s @ ev \<and> slept ev \<le> TIMEOUT_USECS \<and> signals_ok procs ev \<and>
     list_all2 (turned_off ev) procs procs' \<and> (procs \<noteq> [] \<longrightarrow> free_proc_chain os procs s = reap_chain os procs' s1)"
  using end_chain_trace [of os procs s] by (auto simp: free_proc_chain_def)

lemma free_proc_chain_returns: "waits_return os \<Longrightarrow> \<exists>s'. free_proc_chain os procs s = Some s'"
proof (cases "procs = []")
  case False
  assume "waits_return os"
  then have w: "os_wait os p x \<noteq> None" for p x by (simp add: waits_return_def)
  from free_proc_chain_cases [of os procs s] False obtain procs' s1 where "free_proc_chain os procs s = reap_chain os procs' s1" by blast
  then show ?thesis using reap_chain_trace [where os = os and procs = procs' and s = s1] w by (cases "reap_chain os procs' s1") auto
qed (simp add: free_proc_chain_def)

text \<open>
  C22. Disposing of the subprocesses of a pool always gets as far as its last loop, the blocking waits, whatever the
  processes do: until then it sleeps for three seconds at most, no process gets a signal that its kill condition does not
  allow, and a process is left out of the waits only if it was noted with \<open>APR_KILL_NEVER\<close> or was found to have ended. If the
  call returns, each of the other processes was waited for, and nothing else was done after the first part; if it does not
  return, that is because the wait for one of them does not.
\<close>

theorem apr_proc_chain_disposed:
  assumes "procs \<noteq> []"
  shows "\<exists>procs' s1 ev. end_chain os procs s = Some (procs', s1) \<and> snd s1 = snd s @ ev \<and> slept ev \<le> 3000000 \<and> signals_ok procs ev \<and>
     list_all2 (\<lambda>(p, how) (p', how'). p' = p \<and> (how' = how \<or>
       how' = APR_KILL_NEVER \<and> (\<exists>rv. rv \<noteq> APR_CHILD_NOTDONE \<and> Waited p APR_NOWAIT rv \<in> set ev))) procs procs' \<and>
     (case free_proc_chain os procs s of
        Some s' \<Rightarrow> \<exists>ev'. snd s' = snd s1 @ ev' \<and> slept ev' = 0 \<and> signals_ok [] ev' \<and>
          (\<forall>(p, how) \<in> set procs'. how \<noteq> APR_KILL_NEVER \<longrightarrow> (\<exists>rv. Waited p APR_WAIT rv \<in> set ev'))
      | None \<Rightarrow> \<exists>p how x. (p, how) \<in> set procs' \<and> how \<noteq> APR_KILL_NEVER \<and> os_wait os p x = None)"
proof -
  from free_proc_chain_cases [of os procs s] obtain procs' s1 ev where
    t: "end_chain os procs s = Some (procs', s1)" "snd s1 = snd s @ ev" "slept ev \<le> 3000000" "signals_ok procs ev"
    and off: "list_all2 (turned_off ev) procs procs'" and run: "procs \<noteq> [] \<longrightarrow> free_proc_chain os procs s = reap_chain os procs' s1"
    unfolding TIMEOUT_USECS_def by blast
  from run assms have run: "free_proc_chain os procs s = reap_chain os procs' s1" by blast
  have "list_all2 (\<lambda>(p, how) (p', how'). p' = p \<and> (how' = how \<or>
      how' = APR_KILL_NEVER \<and> (\<exists>rv. rv \<noteq> APR_CHILD_NOTDONE \<and> Waited p APR_NOWAIT rv \<in> set ev))) procs procs'"
    using off by (rule list_all2_mono) (auto simp: turned_off_def)
  with t show ?thesis unfolding run using reap_chain_trace [where os = os and procs = procs' and s = s1] by (intro exI conjI)
qed

text \<open>A subprocess that ignores \<open>SIGTERM\<close>: it is killed after three seconds, and waited for.\<close>

definition stubborn :: "unit proc_os" where
  "stubborn = \<lparr>os_poll = \<lambda>p x. (APR_CHILD_NOTDONE, x), os_wait = \<lambda>p x. Some (APR_CHILD_DONE, x),
     os_kill = \<lambda>p sg x. (APR_SUCCESS, x), os_sleep = \<lambda>t x. x\<rparr>"

lemma apr_proc_chain_disposed_witness:
  "\<exists>procs' s1 s'. end_chain stubborn [(7, APR_KILL_AFTER_TIMEOUT)] ((), []) = Some (procs', s1) \<and> slept (snd s1) = 3000000 \<and>
     Signalled 7 SIGKILL APR_SUCCESS \<in> set (snd s1) \<and> signals_ok [(7, APR_KILL_AFTER_TIMEOUT)] (snd s1) \<and>
     free_proc_chain stubborn [(7, APR_KILL_AFTER_TIMEOUT)] ((), []) = Some s'"
proof -
  let ?procs = "[(7, APR_KILL_AFTER_TIMEOUT)]"
  have "?procs \<noteq> []" by simp
  from apr_proc_chain_disposed [OF this, of stubborn "((), [])"] obtain procs' s1
    where t: "end_chain stubborn ?procs ((), []) = Some (procs', s1)" "signals_ok ?procs (snd s1)" by auto
  have "waits_return stubborn" by (simp add: waits_return_def stubborn_def)
  then obtain s' where "free_proc_chain stubborn ?procs ((), []) = Some s'" using free_proc_chain_returns by blast
  moreover have "map_option (\<lambda>(procs, s). slept (snd s) = 3000000 \<and> Signalled 7 SIGKILL APR_SUCCESS \<in> set (snd s))
      (end_chain stubborn ?procs ((), [])) = Some True"
    by (simp add: end_chain_def apr_proc_poll_def apr_proc_kill_def apr_sleep_def stubborn_def
        TIMEOUT_INTERVAL_def TIMEOUT_USECS_def wait_chain.simps)
  ultimately show ?thesis using t by (intro exI [of _ procs'] exI [of _ s1] exI [of _ s']) simp
qed

end
