(* ===== verification/Apr_Pools.thy ===== *)
theory Apr_Pools
  imports Apr_Allocator Apr_Subprocess
begin

text \<open>
  The memory of one pool (\<open>srclib/apr/memory/unix/apr_pools.c\<close>, without pool debugging):
  its ring of nodes, \<open>apr_palloc\<close>, and what \<open>apr_pool_clear\<close> and
  \<open>apr_pool_destroy\<close> do with the nodes. The ring linked by \<open>next\<close> and \<open>ref\<close> is the
  list of its nodes from \<open>active\<close> on; the node behind the last one is the first.
\<close>

section \<open>Pools\<close>

text \<open>
  A pointer to a pool is its address. \<open>ref\<close> points to the pointer that
  references the pool: the \<open>child\<close> of its parent or the \<open>sibling\<close> of the pool before it.
  Functions are numbers; \<open>child_cleanup_fn\<close> of a pre-cleanup is never set.
\<close>

datatype pool_ref = Child_of nat | Sibling_of nat

record cleanup =
  cleanup_data :: nat
  plain_cleanup_fn :: nat
  child_cleanup_fn :: "nat option"

record pool =
  parent :: "nat option"
  child :: "nat option"
  sibling :: "nat option"
  ref :: "pool_ref option"
  cleanups :: "cleanup list"
  free_cleanups :: "cleanup list"
  pool_allocator :: nat
  subprocesses :: proc_chain
  abort_fn :: "nat option"
  tag :: "cstr option"
  nodes :: "memnode list"
  self :: nat
  self_first_avail :: nat
  pre_cleanups :: "cleanup list"

text \<open>\<open>sizeof (apr_pool_t)\<close>: fifteen pointers.\<close>

definition SIZEOF_POOL_T :: "64 word" where
  "SIZEOF_POOL_T = APR_ALIGN_DEFAULT 120"

definition node_free_space :: "memnode \<Rightarrow> 64 word" where
  "node_free_space node = of_nat (endp node - first_avail node)"

section \<open>Allocation\<close>

text \<open>
  \<open>active\<close> goes before the first node behind the new head that has no more
  free blocks than it; the walk ends at the head, whose \<open>free_index\<close> is 0.
\<close>

fun list_insert_by :: "64 word \<Rightarrow> memnode \<Rightarrow> memnode list \<Rightarrow> memnode list" where
  "list_insert_by fi active [] = [active]"
| "list_insert_by fi active (node # ns) =
     (if fi \<ge> ucast (free_index node) then active # node # ns else node # list_insert_by fi active ns)"

definition free_index_of :: "memnode \<Rightarrow> 64 word" where
  "free_index_of active =
     drop_bit BOUNDARY_INDEX (APR_ALIGN (node_free_space active + 1) BOUNDARY_SIZE - BOUNDARY_SIZE)"

text \<open>The rest of \<open>apr_palloc\<close> once it has \<open>node\<close>, which is not in the ring.\<close>

definition palloc_from :: "memnode \<Rightarrow> memnode \<Rightarrow> memnode list \<Rightarrow> 64 word \<Rightarrow> pool \<Rightarrow> nat option \<times> pool" where
  "palloc_from node active ns sz pool =
     (let mem = first_avail node;
          node = node\<lparr>free_index := 0, first_avail := first_avail node + unat sz\<rparr>;
          fi = free_index_of active;
          active = active\<lparr>free_index := ucast fi\<rparr>
      in (Some mem, pool\<lparr>nodes := node # list_insert_by fi active ns\<rparr>))"

definition palloc :: "nat option \<Rightarrow> allocator \<Rightarrow> pool \<Rightarrow> 64 word \<Rightarrow> nat option \<times> allocator \<times> pool" where
  "palloc mem al pool in_size =
     (let sz = APR_ALIGN_DEFAULT in_size
      in if sz < in_size then (None, al, pool)
      else
        (case nodes pool of
           [] \<Rightarrow> (None, al, pool)
         | active # ns \<Rightarrow>
             if sz \<le> node_free_space active
             then (Some (first_avail active), al,
                   pool\<lparr>nodes := active\<lparr>first_avail := first_avail active + unat sz\<rparr> # ns\<rparr>)
             else
               (case ns of
                  node # rest \<Rightarrow>
                    if sz \<le> node_free_space node
                    then let (r, pool) = palloc_from node active rest sz pool in (r, al, pool)
                    else (case allocator_alloc mem al sz of
                            (None, al) \<Rightarrow> (None, al, pool)
                          | (Some new, al) \<Rightarrow> let (r, pool) = palloc_from new active ns sz pool in (r, al, pool))
                | [] \<Rightarrow> (case allocator_alloc mem al sz of
                            (None, al) \<Rightarrow> (None, al, pool)
                          | (Some new, al) \<Rightarrow> let (r, pool) = palloc_from new active [] sz pool in (r, al, pool)))))"

text \<open>The ring from the node of the pool structure on.\<close>

definition ring_from :: "nat \<Rightarrow> memnode list \<Rightarrow> memnode list" where
  "ring_from at ns = dropWhile (\<lambda>n. node_at n \<noteq> at) ns @ takeWhile (\<lambda>n. node_at n \<noteq> at) ns"

text \<open>The node of a new pool.\<close>

definition first_node :: "memnode \<Rightarrow> memnode" where
  "first_node node = node\<lparr>first_avail := first_avail node + unat SIZEOF_POOL_T\<rparr>"

text \<open>
  The structure that \<open>apr_pool_create_ex\<close> and \<open>apr_pool_create_unmanaged_ex\<close> set up
  in its first node, before it is linked to its parent.
\<close>

definition new_pool :: "memnode \<Rightarrow> nat \<Rightarrow> nat option \<Rightarrow> pool" where
  "new_pool node al abort =
     \<lparr>parent = None, child = None, sibling = None, ref = None, cleanups = [], free_cleanups = [],
      pool_allocator = al, subprocesses = [], abort_fn = abort, tag = None, nodes = [first_node node],
      self = node_at node, self_first_avail = first_avail (first_node node), pre_cleanups = []\<rparr>"

text \<open>\<open>apr_pool_clear\<close> from the reset of \<open>active\<close> on.\<close>

definition clear_nodes :: "allocator \<Rightarrow> pool \<Rightarrow> (allocator \<times> memnode list) \<times> pool" where
  "clear_nodes al pool =
     (case ring_from (self pool) (nodes pool) of
        [] \<Rightarrow> ((al, []), pool)
      | active # rest \<Rightarrow>
          (if rest = [] then (al, []) else allocator_free al rest,
           pool\<lparr>nodes := [active\<lparr>first_avail := self_first_avail pool\<rparr>]\<rparr>))"

definition destroy_nodes :: "allocator \<Rightarrow> pool \<Rightarrow> allocator \<times> memnode list" where
  "destroy_nodes al pool = allocator_free al (ring_from (self pool) (nodes pool))"

section \<open>Nodes in use\<close>

text \<open>A node of a pool: what is below \<open>first_avail\<close> is handed out, the rest up to \<open>endp\<close> is free.\<close>

definition node_in_use :: "memnode \<Rightarrow> bool" where
  "node_in_use n \<longleftrightarrow> node_ok n \<and> node_at n + 40 \<le> first_avail n \<and> first_avail n \<le> endp n \<and>
     node_at n mod 8 = 0 \<and> first_avail n mod 8 = 0"

definition pool_ok :: "pool \<Rightarrow> bool" where
  "pool_ok p \<longleftrightarrow> (\<forall>n \<in> set (nodes p). node_in_use n \<and> (node_at n = self p \<longrightarrow> self p + 160 \<le> first_avail n)) \<and>
     self p \<in> node_at ` set (nodes p) \<and> self_first_avail p = self p + 160 \<and>
     sorted_wrt (\<ge>) (map free_index (tl (nodes p)))"

lemma pool_size [simp]: "SIZEOF_POOL_T = 120"
  by (simp add: SIZEOF_POOL_T_def APR_ALIGN_DEFAULT_def APR_ALIGN_def)

lemma align_default_unat:
  assumes "\<not> APR_ALIGN_DEFAULT x < x"
  shows "unat (APR_ALIGN_DEFAULT x) = (unat x + 7) div 8 * 8"
proof -
  have a: "unat (APR_ALIGN_DEFAULT x) = unat (x + 7) div 8 * 8"
    using align_unat [of x 3] by (simp add: APR_ALIGN_DEFAULT_def)
  have lt: "unat x < 2 ^ 64" using unsigned_less [of x] by simp
  have le: "unat x \<le> unat (APR_ALIGN_DEFAULT x)" using assms by (simp add: word_less_nat_alt)
  have "unat x + 7 < 2 ^ 64"
  proof (rule ccontr)
    assume large: "\<not> ?thesis"
    have "unat (x + 7) = (unat x + 7) mod 2 ^ 64" by (simp add: unat_word_ariths)
    also have "\<dots> = unat x + 7 - 2 ^ 64" using large lt by (simp add: mod_if)
    finally have "unat (APR_ALIGN_DEFAULT x) \<le> unat x + 7 - 2 ^ 64" using a by simp
    then show False using le lt large by simp
  qed
  then have "unat (x + 7) = unat x + 7" by (simp add: unat_word_ariths)
  then show ?thesis using a by simp
qed

lemma node_size: "node_ok n \<Longrightarrow> endp n \<le> node_at n + 2 ^ 44"
proof -
  assume "node_ok n"
  moreover have "unat (node_index n) < 2 ^ 32" using unsigned_less [of "node_index n"] by simp
  then have "unat (node_index n) + 1 \<le> 2 ^ 32" by simp
  then have "(unat (node_index n) + 1) * 4096 \<le> 2 ^ 32 * 4096" by (rule mult_le_mono1)
  ultimately show ?thesis by (simp add: node_ok_def)
qed

lemma node_free_unat:
  assumes "node_in_use n"
  shows "unat (node_free_space n) = endp n - first_avail n"
proof -
  have "endp n - first_avail n < 2 ^ LENGTH(64)"
    using assms node_size [of n] by (auto simp: node_in_use_def)
  then show ?thesis unfolding node_free_space_def unat_of_nat by (rule mod_less)
qed

lemma unat_up: "unat (ucast (x :: 32 word) :: 64 word) = unat x"
proof -
  have "unat x < 2 ^ 32" using unsigned_less [of x] by simp
  then show ?thesis by (simp add: unsigned_ucast_eq take_bit_nat_eq_self)
qed

lemma free_index_blocks:
  assumes "node_in_use n"
  shows "unat (free_index_of n) = (endp n - first_avail n) div 4096"
proof -
  define x where "x = endp n - first_avail n"
  have lt: "x < 2 ^ 44" using assms node_size [of n] by (auto simp: node_in_use_def x_def)
  have ux: "unat (node_free_space n) = x" using node_free_unat [OF assms] by (simp add: x_def)
  have "unat (node_free_space n + 1 + 4095) = x + 4096" using lt ux by (simp add: unat_word_ariths)
  moreover have "(x + 4096) div 4096 = x div 4096 + 1" by simp
  ultimately have a: "unat (APR_ALIGN (node_free_space n + 1) BOUNDARY_SIZE) = x div 4096 * 4096 + 4096"
    unfolding align_boundary by (simp only: distrib_right mult_1)
  then have "(BOUNDARY_SIZE :: 64 word) \<le> APR_ALIGN (node_free_space n + 1) BOUNDARY_SIZE"
    by (simp add: word_le_nat_alt)
  then have "unat (APR_ALIGN (node_free_space n + 1) BOUNDARY_SIZE - BOUNDARY_SIZE) = x div 4096 * 4096"
    using a by (simp only: unat_sub) simp
  then show ?thesis unfolding free_index_of_def BOUNDARY_INDEX_def unat_drop_div by (simp add: x_def)
qed

lemma free_index_ucast:
  assumes "node_in_use n"
  shows "ucast (ucast (free_index_of n) :: 32 word) = free_index_of n"
proof -
  have "endp n - first_avail n < 2 ^ 44" using assms node_size [of n] by (auto simp: node_in_use_def)
  then have "unat (free_index_of n) < 2 ^ 32" unfolding free_index_blocks [OF assms] by simp
  then have "unat (ucast (free_index_of n) :: 32 word) = unat (free_index_of n)"
    by (simp add: unsigned_ucast_eq take_bit_nat_eq_self)
  then show ?thesis unfolding word_unat_eq_iff unat_up .
qed

lemma mset_list_insert_by [simp]: "mset (list_insert_by fi a ns) = add_mset a (mset ns)"
  by (induction ns) auto

lemma set_list_insert_by [simp]: "set (list_insert_by fi a ns) = insert a (set ns)"
  by (metis mset_list_insert_by set_mset_add_mset_insert set_mset_mset)

lemma sorted_list_insert_by:
  assumes "sorted_wrt (\<ge>) (map free_index ns)" "ucast (free_index a) = fi"
  shows "sorted_wrt (\<ge>) (map free_index (list_insert_by fi a ns))"
  using assms
proof (induction ns)
  case (Cons n ns)
  have le: "fi \<ge> ucast (free_index n) \<longleftrightarrow> free_index a \<ge> free_index n"
    unfolding Cons.prems(2) [symmetric] by (simp only: word_le_nat_alt unat_up)
  show ?case using Cons le by auto
qed simp

text \<open>What the ring is made of, whatever its order and its \<open>free_index\<close> fields.\<close>

definition extent :: "memnode \<Rightarrow> (nat \<times> nat) \<times> nat \<times> nat" where
  "extent n = (node_block n, first_avail n, endp n)"

definition extents :: "pool \<Rightarrow> ((nat \<times> nat) \<times> nat \<times> nat) multiset" where
  "extents p = image_mset extent (mset (nodes p))"

lemma node_block_upd [simp]:
  "node_block (n\<lparr>free_index := i\<rparr>) = node_block n" "node_block (n\<lparr>first_avail := p\<rparr>) = node_block n"
  by (simp_all add: node_block_def)

lemma extent_upd [simp]:
  "extent (n\<lparr>free_index := i\<rparr>) = extent n" "extent (n\<lparr>first_avail := p\<rparr>) = (node_block n, p, endp n)"
  by (simp_all add: extent_def)

section \<open>One allocation\<close>

text \<open>
  A request that is met takes the bytes it asked for, rounded up to a multiple of eight, off the
  front of the free part of one node \<open>n\<close>: a node of the ring or a new one.
\<close>

definition chunk_from :: "memnode \<Rightarrow> ((nat \<times> nat) \<times> nat \<times> nat) multiset \<Rightarrow> nat \<Rightarrow> pool \<Rightarrow> pool \<Rightarrow> bool" where
  "chunk_from n M len p p' \<longleftrightarrow> first_avail n + len \<le> endp n \<and> p' = p\<lparr>nodes := nodes p'\<rparr> \<and>
     extents p' = add_mset (node_block n, first_avail n + len, endp n) M \<and>
     sorted_wrt (\<ge>) (map free_index (tl (nodes p')))"

lemma palloc_from_ok:
  assumes res: "palloc_from node active ns sz p = (r, p')"
    and old: "node_in_use active" "sorted_wrt (\<ge>) (map free_index ns)" "first_avail node + unat sz \<le> endp node"
  shows "r = Some (first_avail node) \<and> chunk_from node (image_mset extent (mset (active # ns))) (unat sz) p p'"
  using res old(3) sorted_list_insert_by [OF old(2), of "active\<lparr>free_index := ucast (free_index_of active)\<rparr>" "free_index_of active"]
    free_index_ucast [OF old(1)]
  by (auto simp: palloc_from_def Let_def chunk_from_def extents_def)

lemma palloc_ok:
  assumes ok: "pool_ok p" "allocator_ok al" and res: "palloc mem al p in_size = (r, al', p')"
  shows "case r of None \<Rightarrow> al' = al \<and> p' = p | Some q \<Rightarrow>
     \<exists>n M. q = first_avail n \<and> chunk_from n M ((unat in_size + 7) div 8 * 8) p p' \<and>
       (extents p = add_mset (extent n) M \<and> n \<in> set (nodes p) \<and> al' = al \<or>
        extents p = M \<and> good_node 0 n \<and> allocator_alloc mem al (APR_ALIGN_DEFAULT in_size) = (Some n, al'))"
proof -
  define sz where "sz = APR_ALIGN_DEFAULT in_size"
  from ok(1) obtain active ns where ns: "nodes p = active # ns" by (cases "nodes p") (auto simp: pool_ok_def)
  have use: "node_in_use n" if "n \<in> set (nodes p)" for n using ok(1) that by (auto simp: pool_ok_def)
  have sorted: "sorted_wrt (\<ge>) (map free_index ns)" using ok(1) by (simp add: pool_ok_def ns)
  show ?thesis
  proof (cases "sz < in_size")
    case True
    then show ?thesis using res by (simp add: palloc_def sz_def)
  next
    case fits: False
    then have len: "unat sz = (unat in_size + 7) div 8 * 8" unfolding sz_def by (rule align_default_unat)
    have room: "sz \<le> node_free_space n \<Longrightarrow> first_avail n + unat sz \<le> endp n" if "n \<in> set (nodes p)" for n
      using node_free_unat [OF use [OF that]] use [OF that] by (auto simp: word_le_nat_alt node_in_use_def)
    have fresh: ?thesis if new: "(case allocator_alloc mem al sz of (None, al) \<Rightarrow> (None, al, p)
        | (Some new, al) \<Rightarrow> let (r, p) = palloc_from new active ns sz p in (r, al, p)) = (r, al', p')"
    proof (cases "allocator_alloc mem al sz")
      case (Pair x al1)
      show ?thesis
      proof (cases x)
        case None
        then show ?thesis using new Pair allocator_alloc_ok(3) [OF ok(2) Pair None] by simp
      next
        case (Some n)
        have g: "good_node (unat sz) n" using allocator_alloc_ok(2) [OF ok(2) Pair Some] by blast
        then have "first_avail n + unat sz \<le> endp n" "good_node 0 n" by (auto simp: good_node_def node_ok_def)
        moreover have "palloc_from n active ns sz p = (r, p')" "al' = al1"
          using new Pair Some by (auto simp: split: prod.splits)
        ultimately show ?thesis
          using palloc_from_ok [of n active ns sz p r p'] use [of active] sorted Pair Some ns len
          by (auto simp: extents_def simp flip: sz_def)
      qed
    qed
    show ?thesis
    proof (cases "sz \<le> node_free_space active")
      case True
      then have "r = Some (first_avail active)" "al' = al"
        "p' = p\<lparr>nodes := active\<lparr>first_avail := first_avail active + unat sz\<rparr> # ns\<rparr>"
        using res fits by (simp_all add: palloc_def ns flip: sz_def)
      then show ?thesis
        using room [of active] True sorted len
        by (intro option.case_eq_if [THEN iffD2]) (auto simp: chunk_from_def extents_def ns intro!: exI [of _ active])
    next
      case False
      show ?thesis
      proof (cases "\<exists>node rest. ns = node # rest \<and> sz \<le> node_free_space node")
        case True
        then obtain node rest where n: "ns = node # rest" "sz \<le> node_free_space node" by blast
        then have "palloc_from node active rest sz p = (r, p')" "al' = al"
          using res fits False by (simp_all add: palloc_def ns flip: sz_def split: prod.splits)
        then show ?thesis
          using palloc_from_ok [of node active rest sz p r p'] use [of active] sorted room [of node] n ns len
          by (auto simp: extents_def intro!: exI [of _ node] exI [of _ "image_mset extent (mset (active # rest))"])
      next
        case no: False
        then show ?thesis
          using res fits False ns by (intro fresh, cases ns; hypsubst) (simp_all add: palloc_def Let_def flip: sz_def)
      qed
    qed
  qed
qed

section \<open>Histories of one pool\<close>

text \<open>
  The chunks that a pool has handed out since it was last cleared, as (address, size requested),
  with \<open>out\<close> the blocks that other clients of its allocator hold. \<open>malloc\<close> is assumed to return
  a block that is aligned and not in use.
\<close>

definition malloc_ok :: "nat option \<Rightarrow> allocator \<Rightarrow> 64 word \<Rightarrow> (nat \<times> nat) multiset \<Rightarrow> bool" where
  "malloc_ok mem al sz used \<longleftrightarrow>
     (case fst (allocator_alloc mem al sz) of
        None \<Rightarrow> True
      | Some n \<Rightarrow> mem = Some (node_at n) \<longrightarrow> node_at n mod 8 = 0 \<and> (\<forall>b \<in># used. span (node_block n) \<inter> span b = {}))"

definition all_blocks :: "allocator \<Rightarrow> pool \<Rightarrow> (nat \<times> nat) multiset \<Rightarrow> (nat \<times> nat) multiset" where
  "all_blocks al p out = stock al + (blocks (nodes p) + out)"

definition aligned :: "(nat \<times> nat) multiset \<Rightarrow> bool" where
  "aligned B \<longleftrightarrow> (\<forall>b \<in># B. fst b mod 8 = 0)"

inductive pool_run :: "allocator \<Rightarrow> (nat \<times> nat) multiset \<Rightarrow> pool \<Rightarrow> (nat \<times> nat) list \<Rightarrow> bool" where
  start: "allocator_ok al \<Longrightarrow> apart (stock al + out) \<Longrightarrow> aligned (stock al + out) \<Longrightarrow>
    malloc_ok mem al (MIN_ALLOC - APR_MEMNODE_T_SIZE) (stock al + out) \<Longrightarrow>
    allocator_alloc mem al (MIN_ALLOC - APR_MEMNODE_T_SIZE) = (Some n, al') \<Longrightarrow>
    pool_run al' out (new_pool n at abort) []"
| alloc: "pool_run al out p cs \<Longrightarrow> malloc_ok mem al (APR_ALIGN_DEFAULT sz) (all_blocks al p out) \<Longrightarrow>
    palloc mem al p sz = (Some q, al', p') \<Longrightarrow> pool_run al' out p' ((q, unat sz) # cs)"
| clear: "pool_run al out p cs \<Longrightarrow> clear_nodes al p = ((al', given), p') \<Longrightarrow> pool_run al' out p' []"
| others_alloc: "pool_run al out p cs \<Longrightarrow> malloc_ok mem al sz (all_blocks al p out) \<Longrightarrow>
    allocator_alloc mem al sz = (Some n, al') \<Longrightarrow> pool_run al' (add_mset (node_block n) out) p cs"
| others_free: "pool_run al (out + blocks ns) p cs \<Longrightarrow> \<forall>n \<in> set ns. node_ok n \<Longrightarrow>
    allocator_free al ns = (al', given) \<Longrightarrow> pool_run al' out p cs"

section \<open>Chunks stay apart\<close>

definition chunk_in :: "nat \<Rightarrow> nat \<times> nat \<Rightarrow> (nat \<times> nat) \<times> nat \<times> nat \<Rightarrow> bool" where
  "chunk_in at c e \<longleftrightarrow> fst (fst e) + 40 \<le> fst c \<and> fst c + snd c \<le> fst (snd e) \<and> (fst (fst e) = at \<longrightarrow> at + 160 \<le> fst c)"

definition chunks_ok :: "pool \<Rightarrow> (nat \<times> nat) list \<Rightarrow> bool" where
  "chunks_ok p cs \<longleftrightarrow> (\<forall>c \<in> set cs. fst c mod 8 = 0 \<and> (\<exists>e \<in># extents p. chunk_in (self p) c e)) \<and>
     sorted_wrt (\<lambda>c d. {fst c ..< fst c + snd c} \<inter> {fst d ..< fst d + snd d} = {}) cs"

definition pool_inv :: "allocator \<Rightarrow> (nat \<times> nat) multiset \<Rightarrow> pool \<Rightarrow> (nat \<times> nat) list \<Rightarrow> bool" where
  "pool_inv al out p cs \<longleftrightarrow> allocator_ok al \<and> apart (all_blocks al p out) \<and> aligned (all_blocks al p out) \<and>
     pool_ok p \<and> chunks_ok p cs"

lemma aligned_simps [simp]:
  "aligned {#}" "aligned (add_mset b B) \<longleftrightarrow> fst b mod 8 = 0 \<and> aligned B" "aligned (B + C) \<longleftrightarrow> aligned B \<and> aligned C"
  by (auto simp: aligned_def)

lemma blocks_extents: "blocks (nodes p) = image_mset fst (extents p)"
  by (simp add: blocks_def extents_def extent_def image_mset.compositionality comp_def)

text \<open>Conditions on nodes, read off the extents.\<close>

definition extent_ok :: "nat \<Rightarrow> (nat \<times> nat) \<times> nat \<times> nat \<Rightarrow> bool" where
  "extent_ok at e \<longleftrightarrow> (case e of ((a, i), fa, ep) \<Rightarrow> 1 \<le> i \<and> ep = a + (i + 1) * 4096 \<and> a + 40 \<le> fa \<and> fa \<le> ep \<and>
     a mod 8 = 0 \<and> fa mod 8 = 0 \<and> (a = at \<longrightarrow> at + 160 \<le> fa))"

lemma extent_ok_node: "extent_ok at (extent n) \<longleftrightarrow> node_in_use n \<and> (node_at n = at \<longrightarrow> at + 160 \<le> first_avail n)"
  by (auto simp: extent_ok_def extent_def node_block_def node_in_use_def node_ok_def)

lemma pool_ok_extents:
  "pool_ok p \<longleftrightarrow> (\<forall>e \<in># extents p. extent_ok (self p) e) \<and> self p \<in> fst ` fst ` set_mset (extents p) \<and>
     self_first_avail p = self p + 160 \<and> sorted_wrt (\<ge>) (map free_index (tl (nodes p)))"
proof -
  have "node_at ` set (nodes p) = fst ` fst ` set_mset (extents p)"
    by (simp add: extents_def extent_def node_block_def image_image)
  then show ?thesis unfolding pool_ok_def by (simp add: extents_def extent_ok_node)
qed

lemma pool_ok_nodes: "pool_ok p \<Longrightarrow> n \<in> set (nodes p) \<Longrightarrow> node_in_use n"
  by (simp add: pool_ok_def)

text \<open>Facts on an allocation, wherever the node comes from.\<close>

definition chunk_source :: "memnode \<Rightarrow> ((nat \<times> nat) \<times> nat \<times> nat) multiset \<Rightarrow> pool \<Rightarrow> bool" where
  "chunk_source n M p \<longleftrightarrow> extents p = add_mset (extent n) M \<or>
     extents p = M \<and> good_node 0 n \<and> node_at n mod 8 = 0 \<and> node_at n \<noteq> self p"

lemma chunk_source_ok:
  assumes "pool_ok p" "chunk_source n M p"
  shows "extent_ok (self p) (extent n)" "\<forall>e \<in># M. extent_ok (self p) e"
    "self p \<in> fst ` fst ` set_mset (add_mset (extent n) M)"
proof -
  show "extent_ok (self p) (extent n)" "\<forall>e \<in># M. extent_ok (self p) e"
    using assms by (auto simp: chunk_source_def pool_ok_extents extent_ok_node node_in_use_def good_node_def node_ok_def)
  have "set_mset (extents p) \<subseteq> set_mset (add_mset (extent n) M)" using assms(2) by (auto simp: chunk_source_def)
  moreover have "self p \<in> fst ` fst ` set_mset (extents p)" using assms(1) by (simp add: pool_ok_extents)
  ultimately show "self p \<in> fst ` fst ` set_mset (add_mset (extent n) M)" by blast
qed

lemma chunk_from_ok:
  assumes ok: "pool_ok p" and src: "chunk_source n M p" and got: "chunk_from n M len p p'" and len: "len mod 8 = 0"
  shows "pool_ok p'" "self p' = self p"
proof -
  from got have p': "p' = p\<lparr>nodes := nodes p'\<rparr>" and fits: "first_avail n + len \<le> endp n"
    and ex: "extents p' = add_mset (node_block n, first_avail n + len, endp n) M"
    and sorted: "sorted_wrt (\<ge>) (map free_index (tl (nodes p')))" by (simp_all add: chunk_from_def)
  show self: "self p' = self p" by (subst p') simp
  have "self_first_avail p' = self_first_avail p" by (subst p') simp
  then have sfa: "self_first_avail p' = self p' + 160" using ok self by (simp add: pool_ok_def)
  note S = chunk_source_ok [OF ok src]
  have "extent_ok (self p) (node_block n, first_avail n + len, endp n)"
    using S(1) fits len by (auto simp: extent_ok_def extent_def split: prod.splits)
  moreover have "self p \<in> fst ` fst ` set_mset (extents p')" using S(3) by (simp add: ex extent_def)
  ultimately show "pool_ok p'" using S(2) sorted sfa unfolding pool_ok_extents self by (simp add: ex)
qed

lemma chunks_ok_add:
  assumes ok: "pool_ok p" "chunks_ok p cs" and src: "chunk_source n M p" and got: "chunk_from n M len p p'"
    and len: "len mod 8 = 0" "sz \<le> len" and apart: "\<forall>e \<in># M. span (node_block n) \<inter> span (fst e) = {}"
  shows "chunks_ok p' ((first_avail n, sz) # cs)"
proof -
  note S = chunk_source_ok [OF ok(1) src]
  have self: "self p' = self p" by (rule chunk_from_ok(2) [OF ok(1) src got len(1)])
  have fits: "first_avail n + len \<le> endp n" and ex: "extents p' = add_mset (node_block n, first_avail n + len, endp n) M"
    using got by (simp_all add: chunk_from_def)
  have old: "fst c + snd c \<le> first_avail n \<and> chunk_in (self p) c (extent n) \<or> (\<exists>e \<in># M. chunk_in (self p) c e)"
    if "c \<in> set cs" for c
  proof -
    have "\<exists>e \<in># extents p. chunk_in (self p) c e" using ok(2) that by (simp add: chunks_ok_def)
    then have "chunk_in (self p) c (extent n) \<or> (\<exists>e \<in># M. chunk_in (self p) c e)"
      using src by (auto simp: chunk_source_def)
    moreover have "chunk_in (self p) c (extent n) \<Longrightarrow> fst c + snd c \<le> first_avail n"
      by (simp add: chunk_in_def extent_def)
    ultimately show ?thesis by blast
  qed
  have "fst c mod 8 = 0 \<and> (\<exists>e \<in># extents p'. chunk_in (self p) c e)" if "c \<in> set cs" for c
    using old [OF that] ok(2) that by (auto simp: ex chunk_in_def extent_def chunks_ok_def)
  moreover have "first_avail n mod 8 = 0 \<and> chunk_in (self p) (first_avail n, sz) (node_block n, first_avail n + len, endp n)"
    using S(1) len by (auto simp: extent_ok_def extent_def chunk_in_def node_block_def)
  moreover have "{first_avail n ..< first_avail n + sz} \<inter> {fst c ..< fst c + snd c} = {}" if "c \<in> set cs" for c
    using old [OF that]
  proof
    assume "\<exists>e \<in># M. chunk_in (self p) c e"
    then obtain e where e: "e \<in># M" "chunk_in (self p) c e" by blast
    have "{first_avail n ..< first_avail n + sz} \<subseteq> span (node_block n)"
      using S(1) fits len(2) by (auto simp: extent_ok_def extent_def span_def node_block_def)
    moreover have "{fst c ..< fst c + snd c} \<subseteq> span (fst e)"
      using bspec [OF S(2) e(1)] e(2)
      by (cases e; cases "fst e") (auto simp: extent_ok_def chunk_in_def span_def)
    ultimately show ?thesis using apart e(1) by blast
  qed auto
  ultimately show ?thesis using ok(2) by (auto simp: chunks_ok_def ex self)
qed

section \<open>Every step keeps the invariant\<close>

lemma all_blocks_take:
  assumes "chunk_from n M len p p'" "extents p = add_mset (extent n) M"
  shows "all_blocks al p' out = all_blocks al p out"
  using assms by (simp add: chunk_from_def all_blocks_def blocks_extents extent_def)

lemma malloc_okD:
  "malloc_ok mem al sz used \<Longrightarrow> allocator_alloc mem al sz = (Some n, al') \<Longrightarrow> mem = Some (node_at n) \<Longrightarrow>
    node_at n mod 8 = 0 \<and> (\<forall>b \<in># used. span (node_block n) \<inter> span b = {})"
  by (simp add: malloc_ok_def)

text \<open>A node that the allocator hands to a pool or to another client.\<close>

lemma take_inv:
  assumes "allocator_ok al" "apart (stock al + C)" "aligned (stock al + C)" "malloc_ok mem al sz (stock al + C)"
    "allocator_alloc mem al sz = (Some n, al')"
  shows "allocator_ok al'" "apart (stock al' + add_mset (node_block n) C)" "aligned (stock al' + add_mset (node_block n) C)"
    "good_node (unat sz) n" "node_at n mod 8 = 0"
proof -
  note some = ns.take_some [OF assms(1,5)]
  show "allocator_ok al'" by (rule ns.take_ok [OF assms(1,5)])
  show "apart (stock al' + add_mset (node_block n) C)"
    using assms(4,5) by (intro ns.take_apart [OF assms(1,2,5)]) (blast dest: malloc_okD)
  have "node_at n mod 8 = 0 \<and> aligned (stock al' + add_mset (node_block n) C)"
    using some
  proof (elim conjE disjE)
    assume "stock al = add_mset (node_block n) (stock al')"
    then show ?thesis using assms(3) by (simp add: node_block_def)
  next
    assume "mem = Some (node_at n)" "al' = al"
    then show ?thesis using assms(3) malloc_okD [OF assms(4,5)] by (simp add: node_block_def)
  qed
  then show "node_at n mod 8 = 0" "aligned (stock al' + add_mset (node_block n) C)" by auto
  show "good_node (unat sz) n" using some by blast
qed

text \<open>Nodes that a pool or another client gives back.\<close>

lemma give_inv:
  assumes "allocator_ok al" "\<forall>n \<in> set ns. node_ok n" "allocator_free al ns = (al', given)"
    "apart (stock al + (blocks ns + C))" "aligned (stock al + (blocks ns + C))"
  shows "allocator_ok al'" "apart (stock al' + C)" "aligned (stock al' + C)"
proof -
  note give = ns.give_ok [OF assms(1-3)]
  show "allocator_ok al'" using give by blast
  show "apart (stock al' + C)" by (rule ns.give_apart [OF assms(1-4)])
  have "aligned (stock al' + blocks given)" using give assms(5) by simp
  then show "aligned (stock al' + C)" using assms(5) by simp
qed

lemma palloc_inv:
  assumes inv: "pool_inv al out p cs" and m: "malloc_ok mem al (APR_ALIGN_DEFAULT sz) (all_blocks al p out)"
    and res: "palloc mem al p sz = (Some q, al', p')"
  shows "pool_inv al' out p' ((q, unat sz) # cs)"
proof -
  let ?len = "(unat sz + 7) div 8 * 8"
  have len: "?len mod 8 = 0" "unat sz \<le> ?len" by (simp, presburger)
  from inv have al: "allocator_ok al" "apart (all_blocks al p out)" "aligned (all_blocks al p out)" "pool_ok p" "chunks_ok p cs"
    by (simp_all add: pool_inv_def)
  from palloc_ok [OF al(4,1) res] obtain n M where q: "q = first_avail n" and got: "chunk_from n M ?len p p'"
    and src: "extents p = add_mset (extent n) M \<and> n \<in> set (nodes p) \<and> al' = al \<or>
        extents p = M \<and> good_node 0 n \<and> allocator_alloc mem al (APR_ALIGN_DEFAULT sz) = (Some n, al')" by auto
  have new: "extents p' = add_mset (node_block n, first_avail n + ?len, endp n) M"
    using got by (simp add: chunk_from_def)
  have main: "allocator_ok al' \<and> apart (all_blocks al' p' out) \<and> aligned (all_blocks al' p' out) \<and> chunk_source n M p"
    using src
  proof
    assume ring: "extents p = add_mset (extent n) M \<and> n \<in> set (nodes p) \<and> al' = al"
    then have "all_blocks al' p' out = all_blocks al p out" using all_blocks_take [OF got] by simp
    then show ?thesis using ring al by (simp add: chunk_source_def)
  next
    assume fresh: "extents p = M \<and> good_node 0 n \<and> allocator_alloc mem al (APR_ALIGN_DEFAULT sz) = (Some n, al')"
    then have b: "blocks (nodes p') = add_mset (node_block n) (blocks (nodes p))" by (simp add: blocks_extents new)
    have "allocator_alloc mem al (APR_ALIGN_DEFAULT sz) = (Some n, al')" using fresh by blast
    note T = take_inv [OF al(1) al(2,3) [unfolded all_blocks_def] m [unfolded all_blocks_def] this]
    have "node_at n \<noteq> self p"
    proof
      assume "node_at n = self p"
      then obtain n' where n': "n' \<in> set (nodes p)" "node_at n' = node_at n" using al(4) by (auto simp: pool_ok_def)
      then have "node_block n' \<in># blocks (nodes p)" by (simp add: blocks_def)
      then have "span (node_block n) \<inter> span (node_block n') = {}"
        using T(2) by (auto simp: apart_add)
      then show False using n' by (auto simp: span_def node_block_def disjoint_iff)
    qed
    then show ?thesis using T fresh b by (simp add: all_blocks_def chunk_source_def)
  qed
  then have src: "chunk_source n M p" and ap: "apart (all_blocks al' p' out)" by blast+
  have "\<forall>e \<in># M. span (node_block n) \<inter> span (fst e) = {}"
  proof
    fix e assume "e \<in># M"
    then obtain M' where "M = add_mset e M'" by (metis mset_add)
    then have "apart (add_mset (node_block n) (add_mset (fst e) (image_mset fst M' + (stock al' + out))))"
      using ap by (simp add: all_blocks_def blocks_extents new ac_simps)
    then show "span (node_block n) \<inter> span (fst e) = {}" by (simp add: apart_add)
  qed
  from chunks_ok_add [OF al(4,5) src got len this] chunk_from_ok(1) [OF al(4) src got len(1)] main
  show ?thesis by (simp add: pool_inv_def q)
qed

lemma mset_ring_from [simp]: "mset (ring_from at ns) = mset ns"
proof -
  let ?P = "\<lambda>n. node_at n \<noteq> at"
  have "mset (ring_from at ns) = mset (takeWhile ?P ns @ dropWhile ?P ns)"
    unfolding ring_from_def mset_append by (rule add.commute)
  also have "\<dots> = mset ns" by (simp only: takeWhile_dropWhile_id)
  finally show ?thesis .
qed

lemma ring_from_self:
  assumes "pool_ok p"
  obtains active rest where "ring_from (self p) (nodes p) = active # rest" "node_at active = self p"
    "mset (nodes p) = add_mset active (mset rest)"
proof -
  from assms have ex: "\<exists>n \<in> set (nodes p). \<not> node_at n \<noteq> self p" by (auto simp: pool_ok_def)
  then have "dropWhile (\<lambda>n. node_at n \<noteq> self p) (nodes p) \<noteq> []" by (auto simp: dropWhile_eq_Nil_conv)
  then obtain active ns where d: "dropWhile (\<lambda>n. node_at n \<noteq> self p) (nodes p) = active # ns"
    by (cases "dropWhile (\<lambda>n. node_at n \<noteq> self p) (nodes p)") auto
  then have "node_at active = self p"
    using hd_dropWhile [of "\<lambda>n. node_at n \<noteq> self p" "nodes p"] by simp
  moreover have "ring_from (self p) (nodes p) = active # (ns @ takeWhile (\<lambda>n. node_at n \<noteq> self p) (nodes p))"
    by (simp add: ring_from_def d)
  ultimately show thesis using that mset_ring_from [of "self p" "nodes p"] by (metis mset.simps(2))
qed

text \<open>What is left of a pool that was cleared, and where its other nodes went.\<close>

lemma clear_nodes_ok:
  assumes inv: "pool_inv al out p cs" and res: "clear_nodes al p = ((al', given), p')"
  shows "pool_inv al' out p' []" "\<exists>n. nodes p' = [n] \<and> node_at n = self p \<and> first_avail n = self_first_avail p"
    "p' = p\<lparr>nodes := nodes p'\<rparr>" "all_blocks al' p' out + blocks given = all_blocks al p out"
proof -
  from inv have al: "allocator_ok al" "apart (all_blocks al p out)" "aligned (all_blocks al p out)" "pool_ok p"
    by (simp_all add: pool_inv_def)
  obtain active rest where ring: "ring_from (self p) (nodes p) = active # rest" "node_at active = self p"
    "mset (nodes p) = add_mset active (mset rest)" using al(4) by (rule ring_from_self)
  have free: "(if rest = [] then (al, []) else allocator_free al rest) = (al', given)"
    and p': "p' = p\<lparr>nodes := [active\<lparr>first_avail := self_first_avail p\<rparr>]\<rparr>"
    using res by (auto simp: clear_nodes_def ring(1))
  have sets: "set (nodes p) = insert active (set rest)" using ring(3) by (metis set_mset_add_mset_insert set_mset_mset)
  then have rest: "\<forall>n \<in> set rest. node_ok n" and active: "node_in_use active"
    using pool_ok_nodes [OF al(4)] by (simp_all add: node_in_use_def)
  have b: "blocks (nodes p) = add_mset (node_block active) (blocks rest)" by (simp add: blocks_def ring(3))
  have b': "blocks (nodes p') = {#node_block active#}" by (simp add: p' blocks_def)
  have split: "all_blocks al p out = stock al + (blocks rest + add_mset (node_block active) out)"
    by (simp add: all_blocks_def b)
  have "allocator_free al rest = (al', given)" using free by (simp add: allocator_free_def split: if_splits)
  note G = give_inv [OF al(1) rest this al(2,3) [unfolded split]] ns.give_ok [OF al(1) rest this]
  show "p' = p\<lparr>nodes := nodes p'\<rparr>" "\<exists>n. nodes p' = [n] \<and> node_at n = self p \<and> first_avail n = self_first_avail p"
    using ring(2) by (simp_all add: p')
  have sfa: "self_first_avail p = self p + 160" using al(4) by (simp add: pool_ok_def)
  have "self p + 160 \<le> first_avail active" using al(4) ring(2) sets by (simp add: pool_ok_def)
  then have "pool_ok p'"
    using active ring(2) sfa by (auto simp: p' pool_ok_def node_in_use_def node_ok_def)
  then show "pool_inv al' out p' []" using G by (simp add: pool_inv_def all_blocks_def b' chunks_ok_def)
  show "all_blocks al' p' out + blocks given = all_blocks al p out"
    using G(4) by (simp add: all_blocks_def b b' ac_simps)
qed

lemma new_pool_inv:
  assumes "allocator_ok al" "apart (stock al + out)" "aligned (stock al + out)"
    "malloc_ok mem al (MIN_ALLOC - APR_MEMNODE_T_SIZE) (stock al + out)"
    "allocator_alloc mem al (MIN_ALLOC - APR_MEMNODE_T_SIZE) = (Some n, al')"
  shows "pool_inv al' out (new_pool n at abort) []"
proof -
  note T = take_inv [OF assms]
  have "unat (MIN_ALLOC - APR_MEMNODE_T_SIZE) = 8152" by (simp add: MIN_ALLOC_def)
  then have "node_ok n" "first_avail n = node_at n + 40" "first_avail n + 8152 \<le> endp n"
    using T(4) by (auto simp: good_node_def node_ok_def)
  then have "pool_ok (new_pool n at abort)"
    using T(5) by (auto simp: pool_ok_def new_pool_def first_node_def node_in_use_def node_ok_def)
  then show ?thesis using T by (simp add: pool_inv_def all_blocks_def new_pool_def first_node_def blocks_def chunks_ok_def)
qed

lemma pool_run_inv: "pool_run al out p cs \<Longrightarrow> pool_inv al out p cs"
proof (induction rule: pool_run.induct)
  case (start al out mem n al' at abort)
  then show ?case by (intro new_pool_inv)
next
  case (alloc al out p cs mem sz q al' p')
  then show ?case by (intro palloc_inv)
next
  case (clear al out p cs al' given p')
  then show ?case using clear_nodes_ok(1) by blast
next
  case (others_alloc al out p cs mem sz n al')
  have "allocator_ok al" "apart (stock al + (blocks (nodes p) + out))" "aligned (stock al + (blocks (nodes p) + out))"
    using others_alloc.IH by (simp_all add: pool_inv_def all_blocks_def)
  from take_inv [OF this others_alloc.hyps(2) [unfolded all_blocks_def] others_alloc.hyps(3)]
  show ?case using others_alloc.IH by (simp add: pool_inv_def all_blocks_def)
next
  case (others_free al out ns p cs al' given)
  have "allocator_ok al" and st: "apart (stock al + (blocks ns + (blocks (nodes p) + out)))"
    "aligned (stock al + (blocks ns + (blocks (nodes p) + out)))"
    using others_free.IH by (simp_all add: pool_inv_def all_blocks_def ac_simps)
  from give_inv [OF this(1) others_free.hyps(2,3) st]
  show ?case using others_free.IH by (simp add: pool_inv_def all_blocks_def)
qed

text \<open>
  C7. Whatever a pool and the other clients of its allocator do, the memory that the pool has handed
  out since it was last cleared is in pieces that do not overlap; each is aligned to eight bytes and lies
  inside one of the pool's nodes, behind the header of the node and behind the pool's own structure.
\<close>

theorem apr_palloc_chunks_apart:
  assumes "pool_run al out p cs"
  shows "sorted_wrt (\<lambda>c d. {fst c ..< fst c + snd c} \<inter> {fst d ..< fst d + snd d} = {}) cs \<and>
    list_all (\<lambda>(a, len). a mod 8 = 0 \<and> list_ex (\<lambda>n. node_at n + 40 \<le> a \<and> a + len \<le> first_avail n \<and> first_avail n \<le> endp n \<and>
       (node_at n \<noteq> self p \<or> self p + 160 \<le> a)) (nodes p)) cs"
proof -
  have inv: "pool_ok p" "chunks_ok p cs" using pool_run_inv [OF assms] by (simp_all add: pool_inv_def)
  have "list_ex (\<lambda>n. node_at n + 40 \<le> a \<and> a + len \<le> first_avail n \<and> first_avail n \<le> endp n \<and>
      (node_at n \<noteq> self p \<or> self p + 160 \<le> a)) (nodes p)" if "(a, len) \<in> set cs" for a len
  proof -
    have "\<exists>e \<in># extents p. chunk_in (self p) (a, len) e" using inv(2) that by (auto simp: chunks_ok_def)
    then obtain n where n: "n \<in> set (nodes p)" "chunk_in (self p) (a, len) (extent n)" by (auto simp: extents_def)
    then show ?thesis
      using pool_ok_nodes [OF inv(1) n(1)]
      by (auto simp: list_ex_iff chunk_in_def extent_def node_block_def node_in_use_def intro!: bexI [of _ n])
  qed
  then show ?thesis using inv(2) by (auto simp: list_all_iff chunks_ok_def)
qed

text \<open>A new pool whose node is at 65536 hands out 100 and then 200 bytes.\<close>

definition sample_pool :: pool where
  "sample_pool = new_pool sample_node 0 None"

lemma apr_palloc_chunks_apart_witness:
  "\<exists>p. pool_run new_allocator {#} p [(65800, 200), (65696, 100)] \<and> length (nodes p) = 1 \<and>
     {65800 ..< 65800 + 200} \<inter> {65696 ..< 65696 + 100 :: nat} = {} \<and> (65800 :: nat) mod 8 = 0"
proof -
  note defs = palloc_def sample_pool_def new_pool_def first_node_def sample_node_def node_free_space_def
    APR_ALIGN_DEFAULT_def APR_ALIGN_def Let_def
  have got: "allocator_alloc (Some 65536) new_allocator (MIN_ALLOC - APR_MEMNODE_T_SIZE) = (Some sample_node, new_allocator)"
    by (simp add: allocator_alloc_def new_allocator_def APR_ALIGN_def MIN_ALLOC_def BOUNDARY_INDEX_def
        Let_def malloc_node_def sample_node_def MAX_INDEX_def)
  have start: "pool_run new_allocator {#} sample_pool []"
    unfolding sample_pool_def by (rule pool_run.start [OF _ _ _ _ got]) (simp_all add: malloc_ok_def got [unfolded memnode_size] sample_node_def)
  define p1 where "p1 = snd (snd (palloc None new_allocator sample_pool 100))"
  have a1: "palloc None new_allocator sample_pool 100 = (Some 65696, new_allocator, p1)"
    unfolding p1_def by (simp add: defs)
  define p2 where "p2 = snd (snd (palloc None new_allocator p1 200))"
  have a2: "palloc None new_allocator p1 200 = (Some 65800, new_allocator, p2)" "length (nodes p2) = 1"
    unfolding p2_def p1_def by (simp_all add: defs)
  have "malloc_ok None new_allocator (APR_ALIGN_DEFAULT sz) B" for sz B
    by (auto simp: malloc_ok_def split: option.splits)
  then have "pool_run new_allocator {#} p2 [(65800, unat (200 :: 64 word)), (65696, unat (100 :: 64 word))]"
    by (intro pool_run.alloc [OF _ _ a2(1)] pool_run.alloc [OF start _ a1])
  then have run: "pool_run new_allocator {#} p2 [(65800, 200), (65696, 100)]" by simp
  show ?thesis using apr_palloc_chunks_apart [OF run] run a2(2) by auto
qed

end
