(* ===== verification/Apr_Pool_Tree.thy ===== *)
theory Apr_Pool_Tree
  imports Apr_Pools
begin

text \<open>
  The tree of pools (\<open>srclib/apr/memory/unix/apr_pools.c\<close>): creating, clearing and
  destroying pools, their cleanups and subprocesses. Pools are in a store, by address, and linked by
  \<open>parent\<close>, \<open>child\<close>, \<open>sibling\<close> and \<open>ref\<close> as in the code. The functions that a
  pool calls back are parameters; a cleanup may do anything to the world, so the
  loops that run cleanups need not end. \<open>None\<close> stands for a run that does not return or that uses
  a pool that is gone. The user data of a pool (\<open>user_data\<close>) is left out.
\<close>

section \<open>The world\<close>

record 'x world =
  pools :: "nat \<Rightarrow> pool option"
  allocators :: "nat \<Rightarrow> allocator option"
  global_pool :: "nat option"
  pools_initialized :: bool
  os_freed :: "memnode list"
  env :: "'x sys"

text \<open>\<open>callback\<close> calls a cleanup on its data, \<open>abort_call\<close> an abort function.\<close>

record 'x code =
  callback :: "nat \<Rightarrow> nat \<Rightarrow> 'x world \<Rightarrow> apr_status \<times> 'x world"
  abort_call :: "nat \<Rightarrow> apr_status \<Rightarrow> 'x world \<Rightarrow> 'x world"
  proc_os :: "'x proc_os"

definition pool_at :: "'x world \<Rightarrow> nat \<Rightarrow> pool" where
  "pool_at w p = the (pools w p)"

definition upd_pool :: "nat \<Rightarrow> (pool \<Rightarrow> pool) \<Rightarrow> 'x world \<Rightarrow> 'x world" where
  "upd_pool p f w = w\<lparr>pools := (pools w)(p := map_option f (pools w p))\<rparr>"

definition allocator_of :: "'x world \<Rightarrow> nat \<Rightarrow> allocator" where
  "allocator_of w a = the (allocators w a)"

definition call_abort :: "'x code \<Rightarrow> nat option \<Rightarrow> 'x world \<Rightarrow> 'x world" where
  "call_abort code fn w = (case fn of None \<Rightarrow> w | Some f \<Rightarrow> abort_call code f APR_ENOMEM w)"

section \<open>Allocation\<close>

definition apr_palloc :: "'x code \<Rightarrow> nat option \<Rightarrow> nat \<Rightarrow> 64 word \<Rightarrow> 'x world \<Rightarrow> nat option \<times> 'x world" where
  "apr_palloc code mem p in_size w =
     (let P = pool_at w p
      in case palloc mem (allocator_of w (pool_allocator P)) P in_size of
           (None, al, P') \<Rightarrow> (None, call_abort code (abort_fn P) w)
         | (Some q, al, P') \<Rightarrow>
             (Some q, w\<lparr>pools := (pools w)(p \<mapsto> P'), allocators := (allocators w)(pool_allocator P \<mapsto> al)\<rparr>))"

section \<open>Cleanups\<close>

definition sizeof_cleanup_t :: "64 word" where
  "sizeof_cleanup_t = 32"

text \<open>
  The structure for a new cleanup: one of \<open>free_cleanups\<close> or new memory. The code does
  not test the result of \<open>apr_palloc\<close>, so without memory it writes through NULL.
\<close>

definition cleanup_struct :: "'x code \<Rightarrow> nat option \<Rightarrow> nat \<Rightarrow> 'x world \<Rightarrow> (cleanup \<times> 'x world) option" where
  "cleanup_struct code mem p w =
     (case free_cleanups (pool_at w p) of
        c # cs \<Rightarrow> Some (c, upd_pool p (\<lambda>P. P\<lparr>free_cleanups := cs\<rparr>) w)
      | [] \<Rightarrow>
          (case apr_palloc code mem p sizeof_cleanup_t w of
             (None, w) \<Rightarrow> None
           | (Some _, w) \<Rightarrow> Some (\<lparr>cleanup_data = 0, plain_cleanup_fn = 0, child_cleanup_fn = None\<rparr>, w)))"

definition apr_pool_cleanup_register ::
    "'x code \<Rightarrow> nat option \<Rightarrow> nat option \<Rightarrow> nat \<Rightarrow> nat \<Rightarrow> nat \<Rightarrow> 'x world \<Rightarrow> 'x world option" where
  "apr_pool_cleanup_register code mem pool data plain chld w =
     (case pool of
        None \<Rightarrow> Some w
      | Some p \<Rightarrow>
          map_option
            (\<lambda>(c, w). upd_pool p (\<lambda>P. P\<lparr>cleanups :=
                c\<lparr>cleanup_data := data, plain_cleanup_fn := plain, child_cleanup_fn := Some chld\<rparr> # cleanups P\<rparr>) w)
            (cleanup_struct code mem p w))"

definition apr_pool_pre_cleanup_register ::
    "'x code \<Rightarrow> nat option \<Rightarrow> nat option \<Rightarrow> nat \<Rightarrow> nat \<Rightarrow> 'x world \<Rightarrow> 'x world option" where
  "apr_pool_pre_cleanup_register code mem pool data plain w =
     (case pool of
        None \<Rightarrow> Some w
      | Some p \<Rightarrow>
          map_option
            (\<lambda>(c, w). upd_pool p (\<lambda>P. P\<lparr>pre_cleanups :=
                c\<lparr>cleanup_data := data, plain_cleanup_fn := plain\<rparr> # pre_cleanups P\<rparr>) w)
            (cleanup_struct code mem p w))"

definition is_cleanup :: "nat \<Rightarrow> nat \<Rightarrow> cleanup \<Rightarrow> bool" where
  "is_cleanup data fn c \<longleftrightarrow> cleanup_data c = data \<and> plain_cleanup_fn c = fn"

text \<open>The first cleanup that matches goes to the free list.\<close>

fun kill_first :: "(cleanup \<Rightarrow> bool) \<Rightarrow> cleanup list \<Rightarrow> cleanup list \<Rightarrow> cleanup list \<times> cleanup list" where
  "kill_first m [] free = ([], free)"
| "kill_first m (c # cs) free =
     (if m c then (cs, c # free) else (case kill_first m cs free of (cs, free) \<Rightarrow> (c # cs, free)))"

definition kill_cleanup :: "nat \<Rightarrow> nat \<Rightarrow> pool \<Rightarrow> pool" where
  "kill_cleanup data fn P =
     (let (cs, free) = kill_first (is_cleanup data fn) (cleanups P) (free_cleanups P);
          (pre, free) = kill_first (is_cleanup data fn) (pre_cleanups P) free
      in P\<lparr>cleanups := cs, pre_cleanups := pre, free_cleanups := free\<rparr>)"

definition apr_pool_cleanup_kill :: "nat option \<Rightarrow> nat \<Rightarrow> nat \<Rightarrow> 'x world \<Rightarrow> 'x world" where
  "apr_pool_cleanup_kill pool data fn w = (case pool of None \<Rightarrow> w | Some p \<Rightarrow> upd_pool p (kill_cleanup data fn) w)"

fun set_child_fn :: "nat \<Rightarrow> nat \<Rightarrow> nat \<Rightarrow> cleanup list \<Rightarrow> cleanup list" where
  "set_child_fn data plain chld [] = []"
| "set_child_fn data plain chld (c # cs) =
     (if is_cleanup data plain c then c\<lparr>child_cleanup_fn := Some chld\<rparr> # cs else c # set_child_fn data plain chld cs)"

definition apr_pool_child_cleanup_set :: "nat option \<Rightarrow> nat \<Rightarrow> nat \<Rightarrow> nat \<Rightarrow> 'x world \<Rightarrow> 'x world" where
  "apr_pool_child_cleanup_set pool data plain chld w =
     (case pool of None \<Rightarrow> w
      | Some p \<Rightarrow> upd_pool p (\<lambda>P. P\<lparr>cleanups := set_child_fn data plain chld (cleanups P)\<rparr>) w)"

definition apr_pool_cleanup_run :: "'x code \<Rightarrow> nat option \<Rightarrow> nat \<Rightarrow> nat \<Rightarrow> 'x world \<Rightarrow> apr_status \<times> 'x world" where
  "apr_pool_cleanup_run code pool data fn w = callback code fn data (apr_pool_cleanup_kill pool data fn w)"

definition apr_pool_note_subprocess ::
    "'x code \<Rightarrow> nat option \<Rightarrow> nat \<Rightarrow> nat \<Rightarrow> kill_conditions \<Rightarrow> 'x world \<Rightarrow> 'x world option" where
  "apr_pool_note_subprocess code mem p proc how w =
     (case apr_palloc code mem p 24 w of
        (None, w) \<Rightarrow> None
      | (Some _, w) \<Rightarrow> Some (upd_pool p (\<lambda>P. P\<lparr>subprocesses := (proc, how) # subprocesses P\<rparr>) w))"

text \<open>
  \<open>run_cleanups (&p->cleanups)\<close> and \<open>run_cleanups (&p->pre_cleanups)\<close>: the list is read again
  after every call, because the cleanup may have changed it.
\<close>

datatype cleanup_list = Plain | Pre

fun list_of :: "cleanup_list \<Rightarrow> pool \<Rightarrow> cleanup list" where
  "list_of Plain P = cleanups P"
| "list_of Pre P = pre_cleanups P"

fun set_list :: "cleanup_list \<Rightarrow> cleanup list \<Rightarrow> pool \<Rightarrow> pool" where
  "set_list Plain cs P = P\<lparr>cleanups := cs\<rparr>"
| "set_list Pre cs P = P\<lparr>pre_cleanups := cs\<rparr>"

partial_function (option) run_cleanups ::
  "'x code \<Rightarrow> cleanup_list \<Rightarrow> nat \<Rightarrow> 'x world \<Rightarrow> 'x world option" where
  "run_cleanups code l p w =
     (case pools w p of
        None \<Rightarrow> None
      | Some P \<Rightarrow>
          (case list_of l P of
             [] \<Rightarrow> Some w
           | c # cs \<Rightarrow>
               run_cleanups code l p
                 (snd (callback code (plain_cleanup_fn c) (cleanup_data c) (upd_pool p (set_list l cs) w)))))"

declare run_cleanups.simps [code]

partial_function (option) run_child_cleanups :: "'x code \<Rightarrow> nat \<Rightarrow> 'x world \<Rightarrow> 'x world option" where
  "run_child_cleanups code p w =
     (case pools w p of
        None \<Rightarrow> None
      | Some P \<Rightarrow>
          (case cleanups P of
             [] \<Rightarrow> Some w
           | c # cs \<Rightarrow>
               run_child_cleanups code p
                 (snd (callback code (the (child_cleanup_fn c)) (cleanup_data c) (upd_pool p (set_list Plain cs) w)))))"

declare run_child_cleanups.simps [code]

section \<open>Links\<close>

text \<open>\<open>*ref = q\<close> for a pointer into a pool, and \<open>q->ref = ref\<close>.\<close>

definition store_ref :: "pool_ref \<Rightarrow> nat option \<Rightarrow> 'x world \<Rightarrow> 'x world" where
  "store_ref r q w =
     (case r of
        Child_of p \<Rightarrow> upd_pool p (\<lambda>P. P\<lparr>child := q\<rparr>) w
      | Sibling_of p \<Rightarrow> upd_pool p (\<lambda>P. P\<lparr>sibling := q\<rparr>) w)"

definition set_ref :: "nat option \<Rightarrow> pool_ref option \<Rightarrow> 'x world \<Rightarrow> 'x world" where
  "set_ref q r w = (case q of None \<Rightarrow> w | Some q \<Rightarrow> upd_pool q (\<lambda>P. P\<lparr>ref := r\<rparr>) w)"

text \<open>Remove the pool from the child list of its parent.\<close>

definition unlink_pool :: "nat \<Rightarrow> 'x world \<Rightarrow> 'x world" where
  "unlink_pool p w =
     (let P = pool_at w p
      in case parent P of None \<Rightarrow> w
         | Some _ \<Rightarrow> set_ref (sibling P) (ref P) (store_ref (the (ref P)) (sibling P) w))"

text \<open>Put it in front of the list.\<close>

definition link_pool :: "nat \<Rightarrow> nat option \<Rightarrow> 'x world \<Rightarrow> 'x world" where
  "link_pool p par w =
     (case par of
        None \<Rightarrow> upd_pool p (\<lambda>P. P\<lparr>parent := None, sibling := None, ref := None\<rparr>) w
      | Some q \<Rightarrow>
          let first = child (pool_at w q);
              w = set_ref first (Some (Sibling_of p)) (upd_pool p (\<lambda>P. P\<lparr>parent := Some q, sibling := first\<rparr>) w)
          in upd_pool p (\<lambda>P. P\<lparr>ref := Some (Child_of q)\<rparr>) (upd_pool q (\<lambda>P. P\<lparr>child := Some p\<rparr>) w))"

section \<open>Creating pools\<close>

text \<open>A pool is known by the address of its structure, behind the header of its first node.\<close>

definition apr_pool_create_ex ::
    "'x code \<Rightarrow> nat option \<Rightarrow> nat option \<Rightarrow> nat option \<Rightarrow> nat option \<Rightarrow> 'x world \<Rightarrow> apr_status \<times> nat option \<times> 'x world" where
  "apr_pool_create_ex code mem par abort al w =
     (let par = (case par of None \<Rightarrow> global_pool w | Some _ \<Rightarrow> par);
          abort = (if abort = None \<and> par \<noteq> None then abort_fn (pool_at w (the par)) else abort);
          a = (case al of None \<Rightarrow> pool_allocator (pool_at w (the par)) | Some a \<Rightarrow> a)
      in case allocator_alloc mem (allocator_of w a) (MIN_ALLOC - APR_MEMNODE_T_SIZE) of
           (None, A) \<Rightarrow> (APR_ENOMEM, None, call_abort code abort w)
         | (Some node, A) \<Rightarrow>
             let p = first_avail node;
                 w = w\<lparr>pools := (pools w)(p \<mapsto> new_pool node a abort), allocators := (allocators w)(a \<mapsto> A)\<rparr>
             in (APR_SUCCESS, Some p, link_pool p par w))"

text \<open>\<open>almem\<close> is where \<open>malloc\<close> puts the allocator when none is given.\<close>

definition apr_pool_create_unmanaged_ex ::
    "'x code \<Rightarrow> nat option \<Rightarrow> nat option \<Rightarrow> nat option \<Rightarrow> nat option \<Rightarrow> 'x world \<Rightarrow> apr_status \<times> nat option \<times> 'x world" where
  "apr_pool_create_unmanaged_ex code almem mem abort al w =
     (if \<not> pools_initialized w then (APR_ENOPOOL, None, w)
      else
        (case (case al of None \<Rightarrow> almem | Some a \<Rightarrow> al) of
           None \<Rightarrow> (APR_ENOMEM, None, call_abort code abort w)
         | Some a \<Rightarrow>
             let w = (case al of None \<Rightarrow> w\<lparr>allocators := (allocators w)(a \<mapsto> new_allocator)\<rparr> | Some _ \<Rightarrow> w)
             in case allocator_alloc mem (allocator_of w a) (MIN_ALLOC - APR_MEMNODE_T_SIZE) of
                  (None, A) \<Rightarrow> (APR_ENOMEM, None, call_abort code abort w)
                | (Some node, A) \<Rightarrow>
                    let p = first_avail node;
                        A = (if al = None then apr_allocator_owner_set A (Some p) else A)
                    in (APR_SUCCESS, Some p,
                        w\<lparr>pools := (pools w)(p \<mapsto> new_pool node a abort), allocators := (allocators w)(a \<mapsto> A)\<rparr>)))"

section \<open>Clearing and destroying\<close>

definition dispose_subprocesses :: "'x code \<Rightarrow> nat \<Rightarrow> 'x world \<Rightarrow> 'x world option" where
  "dispose_subprocesses code p w =
     map_option (\<lambda>e. w\<lparr>env := e\<rparr>) (free_proc_chain (proc_os code) (subprocesses (pool_at w p)) (env w))"

text \<open>
  Give the nodes back, the one with the pool structure included, and the allocator itself when the
  pool owns it.
\<close>

definition release_pool :: "nat \<Rightarrow> 'x world \<Rightarrow> 'x world" where
  "release_pool p w =
     (let P = pool_at w p;
          a = pool_allocator P;
          (A, given) = destroy_nodes (allocator_of w a) P;
          w = w\<lparr>pools := (pools w)(p := None), allocators := (allocators w)(a \<mapsto> A), os_freed := os_freed w @ given\<rparr>
      in if apr_allocator_owner_get A = Some p
         then w\<lparr>allocators := (allocators w)(a := None), os_freed := os_freed w @ apr_allocator_destroy A\<rparr>
         else w)"

text \<open>
  \<open>apr_pool_destroy\<close> and its loop over the children call each other; \<open>Destroy_pool p\<close> is the
  function, \<open>Destroy_children p\<close> the loop \<open>while (pool->child)\<close>.
\<close>

datatype teardown = Destroy_pool nat | Destroy_children nat

partial_function (option) tear_down :: "'x code \<Rightarrow> teardown \<Rightarrow> 'x world \<Rightarrow> 'x world option" where
  "tear_down code task w =
     (case task of
        Destroy_children p \<Rightarrow>
          (case pools w p of
             None \<Rightarrow> None
           | Some P \<Rightarrow>
               (case child P of
                  None \<Rightarrow> Some w
                | Some q \<Rightarrow> Option.bind (tear_down code (Destroy_pool q) w) (tear_down code (Destroy_children p))))
      | Destroy_pool p \<Rightarrow>
          Option.bind (run_cleanups code Pre p w) (\<lambda>w.
          Option.bind (tear_down code (Destroy_children p) (upd_pool p (set_list Pre []) w)) (\<lambda>w.
          Option.bind (run_cleanups code Plain p w) (\<lambda>w.
          map_option (\<lambda>w. release_pool p (unlink_pool p w)) (dispose_subprocesses code p w)))))"

declare tear_down.simps [code]

definition apr_pool_destroy :: "'x code \<Rightarrow> nat \<Rightarrow> 'x world \<Rightarrow> 'x world option" where
  "apr_pool_destroy code p w = tear_down code (Destroy_pool p) w"

definition clear_pool_nodes :: "nat \<Rightarrow> 'x world \<Rightarrow> 'x world" where
  "clear_pool_nodes p w =
     (let P = pool_at w p
      in case clear_nodes (allocator_of w (pool_allocator P)) P of
           ((A, given), P') \<Rightarrow>
             w\<lparr>pools := (pools w)(p \<mapsto> P'), allocators := (allocators w)(pool_allocator P \<mapsto> A),
               os_freed := os_freed w @ given\<rparr>)"

definition apr_pool_clear :: "'x code \<Rightarrow> nat \<Rightarrow> 'x world \<Rightarrow> 'x world option" where
  "apr_pool_clear code p w =
     Option.bind (run_cleanups code Pre p w) (\<lambda>w.
     Option.bind (tear_down code (Destroy_children p) (upd_pool p (set_list Pre []) w)) (\<lambda>w.
     Option.bind (run_cleanups code Plain p w) (\<lambda>w.
     map_option (\<lambda>w. clear_pool_nodes p (upd_pool p (\<lambda>P. P\<lparr>subprocesses := []\<rparr>) w))
       (dispose_subprocesses code p (upd_pool p (\<lambda>P. P\<lparr>cleanups := [], free_cleanups := []\<rparr>) w)))))"

section \<open>Before an exec, and the rest\<close>

text \<open>\<open>cleanup_pool_for_exec\<close> and its loop \<open>for (p = p->child; p; p = p->sibling)\<close>.\<close>

datatype exec_task = Exec_pool nat | Exec_siblings "nat option"

partial_function (option) cleanup_pool_for_exec :: "'x code \<Rightarrow> exec_task \<Rightarrow> 'x world \<Rightarrow> 'x world option" where
  "cleanup_pool_for_exec code task w =
     (case task of
        Exec_pool p \<Rightarrow>
          Option.bind (run_child_cleanups code p w)
            (\<lambda>w. cleanup_pool_for_exec code (Exec_siblings (child (pool_at w p))) w)
      | Exec_siblings q \<Rightarrow>
          (case q of
             None \<Rightarrow> Some w
           | Some p \<Rightarrow>
               Option.bind (cleanup_pool_for_exec code (Exec_pool p) w)
                 (\<lambda>w. if pools w p = None then None
                      else cleanup_pool_for_exec code (Exec_siblings (sibling (pool_at w p))) w)))"

declare cleanup_pool_for_exec.simps [code]

definition apr_pool_cleanup_for_exec :: "'x code \<Rightarrow> 'x world \<Rightarrow> 'x world option" where
  "apr_pool_cleanup_for_exec code w =
     (case global_pool w of None \<Rightarrow> None | Some p \<Rightarrow> cleanup_pool_for_exec code (Exec_pool p) w)"

partial_function (option) apr_pool_is_ancestor :: "'x world \<Rightarrow> nat option \<Rightarrow> nat option \<Rightarrow> bool option" where
  "apr_pool_is_ancestor w a b =
     (if a = None then Some True
      else
        (case b of
           None \<Rightarrow> Some False
         | Some p \<Rightarrow>
             if a = b then Some True
             else if pools w p = None then None
             else apr_pool_is_ancestor w a (parent (pool_at w p))))"

declare apr_pool_is_ancestor.simps [code]

definition apr_pool_abort_set :: "nat option \<Rightarrow> nat \<Rightarrow> 'x world \<Rightarrow> 'x world" where
  "apr_pool_abort_set fn p w = upd_pool p (\<lambda>P. P\<lparr>abort_fn := fn\<rparr>) w"

definition apr_pool_abort_get :: "nat \<Rightarrow> 'x world \<Rightarrow> nat option" where
  "apr_pool_abort_get p w = abort_fn (pool_at w p)"

definition apr_pool_parent_get :: "nat \<Rightarrow> 'x world \<Rightarrow> nat option" where
  "apr_pool_parent_get p w = parent (pool_at w p)"

definition apr_pool_allocator_get :: "nat \<Rightarrow> 'x world \<Rightarrow> nat" where
  "apr_pool_allocator_get p w = pool_allocator (pool_at w p)"

definition apr_pool_tag :: "nat \<Rightarrow> cstr \<Rightarrow> 'x world \<Rightarrow> 'x world" where
  "apr_pool_tag p t w = upd_pool p (\<lambda>P. P\<lparr>tag := Some t\<rparr>) w"

end
