(* ===== verification/Apr_Pool_Laws.thy ===== *)
theory Apr_Pool_Laws
  imports Apr_Pool_Tree
begin

text \<open>
  What destroying a pool does: the tree of pools that the links stand for, the order in which cleanups
  run and subprocesses are disposed of, where the nodes go and what is left of the links.
\<close>

section \<open>The tree that the links stand for\<close>

text \<open>A pool with a snapshot of its contents and its subpools, the one created last first.\<close>

datatype ptree = PNode nat pool "ptree list"

fun ids :: "ptree \<Rightarrow> nat list" where
  "ids (PNode p P ts) = p # concat (map ids ts)"

abbreviation ids_of :: "ptree list \<Rightarrow> nat set" where
  "ids_of ts \<equiv> set (concat (map ids ts))"

definition contents :: "pool \<Rightarrow> pool" where
  "contents P = P\<lparr>parent := None, child := None, sibling := None, ref := None\<rparr>"

text \<open>
  \<open>ts\<close> are the pools from \<open>first\<close> on, to which the pointer \<open>r\<close> points, up to the pool \<open>rest\<close>,
  which the pointer \<open>r'\<close> points to; all are children of \<open>par\<close> and use the allocator \<open>a\<close>.
\<close>

fun seg :: "(nat \<Rightarrow> pool option) \<Rightarrow> nat \<Rightarrow> nat \<Rightarrow> pool_ref \<Rightarrow> nat option \<Rightarrow> ptree list \<Rightarrow> pool_ref \<Rightarrow> nat option \<Rightarrow> bool" where
  "seg m a par r first [] r' rest = (r = r' \<and> first = rest)"
| "seg m a par r first (PNode q P ts # us) r' rest =
     (first = Some q \<and> (\<exists>Q r''. m q = Some Q \<and> contents Q = P \<and> parent Q = Some par \<and> ref Q = Some r \<and>
        pool_ok Q \<and> pool_allocator Q = a \<and> seg m a q (Child_of q) (child Q) ts r'' None \<and>
        seg m a par (Sibling_of q) (sibling Q) us r' rest))"

text \<open>The subpools of \<open>p\<close> are \<open>ts\<close>.\<close>

definition subpools :: "(nat \<Rightarrow> pool option) \<Rightarrow> nat \<Rightarrow> nat \<Rightarrow> ptree list \<Rightarrow> bool" where
  "subpools m a p ts \<longleftrightarrow> (\<exists>P r. m p = Some P \<and> seg m a p (Child_of p) (child P) ts r None)"

lemma seg_append:
  "seg m a par r first (us @ vs) r' rest \<longleftrightarrow> (\<exists>r'' q. seg m a par r first us r'' q \<and> seg m a par r'' q vs r' rest)"
proof (induction us arbitrary: r first)
  case (Cons u us)
  show ?case by (cases u) (auto simp: Cons.IH)
qed auto

lemma seg_frame:
  "\<forall>q \<in> ids_of ts. m' q = m q \<Longrightarrow> seg m a par r first ts r' rest \<Longrightarrow> seg m' a par r first ts r' rest"
proof (induction m a par r first ts r' rest rule: seg.induct)
  case (2 m a par r first q P ts us r' rest)
  then show ?case by fastforce
qed simp

section \<open>Events\<close>

datatype pool_event = Ran nat nat | Disposed proc_chain

abbreviation ran :: "cleanup \<Rightarrow> pool_event" where
  "ran c \<equiv> Ran (plain_cleanup_fn c) (cleanup_data c)"

fun tree_events :: "ptree \<Rightarrow> pool_event list" where
  "tree_events (PNode p P ts) =
     map ran (pre_cleanups P) @ concat (map tree_events ts) @ map ran (cleanups P) @ [Disposed (subprocesses P)]"

text \<open>Cleanups that have an effect outside the pools only, and subprocesses whose ends are not waited for in vain.\<close>

definition quiet :: "'x code \<Rightarrow> (nat \<Rightarrow> nat \<Rightarrow> 'x sys \<Rightarrow> 'x sys) \<Rightarrow> bool" where
  "quiet code eff \<longleftrightarrow> (\<forall>f d w. snd (callback code f d w) = w\<lparr>env := eff f d (env w)\<rparr>) \<and> waits_return (proc_os code)"

fun happen :: "'x code \<Rightarrow> (nat \<Rightarrow> nat \<Rightarrow> 'x sys \<Rightarrow> 'x sys) \<Rightarrow> pool_event \<Rightarrow> 'x sys \<Rightarrow> 'x sys" where
  "happen code eff (Ran f d) e = eff f d e"
| "happen code eff (Disposed procs) e = the (free_proc_chain (proc_os code) procs e)"

definition happens :: "'x code \<Rightarrow> (nat \<Rightarrow> nat \<Rightarrow> 'x sys \<Rightarrow> 'x sys) \<Rightarrow> pool_event list \<Rightarrow> 'x sys \<Rightarrow> 'x sys" where
  "happens code eff evs e = fold (happen code eff) evs e"

lemma happens_simps [simp]:
  "happens code eff [] e = e" "happens code eff (ev # evs) e = happens code eff evs (happen code eff ev e)"
  "happens code eff (evs @ evs') e = happens code eff evs' (happens code eff evs e)"
  by (simp_all add: happens_def)

lemma run_cleanups_quiet:
  assumes "quiet code eff" "pools w p = Some P"
  shows "run_cleanups code l p w =
    Some (w\<lparr>pools := (pools w)(p \<mapsto> set_list l [] P), env := happens code eff (map ran (list_of l P)) (env w)\<rparr>)"
  using assms(2)
proof (induction "list_of l P" arbitrary: w P)
  case Nil
  then have "set_list l [] P = P" by (cases l) auto
  then show ?case using Nil by (subst run_cleanups.simps) (simp add: fun_upd_idem)
next
  case (Cons c cs)
  let ?w = "w\<lparr>pools := (pools w)(p \<mapsto> set_list l cs P), env := eff (plain_cleanup_fn c) (cleanup_data c) (env w)\<rparr>"
  have step: "snd (callback code (plain_cleanup_fn c) (cleanup_data c) (upd_pool p (set_list l cs) w)) = ?w"
    using assms(1) Cons.prems by (simp add: quiet_def upd_pool_def)
  have l: "list_of l (set_list l cs P) = cs" "set_list l [] (set_list l cs P) = set_list l [] P" by (cases l; simp)+
  have "run_cleanups code l p w = run_cleanups code l p ?w"
    using Cons.hyps(2) [symmetric] Cons.prems step by (subst run_cleanups.simps) simp
  also have "\<dots> = Some (?w\<lparr>pools := (pools ?w)(p \<mapsto> set_list l [] (set_list l cs P)),
      env := happens code eff (map ran (list_of l (set_list l cs P))) (env ?w)\<rparr>)"
    by (rule Cons.hyps(1)) (simp_all add: l)
  finally show ?case by (simp add: l Cons.hyps(2) [symmetric])
qed

lemma dispose_quiet:
  "quiet code eff \<Longrightarrow> dispose_subprocesses code p w =
     Some (w\<lparr>env := happen code eff (Disposed (subprocesses (pool_at w p))) (env w)\<rparr>)"
  using free_proc_chain_returns [of "proc_os code" "subprocesses (pool_at w p)" "env w"]
  by (auto simp: dispose_subprocesses_def quiet_def)

section \<open>Where the nodes go\<close>

fun tree_blocks :: "ptree \<Rightarrow> (nat \<times> nat) multiset" where
  "tree_blocks (PNode p P ts) = blocks (nodes P) + sum_list (map tree_blocks ts)"

text \<open>The blocks \<open>B\<close> went to the free lists of the allocator \<open>a\<close> or to \<open>free\<close>.\<close>

definition gave :: "nat \<Rightarrow> 'x world \<Rightarrow> 'x world \<Rightarrow> (nat \<times> nat) multiset \<Rightarrow> bool" where
  "gave a w w' B \<longleftrightarrow> (\<exists>A A' given. allocators w a = Some A \<and> allocators w' = (allocators w)(a \<mapsto> A') \<and>
     allocator_ok A' \<and> owner A' = owner A \<and> os_freed w' = os_freed w @ given \<and> stock A' + blocks given = stock A + B)"

lemma gave_none:
  "allocators w a = Some A \<Longrightarrow> allocator_ok A \<Longrightarrow> allocators w' = allocators w \<Longrightarrow> os_freed w' = os_freed w \<Longrightarrow> gave a w w' {#}"
  unfolding gave_def by (intro exI [of _ A] exI [of _ "[]"]) (simp add: fun_upd_idem)

lemma gave_trans:
  assumes "gave a w w' B" "gave a w' w'' C"
  shows "gave a w w'' (B + C)"
proof -
  from assms(1) obtain A A' g where 1: "allocators w a = Some A" "allocators w' = (allocators w)(a \<mapsto> A')"
    "owner A' = owner A" "os_freed w' = os_freed w @ g" "stock A' + blocks g = stock A + B" by (auto simp: gave_def)
  from assms(2) 1(2) obtain A'' h where 2: "allocators w'' = (allocators w')(a \<mapsto> A'')" "allocator_ok A''"
    "owner A'' = owner A'" "os_freed w'' = os_freed w' @ h" "stock A'' + blocks h = stock A' + C" by (auto simp: gave_def)
  have "stock A'' + blocks (g @ h) = stock A + (B + C)"
    using 1(5) 2(5) by (metis (no_types, lifting) add.assoc add.commute blocks_simps(3))
  then show ?thesis using 1 2 by (auto simp: gave_def)
qed

lemma gave_cong:
  "gave a w w' B \<Longrightarrow> allocators v = allocators w \<Longrightarrow> os_freed v = os_freed w \<Longrightarrow> allocators v' = allocators w' \<Longrightarrow>
    os_freed v' = os_freed w' \<Longrightarrow> gave a v v' B"
  by (simp add: gave_def)

lemma owner_free_one [simp]: "owner (fst (free_one af n)) = owner (fst af)"
  by (cases af) (auto simp: free_one_def Let_def)

lemma owner_free: "allocator_free A ns = (A', given) \<Longrightarrow> owner A' = owner A"
proof -
  have "owner (fst (foldl free_one af ns)) = owner (fst af)" for af
    by (induction ns arbitrary: af) simp_all
  then show "allocator_free A ns = (A', given) \<Longrightarrow> owner A' = owner A"
    by (metis allocator_free_def fst_conv)
qed

lemma destroy_nodes_ok:
  assumes "allocator_ok A" "pool_ok P" "destroy_nodes A P = (A', given)"
  shows "allocator_ok A'" "stock A' + blocks given = stock A + blocks (nodes P)" "owner A' = owner A"
proof -
  have res: "allocator_free A (ring_from (self P) (nodes P)) = (A', given)" using assms(3) by (simp add: destroy_nodes_def)
  have s: "set (ring_from (self P) (nodes P)) = set (nodes P)" using mset_ring_from by (metis set_mset_mset)
  have "\<forall>n \<in> set (ring_from (self P) (nodes P)). node_ok n"
    using pool_ok_nodes [OF assms(2)] by (simp add: s node_in_use_def)
  from ns.give_ok [OF assms(1) this res] show "allocator_ok A'" "stock A' + blocks given = stock A + blocks (nodes P)"
    by (simp_all add: blocks_def)
  show "owner A' = owner A" by (rule owner_free [OF res])
qed

section \<open>Removing a pool from its list\<close>

definition relinked :: "pool_ref \<Rightarrow> nat option \<Rightarrow> (nat \<Rightarrow> pool option) \<Rightarrow> nat \<Rightarrow> pool option" where
  "relinked r s m x = map_option (\<lambda>X.
     let X = (if r = Child_of x then X\<lparr>child := s\<rparr> else if r = Sibling_of x then X\<lparr>sibling := s\<rparr> else X)
     in if s = Some x then X\<lparr>ref := Some r\<rparr> else X) (m x)"

lemma upd_pool_at: "pools (upd_pool p f w) x = (if x = p then map_option f (pools w x) else pools w x)"
  by (simp add: upd_pool_def)

lemma upd_pool_simps [simp]:
  "allocators (upd_pool p f w) = allocators w" "os_freed (upd_pool p f w) = os_freed w" "env (upd_pool p f w) = env w"
  "global_pool (upd_pool p f w) = global_pool w" "pools_initialized (upd_pool p f w) = pools_initialized w"
  by (simp_all add: upd_pool_def)

lemma relink_eq: "set_ref s (Some r) (store_ref r s w) = w\<lparr>pools := relinked r s (pools w)\<rparr>"
proof -
  have "pools (set_ref s (Some r) (store_ref r s w)) x = relinked r s (pools w) x" for x
    by (cases r; cases s; cases "pools w x") (auto simp: set_ref_def store_ref_def upd_pool_at relinked_def)
  then show ?thesis
    by (intro world.equality) (auto simp: set_ref_def store_ref_def split: option.splits pool_ref.splits)
qed

lemma unlink_pool_eq:
  assumes "pools w p = Some P" "parent P = Some q" "ref P = Some r"
  shows "unlink_pool p w = w\<lparr>pools := relinked r (sibling P) (pools w)\<rparr>"
  using assms by (simp add: unlink_pool_def pool_at_def relink_eq)

fun ref_pool :: "pool_ref \<Rightarrow> nat" where
  "ref_pool (Child_of q) = q"
| "ref_pool (Sibling_of q) = q"

lemma relinked_other: "x \<noteq> ref_pool r \<Longrightarrow> s \<noteq> Some x \<Longrightarrow> relinked r s m x = m x"
  by (cases r; cases "m x") (auto simp: relinked_def)

text \<open>The pools behind the one that was removed hang on its \<open>ref\<close> now.\<close>

lemma seg_relinked:
  assumes "seg m a par r0 s us r' None" "distinct (concat (map ids us))"
    "\<forall>q \<in> ids_of us. m' q = relinked r s m q" "ref_pool r \<notin> ids_of us"
  shows "\<exists>r''. seg m' a par r s us r'' None"
proof (cases us)
  case (Cons u vs)
  obtain q P ts where u: "u = PNode q P ts" by (cases u)
  from assms(1) obtain Q r2 where Q: "s = Some q" "m q = Some Q" "contents Q = P" "parent Q = Some par" "pool_ok Q"
    "pool_allocator Q = a" "seg m a q (Child_of q) (child Q) ts r2 None" "seg m a par (Sibling_of q) (sibling Q) vs r' None"
    by (auto simp: Cons u)
  have same: "m' x = m x" if "x \<in> ids_of ts \<or> x \<in> ids_of vs" for x
    using that assms(2-4) by (subst relinked_other [of x r s m, symmetric]) (auto simp: Cons u Q(1))
  have "m' q = Some (Q\<lparr>ref := Some r\<rparr>)" using assms(3,4) Q(1,2) by (auto simp: Cons u relinked_def)
  moreover have "contents (Q\<lparr>ref := Some r\<rparr>) = P" "pool_ok (Q\<lparr>ref := Some r\<rparr>)"
    using Q(3,5) by (simp_all add: contents_def pool_ok_def)
  ultimately show ?thesis
    using Q seg_frame [of ts m' m] seg_frame [of vs m' m] same by (fastforce simp: Cons u)
qed (use assms(1) in auto)

section \<open>Tearing down a tree\<close>

text \<open>
  From \<open>w\<close> to \<open>w'\<close>: what the store of pools became, which events happened in which order, and
  which blocks were given back.
\<close>

definition tore :: "'x code \<Rightarrow> (nat \<Rightarrow> nat \<Rightarrow> 'x sys \<Rightarrow> 'x sys) \<Rightarrow> nat \<Rightarrow> 'x world \<Rightarrow> 'x world \<Rightarrow>
    pool_event list \<Rightarrow> (nat \<times> nat) multiset \<Rightarrow> (nat \<Rightarrow> pool option) \<Rightarrow> bool" where
  "tore code eff a w w' evs B m \<longleftrightarrow>
     pools w' = m \<and> env w' = happens code eff evs (env w) \<and> gave a w w' B \<and>
     global_pool w' = global_pool w \<and> pools_initialized w' = pools_initialized w"

definition alloc_ready :: "nat \<Rightarrow> 'x world \<Rightarrow> nat set \<Rightarrow> bool" where
  "alloc_ready a w I \<longleftrightarrow> (\<exists>A. allocators w a = Some A \<and> allocator_ok A \<and> (\<forall>q \<in> I. owner A \<noteq> Some q))"

lemma alloc_ready_gave: "gave a w w' B \<Longrightarrow> alloc_ready a w I \<Longrightarrow> J \<subseteq> I \<Longrightarrow> alloc_ready a w' J"
  by (fastforce simp: gave_def alloc_ready_def)

lemma alloc_ready_cong: "alloc_ready a w I \<Longrightarrow> allocators w' = allocators w \<Longrightarrow> J \<subseteq> I \<Longrightarrow> alloc_ready a w' J"
  by (auto simp: alloc_ready_def)

text \<open>The function up to the point where the pool is taken out of its list.\<close>

lemma destroy_until_unlink:
  assumes quiet: "quiet code eff" and p: "pools w p = Some Q"
    and kids: "\<And>w1. pools w1 = (pools w)(p \<mapsto> Q\<lparr>pre_cleanups := []\<rparr>) \<Longrightarrow> allocators w1 = allocators w \<Longrightarrow>
      \<exists>w2. tear_down code (Destroy_children p) w1 = Some w2 \<and>
        tore code eff a w1 w2 evs B (((pools w1)(p \<mapsto> Q\<lparr>pre_cleanups := [], child := None\<rparr>)) |` (- I))"
    and new: "p \<notin> I"
  shows "\<exists>w4. tear_down code (Destroy_pool p) w = Some (release_pool p (unlink_pool p w4)) \<and>
    tore code eff a w w4 (map ran (pre_cleanups Q) @ evs @ map ran (cleanups Q) @ [Disposed (subprocesses Q)]) B
      (((pools w)(p \<mapsto> Q\<lparr>pre_cleanups := [], child := None, cleanups := []\<rparr>)) |` (- I))"
proof -
  let ?w1 = "w\<lparr>pools := (pools w)(p \<mapsto> Q\<lparr>pre_cleanups := []\<rparr>), env := happens code eff (map ran (pre_cleanups Q)) (env w)\<rparr>"
  have pre: "run_cleanups code Pre p w = Some ?w1" using run_cleanups_quiet [OF quiet p, of Pre] by simp
  have w1: "upd_pool p (set_list Pre []) ?w1 = ?w1" by (simp add: upd_pool_def)
  from kids [of ?w1] obtain w2 where w2: "tear_down code (Destroy_children p) ?w1 = Some w2"
    and t2: "tore code eff a ?w1 w2 evs B (((pools ?w1)(p \<mapsto> Q\<lparr>pre_cleanups := [], child := None\<rparr>)) |` (- I))" by auto
  have p2: "pools w2 p = Some (Q\<lparr>pre_cleanups := [], child := None\<rparr>)" using t2 new by (simp add: tore_def)
  let ?w3 = "w2\<lparr>pools := (pools w2)(p \<mapsto> Q\<lparr>pre_cleanups := [], child := None, cleanups := []\<rparr>),
      env := happens code eff (map ran (cleanups Q)) (env w2)\<rparr>"
  have plain: "run_cleanups code Plain p w2 = Some ?w3" using run_cleanups_quiet [OF quiet p2, of Plain] by simp
  let ?w4 = "?w3\<lparr>env := happen code eff (Disposed (subprocesses Q)) (env ?w3)\<rparr>"
  have disp: "dispose_subprocesses code p ?w3 = Some ?w4"
    using dispose_quiet [OF quiet, of p ?w3] by (simp add: pool_at_def)
  have "tear_down code (Destroy_pool p) w = Some (release_pool p (unlink_pool p ?w4))"
    by (subst tear_down.simps) (simp add: pre w1 w2 plain disp)
  moreover have "tore code eff a w ?w4 (map ran (pre_cleanups Q) @ evs @ map ran (cleanups Q) @ [Disposed (subprocesses Q)]) B
      (((pools w)(p \<mapsto> Q\<lparr>pre_cleanups := [], child := None, cleanups := []\<rparr>)) |` (- I))"
    using t2 new by (auto simp: tore_def gave_def restrict_map_def fun_eq_iff)
  ultimately show ?thesis by blast
qed

text \<open>The nodes go back.\<close>

lemma release_pool_ok:
  assumes "pools w p = Some P" "pool_ok P" "alloc_ready (pool_allocator P) w {p}"
  shows "\<exists>w'. release_pool p w = w' \<and> pools w' = (pools w)(p := None) \<and> env w' = env w \<and>
    gave (pool_allocator P) w w' (blocks (nodes P)) \<and> global_pool w' = global_pool w \<and> pools_initialized w' = pools_initialized w"
proof -
  from assms(3) obtain A where A: "allocators w (pool_allocator P) = Some A" "allocator_ok A" "owner A \<noteq> Some p"
    by (auto simp: alloc_ready_def)
  obtain A' given where d: "destroy_nodes A P = (A', given)" by (rule prod.exhaust)
  note D = destroy_nodes_ok [OF A(2) assms(2) d]
  have "release_pool p w = w\<lparr>pools := (pools w)(p := None), allocators := (allocators w)(pool_allocator P \<mapsto> A'),
      os_freed := os_freed w @ given\<rparr>"
    using assms(1) A D(3) by (simp add: release_pool_def pool_at_def allocator_of_def d apr_allocator_owner_get_def)
  then show ?thesis using A D by (auto simp: gave_def)
qed

lemma tear_down_children_step:
  assumes "pools w p = Some P" "child P = Some q" "tear_down code (Destroy_pool q) w = Some w1"
  shows "tear_down code (Destroy_children p) w = tear_down code (Destroy_children p) w1"
  by (subst tear_down.simps) (simp add: assms)

lemma tear_down_no_children:
  "pools w p = Some P \<Longrightarrow> child P = None \<Longrightarrow> tear_down code (Destroy_children p) w = Some w"
  by (subst tear_down.simps) simp

definition tears :: "'x code \<Rightarrow> (nat \<Rightarrow> nat \<Rightarrow> 'x sys \<Rightarrow> 'x sys) \<Rightarrow> nat \<Rightarrow> ptree \<Rightarrow> bool" where
  "tears code eff a t \<longleftrightarrow> (\<forall>w par r rest q.
     seg (pools w) a par r (Some q) [t] (Sibling_of q) rest \<longrightarrow> distinct (ids t) \<longrightarrow> ref_pool r \<notin> set (ids t) \<longrightarrow>
     rest \<notin> Some ` set (ids t) \<longrightarrow> alloc_ready a w (set (ids t)) \<longrightarrow>
     (\<exists>w'. tear_down code (Destroy_pool q) w = Some w' \<and>
        tore code eff a w w' (tree_events t) (tree_blocks t) (relinked r rest (pools w) |` (- set (ids t)))))"

lemma seg_first: "seg m a par r first (PNode q P ts # us) r' rest \<Longrightarrow> first = Some q"
  by simp

lemma children_torn:
  assumes "\<forall>t \<in> set ts. tears code eff a t" "pools w p = Some P" "seg (pools w) a p (Child_of p) (child P) ts r None"
    "distinct (p # concat (map ids ts))" "alloc_ready a w (ids_of ts)"
  shows "\<exists>w'. tear_down code (Destroy_children p) w = Some w' \<and>
    tore code eff a w w' (concat (map tree_events ts)) (sum_list (map tree_blocks ts))
      (((pools w)(p \<mapsto> P\<lparr>child := None\<rparr>)) |` (- ids_of ts))"
  using assms
proof (induction ts arbitrary: w P r)
  case Nil
  then have c: "child P = None" by simp
  then have "P\<lparr>child := None\<rparr> = P" by simp
  moreover from Nil.prems(5) have "gave a w w {#}" by (auto simp: alloc_ready_def intro: gave_none)
  ultimately show ?case using tear_down_no_children [OF Nil.prems(2) c] Nil.prems(2) by (simp add: tore_def fun_upd_idem)
next
  case (Cons t us)
  obtain q S ss where t: "t = PNode q S ss" by (cases t)
  from Cons.prems(3) obtain Q where c: "child P = Some q" and Q: "pools w q = Some Q"
    and one: "seg (pools w) a p (Child_of p) (Some q) [t] (Sibling_of q) (sibling Q)"
    and more: "seg (pools w) a p (Sibling_of q) (sibling Q) us r None" by (auto simp: t)
  let ?I = "set (ids t)"
  have I: "p \<notin> ?I" "?I \<inter> ids_of us = {}" "distinct (ids t)" "distinct (p # concat (map ids us))"
    using Cons.prems(4) by auto
  have next_us: "sibling Q = None \<or> (\<exists>x \<in> ids_of us. sibling Q = Some x)"
  proof (cases us)
    case (Cons v vs)
    then show ?thesis using more by (cases v) auto
  qed (use more in auto)
  have rest: "sibling Q \<notin> Some ` ?I" "sibling Q \<noteq> Some p" using next_us I by auto
  have here: "tears code eff a t" using Cons.prems(1) by simp
  have "alloc_ready a w ?I" using Cons.prems(5) by (rule alloc_ready_cong) auto
  from here [unfolded tears_def, rule_format, OF one I(3) _ rest(1) this] I(1) obtain w1 where w1: "tear_down code (Destroy_pool q) w = Some w1"
    and t1: "tore code eff a w w1 (tree_events t) (tree_blocks t) (relinked (Child_of p) (sibling Q) (pools w) |` (- ?I))"
    by auto
  let ?P = "P\<lparr>child := sibling Q\<rparr>"
  have p1: "pools w1 p = Some ?P" using t1 I(1) rest(2) Cons.prems(2) by (simp add: tore_def relinked_def)
  obtain r1 where s1: "seg (pools w1) a p (Child_of p) (sibling Q) us r1 None"
  proof -
    have "pools w1 x = relinked (Child_of p) (sibling Q) (pools w) x" if "x \<in> ids_of us" for x
      using t1 that I(2) by (auto simp: tore_def restrict_map_def)
    then show thesis using seg_relinked [OF more, of "pools w1" "Child_of p"] I(4) that by auto
  qed
  have ready: "alloc_ready a w1 (ids_of us)"
    using t1 Cons.prems(5) by (auto simp: tore_def intro: alloc_ready_gave)
  have "\<forall>t \<in> set us. tears code eff a t" using Cons.prems(1) by simp
  moreover have "seg (pools w1) a p (Child_of p) (child ?P) us r1 None" using s1 by simp
  ultimately obtain w' where w': "tear_down code (Destroy_children p) w1 = Some w'"
    and t2: "tore code eff a w1 w' (concat (map tree_events us)) (sum_list (map tree_blocks us))
      (((pools w1)(p \<mapsto> ?P\<lparr>child := None\<rparr>)) |` (- ids_of us))"
    using Cons.IH [OF _ p1 _ I(4) ready] by blast
  have maps: "((pools w1)(p \<mapsto> ?P\<lparr>child := None\<rparr>)) |` (- ids_of us) = ((pools w)(p \<mapsto> P\<lparr>child := None\<rparr>)) |` (- ids_of (t # us))"
  proof
    fix x
    have "pools w1 x = pools w x" if "x \<noteq> p" "x \<notin> ?I" "x \<notin> ids_of us"
    proof -
      have "sibling Q \<noteq> Some x" using next_us that(3) by auto
      then show ?thesis using t1 that by (simp add: tore_def relinked_other)
    qed
    then show "(((pools w1)(p \<mapsto> ?P\<lparr>child := None\<rparr>)) |` (- ids_of us)) x =
        (((pools w)(p \<mapsto> P\<lparr>child := None\<rparr>)) |` (- ids_of (t # us))) x"
      using t1 I by (auto simp: restrict_map_def tore_def)
  qed
  have "tear_down code (Destroy_children p) w = Some w'"
    using tear_down_children_step [OF Cons.prems(2) c w1] w' by simp
  moreover have "gave a w w' (tree_blocks t + sum_list (map tree_blocks us))"
    using t1 t2 gave_trans [of a w w1 _ w'] by (simp add: tore_def)
  moreover have "env w' = happens code eff (concat (map tree_events (t # us))) (env w)"
    "global_pool w' = global_pool w \<and> pools_initialized w' = pools_initialized w"
    using t1 t2 by (simp_all add: tore_def)
  moreover have "pools w' = ((pools w)(p \<mapsto> P\<lparr>child := None\<rparr>)) |` (- ids_of (t # us))"
    using t2 unfolding tore_def maps by blast
  ultimately show ?case unfolding tore_def by (intro exI [of _ w']) simp
qed

text \<open>A pool in the list of its parent.\<close>

lemma all_torn:
  fixes code :: "'x code"
  assumes quiet: "quiet code eff"
  shows "tears code eff a t"
proof (induction t)
  case (PNode p P0 ts)
  have kids: "\<forall>t \<in> set ts. tears code eff a t" using PNode.IH by blast
  show ?case
    unfolding tears_def
  proof (intro allI impI)
    fix w :: "'x world" and par r rest q
    assume s: "seg (pools w) a par r (Some q) [PNode p P0 ts] (Sibling_of q) rest"
      and d: "distinct (ids (PNode p P0 ts))" and r: "ref_pool r \<notin> set (ids (PNode p P0 ts))"
      and rest: "rest \<notin> Some ` set (ids (PNode p P0 ts))" and ready: "alloc_ready a w (set (ids (PNode p P0 ts)))"
    from s obtain Q r2 where q: "q = p" and Q: "pools w p = Some Q" "contents Q = P0" "parent Q = Some par" "ref Q = Some r"
      "pool_ok Q" "pool_allocator Q = a" "seg (pools w) a p (Child_of p) (child Q) ts r2 None" "sibling Q = rest" by auto
    have P0: "pre_cleanups P0 = pre_cleanups Q" "cleanups P0 = cleanups Q" "subprocesses P0 = subprocesses Q" "nodes P0 = nodes Q"
      using Q(2) by (auto simp: contents_def)
    let ?I = "ids_of ts"
    have new: "p \<notin> ?I" "distinct (p # concat (map ids ts))" using d by auto
    have step: "\<exists>w2. tear_down code (Destroy_children p) w1 = Some w2 \<and>
        tore code eff a w1 w2 (concat (map tree_events ts)) (sum_list (map tree_blocks ts))
          (((pools w1)(p \<mapsto> Q\<lparr>pre_cleanups := [], child := None\<rparr>)) |` (- ?I))"
      if w1: "pools w1 = (pools w)(p \<mapsto> Q\<lparr>pre_cleanups := []\<rparr>)" "allocators w1 = allocators w" for w1
    proof -
      let ?Q = "Q\<lparr>pre_cleanups := []\<rparr>"
      have "seg (pools w1) a p (Child_of p) (child ?Q) ts r2 None"
        using seg_frame [OF _ Q(7), of "pools w1"] new(1) w1 by auto
      moreover have "alloc_ready a w1 ?I" using ready w1(2) by (auto intro: alloc_ready_cong)
      moreover have "pools w1 p = Some ?Q" using w1 by simp
      ultimately show ?thesis using children_torn [OF kids _ _ new(2), of w1 ?Q r2] by simp
    qed
    from destroy_until_unlink [OF quiet Q(1) step new(1)] obtain w4 where
      w4: "tear_down code (Destroy_pool p) w = Some (release_pool p (unlink_pool p w4))"
      and t4: "tore code eff a w w4 (tree_events (PNode p P0 ts)) (sum_list (map tree_blocks ts))
        (((pools w)(p \<mapsto> Q\<lparr>pre_cleanups := [], child := None, cleanups := []\<rparr>)) |` (- ?I))"
      by (auto simp: P0)
    let ?Q4 = "Q\<lparr>pre_cleanups := [], child := None, cleanups := []\<rparr>"
    have p4: "pools w4 p = Some ?Q4" using t4 new(1) by (simp add: tore_def)
    let ?w5 = "w4\<lparr>pools := relinked r rest (pools w4)\<rparr>"
    have u: "unlink_pool p w4 = ?w5" using unlink_pool_eq [OF p4, of par r] Q by simp
    have p5: "pools ?w5 p = Some ?Q4" using p4 r rest by (simp add: relinked_other)
    have ok: "pool_ok ?Q4" using Q(5) by (simp add: pool_ok_def)
    have "alloc_ready a w4 {p}" using t4 ready by (auto simp: tore_def intro: alloc_ready_gave)
    then have "alloc_ready (pool_allocator ?Q4) ?w5 {p}" using Q(6) by (auto intro: alloc_ready_cong)
    from release_pool_ok [OF p5 ok this] obtain w' where w': "release_pool p ?w5 = w'" "pools w' = (pools ?w5)(p := None)"
      "env w' = env w4" "gave a ?w5 w' (blocks (nodes Q))" "global_pool w' = global_pool w4"
      "pools_initialized w' = pools_initialized w4" using Q(6) by auto
    have "(relinked r rest (pools w4))(p := None) = relinked r rest (pools w) |` (- set (ids (PNode p P0 ts)))"
      using t4 by (auto simp: tore_def relinked_def restrict_map_def fun_eq_iff)
    moreover have "gave a w4 w' (blocks (nodes Q))" using w'(4) by (rule gave_cong) simp_all
    then have "gave a w w' (tree_blocks (PNode p P0 ts))"
      using gave_trans [of a w w4 "sum_list (map tree_blocks ts)" w' "blocks (nodes Q)"] t4
      by (simp add: tore_def P0 add.commute)
    ultimately have "tore code eff a w w' (tree_events (PNode p P0 ts)) (tree_blocks (PNode p P0 ts))
        (relinked r rest (pools w) |` (- set (ids (PNode p P0 ts))))"
      using w' t4 by (simp add: tore_def)
    then show "\<exists>w'. tear_down code (Destroy_pool q) w = Some w' \<and>
        tore code eff a w w' (tree_events (PNode p P0 ts)) (tree_blocks (PNode p P0 ts))
          (relinked r rest (pools w) |` (- set (ids (PNode p P0 ts))))"
      using w4 u w'(1) q by auto
  qed
qed

section \<open>The list without the pool\<close>

lemma seg_last: "seg m a par r first us r' rest \<Longrightarrow> us \<noteq> [] \<Longrightarrow> \<exists>q \<in> ids_of us. r' = Sibling_of q"
proof (induction us arbitrary: r first)
  case (Cons u us)
  then show ?case by (cases u; cases us) (auto simp del: ids.simps, auto)
qed simp

lemma seg_retarget:
  assumes "seg m a par r first us r0 old" "distinct (concat (map ids us))"
    "\<forall>x \<in> ids_of us. m' x = relinked r0 new m x" "new \<notin> Some ` ids_of us"
  shows "seg m' a par r (if us = [] then new else first) us r0 new"
  using assms
proof (induction us arbitrary: r first)
  case (Cons u us)
  obtain q P ts where u: "u = PNode q P ts" by (cases u)
  from Cons.prems(1) obtain Q r2 where Q: "first = Some q" "m q = Some Q" "contents Q = P" "parent Q = Some par" "ref Q = Some r"
    "pool_ok Q" "pool_allocator Q = a" "seg m a q (Child_of q) (child Q) ts r2 None" "seg m a par (Sibling_of q) (sibling Q) us r0 old"
    by (auto simp: u)
  have d: "q \<notin> ids_of ts" "q \<notin> ids_of us" "ids_of ts \<inter> ids_of us = {}" using Cons.prems(2) by (auto simp: u)
  show ?case
  proof (cases "us = []")
    case True
    then have r0: "r0 = Sibling_of q" using Q(9) by simp
    have "m' q = Some (Q\<lparr>sibling := new\<rparr>)" using Cons.prems(3,4) Q(2) by (auto simp: u r0 relinked_def)
    moreover have "m' x = m x" if "x \<in> ids_of ts" for x
      using that d(1) Cons.prems(3,4) by (subst relinked_other [of x r0 new m, symmetric]) (auto simp: u r0)
    moreover have "contents (Q\<lparr>sibling := new\<rparr>) = P" "pool_ok (Q\<lparr>sibling := new\<rparr>)"
      using Q(3,6) by (simp_all add: contents_def pool_ok_def)
    ultimately show ?thesis using Q seg_frame [of ts m' m] True r0 by (fastforce simp: u)
  next
    case False
    obtain l where l: "l \<in> ids_of us" "r0 = Sibling_of l" using seg_last [OF Q(9) False] by blast
    have new_us: "new \<notin> Some ` ids_of us" using Cons.prems(4) by (auto simp: u)
    have same: "m' x = m x" if "x = q \<or> x \<in> ids_of ts" for x
      using that d l Cons.prems(3,4) by (subst relinked_other [of x r0 new m, symmetric]) (auto simp: u)
    have "seg m' a par (Sibling_of q) (sibling Q) us r0 new"
      using Cons.IH [OF Q(9) _ _ new_us] Cons.prems(2,3) False by (simp add: u)
    then show ?thesis using Q same seg_frame [of ts m' m] by (fastforce simp: u)
  qed
qed simp

lemma apart_point: "x = y \<or> x \<in> A \<Longrightarrow> y \<notin> B \<Longrightarrow> B \<inter> A = {} \<Longrightarrow> x \<notin> B"
  by blast

lemma apart_some: "x = None \<or> (\<exists>y \<in> A. x = Some y) \<Longrightarrow> B \<inter> A = {} \<Longrightarrow> x \<notin> Some ` B"
  by blast

lemma relinked_parent:
  "m p = Some R \<Longrightarrow> rest \<noteq> Some p \<Longrightarrow> relinked r rest m p =
    Some (if r = Child_of p then R\<lparr>child := rest\<rparr> else if r = Sibling_of p then R\<lparr>sibling := rest\<rparr> else R)"
  by (simp add: relinked_def)

text \<open>
  C4. Destroying a subpool, under these conditions: the cleanups have no effect on pools and the waits for subprocesses
  return (\<open>quiet\<close>), the pool, its siblings and all pools below them use one allocator, and none of the pools that are
  destroyed owns it. Then the call returns; for the pool and each pool below it the pre-cleanups run, the last registered first, then the
  subpools are destroyed, then the cleanups run, the last registered first, and then the subprocesses are
  disposed of, each once; all nodes of these pools go back to the allocator or to \<open>free\<close>;
  they are gone from the store, and the other children of the parent are linked as before.
\<close>

theorem apr_pool_destroy_tears_down:
  assumes quiet: "quiet code eff" and kids: "subpools (pools w) a r (us @ PNode p P ts # vs)"
    and d: "distinct (r # concat (map ids (us @ PNode p P ts # vs)))" and ready: "alloc_ready a w (set (ids (PNode p P ts)))"
  shows "\<exists>w'. apr_pool_destroy code p w = Some w' \<and> env w' = happens code eff (tree_events (PNode p P ts)) (env w) \<and>
    gave a w w' (tree_blocks (PNode p P ts)) \<and> subpools (pools w') a r (us @ vs) \<and>
    pools w' |` set (ids (PNode p P ts)) = Map.empty"
proof -
  let ?t = "PNode p P ts" and ?m = "pools w"
  from kids obtain R r1 where R: "?m r = Some R" "seg ?m a r (Child_of r) (child R) (us @ ?t # vs) r1 None"
    by (auto simp: subpools_def)
  then obtain r0 x where us: "seg ?m a r (Child_of r) (child R) us r0 x" and tv: "seg ?m a r r0 x (?t # vs) r1 None"
    by (auto simp: seg_append simp del: seg.simps)
  obtain Q where x: "x = Some p" and Q: "?m p = Some Q" and one: "seg ?m a r r0 (Some p) [?t] (Sibling_of p) (sibling Q)"
    and vs: "seg ?m a r (Sibling_of p) (sibling Q) vs r1 None" using tv by auto
  let ?rest = "sibling Q"
  have D: "r \<notin> set (ids ?t)" "distinct (ids ?t)" "set (ids ?t) \<inter> ids_of us = {}" "set (ids ?t) \<inter> ids_of vs = {}"
    "r \<notin> ids_of us" "r \<notin> ids_of vs" "distinct (concat (map ids us))" "distinct (concat (map ids vs))" "ids_of us \<inter> ids_of vs = {}"
    using d by (simp_all add: Int_Un_distrib) blast+
  have r0: "r0 = Child_of r \<and> us = [] \<or> (\<exists>l \<in> ids_of us. r0 = Sibling_of l)"
    using us seg_last [OF us] by (cases us) auto
  have rest: "?rest = None \<or> (\<exists>y \<in> ids_of vs. ?rest = Some y)"
  proof (cases vs)
    case (Cons v vs')
    then show ?thesis using vs by (cases v) auto
  qed (use vs in auto)
  have rp: "ref_pool r0 = r \<or> ref_pool r0 \<in> ids_of us"
    using r0
  proof
    assume "\<exists>l \<in> ids_of us. r0 = Sibling_of l"
    then obtain l where l: "l \<in> ids_of us" "r0 = Sibling_of l" by (elim bexE)
    show ?thesis unfolding l(2) ref_pool.simps using l(1) by (rule disjI2)
  qed simp
  have sep1: "ref_pool r0 \<notin> set (ids ?t)" by (rule apart_point [OF rp D(1,3)])
  have sep2: "?rest \<notin> Some ` set (ids ?t)" by (rule apart_some [OF rest D(4)])
  have sep3: "ref_pool r0 \<notin> ids_of vs" by (rule apart_point [OF rp D(6)]) (use D(9) in blast)
  have sep4: "?rest \<notin> Some ` ids_of us" by (rule apart_some [OF rest D(9)])
  have sep5: "?rest \<noteq> Some r" using apart_some [OF rest, of "{r}"] D(6) by simp
  from all_torn [OF quiet, of a ?t, unfolded tears_def, rule_format, OF one D(2) sep1 sep2 ready]
  obtain w' where w': "apr_pool_destroy code p w = Some w'" and t: "tore code eff a w w' (tree_events ?t) (tree_blocks ?t)
      (relinked r0 ?rest ?m |` (- set (ids ?t)))" by (auto simp: apr_pool_destroy_def simp del: ids.simps)
  have m': "pools w' y = relinked r0 ?rest ?m y" if "y \<notin> set (ids ?t)" for y using t that by (simp add: tore_def)
  let ?first = "if us = [] then ?rest else child R"
  have s1: "seg (pools w') a r (Child_of r) ?first us r0 ?rest"
    by (rule seg_retarget [OF us D(7) _ sep4]) (use m' D(3) in blast)
  obtain r2 where s2: "seg (pools w') a r r0 ?rest vs r2 None"
    using seg_relinked [OF vs D(8) _ sep3, of "pools w'"] m' D(4) by blast
  have "us = [] \<longleftrightarrow> r0 = Child_of r" "r0 \<noteq> Sibling_of r" using r0 D(5) us by auto
  then obtain R' where R': "pools w' r = Some R'" "child R' = ?first"
    using m' [OF D(1)] relinked_parent [of ?m r R ?rest r0, OF R(1) sep5] by (cases "us = []") auto
  have "seg (pools w') a r (Child_of r) (child R') (us @ vs) r2 None"
    unfolding seg_append R'(2) using s1 s2 by blast
  then have "subpools (pools w') a r (us @ vs)" unfolding subpools_def using R'(1) by blast
  moreover have "pools w' |` set (ids ?t) = Map.empty" using t by (auto simp: tore_def restrict_map_def)
  ultimately show ?thesis using w' t by (auto simp: tore_def simp del: ids.simps tree_events.simps tree_blocks.simps)
qed

text \<open>
  A global pool at 65576 with one subpool at 131112, which has two cleanups and a pre-cleanup; the
  cleanups write their function and data to a log.
\<close>

definition logging :: "nat \<Rightarrow> nat \<Rightarrow> (nat \<times> nat) list sys \<Rightarrow> (nat \<times> nat) list sys" where
  "logging f d e = (fst e @ [(f, d)], snd e)"

definition sample_code :: "(nat \<times> nat) list code" where
  "sample_code = \<lparr>callback = \<lambda>f d w. (APR_SUCCESS, w\<lparr>env := logging f d (env w)\<rparr>), abort_call = \<lambda>f rv w. w,
     proc_os = \<lparr>os_poll = \<lambda>p x. (APR_CHILD_DONE, x), os_wait = \<lambda>p x. Some (APR_CHILD_DONE, x), os_kill = \<lambda>p sg x. (APR_SUCCESS, x), os_sleep = \<lambda>t x. x\<rparr>\<rparr>"

definition sample_kid :: pool where
  "sample_kid = (new_pool (sample_node\<lparr>node_at := 131072, first_avail := 131112, endp := 139264\<rparr>) 0 None)
     \<lparr>parent := Some 65576, ref := Some (Child_of 65576),
      cleanups := [\<lparr>cleanup_data = 2, plain_cleanup_fn = 11, child_cleanup_fn = Some 0\<rparr>,
        \<lparr>cleanup_data = 1, plain_cleanup_fn = 11, child_cleanup_fn = Some 0\<rparr>],
      pre_cleanups := [\<lparr>cleanup_data = 3, plain_cleanup_fn = 12, child_cleanup_fn = None\<rparr>]\<rparr>"

definition sample_world :: "nat option \<Rightarrow> (nat \<times> nat) list world" where
  "sample_world own = \<lparr>pools = [65576 \<mapsto> sample_pool\<lparr>child := Some 131112\<rparr>, 131112 \<mapsto> sample_kid],
     allocators = [0 \<mapsto> apr_allocator_owner_set new_allocator own], global_pool = Some 65576,
     pools_initialized = True, os_freed = [], env = ([], [])\<rparr>"

lemmas sample_defs = sample_world_def sample_kid_def sample_pool_def new_pool_def first_node_def sample_node_def

lemma sample_quiet: "quiet sample_code logging"
  by (simp add: quiet_def waits_return_def sample_code_def)

lemma sample_owner_ok: "allocator_ok (apr_allocator_owner_set new_allocator own)"
  using new_allocator_ok(1) by (simp add: allocator_ok_def apr_allocator_owner_set_def)

lemma sample_subpools: "subpools (pools (sample_world own)) 0 65576 [PNode 131112 (contents sample_kid) []]"
  by (simp add: subpools_def sample_defs pool_ok_def node_in_use_def node_ok_def)

lemma apr_pool_destroy_tears_down_witness:
  "\<exists>w'. apr_pool_destroy sample_code 131112 (sample_world None) = Some w' \<and>
     fst (env w') = [(12, 3), (11, 2), (11, 1)] \<and> subpools (pools w') 0 65576 [] \<and> pools w' 131112 = None"
proof -
  have ready: "alloc_ready 0 (sample_world None) (set (ids (PNode 131112 (contents sample_kid) [])))"
    using sample_owner_ok by (simp add: alloc_ready_def sample_world_def apr_allocator_owner_set_def)
  have kids: "subpools (pools (sample_world None)) 0 65576 ([] @ PNode 131112 (contents sample_kid) [] # [])"
    using sample_subpools by simp
  have d: "distinct (65576 # concat (map ids ([] @ PNode 131112 (contents sample_kid) [] # [])))" by simp
  from apr_pool_destroy_tears_down [OF sample_quiet kids d ready]
  obtain w' where w': "apr_pool_destroy sample_code 131112 (sample_world None) = Some w'"
    "env w' = happens sample_code logging (tree_events (PNode 131112 (contents sample_kid) [])) (env (sample_world None))"
    "subpools (pools w') 0 65576 []" "pools w' |` {131112} = Map.empty" by auto
  have "fst (env w') = [(12, 3), (11, 2), (11, 1)]"
    by (simp add: w'(2) contents_def sample_defs logging_def free_proc_chain_def)
  moreover have "pools w' 131112 = None" using w'(4) by (metis restrict_in singletonI)
  ultimately show ?thesis using w' by blast
qed

section \<open>The pool that owns its allocator\<close>

text \<open>The other pools after a pool has left the list that it is in, if it has a parent.\<close>

definition detached :: "pool \<Rightarrow> (nat \<Rightarrow> pool option) \<Rightarrow> nat \<Rightarrow> pool option" where
  "detached P m = (if parent P = None then m else relinked (the (ref P)) (sibling P) m)"

text \<open>
  C10. Destroying a pool that owns its allocator, with or without a parent, when the cleanups have no effect on pools and the
  waits for subprocesses return (\<open>quiet\<close>) and all pools below it use this allocator: all their memory goes back to the
  system, the allocator is gone, and the blocks given to \<open>free\<close> are exactly those of the pool, of all pools below it and of
  the free lists. The other pools stay as they are, but for the pointer that led to the pool, which leads to its next
  sibling now.
\<close>

theorem apr_pool_destroy_owner_frees_all:
  fixes code :: "'x code"
  assumes quiet: "quiet code eff" and P: "pools w p = Some P" "pool_ok P" "pool_allocator P = a"
    and kids: "subpools (pools w) a p ts" and d: "distinct (p # concat (map ids ts))"
    and A: "allocators w a = Some A" "allocator_ok A" "apr_allocator_owner_get A = Some p"
    and up: "parent P \<noteq> None \<Longrightarrow> ref P = Some r \<and> ref_pool r \<notin> set (ids (PNode p P ts)) \<and> sibling P \<notin> Some ` set (ids (PNode p P ts))"
  shows "\<exists>w' freed. apr_pool_destroy code p w = Some w' \<and> env w' = happens code eff (tree_events (PNode p P ts)) (env w) \<and>
    allocators w' a = None \<and> os_freed w' = os_freed w @ freed \<and> blocks freed = stock A + tree_blocks (PNode p P ts) \<and>
    pools w' = detached P (pools w) |` (- set (ids (PNode p P ts)))"
proof -
  let ?I = "ids_of ts"
  have all_kids: "\<forall>t \<in> set ts. tears code eff a t" using all_torn [OF quiet] by blast
  have new: "p \<notin> ?I" using d by simp
  from kids P(1) obtain r1 where s: "seg (pools w) a p (Child_of p) (child P) ts r1 None" by (auto simp: subpools_def)
  have ready: "alloc_ready a w ?I" using A new by (auto simp: alloc_ready_def apr_allocator_owner_get_def)
  have step: "\<exists>w2. tear_down code (Destroy_children p) w1 = Some w2 \<and>
      tore code eff a w1 w2 (concat (map tree_events ts)) (sum_list (map tree_blocks ts))
        (((pools w1)(p \<mapsto> P\<lparr>pre_cleanups := [], child := None\<rparr>)) |` (- ?I))"
    if w1: "pools w1 = (pools w)(p \<mapsto> P\<lparr>pre_cleanups := []\<rparr>)" "allocators w1 = allocators w" for w1 :: "'x world"
  proof -
    let ?P = "P\<lparr>pre_cleanups := []\<rparr>"
    have "seg (pools w1) a p (Child_of p) (child ?P) ts r1 None"
      using seg_frame [OF _ s, of "pools w1"] new w1 by auto
    moreover have "alloc_ready a w1 ?I" using ready w1(2) by (auto intro: alloc_ready_cong)
    moreover have "pools w1 p = Some ?P" using w1 by simp
    ultimately show ?thesis using children_torn [OF all_kids _ _ d, of w1 ?P r1] by simp
  qed
  from destroy_until_unlink [OF quiet P(1) step new] obtain w4 where
    w4: "tear_down code (Destroy_pool p) w = Some (release_pool p (unlink_pool p w4))"
    and t4: "tore code eff a w w4 (tree_events (PNode p P ts)) (sum_list (map tree_blocks ts))
      (((pools w)(p \<mapsto> P\<lparr>pre_cleanups := [], child := None, cleanups := []\<rparr>)) |` (- ?I))" by auto
  let ?P4 = "P\<lparr>pre_cleanups := [], child := None, cleanups := []\<rparr>"
  have p4: "pools w4 p = Some ?P4" using t4 new by (simp add: tore_def)
  define w5 where "w5 = w4\<lparr>pools := detached P (pools w4)\<rparr>"
  have u: "unlink_pool p w4 = w5"
  proof (cases "parent P")
    case None
    then show ?thesis using p4 by (simp add: unlink_pool_def pool_at_def detached_def w5_def)
  next
    case (Some q)
    then show ?thesis using unlink_pool_eq [OF p4, of q r] up by (simp add: detached_def w5_def)
  qed
  have p5: "pools w5 p = Some ?P4"
    using p4 up by (cases "parent P") (auto simp: w5_def detached_def relinked_other)
  from t4 A obtain A4 g4 where A4: "allocators w4 a = Some A4" "allocator_ok A4" "owner A4 = owner A" "os_freed w4 = os_freed w @ g4"
    "stock A4 + blocks g4 = stock A + sum_list (map tree_blocks ts)" by (auto simp: tore_def gave_def)
  obtain A5 g5 where n: "destroy_nodes A4 ?P4 = (A5, g5)" by (rule prod.exhaust)
  have "pool_ok ?P4" using P(2) by (simp add: pool_ok_def)
  note D = destroy_nodes_ok [OF A4(2) this n]
  have rel: "release_pool p w5 = w5\<lparr>pools := (pools w5)(p := None), allocators := (allocators w5)(a := None),
      os_freed := os_freed w @ (g4 @ g5 @ apr_allocator_destroy A5)\<rparr>"
    using p5 A4 A(3) P(3) D(3) n by (simp add: release_pool_def pool_at_def allocator_of_def apr_allocator_owner_get_def w5_def)
  have "blocks (apr_allocator_destroy A5) = stock A5" by (simp add: apr_allocator_destroy_def blocks_def stock_def held_def)
  then have "blocks (g4 @ g5 @ apr_allocator_destroy A5) = (stock A5 + blocks g5) + blocks g4" by simp
  also have "\<dots> = (stock A4 + blocks g4) + blocks (nodes P)" using D(2) by simp
  also have "\<dots> = stock A + tree_blocks (PNode p P ts)" unfolding A4(5) by simp
  finally have "blocks (g4 @ g5 @ apr_allocator_destroy A5) = stock A + tree_blocks (PNode p P ts)" .
  moreover have "(pools w5)(p := None) = detached P (pools w) |` (- set (ids (PNode p P ts)))"
    using t4 by (auto simp: w5_def detached_def relinked_def tore_def restrict_map_def fun_eq_iff)
  moreover have "env w5 = happens code eff (tree_events (PNode p P ts)) (env w)" using t4 by (simp add: tore_def w5_def)
  moreover have "apr_pool_destroy code p w = Some (release_pool p w5)" using w4 u by (simp add: apr_pool_destroy_def)
  ultimately show ?thesis
    by (intro exI [of _ "release_pool p w5"] exI [of _ "g4 @ g5 @ apr_allocator_destroy A5"])
      (simp add: rel del: tree_events.simps tree_blocks.simps ids.simps)
qed

text \<open>The global pool of the example above, now the owner of the allocator.\<close>

lemma apr_pool_destroy_owner_frees_all_witness:
  "\<exists>w'. apr_pool_destroy sample_code 65576 (sample_world (Some 65576)) = Some w' \<and> allocators w' 0 = None \<and>
     blocks (os_freed w') = {#(65536, 1), (131072, 1)#} \<and> pools w' = Map.empty"
proof -
  let ?w = "sample_world (Some 65576)" and ?P = "sample_pool\<lparr>child := Some 131112\<rparr>"
  have P: "pools ?w 65576 = Some ?P" "pool_ok ?P" "pool_allocator ?P = 0" and no_parent: "parent ?P = None"
    by (simp_all add: sample_defs pool_ok_def node_in_use_def node_ok_def)
  have d: "distinct (65576 # concat (map ids [PNode 131112 (contents sample_kid) []]))" by simp
  have A: "allocators ?w 0 = Some (apr_allocator_owner_set new_allocator (Some 65576))"
    "apr_allocator_owner_get (apr_allocator_owner_set new_allocator (Some 65576)) = Some 65576"
    by (simp_all add: sample_world_def apr_allocator_owner_get_def apr_allocator_owner_set_def)
  from apr_pool_destroy_owner_frees_all [OF sample_quiet P sample_subpools d A(1) sample_owner_ok A(2), of "Child_of 0"] no_parent
  obtain w' freed where w': "apr_pool_destroy sample_code 65576 ?w = Some w'" "allocators w' 0 = None"
    "os_freed w' = os_freed ?w @ freed" "pools w' = pools ?w |` (- {65576, 131112})"
    "blocks freed = stock (apr_allocator_owner_set new_allocator (Some 65576)) +
       tree_blocks (PNode 65576 ?P [PNode 131112 (contents sample_kid) []])" by (auto simp: detached_def)
  have "stock (apr_allocator_owner_set new_allocator (Some 65576)) = {#}"
    using new_allocator_stock by (simp add: stock_def held_def apr_allocator_owner_set_def)
  then have "blocks (os_freed w') = {#(65536, 1), (131072, 1)#}"
    using w'(3,5) by (simp add: sample_defs contents_def node_block_def)
  moreover have "pools w' = Map.empty" by (auto simp: w'(4) sample_world_def restrict_map_def fun_eq_iff)
  ultimately show ?thesis using w' by blast
qed

end
