(* ===== verification/Apu_Base64.thy ===== *)
theory Apu_Base64
  imports Apr_Prelude "HOL-Library.Signed_Division"
begin

text \<open>
  The base64 coder of \<open>srclib/apr-util/encoding/apr_base64.c\<close> (the ASCII build).
  A buffer is the list of the bytes written to it; reading an encoded string
  behind its last byte gives the terminating NUL. Counts are of type \<open>apr_size_t\<close> (natural numbers, an object of the
  address space is smaller than its maximum), while the lengths taken and returned are \<open>int\<close>s of 32 bits: every
  conversion to \<open>int\<close> and every sum of the code that can leave its range is cut by \<open>to_int32\<close>. The lemmas show that
  decoding inverts encoding and that both functions stay within the sizes that \<open>apr_base64_encode_len\<close> and
  \<open>apr_base64_decode_len\<close> announce as long as these sizes fit in an \<open>int\<close>, and that decoding leaves its buffer on
  longer input.
\<close>

section \<open>The type \<open>int\<close>\<close>

text \<open>The conversion to \<open>int\<close>: the low 32 bits, read with their sign.\<close>

definition to_int32 :: "int \<Rightarrow> int" where
  "to_int32 k = signed_take_bit 31 k"

lemma to_int32_id: "- (2 ^ 31) \<le> k \<Longrightarrow> k < 2 ^ 31 \<Longrightarrow> to_int32 k = k"
  unfolding to_int32_def by (rule signed_take_bit_int_eq_self) simp_all

lemma to_int32_add_pow: "to_int32 (2 ^ 32 + k) = to_int32 k"
proof -
  have "take_bit 32 (2 ^ 32 + k) = take_bit 32 k" by (simp add: take_bit_eq_mod)
  then show ?thesis unfolding to_int32_def by (simp add: signed_take_bit_eq_iff_take_bit_eq numeral_eq_Suc)
qed

lemma size_sdiv_nonneg: "0 \<le> a \<Longrightarrow> 0 < b \<Longrightarrow> a sdiv b = (a div b :: int)"
  by (simp add: signed_divide_int_def sgn_if)

section \<open>Tables\<close>

definition pr2six_table :: "nat list" where
  "pr2six_table =
     [64, 64, 64, 64, 64, 64, 64, 64, 64, 64, 64, 64, 64, 64, 64, 64,
      64, 64, 64, 64, 64, 64, 64, 64, 64, 64, 64, 64, 64, 64, 64, 64,
      64, 64, 64, 64, 64, 64, 64, 64, 64, 64, 64, 62, 64, 64, 64, 63,
      52, 53, 54, 55, 56, 57, 58, 59, 60, 61, 64, 64, 64, 64, 64, 64,
      64,  0,  1,  2,  3,  4,  5,  6,  7,  8,  9, 10, 11, 12, 13, 14,
      15, 16, 17, 18, 19, 20, 21, 22, 23, 24, 25, 64, 64, 64, 64, 64,
      64, 26, 27, 28, 29, 30, 31, 32, 33, 34, 35, 36, 37, 38, 39, 40,
      41, 42, 43, 44, 45, 46, 47, 48, 49, 50, 51, 64, 64, 64, 64, 64,
      64, 64, 64, 64, 64, 64, 64, 64, 64, 64, 64, 64, 64, 64, 64, 64,
      64, 64, 64, 64, 64, 64, 64, 64, 64, 64, 64, 64, 64, 64, 64, 64,
      64, 64, 64, 64, 64, 64, 64, 64, 64, 64, 64, 64, 64, 64, 64, 64,
      64, 64, 64, 64, 64, 64, 64, 64, 64, 64, 64, 64, 64, 64, 64, 64,
      64, 64, 64, 64, 64, 64, 64, 64, 64, 64, 64, 64, 64, 64, 64, 64,
      64, 64, 64, 64, 64, 64, 64, 64, 64, 64, 64, 64, 64, 64, 64, 64,
      64, 64, 64, 64, 64, 64, 64, 64, 64, 64, 64, 64, 64, 64, 64, 64,
      64, 64, 64, 64, 64, 64, 64, 64, 64, 64, 64, 64, 64, 64, 64, 64]"

definition pr2six :: "8 word \<Rightarrow> 8 word" where
  "pr2six b = of_nat (pr2six_table ! unat b)"

definition basis_64_table :: string where
  "basis_64_table = ''ABCDEFGHIJKLMNOPQRSTUVWXYZabcdefghijklmnopqrstuvwxyz0123456789+/''"

definition basis_64 :: "8 word \<Rightarrow> 8 word" where
  "basis_64 i = of_nat (of_char (basis_64_table ! unat i))"

section \<open>Decoding\<close>

text \<open>
  \<open>while (pr2six[*(bufin++)] <= 63);\<close> counts the bytes before the first one that
  is not a base64 digit; the terminating NUL is none.
\<close>

definition count_digits :: "8 word list \<Rightarrow> nat" where
  "count_digits bufcoded = length (takeWhile (\<lambda>c. pr2six c \<le> 63) bufcoded)"

definition apr_base64_decode_len :: "8 word list \<Rightarrow> int" where
  "apr_base64_decode_len bufcoded =
     (let nprbytes = count_digits bufcoded;
          nbytesdecoded = to_int32 (to_int32 (int nprbytes) + 3) sdiv 4 * 3
      in nbytesdecoded + 1)"

abbreviation dec1 :: "8 word \<Rightarrow> 8 word \<Rightarrow> 8 word" where
  "dec1 a b \<equiv> or (push_bit 2 (pr2six a)) (drop_bit 4 (pr2six b))"

abbreviation dec2 :: "8 word \<Rightarrow> 8 word \<Rightarrow> 8 word" where
  "dec2 b c \<equiv> or (push_bit 4 (pr2six b)) (drop_bit 2 (pr2six c))"

abbreviation dec3 :: "8 word \<Rightarrow> 8 word \<Rightarrow> 8 word" where
  "dec3 c d \<equiv> or (push_bit 6 (pr2six c)) (pr2six d)"

text \<open>The loop, then the three conditional writes; the second result is the final \<open>nprbytes\<close>.\<close>

function decode_loop :: "8 word list \<Rightarrow> nat \<Rightarrow> 8 word list \<times> nat" where
  "decode_loop bufin nprbytes =
     (if nprbytes > 4 then
        let (bufout, n) = decode_loop (drop 4 bufin) (nprbytes - 4)
        in ([dec1 (bufin ! 0) (bufin ! 1), dec2 (bufin ! 1) (bufin ! 2), dec3 (bufin ! 2) (bufin ! 3)] @ bufout, n)
      else
        ((if nprbytes > 1 then [dec1 (bufin ! 0) (bufin ! 1)] else []) @
         (if nprbytes > 2 then [dec2 (bufin ! 1) (bufin ! 2)] else []) @
         (if nprbytes > 3 then [dec3 (bufin ! 2) (bufin ! 3)] else []), nprbytes))"
  by pat_completeness auto
termination
  by (relation "measure (\<lambda>(bufin, nprbytes). nprbytes)") auto

declare decode_loop.simps [simp del]

text \<open>The bytes written and the value returned.\<close>

definition apr_base64_decode_binary :: "8 word list \<Rightarrow> 8 word list \<times> int" where
  "apr_base64_decode_binary bufcoded =
     (let nprbytes = count_digits bufcoded;
          nbytesdecoded = to_int32 (to_int32 (int nprbytes) + 3) sdiv 4 * 3;
          (bufout, nprbytes) = decode_loop bufcoded nprbytes
      in (bufout, nbytesdecoded - and (4 - to_int32 (int nprbytes)) 3))"

text \<open>\<open>bufplain[len] = 0\<close> after the \<open>len\<close> bytes. A negative \<open>len\<close> stores in front of the buffer: no result.\<close>

definition apr_base64_decode :: "8 word list \<Rightarrow> (8 word list \<times> int) option" where
  "apr_base64_decode bufcoded =
     (let (bufplain, len) = apr_base64_decode_binary bufcoded
      in if len < 0 then None
         else Some (take (nat len) bufplain @ [0] @ drop (Suc (nat len)) bufplain, len))"

section \<open>Encoding\<close>

definition apr_base64_encode_len :: "int \<Rightarrow> int" where
  "apr_base64_encode_len len = to_int32 (to_int32 (len + 2) sdiv 3 * 4 + 1)"

abbreviation enc1 :: "8 word \<Rightarrow> 8 word" where
  "enc1 a \<equiv> basis_64 (and (drop_bit 2 a) 0x3F)"

abbreviation enc2 :: "8 word \<Rightarrow> 8 word \<Rightarrow> 8 word" where
  "enc2 a b \<equiv> basis_64 (or (push_bit 4 (and a 0x3)) (drop_bit 4 (and b 0xF0)))"

abbreviation enc3 :: "8 word \<Rightarrow> 8 word \<Rightarrow> 8 word" where
  "enc3 b c \<equiv> basis_64 (or (push_bit 2 (and b 0xF)) (drop_bit 6 (and c 0xC0)))"

abbreviation enc4 :: "8 word \<Rightarrow> 8 word" where
  "enc4 c \<equiv> basis_64 (and c 0x3F)"

abbreviation pad :: "8 word" where
  "pad \<equiv> 61"

text \<open>
  The loop \<open>for (i = 0; i < len - 2; i += 3)\<close>; the result is \<open>i\<close> and what was written. The \<open>int\<close>s \<open>len\<close> and \<open>i\<close>
  are natural numbers: a negative \<open>len\<close> acts as 0, and below \<open>2 ^ 31\<close> the sum \<open>i + 3\<close> does not overflow.
\<close>

function encode_loop :: "8 word list \<Rightarrow> nat \<Rightarrow> nat \<Rightarrow> nat \<times> 8 word list" where
  "encode_loop string len i =
     (if i + 2 < len then
        let (j, p) = encode_loop string len (i + 3)
        in (j, [enc1 (string ! i), enc2 (string ! i) (string ! (i + 1)),
                enc3 (string ! (i + 1)) (string ! (i + 2)), enc4 (string ! (i + 2))] @ p)
      else (i, []))"
  by pat_completeness auto
termination
  by (relation "measure (\<lambda>(string, len, i). len - i)") auto

declare encode_loop.simps [simp del]

definition apr_base64_encode_binary :: "8 word list \<Rightarrow> nat \<Rightarrow> 8 word list \<times> int" where
  "apr_base64_encode_binary string len =
     (let (i, p) = encode_loop string len 0;
          p = (if i < len then
                 p @ [enc1 (string ! i)] @
                 (if i = len - 1 then [basis_64 (push_bit 4 (and (string ! i) 0x3)), pad]
                  else [enc2 (string ! i) (string ! (i + 1)),
                        basis_64 (push_bit 2 (and (string ! (i + 1)) 0xF))]) @ [pad]
               else p);
          p = p @ [0]
      in (p, to_int32 (int (length p))))"

definition apr_base64_encode :: "8 word list \<Rightarrow> nat \<Rightarrow> 8 word list \<times> int" where
  "apr_base64_encode string len = apr_base64_encode_binary string len"

section \<open>The tables are inverse\<close>

lemma tables_inverse: "map (\<lambda>c. pr2six_table ! of_char c) basis_64_table = [0..<64]"
  by (simp add: pr2six_table_def basis_64_table_def upt_rec)

lemma pr2six_basis:
  assumes "unat x < 64"
  shows "pr2six (basis_64 x) = x"
proof -
  let ?c = "of_char (basis_64_table ! unat x) :: nat"
  have "unat (of_nat ?c :: 8 word) = ?c"
    using of_char_less [of "basis_64_table ! unat x"] by (simp add: unat_of_nat)
  moreover have "pr2six_table ! ?c = unat x"
  proof -
    have "map (\<lambda>c. pr2six_table ! of_char c) basis_64_table ! unat x = unat x"
      unfolding tables_inverse using assms by simp
    moreover have "length basis_64_table = 64" by (simp add: basis_64_table_def)
    ultimately show ?thesis using assms by simp
  qed
  ultimately show ?thesis by (simp add: pr2six_def basis_64_def)
qed

lemma pr2six_stop [simp]: "pr2six 0 = 64" "pr2six pad = 64"
  by (simp_all add: pr2six_def pr2six_table_def)

section \<open>One group\<close>

lemma small_index: "and x 0x3F = x \<Longrightarrow> unat (x :: 8 word) < 64"
proof -
  assume "and x 0x3F = x"
  then have "x \<le> 0x3F" by (metis word_and_le1)
  then show ?thesis by (simp add: word_le_nat_alt)
qed

lemma bits8: "(\<And>n. n \<in> {0, 1, 2, 3, 4, 5, 6, 7} \<Longrightarrow> bit x n = bit y n) \<Longrightarrow> x = (y :: 8 word)"
proof (rule bit_word_eqI)
  fix n :: nat
  assume "\<And>n. n \<in> {0, 1, 2, 3, 4, 5, 6, 7} \<Longrightarrow> bit x n = bit y n" "n < LENGTH(8)"
  moreover from this(2) have "n \<in> {0, 1, 2, 3, 4, 5, 6, 7}" by simp arith
  ultimately show "bit x n = bit y n" by blast
qed

lemma index_small:
  "unat (and (drop_bit 2 a) 0x3F :: 8 word) < 64"
  "unat (or (push_bit 4 (and a 0x3)) (drop_bit 4 (and b 0xF0)) :: 8 word) < 64"
  "unat (or (push_bit 2 (and b 0xF)) (drop_bit 6 (and c 0xC0)) :: 8 word) < 64"
  "unat (and c 0x3F :: 8 word) < 64"
  by (rule small_index, rule bits8, auto simp: bit_simps)+

lemmas pr2six_enc = index_small [THEN pr2six_basis]

lemma digit_enc: "unat x < 64 \<Longrightarrow> pr2six (basis_64 x) \<le> 63"
  by (simp add: pr2six_basis word_le_nat_alt)

lemmas digits_enc = index_small [THEN digit_enc]

lemma group_inverse:
  "dec1 (enc1 a) (enc2 a b) = a" "dec2 (enc2 a b) (enc3 b c) = b" "dec3 (enc3 b c) (enc4 c) = c"
proof -
  show "dec1 (enc1 a) (enc2 a b) = a"
    unfolding pr2six_enc by (rule bits8) (auto simp: bit_simps simp flip: numeral_2_eq_2)
  show "dec2 (enc2 a b) (enc3 b c) = b"
    unfolding pr2six_enc by (rule bits8) (auto simp: bit_simps simp flip: numeral_2_eq_2)
  show "dec3 (enc3 b c) (enc4 c) = c"
    unfolding pr2six_enc by (rule bits8) (auto simp: bit_simps simp flip: numeral_2_eq_2)
qed

text \<open>The last group is a group with zero bytes.\<close>

lemma last_group:
  "basis_64 (push_bit 4 (and a 0x3)) = enc2 a 0" "basis_64 (push_bit 2 (and b 0xF)) = enc3 b 0"
  by simp_all

section \<open>Encoding by groups\<close>

definition enc_tail :: "8 word list \<Rightarrow> nat \<Rightarrow> 8 word list" where
  "enc_tail s i =
     (if i < length s then
        [enc1 (s ! i)] @
        (if i = length s - 1 then [enc2 (s ! i) 0, pad] else [enc2 (s ! i) (s ! (i + 1)), enc3 (s ! (i + 1)) 0]) @ [pad]
      else [])"

definition enc_from :: "8 word list \<Rightarrow> nat \<Rightarrow> 8 word list" where
  "enc_from s i = (case encode_loop s (length s) i of (j, p) \<Rightarrow> p @ enc_tail s j)"

lemma enc_from_rec:
  "enc_from s i =
     (if i + 2 < length s
      then [enc1 (s ! i), enc2 (s ! i) (s ! (i + 1)), enc3 (s ! (i + 1)) (s ! (i + 2)), enc4 (s ! (i + 2))] @
           enc_from s (i + 3)
      else enc_tail s i)"
  by (simp add: enc_from_def encode_loop.simps [of s "length s" i] split: prod.splits)

lemma encode_binary_groups:
  "apr_base64_encode_binary s (length s) = (enc_from s 0 @ [0], to_int32 (int (Suc (length (enc_from s 0)))))"
  by (simp add: apr_base64_encode_binary_def enc_from_def enc_tail_def last_group Let_def split: prod.splits)

text \<open>The number of digits that encode the bytes from \<open>i\<close> on.\<close>

definition ndigits :: "nat \<Rightarrow> nat" where
  "ndigits r = 4 * (r div 3) + (if r mod 3 = 0 then 0 else r mod 3 + 1)"

lemma ndigits_simps: "ndigits 0 = 0" "ndigits 1 = 2" "ndigits 2 = 3" "ndigits (r + 3) = ndigits r + 4"
  by (simp_all add: ndigits_def div_add_self2)

lemma rest_cases:
  assumes "i \<le> length s"
  obtains "i = length s" "enc_from s i = []"
  | a where "length s - i = 1" "drop i s = [a]" "enc_from s i = [enc1 a, enc2 a 0, pad, pad]"
  | a b where "length s - i = 2" "drop i s = [a, b]" "enc_from s i = [enc1 a, enc2 a b, enc3 b 0, pad]"
  | a b c r where "length s - i = r + 3" "length s - (i + 3) = r" "i + 3 \<le> length s" "drop i s = [a, b, c] @ drop (i + 3) s"
      "enc_from s i = [enc1 a, enc2 a b, enc3 b c, enc4 c] @ enc_from s (i + 3)"
proof -
  have nth: "drop i s = s ! i # drop (Suc i) s" if "i < length s" for i
    using that by (rule Cons_nth_drop_Suc [symmetric])
  consider "i = length s" | "length s = i + 1" | "length s = i + 2" | "i + 2 < length s"
    using assms by linarith
  then show thesis
  proof cases
    case 1
    then show thesis using enc_from_rec [of s i] by (intro that(1)) (simp_all add: enc_tail_def)
  next
    case 2
    then show thesis
      using nth [of i] enc_from_rec [of s i] by (intro that(2) [of "s ! i"]) (simp_all add: enc_tail_def)
  next
    case 3
    then show thesis
      using nth [of i] nth [of "i + 1"] enc_from_rec [of s i]
      by (intro that(3) [of "s ! i" "s ! (i + 1)"]) (simp_all add: enc_tail_def)
  next
    case 4
    then show thesis
      using nth [of i] nth [of "i + 1"] nth [of "i + 2"] enc_from_rec [of s i]
      by (intro that(4) [of "length s - (i + 3)" "s ! i" "s ! (i + 1)" "s ! (i + 2)"]) (simp_all add: numeral_3_eq_3)
  qed
qed

lemma count_digits_simps:
  "pr2six c \<le> 63 \<Longrightarrow> count_digits (c # t) = Suc (count_digits t)"
  "\<not> pr2six c \<le> 63 \<Longrightarrow> count_digits (c # t) = 0"
  by (simp_all add: count_digits_def)

lemma count_enc_from:
  "i \<le> length s \<Longrightarrow> count_digits (enc_from s i @ 0 # t) = ndigits (length s - i)"
proof (induction "length s - i" arbitrary: i rule: less_induct)
  case less
  from less.prems show ?case
  proof (cases rule: rest_cases)
    case 1
    then show ?thesis by (simp add: count_digits_simps(2) ndigits_simps)
  next
    case (2 a)
    then show ?thesis
      by (simp only: append_Cons count_digits_simps(1) digits_enc) (simp add: count_digits_simps(2) ndigits_def)
  next
    case (3 a b)
    then show ?thesis
      by (simp only: append_Cons count_digits_simps(1) digits_enc) (simp add: count_digits_simps(2) ndigits_def)
  next
    case (4 a b c r)
    have "count_digits (enc_from s (i + 3) @ 0 # t) = ndigits r"
      using less.hyps [of "i + 3"] 4 by simp
    then show ?thesis
      unfolding 4(1,5) append_Cons append_Nil count_digits_simps(1) [OF digits_enc(1)]
        count_digits_simps(1) [OF digits_enc(2)] count_digits_simps(1) [OF digits_enc(3)]
        count_digits_simps(1) [OF digits_enc(4)] ndigits_simps(4) by simp
  qed
qed

lemma length_enc_from:
  "i \<le> length s \<Longrightarrow> length (enc_from s i) = (length s - i + 2) div 3 * 4"
proof (induction "length s - i" arbitrary: i rule: less_induct)
  case less
  from less.prems show ?case
  proof (cases rule: rest_cases)
    case 1
    then show ?thesis by simp
  next
    case (2 a)
    then show ?thesis unfolding 2(1,3) by simp
  next
    case (3 a b)
    then show ?thesis unfolding 3(1,3) by simp
  next
    case (4 a b c r)
    have "length (enc_from s (i + 3)) = (r + 2) div 3 * 4"
      using less.hyps [of "i + 3"] 4 by simp
    moreover have "(r + 3 + 2) div 3 = (r + 2) div 3 + 1" by presburger
    ultimately show ?thesis unfolding 4(1,5) by simp
  qed
qed

lemma decode_loop_short:
  "n \<le> 4 \<Longrightarrow> decode_loop bufin n =
     ((if n > 1 then [dec1 (bufin ! 0) (bufin ! 1)] else []) @
      (if n > 2 then [dec2 (bufin ! 1) (bufin ! 2)] else []) @
      (if n > 3 then [dec3 (bufin ! 2) (bufin ! 3)] else []), n)"
  by (subst decode_loop.simps) simp

lemma decode_loop_long:
  assumes "n > 4"
  shows "fst (decode_loop bufin n) =
      [dec1 (bufin ! 0) (bufin ! 1), dec2 (bufin ! 1) (bufin ! 2), dec3 (bufin ! 2) (bufin ! 3)] @
      fst (decode_loop (drop 4 bufin) (n - 4))"
    and "snd (decode_loop bufin n) = snd (decode_loop (drop 4 bufin) (n - 4))"
  using assms decode_loop.simps [of bufin n]
  by (cases "decode_loop (drop 4 bufin) (n - 4)"; simp)+

lemma div_mod_4: obtains q r :: nat where "n = 4 * q + r" "r < 4" "n div 4 = q" "n mod 4 = r"
    "(n + 3) div 4 = (if r = 0 then q else q + 1)"
proof -
  have "n = 4 * (n div 4) + n mod 4" "n mod 4 < 4" by simp_all
  moreover from this have "(n + 3) div 4 = (if n mod 4 = 0 then n div 4 else n div 4 + 1)" by arith
  ultimately show thesis using that by blast
qed

text \<open>What is left of \<open>nprbytes\<close> after the loop.\<close>

definition last_digits :: "nat \<Rightarrow> nat" where
  "last_digits n = (if n = 0 then 0 else (n - 1) mod 4 + 1)"

lemma decode_loop_last: "snd (decode_loop bufin n) = last_digits n"
proof (induction n arbitrary: bufin rule: less_induct)
  case (less n)
  show ?case
  proof (cases "n > 4")
    case True
    define m where "m = n - 5"
    have "n = m + 1 + 4" using True by (simp add: m_def)
    then have "(n - 1) mod 4 = (n - 4 - 1) mod 4" by simp
    with True less [of "n - 4"] show ?thesis
      by (simp add: last_digits_def decode_loop_long(2))
  next
    case False
    then have "n = 0 \<or> n = 1 \<or> n = 2 \<or> n = 3 \<or> n = 4" by arith
    then show ?thesis
      by (elim disjE) (simp_all add: decode_loop_short last_digits_def)
  qed
qed

lemma decode_enc_from:
  "i \<le> length s \<Longrightarrow> fst (decode_loop (enc_from s i @ t) (ndigits (length s - i))) = drop i s"
proof (induction "length s - i" arbitrary: i rule: less_induct)
  case less
  from less.prems show ?case
  proof (cases rule: rest_cases)
    case 1
    then show ?thesis by (simp add: ndigits_simps decode_loop.simps)
  next
    case (2 a)
    show ?thesis
      using group_inverse(1) [of a 0] unfolding 2 by (simp add: ndigits_def decode_loop.simps)
  next
    case (3 a b)
    show ?thesis
      using group_inverse(1) [of a b] group_inverse(2) [of a b 0] unfolding 3
      by (simp add: ndigits_def decode_loop.simps)
  next
    case (4 a b c r)
    note group = group_inverse(1) [of a b] group_inverse(2) [of a b c] group_inverse(3) [of b c]
    show ?thesis
    proof (cases "r = 0")
      case True
      then have "drop (i + 3) s = []" using 4 by simp
      then show ?thesis
        using group unfolding 4(1,4,5) True by (simp add: ndigits_def decode_loop.simps)
    next
      case False
      have IH: "fst (decode_loop (enc_from s (i + 3) @ t) (ndigits r)) = drop (i + 3) s"
        using less.hyps [of "i + 3"] 4 by simp
      have "0 < ndigits r" using False by (auto simp: ndigits_def)
      then show ?thesis
        using group IH unfolding 4(1,4,5) ndigits_simps(4)
        by (subst decode_loop_long(1)) simp_all
    qed
  qed
qed

lemma length_decode_loop: "length (fst (decode_loop bufin n)) = 3 * (n div 4) + (n mod 4 - 1)"
proof (induction n arbitrary: bufin rule: less_induct)
  case (less n)
  show ?case
  proof (cases "n > 4")
    case True
    define m where "m = n - 4"
    have "n = m + 4" using True by (simp add: m_def)
    then have "n div 4 = (n - 4) div 4 + 1" "n mod 4 = (n - 4) mod 4" by simp_all
    with True less [of "n - 4"] show ?thesis
      by (simp add: decode_loop_long(1))
  next
    case False
    then have "n = 0 \<or> n = 1 \<or> n = 2 \<or> n = 3 \<or> n = 4" by arith
    then show ?thesis
      by (elim disjE) (simp_all add: decode_loop_short)
  qed
qed

lemma last_digits_cases:
  "last_digits (4 * q + r) = (if r = 0 then (if q = 0 then 0 else 4) else r)" if "r < 4"
proof (cases "r = 0")
  case True
  then show ?thesis
  proof (cases q)
    case (Suc p)
    then have "4 * q - 1 = 3 + 4 * p" by simp
    then show ?thesis using True Suc by (simp add: last_digits_def)
  qed (simp add: last_digits_def)
next
  case False
  then obtain p where "r = Suc p" by (cases r) auto
  then show ?thesis using that by (simp add: last_digits_def)
qed

lemma last_digits_le: "last_digits n \<le> 4"
  using mod_less_divisor [of 4 "n - 1"] by (simp add: last_digits_def Suc_le_eq del: mod_less_divisor)

text \<open>The size computed for \<open>n\<close> digits that an \<open>int\<close> can hold.\<close>

lemma decoded_size: "n + 3 < 2 ^ 31 \<Longrightarrow> to_int32 (to_int32 (int n) + 3) sdiv 4 * 3 = int ((n + 3) div 4 * 3)"
  by (simp add: to_int32_id size_sdiv_nonneg zdiv_int)

lemma decode_value:
  assumes "n + 3 < 2 ^ 31"
  shows "to_int32 (to_int32 (int n) + 3) sdiv 4 * 3 - and (4 - to_int32 (int (last_digits n))) 3 = int (3 * (n div 4) + (n mod 4 - 1))"
proof (cases rule: div_mod_4 [of n])
  case (1 q r)
  have t: "to_int32 (int (last_digits n)) = int (last_digits n)"
    using last_digits_le [of n] by (simp add: to_int32_id)
  from 1 have l: "last_digits n = (if r = 0 then (if q = 0 then 0 else 4) else r)"
    using last_digits_cases [of r q] by simp
  from 1(2) have "r = 0 \<or> r = 1 \<or> r = 2 \<or> r = 3" by arith
  then show ?thesis
    unfolding decoded_size [OF assms] t unfolding l 1(3-5) by (elim disjE) simp_all
qed

text \<open>What follows the encoded bytes and their NUL does not matter, and no NUL is among them.\<close>

lemma ndigits_le: "ndigits n \<le> (n + 2) div 3 * 4"
proof -
  have "n = 3 * (n div 3) + n mod 3" "n mod 3 < 3" by simp_all
  then show ?thesis unfolding ndigits_def by arith
qed

lemma decode_binary_enc:
  assumes "(length s + 2) div 3 * 4 + 3 < 2 ^ 31"
  shows "apr_base64_decode_binary (enc_from s 0 @ 0 # t) = (s, int (length s))"
proof -
  let ?e = "enc_from s 0 @ 0 # t" and ?n = "ndigits (length s)"
  have n: "count_digits ?e = ?n"
    using count_enc_from [of 0 s t] by simp
  have small: "?n + 3 < 2 ^ 31" using ndigits_le [of "length s"] assms by linarith
  have "fst (decode_loop ?e ?n) = s"
    using decode_enc_from [of 0 s "0 # t"] by simp
  moreover from this have "3 * (?n div 4) + (?n mod 4 - 1) = length s"
    using length_decode_loop [of ?e ?n] by simp
  ultimately have "decode_loop ?e ?n = (s, last_digits ?n)"
      "to_int32 (to_int32 (int ?n) + 3) sdiv 4 * 3 - and (4 - to_int32 (int (last_digits ?n))) 3 = int (length s)"
    using decode_value [OF small] decode_loop_last [of ?e ?n]
    by (simp_all add: prod_eq_iff)
  then show ?thesis by (simp add: apr_base64_decode_binary_def n Let_def)
qed

lemma basis_64_nonzero: "unat x < 64 \<Longrightarrow> basis_64 x \<noteq> 0"
  using digit_enc [of x] by auto

lemma enc_from_nonzero: "i \<le> length s \<Longrightarrow> 0 \<notin> set (enc_from s i)"
proof (induction "length s - i" arbitrary: i rule: less_induct)
  case less
  note nonzero = index_small [THEN basis_64_nonzero, symmetric]
  from less.prems show ?case
  proof (cases rule: rest_cases)
    case (2 a)
    then show ?thesis using nonzero(1) [of a] nonzero(2) [of a 0] by simp
  next
    case (3 a b)
    then show ?thesis using nonzero(1) [of a] nonzero(2) [of a b] nonzero(3) [of b 0] by simp
  next
    case (4 a b c r)
    then show ?thesis
      using less.hyps [of "i + 3"] nonzero(1) [of a] nonzero(2) [of a b] nonzero(3) [of b c] nonzero(4) [of c] by simp
  qed simp
qed

section \<open>Properties\<close>

lemma encoded_bound:
  assumes "(n + 2) div 3 * 4 + 1 < (2 ^ 31 :: nat)"
  shows "(n + 2) div 3 * 4 + 3 < (2 ^ 31 :: nat)"
proof -
  define q where "q = (n + 2) div 3"
  have "q * 4 + 1 < 2147483648" using assms by (simp add: q_def)
  then have "q * 4 + 3 < 2147483648" by arith
  then show ?thesis by (simp add: q_def)
qed

text \<open>
  C8. Round trip: decoding what \<open>apr_base64_encode\<close> wrote gives back every byte
  string, whatever its length modulo three, and returns its length, provided the
  size of the encoded string and its NUL is an \<open>int\<close>.
\<close>

theorem apr_base64_roundtrip:
  assumes "(length s + 2) div 3 * 4 + 1 < 2 ^ 31"
  shows "apr_base64_decode_binary (fst (apr_base64_encode s (length s))) = (s, int (length s))"
  unfolding apr_base64_encode_def encode_binary_groups by (simp add: decode_binary_enc [OF encoded_bound [OF assms]])

theorem apr_base64_roundtrip_witness:
  "apr_base64_decode_binary (fst (apr_base64_encode [104, 101, 108, 108, 111] (length [104, 101, 108, 108, 111 :: 8 word]))) =
    ([104, 101, 108, 108, 111], int (length [104, 101, 108, 108, 111 :: 8 word]))"
  by (rule apr_base64_roundtrip) simp

text \<open>
  Encoding stays in its buffer: it writes exactly the
  \<open>apr_base64_encode_len\<close> bytes the caller allocates, the terminating NUL last
  and nowhere else, and returns that number.
\<close>

theorem apr_base64_encode_fits:
  assumes "(length s + 2) div 3 * 4 + 1 < 2 ^ 31"
  shows "\<exists>out. apr_base64_encode s (length s) = (out @ [0], apr_base64_encode_len (int (length s))) \<and> 0 \<notin> set out \<and>
    int (length (out @ [0])) = apr_base64_encode_len (int (length s))"
proof -
  define q where "q = (length s + 2) div 3"
  have q: "int (length s + 2) div 3 = int q" by (simp add: q_def zdiv_int)
  have small: "q * 4 + 1 < 2147483648" using assms by (simp add: q_def)
  have "length s + 2 < 3 * q + 3" unfolding q_def by presburger
  moreover have "q \<le> 536870911" using small by arith
  ultimately have "length s + 2 < 2147483648" by arith
  then have "apr_base64_encode_len (int (length s)) = int (q * 4 + 1)"
    using q small by (simp add: apr_base64_encode_len_def to_int32_id size_sdiv_nonneg add.commute)
  moreover have "length (enc_from s 0) = q * 4" using length_enc_from [of 0 s] by (simp add: q_def)
  ultimately show ?thesis
    using small enc_from_nonzero [of 0 s] by (simp add: apr_base64_encode_def encode_binary_groups to_int32_id)
qed

theorem apr_base64_encode_fits_witness:
  "\<exists>out. apr_base64_encode [104, 105] (length [104, 105 :: 8 word]) =
      (out @ [0], apr_base64_encode_len (int (length [104, 105 :: 8 word]))) \<and> 0 \<notin> set out \<and>
    int (length (out @ [0])) = apr_base64_encode_len (int (length [104, 105 :: 8 word]))"
  by (rule apr_base64_encode_fits) simp

text \<open>
  C33. Decoding any string, valid or not, of fewer than \<open>2 ^ 31 - 3\<close> leading base64 digits stays in its buffer: the
  value returned is the number of bytes written, and with the NUL that
  \<open>apr_base64_decode\<close> adds they fit in \<open>apr_base64_decode_len\<close>.
\<close>

theorem apr_base64_decode_fits:
  assumes "count_digits coded + 3 < 2 ^ 31"
  shows "\<exists>plain. apr_base64_decode_binary coded = (plain, int (length plain)) \<and>
    apr_base64_decode coded = Some (plain @ [0], int (length plain)) \<and>
    int (length (plain @ [0])) \<le> apr_base64_decode_len coded"
proof -
  obtain plain n where loop: "decode_loop coded (count_digits coded) = (plain, n)" by fastforce
  have len: "length plain = 3 * (count_digits coded div 4) + (count_digits coded mod 4 - 1)"
    using length_decode_loop [of coded "count_digits coded"] loop by simp
  then have bin: "apr_base64_decode_binary coded = (plain, int (length plain))"
    using decode_value [OF assms] decode_loop_last [of coded "count_digits coded"] loop
    by (simp add: apr_base64_decode_binary_def Let_def)
  have "length plain \<le> (count_digits coded + 3) div 4 * 3"
    unfolding len by (rule div_mod_4 [of "count_digits coded"]) simp
  moreover have "apr_base64_decode_len coded = int ((count_digits coded + 3) div 4 * 3) + 1"
    unfolding apr_base64_decode_len_def Let_def decoded_size [OF assms] by (rule refl)
  ultimately show ?thesis
    using bin by (simp add: apr_base64_decode_def)
qed

theorem apr_base64_decode_fits_witness:
  "\<exists>plain. apr_base64_decode_binary [81, 81, 61, 61, 0] = (plain, int (length plain)) \<and>
    apr_base64_decode [81, 81, 61, 61, 0] = Some (plain @ [0], int (length plain)) \<and>
    int (length (plain @ [0])) \<le> apr_base64_decode_len [81, 81, 61, 61, 0]"
  using apr_base64_decode_fits [of "[81, 81, 61, 61, 0]"]
  by (simp add: count_digits_def pr2six_def pr2six_table_def)

text \<open>
  Beyond that bound it does not: with \<open>2 ^ 32 + k\<close> digits the size announced is the one for \<open>k\<close> digits, while
  more than \<open>3 * 2 ^ 30\<close> bytes beyond those of \<open>k\<close> digits are written.
\<close>

theorem apr_base64_decode_overruns:
  assumes "count_digits coded = 2 ^ 32 + k" "k + 3 < 2 ^ 31"
  shows "apr_base64_decode_len coded = int ((k + 3) div 4 * 3) + 1 \<and>
    length (fst (apr_base64_decode_binary coded)) = 3 * 2 ^ 30 + (3 * (k div 4) + (k mod 4 - 1))"
proof
  have "to_int32 (int (2 ^ 32 + k)) = to_int32 (int k)" using to_int32_add_pow [of "int k"] by simp
  then show "apr_base64_decode_len coded = int ((k + 3) div 4 * 3) + 1"
    unfolding apr_base64_decode_len_def Let_def assms(1) by (simp only: decoded_size [OF assms(2)])
  have "fst (apr_base64_decode_binary coded) = fst (decode_loop coded (count_digits coded))"
    by (simp add: apr_base64_decode_binary_def Let_def split: prod.splits)
  moreover have "(2 ^ 32 + k) div 4 = 2 ^ 30 + k div 4" "(2 ^ 32 + k) mod 4 = k mod 4"
    using div_mult_self3 [of 4 "2 ^ 30" k] mod_mult_self3 [of "2 ^ 30" 4 k] by simp_all
  ultimately show "length (fst (apr_base64_decode_binary coded)) = 3 * 2 ^ 30 + (3 * (k div 4) + (k mod 4 - 1))"
    using assms(1) by (simp add: length_decode_loop distrib_left)
qed

lemma count_digits_replicate: "pr2six c \<le> 63 \<Longrightarrow> count_digits (replicate n c) = n"
  by (simp add: count_digits_def)

theorem apr_base64_decode_overruns_witness:
  "apr_base64_decode_len (replicate (2 ^ 32 + 8) 65) = int ((8 + 3) div 4 * 3) + 1 \<and>
    length (fst (apr_base64_decode_binary (replicate (2 ^ 32 + 8) 65))) = 3 * 2 ^ 30 + (3 * (8 div 4) + (8 mod 4 - 1))"
  by (rule apr_base64_decode_overruns, rule count_digits_replicate) (simp_all add: pr2six_def pr2six_table_def)

end
