(* ===== verification/Apu_Queue.thy ===== *)
theory Apu_Queue
  imports Apr_Prelude
begin

text \<open>
  The bounded thread-safe queue of \<open>srclib/apr-util/misc/apr_queue.c\<close>: a ring
  buffer guarded by one mutex and two condition variables. Each operation is
  cut where it gives up the mutex, so that a piece between two cuts (a critical
  section, or a read of \<open>terminated\<close> without the mutex) is one function of the
  queue; threads that run these pieces in any order are a step relation. The
  status that a primitive of the thread library returns is a parameter.

  Proved: the ring buffer is a FIFO sequence; under every schedule what was
  popped followed by what is in the queue is what was pushed; the waiter counts
  are exact; no thread sleeps on while its operation could go on and nobody
  has been woken for it; and termination wakes everybody for good.
\<close>

section \<open>The queue\<close>

text \<open>\<open>data\<close> holds pointers; \<open>null\<close> is what \<open>apr_pcalloc\<close> fills it with.\<close>

record 'a apr_queue =
  q_data :: "'a list"
  q_nelts :: nat
  q_in :: nat
  q_out :: nat
  q_bounds :: nat
  q_full_waiters :: nat
  q_empty_waiters :: nat
  q_terminated :: bool

definition apr_queue_full :: "'a apr_queue \<Rightarrow> bool" where
  "apr_queue_full queue \<longleftrightarrow> q_nelts queue = q_bounds queue"

definition apr_queue_empty :: "'a apr_queue \<Rightarrow> bool" where
  "apr_queue_empty queue \<longleftrightarrow> q_nelts queue = 0"

definition apr_queue_size :: "'a apr_queue \<Rightarrow> nat" where
  "apr_queue_size queue = q_nelts queue"

text \<open>The statuses of creating the mutex and the two condition variables are given.\<close>

definition apr_queue_create ::
    "apr_status \<Rightarrow> apr_status \<Rightarrow> apr_status \<Rightarrow> 'a \<Rightarrow> nat \<Rightarrow> apr_status \<times> 'a apr_queue option" where
  "apr_queue_create mutex_rv not_empty_rv not_full_rv null queue_capacity =
     (if mutex_rv \<noteq> APR_SUCCESS then (mutex_rv, None)
      else if not_empty_rv \<noteq> APR_SUCCESS then (not_empty_rv, None)
      else if not_full_rv \<noteq> APR_SUCCESS then (not_full_rv, None)
      else (APR_SUCCESS, Some
        \<lparr>q_data = replicate queue_capacity null, q_nelts = 0, q_in = 0, q_out = 0,
         q_bounds = queue_capacity, q_full_waiters = 0, q_empty_waiters = 0, q_terminated = False\<rparr>))"

text \<open>The stores at the end of a push and the loads at the end of a pop.\<close>

definition ring_put :: "'a apr_queue \<Rightarrow> 'a \<Rightarrow> 'a apr_queue" where
  "ring_put queue d =
     (let i = q_in queue + 1
      in queue\<lparr>q_data := (q_data queue)[q_in queue := d],
               q_in := (if i \<ge> q_bounds queue then i - q_bounds queue else i),
               q_nelts := q_nelts queue + 1\<rparr>)"

definition ring_get :: "'a apr_queue \<Rightarrow> 'a \<times> 'a apr_queue" where
  "ring_get queue =
     (let o' = q_out queue + 1
      in (q_data queue ! q_out queue,
          queue\<lparr>q_nelts := q_nelts queue - 1,
                q_out := (if o' \<ge> q_bounds queue then o' - q_bounds queue else o')\<rparr>))"

section \<open>The pieces of the operations\<close>

text \<open>What the calls of the thread library return in one operation.\<close>

record rvs =
  lock_rv :: apr_status
  wait_rv :: apr_status
  signal_rv :: apr_status
  unlock_rv :: apr_status

text \<open>
  How a piece ends: waiting on its condition variable (which gives up the
  mutex), returning a status, or, the mutex released, about to look at
  \<open>terminated\<close> again.
\<close>

datatype outcome = Wait | Return apr_status | Interrupted

text \<open>
  A piece yields the queue, whether the condition variable of the other side
  was signalled, the outcome, and the element stored or loaded if there was one.
\<close>

type_synonym 'a piece = "'a apr_queue \<times> bool \<times> outcome \<times> 'a option"

text \<open>\<open>if (queue->terminated) return APR_EOF;\<close> before the mutex is taken.\<close>

definition call_check :: "'a apr_queue \<Rightarrow> apr_status option" where
  "call_check queue = (if q_terminated queue then Some APR_EOF else None)"

text \<open>Still full or empty after the wait: unlock, then look at \<open>terminated\<close>.\<close>

definition give_up :: "rvs \<Rightarrow> 'a apr_queue \<Rightarrow> 'a piece" where
  "give_up r queue =
     (queue, False, if unlock_rv r \<noteq> APR_SUCCESS then Return (unlock_rv r) else Interrupted, None)"

definition after_interrupt :: "'a apr_queue \<Rightarrow> apr_status" where
  "after_interrupt queue = (if q_terminated queue then APR_EOF else APR_EINTR)"

definition push_tail :: "rvs \<Rightarrow> 'a apr_queue \<Rightarrow> 'a \<Rightarrow> 'a piece" where
  "push_tail r queue d =
     (let queue = ring_put queue d
      in if q_empty_waiters queue \<noteq> 0 then
           (queue, True, Return (if signal_rv r \<noteq> APR_SUCCESS then signal_rv r else unlock_rv r), Some d)
         else (queue, False, Return (unlock_rv r), Some d))"

definition push_enter :: "rvs \<Rightarrow> 'a apr_queue \<Rightarrow> 'a \<Rightarrow> 'a piece" where
  "push_enter r queue d =
     (if lock_rv r \<noteq> APR_SUCCESS then (queue, False, Return (lock_rv r), None)
      else if apr_queue_full queue then
        (if \<not> q_terminated queue
         then (queue\<lparr>q_full_waiters := q_full_waiters queue + 1\<rparr>, False, Wait, None)
         else give_up r queue)
      else push_tail r queue d)"

definition push_resume :: "rvs \<Rightarrow> 'a apr_queue \<Rightarrow> 'a \<Rightarrow> 'a piece" where
  "push_resume r queue d =
     (let queue = queue\<lparr>q_full_waiters := q_full_waiters queue - 1\<rparr>
      in if wait_rv r \<noteq> APR_SUCCESS then (queue, False, Return (wait_rv r), None)
         else if apr_queue_full queue then give_up r queue
         else push_tail r queue d)"

definition pop_tail :: "rvs \<Rightarrow> 'a apr_queue \<Rightarrow> 'a piece" where
  "pop_tail r queue =
     (let (d, queue) = ring_get queue
      in if q_full_waiters queue \<noteq> 0 then
           (queue, True, Return (if signal_rv r \<noteq> APR_SUCCESS then signal_rv r else unlock_rv r), Some d)
         else (queue, False, Return (unlock_rv r), Some d))"

definition pop_enter :: "rvs \<Rightarrow> 'a apr_queue \<Rightarrow> 'a piece" where
  "pop_enter r queue =
     (if lock_rv r \<noteq> APR_SUCCESS then (queue, False, Return (lock_rv r), None)
      else if apr_queue_empty queue then
        (if \<not> q_terminated queue
         then (queue\<lparr>q_empty_waiters := q_empty_waiters queue + 1\<rparr>, False, Wait, None)
         else give_up r queue)
      else pop_tail r queue)"

definition pop_resume :: "rvs \<Rightarrow> 'a apr_queue \<Rightarrow> 'a piece" where
  "pop_resume r queue =
     (let queue = queue\<lparr>q_empty_waiters := q_empty_waiters queue - 1\<rparr>
      in if wait_rv r \<noteq> APR_SUCCESS then (queue, False, Return (wait_rv r), None)
         else if apr_queue_empty queue then give_up r queue
         else pop_tail r queue)"

text \<open>The operations that never wait, as wholes.\<close>

definition apr_queue_trypush :: "rvs \<Rightarrow> 'a apr_queue \<Rightarrow> 'a \<Rightarrow> 'a piece" where
  "apr_queue_trypush r queue d =
     (case call_check queue of
        Some rv \<Rightarrow> (queue, False, Return rv, None)
      | None \<Rightarrow>
          if lock_rv r \<noteq> APR_SUCCESS then (queue, False, Return (lock_rv r), None)
          else if apr_queue_full queue then (queue, False, Return APR_EAGAIN, None)
          else push_tail r queue d)"

definition apr_queue_trypop :: "rvs \<Rightarrow> 'a apr_queue \<Rightarrow> 'a piece" where
  "apr_queue_trypop r queue =
     (case call_check queue of
        Some rv \<Rightarrow> (queue, False, Return rv, None)
      | None \<Rightarrow>
          if lock_rv r \<noteq> APR_SUCCESS then (queue, False, Return (lock_rv r), None)
          else if apr_queue_empty queue then (queue, False, Return APR_EAGAIN, None)
          else pop_tail r queue)"

text \<open>
  \<open>apr_queue_term\<close> sets the flag in one critical section and broadcasts in
  another, that of \<open>apr_queue_interrupt_all\<close>.
\<close>

definition set_terminated :: "'a apr_queue \<Rightarrow> 'a apr_queue" where
  "set_terminated queue = queue\<lparr>q_terminated := True\<rparr>"

section \<open>The ring buffer is a FIFO sequence\<close>

definition queue_inv :: "'a apr_queue \<Rightarrow> bool" where
  "queue_inv q \<longleftrightarrow> length (q_data q) = q_bounds q \<and> q_nelts q \<le> q_bounds q \<and>
     (0 < q_bounds q \<longrightarrow> q_out q < q_bounds q \<and> q_in q = (q_out q + q_nelts q) mod q_bounds q)"

definition queue_list :: "'a apr_queue \<Rightarrow> 'a list" where
  "queue_list q = map (\<lambda>k. q_data q ! ((q_out q + k) mod q_bounds q)) [0..<q_nelts q]"

lemma length_queue_list [simp]: "length (queue_list q) = q_nelts q"
  by (simp add: queue_list_def)

lemma wrap_mod: "i < n \<Longrightarrow> (if i + 1 \<ge> n then i + 1 - n else i + 1) = (i + 1) mod (n :: nat)"
  by (simp add: mod_if)

lemma ring_put_ok:
  assumes inv: "queue_inv q" and room: "q_nelts q < q_bounds q"
  shows "queue_inv (ring_put q d) \<and> queue_list (ring_put q d) = queue_list q @ [d]"
proof -
  let ?n = "q_bounds q"
  have n: "0 < ?n" "length (q_data q) = ?n" "q_in q = (q_out q + q_nelts q) mod ?n" "q_in q < ?n" "q_out q < ?n"
    using inv room by (auto simp: queue_inv_def)
  have in': "(if q_in q + 1 \<ge> ?n then q_in q + 1 - ?n else q_in q + 1) = (q_out q + (q_nelts q + 1)) mod ?n"
    unfolding wrap_mod [OF n(4)] unfolding n(3) by (simp add: mod_simps)
  then have "queue_inv (ring_put q d)"
    using n room by (auto simp: queue_inv_def ring_put_def Let_def)
  moreover have other: "(q_out q + k) mod ?n \<noteq> q_in q" if "k < q_nelts q" for k
  proof
    assume "(q_out q + k) mod ?n = q_in q"
    then have "(q_out q + q_nelts q) mod ?n = (q_out q + k) mod ?n" using n(3) by simp
    then have "?n dvd (q_out q + q_nelts q) - (q_out q + k)"
      using that mod_eq_dvd_iff_nat [of "q_out q + k" "q_out q + q_nelts q" ?n] by simp
    then have "?n dvd q_nelts q - k" by simp
    then show False using that room by (simp add: nat_dvd_not_less)
  qed
  have "queue_list (ring_put q d) = queue_list q @ [d]"
    using n not_sym [OF other] by (simp add: queue_list_def ring_put_def Let_def)
  ultimately show ?thesis by blast
qed

lemma ring_get_ok:
  assumes inv: "queue_inv q" and some: "0 < q_nelts q" and get: "ring_get q = (d, q')"
  shows "queue_inv q' \<and> queue_list q = d # queue_list q'"
proof -
  let ?n = "q_bounds q"
  have n: "0 < ?n" "length (q_data q) = ?n" "q_in q = (q_out q + q_nelts q) mod ?n" "q_out q < ?n"
    using inv some by (auto simp: queue_inv_def)
  have q': "d = q_data q ! q_out q" "q' = q\<lparr>q_nelts := q_nelts q - 1, q_out := (q_out q + 1) mod ?n\<rparr>"
    using get unfolding ring_get_def Let_def wrap_mod [OF n(4)] by auto
  obtain m where "q_nelts q = Suc m" using some by (cases "q_nelts q") auto
  then have "queue_inv q'"
    using inv n by (simp add: queue_inv_def q' mod_simps)
  moreover have "[0..<q_nelts q] = 0 # map Suc [0..<q_nelts q - 1]"
    using some by (simp add: map_Suc_upt upt_conv_Cons)
  then have "queue_list q = d # queue_list q'"
    using n by (simp add: queue_list_def q' mod_simps comp_def)
  ultimately show ?thesis by blast
qed

text \<open>The contract of a bounded FIFO buffer, for its clients.\<close>

locale bounded_fifo =
  fixes ok :: "'s \<Rightarrow> bool" and seq :: "'s \<Rightarrow> 'e list" and room :: "'s \<Rightarrow> bool"
    and put :: "'s \<Rightarrow> 'e \<Rightarrow> 's" and get :: "'s \<Rightarrow> 'e \<times> 's"
  assumes ok_put: "ok s \<Longrightarrow> room s \<Longrightarrow> ok (put s x)"
    and seq_put: "ok s \<Longrightarrow> room s \<Longrightarrow> seq (put s x) = seq s @ [x]"
    and ok_get: "ok s \<Longrightarrow> seq s \<noteq> [] \<Longrightarrow> get s = (x, s') \<Longrightarrow> ok s'"
    and seq_get: "ok s \<Longrightarrow> seq s \<noteq> [] \<Longrightarrow> get s = (x, s') \<Longrightarrow> seq s = x # seq s'"
begin

text \<open>
  A use of the buffer: \<open>Some x\<close> puts \<open>x\<close> when there is room, \<open>None\<close> gets when there
  is something; otherwise nothing happens. The state keeps what went in and out.
\<close>

fun use :: "'s \<times> 'e list \<times> 'e list \<Rightarrow> 'e option \<Rightarrow> 's \<times> 'e list \<times> 'e list" where
  "use (s, ins, outs) (Some x) = (if room s then (put s x, ins @ [x], outs) else (s, ins, outs))"
| "use (s, ins, outs) None =
     (if seq s \<noteq> [] then (let (x, s') = get s in (s', ins, outs @ [x])) else (s, ins, outs))"

lemma use_fifo:
  "ok s \<Longrightarrow> ins = outs @ seq s \<Longrightarrow> foldl use (s, ins, outs) xs = (s', ins', outs') \<Longrightarrow>
     ok s' \<and> ins' = outs' @ seq s'"
proof (induction xs arbitrary: s ins outs)
  case (Cons x xs)
  show ?case
  proof (cases x)
    case None
    obtain y t where get: "get s = (y, t)" by fastforce
    then show ?thesis
      using Cons.prems None ok_get [OF Cons.prems(1) _ get] seq_get [OF Cons.prems(1) _ get]
        Cons.IH [of t "outs @ y # seq t" "outs @ [y]"] Cons.IH [of s ins outs]
      by (cases "seq s = []") simp_all
  next
    case (Some y)
    then show ?thesis
      using Cons.prems Some ok_put [OF Cons.prems(1)] seq_put [OF Cons.prems(1)]
        Cons.IH [of "put s y" "ins @ [y]" outs] Cons.IH [of s ins outs]
      by (cases "room s") simp_all
  qed
qed simp

end

interpretation ring: bounded_fifo queue_inv queue_list "\<lambda>q. \<not> apr_queue_full q" ring_put ring_get
proof
  fix q q' :: "'a apr_queue" and x
  assume inv: "queue_inv q"
  then have room: "q_nelts q < q_bounds q" if "\<not> apr_queue_full q"
    using that by (auto simp: queue_inv_def apr_queue_full_def)
  have some: "0 < q_nelts q" if "queue_list q \<noteq> []"
    using that length_queue_list [of q] by (metis gr0I length_0_conv)
  show "queue_inv (ring_put q x)" "queue_list (ring_put q x) = queue_list q @ [x]" if "\<not> apr_queue_full q"
    using ring_put_ok [OF inv room [OF that]] by blast+
  show "queue_inv q'" "queue_list q = x # queue_list q'" if "queue_list q \<noteq> []" "ring_get q = (x, q')"
    using ring_get_ok [OF inv some [OF that(1)] that(2)] by blast+
qed

lemma apr_queue_create_ok:
  "apr_queue_create APR_SUCCESS APR_SUCCESS APR_SUCCESS null n = (rv, Some q) \<Longrightarrow>
     queue_inv q \<and> queue_list q = [] \<and> q_bounds q = n \<and> \<not> q_terminated q \<and>
     q_full_waiters q = 0 \<and> q_empty_waiters q = 0"
  by (auto simp: apr_queue_create_def queue_inv_def queue_list_def)

section \<open>Threads\<close>

text \<open>
  Where a thread is: outside, in a call after the first look at \<open>terminated\<close>,
  asleep on a condition variable, woken and about to take the mutex again, or
  after the mutex was released with the queue still full (empty).
\<close>

datatype 'a pc =
    Idle
  | PushCall 'a | PushAsleep 'a | PushWoken 'a | PushIntr
  | PopCall | PopAsleep | PopWoken | PopIntr
  | TermCall

text \<open>The elements stored and loaded so far, in the order of the critical sections.\<close>

record 'a sys =
  queue :: "'a apr_queue"
  pcs :: "nat \<Rightarrow> 'a pc"
  pushed :: "'a list"
  popped :: "'a list"
  answers :: "(nat \<times> apr_status) list"

definition no_errors :: rvs where
  "no_errors = \<lparr>lock_rv = APR_SUCCESS, wait_rv = APR_SUCCESS, signal_rv = APR_SUCCESS, unlock_rv = APR_SUCCESS\<rparr>"

text \<open>A signal wakes one sleeper of its condition variable, if there is one.\<close>

inductive signals :: "('a pc \<Rightarrow> bool) \<Rightarrow> ('a pc \<Rightarrow> 'a pc) \<Rightarrow> (nat \<Rightarrow> 'a pc) \<Rightarrow> (nat \<Rightarrow> 'a pc) \<Rightarrow> bool"
  for asleep wake where
  one: "asleep (p t) \<Longrightarrow> signals asleep wake p (p(t := wake (p t)))"
| nobody: "(\<And>t. \<not> asleep (p t)) \<Longrightarrow> signals asleep wake p p"

fun push_asleep :: "'a pc \<Rightarrow> bool" where
  "push_asleep (PushAsleep d) = True"
| "push_asleep _ = False"

fun pop_asleep :: "'a pc \<Rightarrow> bool" where
  "pop_asleep PopAsleep = True"
| "pop_asleep _ = False"

fun wake :: "'a pc \<Rightarrow> 'a pc" where
  "wake (PushAsleep d) = PushWoken d"
| "wake PopAsleep = PopWoken"
| "wake p = p"

text \<open>Where a thread goes after a piece of a push or of a pop.\<close>

definition push_next :: "'a \<Rightarrow> outcome \<Rightarrow> 'a pc" where
  "push_next d out = (case out of Wait \<Rightarrow> PushAsleep d | Return rv \<Rightarrow> Idle | Interrupted \<Rightarrow> PushIntr)"

definition pop_next :: "outcome \<Rightarrow> 'a pc" where
  "pop_next out = (case out of Wait \<Rightarrow> PopAsleep | Return rv \<Rightarrow> Idle | Interrupted \<Rightarrow> PopIntr)"

definition answer :: "nat \<Rightarrow> outcome \<Rightarrow> (nat \<times> apr_status) list" where
  "answer t out = (case out of Return rv \<Rightarrow> [(t, rv)] | _ \<Rightarrow> [])"

definition opt_list :: "'a option \<Rightarrow> 'a list" where
  "opt_list x = (case x of None \<Rightarrow> [] | Some d \<Rightarrow> [d])"

text \<open>The effect of a piece run by thread \<open>t\<close>, with its signal if it sent one.\<close>

inductive push_effect :: "nat \<Rightarrow> 'a \<Rightarrow> 'a piece \<Rightarrow> 'a sys \<Rightarrow> 'a sys \<Rightarrow> bool" where
  "(if sig then signals pop_asleep wake ((pcs s)(t := push_next d out)) p
    else p = (pcs s)(t := push_next d out)) \<Longrightarrow>
     push_effect t d (q, sig, out, got) s
       (s\<lparr>queue := q, pcs := p, pushed := pushed s @ opt_list got, answers := answers s @ answer t out\<rparr>)"

inductive pop_effect :: "nat \<Rightarrow> 'a piece \<Rightarrow> 'a sys \<Rightarrow> 'a sys \<Rightarrow> bool" where
  "(if sig then signals push_asleep wake ((pcs s)(t := pop_next out)) p
    else p = (pcs s)(t := pop_next out)) \<Longrightarrow>
     pop_effect t (q, sig, out, got) s
       (s\<lparr>queue := q, pcs := p, popped := popped s @ opt_list got, answers := answers s @ answer t out\<rparr>)"

text \<open>
  One step of one thread. A sleeper may also wake without a signal
  (\<open>spurious\<close>), as condition variables allow.
\<close>

inductive sys_step :: "'a sys \<Rightarrow> 'a sys \<Rightarrow> bool" where
  push_call: "pcs s t = Idle \<Longrightarrow> call_check (queue s) = None \<Longrightarrow> sys_step s (s\<lparr>pcs := (pcs s)(t := PushCall d)\<rparr>)"
| pop_call: "pcs s t = Idle \<Longrightarrow> call_check (queue s) = None \<Longrightarrow> sys_step s (s\<lparr>pcs := (pcs s)(t := PopCall)\<rparr>)"
| refused: "pcs s t = Idle \<Longrightarrow> call_check (queue s) = Some rv \<Longrightarrow> sys_step s (s\<lparr>answers := answers s @ [(t, rv)]\<rparr>)"
| push_enter: "pcs s t = PushCall d \<Longrightarrow> push_effect t d (push_enter no_errors (queue s) d) s s' \<Longrightarrow> sys_step s s'"
| push_resume: "pcs s t = PushWoken d \<Longrightarrow> push_effect t d (push_resume no_errors (queue s) d) s s' \<Longrightarrow> sys_step s s'"
| pop_enter: "pcs s t = PopCall \<Longrightarrow> pop_effect t (pop_enter no_errors (queue s)) s s' \<Longrightarrow> sys_step s s'"
| pop_resume: "pcs s t = PopWoken \<Longrightarrow> pop_effect t (pop_resume no_errors (queue s)) s s' \<Longrightarrow> sys_step s s'"
| intr: "pcs s t = PushIntr \<or> pcs s t = PopIntr \<Longrightarrow>
     sys_step s (s\<lparr>pcs := (pcs s)(t := Idle), answers := answers s @ [(t, after_interrupt (queue s))]\<rparr>)"
| trypush: "pcs s t = Idle \<Longrightarrow> push_effect t d (apr_queue_trypush no_errors (queue s) d) s s' \<Longrightarrow> sys_step s s'"
| trypop: "pcs s t = Idle \<Longrightarrow> pop_effect t (apr_queue_trypop no_errors (queue s)) s s' \<Longrightarrow> sys_step s s'"
| interrupt_all: "pcs s t = Idle \<Longrightarrow> sys_step s (s\<lparr>pcs := wake \<circ> pcs s\<rparr>)"
| terminate: "pcs s t = Idle \<Longrightarrow> sys_step s (s\<lparr>queue := set_terminated (queue s), pcs := (pcs s)(t := TermCall)\<rparr>)"
| terminate_broadcast: "pcs s t = TermCall \<Longrightarrow> sys_step s (s\<lparr>pcs := wake \<circ> (pcs s)(t := Idle)\<rparr>)"
| spurious: "sys_step s (s\<lparr>pcs := (pcs s)(t := wake (pcs s t))\<rparr>)"

inductive reachable :: "nat \<Rightarrow> 'a sys \<Rightarrow> bool" for n where
  start: "apr_queue_create APR_SUCCESS APR_SUCCESS APR_SUCCESS null n = (rv, Some q) \<Longrightarrow>
     reachable n \<lparr>queue = q, pcs = (\<lambda>_. Idle), pushed = [], popped = [], answers = []\<rparr>"
| step: "reachable n s \<Longrightarrow> sys_step s s' \<Longrightarrow> reachable n s'"

section \<open>Counting threads\<close>

fun push_woken :: "'a pc \<Rightarrow> bool" where
  "push_woken (PushWoken d) = True"
| "push_woken _ = False"

fun pop_woken :: "'a pc \<Rightarrow> bool" where
  "pop_woken PopWoken = True"
| "pop_woken _ = False"

fun terminating :: "'a pc \<Rightarrow> bool" where
  "terminating TermCall = True"
| "terminating _ = False"

definition fin :: "(nat \<Rightarrow> 'a pc) \<Rightarrow> bool" where
  "fin p \<longleftrightarrow> finite {t. p t \<noteq> Idle}"

definition cnt :: "('a pc \<Rightarrow> bool) \<Rightarrow> (nat \<Rightarrow> 'a pc) \<Rightarrow> nat" where
  "cnt P p = card {t. P (p t)}"

lemma fin_upd [simp]: "fin p \<Longrightarrow> fin (p(t := x))"
  unfolding fin_def by (rule finite_subset [of _ "insert t {t. p t \<noteq> Idle}"]) auto

lemma fin_wake [simp]: "fin p \<Longrightarrow> fin (wake \<circ> p)"
  unfolding fin_def by (rule finite_subset [of _ "{t. p t \<noteq> Idle}"]) auto

lemma fin_class: "fin p \<Longrightarrow> \<not> P Idle \<Longrightarrow> finite {t. P (p t)}"
  unfolding fin_def by (rule finite_subset [of _ "{t. p t \<noteq> Idle}"]) auto

lemma cnt_upd:
  assumes "fin p" "\<not> P Idle"
  shows "cnt P (p(t := x)) + of_bool (P (p t)) = cnt P p + of_bool (P x)"
proof -
  let ?R = "{u. u \<noteq> t \<and> P (p u)}"
  have fin: "finite ?R" by (rule finite_subset [OF _ fin_class [where P = P, OF assms]]) auto
  have "{u. P (p u)} = (if P (p t) then insert t ?R else ?R)"
    "{u. P ((p(t := x)) u)} = (if P x then insert t ?R else ?R)" by auto
  then show ?thesis
    using fin by (simp add: cnt_def)
qed

lemma cnt_wake:
  "cnt push_asleep (wake \<circ> p) = 0" "cnt pop_asleep (wake \<circ> p) = 0"
  "cnt terminating (wake \<circ> p) = cnt terminating p"
proof -
  have "\<not> push_asleep (wake x)" "\<not> pop_asleep (wake x)" "terminating (wake x) = terminating x" for x :: "'a pc"
    by (cases x; simp)+
  then show "cnt push_asleep (wake \<circ> p) = 0" "cnt pop_asleep (wake \<circ> p) = 0"
    "cnt terminating (wake \<circ> p) = cnt terminating p"
    by (simp_all add: cnt_def)
qed

lemma cnt_woken:
  assumes "fin p"
  shows "cnt push_woken (wake \<circ> p) = cnt push_asleep p + cnt push_woken p"
    "cnt pop_woken (wake \<circ> p) = cnt pop_asleep p + cnt pop_woken p"
proof -
  have "push_woken (wake x) = (push_asleep x \<or> push_woken x)" "\<not> (push_asleep x \<and> push_woken x)"
    "pop_woken (wake x) = (pop_asleep x \<or> pop_woken x)" "\<not> (pop_asleep x \<and> pop_woken x)" for x :: "'a pc"
    by (cases x; simp)+
  then have "{t. push_woken ((wake \<circ> p) t)} = {t. push_asleep (p t)} \<union> {t. push_woken (p t)}"
    "{t. push_asleep (p t)} \<inter> {t. push_woken (p t)} = {}"
    "{t. pop_woken ((wake \<circ> p) t)} = {t. pop_asleep (p t)} \<union> {t. pop_woken (p t)}"
    "{t. pop_asleep (p t)} \<inter> {t. pop_woken (p t)} = {}"
    by auto
  then show "cnt push_woken (wake \<circ> p) = cnt push_asleep p + cnt push_woken p"
    "cnt pop_woken (wake \<circ> p) = cnt pop_asleep p + cnt pop_woken p"
    unfolding cnt_def by (simp_all add: card_Un_disjoint fin_class [OF assms])
qed

lemmas cnt_upds =
  cnt_upd [where P = push_asleep, simplified] cnt_upd [where P = push_woken, simplified]
  cnt_upd [where P = pop_asleep, simplified] cnt_upd [where P = pop_woken, simplified]
  cnt_upd [where P = terminating, simplified]

lemma cnt_pos: "fin p \<Longrightarrow> \<not> P Idle \<Longrightarrow> cnt P p = 0 \<longleftrightarrow> (\<forall>t. \<not> P (p t))"
  using fin_class [of p P] by (auto simp: cnt_def card_eq_0_iff)

section \<open>The invariant\<close>

text \<open>
  The five counts: the waiter fields count sleepers and woken threads; a sleeper
  is only left alone while there are woken threads for all that it could take;
  after termination nobody sleeps, unless the broadcast is still to come.
\<close>

definition counts_ok :: "'a apr_queue \<Rightarrow> (nat \<Rightarrow> 'a pc) \<Rightarrow> bool" where
  "counts_ok q p \<longleftrightarrow> fin p \<and>
     q_full_waiters q = cnt push_asleep p + cnt push_woken p \<and>
     q_empty_waiters q = cnt pop_asleep p + cnt pop_woken p \<and>
     (0 < cnt pop_asleep p \<longrightarrow> q_nelts q \<le> cnt pop_woken p) \<and>
     (0 < cnt push_asleep p \<longrightarrow> q_bounds q - q_nelts q \<le> cnt push_woken p) \<and>
     (q_terminated q \<longrightarrow> 0 < cnt terminating p \<or> cnt push_asleep p = 0 \<and> cnt pop_asleep p = 0)"

definition sys_inv :: "nat \<Rightarrow> 'a sys \<Rightarrow> bool" where
  "sys_inv n s \<longleftrightarrow> queue_inv (queue s) \<and> q_bounds (queue s) = n \<and>
     pushed s = popped s @ queue_list (queue s) \<and> counts_ok (queue s) (pcs s)"

lemma signals_pop:
  assumes "signals pop_asleep wake p p'" "fin p"
  shows "fin p' \<and> cnt push_asleep p' = cnt push_asleep p \<and> cnt push_woken p' = cnt push_woken p \<and>
    cnt terminating p' = cnt terminating p \<and>
    (cnt pop_asleep p = 0 \<and> p' = p \<or>
     cnt pop_asleep p = cnt pop_asleep p' + 1 \<and> cnt pop_woken p' = cnt pop_woken p + 1)"
  using assms
proof (induction rule: signals.induct)
  case (one p t)
  then have "p t = PopAsleep" by (cases "p t") auto
  with one cnt_upds [of p t "wake (p t)"] show ?case by (simp del: fun_upd_apply)
next
  case (nobody p)
  then show ?case using cnt_pos [of p pop_asleep] by simp
qed

lemma signals_push:
  assumes "signals push_asleep wake p p'" "fin p"
  shows "fin p' \<and> cnt pop_asleep p' = cnt pop_asleep p \<and> cnt pop_woken p' = cnt pop_woken p \<and>
    cnt terminating p' = cnt terminating p \<and>
    (cnt push_asleep p = 0 \<and> p' = p \<or>
     cnt push_asleep p = cnt push_asleep p' + 1 \<and> cnt push_woken p' = cnt push_woken p + 1)"
  using assms
proof (induction rule: signals.induct)
  case (one p t)
  then obtain d where "p t = PushAsleep d" by (cases "p t") auto
  with one cnt_upds [of p t "wake (p t)"] show ?case by (simp del: fun_upd_apply)
next
  case (nobody p)
  then show ?case using cnt_pos [of p push_asleep] by simp
qed

text \<open>A thread that moves between places that do not count.\<close>

definition quiet :: "'a pc \<Rightarrow> bool" where
  "quiet x \<longleftrightarrow> \<not> push_asleep x \<and> \<not> push_woken x \<and> \<not> pop_asleep x \<and> \<not> pop_woken x \<and> \<not> terminating x"

lemma quiet_simps [simp]:
  "quiet Idle" "quiet (PushCall d)" "quiet PushIntr" "quiet PopCall" "quiet PopIntr"
  by (simp_all add: quiet_def)

lemma quiet_cnt:
  assumes "fin p" "quiet (p t)" "quiet x"
  shows "cnt push_asleep (p(t := x)) = cnt push_asleep p" "cnt push_woken (p(t := x)) = cnt push_woken p"
    "cnt pop_asleep (p(t := x)) = cnt pop_asleep p" "cnt pop_woken (p(t := x)) = cnt pop_woken p"
    "cnt terminating (p(t := x)) = cnt terminating p"
  using assms cnt_upds [OF assms(1), of t x] by (simp_all add: quiet_def)

lemma counts_quiet: "counts_ok q p \<Longrightarrow> quiet (p t) \<Longrightarrow> quiet x \<Longrightarrow> counts_ok q (p(t := x))"
  by (simp add: counts_ok_def quiet_cnt)

section \<open>Every step keeps the invariant\<close>

lemma no_errors_simps [simp]:
  "lock_rv no_errors = APR_SUCCESS" "wait_rv no_errors = APR_SUCCESS"
  "signal_rv no_errors = APR_SUCCESS" "unlock_rv no_errors = APR_SUCCESS"
  by (simp_all add: no_errors_def)

lemma ring_simps [simp]:
  "q_nelts (ring_put q d) = q_nelts q + 1" "q_bounds (ring_put q d) = q_bounds q"
  "q_full_waiters (ring_put q d) = q_full_waiters q" "q_empty_waiters (ring_put q d) = q_empty_waiters q"
  "q_terminated (ring_put q d) = q_terminated q"
  "ring_get q = (x, q') \<Longrightarrow> q_nelts q' = q_nelts q - 1" "ring_get q = (x, q') \<Longrightarrow> q_bounds q' = q_bounds q"
  "ring_get q = (x, q') \<Longrightarrow> q_full_waiters q' = q_full_waiters q"
  "ring_get q = (x, q') \<Longrightarrow> q_empty_waiters q' = q_empty_waiters q"
  "ring_get q = (x, q') \<Longrightarrow> q_terminated q' = q_terminated q"
  by (auto simp: ring_put_def ring_get_def Let_def)

lemma queue_inv_waiters [simp]:
  "queue_inv (q\<lparr>q_full_waiters := m\<rparr>) = queue_inv q" "queue_list (q\<lparr>q_full_waiters := m\<rparr>) = queue_list q"
  "queue_inv (q\<lparr>q_empty_waiters := m\<rparr>) = queue_inv q" "queue_list (q\<lparr>q_empty_waiters := m\<rparr>) = queue_list q"
  "queue_inv (set_terminated q) = queue_inv q" "queue_list (set_terminated q) = queue_list q"
  by (simp_all add: queue_inv_def queue_list_def set_terminated_def)

lemma counts_okD:
  assumes "counts_ok q p"
  shows "fin p" "q_full_waiters q = cnt push_asleep p + cnt push_woken p"
    "q_empty_waiters q = cnt pop_asleep p + cnt pop_woken p"
    "0 < cnt pop_asleep p \<Longrightarrow> q_nelts q \<le> cnt pop_woken p"
    "0 < cnt push_asleep p \<Longrightarrow> q_bounds q - q_nelts q \<le> cnt push_woken p"
    "q_terminated q \<Longrightarrow> 0 < cnt terminating p \<or> cnt push_asleep p = 0 \<and> cnt pop_asleep p = 0"
  using assms by (simp_all add: counts_ok_def)

lemma counts_okI:
  assumes "fin p" "q_full_waiters q = cnt push_asleep p + cnt push_woken p"
    "q_empty_waiters q = cnt pop_asleep p + cnt pop_woken p"
    "0 < cnt pop_asleep p \<Longrightarrow> q_nelts q \<le> cnt pop_woken p"
    "0 < cnt push_asleep p \<Longrightarrow> q_bounds q - q_nelts q \<le> cnt push_woken p"
    "q_terminated q \<Longrightarrow> 0 < cnt terminating p \<or> cnt push_asleep p = 0 \<and> cnt pop_asleep p = 0"
  shows "counts_ok q p"
  using assms by (simp add: counts_ok_def)

text \<open>
  A push that stores: the thread leaves, and a signal wakes a sleeping popper.
  The thread that stores may be a woken one that has stopped being a waiter, so
  the bound on the room is needed for the state before the store only.
\<close>

lemma counts_put:
  assumes fin: "fin p" and t: "quiet (p t)"
    and waiters: "q_full_waiters q = cnt push_asleep p + cnt push_woken p"
      "q_empty_waiters q = cnt pop_asleep p + cnt pop_woken p"
    and poppers: "0 < cnt pop_asleep p \<Longrightarrow> q_nelts q \<le> cnt pop_woken p"
    and pushers: "0 < cnt push_asleep p \<Longrightarrow> q_bounds q - q_nelts q \<le> cnt push_woken p + 1"
    and over: "q_terminated q \<Longrightarrow> 0 < cnt terminating p \<or> cnt push_asleep p = 0 \<and> cnt pop_asleep p = 0"
    and sig: "if q_empty_waiters q \<noteq> 0 then signals pop_asleep wake (p(t := Idle)) p' else p' = p(t := Idle)"
  shows "counts_ok (ring_put q d) p'"
proof -
  note leave = quiet_cnt [where t = t, OF fin t quiet_simps(1)]
  consider (none) "cnt pop_asleep p = 0" "p' = p(t := Idle)"
    | (one) "fin p'" "cnt push_asleep p' = cnt push_asleep p" "cnt push_woken p' = cnt push_woken p"
        "cnt terminating p' = cnt terminating p" "cnt pop_asleep p = cnt pop_asleep p' + 1"
        "cnt pop_woken p' = cnt pop_woken p + 1"
  proof (cases "q_empty_waiters q = 0")
    case True
    then show ?thesis using that(1) sig waiters(2) by simp
  next
    case False
    then have "signals pop_asleep wake (p(t := Idle)) p'" using sig by simp
    from signals_pop [OF this fin_upd [OF fin]] show ?thesis
      using that unfolding leave by blast
  qed
  then show ?thesis
  proof cases
    case none
    show ?thesis
    proof (rule counts_okI, unfold none(2) leave ring_simps)
      show "fin (p(t := Idle))" using fin by simp
      show "0 < cnt push_asleep p \<Longrightarrow> q_bounds q - (q_nelts q + 1) \<le> cnt push_woken p"
        using pushers by linarith
    qed (use none(1) waiters over in simp_all)
  next
    case one
    show ?thesis
    proof (rule counts_okI, unfold one(2-4,6) ring_simps)
      show "q_empty_waiters q = cnt pop_asleep p' + (cnt pop_woken p + 1)" using waiters(2) one(5) by simp
      show "q_nelts q + 1 \<le> cnt pop_woken p + 1" using poppers one(5) by simp
      show "0 < cnt push_asleep p \<Longrightarrow> q_bounds q - (q_nelts q + 1) \<le> cnt push_woken p"
        using pushers by linarith
      show "q_terminated q \<Longrightarrow> 0 < cnt terminating p \<or> cnt push_asleep p = 0 \<and> cnt pop_asleep p' = 0"
        using over one(5) by simp
    qed (use one(1) waiters(1) in simp_all)
  qed
qed

lemma counts_get:
  assumes fin: "fin p" and t: "quiet (p t)" and get: "ring_get q = (x, q')" and some: "0 < q_nelts q"
    and waiters: "q_full_waiters q = cnt push_asleep p + cnt push_woken p"
      "q_empty_waiters q = cnt pop_asleep p + cnt pop_woken p"
    and poppers: "0 < cnt pop_asleep p \<Longrightarrow> q_nelts q \<le> cnt pop_woken p + 1"
    and pushers: "0 < cnt push_asleep p \<Longrightarrow> q_bounds q - q_nelts q \<le> cnt push_woken p"
    and over: "q_terminated q \<Longrightarrow> 0 < cnt terminating p \<or> cnt push_asleep p = 0 \<and> cnt pop_asleep p = 0"
    and sig: "if q_full_waiters q' \<noteq> 0 then signals push_asleep wake (p(t := Idle)) p' else p' = p(t := Idle)"
  shows "counts_ok q' p'"
proof -
  note leave = quiet_cnt [where t = t, OF fin t quiet_simps(1)] and get' = ring_simps(6-10) [OF get]
  consider (none) "cnt push_asleep p = 0" "p' = p(t := Idle)"
    | (one) "fin p'" "cnt pop_asleep p' = cnt pop_asleep p" "cnt pop_woken p' = cnt pop_woken p"
        "cnt terminating p' = cnt terminating p" "cnt push_asleep p = cnt push_asleep p' + 1"
        "cnt push_woken p' = cnt push_woken p + 1"
  proof (cases "q_full_waiters q' = 0")
    case True
    then show ?thesis using that(1) sig waiters(1) get' by simp
  next
    case False
    then have "signals push_asleep wake (p(t := Idle)) p'" using sig by simp
    from signals_push [OF this fin_upd [OF fin]] show ?thesis
      using that unfolding leave by blast
  qed
  then show ?thesis
  proof cases
    case none
    show ?thesis
    proof (rule counts_okI, unfold none(2) leave get')
      show "fin (p(t := Idle))" using fin by simp
      show "0 < cnt pop_asleep p \<Longrightarrow> q_nelts q - 1 \<le> cnt pop_woken p"
        using poppers by linarith
    qed (use none(1) waiters over in simp_all)
  next
    case one
    show ?thesis
    proof (rule counts_okI, unfold one(2-4,6) get')
      show "q_full_waiters q = cnt push_asleep p' + (cnt push_woken p + 1)" using waiters(1) one(5) by simp
      show "q_bounds q - (q_nelts q - 1) \<le> cnt push_woken p + 1" using pushers one(5) by linarith
      show "0 < cnt pop_asleep p \<Longrightarrow> q_nelts q - 1 \<le> cnt pop_woken p"
        using poppers by linarith
      show "q_terminated q \<Longrightarrow> 0 < cnt terminating p \<or> cnt push_asleep p' = 0 \<and> cnt pop_asleep p = 0"
        using over one(5) by simp
    qed (use one(1) waiters(2) in simp_all)
  qed
qed

lemma opt_list_simps [simp]: "opt_list None = []" "opt_list (Some x) = [x]"
  by (simp_all add: opt_list_def)

lemma next_simps [simp]:
  "push_next d Wait = PushAsleep d" "push_next d (Return rv) = Idle" "push_next d Interrupted = PushIntr"
  "pop_next Wait = PopAsleep" "pop_next (Return rv) = Idle" "pop_next Interrupted = PopIntr"
  by (simp_all add: push_next_def pop_next_def)

inductive_cases push_effectE: "push_effect t d (q, sig, out, got) s s'"
inductive_cases pop_effectE: "pop_effect t (q, sig, out, got) s s'"

text \<open>What a piece leaves behind when it stores nothing and sends no signal.\<close>

lemma push_effect_plain:
  "push_effect t d (q, False, out, None) s s' \<Longrightarrow>
     queue s' = q \<and> pcs s' = (pcs s)(t := push_next d out) \<and> pushed s' = pushed s \<and> popped s' = popped s"
  by (erule push_effectE) simp

lemma pop_effect_plain:
  "pop_effect t (q, False, out, None) s s' \<Longrightarrow>
     queue s' = q \<and> pcs s' = (pcs s)(t := pop_next out) \<and> pushed s' = pushed s \<and> popped s' = popped s"
  by (erule pop_effectE) simp

lemma push_effect_tail:
  "push_effect t d (push_tail no_errors q d) s s' \<Longrightarrow>
     queue s' = ring_put q d \<and> pushed s' = pushed s @ [d] \<and> popped s' = popped s \<and>
     (if q_empty_waiters q \<noteq> 0 then signals pop_asleep wake ((pcs s)(t := Idle)) (pcs s')
      else pcs s' = (pcs s)(t := Idle))"
  by (auto simp: push_tail_def Let_def split: if_splits elim!: push_effectE)

lemma pop_effect_tail:
  assumes "pop_effect t (pop_tail no_errors q) s s'"
  shows "\<exists>x. ring_get q = (x, queue s') \<and> pushed s' = pushed s \<and> popped s' = popped s @ [x] \<and>
     (if q_full_waiters (queue s') \<noteq> 0 then signals push_asleep wake ((pcs s)(t := Idle)) (pcs s')
      else pcs s' = (pcs s)(t := Idle))"
proof -
  obtain x q' where get: "ring_get q = (x, q')" by fastforce
  with assms show ?thesis
    by (auto simp: pop_tail_def split: if_splits elim!: pop_effectE)
qed

text \<open>The place of thread \<open>t\<close> before the piece does not matter for the result.\<close>

lemma push_tail_inv:
  assumes q: "queue_inv q" "q_bounds q = n" "\<not> apr_queue_full q" "pushed s = popped s @ queue_list q"
    and p: "fin p" "quiet (p t)" "\<And>x. p(t := x) = (pcs s)(t := x)"
    and waiters: "q_full_waiters q = cnt push_asleep p + cnt push_woken p"
      "q_empty_waiters q = cnt pop_asleep p + cnt pop_woken p"
    and counts: "0 < cnt pop_asleep p \<Longrightarrow> q_nelts q \<le> cnt pop_woken p"
      "0 < cnt push_asleep p \<Longrightarrow> q_bounds q - q_nelts q \<le> cnt push_woken p + 1"
      "q_terminated q \<Longrightarrow> 0 < cnt terminating p \<or> cnt push_asleep p = 0 \<and> cnt pop_asleep p = 0"
    and eff: "push_effect t d (push_tail no_errors q d) s s'"
  shows "sys_inv n s'"
proof -
  note eff' = push_effect_tail [OF eff]
  have "counts_ok (ring_put q d) (pcs s')"
    by (rule counts_put [OF p(1,2) waiters counts, unfolded p(3)]) (use eff' in simp_all)
  moreover have "queue_inv (ring_put q d) \<and> queue_list (ring_put q d) = queue_list q @ [d]"
    using ring.ok_put [OF q(1,3)] ring.seq_put [OF q(1,3)] by simp
  ultimately show ?thesis
    using eff' q by (simp add: sys_inv_def)
qed

lemma pop_tail_inv:
  assumes q: "queue_inv q" "q_bounds q = n" "\<not> apr_queue_empty q" "pushed s = popped s @ queue_list q"
    and p: "fin p" "quiet (p t)" "\<And>x. p(t := x) = (pcs s)(t := x)"
    and waiters: "q_full_waiters q = cnt push_asleep p + cnt push_woken p"
      "q_empty_waiters q = cnt pop_asleep p + cnt pop_woken p"
    and counts: "0 < cnt pop_asleep p \<Longrightarrow> q_nelts q \<le> cnt pop_woken p + 1"
      "0 < cnt push_asleep p \<Longrightarrow> q_bounds q - q_nelts q \<le> cnt push_woken p"
      "q_terminated q \<Longrightarrow> 0 < cnt terminating p \<or> cnt push_asleep p = 0 \<and> cnt pop_asleep p = 0"
    and eff: "pop_effect t (pop_tail no_errors q) s s'"
  shows "sys_inv n s'"
proof -
  obtain x where eff': "ring_get q = (x, queue s')" "pushed s' = pushed s" "popped s' = popped s @ [x]"
      "if q_full_waiters (queue s') \<noteq> 0 then signals push_asleep wake ((pcs s)(t := Idle)) (pcs s')
       else pcs s' = (pcs s)(t := Idle)"
    using pop_effect_tail [OF eff] by blast
  have some: "0 < q_nelts q" using q(3) by (simp add: apr_queue_empty_def)
  have "counts_ok (queue s') (pcs s')"
    by (rule counts_get [OF p(1,2) eff'(1) some waiters counts, unfolded p(3)]) (use eff'(4) in simp_all)
  moreover have "queue_inv (queue s') \<and> queue_list q = x # queue_list (queue s')"
    by (rule ring_get_ok [OF q(1) some eff'(1)])
  ultimately show ?thesis
    using eff' q ring_simps(7) [OF eff'(1)] by (simp add: sys_inv_def)
qed

lemma plain_inv:
  assumes "queue_inv q" "q_bounds q = n" "pushed s = popped s @ queue_list q" "counts_ok q p"
    "queue s' = q" "pcs s' = p" "pushed s' = pushed s" "popped s' = popped s"
  shows "sys_inv n s'"
  using assms by (simp add: sys_inv_def)

lemma give_up_simp: "give_up no_errors q = (q, False, Interrupted, None)"
  by (simp add: give_up_def)

lemma sys_invD:
  assumes "sys_inv n s"
  shows "queue_inv (queue s)" "q_bounds (queue s) = n" "pushed s = popped s @ queue_list (queue s)"
    "counts_ok (queue s) (pcs s)" "fin (pcs s)"
  using assms unfolding sys_inv_def by (blast, blast, blast, blast, simp add: counts_ok_def)

lemma push_enter_inv:
  assumes inv: "sys_inv n s" and t: "pcs s t = PushCall d"
    and eff: "push_effect t d (push_enter no_errors (queue s) d) s s'"
  shows "sys_inv n s'"
proof -
  note I = sys_invD [OF inv] and C = counts_okD [OF sys_invD(4) [OF inv]]
  show ?thesis
  proof (cases "apr_queue_full (queue s)")
    case False
    then have "push_effect t d (push_tail no_errors (queue s) d) s s'"
      using eff by (simp add: push_enter_def)
    then show ?thesis
      using C(5) t by (intro push_tail_inv [OF I(1,2) False I(3,5) _ refl C(2-4) _ C(6)]) simp_all
  next
    case full: True
    then have room: "q_bounds (queue s) - q_nelts (queue s) = 0" by (simp add: apr_queue_full_def)
    show ?thesis
    proof (cases "q_terminated (queue s)")
      case True
      then have "push_effect t d (queue s, False, Interrupted, None) s s'"
        using eff full by (simp add: push_enter_def give_up_simp)
      from push_effect_plain [OF this] show ?thesis
        using counts_quiet [OF I(4), of t PushIntr] t by (intro plain_inv [OF I(1-3)]) simp_all
    next
      case False
      let ?q = "(queue s)\<lparr>q_full_waiters := q_full_waiters (queue s) + 1\<rparr>"
      have plain: "push_effect t d (?q, False, Wait, None) s s'"
        using eff full False by (simp add: push_enter_def)
      have "counts_ok ?q ((pcs s)(t := PushAsleep d))"
        using C cnt_upds [OF I(5), of t "PushAsleep d"] t False room
        by (intro counts_okI fin_upd I(5)) (simp_all del: fun_upd_apply)
      with push_effect_plain [OF plain] I(1-3) show ?thesis
        by (simp add: sys_inv_def)
    qed
  qed
qed

lemma push_resume_inv:
  assumes inv: "sys_inv n s" and t: "pcs s t = PushWoken d"
    and eff: "push_effect t d (push_resume no_errors (queue s) d) s s'"
  shows "sys_inv n s'"
proof -
  note I = sys_invD [OF inv] and C = counts_okD [OF sys_invD(4) [OF inv]]
  let ?q = "(queue s)\<lparr>q_full_waiters := q_full_waiters (queue s) - 1\<rparr>" and ?p = "(pcs s)(t := PushCall d)"
  have p: "fin ?p" "cnt push_asleep ?p = cnt push_asleep (pcs s)" "cnt push_woken (pcs s) = cnt push_woken ?p + 1"
    "cnt pop_asleep ?p = cnt pop_asleep (pcs s)" "cnt pop_woken ?p = cnt pop_woken (pcs s)"
    "cnt terminating ?p = cnt terminating (pcs s)"
    using I(5) cnt_upds [OF I(5), of t "PushCall d"] t by (simp_all del: fun_upd_apply)
  have q: "queue_inv ?q" "q_bounds ?q = n" "pushed s = popped s @ queue_list ?q"
    using I(1-3) by simp_all
  have waiters: "q_full_waiters ?q = cnt push_asleep ?p + cnt push_woken ?p"
      "q_empty_waiters ?q = cnt pop_asleep ?p + cnt pop_woken ?p"
    using C(2,3) by (simp_all add: p del: fun_upd_apply)
  show ?thesis
  proof (cases "apr_queue_full ?q")
    case False
    then have "push_effect t d (push_tail no_errors ?q d) s s'"
      using eff by (simp add: push_resume_def Let_def)
    then show ?thesis
      using C(4-6) p(2-6)
      by (intro push_tail_inv [where p = ?p and q = ?q, OF q(1,2) False q(3) p(1) _ _ waiters])
        (simp_all del: fun_upd_apply add: fun_upd_same fun_upd_upd)
  next
    case True
    then have plain: "push_effect t d (?q, False, Interrupted, None) s s'"
      using eff by (simp add: push_resume_def give_up_simp Let_def)
    have "counts_ok ?q ?p"
      by (rule counts_okI [OF p(1) waiters])
        (use C(4-6) p True in \<open>simp_all add: apr_queue_full_def del: fun_upd_apply\<close>)
    then have "counts_ok ?q (?p(t := PushIntr))" by (rule counts_quiet) simp_all
    with push_effect_plain [OF plain] q show ?thesis
      by (simp add: sys_inv_def del: fun_upd_apply)
  qed
qed

lemma pop_enter_inv:
  assumes inv: "sys_inv n s" and t: "pcs s t = PopCall"
    and eff: "pop_effect t (pop_enter no_errors (queue s)) s s'"
  shows "sys_inv n s'"
proof -
  note I = sys_invD [OF inv] and C = counts_okD [OF sys_invD(4) [OF inv]]
  show ?thesis
  proof (cases "apr_queue_empty (queue s)")
    case False
    then have "pop_effect t (pop_tail no_errors (queue s)) s s'"
      using eff by (simp add: pop_enter_def)
    then show ?thesis
      using C(4) t by (intro pop_tail_inv [OF I(1,2) False I(3,5) _ refl C(2,3) _ C(5,6)]) simp_all
  next
    case empty: True
    then have none: "q_nelts (queue s) = 0" by (simp add: apr_queue_empty_def)
    show ?thesis
    proof (cases "q_terminated (queue s)")
      case True
      then have "pop_effect t (queue s, False, Interrupted, None) s s'"
        using eff empty by (simp add: pop_enter_def give_up_simp)
      from pop_effect_plain [OF this] show ?thesis
        using counts_quiet [OF I(4), of t PopIntr] t by (intro plain_inv [OF I(1-3)]) simp_all
    next
      case False
      let ?q = "(queue s)\<lparr>q_empty_waiters := q_empty_waiters (queue s) + 1\<rparr>"
      have plain: "pop_effect t (?q, False, Wait, None) s s'"
        using eff empty False by (simp add: pop_enter_def)
      have "counts_ok ?q ((pcs s)(t := PopAsleep))"
        using C cnt_upds [OF I(5), of t PopAsleep] t False none
        by (intro counts_okI fin_upd I(5)) (simp_all del: fun_upd_apply)
      with pop_effect_plain [OF plain] I(1-3) show ?thesis
        by (simp add: sys_inv_def)
    qed
  qed
qed

lemma pop_resume_inv:
  assumes inv: "sys_inv n s" and t: "pcs s t = PopWoken"
    and eff: "pop_effect t (pop_resume no_errors (queue s)) s s'"
  shows "sys_inv n s'"
proof -
  note I = sys_invD [OF inv] and C = counts_okD [OF sys_invD(4) [OF inv]]
  let ?q = "(queue s)\<lparr>q_empty_waiters := q_empty_waiters (queue s) - 1\<rparr>" and ?p = "(pcs s)(t := PopCall)"
  have p: "fin ?p" "cnt push_asleep ?p = cnt push_asleep (pcs s)" "cnt push_woken ?p = cnt push_woken (pcs s)"
    "cnt pop_asleep ?p = cnt pop_asleep (pcs s)" "cnt pop_woken (pcs s) = cnt pop_woken ?p + 1"
    "cnt terminating ?p = cnt terminating (pcs s)"
    using I(5) cnt_upds [OF I(5), of t PopCall] t by (simp_all del: fun_upd_apply)
  have q: "queue_inv ?q" "q_bounds ?q = n" "pushed s = popped s @ queue_list ?q"
    using I(1-3) by simp_all
  have waiters: "q_full_waiters ?q = cnt push_asleep ?p + cnt push_woken ?p"
      "q_empty_waiters ?q = cnt pop_asleep ?p + cnt pop_woken ?p"
    using C(2,3) by (simp_all add: p del: fun_upd_apply)
  show ?thesis
  proof (cases "apr_queue_empty ?q")
    case False
    then have "pop_effect t (pop_tail no_errors ?q) s s'"
      using eff by (simp add: pop_resume_def Let_def)
    then show ?thesis
      using C(4-6) p(2-6)
      by (intro pop_tail_inv [where p = ?p and q = ?q, OF q(1,2) False q(3) p(1) _ _ waiters])
        (simp_all del: fun_upd_apply add: fun_upd_same fun_upd_upd)
  next
    case True
    then have plain: "pop_effect t (?q, False, Interrupted, None) s s'"
      using eff by (simp add: pop_resume_def give_up_simp Let_def)
    have "counts_ok ?q ?p"
      by (rule counts_okI [OF p(1) waiters])
        (use C(4-6) p True in \<open>simp_all add: apr_queue_empty_def del: fun_upd_apply\<close>)
    then have "counts_ok ?q (?p(t := PopIntr))" by (rule counts_quiet) simp_all
    with pop_effect_plain [OF plain] q show ?thesis
      by (simp add: sys_inv_def del: fun_upd_apply)
  qed
qed

lemma trypush_inv:
  assumes inv: "sys_inv n s" and t: "pcs s t = Idle"
    and eff: "push_effect t d (apr_queue_trypush no_errors (queue s) d) s s'"
  shows "sys_inv n s'"
proof -
  note I = sys_invD [OF inv] and C = counts_okD [OF sys_invD(4) [OF inv]]
  consider (plain) rv where "apr_queue_trypush no_errors (queue s) d = (queue s, False, Return rv, None)"
    | (tail) "apr_queue_trypush no_errors (queue s) d = push_tail no_errors (queue s) d" "\<not> apr_queue_full (queue s)"
    by (cases "call_check (queue s)"; cases "apr_queue_full (queue s)") (simp_all add: apr_queue_trypush_def)
  then show ?thesis
  proof cases
    case plain
    from push_effect_plain [OF eff [unfolded plain]] show ?thesis
      using counts_quiet [OF I(4), of t Idle] t by (intro plain_inv [OF I(1-3)]) simp_all
  next
    case tail
    then show ?thesis
      using C(5) t eff by (intro push_tail_inv [OF I(1,2) tail(2) I(3,5) _ refl C(2-4) _ C(6)]) simp_all
  qed
qed

lemma trypop_inv:
  assumes inv: "sys_inv n s" and t: "pcs s t = Idle"
    and eff: "pop_effect t (apr_queue_trypop no_errors (queue s)) s s'"
  shows "sys_inv n s'"
proof -
  note I = sys_invD [OF inv] and C = counts_okD [OF sys_invD(4) [OF inv]]
  consider (plain) rv where "apr_queue_trypop no_errors (queue s) = (queue s, False, Return rv, None)"
    | (tail) "apr_queue_trypop no_errors (queue s) = pop_tail no_errors (queue s)" "\<not> apr_queue_empty (queue s)"
    by (cases "call_check (queue s)"; cases "apr_queue_empty (queue s)") (simp_all add: apr_queue_trypop_def)
  then show ?thesis
  proof cases
    case plain
    from pop_effect_plain [OF eff [unfolded plain]] show ?thesis
      using counts_quiet [OF I(4), of t Idle] t by (intro plain_inv [OF I(1-3)]) simp_all
  next
    case tail
    then show ?thesis
      using C(4) t eff by (intro pop_tail_inv [OF I(1,2) tail(2) I(3,5) _ refl C(2,3) _ C(5,6)]) simp_all
  qed
qed

text \<open>A broadcast, and a wake-up out of nowhere.\<close>

lemma counts_wake_all:
  assumes "counts_ok q p"
  shows "counts_ok q (wake \<circ> p)"
  using counts_okD [OF assms] by (intro counts_okI) (simp_all add: cnt_wake cnt_woken)

lemma counts_wake_one:
  assumes ok: "counts_ok q p"
  shows "counts_ok q (p(t := wake (p t)))"
proof -
  note C = counts_okD [OF ok] and upd = cnt_upds [OF counts_okD(1) [OF ok], of t "wake (p t)"]
  consider (push) d where "p t = PushAsleep d" | (pop) "p t = PopAsleep" | (no) "wake (p t) = p t"
    by (cases "p t") auto
  then show ?thesis
  proof cases
    case push
    with C upd show ?thesis by (intro counts_okI) (simp_all del: fun_upd_apply)
  next
    case pop
    with C upd show ?thesis by (intro counts_okI) (simp_all del: fun_upd_apply)
  next
    case no
    with ok show ?thesis by simp
  qed
qed

lemma sys_step_inv [apr_invar]:
  assumes "sys_step s s'" "sys_inv n s"
  shows "sys_inv n s'"
  using assms
proof (induction rule: sys_step.induct)
  case (terminate s t)
  note I = sys_invD [OF terminate(2)] and C = counts_okD [OF sys_invD(4) [OF terminate(2)]]
  have "counts_ok (set_terminated (queue s)) ((pcs s)(t := TermCall))"
    using C cnt_upds [OF I(5), of t TermCall] terminate(1)
    by (intro counts_okI) (simp_all add: set_terminated_def del: fun_upd_apply)
  then show ?case using I by (simp add: sys_inv_def set_terminated_def queue_inv_def queue_list_def)
next
  case (terminate_broadcast s t)
  note I = sys_invD [OF terminate_broadcast(2)] and C = counts_okD [OF sys_invD(4) [OF terminate_broadcast(2)]]
  let ?p = "(pcs s)(t := Idle)"
  have "counts_ok (queue s) (wake \<circ> ?p)"
    using C cnt_upds [OF I(5), of t Idle] terminate_broadcast(1) cnt_woken [OF fin_upd [OF I(5)], of t Idle]
    by (intro counts_okI) (simp_all add: cnt_wake del: fun_upd_apply)
  then show ?case using I by (simp add: sys_inv_def)
next
  case (push_enter s t d s')
  then show ?case by (blast intro: push_enter_inv)
next
  case (push_resume s t d s')
  then show ?case by (blast intro: push_resume_inv)
next
  case (pop_enter s t s')
  then show ?case by (blast intro: pop_enter_inv)
next
  case (pop_resume s t s')
  then show ?case by (blast intro: pop_resume_inv)
next
  case (trypush s t d s')
  then show ?case by (blast intro: trypush_inv)
next
  case (trypop s t s')
  then show ?case by (blast intro: trypop_inv)
qed (auto simp: sys_inv_def counts_quiet counts_wake_all counts_wake_one simp del: fun_upd_apply)

lemma reachable_inv [apr_invar]: "reachable n s \<Longrightarrow> sys_inv n s"
proof (induction rule: reachable.induct)
  case (start null rv q)
  from apr_queue_create_ok [OF start] show ?case
    by (simp add: sys_inv_def counts_ok_def cnt_def fin_def)
qed (rule sys_step_inv)

section \<open>A run\<close>

text \<open>
  States of a queue with one place, for the instances of the properties: at the
  start, after thread 1 pushed 7, with thread 0 asleep in a pop, and terminated.
\<close>

definition run_queue :: "nat apr_queue" where
  "run_queue = \<lparr>q_data = [0], q_nelts = 0, q_in = 0, q_out = 0, q_bounds = 1,
     q_full_waiters = 0, q_empty_waiters = 0, q_terminated = False\<rparr>"

definition run_start :: "nat sys" where
  "run_start = \<lparr>queue = run_queue, pcs = (\<lambda>_. Idle), pushed = [], popped = [], answers = []\<rparr>"

definition run_pushed :: "nat sys" where
  "run_pushed = run_start\<lparr>queue := run_queue\<lparr>q_data := [7], q_nelts := 1\<rparr>, pushed := [7],
     answers := [(1, APR_SUCCESS)]\<rparr>"

definition run_asleep :: "nat sys" where
  "run_asleep = run_start\<lparr>queue := run_queue\<lparr>q_empty_waiters := 1\<rparr>, pcs := (\<lambda>_. Idle)(0 := PopAsleep)\<rparr>"

definition run_terminated :: "nat sys" where
  "run_terminated = run_start\<lparr>queue := run_queue\<lparr>q_terminated := True\<rparr>\<rparr>"

lemmas run_defs = run_start_def run_queue_def run_pushed_def run_asleep_def run_terminated_def

lemma reach_start: "reachable 1 run_start"
  using reachable.start [of 0 1 APR_SUCCESS run_queue] by (simp add: run_start_def run_queue_def apr_queue_create_def)

lemma reach_pushed: "reachable 1 run_pushed"
proof -
  have "apr_queue_trypush no_errors run_queue 7 =
      (run_queue\<lparr>q_data := [7], q_nelts := 1\<rparr>, False, Return APR_SUCCESS, Some 7)"
    by (simp add: run_queue_def apr_queue_trypush_def call_check_def apr_queue_full_def push_tail_def ring_put_def no_errors_def)
  moreover have "push_effect 1 7 (run_queue\<lparr>q_data := [7], q_nelts := 1\<rparr>, False, Return APR_SUCCESS, Some 7) run_start run_pushed"
    using push_effect.intros [of False run_start 1 7 "Return APR_SUCCESS" "pcs run_start"
        "run_queue\<lparr>q_data := [7], q_nelts := 1\<rparr>" "Some 7"]
    by (simp add: run_pushed_def run_start_def push_next_def answer_def fun_upd_def)
  ultimately have "sys_step run_start run_pushed"
    using sys_step.trypush [of run_start 1 7 run_pushed] by (simp add: run_start_def)
  then show ?thesis by (rule reachable.step [OF reach_start])
qed

lemma reach_asleep: "reachable 1 run_asleep"
proof -
  let ?s = "run_start\<lparr>pcs := (pcs run_start)(0 := PopCall)\<rparr>"
  have "sys_step run_start ?s"
    by (rule sys_step.pop_call) (simp_all add: run_start_def run_queue_def call_check_def)
  then have s: "reachable 1 ?s" by (rule reachable.step [OF reach_start])
  have "pop_enter no_errors run_queue = (run_queue\<lparr>q_empty_waiters := 1\<rparr>, False, Wait, None)"
    by (simp add: run_queue_def pop_enter_def apr_queue_empty_def no_errors_def)
  moreover have "pop_effect 0 (run_queue\<lparr>q_empty_waiters := 1\<rparr>, False, Wait, None) ?s run_asleep"
    using pop_effect.intros [of False ?s 0 Wait "(\<lambda>_. Idle)(0 := PopAsleep)" "run_queue\<lparr>q_empty_waiters := 1\<rparr>" None]
    by (simp add: run_asleep_def run_start_def pop_next_def answer_def)
  ultimately have "sys_step ?s run_asleep"
    using sys_step.pop_enter [of ?s 0 run_asleep] by (simp add: run_start_def)
  then show ?thesis by (rule reachable.step [OF s])
qed

lemma reach_terminated: "reachable 1 run_terminated"
proof -
  let ?s = "run_start\<lparr>queue := set_terminated (queue run_start), pcs := (pcs run_start)(0 := TermCall)\<rparr>"
  have "sys_step run_start ?s" by (rule sys_step.terminate) (simp add: run_start_def)
  then have s: "reachable 1 ?s" by (rule reachable.step [OF reach_start])
  have "wake \<circ> (pcs ?s)(0 := Idle) = pcs run_terminated"
    by (auto simp: run_terminated_def run_start_def fun_eq_iff)
  then have "run_terminated = ?s\<lparr>pcs := wake \<circ> (pcs ?s)(0 := Idle)\<rparr>"
    by (simp add: run_terminated_def run_start_def set_terminated_def)
  moreover have "sys_step ?s (?s\<lparr>pcs := wake \<circ> (pcs ?s)(0 := Idle)\<rparr>)"
    by (rule sys_step.terminate_broadcast) simp
  ultimately show ?thesis using reachable.step [OF s] by metis
qed

text \<open>Two outcomes of the never-waiting operations in terms of the sequence.\<close>

lemma trypush_outcome:
  assumes "queue_inv q"
  shows "case apr_queue_trypush r q d of (q', sig, out, got) \<Rightarrow>
      queue_inv q' \<and>
      (if q_terminated q then q' = q \<and> \<not> sig \<and> out = Return APR_EOF \<and> got = None
       else if lock_rv r \<noteq> APR_SUCCESS then q' = q \<and> \<not> sig \<and> out = Return (lock_rv r) \<and> got = None
       else if length (queue_list q) = q_bounds q then q' = q \<and> \<not> sig \<and> out = Return APR_EAGAIN \<and> got = None
       else queue_list q' = queue_list q @ [d] \<and> got = Some d \<and> sig = (0 < q_empty_waiters q) \<and>
            out = Return (if sig \<and> signal_rv r \<noteq> APR_SUCCESS then signal_rv r else unlock_rv r))"
  using assms ring.ok_put [OF assms] ring.seq_put [OF assms]
  by (simp add: apr_queue_trypush_def call_check_def push_tail_def apr_queue_full_def Let_def)

lemma trypop_outcome:
  assumes "queue_inv q"
  shows "case apr_queue_trypop r q of (q', sig, out, got) \<Rightarrow>
      queue_inv q' \<and>
      (if q_terminated q then q' = q \<and> \<not> sig \<and> out = Return APR_EOF \<and> got = None
       else if lock_rv r \<noteq> APR_SUCCESS then q' = q \<and> \<not> sig \<and> out = Return (lock_rv r) \<and> got = None
       else (case queue_list q of
               [] \<Rightarrow> q' = q \<and> \<not> sig \<and> out = Return APR_EAGAIN \<and> got = None
             | x # xs \<Rightarrow> queue_list q' = xs \<and> got = Some x \<and> sig = (0 < q_full_waiters q) \<and>
                 out = Return (if sig \<and> signal_rv r \<noteq> APR_SUCCESS then signal_rv r else unlock_rv r)))"
proof -
  obtain y q' where get: "ring_get q = (y, q')" by fastforce
  have empty: "apr_queue_empty q \<longleftrightarrow> queue_list q = []"
    using length_queue_list [of q] by (auto simp: apr_queue_empty_def simp del: length_queue_list)
  show ?thesis
    using assms ring.ok_get [OF assms _ get] ring.seq_get [OF assms _ get] get empty
    by (cases "queue_list q") (auto simp: apr_queue_trypop_def call_check_def pop_tail_def)
qed

section \<open>Properties\<close>

text \<open>
  C32. \<open>apr_queue_trypush\<close> and \<open>apr_queue_trypop\<close> on every branch, whatever the calls of the thread library
  return: refused with \<open>APR_EOF\<close> after termination, with the error of a mutex that cannot be locked, and with
  \<open>APR_EAGAIN\<close> on a full (empty) queue, leaving it as it was and signalling nobody; otherwise the element goes to the back
  (comes from the front) of the sequence the ring buffer stands for, across the wrap of both indices, the other side is
  signalled exactly when somebody waits there, and the status is that of the signal if there was one and it failed, else that
  of the unlocking. An error of these two calls is returned although the element was stored (taken).
\<close>

theorem apr_queue_try_operations:
  assumes "queue_inv q"
  shows "(case apr_queue_trypush r q d of (q', sig, out, got) \<Rightarrow>
      queue_inv q' \<and>
      (if q_terminated q then q' = q \<and> \<not> sig \<and> out = Return APR_EOF \<and> got = None
       else if lock_rv r \<noteq> APR_SUCCESS then q' = q \<and> \<not> sig \<and> out = Return (lock_rv r) \<and> got = None
       else if length (queue_list q) = q_bounds q then q' = q \<and> \<not> sig \<and> out = Return APR_EAGAIN \<and> got = None
       else queue_list q' = queue_list q @ [d] \<and> got = Some d \<and> sig = (0 < q_empty_waiters q) \<and>
            out = Return (if sig \<and> signal_rv r \<noteq> APR_SUCCESS then signal_rv r else unlock_rv r))) \<and>
    (case apr_queue_trypop r q of (q', sig, out, got) \<Rightarrow>
      queue_inv q' \<and>
      (if q_terminated q then q' = q \<and> \<not> sig \<and> out = Return APR_EOF \<and> got = None
       else if lock_rv r \<noteq> APR_SUCCESS then q' = q \<and> \<not> sig \<and> out = Return (lock_rv r) \<and> got = None
       else (case queue_list q of
               [] \<Rightarrow> q' = q \<and> \<not> sig \<and> out = Return APR_EAGAIN \<and> got = None
             | x # xs \<Rightarrow> queue_list q' = xs \<and> got = Some x \<and> sig = (0 < q_full_waiters q) \<and>
                 out = Return (if sig \<and> signal_rv r \<noteq> APR_SUCCESS then signal_rv r else unlock_rv r))))"
  by (rule conjI [OF trypush_outcome [OF assms] trypop_outcome [OF assms]])

lemma apr_queue_try_operations_witness:
  "queue_inv (queue run_pushed) \<and>
   (case apr_queue_trypush (no_errors\<lparr>lock_rv := APR_EINVAL\<rparr>) (queue run_pushed) 8 of (q', sig, out, got) \<Rightarrow>
      q' = queue run_pushed \<and> out = Return APR_EINVAL) \<and>
   (case apr_queue_trypop (no_errors\<lparr>unlock_rv := APR_EINVAL\<rparr>) (queue run_pushed) of (q', sig, out, got) \<Rightarrow>
      queue_list q' = [] \<and> out = Return APR_EINVAL \<and> got = Some 7)"
proof -
  have inv: "queue_inv (queue run_pushed)" by (simp add: run_defs queue_inv_def)
  have q: "queue_list (queue run_pushed) = [7]" "\<not> q_terminated (queue run_pushed)" "q_full_waiters (queue run_pushed) = 0"
    by (simp_all add: run_defs queue_list_def)
  have "APR_EINVAL \<noteq> APR_SUCCESS" by simp
  then show ?thesis
    using apr_queue_try_operations [OF inv, of "no_errors\<lparr>lock_rv := APR_EINVAL\<rparr>" 8]
      apr_queue_try_operations [OF inv, of "no_errors\<lparr>unlock_rv := APR_EINVAL\<rparr>" 8] inv q by auto
qed

text \<open>
  C3. The queue is a FIFO under every schedule of its threads: in each reachable
  state of any number of threads that push, pop, try, interrupt and terminate,
  the elements loaded so far followed by those in the ring buffer are the
  elements stored so far, in that order, and there are never more than the
  capacity in the buffer.
\<close>

theorem apr_queue_fifo:
  assumes "reachable n s"
  shows "pushed s = popped s @ queue_list (queue s) \<and> length (queue_list (queue s)) \<le> n"
  using sys_invD [OF reachable_inv [OF assms]] by (auto simp: queue_inv_def)

lemma apr_queue_fifo_witness:
  "reachable 1 run_pushed \<and> [7] = [] @ queue_list (queue run_pushed)"
  using reach_pushed apr_queue_fifo [OF reach_pushed] by (simp add: run_pushed_def run_start_def)

text \<open>
  C6. No lost wake-up: while a thread sleeps in \<open>apr_queue_pop\<close> there are at
  least as many threads already woken and on their way to pop as there are elements
  in the queue; dually for sleepers in \<open>apr_queue_push\<close> and free places. In
  particular a thread never sleeps next to an element (a place) that nobody was woken for.
\<close>

theorem apr_queue_no_lost_wakeup:
  assumes "reachable n s"
  shows "(pcs s t = PopAsleep \<longrightarrow> length (queue_list (queue s)) \<le> card {u. pcs s u = PopWoken}) \<and>
    (pcs s t = PushAsleep d \<longrightarrow> n - length (queue_list (queue s)) \<le> card {u. \<exists>d. pcs s u = PushWoken d})"
proof -
  note I = sys_invD [OF reachable_inv [OF assms]] and C = counts_okD [OF sys_invD(4) [OF reachable_inv [OF assms]]]
  have "pop_woken x \<longleftrightarrow> x = PopWoken" "push_woken x \<longleftrightarrow> (\<exists>d. x = PushWoken d)" for x :: "'a pc"
    by (cases x; simp)+
  then have "cnt pop_woken (pcs s) = card {u. pcs s u = PopWoken}"
    "cnt push_woken (pcs s) = card {u. \<exists>d. pcs s u = PushWoken d}"
    by (simp_all add: cnt_def)
  moreover have "0 < cnt pop_asleep (pcs s)" if "pcs s t = PopAsleep"
    using that cnt_pos [OF I(5), of pop_asleep] by (metis gr0I pop_asleep.simps(1) pop_asleep.simps(2))
  moreover have "0 < cnt push_asleep (pcs s)" if "pcs s t = PushAsleep d"
    using that cnt_pos [OF I(5), of push_asleep] by (metis gr0I push_asleep.simps(1) push_asleep.simps(2))
  ultimately show ?thesis
    using C(4,5) I(2) by auto
qed

lemma apr_queue_no_lost_wakeup_witness:
  "reachable 1 run_asleep \<and> pcs run_asleep 0 = PopAsleep \<and> length (queue_list (queue run_asleep)) \<le> 0"
proof -
  have "pcs run_asleep u \<noteq> PopWoken" for u by (simp add: run_asleep_def)
  moreover have "pcs run_asleep 0 = PopAsleep" by (simp add: run_asleep_def)
  ultimately show ?thesis
    using reach_asleep apr_queue_no_lost_wakeup [OF reach_asleep, of 0] by simp
qed

text \<open>
  Termination wakes everybody for good: once the queue is terminated and no
  thread is still between setting the flag and the broadcast, no thread sleeps
  on either condition variable, in no state that can be reached afterwards
  either.
\<close>

theorem apr_queue_term_wakes_all:
  assumes "reachable n s" "q_terminated (queue s)" "\<forall>t. pcs s t \<noteq> TermCall"
  shows "pcs s t \<noteq> PopAsleep \<and> pcs s t \<noteq> PushAsleep d"
proof -
  note I = sys_invD [OF reachable_inv [OF assms(1)]] and C = counts_okD [OF sys_invD(4) [OF reachable_inv [OF assms(1)]]]
  have "terminating x \<longleftrightarrow> x = TermCall" for x :: "'a pc" by (cases x) auto
  then have "cnt terminating (pcs s) = 0" using assms(3) by (simp add: cnt_def)
  then have "cnt push_asleep (pcs s) = 0" "cnt pop_asleep (pcs s) = 0"
    using C(6) assms(2) by auto
  then have "\<not> push_asleep (pcs s t)" "\<not> pop_asleep (pcs s t)"
    using cnt_pos [OF I(5), of push_asleep] cnt_pos [OF I(5), of pop_asleep] by simp_all
  then show ?thesis by (cases "pcs s t") auto
qed

lemma apr_queue_term_wakes_all_witness:
  "reachable 1 run_terminated \<and> q_terminated (queue run_terminated) \<and>
   pcs run_terminated 0 \<noteq> PopAsleep \<and> pcs run_terminated 0 \<noteq> PushAsleep 5"
  using reach_terminated apr_queue_term_wakes_all [OF reach_terminated, of 0 5]
  by (simp add: run_terminated_def run_start_def run_queue_def)

text \<open>
  A pop that slept can return \<open>APR_EINTR\<close> although nobody interrupted the
  queue: it waits once only, so when another pop takes the element between the
  signal and its wake-up it finds the queue empty and gives up. The comment in
  \<open>apr_queue_pop\<close> says that it keeps waiting, and the header that the value
  means an interruption.
\<close>

theorem apr_queue_pop_stolen_wakeup:
  "\<exists>q1 q2 q3 q4. pop_enter no_errors run_queue = (q1, False, Wait, None) \<and>
     apr_queue_trypush no_errors q1 7 = (q2, True, Return APR_SUCCESS, Some 7) \<and>
     apr_queue_trypop no_errors q2 = (q3, False, Return APR_SUCCESS, Some 7) \<and>
     pop_resume no_errors q3 = (q4, False, Interrupted, None) \<and>
     after_interrupt q4 = APR_EINTR"
proof -
  let ?q1 = "run_queue\<lparr>q_empty_waiters := 1\<rparr>"
  let ?q2 = "?q1\<lparr>q_data := [7], q_nelts := 1\<rparr>"
  let ?q3 = "?q1\<lparr>q_data := [7]\<rparr>"
  let ?q4 = "?q3\<lparr>q_empty_waiters := 0\<rparr>"
  note defs = run_queue_def no_errors_def apr_queue_full_def apr_queue_empty_def call_check_def
  have "pop_enter no_errors run_queue = (?q1, False, Wait, None)"
    by (simp add: defs pop_enter_def)
  moreover have "apr_queue_trypush no_errors ?q1 7 = (?q2, True, Return APR_SUCCESS, Some 7)"
    by (simp add: defs apr_queue_trypush_def push_tail_def ring_put_def)
  moreover have "ring_get ?q2 = (7, ?q3)" by (simp add: run_queue_def ring_get_def)
  then have "apr_queue_trypop no_errors ?q2 = (?q3, False, Return APR_SUCCESS, Some 7)"
    by (simp add: apr_queue_trypop_def pop_tail_def apr_queue_empty_def call_check_def no_errors_def run_queue_def)
  moreover have "pop_resume no_errors ?q3 = (?q4, False, Interrupted, None)"
    by (simp add: defs pop_resume_def give_up_def)
  moreover have "after_interrupt ?q4 = APR_EINTR" by (simp add: defs after_interrupt_def)
  ultimately show ?thesis by blast
qed

end
