(* ===== verification/Apu_Buckets.thy ===== *)
theory Apu_Buckets
  imports Apr_Prelude "HOL-Library.Multiset"
begin

text \<open>
  The buckets of \<open>srclib/apr-util/buckets/\<close>: immortal and transient buckets
  (\<open>apr_buckets_simple.c\<close>), heap buckets (\<open>apr_buckets_heap.c\<close>), pool buckets
  (\<open>apr_buckets_pool.c\<close>), the reference counting the last two share
  (\<open>apr_buckets_refcount.c\<close>), pipe buckets (\<open>apr_buckets_pipe.c\<close>) and the two
  metadata types (\<open>apr_buckets_eos.c\<close>, \<open>apr_buckets_flush.c\<close>), with the
  dispatch through the type's function table.

  A bucket is a value; the memory it shares with others, a counted buffer, is
  an object of an explicit store, so that splitting and copying alias as in the
  code. A multiset holds all buckets alive; the invariant says that the counts
  are exact and that every bucket's window lies inside its buffer.

  Proved: reading, splitting, copying, setting aside and destroying keep the
  invariant, leave the bytes of every other bucket alone, and read, cut and
  duplicate the bytes a bucket stands for; a buffer is freed with its last
  bucket and never before.
\<close>

section \<open>Data\<close>

datatype bucket_type = IMMORTAL | TRANSIENT | HEAP | POOL | PIPE | EOS | FLUSH

text \<open>
  What \<open>b->data\<close> points to: nothing, memory of the caller, a counted object
  (\<open>apr_bucket_heap\<close> or \<open>apr_bucket_pool\<close>) or an open pipe.
\<close>

datatype bucket_data = Null | Mem "char list" | Shared nat | PipeOf nat

record apr_bucket =
  b_type :: bucket_type
  b_length :: nat
  b_start :: int
  b_data :: bucket_data

fun mem_of :: "bucket_data \<Rightarrow> char list" where
  "mem_of (Mem s) = s"
| "mem_of _ = []"

fun addr_of :: "bucket_data \<Rightarrow> nat" where
  "addr_of (Shared a) = a"
| "addr_of _ = 0"

fun pipe_of :: "bucket_data \<Rightarrow> nat" where
  "pipe_of (PipeOf p) = p"
| "pipe_of _ = 0"

text \<open>
  \<open>apr_bucket_pool\<close> begins with an \<open>apr_bucket_heap\<close>, so both are one record:
  \<open>pool\<close> and \<open>pool_base\<close> are the fields behind the embedded heap object, and
  \<open>pool\<close> is \<open>None\<close> for a plain heap object and once the pool is gone.
\<close>

record shared =
  refcount :: nat
  alloc_len :: nat
  heap_base :: "char list"
  pool :: "nat option"
  pool_base :: "char list"

text \<open>
  The memory the buckets use, and for each pipe what the reads to come will
  return and whether it was closed.
\<close>

record bmem =
  objs :: "nat \<Rightarrow> shared option"
  fresh :: nat
  pipe_results :: "nat \<Rightarrow> (apr_status \<times> char list) list"
  pipe_closed :: "nat \<Rightarrow> bool"

definition APR_BUCKET_BUFF_SIZE :: nat where
  "APR_BUCKET_BUFF_SIZE = 8000"

text \<open>\<open>(apr_size_t)(-1)\<close>, the length of a bucket that has to be read first.\<close>

definition APR_SIZE_MAX :: nat where
  "APR_SIZE_MAX = 2 ^ 64 - 1"

text \<open>The \<open>len\<close> bytes at \<open>base + start\<close>.\<close>

definition slice :: "int \<Rightarrow> nat \<Rightarrow> char list \<Rightarrow> char list" where
  "slice start len base = take len (drop (nat start) base)"

definition the_obj :: "bmem \<Rightarrow> nat \<Rightarrow> shared" where
  "the_obj st a = the (objs st a)"

definition put_obj :: "nat \<Rightarrow> shared \<Rightarrow> bmem \<Rightarrow> bmem" where
  "put_obj a h st = st\<lparr>objs := (objs st)(a \<mapsto> h)\<rparr>"

definition free_obj :: "nat \<Rightarrow> bmem \<Rightarrow> bmem" where
  "free_obj a st = st\<lparr>objs := (objs st)(a := None)\<rparr>"

section \<open>Immortal and transient buckets\<close>

definition apr_bucket_immortal_make :: "apr_bucket \<Rightarrow> char list \<Rightarrow> nat \<Rightarrow> apr_bucket" where
  "apr_bucket_immortal_make b buf len = b\<lparr>b_data := Mem buf, b_length := len, b_start := 0, b_type := IMMORTAL\<rparr>"

definition apr_bucket_transient_make :: "apr_bucket \<Rightarrow> char list \<Rightarrow> nat \<Rightarrow> apr_bucket" where
  "apr_bucket_transient_make b buf len = b\<lparr>b_data := Mem buf, b_length := len, b_start := 0, b_type := TRANSIENT\<rparr>"

text \<open>A bucket fresh from the allocator; every \<open>make\<close> sets all its fields.\<close>

definition new_bucket :: apr_bucket where
  "new_bucket = \<lparr>b_type = EOS, b_length = 0, b_start = 0, b_data = Null\<rparr>"

definition apr_bucket_immortal_create :: "char list \<Rightarrow> nat \<Rightarrow> apr_bucket" where
  "apr_bucket_immortal_create buf len = apr_bucket_immortal_make new_bucket buf len"

definition apr_bucket_transient_create :: "char list \<Rightarrow> nat \<Rightarrow> apr_bucket" where
  "apr_bucket_transient_create buf len = apr_bucket_transient_make new_bucket buf len"

definition apr_bucket_simple_copy :: "apr_bucket \<Rightarrow> apr_status \<times> apr_bucket" where
  "apr_bucket_simple_copy a = (APR_SUCCESS, a)"

text \<open>The bucket is followed by the second half, \<open>APR_BUCKET_INSERT_AFTER(a, b)\<close>.\<close>

definition apr_bucket_simple_split :: "apr_bucket \<Rightarrow> nat \<Rightarrow> apr_status \<times> apr_bucket list" where
  "apr_bucket_simple_split a point =
     (if point > b_length a then (APR_EINVAL, [a])
      else (let b = snd (apr_bucket_simple_copy a)
            in (APR_SUCCESS, [a\<lparr>b_length := point\<rparr>,
                 b\<lparr>b_length := b_length b - point, b_start := b_start b + int point\<rparr>])))"

definition simple_bucket_read :: "apr_bucket \<Rightarrow> apr_status \<times> char list" where
  "simple_bucket_read b = (APR_SUCCESS, slice (b_start b) (b_length b) (mem_of (b_data b)))"

section \<open>Reference counts\<close>

definition add_ref :: "nat \<Rightarrow> bmem \<Rightarrow> bmem" where
  "add_ref a st = (let r = the_obj st a in put_obj a (r\<lparr>refcount := refcount r + 1\<rparr>) st)"

definition apr_bucket_shared_split :: "bmem \<Rightarrow> apr_bucket \<Rightarrow> nat \<Rightarrow> apr_status \<times> bmem \<times> apr_bucket list" where
  "apr_bucket_shared_split st a point =
     (case apr_bucket_simple_split a point of (rv, bs) \<Rightarrow>
        if rv \<noteq> APR_SUCCESS then (rv, st, bs)
        else (APR_SUCCESS, add_ref (addr_of (b_data a)) st, bs))"

definition apr_bucket_shared_copy :: "bmem \<Rightarrow> apr_bucket \<Rightarrow> apr_status \<times> bmem \<times> apr_bucket" where
  "apr_bucket_shared_copy st a =
     (APR_SUCCESS, add_ref (addr_of (b_data a)) st, snd (apr_bucket_simple_copy a))"

definition apr_bucket_shared_destroy :: "bmem \<Rightarrow> nat \<Rightarrow> bool \<times> bmem" where
  "apr_bucket_shared_destroy st a =
     (let r = the_obj st a; r = r\<lparr>refcount := refcount r - 1\<rparr>
      in (refcount r = 0, put_obj a r st))"

definition apr_bucket_shared_make ::
    "bmem \<Rightarrow> apr_bucket \<Rightarrow> nat \<Rightarrow> int \<Rightarrow> nat \<Rightarrow> bmem \<times> apr_bucket" where
  "apr_bucket_shared_make st b a start len =
     (put_obj a ((the_obj st a)\<lparr>refcount := 1\<rparr>) st,
      b\<lparr>b_data := Shared a, b_start := start, b_length := len\<rparr>)"

section \<open>Heap buckets\<close>

definition heap_bucket_read :: "bmem \<Rightarrow> apr_bucket \<Rightarrow> apr_status \<times> char list" where
  "heap_bucket_read st b =
     (APR_SUCCESS, slice (b_start b) (b_length b) (heap_base (the_obj st (addr_of (b_data b)))))"

definition heap_bucket_destroy :: "bmem \<Rightarrow> apr_bucket \<Rightarrow> bmem" where
  "heap_bucket_destroy st b =
     (case apr_bucket_shared_destroy st (addr_of (b_data b)) of (dead, st) \<Rightarrow>
        if dead then free_obj (addr_of (b_data b)) st else st)"

text \<open>
  \<open>own\<close>: a \<open>free_func\<close> is given, so the bucket takes the whole block over;
  otherwise the \<open>length\<close> bytes are copied, which fails when there is no \<open>memory\<close>
  for them.
\<close>

definition apr_bucket_heap_make ::
    "bool \<Rightarrow> bmem \<Rightarrow> apr_bucket \<Rightarrow> char list \<Rightarrow> nat \<Rightarrow> bool \<Rightarrow> bmem \<times> apr_bucket option" where
  "apr_bucket_heap_make memory st b buf len own =
     (let a = fresh st; st' = st\<lparr>fresh := a + 1\<rparr>
      in if \<not> own \<and> \<not> memory then (st, None)
         else let h = \<lparr>refcount = 0, alloc_len = len, heap_base = (if own then buf else take len buf),
                       pool = None, pool_base = []\<rparr>
              in case apr_bucket_shared_make (put_obj a h st') b a 0 len of (st'', b') \<Rightarrow>
                   (st'', Some (b'\<lparr>b_type := HEAP\<rparr>)))"

definition apr_bucket_heap_create :: "bmem \<Rightarrow> char list \<Rightarrow> nat \<Rightarrow> bool \<Rightarrow> bmem \<times> apr_bucket" where
  "apr_bucket_heap_create st buf len own =
     (case apr_bucket_heap_make True st new_bucket buf len own of (st, b) \<Rightarrow> (st, the b))"

definition transient_bucket_setaside :: "bool \<Rightarrow> bmem \<Rightarrow> apr_bucket \<Rightarrow> apr_status \<times> bmem \<times> apr_bucket" where
  "transient_bucket_setaside memory st b =
     (case apr_bucket_heap_make memory st b (drop (nat (b_start b)) (mem_of (b_data b))) (b_length b) False of
        (st, None) \<Rightarrow> (APR_ENOMEM, st, b)
      | (st, Some b) \<Rightarrow> (APR_SUCCESS, st, b))"

section \<open>Pool buckets\<close>

definition pool_bucket_cleanup :: "shared \<Rightarrow> shared" where
  "pool_bucket_cleanup p = p\<lparr>heap_base := take (alloc_len p) (pool_base p), pool_base := [], pool := None\<rparr>"

text \<open>Destroying pool \<open>i\<close> runs the cleanups registered with it, one per object.\<close>

definition destroy_pool :: "nat \<Rightarrow> bmem \<Rightarrow> bmem" where
  "destroy_pool i st =
     st\<lparr>objs := (\<lambda>a. map_option (\<lambda>p. if pool p = Some i then pool_bucket_cleanup p else p) (objs st a))\<rparr>"

definition pool_bucket_read :: "bmem \<Rightarrow> apr_bucket \<Rightarrow> apr_status \<times> char list \<times> apr_bucket" where
  "pool_bucket_read st b =
     (let p = the_obj st (addr_of (b_data b))
      in if pool p = None
         then (APR_SUCCESS, slice (b_start b) (b_length b) (heap_base p), b\<lparr>b_type := HEAP\<rparr>)
         else (APR_SUCCESS, slice (b_start b) (b_length b) (pool_base p), b))"

definition pool_bucket_destroy :: "bmem \<Rightarrow> apr_bucket \<Rightarrow> bmem" where
  "pool_bucket_destroy st b =
     (if pool (the_obj st (addr_of (b_data b))) \<noteq> None then
        (case apr_bucket_shared_destroy st (addr_of (b_data b)) of (dead, st) \<Rightarrow>
           if dead then free_obj (addr_of (b_data b)) st else st)
      else heap_bucket_destroy st b)"

definition apr_bucket_pool_make ::
    "bmem \<Rightarrow> apr_bucket \<Rightarrow> char list \<Rightarrow> nat \<Rightarrow> nat \<Rightarrow> bmem \<times> apr_bucket" where
  "apr_bucket_pool_make st b buf len i =
     (let a = fresh st;
          p = \<lparr>refcount = 0, alloc_len = len, heap_base = [], pool = Some i, pool_base = buf\<rparr>
      in case apr_bucket_shared_make (put_obj a p (st\<lparr>fresh := a + 1\<rparr>)) b a 0 len of (st', b') \<Rightarrow>
           (st', b'\<lparr>b_type := POOL\<rparr>))"

definition apr_bucket_pool_create :: "bmem \<Rightarrow> char list \<Rightarrow> nat \<Rightarrow> nat \<Rightarrow> bmem \<times> apr_bucket" where
  "apr_bucket_pool_create st buf len i = apr_bucket_pool_make st new_bucket buf len i"

section \<open>Metadata and pipe buckets\<close>

definition apr_bucket_eos_create :: apr_bucket where
  "apr_bucket_eos_create = new_bucket\<lparr>b_length := 0, b_start := 0, b_data := Null, b_type := EOS\<rparr>"

definition apr_bucket_flush_create :: apr_bucket where
  "apr_bucket_flush_create = new_bucket\<lparr>b_length := 0, b_start := 0, b_data := Null, b_type := FLUSH\<rparr>"

definition eos_bucket_read :: "apr_status \<times> char list" where
  "eos_bucket_read = (APR_SUCCESS, [])"

definition flush_bucket_read :: "apr_status \<times> char list" where
  "flush_bucket_read = (APR_SUCCESS, [])"

definition apr_bucket_pipe_make :: "apr_bucket \<Rightarrow> nat \<Rightarrow> apr_bucket" where
  "apr_bucket_pipe_make b p = b\<lparr>b_type := PIPE, b_length := APR_SIZE_MAX, b_start := -1, b_data := PipeOf p\<rparr>"

definition apr_bucket_pipe_create :: "nat \<Rightarrow> apr_bucket" where
  "apr_bucket_pipe_create p = apr_bucket_pipe_make new_bucket p"

text \<open>
  The next result of \<open>apr_file_read\<close> on the pipe for at most \<open>n\<close> bytes; a pipe
  with nothing left reports the end.
\<close>

definition pipe_read :: "bmem \<Rightarrow> nat \<Rightarrow> nat \<Rightarrow> apr_status \<times> char list \<times> bmem" where
  "pipe_read st p n =
     (case pipe_results st p of
        [] \<Rightarrow> (APR_EOF, [], st)
      | (rv, s) # later \<Rightarrow> (rv, take n s, st\<lparr>pipe_results := (pipe_results st)(p := later)\<rparr>))"

text \<open>
  What was read becomes a heap bucket with the buffer's real size, followed by
  a new bucket for the rest of the pipe. \<open>junk\<close> fills the unread part of the buffer.
\<close>

definition junk :: char where
  "junk = CHR 0x00"

definition pipe_bucket_read :: "bmem \<Rightarrow> apr_bucket \<Rightarrow> apr_status \<times> char list \<times> bmem \<times> apr_bucket list" where
  "pipe_bucket_read st a =
     (let p = pipe_of (b_data a)
      in case pipe_read st p APR_BUCKET_BUFF_SIZE of (rv, s, st) \<Rightarrow>
        if rv \<noteq> APR_SUCCESS \<and> rv \<noteq> APR_EOF then (rv, [], st, [a])
        else if length s > 0 then
          (let buf = s @ replicate (APR_BUCKET_BUFF_SIZE - length s) junk
           in case apr_bucket_heap_make True st a buf (length s) True of (st, h) \<Rightarrow>
             let x = addr_of (b_data (the h));
                 st = put_obj x ((the_obj st x)\<lparr>alloc_len := APR_BUCKET_BUFF_SIZE\<rparr>) st
             in (APR_SUCCESS, s, st, [the h, apr_bucket_pipe_create p]))
        else
          (let st = (if rv = APR_EOF then st\<lparr>pipe_closed := (pipe_closed st)(p := True)\<rparr> else st)
           in (APR_SUCCESS, [], st, [apr_bucket_immortal_make a [] 0])))"

section \<open>Dispatch\<close>

text \<open>
  The function tables of the types. The result of a read or split is the
  status, (the bytes read,) the memory and what stands in the bucket's place.
\<close>

definition apr_bucket_read :: "bmem \<Rightarrow> apr_bucket \<Rightarrow> apr_status \<times> char list \<times> bmem \<times> apr_bucket list" where
  "apr_bucket_read st b =
     (case b_type b of
        IMMORTAL \<Rightarrow> (case simple_bucket_read b of (rv, s) \<Rightarrow> (rv, s, st, [b]))
      | TRANSIENT \<Rightarrow> (case simple_bucket_read b of (rv, s) \<Rightarrow> (rv, s, st, [b]))
      | HEAP \<Rightarrow> (case heap_bucket_read st b of (rv, s) \<Rightarrow> (rv, s, st, [b]))
      | POOL \<Rightarrow> (case pool_bucket_read st b of (rv, s, b) \<Rightarrow> (rv, s, st, [b]))
      | PIPE \<Rightarrow> pipe_bucket_read st b
      | EOS \<Rightarrow> (case eos_bucket_read of (rv, s) \<Rightarrow> (rv, s, st, [b]))
      | FLUSH \<Rightarrow> (case flush_bucket_read of (rv, s) \<Rightarrow> (rv, s, st, [b])))"

definition apr_bucket_split :: "bmem \<Rightarrow> apr_bucket \<Rightarrow> nat \<Rightarrow> apr_status \<times> bmem \<times> apr_bucket list" where
  "apr_bucket_split st b point =
     (case b_type b of
        IMMORTAL \<Rightarrow> (case apr_bucket_simple_split b point of (rv, bs) \<Rightarrow> (rv, st, bs))
      | TRANSIENT \<Rightarrow> (case apr_bucket_simple_split b point of (rv, bs) \<Rightarrow> (rv, st, bs))
      | HEAP \<Rightarrow> apr_bucket_shared_split st b point
      | POOL \<Rightarrow> apr_bucket_shared_split st b point
      | PIPE \<Rightarrow> (APR_ENOTIMPL, st, [b])
      | EOS \<Rightarrow> (APR_ENOTIMPL, st, [b])
      | FLUSH \<Rightarrow> (APR_ENOTIMPL, st, [b]))"

definition apr_bucket_copy :: "bmem \<Rightarrow> apr_bucket \<Rightarrow> apr_status \<times> bmem \<times> apr_bucket option" where
  "apr_bucket_copy st b =
     (case b_type b of
        HEAP \<Rightarrow> (case apr_bucket_shared_copy st b of (rv, st, c) \<Rightarrow> (rv, st, Some c))
      | POOL \<Rightarrow> (case apr_bucket_shared_copy st b of (rv, st, c) \<Rightarrow> (rv, st, Some c))
      | PIPE \<Rightarrow> (APR_ENOTIMPL, st, None)
      | _ \<Rightarrow> (case apr_bucket_simple_copy b of (rv, c) \<Rightarrow> (rv, st, Some c)))"

definition apr_bucket_setaside :: "bool \<Rightarrow> bmem \<Rightarrow> apr_bucket \<Rightarrow> apr_status \<times> bmem \<times> apr_bucket" where
  "apr_bucket_setaside memory st b =
     (case b_type b of
        TRANSIENT \<Rightarrow> transient_bucket_setaside memory st b
      | PIPE \<Rightarrow> (APR_ENOTIMPL, st, b)
      | _ \<Rightarrow> (APR_SUCCESS, st, b))"

definition apr_bucket_destroy :: "bmem \<Rightarrow> apr_bucket \<Rightarrow> bmem" where
  "apr_bucket_destroy st b =
     (case b_type b of
        HEAP \<Rightarrow> heap_bucket_destroy st b
      | POOL \<Rightarrow> pool_bucket_destroy st b
      | _ \<Rightarrow> st)"

definition APR_BUCKET_IS_METADATA :: "apr_bucket \<Rightarrow> bool" where
  "APR_BUCKET_IS_METADATA b \<longleftrightarrow> b_type b = EOS \<or> b_type b = FLUSH"

section \<open>What a bucket stands for\<close>

text \<open>
  The bytes a pipe will still deliver: failed reads deliver nothing and the
  first empty successful read is the end.
\<close>

fun pipe_stream :: "(apr_status \<times> char list) list \<Rightarrow> char list" where
  "pipe_stream [] = []"
| "pipe_stream ((rv, s) # later) =
     (if rv \<noteq> APR_SUCCESS \<and> rv \<noteq> APR_EOF then pipe_stream later
      else if s = [] then []
      else take APR_BUCKET_BUFF_SIZE s @ pipe_stream later)"

definition obj_data :: "shared \<Rightarrow> char list" where
  "obj_data h = (if pool h = None then heap_base h else pool_base h)"

definition bytes :: "bmem \<Rightarrow> apr_bucket \<Rightarrow> char list" where
  "bytes st b =
     (case b_data b of
        Null \<Rightarrow> []
      | Mem s \<Rightarrow> slice (b_start b) (b_length b) s
      | Shared a \<Rightarrow> slice (b_start b) (b_length b) (obj_data (the_obj st a))
      | PipeOf p \<Rightarrow> pipe_stream (pipe_results st p))"

text \<open>A bucket has the data its type wants, and its window lies inside the buffer.\<close>

definition bucket_ok :: "bmem \<Rightarrow> apr_bucket \<Rightarrow> bool" where
  "bucket_ok st b =
     (case b_data b of
        Null \<Rightarrow> b_type b \<in> {EOS, FLUSH} \<and> b_length b = 0
      | Mem s \<Rightarrow> b_type b \<in> {IMMORTAL, TRANSIENT} \<and> 0 \<le> b_start b \<and>
          nat (b_start b) + b_length b \<le> length s \<and> b_length b < APR_SIZE_MAX
      | Shared a \<Rightarrow> b_type b \<in> {HEAP, POOL} \<and> objs st a \<noteq> None \<and> 0 \<le> b_start b \<and>
          nat (b_start b) + b_length b \<le> alloc_len (the_obj st a) \<and> b_length b < APR_SIZE_MAX \<and>
          (b_type b = HEAP \<longrightarrow> pool (the_obj st a) = None)
      | PipeOf p \<Rightarrow> b_type b = PIPE \<and> b_length b = APR_SIZE_MAX)"

definition refs :: "nat \<Rightarrow> apr_bucket multiset \<Rightarrow> nat" where
  "refs a B = size {#b \<in># B. b_data b = Shared a#}"

definition readers :: "nat \<Rightarrow> apr_bucket multiset \<Rightarrow> nat" where
  "readers p B = size {#b \<in># B. b_data b = PipeOf p#}"

text \<open>
  The invariant of the memory with the buckets alive \<open>B\<close>: every object is as
  large as it claims, is referenced, and counts its references; a pipe is read
  by one bucket at most.
\<close>

definition mem_inv :: "bmem \<Rightarrow> apr_bucket multiset \<Rightarrow> bool" where
  "mem_inv st B \<longleftrightarrow>
     (\<forall>b \<in># B. bucket_ok st b) \<and>
     (\<forall>a h. objs st a = Some h \<longrightarrow>
        alloc_len h \<le> length (obj_data h) \<and> refcount h = refs a B \<and> 0 < refs a B \<and> a < fresh st \<and>
        alloc_len h < APR_SIZE_MAX) \<and>
     (\<forall>p. readers p B \<le> 1)"

text \<open>The bytes of the buckets \<open>B\<close> are untouched.\<close>

definition untouched :: "bmem \<Rightarrow> apr_bucket multiset \<Rightarrow> bmem \<Rightarrow> bool" where
  "untouched st B st' \<longleftrightarrow> (\<forall>b \<in># B. bytes st' b = bytes st b)"

lemma refs_simps [simp]:
  "refs a {#} = 0"
  "refs a (add_mset b B) = (if b_data b = Shared a then 1 else 0) + refs a B"
  "refs a (B + C) = refs a B + refs a C"
  by (simp_all add: refs_def)

lemma readers_simps [simp]:
  "readers p {#} = 0"
  "readers p (add_mset b B) = (if b_data b = PipeOf p then 1 else 0) + readers p B"
  "readers p (B + C) = readers p B + readers p C"
  by (simp_all add: readers_def)

lemma refs_pos: "b \<in># B \<Longrightarrow> b_data b = Shared a \<Longrightarrow> 0 < refs a B"
  by (auto dest: multi_member_split)

lemma readers_pos: "b \<in># B \<Longrightarrow> b_data b = PipeOf p \<Longrightarrow> 0 < readers p B"
  by (auto dest: multi_member_split)

lemma untouched_refl [simp]: "untouched st B st"
  by (simp add: untouched_def)

lemma untouched_trans: "untouched st B st' \<Longrightarrow> untouched st' B st'' \<Longrightarrow> untouched st B st''"
  by (simp add: untouched_def)

lemma untouched_union [simp]: "untouched st (B + C) st' \<longleftrightarrow> untouched st B st' \<and> untouched st C st'"
  by (auto simp: untouched_def)

lemma untouched_add [simp]: "untouched st (add_mset b C) st' \<longleftrightarrow> bytes st' b = bytes st b \<and> untouched st C st'"
  by (auto simp: untouched_def)

lemma mem_invD:
  assumes "mem_inv st B"
  shows "b \<in># B \<Longrightarrow> bucket_ok st b"
    "objs st a = Some h \<Longrightarrow> alloc_len h \<le> length (obj_data h) \<and> refcount h = refs a B \<and> 0 < refs a B \<and>
      a < fresh st \<and> alloc_len h < APR_SIZE_MAX"
    "readers p B \<le> 1" "fresh st \<le> a \<Longrightarrow> objs st a = None"
proof -
  show "b \<in># B \<Longrightarrow> bucket_ok st b" "readers p B \<le> 1"
    "objs st a = Some h \<Longrightarrow> alloc_len h \<le> length (obj_data h) \<and> refcount h = refs a B \<and> 0 < refs a B \<and>
      a < fresh st \<and> alloc_len h < APR_SIZE_MAX"
    using assms by (simp_all add: mem_inv_def)
  show "objs st a = None" if "fresh st \<le> a"
    using assms that unfolding mem_inv_def by (metis not_None_eq not_less)
qed

lemma length_slice: "nat i + n \<le> length s \<Longrightarrow> length (slice i n s) = n"
  by (simp add: slice_def)

lemma bytes_length:
  assumes "mem_inv st B" "b \<in># B" "b_type b \<noteq> PIPE"
  shows "length (bytes st b) = b_length b"
proof (cases "b_data b")
  case (Shared a)
  have ok: "bucket_ok st b" using mem_invD(1) [OF assms(1,2)] .
  then obtain h where h: "objs st a = Some h" using Shared by (auto simp: bucket_ok_def)
  then show ?thesis
    using ok mem_invD(2) [OF assms(1) h] Shared
    by (auto simp: bucket_ok_def bytes_def the_obj_def intro!: length_slice)
qed (use mem_invD(1) [OF assms(1,2)] assms(3) in \<open>auto simp: bytes_def bucket_ok_def intro: length_slice\<close>)

section \<open>Changing one object\<close>

lemma store_simps [simp]:
  "objs (put_obj a h st) = (objs st)(a \<mapsto> h)" "fresh (put_obj a h st) = fresh st"
  "pipe_results (put_obj a h st) = pipe_results st"
  "objs (free_obj a st) = (objs st)(a := None)" "fresh (free_obj a st) = fresh st"
  "pipe_results (free_obj a st) = pipe_results st"
  by (simp_all add: put_obj_def free_obj_def)

lemma the_obj_simps:
  "the_obj (put_obj a h st) x = (if x = a then h else the_obj st x)"
  "x \<noteq> a \<Longrightarrow> the_obj (free_obj a st) x = the_obj st x"
  by (simp_all add: the_obj_def)

text \<open>Two memories in which a bucket's data is the same up to the counts.\<close>

lemma same_bucket:
  assumes "\<And>a. b_data b = Shared a \<Longrightarrow> (objs st' a = None) = (objs st a = None) \<and>
      alloc_len (the_obj st' a) = alloc_len (the_obj st a) \<and> pool (the_obj st' a) = pool (the_obj st a) \<and>
      obj_data (the_obj st' a) = obj_data (the_obj st a)"
    and "\<And>p. b_data b = PipeOf p \<Longrightarrow> pipe_results st' p = pipe_results st p"
  shows "bucket_ok st' b = bucket_ok st b" "bytes st' b = bytes st b"
  using assms by (auto simp: bucket_ok_def bytes_def split: bucket_data.split)

lemma refcount_bucket:
  assumes "objs st a = Some h" "alloc_len h' = alloc_len h" "pool h' = pool h" "obj_data h' = obj_data h"
  shows "bucket_ok (put_obj a h' st) b = bucket_ok st b" "bytes (put_obj a h' st) b = bytes st b"
  using assms by (auto intro!: same_bucket simp: the_obj_def split: if_splits)

lemma refcount_inv:
  assumes inv: "mem_inv st B" and h: "objs st a = Some h"
    and ok: "\<And>b. b \<in># B' \<Longrightarrow> bucket_ok st b"
    and refs: "\<And>x. x \<noteq> a \<Longrightarrow> refs x B' = refs x B" and pos: "0 < refs a B'"
    and readers: "\<And>p. readers p B' \<le> readers p B"
  shows "mem_inv (put_obj a (h\<lparr>refcount := refs a B'\<rparr>) st) B' \<and>
    untouched st C (put_obj a (h\<lparr>refcount := refs a B'\<rparr>) st)"
proof -
  let ?h = "h\<lparr>refcount := refs a B'\<rparr>"
  have d: "obj_data ?h = obj_data h" by (simp add: obj_data_def)
  note same = refcount_bucket [of st a h ?h, OF h _ _ d, simplified]
  have "bucket_ok (put_obj a ?h st) b" if "b \<in># B'" for b
    using ok [OF that] by (simp add: same)
  moreover have "readers p B' \<le> 1" for p
    using readers [of p] mem_invD(3) [OF inv, of p] by linarith
  moreover have "alloc_len h' \<le> length (obj_data h') \<and> refcount h' = refs x B' \<and> 0 < refs x B' \<and> x < fresh st \<and>
      alloc_len h' < APR_SIZE_MAX"
    if "objs (put_obj a ?h st) x = Some h'" for x h'
    using that mem_invD(2) [OF inv, of x] h pos refs [of x] d by (auto split: if_splits)
  ultimately have "mem_inv (put_obj a ?h st) B'" by (simp add: mem_inv_def)
  then show ?thesis by (simp add: untouched_def same)
qed

text \<open>The last reference is gone.\<close>

lemma free_inv:
  assumes inv: "mem_inv st (add_mset b B)" and a: "b_data b = Shared a" "refs a B = 0"
  shows "mem_inv (free_obj a (put_obj a h st)) B \<and> untouched st B (free_obj a (put_obj a h st))"
proof -
  let ?st = "free_obj a (put_obj a h st)"
  have other: "b_data b' \<noteq> Shared a" if "b' \<in># B" for b'
    using refs_pos [OF that] a(2) by auto
  have same: "bucket_ok ?st b' = bucket_ok st b'" "bytes ?st b' = bytes st b'" if "b' \<in># B" for b'
    using other [OF that] by (auto intro!: same_bucket simp: the_obj_def)
  have "bucket_ok ?st b'" if "b' \<in># B" for b'
    using same(1) [OF that] mem_invD(1) [OF inv, of b'] that by simp
  moreover have "readers p B \<le> 1" for p
    using mem_invD(3) [OF inv, of p] by simp
  moreover have "alloc_len h' \<le> length (obj_data h') \<and> refcount h' = refs x B \<and> 0 < refs x B \<and> x < fresh st \<and>
      alloc_len h' < APR_SIZE_MAX"
    if "objs ?st x = Some h'" for x h'
    using that mem_invD(2) [OF inv, of x h'] a by (auto split: if_splits)
  ultimately have "mem_inv ?st B" by (simp add: mem_inv_def)
  then show ?thesis using same by (simp add: untouched_def)
qed

section \<open>The contract of buckets that hold data\<close>

text \<open>
  What \<open>apr_buckets.h\<close> promises of \<open>split\<close> and \<open>copy\<close>: a point behind the end
  is refused; otherwise two buckets with the two halves stand in the place, and
  a copy stands for the same bytes, the memory well formed and the other
  buckets untouched.
\<close>

locale data_bucket =
  fixes kind :: "apr_bucket \<Rightarrow> bool"
    and cut :: "bmem \<Rightarrow> apr_bucket \<Rightarrow> nat \<Rightarrow> apr_status \<times> bmem \<times> apr_bucket list"
    and dup :: "bmem \<Rightarrow> apr_bucket \<Rightarrow> apr_status \<times> bmem \<times> apr_bucket"
  assumes cut_refuses: "kind b \<Longrightarrow> b_length b < n \<Longrightarrow> cut st b n = (APR_EINVAL, st, [b])"
    and cut_halves: "kind b \<Longrightarrow> mem_inv st (add_mset b B) \<Longrightarrow> n \<le> b_length b \<Longrightarrow>
      \<exists>st' x y. cut st b n = (APR_SUCCESS, st', [x, y]) \<and> kind x \<and> kind y \<and>
        mem_inv st' (add_mset x (add_mset y B)) \<and> untouched st B st' \<and>
        bytes st' x = take n (bytes st b) \<and> bytes st' y = drop n (bytes st b)"
    and dup_same: "kind b \<Longrightarrow> mem_inv st (add_mset b B) \<Longrightarrow>
      \<exists>st' c. dup st b = (APR_SUCCESS, st', c) \<and> kind c \<and>
        mem_inv st' (add_mset c (add_mset b B)) \<and> untouched st (add_mset b B) st' \<and> bytes st' c = bytes st b"
begin

text \<open>Cutting off one piece after the other, as the filters that frame a stream do.\<close>

fun pieces :: "bmem \<Rightarrow> apr_bucket \<Rightarrow> nat list \<Rightarrow> bmem \<times> apr_bucket list" where
  "pieces st b [] = (st, [b])"
| "pieces st b (n # ns) =
     (case cut st b n of
        (rv, st', x # y # zs) \<Rightarrow> (case pieces st' y ns of (st'', ys) \<Rightarrow> (st'', x # ys))
      | (rv, st', zs) \<Rightarrow> (st', zs))"

lemma pieces_bytes:
  "kind b \<Longrightarrow> mem_inv st (add_mset b B) \<Longrightarrow> pieces st b ns = (st', bs) \<Longrightarrow>
     mem_inv st' (mset bs + B) \<and> untouched st B st' \<and> concat (map (bytes st') bs) = bytes st b"
proof (induction ns arbitrary: st b B bs st')
  case (Cons n ns)
  show ?case
  proof (cases "n \<le> b_length b")
    case True
    obtain st1 x y where cut: "cut st b n = (APR_SUCCESS, st1, [x, y])" "kind y"
        "mem_inv st1 (add_mset x (add_mset y B))" "untouched st B st1"
        "bytes st1 x = take n (bytes st b)" "bytes st1 y = drop n (bytes st b)"
      using cut_halves [OF Cons.prems(1,2) True] by blast
    obtain st2 ys where rest: "pieces st1 y ns = (st2, ys)" by fastforce
    have "mem_inv st1 (add_mset y (add_mset x B))" using cut(3) by (simp add: add_mset_commute)
    then have IH: "mem_inv st2 (mset ys + add_mset x B)" "untouched st1 (add_mset x B) st2"
        "concat (map (bytes st2) ys) = bytes st1 y"
      using Cons.IH [OF cut(2) _ rest] by blast+
    have res: "st' = st2" "bs = x # ys" using Cons.prems(3) cut(1) rest by auto
    have "untouched st B st2" using untouched_trans [OF cut(4)] IH(2) by simp
    then show ?thesis
      using IH cut(5,6) by (simp add: res)
  next
    case False
    then have "cut st b n = (APR_EINVAL, st, [b])" using cut_refuses [OF Cons.prems(1)] by simp
    then show ?thesis using Cons.prems by auto
  qed
qed auto

end

section \<open>The types that meet it\<close>

lemma slice_take: "n \<le> m \<Longrightarrow> slice i n s = take n (slice i m s)"
  by (simp add: slice_def min_absorb1)

lemma slice_drop: "0 \<le> i \<Longrightarrow> slice (i + int n) (m - n) s = drop n (slice i m s)"
  by (simp add: slice_def nat_add_distrib drop_take add.commute)

definition cut_simple :: "bmem \<Rightarrow> apr_bucket \<Rightarrow> nat \<Rightarrow> apr_status \<times> bmem \<times> apr_bucket list" where
  "cut_simple st b n = (case apr_bucket_simple_split b n of (rv, bs) \<Rightarrow> (rv, st, bs))"

definition dup_simple :: "bmem \<Rightarrow> apr_bucket \<Rightarrow> apr_status \<times> bmem \<times> apr_bucket" where
  "dup_simple st b = (case apr_bucket_simple_copy b of (rv, c) \<Rightarrow> (rv, st, c))"

lemma split_bytes:
  assumes "bucket_ok st b" "n \<le> b_length b" "b_type b \<noteq> PIPE"
  shows "bytes st (b\<lparr>b_length := n\<rparr>) = take n (bytes st b) \<and>
    bytes st (b\<lparr>b_length := b_length b - n, b_start := b_start b + int n\<rparr>) = drop n (bytes st b)"
  using assms slice_take [of n "b_length b"] slice_drop [of "b_start b" n "b_length b"]
  by (auto simp: bytes_def bucket_ok_def split: bucket_data.splits)

lemma split_parts_ok:
  assumes "bucket_ok st b" "n \<le> b_length b" "b_data b \<noteq> Null" "b_type b \<noteq> PIPE"
  shows "bucket_ok st (b\<lparr>b_length := n\<rparr>) \<and>
    bucket_ok st (b\<lparr>b_length := b_length b - n, b_start := b_start b + int n\<rparr>)"
  using assms by (auto simp: bucket_ok_def nat_add_distrib split: bucket_data.splits)

interpretation simple_bucket: data_bucket "\<lambda>b. b_type b \<in> {IMMORTAL, TRANSIENT}" cut_simple dup_simple
proof
  fix st b B n
  assume kind: "b_type b \<in> {IMMORTAL, TRANSIENT}" and inv: "mem_inv st (add_mset b B)" and n: "n \<le> b_length b"
  let ?x = "b\<lparr>b_length := n\<rparr>" and ?y = "b\<lparr>b_length := b_length b - n, b_start := b_start b + int n\<rparr>"
  have ok: "bucket_ok st b" and nz: "b_data b \<noteq> Null" "b_type b \<noteq> PIPE" and mem: "\<exists>s. b_data b = Mem s"
    using mem_invD(1) [OF inv, of b] kind by (auto simp: bucket_ok_def split: bucket_data.splits)
  have "cut_simple st b n = (APR_SUCCESS, st, [?x, ?y])"
    using n by (simp add: cut_simple_def apr_bucket_simple_split_def apr_bucket_simple_copy_def)
  moreover have "mem_inv st (add_mset ?x (add_mset ?y B))"
    using inv split_parts_ok [OF ok n nz] mem by (auto simp: mem_inv_def)
  ultimately show "\<exists>st' x y. cut_simple st b n = (APR_SUCCESS, st', [x, y]) \<and> b_type x \<in> {IMMORTAL, TRANSIENT} \<and>
      b_type y \<in> {IMMORTAL, TRANSIENT} \<and> mem_inv st' (add_mset x (add_mset y B)) \<and> untouched st B st' \<and>
      bytes st' x = take n (bytes st b) \<and> bytes st' y = drop n (bytes st b)"
    using kind split_bytes [OF ok n nz(2)] by (intro exI [of _ st] exI [of _ ?x] exI [of _ ?y]) simp
next
  fix st b B
  assume kind: "b_type b \<in> {IMMORTAL, TRANSIENT}" and inv: "mem_inv st (add_mset b B)"
  then have "\<exists>s. b_data b = Mem s"
    using mem_invD(1) [OF inv, of b] by (auto simp: bucket_ok_def split: bucket_data.splits)
  then show "\<exists>st' c. dup_simple st b = (APR_SUCCESS, st', c) \<and> b_type c \<in> {IMMORTAL, TRANSIENT} \<and>
      mem_inv st' (add_mset c (add_mset b B)) \<and> untouched st (add_mset b B) st' \<and> bytes st' c = bytes st b"
    using kind inv by (auto simp: dup_simple_def apr_bucket_simple_copy_def mem_inv_def)
qed (auto simp: cut_simple_def apr_bucket_simple_split_def)

lemma shared_obj:
  assumes "mem_inv st B" "b \<in># B" "b_type b \<in> {HEAP, POOL}"
  obtains a h where "b_data b = Shared a" "objs st a = Some h" "the_obj st a = h"
  using mem_invD(1) [OF assms(1,2)] assms(3)
  by (auto simp: bucket_ok_def the_obj_def split: bucket_data.splits)

interpretation shared_bucket: data_bucket "\<lambda>b. b_type b \<in> {HEAP, POOL}" apr_bucket_shared_split apr_bucket_shared_copy
proof
  fix st b B n
  assume kind: "b_type b \<in> {HEAP, POOL}" and inv: "mem_inv st (add_mset b B)" and n: "n \<le> b_length b"
  obtain a h where a: "b_data b = Shared a" "objs st a = Some h" "the_obj st a = h"
    using shared_obj [OF inv _ kind] by auto
  let ?x = "b\<lparr>b_length := n\<rparr>" and ?y = "b\<lparr>b_length := b_length b - n, b_start := b_start b + int n\<rparr>"
  let ?B = "add_mset ?x (add_mset ?y B)"
  have cnt: "refcount h = Suc (refs a B)" using mem_invD(2) [OF inv a(2)] a(1) by simp
  have ok: "bucket_ok st b" and nz: "b_data b \<noteq> Null" "b_type b \<noteq> PIPE"
    using mem_invD(1) [OF inv, of b] a(1) kind by auto
  have "apr_bucket_shared_split st b n = (APR_SUCCESS, add_ref a st, [?x, ?y])"
    using n a(1) by (simp add: apr_bucket_shared_split_def apr_bucket_simple_split_def apr_bucket_simple_copy_def)
  moreover have st': "add_ref a st = put_obj a (h\<lparr>refcount := refs a ?B\<rparr>) st"
    using a cnt by (simp add: add_ref_def)
  have step: "mem_inv (add_ref a st) ?B \<and> untouched st (add_mset ?x (add_mset ?y B)) (add_ref a st)"
    unfolding st'
  proof (rule refcount_inv [OF inv a(2)])
    show "bucket_ok st c" if "c \<in># ?B" for c
      using that split_parts_ok [OF ok n nz] mem_invD(1) [OF inv, of c] by auto
  qed (use a(1) in auto)
  ultimately show "\<exists>st' x y. apr_bucket_shared_split st b n = (APR_SUCCESS, st', [x, y]) \<and> b_type x \<in> {HEAP, POOL} \<and>
      b_type y \<in> {HEAP, POOL} \<and> mem_inv st' (add_mset x (add_mset y B)) \<and> untouched st B st' \<and>
      bytes st' x = take n (bytes st b) \<and> bytes st' y = drop n (bytes st b)"
    using kind split_bytes [OF ok n nz(2)] by (intro exI [of _ "add_ref a st"] exI [of _ ?x] exI [of _ ?y]) simp
next
  fix st b B
  assume kind: "b_type b \<in> {HEAP, POOL}" and inv: "mem_inv st (add_mset b B)"
  obtain a h where a: "b_data b = Shared a" "objs st a = Some h" "the_obj st a = h"
    using shared_obj [OF inv _ kind] by auto
  let ?B = "add_mset b (add_mset b B)"
  have "refcount h = Suc (refs a B)" using mem_invD(2) [OF inv a(2)] a(1) by simp
  then have st': "add_ref a st = put_obj a (h\<lparr>refcount := refs a ?B\<rparr>) st"
    using a by (simp add: add_ref_def)
  have "mem_inv (add_ref a st) ?B \<and> untouched st ?B (add_ref a st)"
    unfolding st' by (rule refcount_inv [OF inv a(2)]) (use a(1) mem_invD(1) [OF inv] in auto)
  then show "\<exists>st' c. apr_bucket_shared_copy st b = (APR_SUCCESS, st', c) \<and> b_type c \<in> {HEAP, POOL} \<and>
      mem_inv st' (add_mset c (add_mset b B)) \<and> untouched st (add_mset b B) st' \<and> bytes st' c = bytes st b"
    using kind a(1) by (auto simp: apr_bucket_shared_copy_def apr_bucket_simple_copy_def)
qed (auto simp: apr_bucket_shared_split_def apr_bucket_simple_split_def)

section \<open>The operations through the function table\<close>

lemma apr_bucket_split_ok:
  assumes "mem_inv st (add_mset b B)" "b_type b \<in> {IMMORTAL, TRANSIENT, HEAP, POOL}" "n \<le> b_length b"
  shows "\<exists>st' x y. apr_bucket_split st b n = (APR_SUCCESS, st', [x, y]) \<and>
    mem_inv st' (add_mset x (add_mset y B)) \<and> untouched st B st' \<and>
    bytes st' x = take n (bytes st b) \<and> bytes st' y = drop n (bytes st b) \<and> b_type x = b_type b"
proof (cases "b_type b \<in> {IMMORTAL, TRANSIENT}")
  case True
  then have "apr_bucket_split st b n = cut_simple st b n"
    by (auto simp: apr_bucket_split_def cut_simple_def)
  moreover have "b_type x = b_type b" if "cut_simple st b n = (rv, st', [x, y])" for rv st' x y
    using that by (auto simp: cut_simple_def apr_bucket_simple_split_def Let_def split: if_splits)
  ultimately show ?thesis using simple_bucket.cut_halves [OF True assms(1,3)] by metis
next
  case False
  then have kind: "b_type b \<in> {HEAP, POOL}" using assms(2) by auto
  then have "apr_bucket_split st b n = apr_bucket_shared_split st b n"
    by (auto simp: apr_bucket_split_def)
  moreover have "b_type x = b_type b" if "apr_bucket_shared_split st b n = (rv, st', [x, y])" for rv st' x y
    using that by (auto simp: apr_bucket_shared_split_def apr_bucket_simple_split_def Let_def split: if_splits)
  ultimately show ?thesis using shared_bucket.cut_halves [OF kind assms(1,3)] by metis
qed

lemma apr_bucket_split_fails:
  "b_type b \<in> {IMMORTAL, TRANSIENT, HEAP, POOL} \<Longrightarrow> b_length b < n \<Longrightarrow> apr_bucket_split st b n = (APR_EINVAL, st, [b])"
  "b_type b \<in> {PIPE, EOS, FLUSH} \<Longrightarrow> apr_bucket_split st b n = (APR_ENOTIMPL, st, [b])"
  by (auto simp: apr_bucket_split_def apr_bucket_shared_split_def apr_bucket_simple_split_def)

lemma apr_bucket_copy_ok:
  assumes "mem_inv st (add_mset b B)" "b_type b \<noteq> PIPE"
  shows "\<exists>st' c. apr_bucket_copy st b = (APR_SUCCESS, st', Some c) \<and>
    mem_inv st' (add_mset c (add_mset b B)) \<and> untouched st (add_mset b B) st' \<and> bytes st' c = bytes st b"
proof -
  consider "b_type b \<in> {IMMORTAL, TRANSIENT}" | "b_type b \<in> {HEAP, POOL}" | "b_type b \<in> {EOS, FLUSH}"
    using assms(2) by (cases "b_type b") auto
  then show ?thesis
  proof cases
    case 1
    then have "apr_bucket_copy st b = (case dup_simple st b of (rv, st', c) \<Rightarrow> (rv, st', Some c))"
      by (auto simp: apr_bucket_copy_def dup_simple_def apr_bucket_simple_copy_def)
    then show ?thesis using simple_bucket.dup_same [OF 1 assms(1)] by fastforce
  next
    case 2
    then have "apr_bucket_copy st b = (case apr_bucket_shared_copy st b of (rv, st', c) \<Rightarrow> (rv, st', Some c))"
      by (auto simp: apr_bucket_copy_def)
    then show ?thesis using shared_bucket.dup_same [OF 2 assms(1)] by fastforce
  next
    case 3
    then have "apr_bucket_copy st b = (APR_SUCCESS, st, Some b)" and "b_data b = Null"
      using mem_invD(1) [OF assms(1), of b]
      by (auto simp: apr_bucket_copy_def apr_bucket_simple_copy_def bucket_ok_def split: bucket_data.splits)
    then show ?thesis using assms(1) by (auto simp: mem_inv_def)
  qed
qed

text \<open>Destroying a bucket drops its reference and frees the object with the last one.\<close>

lemma apr_bucket_destroy_shared:
  assumes "b_type b \<in> {HEAP, POOL}" "b_data b = Shared a" "the_obj st a = h"
  shows "apr_bucket_destroy st b =
    (let st' = put_obj a (h\<lparr>refcount := refcount h - 1\<rparr>) st
     in if refcount h - 1 = 0 then free_obj a st' else st')"
  using assms by (auto simp: apr_bucket_destroy_def heap_bucket_destroy_def pool_bucket_destroy_def
      apr_bucket_shared_destroy_def Let_def)

lemma mem_inv_drop:
  assumes "mem_inv st (add_mset b B)" "\<And>a. b_data b \<noteq> Shared a"
  shows "mem_inv st B"
proof -
  have "readers p B \<le> 1" for p using mem_invD(3) [OF assms(1), of p] by simp
  moreover have "refs a (add_mset b B) = refs a B" for a using assms(2) by simp
  ultimately show ?thesis using assms(1) by (simp add: mem_inv_def)
qed

lemma apr_bucket_destroy_ok:
  assumes inv: "mem_inv st (add_mset b B)"
  shows "mem_inv (apr_bucket_destroy st b) B \<and> untouched st B (apr_bucket_destroy st b)"
proof (cases "b_type b \<in> {HEAP, POOL}")
  case True
  obtain a h where a: "b_data b = Shared a" "objs st a = Some h" "the_obj st a = h"
    using shared_obj [OF inv _ True] by auto
  have cnt: "refcount h = Suc (refs a B)" using mem_invD(2) [OF inv a(2)] a(1) by simp
  note D = apr_bucket_destroy_shared [OF True a(1,3)]
  show ?thesis
  proof (cases "refs a B = 0")
    case True
    then show ?thesis using free_inv [OF inv a(1) True] D cnt by (simp add: Let_def)
  next
    case False
    have "mem_inv (put_obj a (h\<lparr>refcount := refs a B\<rparr>) st) B \<and> untouched st B (put_obj a (h\<lparr>refcount := refs a B\<rparr>) st)"
      by (rule refcount_inv [OF inv a(2)]) (use a(1) False mem_invD(1) [OF inv] in auto)
    then show ?thesis using False D cnt by (simp add: Let_def)
  qed
next
  case False
  then have "apr_bucket_destroy st b = st" by (cases "b_type b") (auto simp: apr_bucket_destroy_def)
  moreover have "b_data b \<noteq> Shared a" for a
    using mem_invD(1) [OF inv, of b] False by (auto simp: bucket_ok_def)
  ultimately show ?thesis using mem_inv_drop [OF inv] by simp
qed

section \<open>New buckets\<close>

text \<open>A fresh object with one bucket on it.\<close>

lemma alloc_inv:
  assumes inv: "mem_inv st B" and b: "b_data b = Shared (fresh st)" "b_type b \<in> {HEAP, POOL}" "b_start b = 0"
      "b_length b \<le> alloc_len h" "b_length b < APR_SIZE_MAX" "b_type b = HEAP \<longrightarrow> pool h = None"
    and h: "refcount h = 1" "alloc_len h \<le> length (obj_data h)" "alloc_len h < APR_SIZE_MAX"
    and st': "objs st' = (objs st)(fresh st \<mapsto> h)" "fresh st' = Suc (fresh st)" "pipe_results st' = pipe_results st"
  shows "mem_inv st' (add_mset b B) \<and> untouched st B st' \<and> bytes st' b = take (b_length b) (obj_data h)"
proof -
  have old: "b_data b' \<noteq> Shared (fresh st)" if "b' \<in># B" for b'
    using mem_invD(1) [OF inv that] mem_invD(4) [OF inv, of "fresh st"] by (auto simp: bucket_ok_def)
  have same: "bucket_ok st' b' = bucket_ok st b'" "bytes st' b' = bytes st b'" if "b' \<in># B" for b'
    using old [OF that] st' by (auto intro!: same_bucket simp: the_obj_def)
  have none: "refs (fresh st) B = 0"
    using old by (auto simp: refs_def)
  have obj: "the_obj st' (fresh st) = h" using st' by (simp add: the_obj_def)
  have "bucket_ok st' b" using b st' obj by (auto simp: bucket_ok_def)
  moreover have "bucket_ok st' b'" if "b' \<in># B" for b'
    using same(1) [OF that] mem_invD(1) [OF inv that] by simp
  moreover have "alloc_len h' \<le> length (obj_data h') \<and> refcount h' = refs x (add_mset b B) \<and>
      0 < refs x (add_mset b B) \<and> x < fresh st' \<and> alloc_len h' < APR_SIZE_MAX" if "objs st' x = Some h'" for x h'
    using that st' h none b(1) mem_invD(2) [OF inv, of x h'] by (auto split: if_splits)
  moreover have "readers p (add_mset b B) \<le> 1" for p
    using mem_invD(3) [OF inv, of p] b(1) by simp
  ultimately have "mem_inv st' (add_mset b B)" by (auto simp: mem_inv_def)
  then show ?thesis using same b obj by (simp add: untouched_def bytes_def slice_def)
qed

lemma heap_make_own:
  "apr_bucket_heap_make memory st b buf n True =
     (put_obj (fresh st) \<lparr>refcount = 1, alloc_len = n, heap_base = buf, pool = None, pool_base = []\<rparr> (st\<lparr>fresh := Suc (fresh st)\<rparr>),
      Some (b\<lparr>b_data := Shared (fresh st), b_start := 0, b_length := n, b_type := HEAP\<rparr>))"
  by (simp add: apr_bucket_heap_make_def apr_bucket_shared_make_def the_obj_def put_obj_def Let_def)

lemma heap_make_copy:
  "apr_bucket_heap_make True st b buf n False =
     (put_obj (fresh st) \<lparr>refcount = 1, alloc_len = n, heap_base = take n buf, pool = None, pool_base = []\<rparr> (st\<lparr>fresh := Suc (fresh st)\<rparr>),
      Some (b\<lparr>b_data := Shared (fresh st), b_start := 0, b_length := n, b_type := HEAP\<rparr>))"
  by (simp add: apr_bucket_heap_make_def apr_bucket_shared_make_def the_obj_def put_obj_def Let_def)

lemma apr_bucket_heap_create_ok:
  assumes "mem_inv st B" "n \<le> length buf" "n < APR_SIZE_MAX"
  shows "\<exists>st' b. apr_bucket_heap_create st buf n own = (st', b) \<and> mem_inv st' (add_mset b B) \<and>
    untouched st B st' \<and> bytes st' b = take n buf \<and> b_type b = HEAP \<and>
    b_data b = Shared (fresh st) \<and> b_start b = 0 \<and> b_length b = n \<and>
    the_obj st' (fresh st) = \<lparr>refcount = 1, alloc_len = n, heap_base = (if own then buf else take n buf),
      pool = None, pool_base = []\<rparr>"
proof -
  let ?h = "\<lparr>refcount = 1, alloc_len = n, heap_base = (if own then buf else take n buf), pool = None, pool_base = []\<rparr>"
  let ?st = "put_obj (fresh st) ?h (st\<lparr>fresh := Suc (fresh st)\<rparr>)"
  let ?b = "new_bucket\<lparr>b_data := Shared (fresh st), b_start := 0, b_length := n, b_type := HEAP\<rparr>"
  have "apr_bucket_heap_create st buf n own = (?st, ?b)"
    by (simp add: apr_bucket_heap_create_def heap_make_own heap_make_copy)
  moreover have "mem_inv ?st (add_mset ?b B) \<and> untouched st B ?st \<and> bytes ?st ?b = take (b_length ?b) (obj_data ?h)"
    by (rule alloc_inv [OF assms(1)]) (use assms(2,3) in \<open>auto simp: obj_data_def\<close>)
  ultimately show ?thesis by (auto simp: obj_data_def the_obj_def)
qed

lemma apr_bucket_pool_create_ok:
  assumes "mem_inv st B" "n \<le> length buf" "n < APR_SIZE_MAX"
  shows "\<exists>st' b. apr_bucket_pool_create st buf n i = (st', b) \<and> mem_inv st' (add_mset b B) \<and>
    untouched st B st' \<and> bytes st' b = take n buf \<and> b_type b = POOL"
proof -
  let ?h = "\<lparr>refcount = 1, alloc_len = n, heap_base = [], pool = Some i, pool_base = buf\<rparr>"
  let ?st = "put_obj (fresh st) ?h (st\<lparr>fresh := Suc (fresh st)\<rparr>)"
  let ?b = "new_bucket\<lparr>b_data := Shared (fresh st), b_start := 0, b_length := n, b_type := POOL\<rparr>"
  have "apr_bucket_pool_create st buf n i = (?st, ?b)"
    by (simp add: apr_bucket_pool_create_def apr_bucket_pool_make_def apr_bucket_shared_make_def the_obj_def put_obj_def Let_def)
  moreover have "mem_inv ?st (add_mset ?b B) \<and> untouched st B ?st \<and> bytes ?st ?b = take (b_length ?b) (obj_data ?h)"
    by (rule alloc_inv [OF assms(1)]) (use assms(2,3) in \<open>auto simp: obj_data_def\<close>)
  ultimately show ?thesis by (auto simp: obj_data_def)
qed

text \<open>Setting aside moves the bytes of a transient bucket to the heap.\<close>

lemma apr_bucket_setaside_ok:
  assumes inv: "mem_inv st (add_mset b B)" and res: "apr_bucket_setaside memory st b = (rv, st', b')"
  shows "mem_inv st' (add_mset b' B) \<and> untouched st B st' \<and> bytes st' b' = bytes st b \<and>
    (rv = APR_SUCCESS \<longrightarrow> b_type b' \<noteq> TRANSIENT) \<and> (rv \<noteq> APR_SUCCESS \<longrightarrow> st' = st \<and> b' = b)"
proof (cases "b_type b = TRANSIENT \<and> memory")
  case True
  let ?n = "b_length b" and ?buf = "drop (nat (b_start b)) (mem_of (b_data b))"
  let ?h = "\<lparr>refcount = 1, alloc_len = ?n, heap_base = take ?n ?buf, pool = None, pool_base = []\<rparr>"
  let ?st = "put_obj (fresh st) ?h (st\<lparr>fresh := Suc (fresh st)\<rparr>)"
  let ?b = "b\<lparr>b_data := Shared (fresh st), b_start := 0, b_length := ?n, b_type := HEAP\<rparr>"
  obtain s where s: "b_data b = Mem s" "nat (b_start b) + ?n \<le> length s" "?n < APR_SIZE_MAX"
    using mem_invD(1) [OF inv, of b] True by (auto simp: bucket_ok_def split: bucket_data.splits)
  have res': "rv = APR_SUCCESS" "st' = ?st" "b' = ?b"
    using res True by (simp_all add: apr_bucket_setaside_def transient_bucket_setaside_def heap_make_copy)
  have "mem_inv st B" using mem_inv_drop [OF inv] s(1) by simp
  then have "mem_inv ?st (add_mset ?b B) \<and> untouched st B ?st \<and> bytes ?st ?b = take (b_length ?b) (obj_data ?h)"
    by (rule alloc_inv) (use s in \<open>auto simp: obj_data_def\<close>)
  then show ?thesis
    unfolding res' using s(1) by (simp add: obj_data_def bytes_def slice_def)
next
  case False
  then have "st' = st \<and> b' = b \<and> (rv = APR_SUCCESS \<longrightarrow> b_type b \<noteq> TRANSIENT)"
    using res by (cases "b_type b") (auto simp: apr_bucket_setaside_def transient_bucket_setaside_def apr_bucket_heap_make_def Let_def)
  then show ?thesis using inv by simp
qed

text \<open>When a pool goes, its buckets' bytes move to the heap behind their backs.\<close>

lemma destroy_pool_ok:
  assumes inv: "mem_inv st B"
  shows "mem_inv (destroy_pool i st) B \<and> untouched st B (destroy_pool i st) \<and>
    (\<forall>a h. objs (destroy_pool i st) a = Some h \<longrightarrow> pool h \<noteq> Some i)"
proof -
  let ?st = "destroy_pool i st" and ?f = "\<lambda>p. if pool p = Some i then pool_bucket_cleanup p else p"
  have objs: "objs ?st a = map_option ?f (objs st a)" "fresh ?st = fresh st" "pipe_results ?st = pipe_results st" for a
    by (simp_all add: destroy_pool_def)
  have f: "refcount (?f h) = refcount h" "alloc_len (?f h) = alloc_len h" "pool (?f h) \<noteq> Some i"
    "alloc_len h \<le> length (obj_data h) \<Longrightarrow> alloc_len h \<le> length (obj_data (?f h))"
    "take (alloc_len h) (obj_data (?f h)) = take (alloc_len h) (obj_data h)" for h
    by (auto simp: pool_bucket_cleanup_def obj_data_def)
  have obj: "the_obj ?st a = ?f (the_obj st a)" if "objs st a \<noteq> None" for a
    using that by (auto simp: the_obj_def objs)
  have window: "slice j n t = slice j n u" if "nat j + n \<le> m" "take m t = take m u" for j n m and t u :: "char list"
  proof -
    have "slice j n w = take n (drop (nat j) (take m w))" for w :: "char list"
      using that(1) by (simp add: slice_def drop_take min_absorb1)
    then show ?thesis using that(2) by simp
  qed
  have same: "bucket_ok ?st b \<and> bytes ?st b = bytes st b" if b: "b \<in># B" for b
  proof (cases "b_data b")
    case (Shared a)
    then have a: "objs st a \<noteq> None" "nat (b_start b) + b_length b \<le> alloc_len (the_obj st a)"
      using mem_invD(1) [OF inv b] by (auto simp: bucket_ok_def)
    have "bucket_ok ?st b"
      using mem_invD(1) [OF inv b] Shared obj [OF a(1)] objs(1) f(2)
      by (auto simp: bucket_ok_def pool_bucket_cleanup_def)
    moreover have "bytes ?st b = bytes st b"
      unfolding bytes_def Shared bucket_data.case obj [OF a(1)] by (rule window [OF a(2) f(5)])
    ultimately show ?thesis by simp
  next
    case (PipeOf p)
    then show ?thesis using mem_invD(1) [OF inv b] by (simp add: bucket_ok_def bytes_def objs)
  qed (use mem_invD(1) [OF inv b] in \<open>auto simp: bucket_ok_def bytes_def\<close>)
  have "alloc_len h' \<le> length (obj_data h') \<and> refcount h' = refs x B \<and> 0 < refs x B \<and> x < fresh ?st \<and>
      alloc_len h' < APR_SIZE_MAX"
    if h': "objs ?st x = Some h'" for x h'
  proof -
    obtain h where "objs st x = Some h" "h' = ?f h" using h' by (auto simp: objs)
    then show ?thesis using mem_invD(2) [OF inv, of x h] f(1,2,4) [of h] objs(2) by simp
  qed
  then have "mem_inv ?st B" using same mem_invD(3) [OF inv] by (simp add: mem_inv_def)
  moreover have "untouched st B ?st" using same by (simp add: untouched_def)
  moreover have "pool h \<noteq> Some i" if h: "objs ?st a = Some h" for a h
  proof -
    obtain z where "h = ?f z" using h by (auto simp: objs)
    then show ?thesis using f(3) [of z] by (simp only: simp_thms)
  qed
  ultimately show ?thesis by blast
qed

section \<open>Reading\<close>

text \<open>
  How often the buckets of a list can still be read or passed: the measure of
  every loop over a brigade that reads.
\<close>

definition passes :: "bmem \<Rightarrow> apr_bucket \<Rightarrow> nat" where
  "passes st b = Suc (if b_type b = PIPE then length (pipe_results st (pipe_of (b_data b))) else 0)"

definition todo :: "bmem \<Rightarrow> apr_bucket list \<Rightarrow> nat" where
  "todo st bs = sum_list (map (passes st) bs)"

lemma todo_simps [simp]:
  "todo st [] = 0" "todo st (b # bs) = passes st b + todo st bs" "todo st (bs @ cs) = todo st bs + todo st cs"
  by (simp_all add: todo_def)

lemma passes_pos [simp]: "0 < passes st b"
  by (simp add: passes_def)

lemma todo_mono: "(\<And>p. length (pipe_results st' p) \<le> length (pipe_results st p)) \<Longrightarrow> todo st' bs \<le> todo st bs"
  by (induction bs) (auto simp: passes_def intro: add_mono)

lemma pipe_read_cases:
  assumes "pipe_read st p n = (rv, s, st')"
  obtains (ended) "pipe_results st p = []" "rv = APR_EOF" "s = []" "st' = st"
  | (result) t later where "pipe_results st p = (rv, t) # later" "s = take n t"
      "st' = st\<lparr>pipe_results := (pipe_results st)(p := later)\<rparr>"
  using assms by (auto simp: pipe_read_def split: list.splits)

text \<open>The three ways a read of a pipe bucket ends.\<close>

lemma pipe_bucket_read_cases:
  assumes "pipe_bucket_read st b = (rv, s, st', bs)" "pipe_of (b_data b) = p"
  obtains (failed) s' where "pipe_read st p APR_BUCKET_BUFF_SIZE = (rv, s', st')" "rv \<noteq> APR_SUCCESS" "rv \<noteq> APR_EOF"
      "s = []" "bs = [b]"
  | (empty) rv' st1 where "pipe_read st p APR_BUCKET_BUFF_SIZE = (rv', [], st1)" "rv' = APR_SUCCESS \<or> rv' = APR_EOF"
      "rv = APR_SUCCESS" "s = []" "objs st' = objs st1" "fresh st' = fresh st1" "pipe_results st' = pipe_results st1"
      "bs = [b\<lparr>b_data := Mem [], b_length := 0, b_start := 0, b_type := IMMORTAL\<rparr>]"
  | (data) rv' st1 where "pipe_read st p APR_BUCKET_BUFF_SIZE = (rv', s, st1)" "rv' = APR_SUCCESS \<or> rv' = APR_EOF"
      "s \<noteq> []" "rv = APR_SUCCESS"
      "objs st' = (objs st1)(fresh st1 \<mapsto> \<lparr>refcount = 1, alloc_len = APR_BUCKET_BUFF_SIZE,
         heap_base = s @ replicate (APR_BUCKET_BUFF_SIZE - length s) junk, pool = None, pool_base = []\<rparr>)"
      "fresh st' = Suc (fresh st1)" "pipe_results st' = pipe_results st1"
      "bs = [b\<lparr>b_data := Shared (fresh st1), b_start := 0, b_length := length s, b_type := HEAP\<rparr>, apr_bucket_pipe_create p]"
proof -
  obtain rv' t st1 where read: "pipe_read st p APR_BUCKET_BUFF_SIZE = (rv', t, st1)" by (metis prod_cases3)
  consider "rv' \<noteq> APR_SUCCESS \<and> rv' \<noteq> APR_EOF" | "rv' = APR_SUCCESS \<or> rv' = APR_EOF" "t = []"
    | "rv' = APR_SUCCESS \<or> rv' = APR_EOF" "t \<noteq> []" by blast
  then show thesis
  proof cases
    case 1
    then have "(rv, s, st', bs) = (rv', [], st1, [b])"
      using assms read by (simp add: pipe_bucket_read_def Let_def)
    then show thesis using 1 read failed by auto
  next
    case 2
    then show thesis
      using assms read by (intro empty [OF read [unfolded 2(2)] 2(1)])
        (auto simp: pipe_bucket_read_def Let_def apr_bucket_immortal_make_def)
  next
    case 3
    then have "rv = APR_SUCCESS \<and> s = t \<and> fresh st' = Suc (fresh st1) \<and> pipe_results st' = pipe_results st1 \<and>
      objs st' = (objs st1)(fresh st1 \<mapsto> \<lparr>refcount = 1, alloc_len = APR_BUCKET_BUFF_SIZE,
         heap_base = t @ replicate (APR_BUCKET_BUFF_SIZE - length t) junk, pool = None, pool_base = []\<rparr>) \<and>
      bs = [b\<lparr>b_data := Shared (fresh st1), b_start := 0, b_length := length t, b_type := HEAP\<rparr>, apr_bucket_pipe_create p]"
      using assms read by (auto simp: pipe_bucket_read_def Let_def heap_make_own the_obj_def)
    then show thesis using 3 read data by blast
  qed
qed

lemma buff_size [simp]: "APR_BUCKET_BUFF_SIZE \<noteq> 0" "0 < APR_BUCKET_BUFF_SIZE" "APR_BUCKET_BUFF_SIZE < APR_SIZE_MAX"
  by (simp_all add: APR_BUCKET_BUFF_SIZE_def APR_SIZE_MAX_def)

lemma pipe_read_inv:
  assumes inv: "mem_inv st (add_mset b B)" and b: "b_data b = PipeOf p"
    and read: "pipe_read st p n = (rv, s, st')"
  shows "mem_inv st' (add_mset b B) \<and> untouched st B st' \<and> objs st' = objs st \<and> fresh st' = fresh st"
proof -
  have st': "objs st' = objs st" "fresh st' = fresh st" "\<And>q. q \<noteq> p \<Longrightarrow> pipe_results st' q = pipe_results st q"
    using read by (auto elim!: pipe_read_cases)
  have other: "b_data b' \<noteq> PipeOf p" if "b' \<in># B" for b'
    using readers_pos [OF that] mem_invD(3) [OF inv, of p] b by fastforce
  then have "bytes st' b' = bytes st b'" if "b' \<in># B" for b'
    using st'(1) st'(3) other [OF that] by (intro same_bucket) (simp add: the_obj_def, metis)
  moreover have "bucket_ok st' b' = bucket_ok st b'" for b'
    using st' by (auto simp: bucket_ok_def the_obj_def split: bucket_data.split)
  ultimately show ?thesis using inv st' by (simp add: mem_inv_def untouched_def)
qed

lemma pipe_bucket_read_ok:
  assumes inv: "mem_inv st (add_mset b B)" and pipe: "b_type b = PIPE"
    and read: "pipe_bucket_read st b = (rv, s, st', bs)"
  shows "mem_inv st' (mset bs + B) \<and> untouched st B st' \<and> concat (map (bytes st') bs) = bytes st b \<and>
    (rv = APR_SUCCESS \<and> bs \<noteq> [] \<and> s = bytes st' (hd bs) \<and> b_type (hd bs) \<noteq> PIPE \<or>
     rv \<noteq> APR_SUCCESS \<and> s = [] \<and> bs = [b])"
proof -
  obtain p where p: "b_data b = PipeOf p" "b_length b = APR_SIZE_MAX"
    using mem_invD(1) [OF inv, of b] pipe by (auto simp: bucket_ok_def split: bucket_data.splits)
  then have "pipe_of (b_data b) = p" by simp
  from read this show ?thesis
  proof (cases rule: pipe_bucket_read_cases)
    case (failed s')
    have "bytes st' b = bytes st b"
      using failed by (auto simp: bytes_def p elim!: pipe_read_cases)
    then show ?thesis using failed pipe_read_inv [OF inv p(1) failed(1)] by simp
  next
    case (empty rv' st1)
    note inv1 = pipe_read_inv [OF inv p(1) empty(1)]
    have "bytes st b = []"
      using empty(1,2) by (auto simp: bytes_def p elim!: pipe_read_cases)
    moreover have "mem_inv st1 B" using mem_inv_drop [of st1 b B] inv1 p(1) by simp
    moreover have same: "bucket_ok st' b' = bucket_ok st1 b'" "bytes st' b' = bytes st1 b'" for b'
      using empty(5-7) by (auto intro!: same_bucket simp: the_obj_def)
    ultimately have "mem_inv st' (add_mset (hd bs) B)"
      using empty(5-8) by (auto simp: mem_inv_def bucket_ok_def APR_SIZE_MAX_def)
    then show ?thesis
      using empty inv1 same \<open>bytes st b = []\<close> by (simp add: untouched_def bytes_def slice_def)
  next
    case (data rv' st1)
    note inv1 = pipe_read_inv [OF inv p(1) data(1)]
    let ?h = "\<lparr>refcount = 1, alloc_len = APR_BUCKET_BUFF_SIZE,
         heap_base = s @ replicate (APR_BUCKET_BUFF_SIZE - length s) junk, pool = None, pool_base = []\<rparr>"
    let ?b = "b\<lparr>b_data := Shared (fresh st1), b_start := 0, b_length := length s, b_type := HEAP\<rparr>"
    let ?q = "apr_bucket_pipe_create p"
    have len: "length s \<le> APR_BUCKET_BUFF_SIZE" and str: "bytes st b = s @ bytes st1 b"
      using data(1-3) by (auto simp: bytes_def p elim!: pipe_read_cases)
    have "bucket_ok st1 ?q" "b_data ?q = PipeOf p"
      by (simp_all add: apr_bucket_pipe_create_def apr_bucket_pipe_make_def new_bucket_def bucket_ok_def)
    then have q: "mem_inv st1 (add_mset ?q B)"
      using inv1 p(1) by (auto simp: mem_inv_def)
    have "mem_inv st' (add_mset ?b (add_mset ?q B)) \<and> untouched st1 (add_mset ?q B) st' \<and>
        bytes st' ?b = take (b_length ?b) (obj_data ?h)"
      by (rule alloc_inv [OF q])
        (use data(5-7) len buff_size in \<open>auto simp: obj_data_def simp del: buff_size\<close>)
    moreover have "bytes st1 ?q = bytes st1 b" using \<open>b_data ?q = PipeOf p\<close> by (simp add: bytes_def p)
    ultimately show ?thesis
      using data inv1 str by (auto simp: obj_data_def untouched_def)
  qed
qed

text \<open>The law every reader of buckets uses.\<close>

lemma apr_bucket_read_ok:
  assumes inv: "mem_inv st (add_mset b B)" and read: "apr_bucket_read st b = (rv, s, st', bs)"
  shows "mem_inv st' (mset bs + B)" "untouched st B st'" "concat (map (bytes st') bs) = bytes st b" "bs \<noteq> []"
    "rv = APR_SUCCESS \<Longrightarrow> s = bytes st' (hd bs) \<and> b_type (hd bs) \<noteq> PIPE"
    "rv \<noteq> APR_SUCCESS \<Longrightarrow> s = [] \<and> bs = [b]"
    "b_type b \<noteq> PIPE \<Longrightarrow> rv = APR_SUCCESS \<and> st' = st \<and> tl bs = [] \<and> b_length (hd bs) = b_length b \<and>
       (b_type b \<noteq> POOL \<longrightarrow> hd bs = b)"
proof -
  have ok: "bucket_ok st b" using mem_invD(1) [OF inv] by simp
  have "mem_inv st' (mset bs + B) \<and> untouched st B st' \<and> concat (map (bytes st') bs) = bytes st b \<and>
    (rv = APR_SUCCESS \<and> bs \<noteq> [] \<and> s = bytes st' (hd bs) \<and> b_type (hd bs) \<noteq> PIPE \<or>
     rv \<noteq> APR_SUCCESS \<and> s = [] \<and> bs = [b]) \<and>
    (b_type b \<noteq> PIPE \<longrightarrow> rv = APR_SUCCESS \<and> st' = st \<and> tl bs = [] \<and> b_length (hd bs) = b_length b \<and>
       (b_type b \<noteq> POOL \<longrightarrow> hd bs = b))"
  proof (cases "b_type b")
    case PIPE
    then show ?thesis
      using pipe_bucket_read_ok [OF inv PIPE, of rv s st' bs] read by (simp add: apr_bucket_read_def)
  next
    case POOL
    obtain a h where a: "b_data b = Shared a" "objs st a = Some h" "the_obj st a = h"
      using shared_obj [OF inv, of b] POOL by auto
    show ?thesis
    proof (cases "pool h = None")
      case True
      have same: "b_data (b\<lparr>b_type := HEAP\<rparr>) = b_data b" by simp
      have "mem_inv st (add_mset (b\<lparr>b_type := HEAP\<rparr>) B)"
        using inv ok True a by (auto simp: mem_inv_def bucket_ok_def)
      then show ?thesis
        using read POOL True a
        by (auto simp: apr_bucket_read_def pool_bucket_read_def Let_def bytes_def obj_data_def)
    next
      case False
      then show ?thesis
        using read POOL a inv by (auto simp: apr_bucket_read_def pool_bucket_read_def Let_def bytes_def obj_data_def)
    qed
  next
    case HEAP
    obtain a h where a: "b_data b = Shared a" "objs st a = Some h" "the_obj st a = h"
      using shared_obj [OF inv, of b] HEAP by auto
    moreover from this have "pool h = None" using ok HEAP by (auto simp: bucket_ok_def)
    ultimately show ?thesis
      using read HEAP inv by (auto simp: apr_bucket_read_def heap_bucket_read_def bytes_def obj_data_def)
  next
    case IMMORTAL
    then show ?thesis
      using read inv ok by (auto simp: apr_bucket_read_def simple_bucket_read_def bytes_def bucket_ok_def split: bucket_data.splits)
  next
    case TRANSIENT
    then show ?thesis
      using read inv ok by (auto simp: apr_bucket_read_def simple_bucket_read_def bytes_def bucket_ok_def split: bucket_data.splits)
  next
    case EOS
    then show ?thesis
      using read inv ok by (auto simp: apr_bucket_read_def eos_bucket_read_def bytes_def bucket_ok_def split: bucket_data.splits)
  next
    case FLUSH
    then show ?thesis
      using read inv ok by (auto simp: apr_bucket_read_def flush_bucket_read_def bytes_def bucket_ok_def split: bucket_data.splits)
  qed
  then show "mem_inv st' (mset bs + B)" "untouched st B st'" "concat (map (bytes st') bs) = bytes st b" "bs \<noteq> []"
    "rv = APR_SUCCESS \<Longrightarrow> s = bytes st' (hd bs) \<and> b_type (hd bs) \<noteq> PIPE"
    "rv \<noteq> APR_SUCCESS \<Longrightarrow> s = [] \<and> bs = [b]"
    "b_type b \<noteq> PIPE \<Longrightarrow> rv = APR_SUCCESS \<and> st' = st \<and> tl bs = [] \<and> b_length (hd bs) = b_length b \<and>
       (b_type b \<noteq> POOL \<longrightarrow> hd bs = b)"
    by auto
qed

text \<open>Passing a bucket after it was read makes progress, whatever the memory holds.\<close>

lemma read_todo:
  assumes "apr_bucket_read st b = (rv, s, st', bs)" "rv = APR_SUCCESS"
  shows "todo st' (tl bs @ cs) < todo st (b # cs)"
proof (cases "b_type b = PIPE")
  case True
  have "pipe_bucket_read st b = (rv, s, st', bs)" using assms True by (simp add: apr_bucket_read_def)
  from this refl show ?thesis
  proof (cases rule: pipe_bucket_read_cases)
    case (empty rv' st1)
    have "length (pipe_results st' p) \<le> length (pipe_results st p)" for p
      unfolding empty(7) using empty(1) by (auto elim!: pipe_read_cases)
    then have "todo st' cs \<le> todo st cs" by (rule todo_mono)
    then show ?thesis using empty(8) by (simp add: passes_def)
  next
    case (data rv' st1)
    let ?p = "pipe_of (b_data b)"
    have le: "length (pipe_results st' p) \<le> length (pipe_results st p)" for p
      unfolding data(7) using data(1) by (auto elim!: pipe_read_cases)
    have "length (pipe_results st' ?p) < length (pipe_results st ?p)"
      unfolding data(7) using data(1,3) by (auto elim!: pipe_read_cases)
    then have "passes st' (apr_bucket_pipe_create ?p) < passes st b"
      using True by (simp add: passes_def apr_bucket_pipe_create_def apr_bucket_pipe_make_def)
    then show ?thesis using data(8) todo_mono [of st' st cs, OF le] by simp
  qed (use assms(2) in simp)
next
  case False
  then have "st' = st \<and> tl bs = []"
    using assms(1) by (cases "b_type b") (auto simp: apr_bucket_read_def split: prod.splits)
  then show ?thesis by simp
qed

section \<open>Histories\<close>

text \<open>
  What a program does with buckets, on the memory and the list of its buckets; an
  operation on a position behind the list does nothing, nor does the creation of
  a bucket too long for \<open>apr_size_t\<close> or of a second bucket on one pipe.
\<close>

datatype bucket_op =
    NewImmortal "char list" | NewTransient "char list" | NewHeap "char list" | NewPool "char list" nat
  | NewPipe nat | NewEos | NewFlush
  | SplitAt nat nat | CopyAt nat | ReadAt nat | SetasideAt nat bool | DeleteAt nat | DropPool nat

definition place_at :: "nat \<Rightarrow> apr_bucket list \<Rightarrow> apr_bucket list \<Rightarrow> apr_bucket list" where
  "place_at i new bs = take i bs @ new @ drop (Suc i) bs"

fun bucket_step :: "bmem \<times> apr_bucket list \<Rightarrow> bucket_op \<Rightarrow> bmem \<times> apr_bucket list" where
  "bucket_step (st, bs) (NewImmortal s) =
     (if length s < APR_SIZE_MAX then (st, apr_bucket_immortal_create s (length s) # bs) else (st, bs))"
| "bucket_step (st, bs) (NewTransient s) =
     (if length s < APR_SIZE_MAX then (st, apr_bucket_transient_create s (length s) # bs) else (st, bs))"
| "bucket_step (st, bs) (NewHeap s) =
     (if length s < APR_SIZE_MAX
      then (case apr_bucket_heap_create st s (length s) False of (st, b) \<Rightarrow> (st, b # bs)) else (st, bs))"
| "bucket_step (st, bs) (NewPool s i) =
     (if length s < APR_SIZE_MAX
      then (case apr_bucket_pool_create st s (length s) i of (st, b) \<Rightarrow> (st, b # bs)) else (st, bs))"
| "bucket_step (st, bs) (NewPipe p) =
     (if readers p (mset bs) = 0 then (st, apr_bucket_pipe_create p # bs) else (st, bs))"
| "bucket_step (st, bs) NewEos = (st, apr_bucket_eos_create # bs)"
| "bucket_step (st, bs) NewFlush = (st, apr_bucket_flush_create # bs)"
| "bucket_step (st, bs) (SplitAt i n) =
     (if i < length bs
      then (case apr_bucket_split st (bs ! i) n of (rv, st, new) \<Rightarrow> (st, place_at i new bs)) else (st, bs))"
| "bucket_step (st, bs) (CopyAt i) =
     (if i < length bs
      then (case apr_bucket_copy st (bs ! i) of
          (rv, st, None) \<Rightarrow> (st, bs) | (rv, st, Some c) \<Rightarrow> (st, c # bs)) else (st, bs))"
| "bucket_step (st, bs) (ReadAt i) =
     (if i < length bs
      then (case apr_bucket_read st (bs ! i) of (rv, s, st, new) \<Rightarrow> (st, place_at i new bs)) else (st, bs))"
| "bucket_step (st, bs) (SetasideAt i memory) =
     (if i < length bs
      then (case apr_bucket_setaside memory st (bs ! i) of (rv, st, b) \<Rightarrow> (st, place_at i [b] bs)) else (st, bs))"
| "bucket_step (st, bs) (DeleteAt i) =
     (if i < length bs then (apr_bucket_destroy st (bs ! i), place_at i [] bs) else (st, bs))"
| "bucket_step (st, bs) (DropPool i) = (destroy_pool i st, bs)"

lemma mset_place:
  "i < length bs \<Longrightarrow> \<exists>C. mset bs = add_mset (bs ! i) C \<and> (\<forall>new. mset (place_at i new bs) = mset new + C)"
proof -
  assume i: "i < length bs"
  then have "bs = take i bs @ bs ! i # drop (Suc i) bs" by (rule id_take_nth_drop)
  then have "mset bs = mset (take i bs @ bs ! i # drop (Suc i) bs)" by (rule arg_cong)
  then have "mset bs = add_mset (bs ! i) (mset (take i bs) + mset (drop (Suc i) bs))" by simp
  then show ?thesis by (auto simp: place_at_def ac_simps)
qed

lemma mem_inv_plain:
  assumes "mem_inv st B" "bucket_ok st b" "\<And>a. b_data b \<noteq> Shared a" "\<And>p. b_data b = PipeOf p \<Longrightarrow> readers p B = 0"
  shows "mem_inv st (add_mset b B)"
  using assms by (auto simp: mem_inv_def)

lemma split_any:
  assumes "mem_inv st (add_mset b B)" "apr_bucket_split st b n = (rv, st', new)"
  shows "mem_inv st' (mset new + B)"
proof (cases "b_type b \<in> {IMMORTAL, TRANSIENT, HEAP, POOL} \<and> n \<le> b_length b")
  case True
  then show ?thesis using apr_bucket_split_ok [OF assms(1), of n] assms(2) by fastforce
next
  case False
  have "b_type b \<in> {IMMORTAL, TRANSIENT, HEAP, POOL} \<or> b_type b \<in> {PIPE, EOS, FLUSH}" by (cases "b_type b") auto
  then have "st' = st \<and> new = [b]" using False assms(2) apr_bucket_split_fails [of b] by auto
  then show ?thesis using assms(1) by simp
qed

lemma place_inv:
  assumes "mem_inv st (mset bs)" "i < length bs"
    "\<And>C. mem_inv st (add_mset (bs ! i) C) \<Longrightarrow> mem_inv st' (mset new + C)"
  shows "mem_inv st' (mset (place_at i new bs))"
  using mset_place [OF assms(2)] assms(1,3) by auto

lemma bucket_step_inv:
  assumes inv: "mem_inv st (mset bs)" and step: "bucket_step (st, bs) opn = (st', bs')"
  shows "mem_inv st' (mset bs')"
proof (cases opn)
  case (SplitAt i n)
  then show ?thesis
    using step inv by (auto split: prod.splits if_splits intro!: place_inv split_any)
next
  case (CopyAt i)
  show ?thesis
  proof (cases "i < length bs \<and> b_type (bs ! i) \<noteq> PIPE")
    case True
    then obtain C where C: "mset bs = add_mset (bs ! i) C" using mset_place by blast
    then show ?thesis using CopyAt step True inv apr_bucket_copy_ok [of st "bs ! i" C] by fastforce
  qed (use CopyAt step inv in \<open>auto simp: apr_bucket_copy_def split: if_splits\<close>)
next
  case (ReadAt i)
  then show ?thesis
    using step inv by (auto split: prod.splits if_splits intro!: place_inv apr_bucket_read_ok(1))
next
  case (SetasideAt i memory)
  have "mem_inv st1 (mset [b1] + C)"
    if "apr_bucket_setaside memory st (bs ! i) = (rv, st1, b1)" "mem_inv st (add_mset (bs ! i) C)" for rv st1 b1 C
    using apr_bucket_setaside_ok [OF that(2,1)] by simp
  then show ?thesis
    using SetasideAt step inv by (auto split: prod.splits if_splits intro!: place_inv)
next
  case (DeleteAt i)
  have "mem_inv (apr_bucket_destroy st (bs ! i)) (mset [] + C)" if "mem_inv st (add_mset (bs ! i) C)" for C
    using apr_bucket_destroy_ok [OF that] by simp
  then show ?thesis
    using DeleteAt step inv by (auto split: if_splits intro!: place_inv)
next
  case (DropPool i)
  then show ?thesis using step inv destroy_pool_ok [of st "mset bs" i] by simp
next
  case (NewHeap s)
  then show ?thesis using step inv apr_bucket_heap_create_ok [of st "mset bs" "length s" s False] by (auto split: if_splits)
next
  case (NewPool s i)
  then show ?thesis using step inv apr_bucket_pool_create_ok [of st "mset bs" "length s" s i] by (auto split: if_splits)
qed (use step inv in \<open>auto split: if_splits intro!: mem_inv_plain simp: bucket_ok_def new_bucket_def
    apr_bucket_immortal_create_def apr_bucket_immortal_make_def apr_bucket_transient_create_def apr_bucket_transient_make_def
    apr_bucket_pipe_create_def apr_bucket_pipe_make_def apr_bucket_eos_create_def apr_bucket_flush_create_def\<close>)

text \<open>The memory before any bucket exists, whatever the pipes will deliver.\<close>

definition empty_mem :: "(nat \<Rightarrow> (apr_status \<times> char list) list) \<Rightarrow> bmem" where
  "empty_mem results = \<lparr>objs = (\<lambda>_. None), fresh = 0, pipe_results = results, pipe_closed = (\<lambda>_. False)\<rparr>"

lemma empty_mem_inv [simp]: "mem_inv (empty_mem results) {#}"
  by (simp add: mem_inv_def empty_mem_def)

lemma bucket_run_inv: "mem_inv (fst s) (mset (snd s)) \<Longrightarrow> s' = foldl bucket_step s ops \<Longrightarrow> mem_inv (fst s') (mset (snd s'))"
proof (induction ops arbitrary: s)
  case (Cons opn ops)
  obtain st bs st' bs' where s: "s = (st, bs)" "bucket_step s opn = (st', bs')" by fastforce
  then have "mem_inv st' (mset bs')" using bucket_step_inv Cons.prems(1) by simp
  then show ?case using Cons.IH [of "(st', bs')"] Cons.prems(2) s by simp
qed simp

lemma no_buckets_no_objects: "mem_inv st {#} \<Longrightarrow> objs st a = None"
  using mem_invD(2) [of st "{#}" a] by (cases "objs st a") auto

section \<open>Properties\<close>

text \<open>
  C9. After any history of creations, splits, copies, reads, set-asides,
  deletions and destroyed pools, every counted buffer that is still allocated is
  referenced by exactly as many buckets as its count says, every bucket that
  needs a buffer has one, and its window lies inside; so when the last bucket is
  gone no buffer is left, and none was freed before.
\<close>

theorem apr_buckets_refcounts_exact:
  "case foldl bucket_step (empty_mem results, []) ops of (st, bs) \<Rightarrow>
     (\<forall>a h. objs st a = Some h \<longrightarrow> refcount h = length (filter (\<lambda>b. b_data b = Shared a) bs) \<and> 0 < refcount h) \<and>
     (\<forall>b \<in> set bs. \<forall>a. b_data b = Shared a \<longrightarrow>
        (\<exists>h. objs st a = Some h \<and> 0 \<le> b_start b \<and> nat (b_start b) + b_length b \<le> alloc_len h \<and>
           alloc_len h \<le> length (if pool h = None then heap_base h else pool_base h))) \<and>
     (bs = [] \<longrightarrow> (\<forall>a. objs st a = None))"
proof -
  obtain st bs where res: "foldl bucket_step (empty_mem results, []) ops = (st, bs)" by fastforce
  have inv: "mem_inv st (mset bs)"
    using bucket_run_inv [of "(empty_mem results, [])" "(st, bs)" ops] res by simp
  have refs: "refs a (mset bs) = length (filter (\<lambda>b. b_data b = Shared a) bs)" for a
    by (induction bs) auto
  have "\<exists>h. objs st a = Some h \<and> 0 \<le> b_start b \<and> nat (b_start b) + b_length b \<le> alloc_len h \<and>
      alloc_len h \<le> length (if pool h = None then heap_base h else pool_base h)"
    if b: "b \<in> set bs" "b_data b = Shared a" for b a
  proof -
    obtain h where "objs st a = Some h" using mem_invD(1) [OF inv, of b] b by (auto simp: bucket_ok_def)
    then show ?thesis
      using mem_invD(1) [OF inv, of b] mem_invD(2) [OF inv, of a h] b by (auto simp: bucket_ok_def the_obj_def obj_data_def)
  qed
  moreover have "refcount h = length (filter (\<lambda>b. b_data b = Shared a) bs) \<and> 0 < refcount h" if "objs st a = Some h" for a h
    using mem_invD(2) [OF inv that] refs by simp
  moreover have "\<forall>a. objs st a = None" if "bs = []" using inv that no_buckets_no_objects by simp
  ultimately show ?thesis unfolding res prod.case by blast
qed

text \<open>A buffer of a split and a copied bucket: three references, and none left after three deletions.\<close>

lemma apr_buckets_refcounts_exact_witness:
  "case foldl bucket_step (empty_mem (\<lambda>_. []), []) [NewHeap ''hello'', SplitAt 0 2, CopyAt 1] of (st, bs) \<Rightarrow>
     length bs = 3 \<and> map_option refcount (objs st 0) = Some 3 \<and>
     (case foldl bucket_step (st, bs) [DeleteAt 0, DeleteAt 0, DeleteAt 0] of (st, bs) \<Rightarrow> bs = [] \<and> objs st 0 = None)"
proof -
  let ?ops = "[NewHeap ''hello'', SplitAt 0 2, CopyAt 1]" and ?del = "[DeleteAt 0, DeleteAt 0, DeleteAt 0]"
  note steps = empty_mem_def new_bucket_def apr_bucket_heap_create_def heap_make_copy apr_bucket_shared_make_def Let_def
    apr_bucket_split_def apr_bucket_shared_split_def apr_bucket_simple_split_def apr_bucket_simple_copy_def add_ref_def
    the_obj_def put_obj_def apr_bucket_copy_def apr_bucket_shared_copy_def place_at_def APR_SIZE_MAX_def
    apr_bucket_destroy_def heap_bucket_destroy_def apr_bucket_shared_destroy_def free_obj_def
  obtain st bs where r: "foldl bucket_step (empty_mem (\<lambda>_. []), []) ?ops = (st, bs)" by fastforce
  obtain st2 bs2 where d: "foldl bucket_step (st, bs) ?del = (st2, bs2)" by fastforce
  have all: "foldl bucket_step (empty_mem (\<lambda>_. []), []) (?ops @ ?del) = (st2, bs2)"
    unfolding foldl_append r using d .
  have n: "length bs = 3" "objs st 0 \<noteq> None" "map b_data bs = [Shared 0, Shared 0, Shared 0]"
    using r by (auto simp: steps)
  have e: "bs2 = []" using all by (auto simp: steps)
  obtain h where h: "objs st 0 = Some h" using n(2) by blast
  have "refcount h = length (filter (\<lambda>b. b_data b = Shared 0) bs)"
    using apr_buckets_refcounts_exact [of "\<lambda>_. []" ?ops] h unfolding r prod.case by blast
  moreover have "length (filter (\<lambda>b. b_data b = Shared 0) bs) = 3"
    using n(3) by (auto simp: map_eq_Cons_conv)
  ultimately have "map_option refcount (objs st 0) = Some 3" using h by simp
  moreover have "objs st2 0 = None"
    using apr_buckets_refcounts_exact [of "\<lambda>_. []" "?ops @ ?del"] e unfolding all prod.case by blast
  ultimately show ?thesis unfolding r prod.case d using n(1) e by simp
qed

text \<open>
  C34. Splitting a bucket that holds data: a point behind the end is refused with
  \<open>APR_EINVAL\<close> and nothing changes; otherwise reading the two buckets that stand
  in its place yields the first \<open>n\<close> bytes and the rest of what reading it yielded,
  reading a copy yields the same bytes, and no other bucket's bytes change.
\<close>

theorem apr_bucket_split_copy_reads:
  assumes "mem_inv st (add_mset b B)" "b_type b \<in> {IMMORTAL, TRANSIENT, HEAP, POOL}"
    "apr_bucket_read st b = (APR_SUCCESS, s, st, rs)"
  shows "(if n \<le> b_length b then
       \<exists>st' x y xs ys. apr_bucket_split st b n = (APR_SUCCESS, st', [x, y]) \<and> mem_inv st' (add_mset x (add_mset y B)) \<and>
         apr_bucket_read st' x = (APR_SUCCESS, take n s, st', xs) \<and>
         apr_bucket_read st' y = (APR_SUCCESS, drop n s, st', ys) \<and> (\<forall>c \<in># B. bytes st' c = bytes st c)
     else apr_bucket_split st b n = (APR_EINVAL, st, [b])) \<and>
    (\<exists>st' c cs. apr_bucket_copy st b = (APR_SUCCESS, st', Some c) \<and> mem_inv st' (add_mset c (add_mset b B)) \<and>
       apr_bucket_read st' c = (APR_SUCCESS, s, st', cs) \<and> (\<forall>c \<in># add_mset b B. bytes st' c = bytes st c))"
proof -
  have reads: "\<exists>xs. apr_bucket_read st' x = (APR_SUCCESS, bytes st' x, st', xs)"
    if inv: "mem_inv st' (add_mset x C)" and t: "b_type x \<noteq> PIPE" for st' x C
  proof -
    obtain rv s' st'' xs where r: "apr_bucket_read st' x = (rv, s', st'', xs)" by (metis prod_cases4)
    note R = apr_bucket_read_ok [OF inv r]
    have "rv = APR_SUCCESS" "st'' = st'" using R(7) t by auto
    moreover have "s' = bytes st' x" using R(3,4,5,7) t \<open>rv = APR_SUCCESS\<close> by (cases xs) auto
    ultimately show ?thesis using r by blast
  qed
  have s: "s = bytes st b" using reads [OF assms(1)] assms(2,3) by auto
  have "\<exists>st' x y xs ys. apr_bucket_split st b n = (APR_SUCCESS, st', [x, y]) \<and> mem_inv st' (add_mset x (add_mset y B)) \<and>
         apr_bucket_read st' x = (APR_SUCCESS, take n s, st', xs) \<and>
         apr_bucket_read st' y = (APR_SUCCESS, drop n s, st', ys) \<and> (\<forall>c \<in># B. bytes st' c = bytes st c)"
    if n: "n \<le> b_length b"
  proof -
    obtain st' x y where X: "apr_bucket_split st b n = (APR_SUCCESS, st', [x, y])" "mem_inv st' (add_mset x (add_mset y B))"
        "untouched st B st'" "bytes st' x = take n (bytes st b)" "bytes st' y = drop n (bytes st b)" "b_type x = b_type b"
      using apr_bucket_split_ok [OF assms(1,2) n] by blast
    then have "b_type y \<noteq> PIPE"
      using assms(2) by (auto simp: apr_bucket_split_def apr_bucket_shared_split_def apr_bucket_simple_split_def
          apr_bucket_simple_copy_def Let_def split: if_splits)
    moreover have "mem_inv st' (add_mset y (add_mset x B))" using X(2) by (simp add: add_mset_commute)
    ultimately obtain ys where "apr_bucket_read st' y = (APR_SUCCESS, drop n s, st', ys)" using reads X(5) s by metis
    moreover obtain xs where "apr_bucket_read st' x = (APR_SUCCESS, take n s, st', xs)" using reads [OF X(2)] X(4,6) assms(2) s by auto
    ultimately show ?thesis using X by (auto simp: untouched_def)
  qed
  moreover have "apr_bucket_split st b n = (APR_EINVAL, st, [b])" if "\<not> n \<le> b_length b"
    using apr_bucket_split_fails(1) [OF assms(2)] that by simp
  moreover have "\<exists>st' c cs. apr_bucket_copy st b = (APR_SUCCESS, st', Some c) \<and> mem_inv st' (add_mset c (add_mset b B)) \<and>
       apr_bucket_read st' c = (APR_SUCCESS, s, st', cs) \<and> (\<forall>c \<in># add_mset b B. bytes st' c = bytes st c)"
  proof -
    obtain st' c where C: "apr_bucket_copy st b = (APR_SUCCESS, st', Some c)" "mem_inv st' (add_mset c (add_mset b B))"
        "untouched st (add_mset b B) st'" "bytes st' c = bytes st b"
      using apr_bucket_copy_ok [OF assms(1)] assms(2) by auto
    have "c = b" using C(1) assms(2)
      by (auto simp: apr_bucket_copy_def apr_bucket_shared_copy_def apr_bucket_simple_copy_def)
    then show ?thesis using reads [OF C(2)] C s assms(2) by (auto simp: untouched_def)
  qed
  ultimately show ?thesis by presburger
qed

text \<open>A heap bucket with five bytes and a pool bucket on the same memory.\<close>

definition sample_mem :: bmem where
  "sample_mem = fst (apr_bucket_heap_create (empty_mem (\<lambda>_. [])) ''hello'' 5 False)"

definition sample_bucket :: apr_bucket where
  "sample_bucket = snd (apr_bucket_heap_create (empty_mem (\<lambda>_. [])) ''hello'' 5 False)"

definition pool_mem :: bmem where
  "pool_mem = fst (apr_bucket_pool_create (empty_mem (\<lambda>_. [])) ''pooled'' 6 1)"

definition pool_bucket :: apr_bucket where
  "pool_bucket = snd (apr_bucket_pool_create (empty_mem (\<lambda>_. [])) ''pooled'' 6 1)"

lemma sample_inv: "mem_inv sample_mem {#sample_bucket#}"
  using apr_bucket_heap_create_ok [OF empty_mem_inv [of "\<lambda>_. []"], of 5 "''hello''" False]
  by (auto simp: sample_mem_def sample_bucket_def APR_SIZE_MAX_def)

lemma pool_inv: "mem_inv pool_mem {#pool_bucket#}"
  using apr_bucket_pool_create_ok [OF empty_mem_inv [of "\<lambda>_. []"], of 6 "''pooled''" 1]
  by (auto simp: pool_mem_def pool_bucket_def APR_SIZE_MAX_def)

lemmas sample_defs = sample_mem_def sample_bucket_def pool_mem_def pool_bucket_def empty_mem_def new_bucket_def
  apr_bucket_heap_create_def heap_make_copy apr_bucket_pool_create_def apr_bucket_pool_make_def
  apr_bucket_shared_make_def Let_def

lemma apr_bucket_split_copy_reads_witness:
  "mem_inv sample_mem {#sample_bucket#} \<and>
   (\<exists>st' x y xs ys. apr_bucket_split sample_mem sample_bucket 2 = (APR_SUCCESS, st', [x, y]) \<and>
      apr_bucket_read st' x = (APR_SUCCESS, ''he'', st', xs) \<and> apr_bucket_read st' y = (APR_SUCCESS, ''llo'', st', ys)) \<and>
   apr_bucket_split sample_mem sample_bucket 6 = (APR_EINVAL, sample_mem, [sample_bucket])"
proof -
  have t: "b_type sample_bucket \<in> {IMMORTAL, TRANSIENT, HEAP, POOL}" "b_length sample_bucket = 5"
    by (simp_all add: sample_defs)
  have r: "apr_bucket_read sample_mem sample_bucket = (APR_SUCCESS, ''hello'', sample_mem, [sample_bucket])"
    by (simp add: sample_defs apr_bucket_read_def heap_bucket_read_def slice_def the_obj_def)
  note T = apr_bucket_split_copy_reads [OF sample_inv t(1) r, unfolded t(2)]
  show ?thesis using sample_inv T [of 2] T [of 6] by (auto simp: numeral_eq_Suc)
qed

text \<open>
  A pool bucket outlives its pool: destroying the pool moves the bytes of
  its buckets to the heap, the next read of the bucket turns it into a heap
  bucket and yields the same bytes as before, and the memory stays well formed.
\<close>

theorem apr_pool_bucket_outlives_pool:
  assumes "mem_inv st (add_mset b B)" "b_type b = POOL" "pool (the_obj st (addr_of (b_data b))) = Some i"
  shows "\<exists>s. apr_bucket_read st b = (APR_SUCCESS, s, st, [b]) \<and>
    apr_bucket_read (destroy_pool i st) b = (APR_SUCCESS, s, destroy_pool i st, [b\<lparr>b_type := HEAP\<rparr>]) \<and>
    mem_inv (destroy_pool i st) (add_mset (b\<lparr>b_type := HEAP\<rparr>) B) \<and>
    (\<forall>c \<in># B. bytes (destroy_pool i st) c = bytes st c)"
proof -
  let ?st = "destroy_pool i st"
  note D = destroy_pool_ok [OF assms(1), of i]
  obtain a h where a: "b_data b = Shared a" "objs st a = Some h" "the_obj st a = h"
    using shared_obj [OF assms(1), of b] assms(2) by auto
  have before: "apr_bucket_read st b = (APR_SUCCESS, bytes st b, st, [b])"
    using a assms(2,3) by (simp add: apr_bucket_read_def pool_bucket_read_def Let_def bytes_def obj_data_def)
  have "pool (the_obj ?st a) = None"
    using a assms(3) by (simp add: destroy_pool_def the_obj_def pool_bucket_cleanup_def)
  then have after: "apr_bucket_read ?st b = (APR_SUCCESS, bytes ?st b, ?st, [b\<lparr>b_type := HEAP\<rparr>])"
    using a(1) assms(2) by (simp add: apr_bucket_read_def pool_bucket_read_def Let_def bytes_def obj_data_def)
  have "mem_inv ?st (add_mset b B)" using D by blast
  from apr_bucket_read_ok(1) [OF this after] have "mem_inv ?st (add_mset (b\<lparr>b_type := HEAP\<rparr>) B)" by simp
  then show ?thesis using before after D by (auto simp: untouched_def)
qed

lemma apr_pool_bucket_outlives_pool_witness:
  "mem_inv pool_mem {#pool_bucket#} \<and>
   apr_bucket_read (destroy_pool 1 pool_mem) pool_bucket =
     (APR_SUCCESS, ''pooled'', destroy_pool 1 pool_mem, [pool_bucket\<lparr>b_type := HEAP\<rparr>])"
proof -
  have t: "b_type pool_bucket = POOL" "pool (the_obj pool_mem (addr_of (b_data pool_bucket))) = Some 1"
    by (simp_all add: sample_defs the_obj_def put_obj_def)
  have r: "apr_bucket_read pool_mem pool_bucket = (APR_SUCCESS, ''pooled'', pool_mem, [pool_bucket])"
    by (simp add: sample_defs apr_bucket_read_def pool_bucket_read_def slice_def the_obj_def put_obj_def)
  show ?thesis using pool_inv apr_pool_bucket_outlives_pool [OF pool_inv t] r by auto
qed

end
