(* ===== verification/Apu_Brigade.thy ===== *)
theory Apu_Brigade
  imports Apu_Buckets
begin

text \<open>
  Bucket brigades (\<open>srclib/apr-util/buckets/apr_brigade.c\<close>). The ring of a
  brigade is the list of its buckets; a pointer to a bucket of the brigade is its
  position and the sentinel the position behind the last. Loops that read may
  find a pipe bucket replaced by a heap bucket and a new pipe bucket; they go on
  at the next bucket, as the code does with \<open>APR_BUCKET_NEXT\<close>.
\<close>

type_synonym brigade = "apr_bucket list"

text \<open>\<open>apr_brigade_flush\<close>: the caller's callback, with its context inside.\<close>

type_synonym flush = "bmem \<times> brigade \<Rightarrow> apr_status \<times> bmem \<times> brigade"

section \<open>Making and cutting brigades\<close>

fun apr_brigade_cleanup :: "bmem \<Rightarrow> brigade \<Rightarrow> bmem" where
  "apr_brigade_cleanup st [] = st"
| "apr_brigade_cleanup st (e # b) = apr_brigade_cleanup (apr_bucket_destroy st e) b"

definition apr_brigade_destroy :: "bmem \<Rightarrow> brigade \<Rightarrow> bmem" where
  "apr_brigade_destroy st b = apr_brigade_cleanup st b"

definition apr_brigade_create :: brigade where
  "apr_brigade_create = []"

definition apr_brigade_split_ex :: "bmem \<Rightarrow> brigade \<Rightarrow> nat \<Rightarrow> brigade option \<Rightarrow> bmem \<times> brigade \<times> brigade" where
  "apr_brigade_split_ex st b e a =
     (let (st, a) = (case a of
            None \<Rightarrow> (st, apr_brigade_create)
          | Some a \<Rightarrow> if a \<noteq> [] then (apr_brigade_cleanup st a, []) else (st, a))
      in if e \<noteq> length b then (st, take e b, drop e b @ a) else (st, b, a))"

definition apr_brigade_split :: "bmem \<Rightarrow> brigade \<Rightarrow> nat \<Rightarrow> bmem \<times> brigade \<times> brigade" where
  "apr_brigade_split st b e = apr_brigade_split_ex st b e None"

section \<open>Finding a point\<close>

text \<open>
  What the body of the loop of \<open>apr_brigade_partition\<close> does with one bucket:
  return, with \<open>*after_point\<close> the bucket itself or its successor, or go on to the
  tests at the end of the body with what now stands in the bucket's place.
\<close>

datatype visit = Stop apr_status bmem "apr_bucket list" nat | Go bmem "apr_bucket list"

definition partition_visit :: "bmem \<Rightarrow> apr_bucket \<Rightarrow> nat \<Rightarrow> visit" where
  "partition_visit st e point64 =
     (if b_length e = APR_SIZE_MAX \<and> point64 > APR_SIZE_MAX then
        (case apr_bucket_read st e of (rv, s, st, es) \<Rightarrow>
           if rv \<noteq> APR_SUCCESS then Stop rv st es 0 else Go st es)
      else if point64 < b_length e \<or> b_length e = APR_SIZE_MAX then
        (case apr_bucket_split st e point64 of (rv, st, es) \<Rightarrow>
           if rv \<noteq> APR_ENOTIMPL then Stop rv st es 1
           else (case apr_bucket_read st e of (rv, s, st, es) \<Rightarrow>
             if rv \<noteq> APR_SUCCESS then Stop rv st es 0
             else if point64 < b_length (hd es) then
               (case apr_bucket_split st (hd es) point64 of (rv, st, fs) \<Rightarrow> Stop rv st (fs @ tl es) 1)
             else Go st es))
      else Go st [e])"

text \<open>Buckets that were passed are kept in \<open>seen\<close>.\<close>

lemma read_progress:
  "(APR_SUCCESS, s, st', es) = apr_bucket_read st e \<Longrightarrow> todo st' (tl es) + todo st' cs < passes st e + todo st cs"
  using read_todo [of st e APR_SUCCESS s st' es cs] by simp

lemma partition_visit_todo: "partition_visit st e n = Go st' es \<Longrightarrow> todo st' (tl es @ cs) < todo st (e # cs)"
proof -
  assume "partition_visit st e n = Go st' es"
  then consider (kept) "st' = st" "es = [e]"
    | (read) s where "apr_bucket_read st e = (APR_SUCCESS, s, st', es)"
    | (split) s st1 es1 where "apr_bucket_split st e n = (APR_ENOTIMPL, st1, es1)"
        "apr_bucket_read st1 e = (APR_SUCCESS, s, st', es)"
    by (auto simp: partition_visit_def split: if_splits prod.splits)
  then show ?thesis
  proof cases
    case split
    then have "st1 = st"
      by (auto simp: apr_bucket_split_def apr_bucket_simple_split_def apr_bucket_shared_split_def Let_def
          split: bucket_type.splits if_splits prod.splits)
    then show ?thesis using read_todo [OF split(2)] by simp
  qed (auto intro: read_progress)
qed

function partition_loop ::
    "bmem \<Rightarrow> brigade \<Rightarrow> brigade \<Rightarrow> nat \<Rightarrow> apr_status \<times> bmem \<times> brigade \<times> nat" where
  "partition_loop st seen [] point64 = (APR_INCOMPLETE, st, seen, length seen)"
| "partition_loop st seen (e # rest) point64 =
     (case partition_visit st e point64 of
        Stop rv st es k \<Rightarrow> (rv, st, seen @ es @ rest, length seen + k)
      | Go st es \<Rightarrow>
          if point64 = b_length (hd es) then (APR_SUCCESS, st, seen @ es @ rest, length seen + 1)
          else partition_loop st (seen @ [hd es]) (tl es @ rest) (point64 - b_length (hd es)))"
  by pat_completeness auto
termination
  by (relation "measure (\<lambda>(st, seen, rest, n). todo st rest)") (auto dest: partition_visit_todo)

definition apr_brigade_partition ::
    "bmem \<Rightarrow> brigade \<Rightarrow> int \<Rightarrow> apr_status \<times> bmem \<times> brigade \<times> nat option" where
  "apr_brigade_partition st b point =
     (if point < 0 then (APR_EINVAL, st, b, None)
      else if point = 0 then (APR_SUCCESS, st, b, Some 0)
      else case partition_loop st [] b (nat point) of (rv, st, b, e) \<Rightarrow> (rv, st, b, Some e))"

section \<open>Measuring and flattening\<close>

text \<open>The bucket's length, read first when it is unknown.\<close>

function length_loop ::
    "bmem \<Rightarrow> brigade \<Rightarrow> brigade \<Rightarrow> bool \<Rightarrow> int \<Rightarrow> apr_status \<times> bmem \<times> brigade \<times> int" where
  "length_loop st seen [] read_all tot = (APR_SUCCESS, st, seen, tot)"
| "length_loop st seen (bkt # rest) read_all tot =
     (if b_length bkt = APR_SIZE_MAX then
        if \<not> read_all then (APR_SUCCESS, st, seen @ bkt # rest, -1)
        else (case apr_bucket_read st bkt of (rv, s, st, es) \<Rightarrow>
          if rv \<noteq> APR_SUCCESS then (rv, st, seen @ es @ rest, tot)
          else length_loop st (seen @ [hd es]) (tl es @ rest) read_all (tot + int (b_length (hd es))))
      else length_loop st (seen @ [bkt]) rest read_all (tot + int (b_length bkt)))"
  by pat_completeness auto
termination
  by (relation "measure (\<lambda>(st, seen, rest, r, t). todo st rest)") (auto intro: read_progress)

definition apr_brigade_length :: "bmem \<Rightarrow> brigade \<Rightarrow> bool \<Rightarrow> apr_status \<times> bmem \<times> brigade \<times> int" where
  "apr_brigade_length st bb read_all = length_loop st [] bb read_all 0"

text \<open>\<open>c\<close> is what was copied so far, \<open>len\<close> the room given by \<open>*len\<close>.\<close>

function flatten_loop ::
    "bmem \<Rightarrow> brigade \<Rightarrow> brigade \<Rightarrow> nat \<Rightarrow> char list \<Rightarrow> apr_status \<times> bmem \<times> brigade \<times> char list" where
  "flatten_loop st seen [] len c = (APR_SUCCESS, st, seen, c)"
| "flatten_loop st seen (b # rest) len c =
     (case apr_bucket_read st b of (status, str, st, es) \<Rightarrow>
        if status \<noteq> APR_SUCCESS then (status, st, seen @ es @ rest, c)
        else
          let str_len = (if length str + length c > len then len - length c else length str);
              c = c @ take str_len str
          in if length c \<ge> len then (APR_SUCCESS, st, seen @ es @ rest, c)
             else flatten_loop st (seen @ [hd es]) (tl es @ rest) len c)"
  by pat_completeness auto
termination
  by (relation "measure (\<lambda>(st, seen, rest, len, c). todo st rest)") (auto intro: read_progress)

text \<open>
  The buffer's contents and \<open>*len\<close> afterwards; a failed read leaves \<open>*len\<close> as it
  was.
\<close>

definition apr_brigade_flatten ::
    "bmem \<Rightarrow> brigade \<Rightarrow> nat \<Rightarrow> apr_status \<times> bmem \<times> brigade \<times> char list \<times> nat" where
  "apr_brigade_flatten st bb len =
     (case flatten_loop st [] bb len [] of (rv, st, bb, c) \<Rightarrow>
        (rv, st, bb, c, if rv = APR_SUCCESS then length c else len))"

text \<open>The allocated string and \<open>*len\<close>, \<open>None\<close> when the call leaves it alone.\<close>

definition apr_brigade_pflatten ::
    "bmem \<Rightarrow> brigade \<Rightarrow> apr_status \<times> bmem \<times> brigade \<times> char list \<times> nat option" where
  "apr_brigade_pflatten st bb =
     (case apr_brigade_length st bb True of (_, st, bb, actual) \<Rightarrow>
        case apr_brigade_flatten st bb (nat actual) of (rv, st, bb, c, tot) \<Rightarrow>
          (rv, st, bb, c, if rv \<noteq> APR_SUCCESS then None else Some tot))"

text \<open>The vectors filled, in place of \<open>vec\<close> and \<open>*nvec\<close>.\<close>

function to_iovec_loop ::
    "bmem \<Rightarrow> brigade \<Rightarrow> brigade \<Rightarrow> nat \<Rightarrow> char list list \<Rightarrow> apr_status \<times> bmem \<times> brigade \<times> char list list" where
  "to_iovec_loop st seen [] left vec = (APR_SUCCESS, st, seen, vec)"
| "to_iovec_loop st seen (e # rest) left vec =
     (if left = 0 then (APR_SUCCESS, st, seen @ e # rest, vec)
      else (case apr_bucket_read st e of (rv, s, st, es) \<Rightarrow>
        if rv \<noteq> APR_SUCCESS then (rv, st, seen @ es @ rest, vec)
        else to_iovec_loop st (seen @ [hd es]) (tl es @ rest) (left - 1) (vec @ [s])))"
  by pat_completeness auto
termination
  by (relation "measure (\<lambda>(st, seen, rest, left, vec). todo st rest)") (auto intro: read_progress)

definition apr_brigade_to_iovec ::
    "bmem \<Rightarrow> brigade \<Rightarrow> nat \<Rightarrow> apr_status \<times> bmem \<times> brigade \<times> char list list" where
  "apr_brigade_to_iovec st b nvec = to_iovec_loop st [] b nvec []"

section \<open>Writing\<close>

text \<open>\<open>apr_size_t\<close> subtraction wraps.\<close>

definition size_minus :: "nat \<Rightarrow> nat \<Rightarrow> nat" where
  "size_minus x y = nat ((int x - int y) mod 2 ^ 64)"

text \<open>\<open>memcpy(h->base + off, s, ...)\<close> for the object at \<open>a\<close>.\<close>

definition heap_write :: "nat \<Rightarrow> nat \<Rightarrow> char list \<Rightarrow> bmem \<Rightarrow> bmem" where
  "heap_write a off s st =
     (let h = the_obj st a
      in put_obj a (h\<lparr>heap_base := take off (heap_base h) @ s @ drop (off + length s) (heap_base h)\<rparr>) st)"

text \<open>Behind the data of a heap bucket: the offset in its buffer and the room that is left.\<close>

definition buf_at :: "apr_bucket \<Rightarrow> nat" where
  "buf_at e = nat (b_start e) + b_length e"

definition remaining_at :: "bmem \<Rightarrow> apr_bucket \<Rightarrow> nat" where
  "remaining_at st e = size_minus (alloc_len (the_obj st (addr_of (b_data e)))) (b_length e + nat (b_start e))"

text \<open>A new heap bucket that owns a fresh buffer of \<open>APR_BUCKET_BUFF_SIZE\<close> bytes.\<close>

definition new_buffer :: "bmem \<Rightarrow> bmem \<times> apr_bucket" where
  "new_buffer st = apr_bucket_heap_create st (replicate APR_BUCKET_BUFF_SIZE junk) APR_BUCKET_BUFF_SIZE True"

definition apr_brigade_write ::
    "flush option \<Rightarrow> bmem \<times> brigade \<Rightarrow> char list \<Rightarrow> apr_status \<times> bmem \<times> brigade" where
  "apr_brigade_write flush stb str =
     (let (st, b) = stb;
          e = last b;
          nbyte = length str;
          buffered = (b \<noteq> [] \<and> b_type e = HEAP);
          remaining = (if buffered then remaining_at st e else APR_BUCKET_BUFF_SIZE)
      in if nbyte > remaining then
           (case flush of
              Some f \<Rightarrow> f (st, b @ [apr_bucket_transient_create str nbyte])
            | None \<Rightarrow> (case apr_bucket_heap_create st str nbyte False of (st, e) \<Rightarrow> (APR_SUCCESS, st, b @ [e])))
         else if \<not> buffered then
           (case new_buffer st of (st, e) \<Rightarrow>
              let e = e\<lparr>b_length := 0\<rparr>
              in (APR_SUCCESS, heap_write (addr_of (b_data e)) (buf_at e) str st,
                  b @ [e\<lparr>b_length := b_length e + nbyte\<rparr>]))
         else
           (APR_SUCCESS, heap_write (addr_of (b_data e)) (buf_at e) str st,
            butlast b @ [e\<lparr>b_length := b_length e + nbyte\<rparr>]))"

text \<open>
  The loop that copies while the vectors fit: the index of the first vector left
  over and the number of bytes copied.
\<close>

fun fit :: "nat \<Rightarrow> char list list \<Rightarrow> char list list \<times> char list list" where
  "fit remaining [] = ([], [])"
| "fit remaining (v # vec) =
     (if length v > remaining then ([], v # vec)
      else case fit (remaining - length v) vec of (done_vec, left) \<Rightarrow> (v # done_vec, left))"

text \<open>The new heap bucket of \<open>apr_brigade_writev\<close> with what is left to write.\<close>

definition writev_rest :: "bmem \<times> brigade \<Rightarrow> char list list \<Rightarrow> nat \<Rightarrow> apr_status \<times> bmem \<times> brigade" where
  "writev_rest stb vec total_len =
     (let (st, b) = stb
      in case new_buffer st of (st, e) \<Rightarrow>
        (APR_SUCCESS, heap_write (addr_of (b_data e)) 0 (concat vec) st, b @ [e\<lparr>b_length := total_len\<rparr>]))"

definition apr_brigade_writev ::
    "flush option \<Rightarrow> bmem \<times> brigade \<Rightarrow> char list list \<Rightarrow> apr_status \<times> bmem \<times> brigade" where
  "apr_brigade_writev flush stb vec =
     (let (st, b) = stb;
          total_len = sum_list (map length vec);
          e = last b
      in if total_len > APR_BUCKET_BUFF_SIZE then
           (case flush of
              Some f \<Rightarrow> f (st, b @ map (\<lambda>v. apr_bucket_transient_create v (length v)) vec)
            | None \<Rightarrow>
                (case fold (\<lambda>v (st, b). case apr_bucket_heap_create st v (length v) False of (st, e) \<Rightarrow> (st, b @ [e]))
                    vec (st, b) of (st, b) \<Rightarrow> (APR_SUCCESS, st, b)))
         else if b \<noteq> [] \<and> b_type e = HEAP then
           (let remaining = remaining_at st e
            in if remaining \<ge> total_len then
                 (APR_SUCCESS, heap_write (addr_of (b_data e)) (buf_at e) (concat vec) st,
                  butlast b @ [e\<lparr>b_length := b_length e + total_len\<rparr>])
               else
                 (case fit remaining vec of (done_vec, left) \<Rightarrow>
                    let n = length (concat done_vec);
                        st = heap_write (addr_of (b_data e)) (buf_at e) (concat done_vec) st;
                        b = butlast b @ [e\<lparr>b_length := b_length e + n\<rparr>]
                    in case flush of
                         None \<Rightarrow> writev_rest (st, b) left (total_len - n)
                       | Some f \<Rightarrow> (case f (st, b) of (rv, st, b) \<Rightarrow>
                           if rv \<noteq> APR_SUCCESS then (rv, st, b) else writev_rest (st, b) left (total_len - n))))
         else writev_rest (st, b) vec total_len)"

definition apr_brigade_puts :: "flush option \<Rightarrow> bmem \<times> brigade \<Rightarrow> char list \<Rightarrow> apr_status \<times> bmem \<times> brigade" where
  "apr_brigade_puts flush stb str =
     (let (st, bb) = stb;
          len = length str;
          bkt = last bb;
          bytes_avail = size_minus (alloc_len (the_obj st (addr_of (b_data bkt)))) (b_length bkt)
      in if bb \<noteq> [] \<and> b_type bkt = HEAP \<and> bytes_avail \<ge> len then
           (APR_SUCCESS, heap_write (addr_of (b_data bkt)) (buf_at bkt) str st,
            butlast bb @ [bkt\<lparr>b_length := b_length bkt + len\<rparr>])
         else apr_brigade_write flush (st, bb) str)"

definition apr_brigade_putc :: "flush option \<Rightarrow> bmem \<times> brigade \<Rightarrow> char \<Rightarrow> apr_status \<times> bmem \<times> brigade" where
  "apr_brigade_putc flush stb c = apr_brigade_write flush stb [c]"

text \<open>The variadic strings are a list; the first NULL ends it.\<close>

fun apr_brigade_vputstrs ::
    "flush option \<Rightarrow> bmem \<times> brigade \<Rightarrow> char list option list \<Rightarrow> apr_status \<times> bmem \<times> brigade" where
  "apr_brigade_vputstrs flush (st, b) [] = (APR_SUCCESS, st, b)"
| "apr_brigade_vputstrs flush (st, b) (None # va) = (APR_SUCCESS, st, b)"
| "apr_brigade_vputstrs flush (st, b) (Some str # va) =
     (case apr_brigade_write flush (st, b) str of (rv, st, b) \<Rightarrow>
        if rv \<noteq> APR_SUCCESS then (rv, st, b) else apr_brigade_vputstrs flush (st, b) va)"

definition apr_brigade_putstrs ::
    "flush option \<Rightarrow> bmem \<times> brigade \<Rightarrow> char list option list \<Rightarrow> apr_status \<times> bmem \<times> brigade" where
  "apr_brigade_putstrs flush stb va = apr_brigade_vputstrs flush stb va"

section \<open>Splitting off a line\<close>

definition APR_ASCII_LF :: char where
  "APR_ASCII_LF = CHR 0x0A"

fun memchr :: "char list \<Rightarrow> char \<Rightarrow> nat option" where
  "memchr [] c = None"
| "memchr (x # xs) c = (if x = c then Some 0 else map_option Suc (memchr xs c))"

text \<open>
  What happens to a bucket without a line feed: metadata and large buckets move
  to \<open>bbOut\<close>, small ones are copied there and destroyed.
\<close>

definition line_store ::
    "bmem \<Rightarrow> brigade \<Rightarrow> apr_bucket \<Rightarrow> char list \<Rightarrow> apr_status \<times> bmem \<times> brigade" where
  "line_store st bbOut e str =
     (if APR_BUCKET_IS_METADATA e \<or> length str > APR_BUCKET_BUFF_SIZE div 4
      then (APR_SUCCESS, st, bbOut @ [e])
      else
        let (rv, st, bbOut) =
          (if length str > 0 then apr_brigade_write None (st, bbOut) str else (APR_SUCCESS, st, bbOut))
        in if rv \<noteq> APR_SUCCESS then (rv, st, bbOut) else (APR_SUCCESS, apr_bucket_destroy st e, bbOut))"

lemma pipe_results_simps [simp]:
  "pipe_results (heap_write a i s st) = pipe_results st"
  "pipe_results (fst (apr_bucket_heap_create st s n own)) = pipe_results st"
  "pipe_results (fst (new_buffer st)) = pipe_results st"
  "pipe_results (apr_bucket_destroy st e) = pipe_results st"
proof -
  show heap: "pipe_results (fst (apr_bucket_heap_create st s n own)) = pipe_results st" for s n own
    by (cases own) (simp_all add: apr_bucket_heap_create_def heap_make_own heap_make_copy)
  show "pipe_results (fst (new_buffer st)) = pipe_results st" by (simp add: new_buffer_def heap)
qed (simp_all add: heap_write_def apr_bucket_destroy_def heap_bucket_destroy_def pool_bucket_destroy_def
    apr_bucket_shared_destroy_def Let_def split: bucket_type.split)

lemma pipe_results_create:
  "(st', e) = apr_bucket_heap_create st s n own \<Longrightarrow> pipe_results st' = pipe_results st"
  "(st', e) = new_buffer st \<Longrightarrow> pipe_results st' = pipe_results st"
  by (metis fst_conv pipe_results_simps(2), metis fst_conv pipe_results_simps(3))

lemma write_pipes: "apr_brigade_write None (st, b) str = (rv, st', b') \<Longrightarrow> pipe_results st' = pipe_results st"
  by (auto simp: apr_brigade_write_def Let_def split: if_splits prod.splits dest: sym dest!: pipe_results_create [OF sym])

lemma line_store_pipes: "line_store st bbOut e str = (rv, st', out') \<Longrightarrow> pipe_results st' = pipe_results st"
  by (auto simp: line_store_def Let_def split: if_splits prod.splits dest: write_pipes)

lemma todo_cong: "pipe_results st' = pipe_results st \<Longrightarrow> todo st' bs = todo st bs"
  by (simp add: todo_def passes_def [abs_def] cong: if_cong)

lemma line_progress:
  assumes "(APR_SUCCESS, str, st1, es) = apr_bucket_read st e" "(rv, st2, out) = line_store st1 bbOut (hd es) str"
  shows "todo st2 (tl es) + todo st2 cs < passes st e + todo st cs"
  using read_progress [OF assms(1)] todo_cong [OF line_store_pipes [OF assms(2) [symmetric]]] by simp

text \<open>
  The loop of \<open>apr_brigade_split_line\<close> over \<open>bbIn\<close>. The status of the split is
  ignored in the code.
\<close>

function split_line_loop ::
    "bmem \<Rightarrow> brigade \<Rightarrow> brigade \<Rightarrow> int \<Rightarrow> int \<Rightarrow> apr_status \<times> bmem \<times> brigade \<times> brigade" where
  "split_line_loop st bbOut [] maxbytes readbytes = (APR_SUCCESS, st, bbOut, [])"
| "split_line_loop st bbOut (e # rest) maxbytes readbytes =
     (case apr_bucket_read st e of (rv, str, st, es) \<Rightarrow>
        if rv \<noteq> APR_SUCCESS then (rv, st, bbOut, es @ rest)
        else
          (case memchr str APR_ASCII_LF of
             Some pos \<Rightarrow>
               (case apr_bucket_split st (hd es) (pos + 1) of (_, st, fs) \<Rightarrow>
                  (APR_SUCCESS, st, bbOut @ [hd fs], tl fs @ tl es @ rest))
           | None \<Rightarrow>
               (case line_store st bbOut (hd es) str of (rv, st, bbOut) \<Rightarrow>
                  if rv \<noteq> APR_SUCCESS then (rv, st, bbOut, tl es @ rest)
                  else if readbytes + int (length str) \<ge> maxbytes then (APR_SUCCESS, st, bbOut, tl es @ rest)
                  else split_line_loop st bbOut (tl es @ rest) maxbytes (readbytes + int (length str)))))"
  by pat_completeness auto

termination
  by (relation "measure (\<lambda>(st, bbOut, rest, m, r). todo st rest)") (auto intro: line_progress)

definition apr_brigade_split_line ::
    "bmem \<Rightarrow> brigade \<Rightarrow> brigade \<Rightarrow> int \<Rightarrow> apr_status \<times> bmem \<times> brigade \<times> brigade" where
  "apr_brigade_split_line st bbOut bbIn maxbytes = split_line_loop st bbOut bbIn maxbytes 0"

end
