(* ===== verification/Apu_Brigade_Laws.thy ===== *)
theory Apu_Brigade_Laws
  imports Apu_Brigade
begin

text \<open>
  What the brigade operations do to the bytes a brigade stands for: finding a
  point, measuring and flattening, writing, splitting off a line and cleaning
  up, each with the invariant of the memory kept and the buckets of other
  brigades untouched.
\<close>

definition content :: "bmem \<Rightarrow> brigade \<Rightarrow> char list" where
  "content st bb = concat (map (bytes st) bb)"

lemma content_simps [simp]:
  "content st [] = []" "content st (b # bb) = bytes st b @ content st bb"
  "content st (bb @ cc) = content st bb @ content st cc"
  by (simp_all add: content_def)

lemma untouched_content: "untouched st (mset bb) st' \<Longrightarrow> content st' bb = content st bb"
  by (induction bb) auto

lemma data_length:
  assumes "mem_inv st (add_mset b B)" "b_type b \<noteq> PIPE"
  shows "length (bytes st b) = b_length b" "b_length b < APR_SIZE_MAX"
proof -
  show "length (bytes st b) = b_length b" using bytes_length [OF assms(1) _ assms(2)] by simp
  have "bucket_ok st b" using mem_invD(1) [OF assms(1)] by simp
  then show "b_length b < APR_SIZE_MAX"
    using assms(2) by (auto simp: bucket_ok_def APR_SIZE_MAX_def split: bucket_data.splits)
qed

lemma pipe_length:
  assumes "mem_inv st (add_mset b B)"
  shows "b_length b = APR_SIZE_MAX \<longleftrightarrow> b_type b = PIPE"
  using data_length(2) [OF assms] mem_invD(1) [OF assms, of b]
  by (cases "b_type b = PIPE") (auto simp: bucket_ok_def split: bucket_data.splits)

text \<open>The rules with the bucket read in front of a list of others.\<close>

lemma read_front:
  assumes inv: "mem_inv st (add_mset e B)" and read: "apr_bucket_read st e = (rv, s, st', es)"
  shows "mem_inv st' (mset es + B)" "untouched st B st'" "content st' es = bytes st e"
    "rv = APR_SUCCESS \<Longrightarrow> \<exists>e' tail. es = e' # tail \<and> s = bytes st' e' \<and> b_length e' = length s \<and> b_length e' < APR_SIZE_MAX \<and> b_type e' \<noteq> PIPE"
    "rv \<noteq> APR_SUCCESS \<Longrightarrow> s = [] \<and> es = [e] \<and> b_type e = PIPE"
proof -
  note R = apr_bucket_read_ok [OF inv read]
  show inv': "mem_inv st' (mset es + B)" and "untouched st B st'" using R(1,2) .
  show "content st' es = bytes st e" using R(3) by (simp add: content_def)
  show "rv \<noteq> APR_SUCCESS \<Longrightarrow> s = [] \<and> es = [e] \<and> b_type e = PIPE" using R(6,7) by blast
  assume "rv = APR_SUCCESS"
  then obtain e' tail where es: "es = e' # tail" "s = bytes st' e'" "b_type e' \<noteq> PIPE"
    using R(4,5) by (cases es) auto
  then have "mem_inv st' (add_mset e' (mset tail + B))" using inv' by simp
  then show "\<exists>e' tail. es = e' # tail \<and> s = bytes st' e' \<and> b_length e' = length s \<and> b_length e' < APR_SIZE_MAX \<and> b_type e' \<noteq> PIPE"
    using es data_length [of st' e' "mset tail + B"] by auto
qed

section \<open>Partition\<close>

text \<open>What a visit leaves, whether it returns or goes on.\<close>

definition kept :: "bmem \<Rightarrow> apr_bucket \<Rightarrow> apr_bucket multiset \<Rightarrow> bmem \<Rightarrow> apr_bucket list \<Rightarrow> bool" where
  "kept st e B st' es \<longleftrightarrow> mem_inv st' (mset es + B) \<and> untouched st B st' \<and> content st' es = bytes st e \<and> es \<noteq> []"

lemma split_inside:
  assumes inv: "mem_inv st (add_mset e B)" and n: "0 < n" "n < b_length e" "b_type e \<noteq> PIPE"
  shows "\<exists>st' x y. apr_bucket_split st e n = (APR_SUCCESS, st', [x, y]) \<and>
    mem_inv st' (mset [x, y] + B) \<and> untouched st B st' \<and> bytes st' x = take n (bytes st e) \<and>
    content st' [x, y] = bytes st e"
proof -
  have "b_type e \<in> {IMMORTAL, TRANSIENT, HEAP, POOL}"
    using mem_invD(1) [OF inv, of e] n by (auto simp: bucket_ok_def split: bucket_data.splits)
  then show ?thesis
    using apr_bucket_split_ok [OF inv, of n] n(2) by (fastforce simp: add_mset_commute)
qed

lemma visit_ok:
  assumes inv: "mem_inv st (add_mset e B)" and n: "0 < n"
  shows "case partition_visit st e n of
      Stop rv st' es k \<Rightarrow> kept st e B st' es \<and>
        (rv = APR_SUCCESS \<longrightarrow> k = 1 \<and> bytes st' (hd es) = take n (bytes st e) \<and> n \<le> length (bytes st e)) \<and>
        (rv \<noteq> APR_SUCCESS \<longrightarrow> k = 0 \<and> b_type e = PIPE)
    | Go st' es \<Rightarrow> kept st e B st' es \<and> length (bytes st' (hd es)) = b_length (hd es) \<and> b_length (hd es) \<le> n"
proof (cases "b_type e = PIPE")
  case False
  note len = data_length [OF inv False]
  show ?thesis
  proof (cases "n < b_length e")
    case True
    obtain st' x y where split: "apr_bucket_split st e n = (APR_SUCCESS, st', [x, y])"
        "mem_inv st' (mset [x, y] + B)" "untouched st B st'" "bytes st' x = take n (bytes st e)" "content st' [x, y] = bytes st e"
      using split_inside [OF inv n True False] by blast
    then show ?thesis using True len by (simp add: partition_visit_def kept_def)
  next
    case out: False
    then show ?thesis using len inv by (simp add: partition_visit_def kept_def)
  qed
next
  case True
  then have max: "b_length e = APR_SIZE_MAX" using pipe_length [OF inv] by simp
  obtain rv s st' es where read: "apr_bucket_read st e = (rv, s, st', es)" by (metis prod_cases4)
  note R = read_front [OF inv read]
  have cut: "apr_bucket_split st e n = (APR_ENOTIMPL, st, [e])" using True by (simp add: apr_bucket_split_def)
  show ?thesis
  proof (cases "rv = APR_SUCCESS")
    case False
    then show ?thesis using max read cut R(1-3,5) True by (simp add: partition_visit_def kept_def)
  next
    case ok: True
    obtain e' tail where e': "es = e' # tail" "s = bytes st' e'" "b_length e' = length s" "b_length e' < APR_SIZE_MAX" "b_type e' \<noteq> PIPE"
      using R(4) [OF ok] by blast
    show ?thesis
    proof (cases "n < b_length e'")
      case True
      have "mem_inv st' (add_mset e' (mset tail + B))" using R(1) e'(1) by simp
      from split_inside [OF this n True e'(5)] obtain st2 x y where
        split: "apr_bucket_split st' e' n = (APR_SUCCESS, st2, [x, y])" "mem_inv st2 (mset [x, y] + (mset tail + B))"
          "untouched st' (mset tail + B) st2" "bytes st2 x = take n (bytes st' e')" "content st2 [x, y] = bytes st' e'"
        by blast
      have "content st2 ([x, y] @ tail) = content st2 [x, y] @ content st2 tail" by (rule content_simps(3))
      also have "\<dots> = bytes st e"
        unfolding split(5) using split(3) R(3) e'(1) untouched_content [of st' tail st2] by simp
      finally have "content st2 ([x, y] @ tail) = bytes st e" .
      moreover have "take n (bytes st' e') = take n (bytes st e) \<and> n \<le> length (bytes st e)"
        using R(3) [symmetric] e'(1-3) True by auto
      moreover have "untouched st B st2" using split(3) R(2) by (auto intro: untouched_trans)
      ultimately show ?thesis
        using max read cut ok e'(1,4) True split by (auto simp: partition_visit_def kept_def add.assoc)
    next
      case False
      then show ?thesis
        using max read cut ok e' R(1-3) by (auto simp: partition_visit_def kept_def)
    qed
  qed
qed

lemma partition_loop_ok:
  assumes "mem_inv st (mset (seen @ rest) + B)" "0 < n" "partition_loop st seen rest n = (rv, st', b', k)"
  shows "mem_inv st' (mset b' + B) \<and> untouched st B st' \<and> content st' b' = content st (seen @ rest) \<and>
    (rv = APR_SUCCESS \<longrightarrow> k \<le> length b' \<and> content st' (take k b') = content st seen @ take n (content st rest) \<and>
       n \<le> length (content st rest)) \<and>
    (rv \<noteq> APR_SUCCESS \<and> k = length b' \<longrightarrow> rv = APR_INCOMPLETE \<and> length (content st rest) < n) \<and>
    (rv \<noteq> APR_SUCCESS \<and> k \<noteq> length b' \<longrightarrow> k < length b' \<and> b_type (b' ! k) = PIPE)"
  using assms
proof (induction st seen rest n arbitrary: rv st' b' k rule: partition_loop.induct)
  case (2 st seen e rest n)
  let ?B = "mset seen + mset rest + B"
  have inv: "mem_inv st (add_mset e ?B)" using "2.prems"(1) by simp
  note V = visit_ok [OF inv "2.prems"(2)]
  show ?case
  proof (cases "partition_visit st e n")
    case (Stop rv1 st1 es k1)
    then have res: "rv = rv1" "st' = st1" "b' = seen @ es @ rest" "k = length seen + k1"
      using "2.prems"(3) by auto
    have K: "mem_inv st1 (mset es + ?B)" "untouched st ?B st1" "content st1 es = bytes st e" "es \<noteq> []"
      using V Stop by (auto simp: kept_def)
    have same: "content st1 seen = content st seen" "content st1 rest = content st rest"
      using K(2) by (simp_all add: untouched_content)
    have "take (length seen + 1) (seen @ es @ rest) = seen @ [hd es] \<and> Suc 0 \<le> length es" using K(4) by (cases es) auto
    moreover have "b_type e = PIPE \<and> k1 = 0 \<Longrightarrow> b_type ((seen @ es @ rest) ! length seen) = PIPE" if "rv1 \<noteq> APR_SUCCESS"
    proof -
      have "es = [e]" if "b_type e = PIPE"
        using Stop V \<open>rv1 \<noteq> APR_SUCCESS\<close> that inv read_front(5) [OF inv]
        by (auto simp: partition_visit_def apr_bucket_split_def pipe_length [OF inv] split: if_splits prod.splits)
      then show "b_type e = PIPE \<and> k1 = 0 \<Longrightarrow> ?thesis" by (simp add: nth_append)
    qed
    ultimately show ?thesis
      using V Stop K same unfolding res by (auto simp: ac_simps nth_append)
  next
    case (Go st1 es)
    obtain e' tail where es: "es = e' # tail" using V Go by (cases es) (auto simp: kept_def)
    have K: "mem_inv st1 (mset es + ?B)" "untouched st ?B st1" "content st1 es = bytes st e"
        "length (bytes st1 e') = b_length e'" "b_length e' \<le> n"
      using V Go es by (auto simp: kept_def)
    have same: "content st1 seen = content st seen" "content st1 rest = content st rest" "untouched st B st1"
      using K(2) by (simp_all add: untouched_content)
    have whole: "bytes st e = bytes st1 e' @ content st1 tail" using K(3) es by simp
    show ?thesis
    proof (cases "n = b_length e'")
      case True
      then have "rv = APR_SUCCESS" "st' = st1" "b' = seen @ es @ rest" "k = length seen + 1"
        using "2.prems"(3) Go es by auto
      moreover have "take (length seen + 1) (seen @ es @ rest) = seen @ [e']" using es by simp
      ultimately show ?thesis
        using K same True whole es by (simp add: ac_simps)
    next
      case False
      have next': "partition_loop st1 (seen @ [e']) (tail @ rest) (n - b_length e') = (rv, st', b', k)"
        using "2.prems"(3) Go es False by simp
      have "mem_inv st1 (mset ((seen @ [e']) @ tail @ rest) + B)" using K(1) es by (simp add: ac_simps)
      moreover have "0 < n - b_length e'" using K(5) False by simp
      ultimately have IH: "mem_inv st' (mset b' + B) \<and> untouched st1 B st' \<and>
          content st' b' = content st1 ((seen @ [e']) @ tail @ rest) \<and>
          (rv = APR_SUCCESS \<longrightarrow> k \<le> length b' \<and>
             content st' (take k b') = content st1 (seen @ [e']) @ take (n - b_length e') (content st1 (tail @ rest)) \<and>
             n - b_length e' \<le> length (content st1 (tail @ rest))) \<and>
          (rv \<noteq> APR_SUCCESS \<and> k = length b' \<longrightarrow> rv = APR_INCOMPLETE \<and> length (content st1 (tail @ rest)) < n - b_length e') \<and>
          (rv \<noteq> APR_SUCCESS \<and> k \<noteq> length b' \<longrightarrow> k < length b' \<and> b_type (b' ! k) = PIPE)"
        using "2.IH" [OF Go, of rv st' b' k] False es next' by simp
      have "take n (content st (e # rest)) = bytes st1 e' @ take (n - b_length e') (content st1 (tail @ rest))"
        using K(4,5) whole same by simp
      moreover have "length (content st (e # rest)) = b_length e' + length (content st1 (tail @ rest))"
        using K(4) whole same by simp
      ultimately show ?thesis
        using IH K(5) same whole untouched_trans [OF same(3)] by auto
    qed
  qed
qed simp

section \<open>Loops that read every bucket\<close>

text \<open>One step of such a loop, as its induction needs it.\<close>

lemma loop_read:
  assumes inv: "mem_inv st (mset (seen @ e # rest) + B)" and read: "apr_bucket_read st e = (rv, s, st1, es)"
  obtains (ok) e' tail where "rv = APR_SUCCESS" "es = e' # tail" "mem_inv st1 (mset ((seen @ [e']) @ tail @ rest) + B)"
      "untouched st B st1" "content st1 seen = content st seen" "content st1 rest = content st rest"
      "s = bytes st1 e'" "b_length e' = length s" "bytes st e = s @ content st1 tail" "map (bytes st1) seen = map (bytes st) seen"
  | (failed) "rv \<noteq> APR_SUCCESS" "es = [e]" "b_type e = PIPE" "mem_inv st1 (mset (seen @ e # rest) + B)"
      "untouched st B st1" "content st1 (seen @ e # rest) = content st (seen @ e # rest)"
proof -
  let ?B = "mset seen + mset rest + B"
  have inv': "mem_inv st (add_mset e ?B)" using inv by simp
  note R = read_front [OF inv' read]
  have same: "content st1 seen = content st seen" "content st1 rest = content st rest" "untouched st B st1"
    using R(2) by (simp_all add: untouched_content)
  have eq: "map (bytes st1) seen = map (bytes st) seen" using R(2) by (auto simp: untouched_def)
  show thesis
  proof (cases "rv = APR_SUCCESS")
    case True
    then obtain e' tail where e': "es = e' # tail" "s = bytes st1 e'" "b_length e' = length s" using R(4) by blast
    then show thesis using R(1,3) same eq by (intro ok [OF True e'(1)]) (simp_all add: ac_simps)
  next
    case False
    then show thesis using R(1,3,5) same by (intro failed) (simp_all add: ac_simps)
  qed
qed

lemma length_loop_ok:
  assumes "mem_inv st (mset (seen @ rest) + B)" "length_loop st seen rest read_all tot = (rv, st', b', tot')"
  shows "mem_inv st' (mset b' + B) \<and> untouched st B st' \<and> content st' b' = content st (seen @ rest) \<and>
    (rv = APR_SUCCESS \<and> (read_all \<or> (\<forall>b \<in> set rest. b_type b \<noteq> PIPE)) \<longrightarrow> tot' = tot + int (length (content st rest))) \<and>
    (\<not> read_all \<and> (\<exists>b \<in> set rest. b_type b = PIPE) \<longrightarrow> rv = APR_SUCCESS \<and> tot' = -1) \<and>
    (rv \<noteq> APR_SUCCESS \<longrightarrow> (\<exists>b \<in> set rest. b_type b = PIPE))"
  using assms
proof (induction st seen rest read_all tot arbitrary: rv st' b' tot' rule: length_loop.induct)
  case (2 st seen bkt rest read_all tot)
  have inv: "mem_inv st (add_mset bkt (mset seen + mset rest + B))" using "2.prems"(1) by simp
  show ?case
  proof (cases "b_length bkt = APR_SIZE_MAX")
    case False
    then have len: "length (bytes st bkt) = b_length bkt" and pipe: "b_type bkt \<noteq> PIPE"
      using data_length [OF inv] pipe_length [OF inv] by auto
    have "mem_inv st (mset ((seen @ [bkt]) @ rest) + B)" using "2.prems"(1) by simp
    with "2.IH"(2) [OF False, of rv st' b' tot'] False "2.prems"(2)
    show ?thesis by (auto simp: len pipe)
  next
    case True
    then have pipe: "b_type bkt = PIPE" using pipe_length [OF inv] by simp
    show ?thesis
    proof (cases read_all)
      case False
      then show ?thesis using "2.prems" True pipe by auto
    next
      case all: True
      obtain rv1 s st1 es where read: "apr_bucket_read st bkt = (rv1, s, st1, es)" by (metis prod_cases4)
      from "2.prems"(1) read show ?thesis
      proof (cases rule: loop_read)
        case (ok e' tail)
        then have "length_loop st1 (seen @ [e']) (tail @ rest) read_all (tot + int (b_length e')) = (rv, st', b', tot')"
          using "2.prems"(2) True all read by simp
        with "2.IH"(1) [of rv1 "(s, st1, es)" s "(st1, es)" st1 es rv st' b' tot'] ok all pipe True read
        show ?thesis by (auto intro: untouched_trans)
      next
        case failed
        then show ?thesis using "2.prems"(2) True all read pipe by auto
      qed
    qed
  qed
qed simp

lemma flatten_step:
  assumes "apr_bucket_read st b = (APR_SUCCESS, s, st1, es)"
  shows "flatten_loop st seen (b # rest) len c =
    (let c = c @ take (len - length c) s
     in if length c \<ge> len then (APR_SUCCESS, st1, seen @ es @ rest, c)
        else flatten_loop st1 (seen @ [hd es]) (tl es @ rest) len c)"
  using assms by (cases "length s + length c > len") (auto simp: Let_def)

lemma flatten_loop_ok:
  assumes "mem_inv st (mset (seen @ rest) + B)" "length c \<le> len" "flatten_loop st seen rest len c = (rv, st', b', c')"
  shows "mem_inv st' (mset b' + B) \<and> untouched st B st' \<and> content st' b' = content st (seen @ rest) \<and>
    (rv = APR_SUCCESS \<longrightarrow> c' = c @ take (len - length c) (content st rest)) \<and> length c' \<le> len"
  using assms
proof (induction "todo st rest" arbitrary: st seen rest c rule: less_induct)
  case less
  show ?case
  proof (cases rest)
    case Nil
    then show ?thesis using less.prems by auto
  next
    case (Cons b bs)
    obtain rv1 s st1 es where read: "apr_bucket_read st b = (rv1, s, st1, es)" by (metis prod_cases4)
    let ?c = "c @ take (len - length c) s"
    from less.prems(1) [unfolded Cons] read show ?thesis
    proof (cases rule: loop_read)
      case (ok e' tail)
      have whole: "content st rest = s @ content st1 (tail @ bs)" using ok Cons by simp
      show ?thesis
      proof (cases "len \<le> length ?c")
        case True
        have "flatten_loop st seen rest len c = (APR_SUCCESS, st1, seen @ es @ bs, ?c)"
          unfolding Cons flatten_step [OF read [unfolded ok(1)]] Let_def by (simp only: True if_True)
        then have "rv = APR_SUCCESS" "st' = st1" "b' = seen @ es @ bs" "c' = ?c"
          using less.prems(3) by auto
        moreover have "take (len - length c) s = take (len - length c) (content st rest)"
          unfolding whole using True less.prems(2) by auto
        ultimately show ?thesis using ok less.prems(2) whole Cons by (simp add: ac_simps)
      next
        case False
        then have short: "take (len - length c) s = s" "length c + length s < len" using less.prems(2) by auto
        have "todo st1 (tail @ bs) < todo st rest"
          using read_progress [of s st1 es st b bs] read ok(1,2) Cons by simp
        moreover have "flatten_loop st1 (seen @ [e']) (tail @ bs) len (c @ s) = (rv, st', b', c')"
          using less.prems(3) flatten_step [OF read [unfolded ok(1)]] ok(2) False short Cons by (simp add: Let_def)
        ultimately have "mem_inv st' (mset b' + B) \<and> untouched st1 B st' \<and> content st' b' = content st1 ((seen @ [e']) @ tail @ bs) \<and>
          (rv = APR_SUCCESS \<longrightarrow> c' = (c @ s) @ take (len - length (c @ s)) (content st1 (tail @ bs))) \<and> length c' \<le> len"
          using less.hyps [of st1 "tail @ bs" "seen @ [e']" "c @ s"] ok(3) short by simp
        then show ?thesis using ok short whole Cons untouched_trans [OF ok(4)] by auto
      qed
    next
      case failed
      then have "rv = rv1" "st' = st1" "b' = seen @ es @ bs" "c' = c" using less.prems(3) read Cons by auto
      then show ?thesis using failed less.prems(2) Cons by auto
    qed
  qed
qed

lemma to_iovec_loop_ok:
  assumes "mem_inv st (mset (seen @ rest) + B)" "vec = map (bytes st) seen" "length vec + left = n"
    "to_iovec_loop st seen rest left vec = (rv, st', b', vec')"
  shows "mem_inv st' (mset b' + B) \<and> untouched st B st' \<and> content st' b' = content st (seen @ rest) \<and>
    vec' = map (bytes st') (take (length vec') b') \<and> length vec' \<le> n \<and>
    (rv = APR_SUCCESS \<longrightarrow> length vec' = n \<or> length vec' = length b')"
  using assms
proof (induction st seen rest left vec arbitrary: rv st' b' vec' rule: to_iovec_loop.induct)
  case (2 st seen e rest left vec)
  show ?case
  proof (cases "left = 0")
    case True
    then show ?thesis using "2.prems" by auto
  next
    case False
    obtain rv1 s st1 es where read: "apr_bucket_read st e = (rv1, s, st1, es)" by (metis prod_cases4)
    from "2.prems"(1) read show ?thesis
    proof (cases rule: loop_read)
      case (ok e' tail)
      have "to_iovec_loop st1 (seen @ [e']) (tail @ rest) (left - 1) (vec @ [s]) = (rv, st', b', vec')"
        using "2.prems"(4) False read ok(1,2) by simp
      moreover have "vec @ [s] = map (bytes st1) (seen @ [e'])" using "2.prems"(2) ok by simp
      moreover have "length (vec @ [s]) + (left - 1) = n" using "2.prems"(3) False by simp
      ultimately have "mem_inv st' (mset b' + B) \<and> untouched st1 B st' \<and> content st' b' = content st1 ((seen @ [e']) @ tail @ rest) \<and>
        vec' = map (bytes st') (take (length vec') b') \<and> length vec' \<le> n \<and>
        (rv = APR_SUCCESS \<longrightarrow> length vec' = n \<or> length vec' = length b')"
        using "2.IH" [of rv1 "(s, st1, es)" s "(st1, es)" st1 es rv st' b' vec'] ok False read by simp
      then show ?thesis using ok untouched_trans [OF ok(4)] by auto
    next
      case failed
      then have r: "rv = rv1" "st' = st1" "b' = seen @ es @ rest" "vec' = vec" using "2.prems"(4) False read by auto
      have "map (bytes st1) seen = map (bytes st) seen"
        using read_front(2) [of st e "mset seen + mset rest + B", OF _ read] "2.prems"(1) by (auto simp: untouched_def)
      then show ?thesis using failed r "2.prems"(2,3) by auto
    qed
  qed
qed simp

section \<open>Cleaning up\<close>

lemma cleanup_ok: "mem_inv st (mset b + B) \<Longrightarrow> mem_inv (apr_brigade_cleanup st b) B \<and> untouched st B (apr_brigade_cleanup st b)"
proof (induction st b rule: apr_brigade_cleanup.induct)
  case (2 st e b)
  have D: "mem_inv (apr_bucket_destroy st e) (mset b + B) \<and> untouched st (mset b + B) (apr_bucket_destroy st e)"
    using apr_bucket_destroy_ok [of st e "mset b + B"] "2.prems" by simp
  then show ?case using "2.IH" by (auto intro: untouched_trans)
qed simp

section \<open>Writing behind a heap bucket\<close>

text \<open>No bucket of \<open>C\<close> reaches behind the end of \<open>e\<close> in the buffer of \<open>e\<close>.\<close>

definition behind :: "apr_bucket multiset \<Rightarrow> apr_bucket \<Rightarrow> bool" where
  "behind C e \<longleftrightarrow> (\<forall>c \<in># C. b_data c = b_data e \<longrightarrow> buf_at c \<le> buf_at e)"

lemma slice_write_before:
  "nat i + n \<le> off \<Longrightarrow> off \<le> length base \<Longrightarrow> slice i n (take off base @ s @ t) = slice i n base"
  by (simp add: slice_def drop_take)

lemma slice_write_at:
  "nat i + n \<le> length base \<Longrightarrow> slice i (n + length s) (take (nat i + n) base @ s @ t) = slice i n base @ s"
  by (simp add: slice_def drop_take)

lemma size_minus_le: "y \<le> x \<Longrightarrow> x < APR_SIZE_MAX \<Longrightarrow> size_minus x y = x - y"
  by (simp add: size_minus_def APR_SIZE_MAX_def of_nat_diff [symmetric] del: of_nat_diff)

lemma extend_inv:
  assumes inv: "mem_inv st (add_mset e B)" and e: "b_type e = HEAP" "b_data e = Shared a"
    and fits: "buf_at e + length s \<le> alloc_len (the_obj st a)" and behind: "behind B e"
  shows "mem_inv (heap_write a (buf_at e) s st) (add_mset (e\<lparr>b_length := b_length e + length s\<rparr>) B) \<and>
    untouched st B (heap_write a (buf_at e) s st) \<and>
    bytes (heap_write a (buf_at e) s st) (e\<lparr>b_length := b_length e + length s\<rparr>) = bytes st e @ s"
proof -
  let ?off = "buf_at e" and ?e = "e\<lparr>b_length := b_length e + length s\<rparr>"
  have ok: "bucket_ok st e" using mem_invD(1) [OF inv] by simp
  then obtain h where h: "objs st a = Some h" "the_obj st a = h" "pool h = None" "0 \<le> b_start e"
    using e by (auto simp: bucket_ok_def the_obj_def)
  have len: "alloc_len h \<le> length (heap_base h)" "alloc_len h < APR_SIZE_MAX"
    using mem_invD(2) [OF inv h(1)] h(3) by (simp_all add: obj_data_def)
  have off: "?off + length s \<le> length (heap_base h)" using fits len h(2) by simp
  let ?base = "take ?off (heap_base h) @ s @ drop (?off + length s) (heap_base h)"
  let ?h = "h\<lparr>heap_base := ?base\<rparr>" and ?st = "heap_write a ?off s st"
  have st': "?st = put_obj a ?h st" using h(2) by (simp add: heap_write_def)
  have ln: "length ?base = length (heap_base h)" using off by simp
  have oks: "bucket_ok ?st c = bucket_ok st c" for c
    using h by (auto simp: bucket_ok_def st' the_obj_simps split: bucket_data.split)
  have same: "bytes ?st c = bytes st c" if c: "c \<in># B" for c
  proof (cases "b_data c = Shared a")
    case True
    have "nat (b_start c) + b_length c \<le> ?off"
      using behind c True e(2) by (auto simp: behind_def buf_at_def)
    then show ?thesis
      using slice_write_before [of "b_start c" "b_length c" ?off "heap_base h" s] off True h(2,3)
      by (simp add: bytes_def st' the_obj_simps obj_data_def)
  next
    case False
    then show ?thesis by (auto simp: bytes_def st' the_obj_simps split: bucket_data.split)
  qed
  have obj: "obj_data (the_obj ?st a) = ?base" "obj_data (the_obj st a) = heap_base h"
    using h(2,3) by (simp_all add: st' the_obj_simps obj_data_def)
  have new: "bytes ?st ?e = bytes st e @ s"
    using slice_write_at [of "b_start e" "b_length e" "heap_base h" s] off e(2)
    by (simp add: bytes_def obj) (simp add: buf_at_def)
  have "bucket_ok st ?e"
    using ok fits len e h by (auto simp: bucket_ok_def buf_at_def)
  then have "bucket_ok ?st ?e" by (simp only: oks)
  moreover have "bucket_ok ?st c" if "c \<in># B" for c using oks mem_invD(1) [OF inv] that by simp
  moreover have "readers p (add_mset ?e B) \<le> 1" for p using mem_invD(3) [OF inv, of p] by simp
  moreover have "alloc_len h' \<le> length (obj_data h') \<and> refcount h' = refs x (add_mset ?e B) \<and>
      0 < refs x (add_mset ?e B) \<and> x < fresh ?st \<and> alloc_len h' < APR_SIZE_MAX" if h': "objs ?st x = Some h'" for x h'
  proof (cases "x = a")
    case True
    then have "h' = ?h" using h' st' by simp
    then show ?thesis using mem_invD(2) [OF inv h(1)] True ln h(3) e(2) st' by (simp add: obj_data_def)
  next
    case False
    then have "objs st x = Some h'" using h' st' by simp
    then show ?thesis using mem_invD(2) [OF inv, of x h'] st' by simp
  qed
  ultimately have "mem_inv ?st (add_mset ?e B)" by (auto simp: mem_inv_def)
  then show ?thesis using same new by (simp add: untouched_def)
qed

lemma new_buffer_ok:
  assumes "mem_inv st B" "new_buffer st = (st', e)"
  shows "mem_inv st' (add_mset e B) \<and> untouched st B st' \<and> b_type e = HEAP \<and> b_data e = Shared (fresh st) \<and>
    b_start e = 0 \<and> b_length e = APR_BUCKET_BUFF_SIZE \<and> alloc_len (the_obj st' (fresh st)) = APR_BUCKET_BUFF_SIZE \<and>
    mem_inv st' (add_mset (e\<lparr>b_length := 0\<rparr>) B) \<and> (\<forall>c \<in># B. b_data c \<noteq> Shared (fresh st))"
proof -
  obtain st1 e1 where c: "new_buffer st = (st1, e1)" "mem_inv st1 (add_mset e1 B)" "untouched st B st1" "b_type e1 = HEAP"
      "b_data e1 = Shared (fresh st)" "b_start e1 = 0" "b_length e1 = APR_BUCKET_BUFF_SIZE"
      "alloc_len (the_obj st1 (fresh st)) = APR_BUCKET_BUFF_SIZE"
    using apr_bucket_heap_create_ok [OF assms(1), of APR_BUCKET_BUFF_SIZE "replicate APR_BUCKET_BUFF_SIZE junk" True]
    by (auto simp: new_buffer_def)
  have "bucket_ok st1 (e1\<lparr>b_length := 0\<rparr>)"
    using mem_invD(1) [OF c(2), of e1] c(5) by (auto simp: bucket_ok_def)
  then have "mem_inv st1 (add_mset (e1\<lparr>b_length := 0\<rparr>) B)" using c(2) by (simp add: mem_inv_def)
  moreover have "b_data b \<noteq> Shared (fresh st)" if "b \<in># B" for b
    using mem_invD(1) [OF assms(1) that] mem_invD(4) [OF assms(1), of "fresh st"] by (auto simp: bucket_ok_def)
  ultimately show ?thesis using c assms(2) by auto
qed

text \<open>Bytes written behind the data of the last bucket, when its buffer has the room.\<close>

lemma append_last:
  assumes inv: "mem_inv st (mset b + B)" and b: "b \<noteq> []" "b_type (last b) = HEAP"
    and behind: "behind (mset (butlast b) + B) (last b)" and room: "length s \<le> remaining_at st (last b)"
  defines "st' \<equiv> heap_write (addr_of (b_data (last b))) (buf_at (last b)) s st"
    and "b' \<equiv> butlast b @ [last b\<lparr>b_length := b_length (last b) + length s\<rparr>]"
  shows "mem_inv st' (mset b' + B)" "untouched st B st'" "content st' b' = content st b @ s"
proof -
  let ?e = "last b"
  have split: "mset b = add_mset ?e (mset (butlast b))" "content st b = content st (butlast b) @ bytes st ?e"
    using b(1) by (cases b rule: rev_cases; simp)+
  have inv': "mem_inv st (add_mset ?e (mset (butlast b) + B))" using inv split by simp
  obtain a h where a: "b_data ?e = Shared a" "objs st a = Some h" "the_obj st a = h"
    using shared_obj [OF inv', of ?e] b(2) by auto
  have "buf_at ?e \<le> alloc_len h" using mem_invD(1) [OF inv', of ?e] a by (simp add: bucket_ok_def buf_at_def)
  moreover have "alloc_len h < APR_SIZE_MAX" using mem_invD(2) [OF inv' a(2)] by simp
  ultimately have "length s \<le> alloc_len h - buf_at ?e" "buf_at ?e \<le> alloc_len h"
    using room size_minus_le [of "buf_at ?e" "alloc_len h"] a by (simp_all add: remaining_at_def buf_at_def add.commute)
  then have fits: "buf_at ?e + length s \<le> alloc_len (the_obj st a)" using a(3) by simp
  note E = extend_inv [OF inv' b(2) a(1) fits behind]
  have "content st' (butlast b) = content st (butlast b)" "untouched st B st'"
    using E untouched_content a(1) unfolding st'_def by (metis untouched_union addr_of.simps(1))+
  then show "mem_inv st' (mset b' + B)" "untouched st B st'" "content st' b' = content st b @ s"
    using E split(2) a(1) by (simp_all add: st'_def b'_def)
qed

text \<open>
  A write without a flush callback: the brigade's last bucket grows, or one
  bucket on a buffer of its own is added.
\<close>

lemma apr_brigade_write_ok:
  assumes inv: "mem_inv st (mset b + B)" and len: "length str < APR_SIZE_MAX"
    and behind: "b \<noteq> [] \<Longrightarrow> b_type (last b) = HEAP \<Longrightarrow> behind (mset (butlast b) + B) (last b)"
  shows "\<exists>st' b' e. apr_brigade_write None (st, b) str = (APR_SUCCESS, st', b') \<and>
    mem_inv st' (mset b' + B) \<and> untouched st B st' \<and> content st' b' = content st b @ str \<and>
    (b' = b @ [e] \<and> b_data e = Shared (fresh st) \<and> (\<forall>c \<in># mset b + B. b_data c \<noteq> Shared (fresh st)) \<or>
     b \<noteq> [] \<and> b_type (last b) = HEAP \<and> b' = butlast b @ [e] \<and> b_data e = b_data (last b) \<and> buf_at (last b) \<le> buf_at e) \<and>
    b_type e = HEAP"
proof -
  let ?e = "last b" and ?n = "length str"
  define buffered where "buffered \<longleftrightarrow> b \<noteq> [] \<and> b_type ?e = HEAP"
  define remaining where "remaining = (if buffered then remaining_at st ?e else APR_BUCKET_BUFF_SIZE)"
  have apart: "b_data c \<noteq> Shared (fresh st)" if "c \<in># mset b + B" for c
    using mem_invD(1) [OF inv that] mem_invD(4) [OF inv, of "fresh st"] by (auto simp: bucket_ok_def)
  have W: "apr_brigade_write None (st, b) str =
     (if ?n > remaining then
        (case apr_bucket_heap_create st str ?n False of (st, e) \<Rightarrow> (APR_SUCCESS, st, b @ [e]))
      else if \<not> buffered then
        (case new_buffer st of (st, e) \<Rightarrow>
          let e = e\<lparr>b_length := 0\<rparr>
          in (APR_SUCCESS, heap_write (addr_of (b_data e)) (buf_at e) str st, b @ [e\<lparr>b_length := b_length e + ?n\<rparr>]))
      else (APR_SUCCESS, heap_write (addr_of (b_data ?e)) (buf_at ?e) str st, butlast b @ [?e\<lparr>b_length := b_length ?e + ?n\<rparr>]))"
    by (simp add: apr_brigade_write_def buffered_def remaining_def Let_def)
  consider (big) "?n > remaining" | (fresh) "?n \<le> remaining" "\<not> buffered" | (room) "?n \<le> remaining" "buffered" by linarith
  then show ?thesis
  proof cases
    case big
    obtain st' e where "apr_bucket_heap_create st str ?n False = (st', e)" "mem_inv st' (add_mset e (mset b + B))"
        "untouched st (mset b + B) st'" "bytes st' e = str" "b_type e = HEAP" "b_data e = Shared (fresh st)"
      using apr_bucket_heap_create_ok [OF inv, of ?n str False] len by auto
    then show ?thesis
      using W big apart untouched_content [of st b st'] by (intro exI [of _ st'] exI [of _ "b @ [e]"] exI [of _ e]) simp
  next
    case fresh
    obtain st1 e where nb: "new_buffer st = (st1, e)" by fastforce
    note N = new_buffer_ok [OF inv nb]
    let ?e0 = "e\<lparr>b_length := 0\<rparr>" and ?e1 = "e\<lparr>b_length := ?n\<rparr>"
    let ?st = "heap_write (fresh st) (buf_at ?e0) str st1"
    have data: "b_data e = Shared (fresh st)" "b_type e = HEAP" using N by simp_all
    have E: "mem_inv ?st (add_mset (?e0\<lparr>b_length := b_length ?e0 + ?n\<rparr>) (mset b + B)) \<and>
        untouched st1 (mset b + B) ?st \<and> bytes ?st (?e0\<lparr>b_length := b_length ?e0 + ?n\<rparr>) = bytes st1 ?e0 @ str"
    proof (rule extend_inv)
      show "buf_at ?e0 + ?n \<le> alloc_len (the_obj st1 (fresh st))"
        using N fresh by (simp add: buf_at_def remaining_def)
      show "behind (mset b + B) ?e0" using N by (auto simp: behind_def)
    qed (use N in auto)
    have e1: "?e0\<lparr>b_length := b_length ?e0 + ?n\<rparr> = ?e1" by simp
    have zero: "bytes st1 ?e0 = []" using data by (simp add: bytes_def slice_def)
    have "untouched st (mset b + B) st1" using N by blast
    then have out: "untouched st (mset b + B) ?st" using E untouched_trans by blast
    have res: "apr_brigade_write None (st, b) str = (APR_SUCCESS, ?st, b @ [?e1])"
      using W fresh nb data(1) by (simp add: Let_def)
    have "content ?st (b @ [?e1]) = content st b @ str"
      using E out zero untouched_content [of st b ?st] unfolding e1 by simp
    moreover have "mem_inv ?st (mset (b @ [?e1]) + B)" using E unfolding e1 by simp
    moreover have "untouched st B ?st" using out by simp
    ultimately show ?thesis using res data apart by (intro exI [of _ ?st] exI [of _ "b @ [?e1]"] exI [of _ ?e1]) simp
  next
    case room
    then have b: "b \<noteq> []" "b_type ?e = HEAP" and n: "?n \<le> remaining_at st ?e"
      by (simp_all add: buffered_def remaining_def)
    let ?e1 = "?e\<lparr>b_length := b_length ?e + ?n\<rparr>" and ?st = "heap_write (addr_of (b_data ?e)) (buf_at ?e) str st"
    note A = append_last [OF inv b behind [OF b] n]
    have "apr_brigade_write None (st, b) str = (APR_SUCCESS, ?st, butlast b @ [?e1])" using W room by simp
    then show ?thesis
      using A b by (intro exI [of _ ?st] exI [of _ "butlast b @ [?e1]"] exI [of _ ?e1]) (simp add: buf_at_def)
  qed
qed

section \<open>Splitting off a line\<close>

text \<open>
  The buckets \<open>es\<close> that a write may extend: none of the buckets alive reaches
  behind them, and no two of them share a buffer.
\<close>

definition shared_data :: "apr_bucket \<Rightarrow> bool" where
  "shared_data e \<longleftrightarrow> (\<exists>a. b_data e = Shared a)"

definition can_append :: "apr_bucket multiset \<Rightarrow> apr_bucket list \<Rightarrow> bool" where
  "can_append A es \<longleftrightarrow> (\<forall>e \<in> set es. shared_data e \<longrightarrow> behind A e) \<and> distinct (map b_data (filter shared_data es))"

definition tail_of :: "brigade \<Rightarrow> brigade" where
  "tail_of b = (if b = [] then [] else [last b])"

lemma tail_of_simps [simp]: "tail_of [] = []" "tail_of (b @ [e]) = [e]"
  by (simp_all add: tail_of_def)

lemma behind_union [simp]: "behind (A + C) e \<longleftrightarrow> behind A e \<and> behind C e"
  by (auto simp: behind_def)

lemma behind_add [simp]: "behind (add_mset c A) e \<longleftrightarrow> (b_data c = b_data e \<longrightarrow> buf_at c \<le> buf_at e) \<and> behind A e"
  by (auto simp: behind_def)

lemma can_append_Cons:
  "can_append A (e # es) \<longleftrightarrow>
     (shared_data e \<longrightarrow> behind A e \<and> (\<forall>x \<in> set es. b_data x \<noteq> b_data e)) \<and> can_append A es"
proof -
  have "b_data e \<in> b_data ` {x \<in> set es. shared_data x} \<longleftrightarrow> (\<exists>x \<in> set es. b_data x = b_data e)" if "shared_data e"
    using that by (force simp: shared_data_def)
  then show ?thesis by (auto simp: can_append_def)
qed

lemma can_append_append:
  "can_append A (es @ fs) \<longleftrightarrow> can_append A es \<and> can_append A fs \<and>
     (\<forall>x \<in> set es. \<forall>y \<in> set fs. shared_data x \<longrightarrow> b_data x \<noteq> b_data y)"
proof (induction es)
  case (Cons e es)
  have "shared_data y \<and> b_data x \<noteq> b_data y \<or> \<not> shared_data y \<and> b_data x \<noteq> b_data y" if "shared_data x" "b_data x \<noteq> b_data y" for x y
    using that by blast
  show ?case by (auto simp: can_append_Cons Cons.IH)
qed (simp add: can_append_def)

lemma can_append_mono:
  "can_append A es \<Longrightarrow> (\<And>e. e \<in> set es \<Longrightarrow> shared_data e \<Longrightarrow> behind A e \<Longrightarrow> behind A' e) \<Longrightarrow> can_append A' es"
  by (simp add: can_append_def)

text \<open>What stands in the place of a bucket that was read.\<close>

lemma read_place:
  assumes inv: "mem_inv st (add_mset e B)" and read: "apr_bucket_read st e = (rv, s, st', es)"
  obtains (same) t where "es = [e\<lparr>b_type := t\<rparr>]"
  | (empty) e' where "es = [e']" "\<not> shared_data e'"
  | (data) e' q where "es = [e', q]" "b_data e' = Shared (fresh st)" "\<not> shared_data q"
      "\<And>c. c \<in># add_mset e B \<Longrightarrow> b_data c \<noteq> Shared (fresh st)"
proof (cases "b_type e = PIPE")
  case False
  then have "\<exists>t. es = [e\<lparr>b_type := t\<rparr>]"
  proof (cases "b_type e = POOL")
    case True
    then have "es = [e\<lparr>b_type := HEAP\<rparr>] \<or> es = [e]"
      using read by (auto simp: apr_bucket_read_def pool_bucket_read_def Let_def split: if_splits)
    moreover have "e = e\<lparr>b_type := b_type e\<rparr>" by simp
    ultimately show ?thesis by metis
  next
    case other: False
    then have "es = [e]" using apr_bucket_read_ok(4,7) [OF inv read] False by (cases es) auto
    moreover have "e = e\<lparr>b_type := b_type e\<rparr>" by simp
    ultimately show ?thesis by metis
  qed
  then show thesis using same by blast
next
  case True
  obtain p where p: "b_data e = PipeOf p"
    using mem_invD(1) [OF inv, of e] True by (auto simp: bucket_ok_def split: bucket_data.splits)
  have "pipe_bucket_read st e = (rv, s, st', es)" using read True by (simp add: apr_bucket_read_def)
  from this refl show thesis
  proof (cases rule: pipe_bucket_read_cases)
    case (failed s')
    then show thesis using empty [of e] p by (simp add: shared_data_def)
  next
    case empty1: (empty rv' st1)
    then show thesis using empty [OF empty1(8)] by (simp add: shared_data_def)
  next
    case data1: (data rv' st1)
    have f: "fresh st1 = fresh st" using data1(1) by (auto elim!: pipe_read_cases)
    have apart: "b_data c \<noteq> Shared (fresh st)" if "c \<in># add_mset e B" for c
      using mem_invD(1) [OF inv that] mem_invD(4) [OF inv, of "fresh st"] by (auto simp: bucket_ok_def)
    show thesis
      by (rule data [OF data1(8)])
        (use f apart in \<open>auto simp: shared_data_def apr_bucket_pipe_create_def apr_bucket_pipe_make_def\<close>)
  qed
qed

lemma read_can_append:
  assumes inv: "mem_inv st (add_mset e B)" and read: "apr_bucket_read st e = (rv, s, st', es)"
    and can: "can_append (add_mset e B) (e # fs)" and sub: "set fs \<subseteq> set_mset B"
  shows "can_append (mset es + B) (es @ fs)"
  using inv read
proof (cases rule: read_place)
  case (same t)
  have "behind (add_mset (e\<lparr>b_type := t\<rparr>) B) x = behind (add_mset e B) x" for x
    by (simp add: buf_at_def)
  moreover have "buf_at (e\<lparr>b_type := t\<rparr>) = buf_at e" by (simp add: buf_at_def)
  ultimately show ?thesis
    using can unfolding same by (auto simp: can_append_Cons shared_data_def behind_def buf_at_def intro: can_append_mono)
next
  case (empty e')
  have "can_append (add_mset e' B) fs"
    by (rule can_append_mono [of "add_mset e B"]) (use can empty in \<open>auto simp: can_append_Cons shared_data_def\<close>)
  then show ?thesis using empty by (simp add: can_append_Cons)
next
  case (data e' q)
  have "can_append (add_mset e' (add_mset q B)) fs"
    by (rule can_append_mono [of "add_mset e B"])
      (use can data sub in \<open>fastforce simp: can_append_Cons shared_data_def\<close>)+
  moreover have "behind (add_mset e' (add_mset q B)) e'"
    using data by (auto simp: behind_def shared_data_def)
  moreover have "\<forall>x \<in> set fs. b_data x \<noteq> b_data e'" using data sub by auto
  ultimately show ?thesis
    using data by (auto simp: can_append_Cons shared_data_def)
qed

lemma write_can_append:
  assumes can: "can_append (mset b + C) (es @ tail_of b)" and sub: "set es \<subseteq> set_mset C"
    and res: "b' = b @ [e] \<and> b_data e = Shared a \<and> (\<forall>c \<in># mset b + C. b_data c \<noteq> Shared a) \<or>
     b \<noteq> [] \<and> b' = butlast b @ [e] \<and> b_data e = b_data (last b) \<and> buf_at (last b) \<le> buf_at e"
  shows "can_append (mset b' + C) (es @ tail_of b')"
  using res
proof
  assume fresh: "b' = b @ [e] \<and> b_data e = Shared a \<and> (\<forall>c \<in># mset b + C. b_data c \<noteq> Shared a)"
  have "can_append (add_mset e (mset b + C)) es"
    by (rule can_append_mono [of "mset b + C"])
      (use can fresh sub in \<open>fastforce simp: can_append_append shared_data_def\<close>)+
  moreover have "behind (add_mset e (mset b + C)) e" using fresh by (auto simp: behind_def)
  moreover have "b_data x \<noteq> b_data e" if "x \<in> set es" for x using fresh sub that by auto
  ultimately show ?thesis
    using fresh by (auto simp: can_append_append can_append_Cons [of _ e "[]"] can_append_def [of _ "[]"])
next
  assume ext: "b \<noteq> [] \<and> b' = butlast b @ [e] \<and> b_data e = b_data (last b) \<and> buf_at (last b) \<le> buf_at e"
  then have b: "mset b = add_mset (last b) (mset (butlast b))" "tail_of b = [last b]"
    by (cases b rule: rev_cases; simp)+
  have apart: "b_data x \<noteq> b_data e" if "x \<in> set es" "shared_data x" for x
    using can that ext b(2) by (auto simp: can_append_append)
  have "can_append (mset b' + C) es"
  proof (rule can_append_mono [of "mset b + C"])
    fix x assume x: "x \<in> set es" "shared_data x" "behind (mset b + C) x"
    then have "b_data e \<noteq> b_data x" using apart [OF x(1,2)] by simp
    then show "behind (mset b' + C) x" using x(3) ext b(1) by simp
  qed (use can in \<open>simp add: can_append_append\<close>)
  moreover have "behind (mset b' + C) e" if "shared_data e"
  proof -
    have "behind (mset b + C) (last b)"
      using can that ext b(2) by (auto simp: can_append_append can_append_Cons [of _ "last b" "[]"] shared_data_def)
    then show ?thesis using ext b(1) by (auto simp: behind_def)
  qed
  ultimately show ?thesis
    using ext apart by (auto simp: can_append_append can_append_Cons [of _ e "[]"] can_append_def [of _ "[]"])
qed

lemma line_store_ok:
  assumes inv: "mem_inv st (mset out + add_mset e C)" and e: "s = bytes st e" "b_length e = length s" "length s < APR_SIZE_MAX"
    and can: "can_append (mset out + add_mset e C) (e # es @ tail_of out)" and sub: "set es \<subseteq> set_mset C"
    and res: "line_store st out e s = (rv, st', out')"
  shows "rv = APR_SUCCESS \<and> mem_inv st' (mset out' + C) \<and> untouched st C st' \<and>
    content st' out' = content st out @ s \<and> can_append (mset out' + C) (es @ tail_of out')"
proof (cases "APR_BUCKET_IS_METADATA e \<or> length s > APR_BUCKET_BUFF_SIZE div 4")
  case True
  then have r: "rv = APR_SUCCESS" "st' = st" "out' = out @ [e]" using res by (simp_all add: line_store_def)
  have "can_append (mset out + add_mset e C) (es @ [e])"
    using can by (auto simp: can_append_append can_append_Cons [of _ e] can_append_def [of _ "[]"] shared_data_def)
  then show ?thesis using r inv e(1) by (simp add: ac_simps)
next
  case small: False
  have D: "mem_inv (apr_bucket_destroy st1 e) (mset out1 + C) \<and> untouched st1 (mset out1 + C) (apr_bucket_destroy st1 e)"
    if "mem_inv st1 (mset out1 + add_mset e C)" for st1 out1
    using apr_bucket_destroy_ok [of st1 e "mset out1 + C"] that by simp
  have less: "can_append (mset out1 + C) fs" if "can_append (mset out1 + add_mset e C) fs" for out1 fs
    by (rule can_append_mono [OF that]) simp
  show ?thesis
  proof (cases "s = []")
    case True
    then have r: "rv = APR_SUCCESS" "st' = apr_bucket_destroy st e" "out' = out"
      using res small by (simp_all add: line_store_def)
    have "can_append (mset out + C) (es @ tail_of out)" using less can by (simp add: can_append_Cons)
    then show ?thesis using D [OF inv] r True untouched_content [of st out st'] by simp
  next
    case False
    let ?B = "add_mset e C"
    have "behind (mset (butlast out) + ?B) (last out)" if "out \<noteq> []" "b_type (last out) = HEAP"
    proof -
      have split: "mset out = add_mset (last out) (mset (butlast out))" "tail_of out = [last out]"
        using that(1) by (cases out rule: rev_cases; simp)+
      have inv': "mem_inv st (add_mset (last out) (mset (butlast out) + ?B))" using inv split(1) by (simp add: add_mset_commute)
      have "shared_data (last out)"
        using shared_obj [OF inv', of "last out"] that(2) by (auto simp: shared_data_def)
      then have "behind (mset out + ?B) (last out)"
        using can split(2) by (auto simp: can_append_Cons can_append_append can_append_def [of _ "[last out]"])
      then show ?thesis using split(1) by simp
    qed
    from apr_brigade_write_ok [OF inv e(3) this] obtain st1 out1 x where
      w: "apr_brigade_write None (st, out) s = (APR_SUCCESS, st1, out1)" "mem_inv st1 (mset out1 + ?B)"
        "untouched st ?B st1" "content st1 out1 = content st out @ s"
        "out1 = out @ [x] \<and> b_data x = Shared (fresh st) \<and> (\<forall>c \<in># mset out + ?B. b_data c \<noteq> Shared (fresh st)) \<or>
         out \<noteq> [] \<and> b_type (last out) = HEAP \<and> out1 = butlast out @ [x] \<and> b_data x = b_data (last out) \<and> buf_at (last out) \<le> buf_at x"
      by blast
    have r: "rv = APR_SUCCESS" "st' = apr_bucket_destroy st1 e" "out' = out1"
      using res small False w(1) by (simp_all add: line_store_def)
    have "can_append (mset out + ?B) (es @ tail_of out)" using can by (simp add: can_append_Cons)
    then have "can_append (mset out1 + ?B) (es @ tail_of out1)"
      by (rule write_can_append) (use sub w(5) in auto)
    then have "can_append (mset out1 + C) (es @ tail_of out1)" by (rule less)
    moreover have "untouched st C st'" using D [OF w(2)] w(3) r by (auto intro: untouched_trans)
    moreover have "content st' out1 = content st1 out1" using D [OF w(2)] r by (simp add: untouched_content)
    ultimately show ?thesis using D [OF w(2)] r w(4) by simp
  qed
qed

lemma memchr_None: "memchr s c = None \<longleftrightarrow> c \<notin> set s"
  by (induction s) auto

lemma memchr_Some: "memchr s c = Some i \<Longrightarrow> i < length s \<and> s ! i = c \<and> c \<notin> set (take i s)"
  by (induction s arbitrary: i) (auto split: if_splits)

text \<open>
  What was moved: it ends with the first line feed, or there is none in it and
  \<open>maxbytes\<close> is reached, the input used up, or the next bucket unreadable.
\<close>

lemma split_line_loop_ok:
  assumes "mem_inv st (mset out + mset rest + B)"
    and "can_append (mset out + mset rest + B) (rest @ tail_of out)"
    and "split_line_loop st out rest maxbytes readbytes = (rv, st', out', rest')"
  shows "mem_inv st' (mset out' + mset rest' + B) \<and> untouched st B st' \<and>
    (\<exists>moved. content st' out' = content st out @ moved \<and> content st rest = moved @ content st' rest' \<and>
       ((\<exists>line. rv = APR_SUCCESS \<and> moved = line @ [APR_ASCII_LF] \<and> APR_ASCII_LF \<notin> set line) \<or>
        (APR_ASCII_LF \<notin> set moved \<and>
         (rv = APR_SUCCESS \<and> (rest' = [] \<or> readbytes + int (length moved) \<ge> maxbytes) \<or>
          rv \<noteq> APR_SUCCESS \<and> rest' \<noteq> [] \<and> b_type (hd rest') = PIPE))))"
  using assms
proof (induction "todo st rest" arbitrary: st out rest readbytes rule: less_induct)
  case less
  show ?case
  proof (cases rest)
    case Nil
    then show ?thesis using less.prems by auto
  next
    case (Cons e bs)
    obtain rv1 s st1 es where read: "apr_bucket_read st e = (rv1, s, st1, es)" by (metis prod_cases4)
    let ?C = "mset out + mset bs + B"
    have inv: "mem_inv st (add_mset e ?C)" using less.prems(1) Cons by (simp add: ac_simps)
    note R = read_front [OF inv read]
    have same: "content st1 out = content st out" "content st1 bs = content st bs" "untouched st B st1"
      using R(2) by (simp_all add: untouched_content)
    show ?thesis
    proof (cases "rv1 = APR_SUCCESS")
      case False
      then have "rv = rv1" "st' = st1" "out' = out" "rest' = e # bs" using less.prems(3) read R(5) Cons by auto
      then show ?thesis using R(1,3,5) [OF] False same Cons
        by (intro conjI exI [of _ "[]"]) (auto simp: ac_simps)
    next
      case True
      obtain e' tail where e': "es = e' # tail" "s = bytes st1 e'" "b_length e' = length s" "b_length e' < APR_SIZE_MAX" "b_type e' \<noteq> PIPE"
        using R(4) [OF True] by blast
      let ?rest = "tail @ bs"
      have whole: "content st rest = s @ content st1 ?rest" using R(3) e'(1,2) same Cons by simp
      have inv1: "mem_inv st1 (mset out + add_mset e' (mset ?rest + B))" using R(1) e'(1) by (simp add: ac_simps)
      show ?thesis
      proof (cases "memchr s APR_ASCII_LF")
        case (Some pos)
        note M = memchr_Some [OF Some]
        let ?D = "mset out + mset ?rest + B"
        have inv2: "mem_inv st1 (add_mset e' ?D)" using inv1 by (simp add: ac_simps)
        have kind: "b_type e' \<in> {IMMORTAL, TRANSIENT, HEAP, POOL}"
          using mem_invD(1) [OF inv2, of e'] M e'(2,3,5) by (auto simp: bucket_ok_def split: bucket_data.splits)
        have "pos + 1 \<le> b_length e'" using M e'(3) by simp
        from apr_bucket_split_ok [OF inv2 kind this] obtain st2 x y where
          cut: "apr_bucket_split st1 e' (pos + 1) = (APR_SUCCESS, st2, [x, y])" "mem_inv st2 (add_mset x (add_mset y ?D))"
            "untouched st1 ?D st2" "bytes st2 x = take (pos + 1) s" "bytes st2 y = drop (pos + 1) s"
          using e'(2) by blast
        have r: "rv = APR_SUCCESS" "st' = st2" "out' = out @ [x]" "rest' = y # ?rest"
          using less.prems(3) read True Some e'(1) cut(1) Cons by auto
        have line: "take (pos + 1) s = take pos s @ [APR_ASCII_LF]" using M by (simp add: take_Suc_conv_app_nth)
        have same2: "content st2 out = content st out" "content st2 ?rest = content st1 ?rest" "untouched st B st2"
          using cut(3) same by (auto simp: untouched_content intro: untouched_trans)
        have c1: "content st' out' = content st out @ take (pos + 1) s" unfolding r using same2 cut(4) by simp
        have "s @ content st1 ?rest = take (pos + 1) s @ drop (pos + 1) s @ content st1 ?rest" by simp
        then have c2: "content st rest = take (pos + 1) s @ content st' rest'"
          unfolding r whole using same2 cut(5) by simp
        have "APR_ASCII_LF \<notin> set (take pos s)" using M by blast
        then have c3: "\<exists>line. rv = APR_SUCCESS \<and> take (pos + 1) s = line @ [APR_ASCII_LF] \<and> APR_ASCII_LF \<notin> set line"
          using line r(1) by blast
        have inv': "mem_inv st' (mset out' + mset rest' + B)" unfolding r using cut(2) by (simp add: ac_simps add_mset_commute)
        show ?thesis
          unfolding r(2) [symmetric] using inv' same2(3) r(2) c1 c2 c3
          by (intro conjI exI [of _ "take (pos + 1) s"]) blast+
      next
        case None
        have nolf: "APR_ASCII_LF \<notin> set s" using None by (simp add: memchr_None)
        obtain rv2 st2 out2 where store: "line_store st1 out e' s = (rv2, st2, out2)" by (metis prod_cases3)
        have "can_append (add_mset e ?C) (e # bs @ tail_of out)"
          using less.prems(2) Cons by (simp add: ac_simps)
        moreover have "set (bs @ tail_of out) \<subseteq> set_mset ?C" by (auto simp: tail_of_def)
        ultimately have "can_append (mset es + ?C) (es @ bs @ tail_of out)" by (rule read_can_append [OF inv read])
        then have can1: "can_append (mset out + add_mset e' (mset ?rest + B)) (e' # ?rest @ tail_of out)"
          using e'(1) by (simp add: ac_simps)
        have len: "length s < APR_SIZE_MAX" using e'(3,4) by simp
        have "set ?rest \<subseteq> set_mset (mset ?rest + B)" by auto
        note S = line_store_ok [OF inv1 e'(2,3) len can1 this store]
        have same2: "content st2 ?rest = content st1 ?rest" "untouched st1 B st2" using S by (auto simp: untouched_content)
        show ?thesis
        proof (cases "readbytes + int (length s) \<ge> maxbytes")
          case True
          then have r: "rv = APR_SUCCESS" "st' = st2" "out' = out2" "rest' = ?rest"
            using less.prems(3) read \<open>rv1 = APR_SUCCESS\<close> None e'(1) store S Cons by auto
          show ?thesis
            unfolding r using S same same2 whole True nolf
            by (intro conjI exI [of _ s]) (auto simp: ac_simps intro: untouched_trans)
        next
          case False
          have next': "split_line_loop st2 out2 ?rest maxbytes (readbytes + int (length s)) = (rv, st', out', rest')"
            using less.prems(3) read \<open>rv1 = APR_SUCCESS\<close> None e'(1) store S False Cons by auto
          have dec: "todo st2 ?rest < todo st rest"
            using line_progress [of s st1 es st e rv2 st2 out2 out bs] read \<open>rv1 = APR_SUCCESS\<close> e'(1) store Cons by simp
          have "mem_inv st2 (mset out2 + mset ?rest + B)" using S by (simp add: ac_simps)
          moreover have "can_append (mset out2 + mset ?rest + B) (?rest @ tail_of out2)" using S by (simp add: ac_simps)
          ultimately have IH: "mem_inv st' (mset out' + mset rest' + B) \<and> untouched st2 B st' \<and>
            (\<exists>moved. content st' out' = content st2 out2 @ moved \<and> content st2 ?rest = moved @ content st' rest' \<and>
              ((\<exists>line. rv = APR_SUCCESS \<and> moved = line @ [APR_ASCII_LF] \<and> APR_ASCII_LF \<notin> set line) \<or>
               (APR_ASCII_LF \<notin> set moved \<and>
                (rv = APR_SUCCESS \<and> (rest' = [] \<or> readbytes + int (length s) + int (length moved) \<ge> maxbytes) \<or>
                 rv \<noteq> APR_SUCCESS \<and> rest' \<noteq> [] \<and> b_type (hd rest') = PIPE))))"
            using less.hyps [OF dec _ _ next'] by blast
          then obtain moved where mv: "content st' out' = content st2 out2 @ moved" "content st2 ?rest = moved @ content st' rest'"
              "(\<exists>line. rv = APR_SUCCESS \<and> moved = line @ [APR_ASCII_LF] \<and> APR_ASCII_LF \<notin> set line) \<or>
               (APR_ASCII_LF \<notin> set moved \<and>
                (rv = APR_SUCCESS \<and> (rest' = [] \<or> readbytes + int (length s) + int (length moved) \<ge> maxbytes) \<or>
                 rv \<noteq> APR_SUCCESS \<and> rest' \<noteq> [] \<and> b_type (hd rest') = PIPE))"
            by blast
          have c1: "content st' out' = content st out @ (s @ moved)" using mv(1) S same by simp
          have c2: "content st rest = (s @ moved) @ content st' rest'" using whole same2 mv(2) by simp
          have c3: "(\<exists>line. rv = APR_SUCCESS \<and> s @ moved = line @ [APR_ASCII_LF] \<and> APR_ASCII_LF \<notin> set line) \<or>
               (APR_ASCII_LF \<notin> set (s @ moved) \<and>
                (rv = APR_SUCCESS \<and> (rest' = [] \<or> readbytes + int (length (s @ moved)) \<ge> maxbytes) \<or>
                 rv \<noteq> APR_SUCCESS \<and> rest' \<noteq> [] \<and> b_type (hd rest') = PIPE))"
            using mv(3)
          proof
            assume "\<exists>line. rv = APR_SUCCESS \<and> moved = line @ [APR_ASCII_LF] \<and> APR_ASCII_LF \<notin> set line"
            then obtain line where "rv = APR_SUCCESS" "moved = line @ [APR_ASCII_LF]" "APR_ASCII_LF \<notin> set line" by blast
            then have "rv = APR_SUCCESS \<and> s @ moved = (s @ line) @ [APR_ASCII_LF] \<and> APR_ASCII_LF \<notin> set (s @ line)"
              using nolf by simp
            then show ?thesis by blast
          qed (use nolf in auto)
          from IH have inv': "mem_inv st' (mset out' + mset rest' + B)" and u: "untouched st2 B st'" by blast+
          show ?thesis
            using inv' untouched_trans [OF same(3) untouched_trans [OF same2(2) u]] c1 c2 c3
            by (intro conjI exI [of _ "s @ moved"]) assumption+
        qed
      qed
    qed
  qed
qed

end
