(* ===== verification/Apu_Brigade_Theorems.thy ===== *)
theory Apu_Brigade_Theorems
  imports Apu_Brigade_Laws
begin

text \<open>
  The properties of the brigades: what each operation does to the bytes of the
  brigades it works on, and that it leaves the buckets of the others alone.
\<close>

section \<open>Partition and split\<close>

lemma partition_ok:
  assumes "mem_inv st (mset b + B)" "apr_brigade_partition st b point = (rv, st', b', e)"
  shows "mem_inv st' (mset b' + B) \<and> untouched st B st' \<and> content st' b' = content st b \<and>
    (if point < 0 then rv = APR_EINVAL \<and> e = None
     else \<exists>k. e = Some k \<and>
       (rv = APR_SUCCESS \<and> k \<le> length b' \<and> content st' (take k b') = take (nat point) (content st b) \<and>
          point \<le> int (length (content st b)) \<or>
        rv = APR_INCOMPLETE \<and> k = length b' \<and> int (length (content st b)) < point \<or>
        rv \<noteq> APR_SUCCESS \<and> k < length b' \<and> b_type (b' ! k) = PIPE))"
proof -
  consider "point < 0" | "point = 0" | "0 < point" by linarith
  then show ?thesis
  proof cases
    case 3
    then have "0 < nat point" by simp
    obtain k where "partition_loop st [] b (nat point) = (rv, st', b', k)" "e = Some k"
      using assms(2) 3 by (auto simp: apr_brigade_partition_def split: prod.splits)
    then show ?thesis
      using partition_loop_ok [of st "[]" b B "nat point" rv st' b' k] assms(1) 3 by (cases "rv = APR_SUCCESS") auto
  qed (use assms in \<open>auto simp: apr_brigade_partition_def\<close>)
qed

lemma drop_content: "content st (drop k b) = drop (length (content st (take k b))) (content st b)"
  by (metis append_eq_conv_conj append_take_drop_id content_simps(3))

text \<open>
  C21. \<open>apr_brigade_partition\<close> followed by \<open>apr_brigade_split\<close> at the bucket it
  found: a negative point is refused; a point within the bytes gives two brigades
  that hold the bytes before and behind it; a point behind the end is
  \<open>APR_INCOMPLETE\<close> with the sentinel; anything else is a pipe that could not be
  read, to which \<open>*after_point\<close> points. No byte of this or another brigade is
  lost in any case.
\<close>

theorem apr_brigade_partition_split:
  assumes "mem_inv st (mset b + B)" "apr_brigade_partition st b point = (rv, st1, b1, e)"
  shows "if point < 0 then rv = APR_EINVAL \<and> e = None \<and> st1 = st \<and> b1 = b
    else \<exists>k. e = Some k \<and>
      (case apr_brigade_split st1 b1 k of (st2, front, rear) \<Rightarrow>
        mem_inv st2 (mset front + mset rear + B) \<and> (\<forall>c \<in># B. bytes st2 c = bytes st c) \<and>
        content st2 front @ content st2 rear = content st b \<and>
        (rv = APR_SUCCESS \<and> content st2 front = take (nat point) (content st b) \<and>
           point \<le> int (length (content st b)) \<or>
         rv = APR_INCOMPLETE \<and> rear = [] \<and> int (length (content st b)) < point \<or>
         rv \<noteq> APR_SUCCESS \<and> rear \<noteq> [] \<and> b_type (hd rear) = PIPE))"
proof (cases "point < 0")
  case True
  then show ?thesis using assms by (simp add: apr_brigade_partition_def)
next
  case False
  note P = partition_ok [OF assms]
  from P False obtain k where k: "e = Some k"
    "rv = APR_SUCCESS \<and> k \<le> length b1 \<and> content st1 (take k b1) = take (nat point) (content st b) \<and>
       point \<le> int (length (content st b)) \<or>
     rv = APR_INCOMPLETE \<and> k = length b1 \<and> int (length (content st b)) < point \<or>
     rv \<noteq> APR_SUCCESS \<and> k < length b1 \<and> b_type (b1 ! k) = PIPE" by auto
  have "apr_brigade_split st1 b1 k = (st1, take k b1, drop k b1)"
    using k(2) by (auto simp: apr_brigade_split_def apr_brigade_split_ex_def apr_brigade_create_def)
  moreover have "mset (take k b1) + mset (drop k b1) = mset b1" by (metis append_take_drop_id mset_append)
  moreover have "content st1 (take k b1) @ content st1 (drop k b1) = content st b"
    using P by (metis append_take_drop_id content_simps(3))
  ultimately show ?thesis
    using P k False by (auto simp: untouched_def hd_drop_conv_nth intro!: exI [of _ k])
qed

text \<open>A brigade over a heap bucket, a pool bucket and a pipe that delivers two pieces.\<close>

definition demo_pipe :: "nat \<Rightarrow> (apr_status \<times> char list) list" where
  "demo_pipe p = (if p = 0 then [(APR_SUCCESS, ''one''), (APR_SUCCESS, ''two'')] else [])"

definition demo_mem :: bmem where
  "demo_mem = fst (apr_bucket_heap_create (empty_mem demo_pipe) ''hello'' 5 False)"

definition demo :: brigade where
  "demo = [snd (apr_bucket_heap_create (empty_mem demo_pipe) ''hello'' 5 False), apr_bucket_pipe_create 0, apr_bucket_eos_create]"

lemmas demo_defs = demo_mem_def demo_def empty_mem_def new_bucket_def apr_bucket_heap_create_def heap_make_copy
  apr_bucket_shared_make_def Let_def apr_bucket_pipe_create_def apr_bucket_pipe_make_def apr_bucket_eos_create_def

lemma demo_inv: "mem_inv demo_mem (mset demo)"
proof -
  have h: "mem_inv demo_mem {#hd demo#}"
    using apr_bucket_heap_create_ok [OF empty_mem_inv [of demo_pipe], of 5 "''hello''" False]
    by (auto simp: demo_mem_def demo_def APR_SIZE_MAX_def)
  have "mem_inv demo_mem (add_mset (apr_bucket_pipe_create 0) {#hd demo#})"
    using h by (rule mem_inv_plain) (auto simp: demo_defs bucket_ok_def)
  from mem_inv_plain [OF this, of apr_bucket_eos_create] show ?thesis
    by (auto simp: demo_def apr_bucket_eos_create_def bucket_ok_def new_bucket_def add_mset_commute)
qed

lemma demo_content: "content demo_mem demo = ''helloonetwo''"
  by (simp add: demo_defs bytes_def slice_def obj_data_def the_obj_def put_obj_def demo_pipe_def APR_BUCKET_BUFF_SIZE_def)

lemma apr_brigade_partition_split_witness:
  "mem_inv demo_mem (mset demo) \<and>
   (\<exists>st1 b1 st2 front rear. apr_brigade_partition demo_mem demo 7 = (APR_SUCCESS, st1, b1, Some 2) \<and>
      apr_brigade_split st1 b1 2 = (st2, front, rear) \<and>
      content st2 front = ''helloon'' \<and> content st2 rear = ''etwo'')"
proof -
  obtain rv st1 b1 e where p: "apr_brigade_partition demo_mem demo 7 = (rv, st1, b1, e)" by (metis prod_cases4)
  have e: "rv = APR_SUCCESS" "e = Some 2"
    using p by (auto simp: apr_brigade_partition_def demo_defs partition_visit_def apr_bucket_split_def apr_bucket_read_def
      pipe_bucket_read_def pipe_read_def demo_pipe_def APR_BUCKET_BUFF_SIZE_def APR_SIZE_MAX_def put_obj_def the_obj_def
      apr_bucket_shared_split_def apr_bucket_simple_split_def apr_bucket_simple_copy_def apr_bucket_heap_make_def slice_def add_ref_def)
  have inv: "mem_inv demo_mem (mset demo + {#})" using demo_inv by simp
  obtain st2 front rear where s: "apr_brigade_split st1 b1 2 = (st2, front, rear)" by (metis prod_cases3)
  from apr_brigade_partition_split [OF inv p] show ?thesis
    using p e s demo_inv by (auto simp: demo_content numeral_eq_Suc)
qed

section \<open>Length and flattening\<close>

lemma length_loop_no_pipe:
  assumes "mem_inv st (mset (seen @ rest) + B)" "length_loop st seen rest True tot = (APR_SUCCESS, st', b', tot')"
    "\<forall>x \<in> set seen. b_type x \<noteq> PIPE"
  shows "\<forall>x \<in> set b'. b_type x \<noteq> PIPE"
  using assms
proof (induction "todo st rest" arbitrary: st seen rest tot rule: less_induct)
  case less
  show ?case
  proof (cases rest)
    case (Cons e bs)
    have inv: "mem_inv st (add_mset e (mset seen + mset bs + B))" using less.prems(1) Cons by simp
    show ?thesis
    proof (cases "b_length e = APR_SIZE_MAX")
      case True
      obtain rv s st1 es where read: "apr_bucket_read st e = (rv, s, st1, es)" by (metis prod_cases4)
      have ok: "rv = APR_SUCCESS" using less.prems(2) True Cons read by (auto split: if_splits)
      obtain e' tail where e': "es = e' # tail" "b_type e' \<noteq> PIPE" "b_length e' = length s"
        using read_front(4) [OF inv read ok] by blast
      have "todo st1 (tail @ bs) < todo st rest"
        using read_progress [of s st1 es st e bs] read ok e' Cons by simp
      moreover have "mem_inv st1 (mset ((seen @ [e']) @ tail @ bs) + B)"
        using read_front(1) [OF inv read] e' by (simp add: ac_simps)
      ultimately show ?thesis
        using less.hyps [of st1 "tail @ bs" "seen @ [e']"] less.prems True Cons read ok e' by simp
    next
      case False
      then have "b_type e \<noteq> PIPE" using pipe_length [OF inv] by simp
      moreover have "todo st bs < todo st rest" using Cons by (simp add: todo_def passes_def)
      moreover have "mem_inv st (mset ((seen @ [e]) @ bs) + B)" using less.prems(1) Cons by simp
      ultimately show ?thesis using less.hyps [of st bs "seen @ [e]"] less.prems False Cons by simp
    qed
  qed (use less.prems in auto)
qed

lemma flatten_loop_no_pipe:
  assumes "mem_inv st (mset (seen @ rest) + B)" "\<forall>x \<in> set rest. b_type x \<noteq> PIPE"
    "flatten_loop st seen rest len c = (rv, st', b', c')"
  shows "rv = APR_SUCCESS"
  using assms
proof (induction rest arbitrary: seen st c)
  case (Cons e bs)
  have inv: "mem_inv st (add_mset e (mset seen + mset bs + B))" using Cons.prems(1) by simp
  obtain rv1 s st1 es where read: "apr_bucket_read st e = (rv1, s, st1, es)" by (metis prod_cases4)
  have ok: "rv1 = APR_SUCCESS" "tl es = []" "es \<noteq> []"
    using apr_bucket_read_ok(4,7) [OF inv read] Cons.prems(2) by auto
  have "mem_inv st1 (mset ((seen @ [hd es]) @ bs) + B)"
    using apr_bucket_read_ok(1) [OF inv read] ok(2,3) by (cases es) (auto simp: ac_simps)
  then show ?case
    using Cons.IH [of st1 "seen @ [hd es]" "c @ take (len - length c) s"] Cons.prems(2,3) ok(2)
      flatten_step [OF read [unfolded ok(1)], of seen bs len c] by (auto simp: Let_def split: if_splits)
qed simp

lemma flatten_ok:
  assumes "mem_inv st (mset b + B)" "apr_brigade_flatten st b len = (rv, st', b', c, n)"
  shows "mem_inv st' (mset b' + B) \<and> untouched st B st' \<and> content st' b' = content st b \<and> length c \<le> len \<and>
    (if rv = APR_SUCCESS then c = take len (content st b) \<and> n = length c else n = len)"
proof -
  obtain rv' st'' b'' c'' where "flatten_loop st [] b len [] = (rv', st'', b'', c'')" by (metis prod_cases4)
  then show ?thesis using flatten_loop_ok [of st "[]" b B "[]" len] assms by (auto simp: apr_brigade_flatten_def)
qed

text \<open>
  \<open>apr_brigade_length\<close> and then \<open>apr_brigade_flatten\<close>: the length is the
  number of the bytes when everything could be read, and -1 when a bucket of
  unknown length is not to be read; the buffer gets the first \<open>*len\<close> of the bytes,
  no more, and \<open>*len\<close> becomes their number; \<open>apr_brigade_pflatten\<close> returns all of
  them. Only a pipe can fail, and no byte is lost in any case.
\<close>

theorem apr_brigade_length_flatten:
  assumes "mem_inv st (mset b + B)" "apr_brigade_length st b read_all = (rv, st1, b1, n)"
    "apr_brigade_flatten st1 b1 len = (rv2, st2, b2, c, clen)"
  shows "mem_inv st2 (mset b2 + B) \<and> (\<forall>x \<in># B. bytes st2 x = bytes st x) \<and> content st2 b2 = content st b \<and>
    (if rv \<noteq> APR_SUCCESS then \<exists>x \<in> set b. b_type x = PIPE
     else if \<not> read_all \<and> (\<exists>x \<in> set b. b_type x = PIPE) then n = -1 else n = int (length (content st b))) \<and>
    (if rv2 = APR_SUCCESS then c = take len (content st b) \<and> clen = length c
     else length c \<le> len \<and> clen = len \<and> (\<exists>x \<in> set b1. b_type x = PIPE)) \<and>
    (read_all \<and> rv = APR_SUCCESS \<longrightarrow>
       (\<exists>st3 b3. apr_brigade_pflatten st b = (APR_SUCCESS, st3, b3, content st b, Some (length (content st b)))))"
proof -
  have loop: "length_loop st [] b read_all 0 = (rv, st1, b1, n)" using assms(2) by (simp add: apr_brigade_length_def)
  from length_loop_ok [OF _ this] assms(1)
  have L: "mem_inv st1 (mset b1 + B)" "untouched st B st1" "content st1 b1 = content st b"
    "rv = APR_SUCCESS \<and> (read_all \<or> (\<forall>b \<in> set b. b_type b \<noteq> PIPE)) \<longrightarrow> n = int (length (content st b))"
    "\<not> read_all \<and> (\<exists>b \<in> set b. b_type b = PIPE) \<longrightarrow> rv = APR_SUCCESS \<and> n = -1"
    "rv \<noteq> APR_SUCCESS \<longrightarrow> (\<exists>b \<in> set b. b_type b = PIPE)" by auto
  note F = flatten_ok [OF L(1) assms(3)]
  have fail: "\<exists>x \<in> set b1. b_type x = PIPE" if "rv2 \<noteq> APR_SUCCESS"
  proof -
    obtain st4 b4 c4 where "flatten_loop st1 [] b1 len [] = (rv2, st4, b4, c4)"
      using assms(3) by (auto simp: apr_brigade_flatten_def split: prod.splits)
    then show ?thesis using flatten_loop_no_pipe [of st1 "[]" b1 B len "[]" rv2 st4 b4 c4] L(1) that by auto
  qed
  have whole: "\<exists>st3 b3. apr_brigade_pflatten st b = (APR_SUCCESS, st3, b3, content st b, Some (length (content st b)))"
    if all: "read_all" "rv = APR_SUCCESS"
  proof -
    obtain rv3 st3 b3 c3 n3 where fl: "apr_brigade_flatten st1 b1 (nat n) = (rv3, st3, b3, c3, n3)" by (metis prod_cases5)
    have "\<forall>x \<in> set b1. b_type x \<noteq> PIPE" using length_loop_no_pipe [of st "[]" b B] assms(1) loop all by simp
    then have "rv3 = APR_SUCCESS"
      using fl flatten_loop_no_pipe [of st1 "[]" b1 B] L(1)
      by (auto simp: apr_brigade_flatten_def split: prod.splits)
    moreover have "nat n = length (content st b)" using L(4) all by simp
    ultimately show ?thesis
      using flatten_ok [OF L(1) fl] fl assms(2) all L(3) by (simp add: apr_brigade_pflatten_def)
  qed
  show ?thesis using F L fail whole by (auto simp: untouched_def)
qed

lemma apr_brigade_length_flatten_witness:
  "mem_inv demo_mem (mset demo) \<and>
   (\<exists>st1 b1 st2 b2. apr_brigade_length demo_mem demo False = (APR_SUCCESS, st1, b1, -1) \<and>
      apr_brigade_flatten st1 b1 7 = (APR_SUCCESS, st2, b2, ''helloon'', 7) \<and> content st2 b2 = ''helloonetwo'')"
proof -
  have inv: "mem_inv demo_mem (mset demo + {#})" using demo_inv by simp
  have l: "apr_brigade_length demo_mem demo False = (APR_SUCCESS, demo_mem, demo, -1)"
    by (simp add: apr_brigade_length_def demo_defs APR_SIZE_MAX_def)
  obtain rv st2 b2 c n where f: "apr_brigade_flatten demo_mem demo 7 = (rv, st2, b2, c, n)" by (metis prod_cases5)
  have "rv = APR_SUCCESS"
    using f by (auto simp: apr_brigade_flatten_def demo_defs apr_bucket_read_def heap_bucket_read_def
      pipe_bucket_read_def pipe_read_def demo_pipe_def APR_BUCKET_BUFF_SIZE_def put_obj_def the_obj_def
      apr_bucket_heap_make_def slice_def)
  then show ?thesis
    using apr_brigade_length_flatten [OF inv l f] demo_inv l f by (auto simp: demo_content numeral_eq_Suc)
qed

section \<open>Writing\<close>

text \<open>
  What a writer needs: when the brigade ends with a heap bucket, no other bucket
  reaches behind its data in the same buffer.
\<close>

definition writable :: "apr_bucket multiset \<Rightarrow> brigade \<Rightarrow> bool" where
  "writable B b \<longleftrightarrow> (b \<noteq> [] \<and> b_type (last b) = HEAP \<longrightarrow> behind (mset (butlast b) + B) (last b))"

lemma writable_fresh: "\<forall>c \<in># mset b + B. b_data c \<noteq> b_data e \<Longrightarrow> writable B (b @ [e])"
  by (auto simp: writable_def behind_def)

lemma writable_longer:
  "writable B b \<Longrightarrow> b \<noteq> [] \<Longrightarrow> b_type (last b) = HEAP \<Longrightarrow> b_data e = b_data (last b) \<Longrightarrow> buf_at (last b) \<le> buf_at e \<Longrightarrow>
   writable B (butlast b @ [e])"
  by (fastforce simp: writable_def behind_def)

lemma fresh_apart: "mem_inv st B \<Longrightarrow> c \<in># B \<Longrightarrow> b_data c \<noteq> Shared (fresh st)"
  using mem_invD(1,4) by (fastforce simp: bucket_ok_def)

lemma write_ok:
  assumes "mem_inv st (mset b + B)" "length str < APR_SIZE_MAX" "writable B b"
  obtains st' b' where "apr_brigade_write None (st, b) str = (APR_SUCCESS, st', b')" "mem_inv st' (mset b' + B)"
    "untouched st B st'" "content st' b' = content st b @ str" "writable B b'"
proof -
  obtain st' b' e where W: "apr_brigade_write None (st, b) str = (APR_SUCCESS, st', b')" "mem_inv st' (mset b' + B)"
    "untouched st B st'" "content st' b' = content st b @ str"
    "b' = b @ [e] \<and> b_data e = Shared (fresh st) \<and> (\<forall>c \<in># mset b + B. b_data c \<noteq> Shared (fresh st)) \<or>
     b \<noteq> [] \<and> b_type (last b) = HEAP \<and> b' = butlast b @ [e] \<and> b_data e = b_data (last b) \<and> buf_at (last b) \<le> buf_at e"
    using apr_brigade_write_ok [OF assms(1,2)] assms(3) unfolding writable_def by blast
  moreover have "writable B b'"
    using W(5)
  proof (elim disjE conjE)
    assume "b' = b @ [e]" "b_data e = Shared (fresh st)" "\<forall>c \<in># mset b + B. b_data c \<noteq> Shared (fresh st)"
    then show ?thesis using writable_fresh [of b B e] by simp
  qed (simp add: assms(3) writable_longer)
  ultimately show ?thesis using that by blast
qed

text \<open>
  \<open>apr_brigade_putstrs\<close> without a flush callback appends its strings, up to
  the first NULL, to the bytes of the brigade, whatever buffering it does, and the
  brigade can be written to again. Other buckets keep their bytes.
\<close>

theorem apr_brigade_putstrs_appends:
  assumes "mem_inv st (mset b + B)" "writable B b" "\<forall>str \<in> set va. case str of None \<Rightarrow> True | Some s \<Rightarrow> length s < APR_SIZE_MAX"
  shows "\<exists>st' b'. apr_brigade_putstrs None (st, b) va = (APR_SUCCESS, st', b') \<and> mem_inv st' (mset b' + B) \<and>
    content st' b' = content st b @ concat (map the (takeWhile (\<lambda>v. v \<noteq> None) va)) \<and>
    (\<forall>c \<in># B. bytes st' c = bytes st c) \<and> writable B b'"
proof -
  have "\<exists>st' b'. apr_brigade_vputstrs None (st, b) va = (APR_SUCCESS, st', b') \<and> mem_inv st' (mset b' + B) \<and>
    content st' b' = content st b @ concat (map the (takeWhile (\<lambda>v. v \<noteq> None) va)) \<and> untouched st B st' \<and> writable B b'"
    using assms
  proof (induction va arbitrary: st b)
    case (Cons v va)
    show ?case
    proof (cases v)
      case (Some str)
      obtain st1 b1 where W: "apr_brigade_write None (st, b) str = (APR_SUCCESS, st1, b1)" "mem_inv st1 (mset b1 + B)"
          "untouched st B st1" "content st1 b1 = content st b @ str" "writable B b1"
        using write_ok [OF Cons.prems(1) _ Cons.prems(2), of str] Cons.prems(3) Some by auto
      obtain st' b' where "apr_brigade_vputstrs None (st1, b1) va = (APR_SUCCESS, st', b')" "mem_inv st' (mset b' + B)"
          "content st' b' = content st1 b1 @ concat (map the (takeWhile (\<lambda>v. v \<noteq> None) va))" "untouched st1 B st'" "writable B b'"
        using Cons.IH [OF W(2,5)] Cons.prems(3) by auto
      then show ?thesis using W Some by (auto intro: untouched_trans)
    qed (use Cons.prems in auto)
  qed auto
  then show ?thesis unfolding apr_brigade_putstrs_def untouched_def .
qed

lemma apr_brigade_putstrs_appends_witness:
  "mem_inv (empty_mem demo_pipe) (mset apr_brigade_create + {#}) \<and> writable {#} apr_brigade_create \<and>
   (\<exists>st' b'. apr_brigade_putstrs None (empty_mem demo_pipe, apr_brigade_create) [Some ''GET '', Some ''/x'', None, Some ''y''] =
      (APR_SUCCESS, st', b') \<and> content st' b' = ''GET /x'')"
proof -
  have w: "mem_inv (empty_mem demo_pipe) (mset apr_brigade_create + {#})" "writable {#} apr_brigade_create"
    by (simp_all add: apr_brigade_create_def writable_def)
  have l: "\<forall>str \<in> set [Some ''GET '', Some ''/x'', None, Some ''y'']. case str of None \<Rightarrow> True | Some s \<Rightarrow> length s < APR_SIZE_MAX"
    by (simp add: APR_SIZE_MAX_def)
  from apr_brigade_putstrs_appends [OF w l] show ?thesis using w by (auto simp: apr_brigade_create_def)
qed

text \<open>The vectors that fit, and the new bucket for the rest.\<close>

lemma fit_ok: "fit r vec = (d, l) \<Longrightarrow> vec = d @ l \<and> length (concat d) \<le> r"
proof (induction r vec arbitrary: d l rule: fit.induct)
  case (2 r v vec)
  then show ?case by (cases "length v > r"; cases "fit (r - length v) vec") fastforce+
qed simp

lemma length_concat_sum: "length (concat xs) = sum_list (map length xs)"
  by (induction xs) auto

lemma writev_rest_ok:
  assumes inv: "mem_inv st (mset b + B)" and n: "n = length (concat vec)" "n \<le> APR_BUCKET_BUFF_SIZE"
  shows "\<exists>st' b'. writev_rest (st, b) vec n = (APR_SUCCESS, st', b') \<and> mem_inv st' (mset b' + B) \<and>
    untouched st B st' \<and> content st' b' = content st b @ concat vec \<and> writable B b'"
proof -
  obtain st1 e where nb: "new_buffer st = (st1, e)" by fastforce
  note N = new_buffer_ok [OF inv nb]
  let ?e0 = "e\<lparr>b_length := 0\<rparr>" and ?st = "heap_write (fresh st) 0 (concat vec) st1"
  have at: "buf_at ?e0 = 0" using N by (simp add: buf_at_def)
  have E: "mem_inv (heap_write (fresh st) (buf_at ?e0) (concat vec) st1)
        (add_mset (?e0\<lparr>b_length := b_length ?e0 + length (concat vec)\<rparr>) (mset b + B)) \<and>
      untouched st1 (mset b + B) (heap_write (fresh st) (buf_at ?e0) (concat vec) st1) \<and>
      bytes (heap_write (fresh st) (buf_at ?e0) (concat vec) st1) (?e0\<lparr>b_length := b_length ?e0 + length (concat vec)\<rparr>) =
      bytes st1 ?e0 @ concat vec"
  proof (rule extend_inv)
    show "buf_at ?e0 + length (concat vec) \<le> alloc_len (the_obj st1 (fresh st))" using N n at by simp
    show "behind (mset b + B) ?e0" using N by (auto simp: behind_def)
  qed (use N in auto)
  have zero: "bytes st1 ?e0 = []" using N by (simp add: bytes_def slice_def)
  have out: "untouched st (mset b + B) ?st" using E at N untouched_trans by metis
  have "writev_rest (st, b) vec n = (APR_SUCCESS, ?st, b @ [e\<lparr>b_length := n\<rparr>])"
    using nb N by (simp add: writev_rest_def)
  moreover have "mem_inv ?st (mset (b @ [e\<lparr>b_length := n\<rparr>]) + B)" using E at n by simp
  moreover have "content ?st (b @ [e\<lparr>b_length := n\<rparr>]) = content st b @ concat vec"
    using E at zero n out untouched_content [of st b ?st] by simp
  moreover have "writable B (b @ [e\<lparr>b_length := n\<rparr>])" using N by (intro writable_fresh) auto
  ultimately show ?thesis using out by auto
qed

lemma heap_buckets_ok:
  assumes "mem_inv st (mset b + B)" "\<forall>v \<in> set vec. length v < APR_SIZE_MAX" "writable B b"
    "fold (\<lambda>v (st, b). case apr_bucket_heap_create st v (length v) False of (st, e) \<Rightarrow> (st, b @ [e])) vec (st, b) = (st', b')"
  shows "mem_inv st' (mset b' + B) \<and> untouched st B st' \<and> content st' b' = content st b @ concat vec \<and> writable B b'"
  using assms
proof (induction vec arbitrary: st b)
  case (Cons v vec)
  obtain st1 e where C: "apr_bucket_heap_create st v (length v) False = (st1, e)" "mem_inv st1 (add_mset e (mset b + B))"
      "untouched st (mset b + B) st1" "bytes st1 e = v" "b_data e = Shared (fresh st)"
    using apr_bucket_heap_create_ok [OF Cons.prems(1), of "length v" v False] Cons.prems(2) by auto
  have "writable B (b @ [e])" using C(5) fresh_apart [OF Cons.prems(1)] by (intro writable_fresh) auto
  moreover have "mem_inv st1 (mset (b @ [e]) + B)" using C(2) by simp
  moreover have "fold (\<lambda>v (st, b). case apr_bucket_heap_create st v (length v) False of (st, e) \<Rightarrow> (st, b @ [e])) vec (st1, b @ [e]) = (st', b')"
    using Cons.prems(4) C(1) by simp
  ultimately have "mem_inv st' (mset b' + B) \<and> untouched st1 B st' \<and> content st' b' = content st1 (b @ [e]) @ concat vec \<and> writable B b'"
    using Cons.IH [of st1 "b @ [e]"] Cons.prems(2) by simp
  then show ?case using C(3,4) untouched_content [of st b st1] by (auto intro: untouched_trans)
qed simp

text \<open>
  \<open>apr_brigade_writev\<close> without a flush callback appends the vectors in order,
  whether they are too big to be buffered, fit into the last buffer, start a new
  one, or are spread over both; the brigade can be written to again.
\<close>

theorem apr_brigade_writev_appends:
  assumes "mem_inv st (mset b + B)" "writable B b" "\<forall>v \<in> set vec. length v < APR_SIZE_MAX"
  shows "\<exists>st' b'. apr_brigade_writev None (st, b) vec = (APR_SUCCESS, st', b') \<and> mem_inv st' (mset b' + B) \<and>
    content st' b' = content st b @ concat vec \<and> (\<forall>c \<in># B. bytes st' c = bytes st c) \<and> writable B b'"
proof -
  let ?n = "sum_list (map length vec)" and ?e = "last b"
  have n: "?n = length (concat vec)" by (simp add: length_concat_sum)
  have "\<exists>st' b'. apr_brigade_writev None (st, b) vec = (APR_SUCCESS, st', b') \<and> mem_inv st' (mset b' + B) \<and>
    untouched st B st' \<and> content st' b' = content st b @ concat vec \<and> writable B b'"
  proof (cases "?n > APR_BUCKET_BUFF_SIZE")
    case True
    obtain st' b' where f: "fold (\<lambda>v (st, b). case apr_bucket_heap_create st v (length v) False of (st, e) \<Rightarrow> (st, b @ [e])) vec (st, b) = (st', b')"
      by fastforce
    then have "apr_brigade_writev None (st, b) vec = (APR_SUCCESS, st', b')" using True by (simp add: apr_brigade_writev_def)
    then show ?thesis using heap_buckets_ok [OF assms(1,3,2) f] by blast
  next
    case small: False
    show ?thesis
    proof (cases "b \<noteq> [] \<and> b_type ?e = HEAP")
      case False
      then have "apr_brigade_writev None (st, b) vec = writev_rest (st, b) vec ?n"
        using small by (auto simp: apr_brigade_writev_def Let_def)
      then show ?thesis using writev_rest_ok [OF assms(1) n] small by simp
    next
      case True
      then have b: "b \<noteq> []" "b_type ?e = HEAP" by simp_all
      have bh: "behind (mset (butlast b) + B) ?e" using assms(2) True by (simp add: writable_def)
      let ?r = "remaining_at st ?e"
      let ?put = "\<lambda>s. heap_write (addr_of (b_data ?e)) (buf_at ?e) s st"
      let ?b = "\<lambda>n. butlast b @ [?e\<lparr>b_length := b_length ?e + n\<rparr>]"
      have wr: "writable B (?b m)" for m by (intro writable_longer [OF assms(2) b]) (simp_all add: buf_at_def)
      show ?thesis
      proof (cases "?n \<le> ?r")
        case True
        then have "length (concat vec) \<le> ?r" using n by simp
        note A = append_last [OF assms(1) b bh this]
        have "apr_brigade_writev None (st, b) vec = (APR_SUCCESS, ?put (concat vec), ?b (length (concat vec)))"
          using True small b n by (simp add: apr_brigade_writev_def Let_def)
        then show ?thesis using A wr by blast
      next
        case False
        obtain d l where fit: "fit ?r vec = (d, l)" by fastforce
        have dl: "vec = d @ l" "length (concat d) \<le> ?r" using fit_ok [OF fit] by auto
        note A = append_last [OF assms(1) b bh dl(2)]
        have res: "apr_brigade_writev None (st, b) vec =
            writev_rest (?put (concat d), ?b (length (concat d))) l (?n - length (concat d))"
          using False small b fit by (simp add: apr_brigade_writev_def Let_def)
        have "?n - length (concat d) = length (concat l)" using n dl(1) by simp
        moreover have "?n - length (concat d) \<le> APR_BUCKET_BUFF_SIZE" using small by simp
        ultimately obtain st' b' where "apr_brigade_writev None (st, b) vec = (APR_SUCCESS, st', b')" "mem_inv st' (mset b' + B)"
            "untouched (?put (concat d)) B st'" "content st' b' = content (?put (concat d)) (?b (length (concat d))) @ concat l"
            "writable B b'"
          using writev_rest_ok [OF A(1)] res by metis
        then show ?thesis using A(2,3) dl(1) untouched_trans by (intro exI [of _ st'] exI [of _ b']) auto
      qed
    qed
  qed
  then show ?thesis unfolding untouched_def by blast
qed

lemma apr_brigade_writev_appends_witness:
  "mem_inv (empty_mem demo_pipe) (mset apr_brigade_create + {#}) \<and> writable {#} apr_brigade_create \<and>
   (\<exists>st' b'. apr_brigade_writev None (empty_mem demo_pipe, apr_brigade_create) [''HTTP/1.1'', '' '', ''200''] =
      (APR_SUCCESS, st', b') \<and> content st' b' = ''HTTP/1.1 200'')"
proof -
  have w: "mem_inv (empty_mem demo_pipe) (mset apr_brigade_create + {#})" "writable {#} apr_brigade_create"
    by (simp_all add: apr_brigade_create_def writable_def)
  have l: "\<forall>v \<in> set [''HTTP/1.1'', '' '', ''200'']. length v < APR_SIZE_MAX" by (simp add: APR_SIZE_MAX_def)
  from apr_brigade_writev_appends [OF w l] show ?thesis using w by (auto simp: apr_brigade_create_def)
qed

section \<open>Lines and clean-up\<close>

text \<open>
  \<open>apr_brigade_split_line\<close> moves bytes from the front of one brigade to the
  end of the other, in order and without losing any: they end with the first line
  feed, or hold none and stop at the byte limit or the end of the input; only a
  pipe that cannot be read gives an error, and it stays in front of the input.
\<close>

theorem apr_brigade_split_line_moves:
  assumes "mem_inv st (mset out + mset rest + B)" "can_append (mset out + mset rest + B) (rest @ tail_of out)"
    "apr_brigade_split_line st out rest maxbytes = (rv, st', out', rest')"
  shows "mem_inv st' (mset out' + mset rest' + B) \<and> (\<forall>c \<in># B. bytes st' c = bytes st c) \<and>
    (\<exists>moved. content st' out' = content st out @ moved \<and> content st rest = moved @ content st' rest' \<and>
       ((\<exists>line. rv = APR_SUCCESS \<and> moved = line @ [APR_ASCII_LF] \<and> APR_ASCII_LF \<notin> set line) \<or>
        APR_ASCII_LF \<notin> set moved \<and>
        (if rv = APR_SUCCESS then rest' = [] \<or> maxbytes \<le> int (length moved)
         else rest' \<noteq> [] \<and> b_type (hd rest') = PIPE)))"
proof -
  have loop: "split_line_loop st out rest maxbytes 0 = (rv, st', out', rest')"
    using assms(3) by (simp add: apr_brigade_split_line_def)
  from split_line_loop_ok [OF assms(1,2) loop] obtain moved where
    M: "mem_inv st' (mset out' + mset rest' + B)" "untouched st B st'"
      "content st' out' = content st out @ moved" "content st rest = moved @ content st' rest'"
      "(\<exists>line. rv = APR_SUCCESS \<and> moved = line @ [APR_ASCII_LF] \<and> APR_ASCII_LF \<notin> set line) \<or>
        (APR_ASCII_LF \<notin> set moved \<and>
         (rv = APR_SUCCESS \<and> (rest' = [] \<or> 0 + int (length moved) \<ge> maxbytes) \<or>
          rv \<noteq> APR_SUCCESS \<and> rest' \<noteq> [] \<and> b_type (hd rest') = PIPE))"
    by blast
  have "(\<exists>line. rv = APR_SUCCESS \<and> moved = line @ [APR_ASCII_LF] \<and> APR_ASCII_LF \<notin> set line) \<or>
        APR_ASCII_LF \<notin> set moved \<and>
        (if rv = APR_SUCCESS then rest' = [] \<or> maxbytes \<le> int (length moved) else rest' \<noteq> [] \<and> b_type (hd rest') = PIPE)"
    using M(5) by auto
  then show ?thesis using M(1-4) unfolding untouched_def by blast
qed

text \<open>The input: a heap bucket with a line and a half, then the pipe.\<close>

definition line_mem :: bmem where
  "line_mem = fst (apr_bucket_heap_create (empty_mem demo_pipe) (''ab'' @ [APR_ASCII_LF] @ ''cd'') 5 False)"

definition line_in :: brigade where
  "line_in = [snd (apr_bucket_heap_create (empty_mem demo_pipe) (''ab'' @ [APR_ASCII_LF] @ ''cd'') 5 False)]"

lemma line_inv: "mem_inv line_mem (mset [] + mset line_in + {#})"
  using apr_bucket_heap_create_ok [OF empty_mem_inv [of demo_pipe], of 5 "''ab'' @ [APR_ASCII_LF] @ ''cd''" False]
  by (auto simp: line_mem_def line_in_def APR_SIZE_MAX_def)

lemmas line_defs = line_mem_def line_in_def empty_mem_def new_bucket_def apr_bucket_heap_create_def heap_make_copy
  apr_bucket_shared_make_def Let_def

lemma line_content: "content line_mem line_in = ''ab'' @ [APR_ASCII_LF] @ ''cd''"
  by (simp add: line_defs bytes_def slice_def obj_data_def the_obj_def put_obj_def)

lemma apr_brigade_split_line_moves_witness:
  "mem_inv line_mem (mset [] + mset line_in + {#}) \<and>
   (\<exists>st' out' rest'. apr_brigade_split_line line_mem [] line_in 100 = (APR_SUCCESS, st', out', rest') \<and>
      content st' out' = ''ab'' @ [APR_ASCII_LF] \<and> content st' rest' = ''cd'')"
proof -
  obtain rv st' out' rest' where r: "apr_brigade_split_line line_mem [] line_in 100 = (rv, st', out', rest')" by (metis prod_cases4)
  have can: "can_append (mset [] + mset line_in + {#}) (line_in @ tail_of [])"
    by (simp add: line_in_def can_append_def behind_def)
  have ok: "rv = APR_SUCCESS" "length (content st' out') = 3"
    using r by (auto simp: apr_brigade_split_line_def line_defs apr_bucket_read_def heap_bucket_read_def slice_def the_obj_def
      put_obj_def APR_ASCII_LF_def apr_bucket_split_def apr_bucket_shared_split_def apr_bucket_simple_split_def
      apr_bucket_simple_copy_def add_ref_def bytes_def obj_data_def)
  from apr_brigade_split_line_moves [OF line_inv can r] obtain moved where
    "content st' out' = moved" "content line_mem line_in = moved @ content st' rest'" by auto
  then show ?thesis using ok r line_inv unfolding line_content
    by (auto simp: append_eq_append_conv2 numeral_eq_Suc length_Suc_conv)
qed

text \<open>
  \<open>apr_brigade_cleanup\<close> destroys the buckets of the brigade and no others: the
  other buckets keep their bytes, and when there are none every buffer is freed.
\<close>

theorem apr_brigade_cleanup_releases:
  assumes "mem_inv st (mset b + B)"
  shows "mem_inv (apr_brigade_cleanup st b) B \<and> (\<forall>c \<in># B. bytes (apr_brigade_cleanup st b) c = bytes st c) \<and>
    (\<forall>a. objs (apr_brigade_cleanup st b) a \<noteq> None \<longrightarrow> (\<exists>c \<in># B. b_data c = Shared a))"
proof -
  let ?st = "apr_brigade_cleanup st b"
  have C: "mem_inv ?st B" "untouched st B ?st" using cleanup_ok [OF assms] by blast+
  have "\<exists>c \<in># B. b_data c = Shared a" if "objs ?st a = Some h" for a h
  proof -
    have "0 < size {#c \<in># B. b_data c = Shared a#}" using mem_invD(2) [OF C(1) that] by (simp add: refs_def)
    then obtain c where "c \<in># {#c \<in># B. b_data c = Shared a#}" by (metis nonempty_has_size multiset_nonemptyE)
    then show ?thesis by auto
  qed
  then show ?thesis using C by (auto simp: untouched_def)
qed

lemma apr_brigade_cleanup_releases_witness:
  "mem_inv demo_mem (mset demo + {#}) \<and> objs demo_mem 0 \<noteq> None \<and> objs (apr_brigade_cleanup demo_mem demo) 0 = None"
proof -
  have inv: "mem_inv demo_mem (mset demo + {#})" using demo_inv by simp
  have "objs demo_mem 0 \<noteq> None" by (simp add: demo_defs put_obj_def)
  then show ?thesis using inv apr_brigade_cleanup_releases [OF inv] by auto
qed

section \<open>Where a writer meets a shared buffer\<close>

text \<open>The two halves of \<open>hello\<close> after a split behind \<open>he\<close>.\<close>

definition split_mem :: bmem where
  "split_mem = fst (snd (apr_bucket_split sample_mem sample_bucket 2))"

definition halves :: brigade where
  "halves = snd (snd (apr_bucket_split sample_mem sample_bucket 2))"

lemmas halves_defs = split_mem_def halves_def sample_defs apr_bucket_split_def apr_bucket_shared_split_def
  apr_bucket_simple_split_def apr_bucket_simple_copy_def add_ref_def the_obj_def put_obj_def

lemmas write_defs = apr_brigade_write_def remaining_at_def size_minus_def buf_at_def heap_write_def

text \<open>
  \<open>apr_brigade_puts\<close> does not count the start of the last bucket: on the
  second half of a split bucket, whose buffer is full, it finds room for two bytes
  and writes them behind the end of the five-byte buffer. \<open>apr_brigade_write\<close>
  on the same brigade makes a new bucket.
\<close>

theorem apr_brigade_puts_overruns:
  "(case apr_brigade_puts None (split_mem, tl halves) ''xy'' of (rv, st, b) \<Rightarrow>
      rv = APR_SUCCESS \<and> length b = 1 \<and> b_data (hd b) = Shared 0 \<and> alloc_len (the_obj st 0) = 5 \<and>
      nat (b_start (hd b)) + b_length (hd b) = 7) \<and>
   (case apr_brigade_write None (split_mem, tl halves) ''xy'' of (rv, st, b) \<Rightarrow> rv = APR_SUCCESS \<and> length b = 2)"
  by (simp add: apr_brigade_puts_def halves_defs write_defs)

lemma split_heap:
  assumes "b_type e = HEAP" "b_data e = Shared a" "apr_bucket_split st e n = (APR_SUCCESS, st1, [x, y])"
  shows "n \<le> b_length e" "st1 = add_ref a st" "x = e\<lparr>b_length := n\<rparr>"
    "y = e\<lparr>b_length := b_length e - n, b_start := b_start e + int n\<rparr>"
  using assms
  by (auto simp: apr_bucket_split_def apr_bucket_shared_split_def apr_bucket_simple_split_def apr_bucket_simple_copy_def
      split: if_splits)

lemma slice_write_over:
  "i \<le> length base \<Longrightarrow> slice (int i) m (take i base @ s @ drop (i + length s) base) =
     take m s @ drop (length s) (slice (int i) m base)"
  by (simp add: slice_def drop_take add.commute)

text \<open>
  C35. Let a heap bucket be split at any point, and let the first half end a
  brigade. A write of as many bytes as the buffer has behind the split point goes
  into that buffer: the brigade gets its bytes, and the second half, which any other
  brigade may hold, reads the written bytes in place of its own.
\<close>

theorem apr_brigade_write_clobbers_sibling:
  assumes inv: "mem_inv st (add_mset e B)" and heap: "b_type e = HEAP"
    and split: "apr_bucket_split st e n = (APR_SUCCESS, st1, [x, y])"
    and room: "nat (b_start e) + n + length str \<le> alloc_len (the_obj st (addr_of (b_data e)))"
  shows "\<exists>st' x'. apr_brigade_write flush (st1, pre @ [x]) str = (APR_SUCCESS, st', pre @ [x']) \<and>
    bytes st1 y = drop n (bytes st e) \<and> bytes st' x' = take n (bytes st e) @ str \<and>
    bytes st' y = take (length (bytes st1 y)) str @ drop (length str) (bytes st1 y)"
proof -
  obtain a h where a: "b_data e = Shared a" "objs st a = Some h" "the_obj st a = h"
    using shared_obj [OF inv, of e] heap by auto
  note cut = split_heap [OF heap a(1) split]
  have ok: "bucket_ok st e" "pool h = None" "0 \<le> b_start e" "nat (b_start e) + b_length e \<le> alloc_len h"
    using mem_invD(1) [OF inv, of e] a heap by (auto simp: bucket_ok_def)
  have len: "alloc_len h \<le> length (heap_base h)" "alloc_len h < APR_SIZE_MAX"
    using mem_invD(2) [OF inv a(2)] ok(2) by (simp_all add: obj_data_def)
  let ?i = "nat (b_start e) + n" and ?h = "h\<lparr>refcount := refcount h + 1\<rparr>"
  let ?base = "take ?i (heap_base h) @ str @ drop (?i + length str) (heap_base h)"
  have obj1: "the_obj st1 a = ?h" using a(3) by (simp add: cut(2) add_ref_def the_obj_simps)
  define st' where "st' = heap_write a ?i str st1"
  have obj': "the_obj st' a = ?h\<lparr>heap_base := ?base\<rparr>"
    by (simp add: st'_def heap_write_def obj1 the_obj_simps)
  have "length str \<le> remaining_at st1 x"
    using room a len(2) size_minus_le [of ?i "alloc_len h"]
    by (simp add: remaining_at_def cut(3) obj1 add.commute)
  then have run: "apr_brigade_write flush (st1, pre @ [x]) str = (APR_SUCCESS, st', pre @ [x\<lparr>b_length := n + length str\<rparr>])"
    using heap a(1) by (simp add: apr_brigade_write_def Let_def cut(3) st'_def buf_at_def)
  have i: "?i \<le> length (heap_base h)" using room a len(1) by simp
  have at: "b_start y = int ?i" using ok(3) by (simp add: cut(4))
  have y: "bytes st1 y = slice (int ?i) (b_length y) (heap_base h)"
      "bytes st' y = slice (int ?i) (b_length y) ?base"
    using a(1) ok(2) at by (simp_all add: bytes_def obj_data_def obj1 obj' cut(4))
  have "bytes st1 y = drop n (bytes st e)"
    using slice_drop [OF ok(3), of n "b_length e" "heap_base h"] a ok(2)
    by (simp add: bytes_def obj_data_def obj1 cut(4))
  moreover have "bytes st' (x\<lparr>b_length := n + length str\<rparr>) = take n (bytes st e) @ str"
    using slice_write_at [of "b_start e" n "heap_base h" str] i slice_take [OF cut(1)] a ok(2)
    by (simp add: bytes_def obj_data_def obj' cut(3))
  moreover have "bytes st' y = take (b_length y) str @ drop (length str) (bytes st1 y)"
    using slice_write_over [OF i] by (simp add: y)
  moreover have "length (bytes st1 y) = b_length y"
    using len(1) ok(3,4) cut(1) y(1) by (simp add: slice_def cut(4))
  ultimately show ?thesis using run by auto
qed

lemma apr_brigade_write_clobbers_sibling_witness:
  "apr_bucket_split sample_mem sample_bucket 2 = (APR_SUCCESS, split_mem, [hd halves, halves ! 1]) \<and>
   (\<exists>st' x'. apr_brigade_write None (split_mem, [hd halves]) ''xy'' = (APR_SUCCESS, st', [x']) \<and>
      bytes split_mem (halves ! 1) = ''llo'' \<and> bytes st' x' = ''hexy'' \<and> bytes st' (halves ! 1) = ''xyo'')"
proof -
  have split: "apr_bucket_split sample_mem sample_bucket 2 = (APR_SUCCESS, split_mem, [hd halves, halves ! 1])"
    by (simp add: halves_defs)
  have "bytes sample_mem sample_bucket = ''hello''"
    by (simp add: sample_defs bytes_def obj_data_def slice_def the_obj_def put_obj_def)
  moreover have "nat (b_start sample_bucket) + 2 + length ''xy'' \<le> alloc_len (the_obj sample_mem (addr_of (b_data sample_bucket)))"
    "b_type sample_bucket = HEAP"
    by (simp_all add: sample_defs the_obj_def put_obj_def)
  ultimately show ?thesis
    using apr_brigade_write_clobbers_sibling [OF sample_inv _ split, of "''xy''" None "[]"] split by auto
qed

end
