(* ===== verification/Apu_Strmatch.thy ===== *)
theory Apu_Strmatch
  imports Apr_Prelude
begin

text \<open>
  String search (\<open>srclib/apr-util/strmatch/apr_strmatch.c\<close>): the Boyer-Moore-Horspool search with a
  precompiled table of shifts, against the first place where the pattern occurs. The text is the list of its
  \<open>slen\<close> characters, a result is an offset into it; \<open>None\<close> is NULL.
\<close>

section \<open>The pattern and its table\<close>

datatype strmatch_compare = Match_no_op | Match_bmh | Match_bmh_nocase

record strmatch_pattern =
  sm_compare :: strmatch_compare
  sm_pattern :: cstr
  sm_length :: nat
  sm_context :: "nat list option"

definition NUM_CHARS :: nat where "NUM_CHARS = 256"

text \<open>The loop that fills in the shifts of the characters before the last one.\<close>

fun fill_shift :: "(char \<Rightarrow> char) \<Rightarrow> cstr \<Rightarrow> nat list \<Rightarrow> nat \<Rightarrow> nat list" where
  "fill_shift f s shift 0 = shift"
| "fill_shift f s shift (Suc i) = (fill_shift f s shift i)[of_char (f (s ! i)) := length s - i - 1]"

definition apr_strmatch_precompile :: "cstr \<Rightarrow> bool \<Rightarrow> strmatch_pattern" where
  "apr_strmatch_precompile s case_sensitive =
     (if length s = 0
      then \<lparr>sm_compare = Match_no_op, sm_pattern = s, sm_length = length s, sm_context = None\<rparr>
      else
        let shift = replicate NUM_CHARS (length s)
        in if case_sensitive
           then \<lparr>sm_compare = Match_bmh, sm_pattern = s, sm_length = length s,
                 sm_context = Some (fill_shift (\<lambda>c. c) s shift (length s - 1))\<rparr>
           else \<lparr>sm_compare = Match_bmh_nocase, sm_pattern = s, sm_length = length s,
                 sm_context = Some (fill_shift tolower s shift (length s - 1))\<rparr>)"

section \<open>The search\<close>

text \<open>The inner loop, from \<open>s_tmp\<close> and the pattern's index \<open>p_tmp\<close> down.\<close>

fun compare_back :: "(char \<Rightarrow> char) \<Rightarrow> cstr \<Rightarrow> cstr \<Rightarrow> nat \<Rightarrow> nat \<Rightarrow> nat option" where
  "compare_back f p s s_tmp 0 = (if f (s ! s_tmp) = f (p ! 0) then Some s_tmp else None)"
| "compare_back f p s s_tmp (Suc p_tmp) =
     (if f (s ! s_tmp) = f (p ! Suc p_tmp) then compare_back f p s (s_tmp - 1) p_tmp else None)"

partial_function (option) bmh_loop ::
  "(char \<Rightarrow> char) \<Rightarrow> cstr \<Rightarrow> nat \<Rightarrow> nat list \<Rightarrow> cstr \<Rightarrow> nat \<Rightarrow> nat option option" where
  "bmh_loop f p len shift s s_next =
     (if s_next < length s then
        (case compare_back f p s s_next (len - 1) of
           Some r \<Rightarrow> Some (Some r)
         | None \<Rightarrow> bmh_loop f p len shift s (s_next + shift ! of_char (f (s ! s_next))))
      else Some None)"

declare bmh_loop.simps [code]

definition match_boyer_moore_horspool :: "strmatch_pattern \<Rightarrow> cstr \<Rightarrow> nat option option" where
  "match_boyer_moore_horspool this s =
     bmh_loop (\<lambda>c. c) (sm_pattern this) (sm_length this) (the (sm_context this)) s (sm_length this - 1)"

definition match_boyer_moore_horspool_nocase :: "strmatch_pattern \<Rightarrow> cstr \<Rightarrow> nat option option" where
  "match_boyer_moore_horspool_nocase this s =
     bmh_loop tolower (sm_pattern this) (sm_length this) (the (sm_context this)) s (sm_length this - 1)"

definition match_no_op :: "strmatch_pattern \<Rightarrow> cstr \<Rightarrow> nat option option" where
  "match_no_op this s = Some (Some 0)"

definition apr_strmatch :: "strmatch_pattern \<Rightarrow> cstr \<Rightarrow> nat option option" where
  "apr_strmatch pattern s =
     (case sm_compare pattern of
        Match_no_op \<Rightarrow> match_no_op pattern s
      | Match_bmh \<Rightarrow> match_boyer_moore_horspool pattern s
      | Match_bmh_nocase \<Rightarrow> match_boyer_moore_horspool_nocase pattern s)"

section \<open>Occurrences\<close>

definition occurs :: "(char \<Rightarrow> char) \<Rightarrow> cstr \<Rightarrow> cstr \<Rightarrow> nat \<Rightarrow> bool" where
  "occurs f p s i \<longleftrightarrow> map f (take (length p) (drop i s)) = map f p"

lemma occurs_nth:
  assumes "p \<noteq> []"
  shows "occurs f p s i \<longleftrightarrow> i + length p \<le> length s \<and> (\<forall>j < length p. f (s ! (i + j)) = f (p ! j))"
proof (cases "i + length p \<le> length s")
  case True
  then show ?thesis by (simp add: occurs_def list_eq_iff_nth_eq)
next
  case False
  then have "length (map f (take (length p) (drop i s))) \<noteq> length (map f p)"
    using assms by (cases p) auto
  then have "\<not> occurs f p s i" unfolding occurs_def by metis
  then show ?thesis using False by simp
qed

lemma compare_back_Some:
  assumes "p_tmp < length p" "p_tmp \<le> s_tmp"
  shows "compare_back f p s s_tmp p_tmp =
    (if \<forall>j \<le> p_tmp. f (s ! (s_tmp - p_tmp + j)) = f (p ! j) then Some (s_tmp - p_tmp) else None)"
  using assms
proof (induction p_tmp arbitrary: s_tmp)
  case (Suc k)
  have "(\<forall>j \<le> Suc k. f (s ! (s_tmp - Suc k + j)) = f (p ! j)) \<longleftrightarrow>
      f (s ! s_tmp) = f (p ! Suc k) \<and> (\<forall>j \<le> k. f (s ! (s_tmp - 1 - k + j)) = f (p ! j))"
    using Suc.prems by (auto simp: le_Suc_eq)
  then show ?case using Suc.IH [of "s_tmp - 1"] Suc.prems by simp
qed simp

text \<open>What the table holds.\<close>

lemma length_fill_shift [simp]: "length (fill_shift f s shift n) = length shift"
  by (induction n) simp_all

lemma fill_shift_bounds:
  assumes "n \<le> length s - 1" "length shift = 256" "\<forall>c < 256. shift ! c = length s" "s \<noteq> []"
  shows "0 < fill_shift f s shift n ! of_char (c :: char)"
    "j < n \<Longrightarrow> f c = f (s ! j) \<Longrightarrow> fill_shift f s shift n ! of_char (f c) \<le> length s - 1 - j"
    "fill_shift f s shift n ! of_char c \<le> length s"
proof -
  have "0 < fill_shift f s shift n ! of_char (c :: char) \<and> fill_shift f s shift n ! of_char c \<le> length s \<and>
      (\<forall>j < n. f c' = f (s ! j) \<longrightarrow> fill_shift f s shift n ! of_char (f c') \<le> length s - 1 - j)" for c c'
    using assms(1)
  proof (induction n)
    case 0
    then show ?case using assms(2-4) of_char_less [of c] by simp
  next
    case (Suc n)
    let ?t = "fill_shift f s shift n"
    have len: "of_char (d :: char) < length ?t" for d using of_char_less [of d] assms(2) by simp
    have upd: "fill_shift f s shift (Suc n) ! of_char d = (if d = f (s ! n) then length s - n - 1 else ?t ! of_char d)" for d :: char
      using len [of "f (s ! n)"] by (auto simp: nth_list_update)
    show ?case unfolding upd using Suc by (auto simp: less_Suc_eq)
  qed
  then show "0 < fill_shift f s shift n ! of_char (c :: char)"
    "j < n \<Longrightarrow> f c = f (s ! j) \<Longrightarrow> fill_shift f s shift n ! of_char (f c) \<le> length s - 1 - j"
    "fill_shift f s shift n ! of_char c \<le> length s" by blast+
qed

section \<open>The search finds the first occurrence\<close>

definition first_occurrence :: "(char \<Rightarrow> char) \<Rightarrow> cstr \<Rightarrow> cstr \<Rightarrow> nat option" where
  "first_occurrence f p s = find (occurs f p s) [0..<Suc (length s - length p)]"

lemma find_least:
  assumes "P i" "\<forall>j < i. \<not> P j" "i < n"
  shows "find P [0..<n] = Some i"
  unfolding find_Some_iff using assms by (intro exI [of _ i]) auto

lemma bmh_loop_finds:
  assumes p: "p \<noteq> []" and len: "len = length p"
    and shift: "shift = fill_shift f p (replicate NUM_CHARS (length p)) (length p - 1)"
    and "len - 1 \<le> s_next" "\<forall>i. i + len \<le> s_next \<longrightarrow> \<not> occurs f p s i"
  shows "bmh_loop f p len shift s s_next = Some (first_occurrence f p s)"
  using assms(4,5)
proof (induction "length s - s_next" arbitrary: s_next rule: less_induct)
  case less
  have len0: "0 < len" using p len by simp
  have len1: "len - 1 < length p" using p len by simp
  show ?case
  proof (cases "s_next < length s")
    case False
    have "\<not> occurs f p s i" for i
    proof
      assume o: "occurs f p s i"
      then have "i + len \<le> s_next" using False occurs_nth [OF p, of f s i] len by linarith
      then show False using less.prems(2) o by blast
    qed
    then have "first_occurrence f p s = None" by (simp add: first_occurrence_def find_None_iff)
    then show ?thesis using False by (subst bmh_loop.simps) simp
  next
    case True
    let ?i = "s_next - (len - 1)"
    note cmp = compare_back_Some [OF len1 less.prems(1), of f s]
    have occ: "occurs f p s ?i \<longleftrightarrow> (\<forall>j \<le> len - 1. f (s ! (?i + j)) = f (p ! j))"
      using occurs_nth [OF p, of f s ?i] True less.prems(1) len len0 by (auto simp: less_eq_Suc_le)
    show ?thesis
    proof (cases "occurs f p s ?i")
      case found: True
      have "\<not> occurs f p s j" if "j < ?i" for j using less.prems(2) that by auto
      then have "first_occurrence f p s = Some ?i"
        unfolding first_occurrence_def using found True len0 less.prems(1)
        by (intro find_least) (auto simp: len [symmetric])
      then show ?thesis using found occ cmp True by (subst bmh_loop.simps) simp
    next
      case miss: False
      let ?c = "f (s ! s_next)"
      let ?n = "s_next + shift ! of_char ?c"
      note bounds = fill_shift_bounds [where n = "length p - 1" and s = p and shift = "replicate NUM_CHARS (length p)" and f = f, folded shift]
      have pos: "0 < shift ! of_char ?c" and most: "shift ! of_char ?c \<le> len"
        using bounds p by (simp_all add: NUM_CHARS_def len)
      have "\<not> occurs f p s i" if i: "i + len \<le> ?n" for i
      proof
        assume o: "occurs f p s i"
        then have later: "s_next < i + len" using less.prems(2) by (meson not_le)
        have "i \<noteq> ?i" using miss o by blast
        then have "s_next < i + (len - 1)" using later less.prems(1) len0 by linarith
        define j where "j = s_next - i"
        have j: "j < len - 1" "s_next = i + j" using i most later \<open>s_next < i + (len - 1)\<close> by (auto simp: j_def)
        then have "f (s ! (i + j)) = f (p ! j)" using o occurs_nth [OF p, of f s i] len by simp
        then have "shift ! of_char ?c \<le> len - 1 - j"
          using bounds(2) [where j = j and c = "s ! s_next"] p j len by (simp add: NUM_CHARS_def)
        then show False using i j by linarith
      qed
      moreover have "length s - ?n < length s - s_next" using pos True by linarith
      ultimately have "bmh_loop f p len shift s ?n = Some (first_occurrence f p s)"
        using less.hyps [of ?n] less.prems(1) by auto
      moreover have "compare_back f p s s_next (len - 1) = None" using miss unfolding occ cmp by (rule if_not_P)
      ultimately show ?thesis using True by (subst bmh_loop.simps) simp
    qed
  qed
qed

text \<open>
  C15. A search with a precompiled pattern returns, and finds the first place of the text where the
  pattern occurs, with or without regard to case, or NULL when there is none; the table lets it skip no occurrence.
\<close>

theorem apr_strmatch_finds_first:
  "apr_strmatch (apr_strmatch_precompile p case_sensitive) s =
     Some (first_occurrence (if case_sensitive then \<lambda>c. c else tolower) p s)"
proof (cases "p = []")
  case True
  have "first_occurrence f [] s = Some 0" for f
    unfolding first_occurrence_def by (rule find_least) (simp_all add: occurs_def)
  then show ?thesis using True by (simp add: apr_strmatch_def apr_strmatch_precompile_def match_no_op_def)
next
  case False
  have "\<forall>i. i + length p \<le> length p - 1 \<longrightarrow> \<not> occurs f p s i" for f
    using False by (cases p) auto
  note loop = bmh_loop_finds [OF False refl refl le_refl this]
  show ?thesis
    using False loop by (simp add: apr_strmatch_def apr_strmatch_precompile_def match_boyer_moore_horspool_def
        match_boyer_moore_horspool_nocase_def Let_def)
qed

end
