(* ===== verification/Apu_Uri.thy ===== *)
theory Apu_Uri
  imports Apr_Numbers
begin

unbundle bit_operations_syntax

text \<open>
  URIs (\<open>srclib/apr-util/uri/apr_uri.c\<close>): parsing into components and printing. The string that is parsed is
  fixed and the pointers into it (\<open>uri\<close>, \<open>hostinfo\<close>, \<open>s\<close>, \<open>s1\<close>) are offsets; each label that the
  code jumps to is a function of the variables that are live there. \<open>strtol\<close> is the one of the C library, for base 10 and a
  64-bit \<open>long\<close>.
\<close>

section \<open>The structure\<close>

record apr_uri =
  scheme :: "cstr option"
  hostinfo :: "cstr option"
  user :: "cstr option"
  password :: "cstr option"
  hostname :: "cstr option"
  port_str :: "cstr option"
  path :: "cstr option"
  query :: "cstr option"
  fragment :: "cstr option"
  hostent :: "nat option"
  port :: "16 word"
  is_initialized :: bool
  dns_looked_up :: bool
  dns_resolved :: bool

text \<open>\<open>memset\<close>, then \<open>is_initialized = 1\<close>.\<close>

definition uri_init :: apr_uri where
  "uri_init = \<lparr>scheme = None, hostinfo = None, user = None, password = None, hostname = None, port_str = None,
     path = None, query = None, fragment = None, hostent = None, port = 0, is_initialized = True,
     dns_looked_up = False, dns_resolved = False\<rparr>"

definition schemes :: "(cstr \<times> 16 word) list" where
  "schemes =
     [(''http'', 80), (''ftp'', 21), (''https'', 443), (''gopher'', 70), (''ldap'', 389), (''nntp'', 119),
      (''snews'', 563), (''imap'', 143), (''pop'', 110), (''sip'', 5060), (''rtsp'', 554), (''wais'', 210),
      (''z39.50r'', 210), (''z39.50s'', 210), (''prospero'', 191), (''nfs'', 2049), (''tip'', 3372),
      (''acap'', 674), (''telnet'', 23), (''ssh'', 22)]"

fun search_schemes :: "cstr \<Rightarrow> (cstr \<times> 16 word) list \<Rightarrow> 16 word" where
  "search_schemes scheme_str [] = 0"
| "search_schemes scheme_str ((name, default_port) # ss) =
     (if strcasecmp scheme_str name = 0 then default_port else search_schemes scheme_str ss)"

definition apr_uri_port_of_scheme :: "cstr option \<Rightarrow> 16 word" where
  "apr_uri_port_of_scheme scheme_str =
     (case scheme_str of None \<Rightarrow> 0 | Some str \<Rightarrow> search_schemes str schemes)"

section \<open>Printing\<close>

definition APR_URI_UNP_OMITSITEPART :: "32 word" where "APR_URI_UNP_OMITSITEPART = push_bit 0 1"
definition APR_URI_UNP_OMITUSER :: "32 word" where "APR_URI_UNP_OMITUSER = push_bit 1 1"
definition APR_URI_UNP_OMITPASSWORD :: "32 word" where "APR_URI_UNP_OMITPASSWORD = push_bit 2 1"
definition APR_URI_UNP_REVEALPASSWORD :: "32 word" where "APR_URI_UNP_REVEALPASSWORD = push_bit 3 1"
definition APR_URI_UNP_OMITPATHINFO :: "32 word" where "APR_URI_UNP_OMITPATHINFO = push_bit 4 1"
definition APR_URI_UNP_OMITQUERY :: "32 word" where "APR_URI_UNP_OMITQUERY = push_bit 5 1"

text \<open>The string \<open>user:password@\<close>.\<close>

definition unparse_user :: "apr_uri \<Rightarrow> 32 word \<Rightarrow> cstr" where
  "unparse_user uptr flags =
     (let show_user = (user uptr \<noteq> None \<and> flags AND APR_URI_UNP_OMITUSER = 0);
          show_password = (password uptr \<noteq> None \<and> flags AND APR_URI_UNP_OMITPASSWORD = 0)
      in if user uptr \<noteq> None \<or> password uptr \<noteq> None then
           apr_pstrcat
             [if show_user then user uptr else Some '''',
              if show_password then Some '':'' else Some '''',
              if show_password
              then (if flags AND APR_URI_UNP_REVEALPASSWORD \<noteq> 0 then password uptr else Some ''XXXXXXXX'')
              else Some '''',
              if show_user \<or> show_password then Some ''@'' else Some '''',
              None]
         else '''')"

definition is_default_port :: "apr_uri \<Rightarrow> bool" where
  "is_default_port uptr \<longleftrightarrow>
     port_str uptr = None \<or> port uptr = 0 \<or> port uptr = apr_uri_port_of_scheme (scheme uptr)"

text \<open>The string \<open>scheme://site\<close>, with what was printed of the user in \<open>ret\<close>.\<close>

definition unparse_site :: "apr_uri \<Rightarrow> cstr \<Rightarrow> cstr" where
  "unparse_site uptr ret =
     (let ret = (case hostname uptr of
            None \<Rightarrow> ret
          | Some host \<Rightarrow>
              let v6 = CHR '':'' \<in> set host
              in apr_pstrcat
                   [Some ''//'', Some ret, Some (if v6 then ''['' else ''''), Some host, Some (if v6 then '']'' else ''''),
                    if is_default_port uptr then Some '''' else Some '':'',
                    if is_default_port uptr then Some '''' else port_str uptr,
                    None])
      in case scheme uptr of
           None \<Rightarrow> ret
         | Some sch \<Rightarrow> apr_pstrcat [Some sch, Some '':'', Some ret, None])"

definition unparse_path :: "apr_uri \<Rightarrow> 32 word \<Rightarrow> cstr \<Rightarrow> cstr" where
  "unparse_path uptr flags ret =
     apr_pstrcat
       [Some ret,
        if path uptr \<noteq> None then path uptr else Some '''',
        if query uptr \<noteq> None \<and> flags AND APR_URI_UNP_OMITQUERY = 0 then Some ''?'' else Some '''',
        if query uptr \<noteq> None \<and> flags AND APR_URI_UNP_OMITQUERY = 0 then query uptr else Some '''',
        if fragment uptr \<noteq> None \<and> flags AND APR_URI_UNP_OMITQUERY = 0 then Some ''#'' else None,
        if fragment uptr \<noteq> None \<and> flags AND APR_URI_UNP_OMITQUERY = 0 then fragment uptr else None,
        None]"

definition apr_uri_unparse :: "apr_uri \<Rightarrow> 32 word \<Rightarrow> cstr" where
  "apr_uri_unparse uptr flags =
     (let ret = (if flags AND APR_URI_UNP_OMITSITEPART = 0 then unparse_site uptr (unparse_user uptr flags) else '''')
      in if flags AND APR_URI_UNP_OMITPATHINFO = 0 then unparse_path uptr flags ret else ret)"

section \<open>Delimiters and searches\<close>

definition T_COLON :: "8 word" where "T_COLON = 0x01"
definition T_SLASH :: "8 word" where "T_SLASH = 0x02"
definition T_QUESTION :: "8 word" where "T_QUESTION = 0x04"
definition T_HASH :: "8 word" where "T_HASH = 0x08"
definition T_NUL :: "8 word" where "T_NUL = 0x80"

definition uri_delims :: "char \<Rightarrow> 8 word" where
  "uri_delims c =
     (if c = NUL then T_NUL else if c = CHR ''#'' then T_HASH else if c = CHR ''/'' then T_SLASH
      else if c = CHR '':'' then T_COLON else if c = CHR ''?'' then T_QUESTION else 0)"

definition NOTEND_SCHEME :: "8 word" where "NOTEND_SCHEME = 0xff"
definition NOTEND_HOSTINFO :: "8 word" where "NOTEND_HOSTINFO = T_SLASH OR T_QUESTION OR T_HASH OR T_NUL"
definition NOTEND_PATH :: "8 word" where "NOTEND_PATH = T_QUESTION OR T_HASH OR T_NUL"

text \<open>\<open>while ((uri_delims[*s] & mask) == 0) ++s;\<close> over the string from \<open>s\<close> on.\<close>

fun skip_to :: "8 word \<Rightarrow> cstr \<Rightarrow> nat" where
  "skip_to notend [] = 0"
| "skip_to notend (c # s) = (if uri_delims c AND notend = 0 then Suc (skip_to notend s) else 0)"

text \<open>\<open>memchr\<close> from the offset \<open>i\<close> on, in at most \<open>n\<close> characters.\<close>

fun memchr_at :: "cstr \<Rightarrow> nat \<Rightarrow> char \<Rightarrow> nat \<Rightarrow> nat option" where
  "memchr_at str i c 0 = None"
| "memchr_at str i c (Suc n) = (if char_at str i = c then Some i else memchr_at str (Suc i) c n)"

text \<open>\<open>do --s; while (s >= hostinfo && *s != '@')\<close>; \<open>None\<close> when \<open>s\<close> has passed \<open>hostinfo\<close>.\<close>

fun last_at :: "cstr \<Rightarrow> nat \<Rightarrow> nat \<Rightarrow> nat option" where
  "last_at str host 0 = None"
| "last_at str host (Suc s) =
     (if s \<ge> host then (if char_at str s = CHR ''@'' then Some s else last_at str host s) else None)"

text \<open>The value of \<open>strtol\<close> for base 10 and the offset of \<open>endptr\<close>.\<close>

definition strtol :: "cstr \<Rightarrow> int \<times> nat" where
  "strtol s =
     (let i = skip_space s;
          neg = (char_at s i = CHR ''-'');
          i = (if neg \<or> char_at s i = CHR ''+'' then i + 1 else i);
          ds = takeWhile decimal (drop i s);
          v = digits_value 10 0 ds
      in if ds = [] then (0, 0)
         else (max (- (2 ^ 63)) (min (2 ^ 63 - 1) (if neg then - v else v)), i + length ds))"

text \<open>\<open>int port = strtol(...); uptr->port = port;\<close>\<close>

definition to_port :: "int \<Rightarrow> 16 word" where
  "to_port l = ucast (word_of_int l :: 32 word)"

section \<open>Parsing\<close>

text \<open>The code at \<open>deal_with_path\<close>.\<close>

definition deal_with_path :: "cstr \<Rightarrow> nat \<Rightarrow> apr_uri \<Rightarrow> apr_uri" where
  "deal_with_path str uri uptr =
     (let s = uri + skip_to NOTEND_PATH (drop uri str);
          uptr = (if s \<noteq> uri then uptr\<lparr>path := apr_pstrmemdup (Some (drop uri str)) (s - uri)\<rparr> else uptr)
      in if char_at str s = NUL then uptr
         else if char_at str s = CHR ''?'' then
           let s = s + 1
           in case memchr_at str s CHR ''#'' (length str - s) of
                Some s1 \<Rightarrow> uptr\<lparr>fragment := apr_pstrdup (Some (drop (s1 + 1) str)),
                               query := apr_pstrmemdup (Some (drop s str)) (s1 - s)\<rparr>
              | None \<Rightarrow> uptr\<lparr>query := apr_pstrdup (Some (drop s str))\<rparr>
         else uptr\<lparr>fragment := apr_pstrdup (Some (drop (s + 1) str))\<rparr>)"

text \<open>The code at \<open>deal_with_host\<close>.\<close>

definition deal_with_host :: "cstr \<Rightarrow> nat \<Rightarrow> nat \<Rightarrow> apr_uri \<Rightarrow> apr_status \<times> apr_uri" where
  "deal_with_host str host uri uptr =
     (let v6 = (char_at str host = CHR ''['');
          v6_offset1 = (if v6 then 1 else 0);
          v6_offset2 = (if v6 then 2 else 0);
          rsb = memchr_at str host CHR '']'' (uri - host)
      in if v6 \<and> rsb = None then (APR_EGENERAL, uptr)
         else
           let colon = (if v6 then (if char_at str (the rsb + 1) = CHR '':'' then Some (the rsb + 1) else None)
                        else memchr_at str host CHR '':'' (uri - host))
           in case colon of
                None \<Rightarrow>
                  (APR_SUCCESS, deal_with_path str uri
                    (uptr\<lparr>hostname := apr_pstrmemdup (Some (drop (host + v6_offset1) str)) (uri - host - v6_offset2)\<rparr>))
              | Some s \<Rightarrow>
                  let uptr = uptr\<lparr>hostname := apr_pstrmemdup (Some (drop (host + v6_offset1) str)) (s - host - v6_offset2)\<rparr>;
                      s = s + 1;
                      uptr = uptr\<lparr>port_str := apr_pstrmemdup (Some (drop s str)) (uri - s)\<rparr>
                  in if uri \<noteq> s then
                       let (l, endstr) = strtol (the (port_str uptr));
                           uptr = uptr\<lparr>port := to_port l\<rparr>
                       in if char_at (the (port_str uptr)) endstr = NUL then (APR_SUCCESS, deal_with_path str uri uptr)
                          else (APR_EGENERAL, uptr)
                     else (APR_SUCCESS, deal_with_path str uri (uptr\<lparr>port := apr_uri_port_of_scheme (scheme uptr)\<rparr>)))"

text \<open>The code at \<open>deal_with_authority\<close>.\<close>

definition deal_with_authority :: "cstr \<Rightarrow> nat \<Rightarrow> apr_uri \<Rightarrow> apr_status \<times> apr_uri" where
  "deal_with_authority str host uptr =
     (let uri = host + skip_to NOTEND_HOSTINFO (drop host str);
          uptr = uptr\<lparr>hostinfo := apr_pstrmemdup (Some (drop host str)) (uri - host)\<rparr>
      in case last_at str host uri of
           None \<Rightarrow> deal_with_host str host uri uptr
         | Some s \<Rightarrow>
             let uptr = (case memchr_at str host CHR '':'' (s - host) of
                   Some s1 \<Rightarrow> uptr\<lparr>user := apr_pstrmemdup (Some (drop host str)) (s1 - host),
                                  password := apr_pstrmemdup (Some (drop (s1 + 1) str)) (s - (s1 + 1))\<rparr>
                 | None \<Rightarrow> uptr\<lparr>user := apr_pstrmemdup (Some (drop host str)) (s - host)\<rparr>)
             in deal_with_host str (s + 1) uri uptr)"

definition apr_uri_parse :: "cstr \<Rightarrow> apr_status \<times> apr_uri" where
  "apr_uri_parse uri =
     (if char_at uri 0 = CHR ''/'' then
        (if char_at uri 1 = CHR ''/'' \<and> char_at uri 2 \<noteq> CHR ''/'' then deal_with_authority uri 2 uri_init
         else (APR_SUCCESS, deal_with_path uri 0 uri_init))
      else
        let s = skip_to NOTEND_SCHEME uri
        in if s = 0 \<or> char_at uri s \<noteq> CHR '':'' then (APR_SUCCESS, deal_with_path uri 0 uri_init)
           else
             let uptr = uri_init\<lparr>scheme := apr_pstrmemdup (Some uri) s\<rparr>
             in if char_at uri (s + 1) \<noteq> CHR ''/'' \<or> char_at uri (s + 2) \<noteq> CHR ''/''
                then (APR_SUCCESS, deal_with_path uri (s + 1) uptr)
                else deal_with_authority uri (s + 3) uptr)"

text \<open>The form that the method CONNECT uses: a host and a port only.\<close>

definition apr_uri_parse_hostinfo :: "cstr \<Rightarrow> apr_status \<times> apr_uri" where
  "apr_uri_parse_hostinfo str =
     (let uptr = uri_init\<lparr>hostinfo := apr_pstrdup (Some str)\<rparr>;
          v6 = (char_at str 0 = CHR ''['');
          rsb = memchr_at str 0 CHR '']'' (length str)
      in if v6 \<and> (rsb = None \<or> char_at str (the rsb + 1) \<noteq> CHR '':'') then (APR_EGENERAL, uptr)
         else
           let host = (if v6 then 1 else 0);
               v6_offset1 = (if v6 then 1 else 0)
           in case (if v6 then Some (the rsb + 1) else memchr_at str 0 CHR '':'' (length str)) of
                None \<Rightarrow> (APR_EGENERAL, uptr)
              | Some s \<Rightarrow>
                  let uptr = uptr\<lparr>hostname := apr_pstrndup (Some (drop host str)) (s - host - v6_offset1)\<rparr>;
                      s = s + 1;
                      uptr = uptr\<lparr>port_str := apr_pstrdup (Some (drop s str))\<rparr>
                  in if char_at str s \<noteq> NUL then
                       let (l, endstr) = strtol (the (port_str uptr));
                           uptr = uptr\<lparr>port := word_of_int l\<rparr>
                       in if char_at (the (port_str uptr)) endstr = NUL then (APR_SUCCESS, uptr)
                          else (APR_EGENERAL, uptr)
                     else (APR_EGENERAL, uptr))"

section \<open>Pieces of the string\<close>

definition sub :: "cstr \<Rightarrow> nat \<Rightarrow> nat \<Rightarrow> cstr" where
  "sub str a b = take (b - a) (drop a str)"

lemma pstrmemdup_drop [simp]: "apr_pstrmemdup (Some (drop a str)) n = Some (sub str a (a + n))"
  by (simp add: apr_pstrmemdup_def sub_def)

lemma sub_append: "a \<le> b \<Longrightarrow> b \<le> c \<Longrightarrow> sub str a b @ sub str b c = sub str a c"
  unfolding sub_def using take_add [of "b - a" "c - b" "drop a str"] by simp

lemma sub_rest: "a \<le> b \<Longrightarrow> sub str a b @ drop b str = drop a str"
  unfolding sub_def by (metis append_take_drop_id drop_drop le_add_diff_inverse2)

lemma sub_char: "a < length str \<Longrightarrow> sub str a (Suc a) = [char_at str a]"
  by (simp add: sub_def char_at_def Cons_nth_drop_Suc [symmetric])

lemma drop_char: "char_at str a = c \<Longrightarrow> c \<noteq> NUL \<Longrightarrow> drop a str = c # drop (Suc a) str"
  by (auto simp: char_at_def Cons_nth_drop_Suc split: if_splits)

lemma char_bound: "char_at str a \<noteq> NUL \<Longrightarrow> a < length str"
  by (auto simp: char_at_def split: if_splits)

lemma set_sub: "x \<in> set (sub str a b) \<longleftrightarrow> (\<exists>k. a \<le> k \<and> k < b \<and> k < length str \<and> str ! k = x)"
proof
  assume "x \<in> set (sub str a b)"
  then obtain i where "i < length (sub str a b)" "sub str a b ! i = x" by (auto simp: in_set_conv_nth)
  then show "\<exists>k. a \<le> k \<and> k < b \<and> k < length str \<and> str ! k = x"
    by (intro exI [of _ "a + i"]) (auto simp: sub_def)
next
  assume "\<exists>k. a \<le> k \<and> k < b \<and> k < length str \<and> str ! k = x"
  then obtain k where "a \<le> k" "k < b" "k < length str" "str ! k = x" by blast
  then show "x \<in> set (sub str a b)"
    unfolding in_set_conv_nth by (intro exI [of _ "k - a"]) (auto simp: sub_def)
qed

lemma in_sub: "a \<le> k \<Longrightarrow> k < b \<Longrightarrow> char_at str k = c \<Longrightarrow> c \<noteq> NUL \<Longrightarrow> c \<in> set (sub str a b)"
  unfolding set_sub by (auto simp: char_at_def split: if_splits)

text \<open>The searches.\<close>

lemma memchr_at_hits:
  "memchr_at str i c n = Some j \<Longrightarrow>
     i \<le> j \<and> j < i + n \<and> char_at str j = c \<and> (\<forall>k. i \<le> k \<and> k < j \<longrightarrow> char_at str k \<noteq> c)"
proof (induction str i c n rule: memchr_at.induct)
  case (2 str i c n)
  then show ?case by (auto split: if_splits simp: le_eq_less_or_eq less_eq_Suc_le [symmetric] Suc_le_eq dest: Suc_lessI)
qed simp

lemma memchr_at_misses: "memchr_at str i c n = None \<Longrightarrow> i \<le> k \<Longrightarrow> k < i + n \<Longrightarrow> char_at str k \<noteq> c"
  by (induction str i c n rule: memchr_at.induct) (auto split: if_splits simp: le_eq_less_or_eq dest: Suc_lessI)

lemma last_at_Some: "last_at str h s = Some j \<Longrightarrow> h \<le> j \<and> j < s \<and> char_at str j = CHR ''@''"
  by (induction str h s rule: last_at.induct) (auto split: if_splits)

lemma skip_to_le: "skip_to m s \<le> length s"
  by (induction m s rule: skip_to.induct) auto

lemma skip_to_stop: "skip_to m s = length s \<or> uri_delims (char_at s (skip_to m s)) AND m \<noteq> 0"
  by (induction m s rule: skip_to.induct) auto

lemma skip_to_drop:
  assumes "a \<le> length str"
  shows "a + skip_to m (drop a str) \<le> length str"
    "a + skip_to m (drop a str) = length str \<or> uri_delims (char_at str (a + skip_to m (drop a str))) AND m \<noteq> 0"
proof -
  show "a + skip_to m (drop a str) \<le> length str" using skip_to_le [of m "drop a str"] assms by simp
  have "char_at (drop a str) k = char_at str (a + k)" for k using assms by (simp add: char_at_def less_diff_conv add.commute)
  then show "a + skip_to m (drop a str) = length str \<or> uri_delims (char_at str (a + skip_to m (drop a str))) AND m \<noteq> 0"
    using skip_to_stop [of m "drop a str"] assms by auto
qed

lemmas delim_defs = uri_delims_def T_NUL_def T_HASH_def T_SLASH_def T_COLON_def T_QUESTION_def
  NOTEND_SCHEME_def NOTEND_HOSTINFO_def NOTEND_PATH_def

lemma char_at_NUL: "NUL \<notin> set str \<Longrightarrow> char_at str a = NUL \<longleftrightarrow> length str \<le> a"
  by (auto simp: char_at_def dest: nth_mem)

lemma char_at_end [simp]: "char_at str (length str) = NUL"
  by (simp add: char_at_def)

section \<open>What is printed\<close>

lemmas flag_defs = APR_URI_UNP_OMITSITEPART_def APR_URI_UNP_OMITUSER_def APR_URI_UNP_OMITPASSWORD_def
  APR_URI_UNP_REVEALPASSWORD_def APR_URI_UNP_OMITPATHINFO_def APR_URI_UNP_OMITQUERY_def

abbreviation reveal :: "32 word" where
  "reveal \<equiv> APR_URI_UNP_REVEALPASSWORD"

lemma reveal_flags [simp]:
  "reveal AND APR_URI_UNP_OMITSITEPART = 0" "reveal AND APR_URI_UNP_OMITUSER = 0"
  "reveal AND APR_URI_UNP_OMITPASSWORD = 0" "reveal AND APR_URI_UNP_OMITPATHINFO = 0"
  "reveal AND APR_URI_UNP_OMITQUERY = 0" "reveal \<noteq> 0"
  by (simp_all add: flag_defs push_bit_eq_mult)

text \<open>The port with its colon, as it was given and as it is printed, and the other parts.\<close>

definition given_port :: "apr_uri \<Rightarrow> cstr" where
  "given_port u = (case port_str u of None \<Rightarrow> '''' | Some p \<Rightarrow> '':'' @ p)"

definition shown_port :: "apr_uri \<Rightarrow> cstr" where
  "shown_port u = (if is_default_port u then '''' else given_port u)"

definition user_of :: "apr_uri \<Rightarrow> cstr" where
  "user_of u = (case (user u, password u) of
      (None, _) \<Rightarrow> '''' | (Some n, None) \<Rightarrow> n @ ''@'' | (Some n, Some pw) \<Rightarrow> n @ '':'' @ pw @ ''@'')"

definition bracketed :: "cstr \<Rightarrow> cstr" where
  "bracketed h = (if CHR '':'' \<in> set h then ''['' @ h @ '']'' else h)"

definition rest_of :: "apr_uri \<Rightarrow> cstr" where
  "rest_of u = (case path u of None \<Rightarrow> '''' | Some p \<Rightarrow> p) @ (case query u of None \<Rightarrow> '''' | Some q \<Rightarrow> ''?'' @ q) @
     (case fragment u of None \<Rightarrow> '''' | Some f \<Rightarrow> ''#'' @ f)"

lemma unparse_eq:
  assumes "user u = None \<longrightarrow> password u = None"
  shows "apr_uri_unparse u reveal =
    (case scheme u of None \<Rightarrow> '''' | Some s \<Rightarrow> s @ '':'') @
    (case hostname u of None \<Rightarrow> user_of u | Some h \<Rightarrow> ''//'' @ user_of u @ bracketed h @ shown_port u) @ rest_of u"
proof -
  have "unparse_user u reveal = user_of u"
    using assms by (simp add: unparse_user_def user_of_def apr_pstrcat_def split: option.splits)
  moreover have "unparse_path u reveal ret = ret @ rest_of u" for ret
    by (simp add: unparse_path_def rest_of_def apr_pstrcat_def split: option.splits)
  ultimately show ?thesis
    by (simp add: apr_uri_unparse_def unparse_site_def shown_port_def given_port_def bracketed_def is_default_port_def
        apr_pstrcat_def Let_def split: option.splits)
qed

section \<open>What parsing records of the string\<close>

definition path_unset :: "apr_uri \<Rightarrow> bool" where
  "path_unset u \<longleftrightarrow> path u = None \<and> query u = None \<and> fragment u = None"

lemma deal_with_path_rest:
  assumes "NUL \<notin> set str" "a \<le> length str" "path_unset u"
  shows "rest_of (deal_with_path str a u) = drop a str"
proof -
  define s where "s = a + skip_to NOTEND_PATH (drop a str)"
  have s: "a \<le> s" "s \<le> length str" using skip_to_drop [OF assms(2)] by (simp_all add: s_def)
  have stop: "char_at str s \<in> {NUL, CHR ''?'', CHR ''#''}"
    using skip_to_drop(2) [OF assms(2), of NOTEND_PATH, folded s_def] by (auto simp: delim_defs split: if_splits)
  have p: "(if s \<noteq> a then sub str a s else []) = sub str a s" by (simp add: sub_def)
  have all: "sub str a s @ drop s str = drop a str" using s(1) by (rule sub_rest)
  consider "char_at str s = NUL" | "char_at str s = CHR ''?''" | "char_at str s = CHR ''#''" using stop by auto
  then show ?thesis
  proof cases
    case 1
    then have "drop s str = []" using assms(1) by (simp add: char_at_NUL)
    then show ?thesis
      using all 1 assms(3) by (auto simp: deal_with_path_def s_def [symmetric] rest_of_def path_unset_def Let_def sub_def)
  next
    case 2
    have d: "drop s str = ''?'' @ drop (Suc s) str" using drop_char [OF 2] by simp
    show ?thesis
    proof (cases "memchr_at str (s + 1) CHR ''#'' (length str - (s + 1))")
      case None
      then show ?thesis using all 2 assms(3) d
        by (auto simp: deal_with_path_def s_def [symmetric] rest_of_def path_unset_def Let_def sub_def)
    next
      case (Some s1)
      have s1: "s + 1 \<le> s1" "char_at str s1 = CHR ''#''" using memchr_at_hits [OF Some] by auto
      have "sub str (Suc s) s1 @ ''#'' @ drop (Suc s1) str = drop (Suc s) str"
        using drop_char [OF s1(2)] sub_rest [of "Suc s" s1 str] s1(1) by simp
      then show ?thesis using all 2 assms(3) d Some s1
        by (auto simp: deal_with_path_def s_def [symmetric] rest_of_def path_unset_def Let_def sub_def)
    qed
  next
    case 3
    have d: "drop s str = ''#'' @ drop (Suc s) str" using drop_char [OF 3] by simp
    then show ?thesis using all 3 assms(3)
      by (auto simp: deal_with_path_def s_def [symmetric] rest_of_def path_unset_def Let_def sub_def)
  qed
qed

lemma deal_with_path_keeps [simp]:
  "scheme (deal_with_path str a u) = scheme u" "hostinfo (deal_with_path str a u) = hostinfo u"
  "user (deal_with_path str a u) = user u" "password (deal_with_path str a u) = password u"
  "hostname (deal_with_path str a u) = hostname u" "port_str (deal_with_path str a u) = port_str u"
  "port (deal_with_path str a u) = port u"
  by (simp_all add: deal_with_path_def Let_def split: option.splits)

lemma path_unset_updates [simp]:
  "path_unset (u\<lparr>scheme := x1\<rparr>) = path_unset u" "path_unset (u\<lparr>hostinfo := x1\<rparr>) = path_unset u"
  "path_unset (u\<lparr>user := x1\<rparr>) = path_unset u" "path_unset (u\<lparr>password := x1\<rparr>) = path_unset u"
  "path_unset (u\<lparr>hostname := x1\<rparr>) = path_unset u" "path_unset (u\<lparr>port_str := x1\<rparr>) = path_unset u"
  "path_unset (u\<lparr>port := y\<rparr>) = path_unset u" "path_unset uri_init"
  by (simp_all add: path_unset_def uri_init_def)

text \<open>
  A host in brackets must be an address with colons, and nothing but a port may follow the bracket: for other
  strings the code drops the brackets, or a character.
\<close>

definition brackets_ok :: "apr_uri \<Rightarrow> bool" where
  "brackets_ok u \<longleftrightarrow> (case (hostinfo u, hostname u) of
      (Some hi, Some h) \<Rightarrow> CHR ''['' \<in> set hi \<longrightarrow> CHR '':'' \<in> set h \<and> CHR '']'' \<notin> set h
    | _ \<Rightarrow> True)"

lemma deal_with_host_parts:
  assumes run: "deal_with_host str a e u = (APR_SUCCESS, u')"
    and str: "NUL \<notin> set str" "a \<le> e" "e \<le> length str" "char_at str e \<notin> {CHR '':'', CHR ''['', CHR '']''}"
    and u: "path_unset u" "port_str u = None"
    and ok: "char_at str a = CHR ''['' \<Longrightarrow> CHR '':'' \<in> set (the (hostname u')) \<and> CHR '']'' \<notin> set (the (hostname u'))"
  shows "\<exists>h. hostname u' = Some h \<and> sub str a e = bracketed h @ given_port u' \<and> rest_of u' = drop e str \<and>
    scheme u' = scheme u \<and> hostinfo u' = hostinfo u \<and> user u' = user u \<and> password u' = password u"
proof (cases "char_at str a = CHR ''[''")
  case v6: True
  then obtain r where r: "memchr_at str a CHR '']'' (e - a) = Some r"
    using run v6 unfolding deal_with_host_def Let_def by (cases "memchr_at str a CHR '']'' (e - a)") simp_all
  have r': "a < r" "r < e" "char_at str r = CHR '']''"
    using memchr_at_hits [OF r] v6 by (auto simp: le_eq_less_or_eq)
  have open_bracket: "sub str a (Suc a) = ''[''" using v6 r' str(3) by (simp add: sub_char)
  show ?thesis
  proof (cases "char_at str (r + 1) = CHR '':''")
    case False
    let ?h = "sub str (Suc a) (e - 1)"
    have e2: "Suc (e - 2) = e - Suc 0" "Suc (a + (e - Suc (Suc a))) = e - Suc 0" using r' by auto
    have h: "hostname u' = Some ?h" "port_str u' = None" "rest_of u' = drop e str" "scheme u' = scheme u"
      "hostinfo u' = hostinfo u" "user u' = user u" "password u' = password u"
      using run v6 r False u deal_with_path_rest [OF str(1,3)] e2
      by (auto simp: deal_with_host_def Let_def)
    have h': "CHR '':'' \<in> set ?h" "CHR '']'' \<notin> set ?h" using ok [OF v6] h(1) by auto
    have "\<not> r < e - 1" using in_sub [of "Suc a" r "e - 1" str] r' h'(2) by auto
    then have "Suc r = e" using r' by linarith
    then have "sub str a e = ''['' @ ?h @ '']''"
      using open_bracket sub_append [of a "Suc a" e str] sub_append [of "Suc a" r e str] sub_char [of r str] r' str(3)
      by auto
    then show ?thesis using h h' by (auto simp: bracketed_def given_port_def)
  next
    case True
    have re: "Suc r < e" using True r' str(4) by (cases "Suc r = e") auto
    let ?h = "sub str (Suc a) r" and ?p = "sub str (Suc (Suc r)) e"
    have e2: "Suc (r - 1) = r" "Suc (a + (r - Suc a)) = r" "Suc (Suc (e - 2)) = e" using r' re by auto
    have h: "hostname u' = Some ?h" "port_str u' = Some ?p" "rest_of u' = drop e str" "scheme u' = scheme u"
      "hostinfo u' = hostinfo u" "user u' = user u" "password u' = password u"
      using run v6 r True u re deal_with_path_rest [OF str(1,3)] e2
      by (auto simp: deal_with_host_def Let_def split: if_splits prod.splits)
    have h': "CHR '':'' \<in> set ?h" using ok [OF v6] h(1) by auto
    have "sub str a e = ''['' @ ?h @ '']'' @ '':'' @ ?p"
      using open_bracket sub_append [of a "Suc a" e str] sub_append [of "Suc a" r e str] sub_append [of r "Suc r" e str]
        sub_append [of "Suc r" "Suc (Suc r)" e str] sub_char [of r str] sub_char [of "Suc r" str] True re r' str(3)
      by simp
    then show ?thesis using h h' by (auto simp: bracketed_def given_port_def)
  qed
next
  case v4: False
  show ?thesis
  proof (cases "memchr_at str a CHR '':'' (e - a)")
    case None
    have h: "hostname u' = Some (sub str a e)" "port_str u' = None" "rest_of u' = drop e str" "scheme u' = scheme u"
      "hostinfo u' = hostinfo u" "user u' = user u" "password u' = password u"
      using run v4 None u str(2) deal_with_path_rest [OF str(1,3)] by (auto simp: deal_with_host_def Let_def)
    have "CHR '':'' \<notin> set (sub str a e)"
      using memchr_at_misses [OF None] str(2) unfolding set_sub by (auto simp: char_at_def split: if_splits) (meson)
    then show ?thesis using h by (auto simp: bracketed_def given_port_def)
  next
    case (Some s)
    note s = memchr_at_hits [OF Some]
    let ?h = "sub str a s" and ?p = "sub str (Suc s) e"
    have h: "hostname u' = Some ?h" "port_str u' = Some ?p" "rest_of u' = drop e str" "scheme u' = scheme u"
      "hostinfo u' = hostinfo u" "user u' = user u" "password u' = password u"
      using run v4 Some s u deal_with_path_rest [OF str(1,3)]
      by (auto simp: deal_with_host_def Let_def split: if_splits prod.splits)
    have h': "CHR '':'' \<notin> set ?h"
      using s unfolding set_sub by (auto simp: char_at_def)
    have "sub str a e = ?h @ '':'' @ ?p"
      using sub_append [of a s e str] sub_append [of s "Suc s" e str] sub_char [of s str] s str(2,3) by auto
    then show ?thesis using h h' by (auto simp: bracketed_def given_port_def)
  qed
qed

lemma deal_with_authority_parts:
  assumes run: "deal_with_authority str a u = (APR_SUCCESS, u')"
    and str: "NUL \<notin> set str" "a \<le> length str"
    and u: "path_unset u" "port_str u = None" "user u = None" "password u = None"
    and ok: "brackets_ok u'"
  shows "\<exists>h. hostname u' = Some h \<and> drop a str = user_of u' @ bracketed h @ given_port u' @ rest_of u' \<and>
    scheme u' = scheme u \<and> (user u' = None \<longrightarrow> password u' = None)"
proof -
  define e where "e = a + skip_to NOTEND_HOSTINFO (drop a str)"
  have e: "a \<le> e" "e \<le> length str" using skip_to_drop(1) [OF str(2)] by (simp_all add: e_def)
  have stop: "char_at str e \<notin> {CHR '':'', CHR ''['', CHR '']''}"
    using skip_to_drop(2) [OF str(2), of NOTEND_HOSTINFO, folded e_def] by (auto simp: delim_defs split: if_splits)
  let ?u = "u\<lparr>hostinfo := Some (sub str a e)\<rparr>"
  have e_sum: "a + (e - a) = e" using e by simp
  have from_host: "\<exists>h. hostname u' = Some h \<and> sub str b e = bracketed h @ given_port u' \<and> rest_of u' = drop e str \<and>
      scheme u' = scheme u \<and> user u' = user v \<and> password u' = password v"
    if "deal_with_host str b e v = (APR_SUCCESS, u')" "a \<le> b" "b \<le> e" "path_unset v" "port_str v = None"
      "hostinfo v = Some (sub str a e)" "scheme v = scheme u" for b v
  proof -
    note parts = deal_with_host_parts [OF that(1) str(1) that(3) e(2) stop that(4,5)]
    have keeps: "hostinfo u' = hostinfo v \<and> hostname u' \<noteq> None"
      using that(1) by (auto simp: deal_with_host_def Let_def split: if_splits option.splits prod.splits)
    have "CHR '':'' \<in> set (the (hostname u')) \<and> CHR '']'' \<notin> set (the (hostname u'))" if "char_at str b = CHR ''[''"
    proof -
      have "b < e" using that stop \<open>b \<le> e\<close> by (cases "b = e") auto
      then have "CHR ''['' \<in> set (sub str a e)" using that \<open>a \<le> b\<close> by (intro in_sub) auto
      then show ?thesis using ok keeps \<open>hostinfo v = _\<close> by (auto simp: brackets_ok_def)
    qed
    then show ?thesis using parts that(7) by metis
  qed
  show ?thesis
  proof (cases "last_at str a e")
    case None
    then have "deal_with_host str a e ?u = (APR_SUCCESS, u')"
      using run by (simp add: deal_with_authority_def e_def [symmetric] Let_def e_sum)
    then obtain h where h: "hostname u' = Some h" "sub str a e = bracketed h @ given_port u'" "rest_of u' = drop e str"
      "scheme u' = scheme u" "user u' = None" "password u' = None"
      using from_host [of a ?u] u e(1) by auto
    then show ?thesis using sub_rest [OF e(1), of str] by (auto simp: user_of_def)
  next
    case (Some s)
    note s = last_at_Some [OF Some]
    have rest: "drop a str = sub str a s @ ''@'' @ sub str (Suc s) e @ drop e str"
      using s e sub_rest [of a s str] sub_rest [of "Suc s" e str] drop_char [of str s "CHR ''@''"] by simp
    show ?thesis
    proof (cases "memchr_at str a CHR '':'' (s - a)")
      case None
      then have "deal_with_host str (Suc s) e (?u\<lparr>user := Some (sub str a s)\<rparr>) = (APR_SUCCESS, u')"
        using run Some s by (simp add: deal_with_authority_def e_def [symmetric] Let_def e_sum)
      then show ?thesis using from_host [of "Suc s" "?u\<lparr>user := Some (sub str a s)\<rparr>"] u s rest by (auto simp: user_of_def)
    next
      case colon: (Some c)
      note c = memchr_at_hits [OF colon]
      let ?v = "?u\<lparr>user := Some (sub str a c), password := Some (sub str (Suc c) s)\<rparr>"
      have "deal_with_host str (Suc s) e ?v = (APR_SUCCESS, u')"
        using run Some s colon c by (simp add: deal_with_authority_def e_def [symmetric] Let_def e_sum)
      moreover have "sub str a s = sub str a c @ '':'' @ sub str (Suc c) s"
        using c s e sub_append [of a c s str] sub_append [of c "Suc c" s str] sub_char [of c str] by auto
      ultimately show ?thesis using from_host [of "Suc s" ?v] u s rest by (auto simp: user_of_def)
    qed
  qed
qed

text \<open>
  C14. Printing what was parsed gives back the URI, up to its port, which is left out when it is 0 or the
  default of the scheme; an address in brackets must have colons and be followed by the port or the end.
\<close>

theorem apr_uri_unparse_inverts_parse:
  assumes "apr_uri_parse uri = (APR_SUCCESS, u)" "NUL \<notin> set uri" "brackets_ok u"
  shows "\<exists>a b. uri = a @ given_port u @ b \<and>
    apr_uri_unparse u APR_URI_UNP_REVEALPASSWORD = a @ (if is_default_port u then '''' else given_port u) @ b"
proof -
  have path_only: ?thesis if "u = deal_with_path uri k v" "path_unset v" "k \<le> length uri" "hostname v = None" "user v = None"
    "password v = None" "port_str v = None" "(case scheme v of None \<Rightarrow> '''' | Some s \<Rightarrow> s @ '':'') @ drop k uri = uri" for k v
    using that unparse_eq [of u] deal_with_path_rest [OF assms(2) that(3,2)]
    by (intro exI [of _ uri] exI [of _ "[]"]) (simp add: given_port_def user_of_def)
  have with_host: ?thesis if auth: "deal_with_authority uri k v = (APR_SUCCESS, u)" and "k \<le> length uri"
    and v: "path_unset v" "port_str v = None" "user v = None" "password v = None"
    and whole: "(case scheme v of None \<Rightarrow> '''' | Some s \<Rightarrow> s @ '':'') @ ''//'' @ drop k uri = uri" for k v
  proof -
    obtain h where h: "hostname u = Some h" "scheme u = scheme v" "user u = None \<longrightarrow> password u = None"
      and d: "drop k uri = user_of u @ bracketed h @ given_port u @ rest_of u"
      using deal_with_authority_parts [OF auth assms(2) \<open>k \<le> length uri\<close> v assms(3)] by (elim exE conjE)
    have "(case scheme v of None \<Rightarrow> '''' | Some s \<Rightarrow> s @ '':'') @ ''//'' @ user_of u @ bracketed h @ given_port u @ rest_of u = uri"
      using whole unfolding d .
    moreover have "apr_uri_unparse u reveal = (case scheme v of None \<Rightarrow> '''' | Some s \<Rightarrow> s @ '':'') @ ''//'' @ user_of u @ bracketed h @ shown_port u @ rest_of u"
      using unparse_eq [OF h(3)] h(1,2) by simp
    ultimately show ?thesis
      by (intro exI [of _ "(case scheme v of None \<Rightarrow> '''' | Some s \<Rightarrow> s @ '':'') @ ''//'' @ user_of u @ bracketed h"]
          exI [of _ "rest_of u"]) (simp add: shown_port_def)
  qed
  show ?thesis
  proof (cases "char_at uri 0 = CHR ''/''")
    case slash: True
    show ?thesis
    proof (cases "char_at uri 1 = CHR ''/'' \<and> char_at uri 2 \<noteq> CHR ''/''")
      case True
      then have "''//'' @ drop 2 uri = uri" using slash drop_char [of uri 0] drop_char [of uri 1] by (simp add: numeral_2_eq_2)
      moreover have "2 \<le> length uri" using True char_bound [of uri 1] by simp
      ultimately show ?thesis
        using with_host [of 2 uri_init] assms(1) slash True by (simp add: apr_uri_parse_def uri_init_def path_unset_def)
    next
      case False
      then show ?thesis
        using path_only [of 0 uri_init] assms(1) slash by (simp add: apr_uri_parse_def uri_init_def path_unset_def split: if_splits)
    qed
  next
    case no_slash: False
    define s where "s = skip_to NOTEND_SCHEME uri"
    show ?thesis
    proof (cases "s = 0 \<or> char_at uri s \<noteq> CHR '':''")
      case True
      then show ?thesis
        using path_only [of 0 uri_init] assms(1) no_slash
        by (simp add: apr_uri_parse_def s_def [symmetric] uri_init_def path_unset_def)
    next
      case False
      let ?v = "uri_init\<lparr>scheme := apr_pstrmemdup (Some uri) s\<rparr>"
      have sl: "s < length uri" using False char_bound [of uri s] by auto
      have whole: "take s uri @ '':'' @ drop (Suc s) uri = uri"
        using False drop_char [of uri s "CHR '':''"] append_take_drop_id [of s uri] by simp
      show ?thesis
      proof (cases "char_at uri (s + 1) \<noteq> CHR ''/'' \<or> char_at uri (s + 2) \<noteq> CHR ''/''")
        case True
        then show ?thesis
          using path_only [of "Suc s" ?v] assms(1) no_slash False sl whole
          by (simp add: apr_uri_parse_def s_def [symmetric] uri_init_def path_unset_def apr_pstrmemdup_def Let_def)
      next
        case auth: False
        then have "drop (Suc s) uri = ''//'' @ drop (s + 3) uri" "s + 3 \<le> length uri"
          using drop_char [of uri "Suc s"] drop_char [of uri "Suc (Suc s)"] char_bound [of uri "s + 2"]
          by (auto simp: eval_nat_numeral)
        then show ?thesis
          using with_host [of "s + 3" ?v] assms(1) no_slash False auth whole
          by (simp add: apr_uri_parse_def s_def [symmetric] uri_init_def path_unset_def apr_pstrmemdup_def Let_def)
      qed
    qed
  qed
qed

lemma apr_uri_unparse_inverts_parse_witness:
  "\<exists>a b. ''http://joe:x@[::1]:8080/a?b#c'' = a @ '':8080'' @ b \<and>
     apr_uri_unparse (snd (apr_uri_parse ''http://joe:x@[::1]:8080/a?b#c'')) APR_URI_UNP_REVEALPASSWORD = a @ '':8080'' @ b"
proof -
  have run: "apr_uri_parse ''http://joe:x@[::1]:8080/a?b#c'' =
    (APR_SUCCESS, uri_init\<lparr>scheme := Some ''http'', hostinfo := Some ''joe:x@[::1]:8080'', user := Some ''joe'',
       password := Some ''x'', hostname := Some ''::1'', port_str := Some ''8080'', port := 8080, path := Some ''/a'',
       fragment := Some ''c'', query := Some ''b''\<rparr>)"
    by code_simp
  show ?thesis
    using apr_uri_unparse_inverts_parse [OF run]
    by (simp add: run brackets_ok_def given_port_def is_default_port_def apr_uri_port_of_scheme_def schemes_def Let_def tolower_def isupper_def)
qed

section \<open>Ports\<close>

lemma memchr_first:
  assumes "i \<le> j" "j < i + n" "char_at str j = c" "\<forall>k. i \<le> k \<and> k < j \<longrightarrow> char_at str k \<noteq> c"
  shows "memchr_at str i c n = Some j"
proof (cases "memchr_at str i c n")
  case None
  then show ?thesis using memchr_at_misses [OF None assms(1,2)] assms(3) by simp
next
  case (Some m)
  then show ?thesis using memchr_at_hits [OF Some] assms by (metis linorder_neqE_nat)
qed

lemma last_at_None: "CHR ''@'' \<notin> set str \<Longrightarrow> last_at str h s = None"
  using last_at_Some [of str h s] by (cases "last_at str h s") (auto simp: char_at_def dest: nth_mem split: if_splits)

lemma skip_to_all: "list_all (\<lambda>c. uri_delims c AND m = 0) s \<Longrightarrow> skip_to m s = length s"
  by (induction m s rule: skip_to.induct) auto

lemma decimal_delims: "decimal c \<Longrightarrow> uri_delims c = 0 \<and> c \<noteq> CHR ''@''"
proof -
  assume "decimal c"
  then have "c \<noteq> NUL \<and> c \<noteq> CHR ''#'' \<and> c \<noteq> CHR ''/'' \<and> c \<noteq> CHR '':'' \<and> c \<noteq> CHR ''?'' \<and> c \<noteq> CHR ''@''"
    by (auto simp: decimal_def)
  then show ?thesis by (simp add: uri_delims_def)
qed

lemma deal_with_path_end: "deal_with_path str (length str) u = u"
  by (simp add: deal_with_path_def Let_def)

lemma strtol_ltoa:
  assumes "\<bar>n\<bar> < 2 ^ 63"
  shows "strtol (apr_ltoa n) = (n, length (apr_ltoa n))" "apr_ltoa n \<noteq> []"
    "list_all (\<lambda>c. uri_delims c = 0 \<and> c \<noteq> CHR ''@'') (apr_ltoa n)"
proof -
  obtain ds where ds: "apr_ltoa n = (if n < 0 then CHR ''-'' # ds else ds)" "ds \<noteq> []" "list_all decimal ds"
    "digits_value 10 0 ds = \<bar>n\<bar>"
    using print_int_ok [of n 63 19] assms by (auto simp: apr_ltoa_def)
  obtain c cs where c: "ds = c # cs" "decimal c" using ds(2,3) by (cases ds) auto
  have "takeWhile decimal ds = ds" using ds(3) by (simp add: takeWhile_eq_all_conv list_all_iff)
  then show "strtol (apr_ltoa n) = (n, length (apr_ltoa n))"
    using ds(1,2,4) decimal_cases [OF c(2)] assms c(1)
    by (auto simp: strtol_def skip_space_def apr_isspace_def Let_def min_def max_def)
  show "apr_ltoa n \<noteq> []" using ds(1,2) by simp
  have "list_all (\<lambda>c. uri_delims c = 0 \<and> c \<noteq> CHR ''@'') ds"
    using ds(3) by (rule list.pred_mono_strong) (rule decimal_delims)
  then show "list_all (\<lambda>c. uri_delims c = 0 \<and> c \<noteq> CHR ''@'') (apr_ltoa n)"
    using ds(1) by (simp add: uri_delims_def)
qed

text \<open>
  A port in a URI is accepted whatever its size and its sign, and taken modulo \<open>2 ^ 16\<close>:
  parsing the printed form of any 64-bit number other than the smallest succeeds.
\<close>

theorem apr_uri_parse_port_wraps:
  assumes "list_all (\<lambda>c. uri_delims c = 0 \<and> c \<noteq> CHR ''@'' \<and> c \<noteq> CHR ''['') host" "\<bar>n\<bar> < 2 ^ 63"
  shows "apr_uri_parse (''//'' @ host @ '':'' @ apr_ltoa n) =
    (APR_SUCCESS, uri_init\<lparr>hostinfo := Some (host @ '':'' @ apr_ltoa n), hostname := Some host,
       port_str := Some (apr_ltoa n), port := word_of_int n\<rparr>)"
proof -
  define p where "p = apr_ltoa n"
  note p = strtol_ltoa [OF assms(2), folded p_def]
  let ?h = "host @ '':'' @ p"
  let ?s = "2 + length host"
  define str where "str = ''//'' @ ?h"
  have "uri_delims CHR '':'' AND NOTEND_HOSTINFO = 0" by (simp add: delim_defs)
  moreover have "list_all (\<lambda>c. uri_delims c AND NOTEND_HOSTINFO = 0) host"
    using assms(1) by (rule list.pred_mono_strong) simp
  moreover have "list_all (\<lambda>c. uri_delims c AND NOTEND_HOSTINFO = 0) p"
    using p(3) by (rule list.pred_mono_strong) simp
  ultimately have delims: "list_all (\<lambda>c. uri_delims c AND NOTEND_HOSTINFO = 0) ?h" by simp
  have end_at: "2 + skip_to NOTEND_HOSTINFO (drop 2 str) = length str" using skip_to_all [OF delims] by (simp add: str_def)
  have at_host: "char_at str (2 + k) = (if k < length ?h then ?h ! k else NUL)" for k by (simp add: char_at_def str_def)
  have not_in: "host ! k \<noteq> CHR '':'' \<and> host ! k \<noteq> CHR ''['' \<and> host ! k \<noteq> CHR ''/''" if "k < length host" for k
  proof -
    have "uri_delims (host ! k) = 0 \<and> host ! k \<noteq> CHR ''[''" using assms(1) that by (simp add: list_all_length)
    moreover have "uri_delims CHR '':'' \<noteq> 0" "uri_delims CHR ''/'' \<noteq> 0" by (simp_all add: delim_defs)
    ultimately show ?thesis by metis
  qed
  have first: "char_at str 2 \<noteq> CHR ''['' \<and> char_at str 2 \<noteq> CHR ''/''"
    using at_host [of 0] not_in [of 0] by (cases host) auto
  have colon: "memchr_at str 2 CHR '':'' (length str - 2) = Some ?s"
  proof (rule memchr_first)
    show "\<forall>k. 2 \<le> k \<and> k < ?s \<longrightarrow> char_at str k \<noteq> CHR '':''"
    proof (intro allI impI)
      fix k assume "2 \<le> k \<and> k < ?s"
      then obtain m where "k = 2 + m" "m < length host" using le_Suc_ex [of 2 k] by auto
      then show "char_at str k \<noteq> CHR '':''" using at_host [of m] not_in [of m] by (simp add: nth_append)
    qed
  qed (use at_host [of "length host"] in \<open>auto simp: nth_append str_def\<close>)
  have no_at: "last_at str 2 (length str) = None"
    using assms(1) p(3) by (intro last_at_None) (auto simp: list_all_iff str_def)
  have pieces: "sub str 2 (length str) = ?h" "sub str 2 ?s = host" "sub str (Suc ?s) (length str) = p"
    by (simp_all add: sub_def str_def)
  have wrap: "to_port n = word_of_int n" unfolding to_port_def by (rule bit_word_eqI) (simp add: bit_simps)
  have long: "length str \<noteq> Suc ?s" "Suc ?s \<le> length str" using p(2) by (simp_all add: str_def)
  have three: "Suc (Suc (Suc (length str - 3))) = length str" by (simp add: str_def)
  have two: "2 + (length str - 2) = length str" by (simp add: str_def)
  note path = deal_with_path_end [of str]
  have "deal_with_authority str 2 uri_init = deal_with_host str 2 (length str) (uri_init\<lparr>hostinfo := Some ?h\<rparr>)"
    unfolding deal_with_authority_def Let_def end_at no_at using two by (simp add: pieces)
  also have "\<dots> = (APR_SUCCESS, uri_init\<lparr>hostinfo := Some ?h, hostname := Some host, port_str := Some p, port := word_of_int n\<rparr>)"
    using first colon p(1,2) wrap long pieces three by (simp add: deal_with_host_def Let_def path)
  finally show ?thesis using first by (simp add: apr_uri_parse_def p_def str_def)
qed

lemma apr_uri_parse_port_wraps_witness:
  "port (snd (apr_uri_parse (''//'' @ ''h'' @ '':'' @ apr_ltoa 65616))) = 80"
  using apr_uri_parse_port_wraps [of "''h''" 65616] by (simp add: uri_delims_def)

end
