(* ===== verification/Apu_Hooks.thy ===== *)
theory Apu_Hooks
  imports Apr_Prelude "HOL-Library.Multiset"
begin

text \<open>
  The order of hooks (\<open>srclib/apr-util/hooks/apr_hooks.c\<close>): hooks are sorted by their number and then
  topologically by the names that must come before and after them. The array \<open>pData\<close> is a list and pointers into it are
  indices. \<open>qsort\<close> is an argument. The search for the next hook is a \<open>partial_function\<close>: \<open>None\<close> is a search that
  never ends, \<open>Aborted\<close> a failed assertion or a NULL that is dereferenced.
\<close>

section \<open>Data\<close>

record TSortData =
  pFunc :: nat
  szName :: cstr
  aszPredecessors :: "cstr list option"
  aszSuccessors :: "cstr list option"
  nOrder :: int

record TSort =
  pData :: nat
  nPredecessors :: nat
  ppPredecessors :: "nat option list"
  pNext :: "nat option"

datatype 'a outcome = Aborted | Returned 'a

definition crude_order :: "TSortData \<Rightarrow> TSortData \<Rightarrow> int" where
  "crude_order a b = nOrder a - nOrder b"

type_synonym qsort_fun = "(TSortData \<Rightarrow> TSortData \<Rightarrow> int) \<Rightarrow> TSortData list \<Rightarrow> TSortData list"

section \<open>Preparing the graph\<close>

text \<open>The names of an array that ends with NULL; a NULL array has none.\<close>

definition names :: "cstr list option \<Rightarrow> cstr list" where
  "names asz = (case asz of None \<Rightarrow> [] | Some ns \<Rightarrow> ns)"

definition find_item :: "TSortData list \<Rightarrow> cstr \<Rightarrow> nat option" where
  "find_item items name = find (\<lambda>k. szName (items ! k) = name) [0..<length items]"

text \<open>Makes \<open>k\<close> a predecessor of \<open>n\<close> unless it is one.\<close>

definition add_predecessor :: "nat \<Rightarrow> nat \<Rightarrow> TSort list \<Rightarrow> TSort list" where
  "add_predecessor n k d =
     (let t = d ! n
      in if list_ex (\<lambda>l. ppPredecessors t ! l = Some k) [0..<nPredecessors t] then d
         else d[n := t\<lparr>ppPredecessors := (ppPredecessors t)[nPredecessors t := Some k],
                       nPredecessors := nPredecessors t + 1\<rparr>])"

fun add_predecessors :: "TSortData list \<Rightarrow> nat \<Rightarrow> cstr list \<Rightarrow> TSort list \<Rightarrow> TSort list" where
  "add_predecessors items n [] d = d"
| "add_predecessors items n (name # ns) d =
     add_predecessors items n ns (case find_item items name of None \<Rightarrow> d | Some k \<Rightarrow> add_predecessor n k d)"

fun add_successors :: "TSortData list \<Rightarrow> nat \<Rightarrow> cstr list \<Rightarrow> TSort list \<Rightarrow> TSort list" where
  "add_successors items n [] d = d"
| "add_successors items n (name # ns) d =
     add_successors items n ns (case find_item items name of None \<Rightarrow> d | Some k \<Rightarrow> add_predecessor k n d)"

fun prepare_loop :: "TSortData list \<Rightarrow> nat \<Rightarrow> TSort list \<Rightarrow> TSort list" where
  "prepare_loop items 0 d = d"
| "prepare_loop items (Suc n) d =
     (let d = prepare_loop items n d;
          d = add_predecessors items n (names (aszPredecessors (items ! n))) d
      in add_successors items n (names (aszSuccessors (items ! n))) d)"

definition prepare :: "TSortData list \<Rightarrow> TSort list" where
  "prepare items =
     prepare_loop items (length items)
       (map (\<lambda>n. \<lparr>pData = n, nPredecessors = 0, ppPredecessors = replicate (length items) None, pNext = None\<rparr>)
          [0..<length items])"

section \<open>The topological sort\<close>

text \<open>
  The search for a hook without predecessors, from \<open>n\<close>: over hooks that are linked to the next one, and
  from a hook with predecessors to the first of them.
\<close>

partial_function (option) tsort_pick :: "TSort list \<Rightarrow> nat \<Rightarrow> nat outcome option" where
  "tsort_pick d n =
     (if n = length d then Some Aborted
      else if pNext (d ! n) = None then
        (if nPredecessors (d ! n) \<noteq> 0 then
           (case find (\<lambda>k. ppPredecessors (d ! n) ! k \<noteq> None) [0..<length d] of
              None \<Rightarrow> Some Aborted
            | Some k \<Rightarrow>
                (case find (\<lambda>i. Some i = ppPredecessors (d ! n) ! k) [0..<length d] of
                   None \<Rightarrow> Some Aborted
                 | Some i \<Rightarrow> tsort_pick d i))
         else Some (Returned n))
      else tsort_pick d (n + 1))"

declare tsort_pick.simps [code]

text \<open>The pointers to \<open>n\<close> in the predecessors of one hook.\<close>

definition drop_predecessor :: "nat \<Rightarrow> nat \<Rightarrow> TSort \<Rightarrow> TSort" where
  "drop_predecessor nItems n t =
     (case find (\<lambda>k. ppPredecessors t ! k = Some n) [0..<nItems] of
        None \<Rightarrow> t
      | Some k \<Rightarrow> t\<lparr>nPredecessors := nPredecessors t - 1, ppPredecessors := (ppPredecessors t)[k := None]\<rparr>)"

fun set_next :: "nat \<Rightarrow> nat option \<Rightarrow> TSort list \<Rightarrow> TSort list" where
  "set_next n p d = d[n := (d ! n)\<lparr>pNext := p\<rparr>]"

text \<open>One round of the loop: the hook that was picked is linked behind the tail.\<close>

definition tsort_link :: "TSort list \<Rightarrow> nat option \<Rightarrow> nat \<Rightarrow> TSort list" where
  "tsort_link d pTail n =
     (let d = (case pTail of None \<Rightarrow> d | Some t \<Rightarrow> set_next t (Some n) d);
          d = set_next n (Some n) d
      in map (drop_predecessor (length d) n) d)"

fun tsort_loop :: "nat \<Rightarrow> TSort list \<Rightarrow> nat option \<Rightarrow> nat option \<Rightarrow> (TSort list \<times> nat option \<times> nat option) outcome option" where
  "tsort_loop 0 d pHead pTail = Some (Returned (d, pHead, pTail))"
| "tsort_loop (Suc rounds) d pHead pTail =
     (case tsort_pick d 0 of
        None \<Rightarrow> None
      | Some Aborted \<Rightarrow> Some Aborted
      | Some (Returned n) \<Rightarrow>
          tsort_loop rounds (tsort_link d pTail n) (if pTail = None then Some n else pHead) (Some n))"

definition tsort :: "TSort list \<Rightarrow> (TSort list \<times> nat option) outcome option" where
  "tsort d =
     (case tsort_loop (length d) d None None of
        None \<Rightarrow> None
      | Some Aborted \<Rightarrow> Some Aborted
      | Some (Returned (d, pHead, pTail)) \<Rightarrow>
          (case pTail of None \<Rightarrow> Some Aborted | Some t \<Rightarrow> Some (Returned (set_next t None d, pHead))))"

text \<open>The copy of the hooks in the order of the links, with \<open>n\<close> of them copied before.\<close>

function copy_sorted :: "TSortData list \<Rightarrow> TSort list \<Rightarrow> nat option \<Rightarrow> nat \<Rightarrow> TSortData list outcome" where
  "copy_sorted items d None n = Returned []"
| "copy_sorted items d (Some i) n =
     (if n < length items then
        (case copy_sorted items d (pNext (d ! i)) (n + 1) of
           Aborted \<Rightarrow> Aborted
         | Returned hooks \<Rightarrow> Returned (items ! pData (d ! i) # hooks))
      else Aborted)"
  by pat_completeness auto
termination
  by (relation "measure (\<lambda>(items, d, p, n). Suc (length items) - n)") auto

definition sort_hook :: "qsort_fun \<Rightarrow> TSortData list \<Rightarrow> TSortData list outcome option" where
  "sort_hook qsort hooks =
     (let items = qsort crude_order hooks
      in case tsort (prepare items) of
           None \<Rightarrow> None
         | Some Aborted \<Rightarrow> Some Aborted
         | Some (Returned (d, pSort)) \<Rightarrow> Some (copy_sorted items d pSort 0))"

section \<open>The relation that the names describe\<close>

definition must_precede :: "TSortData list \<Rightarrow> nat \<Rightarrow> nat \<Rightarrow> bool" where
  "must_precede items a b \<longleftrightarrow> a < length items \<and> b < length items \<and>
     ((\<exists>name \<in> set (names (aszPredecessors (items ! b))). find_item items name = Some a) \<or>
      (\<exists>name \<in> set (names (aszSuccessors (items ! a))). find_item items name = Some b))"

definition precedence :: "TSortData list \<Rightarrow> (nat \<times> nat) set" where
  "precedence items = {(a, b). must_precede items a b}"

lemma find_item_less: "find_item items name = Some k \<Longrightarrow> k < length items"
  by (auto simp: find_item_def find_Some_iff)

text \<open>The entry of a hook holds exactly the predecessors \<open>ks\<close>.\<close>

definition preds_are :: "nat \<Rightarrow> TSort \<Rightarrow> nat list \<Rightarrow> bool" where
  "preds_are m t ks \<longleftrightarrow> nPredecessors t = length ks \<and> ppPredecessors t = map Some ks @ replicate (m - length ks) None \<and>
     distinct ks \<and> set ks \<subseteq> {..<m}"

definition graph_ok :: "nat \<Rightarrow> (nat \<Rightarrow> nat \<Rightarrow> bool) \<Rightarrow> TSort list \<Rightarrow> bool" where
  "graph_ok m R d \<longleftrightarrow> length d = m \<and>
     (\<forall>n < m. pData (d ! n) = n \<and> pNext (d ! n) = None \<and> (\<exists>ks. preds_are m (d ! n) ks \<and> set ks = {k. R k n}))"

lemma graph_ok_cong: "graph_ok m R d \<Longrightarrow> (\<And>a b. R a b = R' a b) \<Longrightarrow> graph_ok m R' d"
  by (simp add: graph_ok_def)

lemma preds_are_add:
  assumes "preds_are m t ks" "k < m" "k \<notin> set ks"
  shows "preds_are m (t\<lparr>ppPredecessors := (ppPredecessors t)[nPredecessors t := Some k], nPredecessors := nPredecessors t + 1\<rparr>)
    (ks @ [k])"
proof -
  have "card (set (ks @ [k])) \<le> card {..<m}" using assms by (intro card_mono) (auto simp: preds_are_def)
  then have "length ks < m" using assms distinct_card [of "ks @ [k]"] by (simp add: preds_are_def)
  then obtain j where "m - length ks = Suc j" by (metis Suc_diff_Suc)
  moreover from this have "m - Suc (length ks) = j" by simp
  ultimately show ?thesis
    using assms list_update_length [of "map Some ks" None "replicate j None" "Some k"] by (simp add: preds_are_def)
qed

lemma add_predecessor_ok:
  assumes "graph_ok m R d" "n < m" "k < m"
  shows "graph_ok m (\<lambda>a b. R a b \<or> a = k \<and> b = n) (add_predecessor n k d)"
proof -
  obtain ks where ks: "preds_are m (d ! n) ks" "set ks = {k. R k n}" using assms(1,2) by (auto simp: graph_ok_def)
  have "ppPredecessors (d ! n) ! l = Some (ks ! l)" if "l < length ks" for l using ks(1) that by (simp add: preds_are_def nth_append)
  then have found: "list_ex (\<lambda>l. ppPredecessors (d ! n) ! l = Some k) [0..<nPredecessors (d ! n)] \<longleftrightarrow> k \<in> set ks"
    using ks(1) by (auto simp: list_ex_iff preds_are_def in_set_conv_nth)
  show ?thesis
  proof (cases "k \<in> set ks")
    case True
    then have "(\<lambda>a b. R a b \<or> a = k \<and> b = n) = R" using ks(2) by (auto simp: fun_eq_iff)
    then show ?thesis using assms(1) True found by (simp add: add_predecessor_def Let_def)
  next
    case False
    note new = preds_are_add [OF ks(1) assms(3) False]
    have "set (ks @ [k]) = {a. R a n \<or> a = k}" using ks(2) by auto
    then show ?thesis
      using assms new False unfolding graph_ok_def add_predecessor_def Let_def found
      by (auto simp: nth_list_update)
  qed
qed

lemma add_predecessors_ok:
  assumes "graph_ok m R d" "n < m" "m = length items"
  shows "graph_ok m (\<lambda>a b. R a b \<or> b = n \<and> (\<exists>name \<in> set ns. find_item items name = Some a)) (add_predecessors items n ns d)"
  using assms(1)
proof (induction ns arbitrary: d R)
  case (Cons name ns)
  show ?case
  proof (cases "find_item items name")
    case None
    then show ?thesis using Cons.IH [OF Cons.prems] by simp
  next
    case (Some k)
    have "k < m" using find_item_less [OF Some] assms(3) by simp
    from Cons.IH [OF add_predecessor_ok [OF Cons.prems assms(2) this]]
    show ?thesis using Some by (simp add: disj_ac conj_disj_distribL) (simp add: disj_ac conj_ac eq_commute)
  qed
qed simp

lemma add_successors_ok:
  assumes "graph_ok m R d" "n < m" "m = length items"
  shows "graph_ok m (\<lambda>a b. R a b \<or> a = n \<and> (\<exists>name \<in> set ns. find_item items name = Some b)) (add_successors items n ns d)"
  using assms(1)
proof (induction ns arbitrary: d R)
  case (Cons name ns)
  show ?case
  proof (cases "find_item items name")
    case None
    then show ?thesis using Cons.IH [OF Cons.prems] by simp
  next
    case (Some k)
    have "k < m" using find_item_less [OF Some] assms(3) by simp
    from Cons.IH [OF add_predecessor_ok [OF Cons.prems this assms(2)]]
    show ?thesis using Some by (simp add: disj_ac conj_disj_distribL) (simp add: disj_ac conj_ac eq_commute)
  qed
qed simp

lemma prepare_loop_ok:
  assumes "graph_ok (length items) (\<lambda>a b. False) d" "n \<le> length items"
  shows "graph_ok (length items)
    (\<lambda>a b. b < n \<and> (\<exists>name \<in> set (names (aszPredecessors (items ! b))). find_item items name = Some a) \<or>
           a < n \<and> (\<exists>name \<in> set (names (aszSuccessors (items ! a))). find_item items name = Some b))
    (prepare_loop items n d)"
  using assms(2)
proof (induction n)
  case 0
  then show ?case using assms(1) by simp
next
  case (Suc n)
  let ?m = "length items"
  have n: "n < ?m" using Suc.prems by simp
  note step = add_successors_ok [OF add_predecessors_ok [OF Suc.IH [OF less_imp_le [OF n]] n refl, of "names (aszPredecessors (items ! n))"] n refl,
      of "names (aszSuccessors (items ! n))"]
  show ?case unfolding prepare_loop.simps Let_def by (rule graph_ok_cong [OF step]) (auto simp: less_Suc_eq)
qed

lemma prepare_ok: "graph_ok (length items) (must_precede items) (prepare items)"
proof -
  let ?m = "length items"
  let ?d = "map (\<lambda>n. \<lparr>pData = n, nPredecessors = 0, ppPredecessors = replicate ?m None, pNext = None\<rparr>) [0..<?m]"
  have "graph_ok ?m (\<lambda>a b. False) ?d" by (auto simp: graph_ok_def preds_are_def)
  from prepare_loop_ok [OF this le_refl]
  show ?thesis
    unfolding prepare_def by (rule graph_ok_cong) (auto simp: must_precede_def dest: find_item_less)
qed

section \<open>The invariant of the sort\<close>

text \<open>
  What the entry of hook \<open>n\<close> holds while the hooks \<open>L\<close> are linked: the predecessors that are not linked yet, each
  once, in an array with holes.
\<close>

definition node_ok :: "nat \<Rightarrow> (nat \<Rightarrow> nat \<Rightarrow> bool) \<Rightarrow> nat set \<Rightarrow> nat \<Rightarrow> TSort \<Rightarrow> bool" where
  "node_ok m R L n t \<longleftrightarrow> pData t = n \<and> length (ppPredecessors t) = m \<and>
     (\<forall>k. Some k \<in> set (ppPredecessors t) \<longleftrightarrow> R k n \<and> k \<notin> L) \<and> nPredecessors t = card {k. R k n \<and> k \<notin> L} \<and>
     (\<forall>i < m. \<forall>j < m. ppPredecessors t ! i = ppPredecessors t ! j \<longrightarrow> ppPredecessors t ! i \<noteq> None \<longrightarrow> i = j)"

definition sort_ok :: "nat \<Rightarrow> (nat \<Rightarrow> nat \<Rightarrow> bool) \<Rightarrow> TSort list \<Rightarrow> nat list \<Rightarrow> bool" where
  "sort_ok m R d order \<longleftrightarrow> length d = m \<and> distinct order \<and> set order \<subseteq> {..<m} \<and>
     (\<forall>n < m. node_ok m R (set order) n (d ! n)) \<and>
     (\<forall>i. Suc i < length order \<longrightarrow> pNext (d ! (order ! i)) = Some (order ! Suc i)) \<and>
     (order \<noteq> [] \<longrightarrow> pNext (d ! last order) = Some (last order)) \<and>
     (\<forall>n < m. n \<notin> set order \<longrightarrow> pNext (d ! n) = None) \<and>
     (\<forall>i < length order. \<forall>k. R k (order ! i) \<longrightarrow> k \<in> set (take i order))"

lemma node_ok_next [simp]: "node_ok m R L n (t\<lparr>pNext := p\<rparr>) = node_ok m R L n t"
  by (simp add: node_ok_def)

lemma drop_predecessor_keeps [simp]: "pNext (drop_predecessor m x t) = pNext t" "pData (drop_predecessor m x t) = pData t"
  by (simp_all add: drop_predecessor_def split: option.splits)

lemma drop_predecessor_ok:
  assumes node: "node_ok m R L n t" and "x \<notin> L" and R: "\<And>a b. R a b \<Longrightarrow> a < m \<and> b < m"
  shows "node_ok m R (insert x L) n (drop_predecessor m x t)"
proof (cases "find (\<lambda>k. ppPredecessors t ! k = Some x) [0..<m]")
  case None
  then have "Some x \<notin> set (ppPredecessors t)" using node by (auto simp: find_None_iff in_set_conv_nth node_ok_def)
  then have "\<not> R x n" using node assms(2) by (auto simp: node_ok_def)
  then have "R k n \<and> k \<notin> insert x L \<longleftrightarrow> R k n \<and> k \<notin> L" for k by auto
  then show ?thesis using node None by (simp add: drop_predecessor_def node_ok_def)
next
  case (Some k)
  let ?pp = "ppPredecessors t" and ?S = "{k. R k n \<and> k \<notin> L}"
  have k: "k < m" "?pp ! k = Some x" using Some by (auto simp: find_Some_iff)
  have len: "length ?pp = m" using node by (simp add: node_ok_def)
  have x: "x \<in> ?S" using k len node nth_mem [of k ?pp] by (auto simp: node_ok_def)
  have uniq: "?pp ! i = ?pp ! j \<Longrightarrow> ?pp ! i \<noteq> None \<Longrightarrow> i < m \<Longrightarrow> j < m \<Longrightarrow> i = j" for i j
    using node by (simp add: node_ok_def)
  have mem: "Some y \<in> set (?pp[k := None]) \<longleftrightarrow> Some y \<in> set ?pp \<and> y \<noteq> x" for y
  proof
    assume "Some y \<in> set (?pp[k := None])"
    then obtain j where "j < m" "?pp[k := None] ! j = Some y" using len by (auto simp: in_set_conv_nth)
    then have "j \<noteq> k" "?pp ! j = Some y" using k(1) len by (auto simp: nth_list_update split: if_splits)
    then show "Some y \<in> set ?pp \<and> y \<noteq> x" using uniq [of j k] k \<open>j < m\<close> len nth_mem [of j ?pp] by auto
  next
    assume "Some y \<in> set ?pp \<and> y \<noteq> x"
    then obtain j where "j < m" "?pp ! j = Some y" "y \<noteq> x" using len by (auto simp: in_set_conv_nth)
    moreover from this have "j \<noteq> k" using k(2) by auto
    ultimately show "Some y \<in> set (?pp[k := None])" using len by (auto simp: in_set_conv_nth intro!: exI [of _ j])
  qed
  have S: "{k. R k n \<and> k \<notin> insert x L} = ?S - {x}" by auto
  have "card (?S - {x}) = card ?S - 1" using x by (simp add: card_Diff_singleton)
  moreover have "?pp[k := None] ! i = ?pp[k := None] ! j \<longrightarrow> ?pp[k := None] ! i \<noteq> None \<longrightarrow> i = j" if "i < m" "j < m" for i j
    using uniq [OF _ _ that] that len k(1) by (cases "i = k"; cases "j = k") (simp_all add: nth_list_update)
  ultimately show ?thesis
    using node Some mem len unfolding node_ok_def S drop_predecessor_def by auto
qed

lemma tsort_link_nth:
  assumes "length d = m" "n < m" "i < m" "\<And>t. pTail = Some t \<Longrightarrow> t < m"
  shows "tsort_link d pTail i ! n =
    drop_predecessor m i ((d ! n)\<lparr>pNext := if n = i \<or> pTail = Some n then Some i else pNext (d ! n)\<rparr>)"
  using assms by (cases pTail) (auto simp: tsort_link_def Let_def nth_list_update)

lemma length_tsort_link [simp]: "length (tsort_link d pTail i) = length d"
  by (simp add: tsort_link_def Let_def split: option.splits)

definition tail_of :: "nat list \<Rightarrow> nat option" where
  "tail_of order = (if order = [] then None else Some (last order))"

lemma tsort_link_ok:
  assumes ok: "sort_ok m R d order" and R: "\<And>a b. R a b \<Longrightarrow> a < m \<and> b < m"
    and i: "i < m" "i \<notin> set order" "nPredecessors (d ! i) = 0"
  shows "sort_ok m R (tsort_link d (tail_of order) i) (order @ [i])"
proof -
  have tail: "t < m" if "tail_of order = Some t" for t
    using ok that subsetD [OF _ last_in_set, of order "{..<m}"] by (auto simp: sort_ok_def tail_of_def split: if_splits)
  have len: "length d = m" using ok by (simp add: sort_ok_def)
  note nth = tsort_link_nth [OF len _ i(1) tail]
  have node: "node_ok m R (set order) n (d ! n)" if "n < m" for n using ok that by (simp add: sort_ok_def)
  have "finite {k. R k i \<and> k \<notin> set order}" by (rule finite_subset [of _ "{..<m}"]) (use R in auto)
  then have first: "k \<in> set order" if "R k i" for k using node [OF i(1)] i(3) that by (auto simp: node_ok_def)
  have next1: "pNext (tsort_link d (tail_of order) i ! n) = (if n = i \<or> tail_of order = Some n then Some i else pNext (d ! n))"
    if "n < m" for n using that by (simp add: nth)
  have mem: "order ! j < m" "order ! j \<noteq> i" if "j < length order" for j using ok that i(2) nth_mem [OF that] subsetD [OF _ nth_mem [OF that], of "{..<m}"] by (auto simp: sort_ok_def)
  have not_tail: "tail_of order \<noteq> Some (order ! j)" if "Suc j < length order" for j
    using ok that by (auto simp: sort_ok_def tail_of_def last_conv_nth nth_eq_iff_index_eq)
  have "pNext (tsort_link d (tail_of order) i ! ((order @ [i]) ! j)) = Some ((order @ [i]) ! Suc j)" if "Suc j < length (order @ [i])" for j
  proof (cases "Suc j < length order")
    case True
    then show ?thesis using next1 mem [of j] not_tail [OF True] ok by (simp add: nth_append sort_ok_def)
  next
    case False
    then have "Suc j = length order" using that by simp
    moreover from this have "last order = order ! j" "order \<noteq> []" by (metis diff_Suc_1 last_conv_nth list.size(3) nat.distinct(1), force)
    ultimately show ?thesis using next1 [OF mem(1) [of j]] by (simp add: nth_append tail_of_def)
  qed
  moreover have "R k ((order @ [i]) ! j) \<longrightarrow> k \<in> set (take j (order @ [i]))" if "j < length (order @ [i])" for j k
    using that ok first by (cases "j < length order") (auto simp: sort_ok_def nth_append less_Suc_eq)
  moreover have "node_ok m R (set (order @ [i])) n (tsort_link d (tail_of order) i ! n)" if "n < m" for n
    using drop_predecessor_ok [of m R "set order" n _ i] node [OF that] i(2) R that by (simp add: nth)
  moreover have "pNext (tsort_link d (tail_of order) i ! n) = None" if "n < m" "n \<notin> set (order @ [i])" for n
    using that ok next1 [OF that(1)] last_in_set [of order] by (auto simp: sort_ok_def tail_of_def)
  ultimately show ?thesis
    using ok i(1,2) next1 [OF i(1)] unfolding sort_ok_def by simp
qed

section \<open>The search\<close>

lemma sort_okD:
  assumes "sort_ok m R d order" "n < m"
  shows "node_ok m R (set order) n (d ! n)" "length d = m" "n \<notin> set order \<Longrightarrow> pNext (d ! n) = None"
    "n \<in> set order \<Longrightarrow> pNext (d ! n) \<noteq> None"
proof -
  show "node_ok m R (set order) n (d ! n)" "length d = m" "n \<notin> set order \<Longrightarrow> pNext (d ! n) = None"
    using assms by (simp_all add: sort_ok_def)
  assume "n \<in> set order"
  then obtain j where j: "j < length order" "order ! j = n" by (auto simp: in_set_conv_nth)
  show "pNext (d ! n) \<noteq> None"
  proof (cases "Suc j < length order")
    case True
    then show ?thesis using assms(1) j by (auto simp: sort_ok_def)
  next
    case False
    then have "length order = Suc j" using j by simp
    moreover from this have "order \<noteq> []" by auto
    ultimately have "last order = n" "order \<noteq> []" using j last_conv_nth [of order] by simp_all
    then show ?thesis using assms(1) by (auto simp: sort_ok_def)
  qed
qed

text \<open>From a hook with predecessors the search goes to one of them that is not linked.\<close>

lemma first_predecessor:
  assumes "sort_ok m R d order" "n < m" "nPredecessors (d ! n) \<noteq> 0" and R: "\<And>a b. R a b \<Longrightarrow> a < m \<and> b < m"
  shows "\<exists>k i. find (\<lambda>k. ppPredecessors (d ! n) ! k \<noteq> None) [0..<length d] = Some k \<and>
    find (\<lambda>i. Some i = ppPredecessors (d ! n) ! k) [0..<length d] = Some i \<and> R i n \<and> i \<notin> set order"
proof -
  note node = sort_okD(1) [OF assms(1,2)] and len = sort_okD(2) [OF assms(1,2)]
  have "card {k. R k n \<and> k \<notin> set order} \<noteq> 0" using node assms(3) by (simp add: node_ok_def)
  then have "{k. R k n \<and> k \<notin> set order} \<noteq> {}" by (metis card.empty)
  then obtain x where "Some x \<in> set (ppPredecessors (d ! n))" using node by (auto simp: node_ok_def)
  then have "find (\<lambda>k. ppPredecessors (d ! n) ! k \<noteq> None) [0..<length d] \<noteq> None"
    using node len by (auto simp: find_None_iff in_set_conv_nth node_ok_def)
  then obtain k where k: "find (\<lambda>k. ppPredecessors (d ! n) ! k \<noteq> None) [0..<length d] = Some k" by auto
  then obtain i where i: "k < m" "ppPredecessors (d ! n) ! k = Some i" using len by (auto simp: find_Some_iff)
  then have "Some i \<in> set (ppPredecessors (d ! n))" using node nth_mem [of k "ppPredecessors (d ! n)"] by (auto simp: node_ok_def)
  then have r: "R i n" "i \<notin> set order" using node by (auto simp: node_ok_def)
  have "find (\<lambda>i'. Some i' = ppPredecessors (d ! n) ! k) [0..<length d] = Some i"
    unfolding find_Some_iff using i R [OF r(1)] len by (intro exI [of _ i]) auto
  then show ?thesis using k r by blast
qed

lemma tsort_pick_sound:
  assumes ok: "sort_ok m R d order" and R: "\<And>a b. R a b \<Longrightarrow> a < m \<and> b < m"
    and run: "tsort_pick d n = Some r" and "\<exists>j. n \<le> j \<and> j < m \<and> j \<notin> set order"
  shows "\<exists>i. r = Returned i \<and> i < m \<and> i \<notin> set order \<and> nPredecessors (d ! i) = 0"
  using run ok assms(4)
proof (induction d n r rule: tsort_pick.raw_induct [rotated, consumes 1, case_names step])
  case (step pick d n r)
  obtain j where j: "n \<le> j" "j < m" "j \<notin> set order" using step.prems(2) by blast
  then have n: "n < m" by simp
  note len = sort_okD(2) [OF step.prems(1) n]
  consider "pNext (d ! n) \<noteq> None" | "pNext (d ! n) = None" "nPredecessors (d ! n) = 0"
    | "pNext (d ! n) = None" "nPredecessors (d ! n) \<noteq> 0" by blast
  then show ?case
  proof cases
    case 1
    then have "n \<noteq> j" using sort_okD(3) [OF step.prems(1) n] j(3) by auto
    then have "n + 1 \<le> j" using j(1) by simp
    moreover have "pick d (n + 1) = Some r" using step.hyps 1 n len by auto
    ultimately show ?thesis using step.IH [OF _ step.prems(1)] j by blast
  next
    case 2
    then have "r = Returned n" using step.hyps n len by auto
    then show ?thesis using 2 sort_okD(4) [OF step.prems(1) n] n by auto
  next
    case 3
    then obtain k i where ki: "find (\<lambda>k. ppPredecessors (d ! n) ! k \<noteq> None) [0..<length d] = Some k"
      "find (\<lambda>i. Some i = ppPredecessors (d ! n) ! k) [0..<length d] = Some i" "R i n" "i \<notin> set order"
      using first_predecessor [OF step.prems(1) n _ R] by blast
    then have "pick d i = Some r" using step.hyps 3 n len by auto
    then show ?thesis using step.IH [OF _ step.prems(1)] ki R by blast
  qed
qed

lemma tsort_pick_returns:
  assumes ok: "sort_ok m R d order" and R: "\<And>a b. R a b \<Longrightarrow> a < m \<and> b < m" and wf: "wf {(a, b). R a b}"
    and n: "n < m" "n \<notin> set order"
  shows "tsort_pick d n \<noteq> None"
  using wf n
proof (induction n rule: wf_induct_rule)
  case (less n)
  note len = sort_okD(2) [OF ok less.prems(1)] and free = sort_okD(3) [OF ok less.prems]
  show ?case
  proof (cases "nPredecessors (d ! n) = 0")
    case True
    then show ?thesis using free len less.prems(1) by (subst tsort_pick.simps) simp
  next
    case False
    then obtain k i where ki: "find (\<lambda>k. ppPredecessors (d ! n) ! k \<noteq> None) [0..<length d] = Some k"
      "find (\<lambda>i. Some i = ppPredecessors (d ! n) ! k) [0..<length d] = Some i" "R i n" "i \<notin> set order"
      using first_predecessor [OF ok less.prems(1) _ R] by blast
    then have "tsort_pick d i \<noteq> None" using less.IH R by auto
    then show ?thesis using free len less.prems(1) False ki by (subst tsort_pick.simps) simp
  qed
qed

lemma tsort_pick_from_start:
  assumes ok: "sort_ok m R d order" and R: "\<And>a b. R a b \<Longrightarrow> a < m \<and> b < m" and wf: "wf {(a, b). R a b}"
    and "\<exists>j. n \<le> j \<and> j < m \<and> j \<notin> set order"
  shows "tsort_pick d n \<noteq> None"
  using assms(4)
proof (induction "m - n" arbitrary: n)
  case (Suc l)
  then have n: "n < m" by auto
  show ?case
  proof (cases "n \<in> set order")
    case True
    moreover obtain j where "n \<le> j" "j < m" "j \<notin> set order" using Suc.prems by blast
    ultimately have "n + 1 \<le> j" by (metis Suc_eq_plus1 le_neq_implies_less Suc_leI)
    moreover have "l = m - (n + 1)" using Suc.hyps(2) by simp
    ultimately have "tsort_pick d (n + 1) \<noteq> None" using Suc.hyps(1) \<open>j < m\<close> \<open>j \<notin> set order\<close> by blast
    then show ?thesis using sort_okD(2) [OF ok n] sort_okD(4) [OF ok n True] n by (subst tsort_pick.simps) (simp del: not_None_eq)
  next
    case False
    then show ?thesis using tsort_pick_returns [OF ok R wf n] by simp
  qed
qed auto

section \<open>The loop and the copy\<close>

lemma unlinked_exists:
  assumes "sort_ok m R d order" "length order < m"
  shows "\<exists>j. 0 \<le> j \<and> j < m \<and> j \<notin> set order"
proof -
  have "card (set order) < card {..<m}" using assms by (simp add: sort_ok_def distinct_card)
  then have "\<not> {..<m} \<subseteq> set order" by (meson List.finite_set card_mono not_le)
  then show ?thesis by auto
qed

lemma tsort_loop_ok:
  assumes R: "\<And>a b. R a b \<Longrightarrow> a < m \<and> b < m"
    and "sort_ok m R d order" "length order + rounds = m" "pHead = (if order = [] then None else Some (hd order))"
  shows "tsort_loop rounds d pHead (tail_of order) = Some r \<Longrightarrow>
      \<exists>d' order'. r = Returned (d', if order' = [] then None else Some (hd order'), tail_of order') \<and>
        sort_ok m R d' order' \<and> length order' = m"
    and "wf {(a, b). R a b} \<Longrightarrow> tsort_loop rounds d pHead (tail_of order) \<noteq> None"
proof -
  have "(\<forall>r. tsort_loop rounds d pHead (tail_of order) = Some r \<longrightarrow>
      (\<exists>d' order'. r = Returned (d', if order' = [] then None else Some (hd order'), tail_of order') \<and>
        sort_ok m R d' order' \<and> length order' = m)) \<and>
    (wf {(a, b). R a b} \<longrightarrow> tsort_loop rounds d pHead (tail_of order) \<noteq> None)"
    using assms(2-4)
  proof (induction rounds arbitrary: d order pHead)
    case 0
    then show ?case by auto
  next
    case (Suc rounds)
    note ok = Suc.prems(1)
    have free: "\<exists>j. 0 \<le> j \<and> j < m \<and> j \<notin> set order" using unlinked_exists [OF ok] Suc.prems(2) by simp
    show ?case
    proof (cases "tsort_pick d 0")
      case None
      then show ?thesis using tsort_pick_from_start [OF ok R _ free] by auto
    next
      case (Some r)
      obtain i where i: "r = Returned i" "i < m" "i \<notin> set order" "nPredecessors (d ! i) = 0"
        using tsort_pick_sound [OF ok R Some free] by blast
      have "tail_of (order @ [i]) = Some i" by (simp add: tail_of_def)
      moreover have "(if tail_of order = None then Some i else pHead) = (if order @ [i] = [] then None else Some (hd (order @ [i])))"
        using Suc.prems(3) by (simp add: tail_of_def)
      ultimately show ?thesis
        using Suc.IH [OF tsort_link_ok [OF ok R i(2-4)]] Suc.prems(2) Some i(1) by simp
    qed
  qed
  then show "tsort_loop rounds d pHead (tail_of order) = Some r \<Longrightarrow>
      \<exists>d' order'. r = Returned (d', if order' = [] then None else Some (hd order'), tail_of order') \<and>
        sort_ok m R d' order' \<and> length order' = m"
    and "wf {(a, b). R a b} \<Longrightarrow> tsort_loop rounds d pHead (tail_of order) \<noteq> None" by blast+
qed

lemma copy_sorted_chain:
  assumes "\<forall>i. Suc i < length order \<longrightarrow> pNext (d ! (order ! i)) = Some (order ! Suc i)"
    "order \<noteq> [] \<longrightarrow> pNext (d ! last order) = None" "\<forall>n \<in> set order. pData (d ! n) = n" "n + length order \<le> length items"
  shows "copy_sorted items d (if order = [] then None else Some (hd order)) n = Returned (map ((!) items) order)"
  using assms
proof (induction order arbitrary: n)
  case (Cons i order)
  have "pNext (d ! i) = (if order = [] then None else Some (hd order))"
  proof (cases order)
    case (Cons j os)
    then show ?thesis using Cons.prems(1) [rule_format, of 0] by simp
  qed (use Cons.prems(2) in simp)
  moreover have "copy_sorted items d (if order = [] then None else Some (hd order)) (Suc n) = Returned (map ((!) items) order)"
    using Cons.prems by (intro Cons.IH) (auto split: if_splits)
  ultimately show ?case using Cons.prems(3,4) by simp
qed simp

lemma preds_are_node:
  assumes "preds_are m t ks" "set ks = {k. R k n}" "pData t = n"
  shows "node_ok m R {} n t"
proof -
  have pp: "ppPredecessors t = map Some ks @ replicate (m - length ks) None" using assms(1) by (simp add: preds_are_def)
  have "card (set ks) \<le> card {..<m}" using assms(1) by (intro card_mono) (auto simp: preds_are_def)
  then have len: "length ks \<le> m" "card {k. R k n} = length ks"
    using assms(1) distinct_card [of ks] unfolding assms(2) [symmetric] by (simp_all add: preds_are_def)
  have "Some k \<in> set (ppPredecessors t) \<longleftrightarrow> R k n" for k using assms(2) by (auto simp: pp)
  moreover have "i = j" if "i < m" "j < m" "ppPredecessors t ! i = ppPredecessors t ! j" "ppPredecessors t ! i \<noteq> None" for i j
    using that assms(1) by (auto simp: pp preds_are_def nth_append nth_eq_iff_index_eq split: if_splits)
  ultimately show ?thesis using assms(1,3) len pp by (auto simp: node_ok_def preds_are_def)
qed

lemma graph_sort_ok: "graph_ok m R d \<Longrightarrow> sort_ok m R d []"
  using preds_are_node by (fastforce simp: sort_ok_def graph_ok_def)

lemma must_precede_less: "must_precede items a b \<Longrightarrow> a < length items \<and> b < length items"
  by (simp add: must_precede_def)

text \<open>What \<open>tsort\<close> and the copy give, and when they do.\<close>

lemma tsort_prepared:
  assumes "items \<noteq> []"
  shows "tsort (prepare items) = Some r \<Longrightarrow>
      \<exists>d order. r = Returned (d, Some (hd order)) \<and> order \<noteq> [] \<and> distinct order \<and> set order = {..<length items} \<and>
        (\<forall>i < length items. \<forall>k. must_precede items k (order ! i) \<longrightarrow> k \<in> set (take i order)) \<and>
        copy_sorted items d (Some (hd order)) 0 = Returned (map ((!) items) order)"
    and "wf (precedence items) \<Longrightarrow> tsort (prepare items) \<noteq> None"
proof -
  let ?m = "length items"
  have len: "length (prepare items) = ?m" using prepare_ok [of items] by (simp add: graph_ok_def)
  note ok = graph_sort_ok [OF prepare_ok [of items]]
  have "length [] + ?m = ?m" "None = (if [] = [] then None else Some (hd []))" by simp_all
  note loop = tsort_loop_ok [OF must_precede_less ok this]
  have tail: "tail_of [] = None" by (simp add: tail_of_def)
  show "wf (precedence items) \<Longrightarrow> tsort (prepare items) \<noteq> None"
    using loop(2) unfolding tail by (auto simp: tsort_def len precedence_def split: option.splits outcome.splits)
  assume run: "tsort (prepare items) = Some r"
  then obtain r' where r': "tsort_loop ?m (prepare items) None None = Some r'"
    by (auto simp: tsort_def len split: option.splits)
  obtain d order where d: "r' = Returned (d, if order = [] then None else Some (hd order), if order = [] then None else Some (last order))"
    "sort_ok ?m (must_precede items) d order" "length order = ?m"
    using loop(1) [unfolded tail, OF _ r'] unfolding tail_of_def by blast
  have ne: "order \<noteq> []" using d(3) assms by auto
  have r: "r = Returned (set_next (last order) None d, Some (hd order))"
    using run r' d(1) ne by (simp add: tsort_def len)
  let ?d = "set_next (last order) None d"
  have set: "set order = {..<?m}"
    using d(2,3) by (intro card_subset_eq) (auto simp: sort_ok_def distinct_card)
  have lt: "order ! i < ?m" if "i < ?m" for i using nth_mem [of i order] that d(3) set by auto
  have next_d: "pNext (?d ! n) = (if n = last order then None else pNext (d ! n))" and data: "pData (?d ! n) = n" if "n < ?m" for n
    using that sort_okD(1,2) [OF d(2) that] by (cases "n = last order"; simp add: node_ok_def)+
  have "copy_sorted items ?d (if order = [] then None else Some (hd order)) 0 = Returned (map ((!) items) order)"
  proof (rule copy_sorted_chain)
    show "\<forall>i. Suc i < length order \<longrightarrow> pNext (?d ! (order ! i)) = Some (order ! Suc i)"
    proof (intro allI impI)
      fix i assume i: "Suc i < length order"
      moreover have "distinct order" using d(2) by (simp add: sort_ok_def)
      ultimately have "order ! i \<noteq> last order"
        using nth_eq_iff_index_eq [of order i "length order - 1"] last_conv_nth [OF ne] by simp
      then show "pNext (?d ! (order ! i)) = Some (order ! Suc i)"
        using next_d [OF lt [of i]] i d(2,3) by (simp add: sort_ok_def)
    qed
    show "order \<noteq> [] \<longrightarrow> pNext (?d ! last order) = None" using next_d [of "last order"] last_in_set [of order] set by auto
  qed (use data set d(3) in auto)
  then show "\<exists>d order. r = Returned (d, Some (hd order)) \<and> order \<noteq> [] \<and> distinct order \<and> set order = {..<?m} \<and>
        (\<forall>i < ?m. \<forall>k. must_precede items k (order ! i) \<longrightarrow> k \<in> set (take i order)) \<and>
        copy_sorted items d (Some (hd order)) 0 = Returned (map ((!) items) order)"
    using r ne set d(2,3) by (auto simp: sort_ok_def)
qed

text \<open>An order that respects the relation has none of its cycles.\<close>

lemma ordered_wf:
  assumes "distinct order" "\<And>a b. R a b \<Longrightarrow> b \<in> set order"
    "\<forall>i < length order. \<forall>k. R k (order ! i) \<longrightarrow> k \<in> set (take i order)"
  shows "wf {(a, b). R a b}"
proof -
  define pos where "pos x = (THE i. i < length order \<and> order ! i = x)" for x
  have pos: "pos (order ! i) = i" if "i < length order" for i
    unfolding pos_def using that assms(1) by (intro the_equality) (auto simp: nth_eq_iff_index_eq)
  have "pos a < pos b" if ab: "R a b" for a b
  proof -
    obtain i where i: "i < length order" "order ! i = b" using assms(2) [OF ab] by (auto simp: in_set_conv_nth)
    then have "a \<in> set (take i order)" using assms(3) ab by blast
    then obtain j where "j < i" "order ! j = a" using i(1) by (auto simp: in_set_conv_nth)
    then show ?thesis using pos [of i] pos [of j] i by auto
  qed
  then have "{(a, b). R a b} \<subseteq> measure pos" by auto
  then show ?thesis by (rule wf_subset [rotated]) simp
qed

text \<open>
  C13. The hooks are put into an order in which each comes after its predecessors and before its successors,
  without loss or repetition, when the names do not contradict each other; when they do, the sort never
  returns, and no assertion fails in either case.
\<close>

theorem apr_hook_sort_orders:
  assumes "\<And>xs. mset (qsort crude_order xs) = mset xs" "hooks \<noteq> []"
  shows "if wf (precedence (qsort crude_order hooks))
    then \<exists>order. sort_hook qsort hooks = Some (Returned (map ((!) (qsort crude_order hooks)) order)) \<and>
      distinct order \<and> set order = {..<length hooks} \<and>
      (\<forall>i < length hooks. \<forall>k. must_precede (qsort crude_order hooks) k (order ! i) \<longrightarrow> k \<in> set (take i order))
    else sort_hook qsort hooks = None"
proof -
  let ?items = "qsort crude_order hooks"
  have len: "length ?items = length hooks" using assms(1) [of hooks] by (metis size_mset)
  then have ne: "?items \<noteq> []" using assms(2) by auto
  note sound = tsort_prepared(1) [OF ne] and total = tsort_prepared(2) [OF ne]
  show ?thesis
  proof (cases "tsort (prepare ?items)")
    case None
    then show ?thesis using total by (auto simp: sort_hook_def)
  next
    case (Some r)
    then obtain d order where o: "r = Returned (d, Some (hd order))" "distinct order" "set order = {..<length hooks}"
      "\<forall>i < length hooks. \<forall>k. must_precede ?items k (order ! i) \<longrightarrow> k \<in> set (take i order)"
      "copy_sorted ?items d (Some (hd order)) 0 = Returned (map ((!) ?items) order)"
      using sound [of r] len by auto
    have "length order = length hooks" using o(2,3) distinct_card [of order] by simp
    then have "wf (precedence ?items)"
      unfolding precedence_def using o(2-4) must_precede_less [of ?items] len by (intro ordered_wf [of order]) auto
    moreover have "sort_hook qsort hooks = Some (Returned (map ((!) ?items) order))"
      using Some o(1,5) by (simp add: sort_hook_def)
    ultimately show ?thesis using o(2-4) by auto
  qed
qed

definition hook_named :: "cstr \<Rightarrow> cstr list \<Rightarrow> TSortData" where
  "hook_named name preds = \<lparr>pFunc = 0, szName = name, aszPredecessors = Some preds, aszSuccessors = None, nOrder = 10\<rparr>"

lemma apr_hook_sort_orders_witness:
  "sort_hook (\<lambda>cmp. sort_key nOrder) [hook_named ''a'' [''b''], hook_named ''b'' []] \<noteq> None \<and>
   sort_hook (\<lambda>cmp. sort_key nOrder) [hook_named ''a'' [''b''], hook_named ''b'' [''a'']] = None"
proof -
  let ?h = "[hook_named ''a'' [''b''], hook_named ''b'' []]" and ?c = "[hook_named ''a'' [''b''], hook_named ''b'' [''a'']]"
  have sorted: "sort_key nOrder ?h = ?h" "sort_key nOrder ?c = ?c" by (simp_all add: hook_named_def)
  have "must_precede ?h a b \<Longrightarrow> b < a \<and> a < 2" for a b
    by (auto simp: must_precede_def names_def find_item_def hook_named_def less_Suc_eq)
  then have "precedence ?h \<subseteq> measure (\<lambda>x. 2 - x)" by (fastforce simp: precedence_def)
  then have "wf (precedence ?h)" by (rule wf_subset [rotated]) simp
  moreover have "must_precede ?c 0 1" "must_precede ?c 1 0"
    by (simp_all add: must_precede_def names_def find_item_def hook_named_def upt_rec)
  then have "\<not> wf (precedence ?c)" using wf_asym [of "precedence ?c" 0 1] by (auto simp: precedence_def)
  ultimately have wfs: "wf (precedence (sort_key nOrder ?h))" "\<not> wf (precedence (sort_key nOrder ?c))"
    unfolding sorted by blast+
  note sorts = apr_hook_sort_orders [where qsort = "\<lambda>cmp. sort_key nOrder", OF mset_sort list.distinct(2)]
  have "sort_hook (\<lambda>cmp. sort_key nOrder) ?h \<noteq> None"
    using sorts [of "hook_named ''a'' [''b'']" "[hook_named ''b'' []]", unfolded if_P [OF wfs(1)]] by (elim exE conjE) simp
  moreover have "sort_hook (\<lambda>cmp. sort_key nOrder) ?c = None"
    using sorts [of "hook_named ''a'' [''b'']" "[hook_named ''b'' [''a'']]", unfolded if_not_P [OF wfs(2)]] .
  ultimately show ?thesis by blast
qed

end
