(* ===== verification/Apu_Optional_Hooks.thy ===== *)
theory Apu_Optional_Hooks
  imports Apu_Hooks Apr_Hash
begin

text \<open>
  The registry of hooks (\<open>srclib/apr-util/hooks/apr_hooks.c\<close>): the list of arrays that are to be sorted, the
  optional hooks and the optional functions, which are found by name in hash tables. An array of hooks is known by the address
  of the pointer to it (\<open>paHooks\<close>, \<open>ppArray\<close>); the addresses that \<open>apr_palloc\<close> returns are arguments.
\<close>

section \<open>State\<close>

record HookSortEntry =
  szHookName :: cstr
  paHooks :: nat

record hook_state =
  s_aHooksToSort :: "HookSortEntry list option"
  s_phOptionalHooks :: "nat apr_hash option"
  s_phOptionalFunctions :: "nat apr_hash option"
  hook_arrays :: "nat \<Rightarrow> TSortData list option"
  hook_debug_current :: cstr

definition hooks_init :: hook_state where
  "hooks_init = \<lparr>s_aHooksToSort = None, s_phOptionalHooks = None, s_phOptionalFunctions = None,
     hook_arrays = (\<lambda>a. None), hook_debug_current = []\<rparr>"

section \<open>Operations\<close>

text \<open>The array \<open>s_aHooksToSort\<close>, made when there is none.\<close>

definition hooks_to_sort :: "hook_state \<Rightarrow> HookSortEntry list" where
  "hooks_to_sort st = (case s_aHooksToSort st of None \<Rightarrow> [] | Some es \<Rightarrow> es)"

definition apr_hook_sort_register :: "cstr \<Rightarrow> nat \<Rightarrow> hook_state \<Rightarrow> hook_state" where
  "apr_hook_sort_register name pa st =
     st\<lparr>s_aHooksToSort := Some (hooks_to_sort st @ [\<lparr>szHookName = name, paHooks = pa\<rparr>])\<rparr>"

text \<open>The loop of \<open>apr_hook_sort_all\<close>; a NULL array is dereferenced.\<close>

fun sort_entries :: "qsort_fun \<Rightarrow> HookSortEntry list \<Rightarrow> (nat \<Rightarrow> TSortData list option) \<Rightarrow>
    (nat \<Rightarrow> TSortData list option) outcome option" where
  "sort_entries qsort [] arrays = Some (Returned arrays)"
| "sort_entries qsort (e # es) arrays =
     (case arrays (paHooks e) of
        None \<Rightarrow> Some Aborted
      | Some hooks \<Rightarrow>
          (case sort_hook qsort hooks of
             None \<Rightarrow> None
           | Some Aborted \<Rightarrow> Some Aborted
           | Some (Returned new) \<Rightarrow> sort_entries qsort es (arrays(paHooks e := Some new))))"

definition apr_hook_sort_all :: "qsort_fun \<Rightarrow> hook_state \<Rightarrow> hook_state outcome option" where
  "apr_hook_sort_all qsort st =
     (let es = hooks_to_sort st
      in case sort_entries qsort es (hook_arrays st) of
           None \<Rightarrow> None
         | Some Aborted \<Rightarrow> Some Aborted
         | Some (Returned arrays) \<Rightarrow> Some (Returned (st\<lparr>s_aHooksToSort := Some es, hook_arrays := arrays\<rparr>)))"

definition apr_hook_deregister_all :: "hook_state \<Rightarrow> hook_state" where
  "apr_hook_deregister_all st =
     (case s_aHooksToSort st of
        None \<Rightarrow> st
      | Some es \<Rightarrow>
          st\<lparr>hook_arrays := foldl (\<lambda>arrays e. arrays(paHooks e := None)) (hook_arrays st) es,
             s_aHooksToSort := None, s_phOptionalHooks := None, s_phOptionalFunctions := None\<rparr>)"

definition apr_optional_hook_get :: "hook_state \<Rightarrow> cstr \<Rightarrow> TSortData list option" where
  "apr_optional_hook_get st name =
     (case s_phOptionalHooks st of
        None \<Rightarrow> None
      | Some ht \<Rightarrow>
          (case apr_hash_get ht name (int (length name)) of
             None \<Rightarrow> None
           | Some ppArray \<Rightarrow> hook_arrays st ppArray))"

text \<open>The hook that is pushed, and the array that it is pushed to; \<open>fresh\<close> is what \<open>apr_palloc\<close> returns for \<open>ppArray\<close>.\<close>

definition new_hook :: "nat \<Rightarrow> cstr list option \<Rightarrow> cstr list option \<Rightarrow> int \<Rightarrow> hook_state \<Rightarrow> TSortData" where
  "new_hook pfn aszPre aszSucc order st =
     \<lparr>pFunc = pfn, szName = hook_debug_current st, aszPredecessors = aszPre, aszSuccessors = aszSucc, nOrder = order\<rparr>"

definition apr_optional_hook_add ::
  "cstr \<Rightarrow> nat \<Rightarrow> cstr list option \<Rightarrow> cstr list option \<Rightarrow> int \<Rightarrow> nat \<Rightarrow> hook_state \<Rightarrow> hook_state" where
  "apr_optional_hook_add name pfn aszPre aszSucc order fresh st =
     (let hook = new_hook pfn aszPre aszSucc order st
      in case apr_optional_hook_get st name of
           None \<Rightarrow>
             let ht = (case s_phOptionalHooks st of None \<Rightarrow> apr_hash_make | Some ht \<Rightarrow> ht);
                 st = st\<lparr>s_phOptionalHooks := Some (apr_hash_set ht name (int (length name)) (Some fresh))\<rparr>;
                 st = apr_hook_sort_register name fresh st
             in st\<lparr>hook_arrays := (hook_arrays st)(fresh := Some [hook])\<rparr>
         | Some pArray \<Rightarrow>
             (case s_phOptionalHooks st of
                None \<Rightarrow> st
              | Some ht \<Rightarrow>
                  let ppArray = the (apr_hash_get ht name (int (length name)))
                  in st\<lparr>hook_arrays := (hook_arrays st)(ppArray := Some (pArray @ [hook]))\<rparr>))"

definition apr_dynamic_fn_retrieve :: "hook_state \<Rightarrow> cstr \<Rightarrow> nat option" where
  "apr_dynamic_fn_retrieve st name =
     (case s_phOptionalFunctions st of None \<Rightarrow> None | Some ht \<Rightarrow> apr_hash_get ht name (int (length name)))"

definition apr_dynamic_fn_register :: "cstr \<Rightarrow> nat \<Rightarrow> hook_state \<Rightarrow> hook_state" where
  "apr_dynamic_fn_register name pfn st =
     (let ht = (case s_phOptionalFunctions st of None \<Rightarrow> apr_hash_make | Some ht \<Rightarrow> ht)
      in st\<lparr>s_phOptionalFunctions := Some (apr_hash_set ht name (int (length name)) (Some pfn))\<rparr>)"

text \<open>What \<open>apr_hook_debug_show\<close> prints.\<close>

fun show_names :: "cstr list \<Rightarrow> bool \<Rightarrow> cstr" where
  "show_names [] first = ''''"
| "show_names (n # ns) first = (if \<not> first then '','' else '''') @ n @ show_names ns False"

definition apr_hook_debug_show :: "cstr \<Rightarrow> cstr list option \<Rightarrow> cstr list option \<Rightarrow> cstr" where
  "apr_hook_debug_show name aszPre aszSucc =
     ''  Hooked '' @ name @
     (case aszPre of None \<Rightarrow> '''' | Some ns \<Rightarrow> '' pre('' @ show_names ns True @ '')'') @
     (case aszSucc of None \<Rightarrow> '''' | Some ns \<Rightarrow> '' succ('' @ show_names ns True @ '')'') @ [CHR 0x0A]"

section \<open>The invariant of the registry\<close>

text \<open>
  The entries \<open>es\<close> that are registered for sorting are the names in the hash table, each once, with an array of its own,
  and the array of a name holds the hooks \<open>f\<close> of that name.
\<close>

definition entry_of :: "HookSortEntry list \<Rightarrow> cstr \<Rightarrow> nat option" where
  "entry_of es = map_of (map (\<lambda>e. (szHookName e, paHooks e)) es)"

definition registry_ok :: "hook_state \<Rightarrow> HookSortEntry list \<Rightarrow> (cstr \<Rightarrow> TSortData list) \<Rightarrow> bool" where
  "registry_ok st es f \<longleftrightarrow>
     hooks_to_sort st = es \<and>
     (case s_phOptionalHooks st of None \<Rightarrow> es = []
      | Some ht \<Rightarrow> hash_inv times33 ht \<and> (\<forall>name. hash_val times33 ht name = map_option Some (entry_of es name))) \<and>
     distinct (map szHookName es) \<and> distinct (map paHooks es) \<and>
     (\<forall>e \<in> set es. hook_arrays st (paHooks e) = Some (f (szHookName e))) \<and>
     (\<forall>name. f name \<noteq> [] \<longleftrightarrow> name \<in> szHookName ` set es)"

lemma name_key [simp]: "key_ok name (int (length name))" "key_bytes name (int (length name)) = name"
  by (simp_all add: key_ok_def key_bytes_def APR_HASH_KEY_STRING_def)

lemma entry_of_Some: "entry_of es name = Some pa \<Longrightarrow> \<exists>e \<in> set es. szHookName e = name \<and> paHooks e = pa"
  by (force simp: entry_of_def dest: map_of_SomeD)

lemma entry_of_None: "entry_of es name = None \<longleftrightarrow> name \<notin> szHookName ` set es"
  by (simp add: entry_of_def map_of_eq_None_iff image_image)

lemma hooks_to_sort_simps [simp]:
  "hooks_to_sort (st\<lparr>s_aHooksToSort := x\<rparr>) = (case x of None \<Rightarrow> [] | Some es \<Rightarrow> es)"
  "hooks_to_sort (st\<lparr>s_phOptionalHooks := ho\<rparr>) = hooks_to_sort st"
  "hooks_to_sort (st\<lparr>hook_arrays := ar\<rparr>) = hooks_to_sort st"
  by (simp_all add: hooks_to_sort_def)

lemma registry_lookup:
  assumes "registry_ok st es f" "s_phOptionalHooks st = Some ht"
  shows "apr_hash_get ht name (int (length name)) = entry_of es name"
  using assms apr_hash_get_val [of times33 ht name "int (length name)"]
  by (auto simp: registry_ok_def split: option.splits)

lemma registry_get:
  assumes "registry_ok st es f"
  shows "apr_optional_hook_get st name = (if f name = [] then None else Some (f name))"
proof (cases "s_phOptionalHooks st")
  case None
  then show ?thesis using assms by (auto simp: registry_ok_def apr_optional_hook_get_def)
next
  case (Some ht)
  note get = registry_lookup [OF assms Some, of name]
  show ?thesis
  proof (cases "entry_of es name")
    case None
    then have "f name = []" using assms entry_of_None [of es name] by (auto simp: registry_ok_def)
    then show ?thesis using Some None get by (simp add: apr_optional_hook_get_def)
  next
    case entry: (Some pa)
    then obtain e where "e \<in> set es" "szHookName e = name" "paHooks e = pa" using entry_of_Some by blast
    then have "hook_arrays st pa = Some (f name)" "f name \<noteq> []" using assms by (auto simp: registry_ok_def)
    then show ?thesis using Some entry get by (simp add: apr_optional_hook_get_def)
  qed
qed

lemma entry_of_append:
  "entry_of es name = None \<Longrightarrow>
     entry_of (es @ [\<lparr>szHookName = name, paHooks = pa\<rparr>]) b = (if b = name then Some pa else entry_of es b)"
  by (auto simp: entry_of_def map_add_def split: option.splits)

lemma registry_add:
  fixes pfn :: nat and aszPre aszSucc :: "cstr list option" and order :: int
  assumes ok: "registry_ok st es f" and fresh: "fresh \<notin> paHooks ` set es"
  defines "h \<equiv> new_hook pfn aszPre aszSucc order st"
  shows "\<exists>es'. registry_ok (apr_optional_hook_add name pfn aszPre aszSucc order fresh st) es' (f(name := f name @ [h])) \<and>
    paHooks ` set es' \<subseteq> insert fresh (paHooks ` set es)"
proof (cases "f name = []")
  case True
  let ?e = "\<lparr>szHookName = name, paHooks = fresh\<rparr>"
  let ?ht = "case s_phOptionalHooks st of None \<Rightarrow> apr_hash_make | Some ht \<Rightarrow> ht"
  have none: "entry_of es name = None" using ok True by (auto simp: entry_of_None registry_ok_def)
  have ht: "hash_inv times33 ?ht" "hash_val times33 ?ht b = map_option Some (entry_of es b)" for b
    using ok apr_hash_make_ok(1) by (auto simp: registry_ok_def entry_of_def split: option.splits)
  have set_ht: "hash_inv times33 (apr_hash_set ?ht name (int (length name)) (Some fresh))"
    "hash_val times33 (apr_hash_set ?ht name (int (length name)) (Some fresh)) b = map_option Some (entry_of (es @ [?e]) b)" for b
    using apr_hash_set_ok [OF ht(1) name_key(1), of name "Some fresh" b] ht(2) [of b] entry_of_append [OF none, of fresh b] by auto
  have "apr_optional_hook_get st name = None" using registry_get [OF ok, of name] True by simp
  then have "registry_ok (apr_optional_hook_add name pfn aszPre aszSucc order fresh st) (es @ [?e]) (f(name := [h]))"
    using ok fresh set_ht none
    by (auto simp: registry_ok_def apr_optional_hook_add_def apr_hook_sort_register_def Let_def h_def entry_of_None)
  then show ?thesis using True by (intro exI [of _ "es @ [?e]"]) auto
next
  case False
  then have get: "apr_optional_hook_get st name = Some (f name)" using registry_get [OF ok, of name] by simp
  then obtain ht where ht: "s_phOptionalHooks st = Some ht" by (auto simp: apr_optional_hook_get_def split: option.splits)
  have "entry_of es name \<noteq> None" using ok False by (auto simp: entry_of_None registry_ok_def)
  then obtain pa where pa: "entry_of es name = Some pa" by auto
  obtain e where e: "e \<in> set es" "szHookName e = name" "paHooks e = pa" using entry_of_Some [OF pa] by blast
  have "x = e" if "x \<in> set es" "paHooks x = pa \<or> szHookName x = name" for x
    using ok that e inj_on_eq_iff [of paHooks "set es" x e] inj_on_eq_iff [of szHookName "set es" x e]
    by (auto simp: registry_ok_def distinct_map)
  then have one: "paHooks x = pa \<longleftrightarrow> szHookName x = name" if "x \<in> set es" for x using that e by blast
  have "registry_ok (apr_optional_hook_add name pfn aszPre aszSucc order fresh st) es (f(name := f name @ [h]))"
    using ok get ht registry_lookup [OF ok ht, of name] pa one e
    by (auto simp: registry_ok_def apr_optional_hook_add_def Let_def h_def)
  then show ?thesis by blast
qed

section \<open>A history of hooks\<close>

text \<open>The name, the function, the predecessors and successors, the order, and the address for the array pointer.\<close>

type_synonym hook_request = "cstr \<times> nat \<times> cstr list option \<times> cstr list option \<times> int \<times> nat"

fun add_all :: "hook_request list \<Rightarrow> hook_state \<Rightarrow> hook_state" where
  "add_all [] st = st"
| "add_all ((name, pfn, pre, succ, order, fresh) # ops) st =
     add_all ops (apr_optional_hook_add name pfn pre succ order fresh st)"

fun hooks_of :: "cstr \<Rightarrow> cstr \<Rightarrow> hook_request list \<Rightarrow> TSortData list" where
  "hooks_of cur b [] = []"
| "hooks_of cur b ((name, pfn, pre, succ, order, fresh) # ops) =
     (if name = b then [\<lparr>pFunc = pfn, szName = cur, aszPredecessors = pre, aszSuccessors = succ, nOrder = order\<rparr>] else []) @
     hooks_of cur b ops"

definition fresh_of :: "hook_request \<Rightarrow> nat" where
  "fresh_of r = (case r of (name, pfn, pre, succ, order, fresh) \<Rightarrow> fresh)"

lemma hook_add_current [simp]:
  "hook_debug_current (apr_optional_hook_add name pfn pre succ order fresh st) = hook_debug_current st"
  by (simp add: apr_optional_hook_add_def apr_hook_sort_register_def Let_def split: option.splits)

lemma insert_disjoint_mono: "A \<subseteq> insert x B \<Longrightarrow> x \<notin> C \<Longrightarrow> B \<inter> C = {} \<Longrightarrow> A \<inter> C = {}"
  by blast

lemma add_all_ok:
  assumes "registry_ok st es f" "distinct (map fresh_of ops)" "paHooks ` set es \<inter> fresh_of ` set ops = {}"
  shows "\<exists>es'. registry_ok (add_all ops st) es' (\<lambda>b. f b @ hooks_of (hook_debug_current st) b ops)"
  using assms
proof (induction ops arbitrary: st es f)
  case (Cons r ops)
  obtain name pfn pre succ order fresh where r: "r = (name, pfn, pre, succ, order, fresh)" by (cases r)
  let ?st = "apr_optional_hook_add name pfn pre succ order fresh st"
  have "fresh \<notin> paHooks ` set es" using Cons.prems(3) by (simp add: r fresh_of_def)
  then obtain es' where es': "registry_ok ?st es' (f(name := f name @ [new_hook pfn pre succ order st]))"
    "paHooks ` set es' \<subseteq> insert fresh (paHooks ` set es)"
    using registry_add [OF Cons.prems(1)] by blast
  have "paHooks ` set es' \<inter> fresh_of ` set ops = {}"
  proof -
    have "fresh_of r = fresh" by (simp add: r fresh_of_def)
    then have "fresh \<notin> fresh_of ` set ops" "paHooks ` set es \<inter> fresh_of ` set ops = {}" using Cons.prems(2,3) by auto
    with es'(2) show ?thesis by (rule insert_disjoint_mono)
  qed
  from Cons.IH [OF es'(1) _ this] Cons.prems(2)
  obtain es'' where "registry_ok (add_all ops ?st) es''
      (\<lambda>b. (f(name := f name @ [new_hook pfn pre succ order st])) b @ hooks_of (hook_debug_current ?st) b ops)" by auto
  moreover have "(\<lambda>b. (f(name := f name @ [new_hook pfn pre succ order st])) b @ hooks_of (hook_debug_current ?st) b ops) =
      (\<lambda>b. f b @ hooks_of (hook_debug_current st) b (r # ops))"
    by (auto simp: fun_eq_iff r new_hook_def)
  ultimately show ?case by (auto simp: r)
qed auto

lemma sort_entries_each:
  "sort_entries qsort es arrays = Some (Returned arrays') \<Longrightarrow> distinct (map paHooks es) \<Longrightarrow>
    (\<forall>e \<in> set es. \<exists>hooks new. arrays (paHooks e) = Some hooks \<and> sort_hook qsort hooks = Some (Returned new) \<and>
       arrays' (paHooks e) = Some new) \<and> (\<forall>a. a \<notin> paHooks ` set es \<longrightarrow> arrays' a = arrays a)"
proof (induction qsort es arrays rule: sort_entries.induct)
  case (2 qsort e es arrays)
  obtain hooks new where h: "arrays (paHooks e) = Some hooks" "sort_hook qsort hooks = Some (Returned new)"
    "sort_entries qsort es (arrays(paHooks e := Some new)) = Some (Returned arrays')"
    using "2.prems"(1) by (auto split: option.splits outcome.splits)
  have "(\<forall>x \<in> set es. \<exists>hooks' new'. (arrays(paHooks e := Some new)) (paHooks x) = Some hooks' \<and>
      sort_hook qsort hooks' = Some (Returned new') \<and> arrays' (paHooks x) = Some new') \<and>
    (\<forall>a. a \<notin> paHooks ` set es \<longrightarrow> arrays' a = (arrays(paHooks e := Some new)) a)"
    using "2.IH" [OF h(1,2) refl h(3)] "2.prems"(2) by simp
  moreover have "paHooks x \<noteq> paHooks e" if "x \<in> set es" for x using "2.prems"(2) that by (force simp: image_iff)
  ultimately show ?case using h(1,2) "2.prems"(2) by (auto simp: image_iff)
qed simp

text \<open>
  C37. The optional hooks found under a name are those that were added under it, in that order, whatever was added
  under other names; after \<open>apr_hook_sort_all\<close> they are the same hooks as \<open>sort_hook\<close> orders them.
\<close>

theorem apr_optional_hooks_by_name:
  fixes cur :: cstr
  assumes "distinct (map fresh_of ops)"
  defines "st \<equiv> add_all ops (hooks_init\<lparr>hook_debug_current := cur\<rparr>)"
  shows "apr_optional_hook_get st name = (if hooks_of cur name ops = [] then None else Some (hooks_of cur name ops)) \<and>
    (\<forall>st'. apr_hook_sort_all qsort st = Some (Returned st') \<longrightarrow>
       (if hooks_of cur name ops = [] then apr_optional_hook_get st' name = None
        else \<exists>new. sort_hook qsort (hooks_of cur name ops) = Some (Returned new) \<and>
          apr_optional_hook_get st' name = Some new))"
proof -
  have "registry_ok (hooks_init\<lparr>hook_debug_current := cur\<rparr>) [] (\<lambda>b. [])"
    by (simp add: registry_ok_def hooks_init_def hooks_to_sort_def)
  from add_all_ok [OF this assms(1)]
  obtain es where ok: "registry_ok st es (\<lambda>b. hooks_of cur b ops)" by (auto simp: st_def)
  show ?thesis
  proof (intro conjI allI impI registry_get [OF ok])
    fix st' assume "apr_hook_sort_all qsort st = Some (Returned st')"
    then obtain arrays where run: "sort_entries qsort es (hook_arrays st) = Some (Returned arrays)"
      and st': "st' = st\<lparr>s_aHooksToSort := Some es, hook_arrays := arrays\<rparr>"
      using ok by (auto simp: apr_hook_sort_all_def registry_ok_def split: option.splits outcome.splits)
    have each: "\<forall>e \<in> set es. \<exists>hooks new. hook_arrays st (paHooks e) = Some hooks \<and>
        sort_hook qsort hooks = Some (Returned new) \<and> arrays (paHooks e) = Some new"
      using sort_entries_each [OF run] ok by (simp add: registry_ok_def)
    have get: "apr_optional_hook_get st' name =
        (case entry_of es name of None \<Rightarrow> None | Some pa \<Rightarrow> arrays pa)"
    proof (cases "s_phOptionalHooks st")
      case None
      then show ?thesis using ok by (simp add: st' apr_optional_hook_get_def registry_ok_def entry_of_def)
    next
      case (Some ht)
      then show ?thesis using registry_lookup [OF ok Some, of name] by (simp add: st' apr_optional_hook_get_def split: option.split)
    qed
    show "if hooks_of cur name ops = [] then apr_optional_hook_get st' name = None
        else \<exists>new. sort_hook qsort (hooks_of cur name ops) = Some (Returned new) \<and> apr_optional_hook_get st' name = Some new"
    proof (cases "entry_of es name")
      case None
      then have "hooks_of cur name ops = []" using ok unfolding entry_of_None by (auto simp: registry_ok_def)
      then show ?thesis using get None by simp
    next
      case (Some pa)
      then obtain e where e: "e \<in> set es" "szHookName e = name" "paHooks e = pa" using entry_of_Some by blast
      then have "hook_arrays st pa = Some (hooks_of cur name ops)" "hooks_of cur name ops \<noteq> []"
        using ok by (auto simp: registry_ok_def)
      then show ?thesis using each e get Some by auto
    qed
  qed
qed

lemma apr_optional_hooks_by_name_witness:
  "apr_optional_hook_get (add_all [(''x'', 1, None, None, 10, 100), (''y'', 2, None, None, 10, 101), (''x'', 3, None, None, 0, 102)]
     (hooks_init\<lparr>hook_debug_current := ''m''\<rparr>)) ''x'' =
   Some [\<lparr>pFunc = 1, szName = ''m'', aszPredecessors = None, aszSuccessors = None, nOrder = 10\<rparr>,
         \<lparr>pFunc = 3, szName = ''m'', aszPredecessors = None, aszSuccessors = None, nOrder = 0\<rparr>]"
  using apr_optional_hooks_by_name [of "[(''x'', 1, None, None, 10, 100), (''y'', 2, None, None, 10, 101), (''x'', 3, None, None, 0, 102)]"
      "''m''" "''x''"] by (simp add: fresh_of_def)

end
