(* ===== verification/Apu_Digest.thy ===== *)
theory Apu_Digest
  imports Apr_Prelude
begin

unbundle bit_operations_syntax

text \<open>
  What the digests of \<open>srclib/apr-util/crypto\<close> share. \<open>apr_md4.c\<close> and \<open>apr_md5.c\<close> have the same context
  and, word for word, the same update and final functions around different transformations, which are an argument here. The
  build has character set conversion (\<open>APR_HAS_XLATE\<close>, \<open>xlate/xlate.c\<close>): a handle that a digest accepts is a
  table of 256 bytes. All these functions return \<open>APR_SUCCESS\<close>; \<open>None\<close> is a call that never returns. The
  locale \<open>digest_stream\<close> is what a caller of any digest relies on.
\<close>

type_synonym byte = "8 word"

section \<open>Bytes and words\<close>

definition ROTATE_LEFT :: "32 word \<Rightarrow> nat \<Rightarrow> 32 word" where
  "ROTATE_LEFT x n = push_bit n x OR drop_bit (32 - n) x"

text \<open>Words as bytes, least significant byte first, and back.\<close>

fun Encode :: "32 word list \<Rightarrow> byte list" where
  "Encode [] = []"
| "Encode (k # input) =
     ucast (k AND 0xff) # ucast (drop_bit 8 k AND 0xff) # ucast (drop_bit 16 k AND 0xff) #
     ucast (drop_bit 24 k AND 0xff) # Encode input"

fun Decode :: "byte list \<Rightarrow> 32 word list" where
  "Decode (b0 # b1 # b2 # b3 # input) =
     (ucast b0 OR push_bit 8 (ucast b1) OR push_bit 16 (ucast b2) OR push_bit 24 (ucast b3)) # Decode input"
| "Decode _ = []"

text \<open>\<open>memcpy\<close> to an offset of a buffer.\<close>

definition put :: "byte list \<Rightarrow> nat \<Rightarrow> byte list \<Rightarrow> byte list" where
  "put buf off bytes = take off buf @ bytes @ drop (off + length bytes) buf"

lemma length_put [simp]: "off + length bytes \<le> length buf \<Longrightarrow> length (put buf off bytes) = length buf"
  by (simp add: put_def)

lemma put_all: "length bytes = length buf - off \<Longrightarrow> off \<le> length buf \<Longrightarrow> put buf off bytes = take off buf @ bytes"
  by (simp add: put_def)

lemma take_put: "off \<le> length buf \<Longrightarrow> take (off + length bytes) (put buf off bytes) = take off buf @ bytes"
  by (simp add: put_def)

section \<open>Character set conversion by a table\<close>

record apr_xlate =
  sbcs_table :: "byte list option"

definition make_identity_table :: "byte list" where
  "make_identity_table = map word_of_nat [0..<256]"

definition apr_xlate_sb_get :: "apr_xlate \<Rightarrow> apr_status \<times> bool" where
  "apr_xlate_sb_get convset = (APR_SUCCESS, sbcs_table convset \<noteq> None)"

definition apr_xlate_conv_byte :: "apr_xlate \<Rightarrow> byte \<Rightarrow> byte option" where
  "apr_xlate_conv_byte convset inchar =
     (case sbcs_table convset of Some table \<Rightarrow> Some (table ! unat inchar) | None \<Rightarrow> None)"

text \<open>\<open>apr_xlate_conv_buffer\<close> with a table and as much room as input.\<close>

definition xlate_conv :: "byte list \<Rightarrow> byte list \<Rightarrow> byte list" where
  "xlate_conv table inbuf = map (\<lambda>b. table ! unat b) inbuf"

section \<open>The context and its operations\<close>

record md_ctx =
  md_state :: "32 word list"
  md_count0 :: "32 word"
  md_count1 :: "32 word"
  md_buffer :: "byte list"
  md_xlate :: "byte list option"

type_synonym transform = "32 word list \<Rightarrow> byte list \<Rightarrow> 32 word list"

definition md_init :: "32 word list \<Rightarrow> md_ctx \<Rightarrow> md_ctx" where
  "md_init magic context = context\<lparr>md_count0 := 0, md_count1 := 0, md_state := magic, md_xlate := None\<rparr>"

definition md_set_xlate :: "md_ctx \<Rightarrow> apr_xlate \<Rightarrow> apr_status \<times> md_ctx" where
  "md_set_xlate context xlate =
     (case apr_xlate_sb_get xlate of
        (rv, is_sb) \<Rightarrow>
          if rv \<noteq> APR_SUCCESS then (rv, context)
          else if \<not> is_sb then (APR_EINVAL, context)
          else (APR_SUCCESS, context\<lparr>md_xlate := sbcs_table xlate\<rparr>))"

text \<open>What is copied: the input, or its translation.\<close>

definition xlated :: "byte list option \<Rightarrow> bool \<Rightarrow> byte list \<Rightarrow> byte list" where
  "xlated table do_xlate input =
     (case table of Some t \<Rightarrow> if do_xlate then xlate_conv t input else input | None \<Rightarrow> input)"

text \<open>\<open>for (i = partLen; i + 63 < inputLen; i += 64)\<close> with \<open>unsigned int i\<close> and \<open>apr_size_t inputLen\<close>.\<close>

partial_function (option) md_blocks ::
  "transform \<Rightarrow> (byte list \<Rightarrow> byte list) \<Rightarrow> byte list \<Rightarrow> 32 word list \<Rightarrow> 32 word \<Rightarrow> (32 word list \<times> 32 word) option" where
  "md_blocks transform conv input state i =
     (if unat (i + 63) < length input
      then md_blocks transform conv input (transform state (conv (take 64 (drop (unat i) input)))) (i + 64)
      else Some (state, i))"

declare md_blocks.simps [code]

definition md_update :: "transform \<Rightarrow> md_ctx \<Rightarrow> byte list \<Rightarrow> bool \<Rightarrow> md_ctx option" where
  "md_update transform context input do_xlate =
     (let idx = unat (drop_bit 3 (md_count0 context) AND 0x3F);
          inputLen = (word_of_nat (length input) :: 32 word);
          count0 = md_count0 context + push_bit 3 inputLen;
          count1 = (if count0 < push_bit 3 inputLen then md_count1 context + 1 else md_count1 context);
          count1 = count1 + drop_bit 29 inputLen;
          context = context\<lparr>md_count0 := count0, md_count1 := count1\<rparr>;
          partLen = 64 - idx;
          conv = xlated (md_xlate context) do_xlate
      in if length input \<ge> partLen then
           let buffer = put (md_buffer context) idx (conv (take partLen input));
               state = transform (md_state context) buffer
           in case md_blocks transform conv input state (word_of_nat partLen) of
                None \<Rightarrow> None
              | Some (state, i) \<Rightarrow>
                  Some (context\<lparr>md_state := state, md_buffer := put buffer 0 (conv (drop (unat i) input))\<rparr>)
         else Some (context\<lparr>md_buffer := put (md_buffer context) idx (conv input)\<rparr>))"

definition PADDING :: "byte list" where
  "PADDING = 0x80 # replicate 63 0"

definition md_zero :: md_ctx where
  "md_zero = \<lparr>md_state = replicate 4 0, md_count0 = 0, md_count1 = 0, md_buffer = replicate 64 0, md_xlate = None\<rparr>"

text \<open>The digest and the context that is left.\<close>

definition md_final :: "transform \<Rightarrow> md_ctx \<Rightarrow> (byte list \<times> md_ctx) option" where
  "md_final transform context =
     (let bits = Encode [md_count0 context, md_count1 context];
          context = context\<lparr>md_xlate := None\<rparr>;
          idx = unat (drop_bit 3 (md_count0 context) AND 0x3f);
          padLen = (if idx < 56 then 56 - idx else 120 - idx)
      in case md_update transform context (take padLen PADDING) True of
           None \<Rightarrow> None
         | Some context \<Rightarrow>
             (case md_update transform context bits True of
                None \<Rightarrow> None
              | Some context \<Rightarrow> Some (Encode (md_state context), md_zero)))"

section \<open>The digest of a message\<close>

text \<open>
  The reference side, which uses nothing of the code above: words as four bytes and back by division and powers of 256, the
  least significant first, and the conversion of a message by the table of a handle.
\<close>

definition le_bytes :: "32 word list \<Rightarrow> byte list" where
  "le_bytes ws = concat (map (\<lambda>w. map (\<lambda>i. word_of_nat (unat w div 256 ^ i mod 256)) [0, 1, 2, 3]) ws)"

definition le_words :: "byte list \<Rightarrow> 32 word list" where
  "le_words bs = map (\<lambda>j. word_of_nat (\<Sum>i\<leftarrow>[0, 1, 2, 3]. unat (bs ! (4 * j + i)) * 256 ^ i)) [0..<length bs div 4]"

definition converted :: "byte list option \<Rightarrow> byte list \<Rightarrow> byte list" where
  "converted table bs = (case table of None \<Rightarrow> bs | Some t \<Rightarrow> map (\<lambda>b. t ! unat b) bs)"

text \<open>The state after the whole blocks of a message, and the padded message.\<close>

function process :: "transform \<Rightarrow> 32 word list \<Rightarrow> byte list \<Rightarrow> 32 word list" where
  "process transform state m =
     (if length m < 64 then state else process transform (transform state (take 64 m)) (drop 64 m))"
  by pat_completeness auto
termination
  by (relation "measure (\<lambda>(tr, s, m). length m)") auto

declare process.simps [simp del]

definition len_lo :: "nat \<Rightarrow> 32 word" where "len_lo n = word_of_nat (8 * n)"
definition len_hi :: "nat \<Rightarrow> 32 word" where "len_hi n = word_of_nat (8 * n div 2 ^ 32)"

definition pad_zeros :: "nat \<Rightarrow> byte list" where
  "pad_zeros n = 0x80 # replicate ((119 - n mod 64) mod 64) 0"

definition md_digest :: "transform \<Rightarrow> 32 word list \<Rightarrow> byte list \<Rightarrow> byte list" where
  "md_digest transform magic m =
     le_bytes (process transform magic (m @ pad_zeros (length m) @ le_bytes [len_lo (length m), len_hi (length m)]))"

subsection \<open>Words, bytes, rotations and conversions of the code\<close>

lemma rotate_rotl: "n < 32 \<Longrightarrow> push_bit n x OR drop_bit (32 - n) x = word_rotl n (x :: 32 word)"
proof (rule bit_word_eqI)
  fix k :: nat
  assume n: "n < 32" and "k < LENGTH(32)"
  then have k: "k < 32" by simp
  have b: "\<not> bit x j" if "32 \<le> j" for j using that bit_imp_le_length [of x j] by auto
  have "(k + (32 - n)) mod 32 = (if n \<le> k then k - n else 32 - n + k)"
    using n k by (auto simp: mod_if)
  then show "bit (push_bit n x OR drop_bit (32 - n) x) k = bit (word_rotl n x) k"
    using n k b by (cases "n \<le> k") (simp_all add: bit_simps)
qed

lemma byte_value: "(ucast (drop_bit (8 * i) w AND 0xff) :: byte) = word_of_nat (unat (w :: 32 word) div 256 ^ i mod 256)"
proof -
  have "(256 :: nat) = 2 ^ 8" by simp
  then have "256 ^ i = (2 :: nat) ^ (8 * i)" by (simp only: power_mult)
  then have v: "unat w div 256 ^ i mod 256 = unat (take_bit 8 (drop_bit (8 * i) w))"
    using unsigned_less [of w, where ?'a = nat]
    unfolding unsigned_take_bit_eq unsigned_drop_bit_eq by (simp add: take_bit_eq_mod drop_bit_eq_div)
  have "drop_bit (8 * i) w AND 0xff = take_bit 8 (drop_bit (8 * i) w)"
    by (simp add: take_bit_eq_mask mask_eq_exp_minus_1)
  then show ?thesis unfolding v by simp
qed

lemma Encode_le_bytes: "Encode ws = le_bytes ws"
proof (induction ws)
  case (Cons w ws)
  then show ?case
    using byte_value [of 0 w] byte_value [of 1 w] byte_value [of 2 w] byte_value [of 3 w]
    by (simp add: le_bytes_def)
qed (simp add: le_bytes_def)

lemma or_push: "take_bit k x = x \<Longrightarrow> x OR push_bit k y = x + push_bit k (y :: 'a :: len word)"
proof (rule disjunctive_add_eq_or [symmetric], rule bit_word_eqI)
  fix n :: nat
  assume x: "take_bit k x = x"
  then have "bit x n \<Longrightarrow> n < k" by (metis bit_take_bit_iff)
  then show "bit (x AND push_bit k y) n = bit (0 :: 'a word) n" by (auto simp: bit_simps)
qed

lemma take_bit_byte: "take_bit 8 (ucast (b :: byte)) = (ucast b :: 'a :: len word)"
  by (rule bit_word_eqI) (auto simp: bit_simps dest: bit_imp_le_length)

lemma word_value:
  "(ucast (b0 :: byte) OR push_bit 8 (ucast (b1 :: byte)) OR push_bit 16 (ucast (b2 :: byte)) OR push_bit 24 (ucast (b3 :: byte)) :: 32 word) =
    word_of_nat (unat b0 + (unat b1 * 256 + (unat b2 * 65536 + unat b3 * 16777216)))"
proof -
  have "ucast b0 OR push_bit 8 (ucast b1) OR push_bit 16 (ucast b2) OR push_bit 24 (ucast b3) =
      (ucast b0 OR push_bit 8 (ucast b1 OR push_bit 8 (ucast b2 OR push_bit 8 (ucast b3 :: 32 word))))"
    by (simp add: push_bit_or or.assoc)
  also have "\<dots> = ucast b0 + push_bit 8 (ucast b1 + push_bit 8 (ucast b2 + push_bit 8 (ucast b3)))"
    unfolding or_push [OF take_bit_byte] by (rule refl)
  finally show ?thesis
    by (simp add: push_bit_eq_mult algebra_simps)
qed

lemma Decode_le_words: "Decode bs = le_words bs"
proof (induction bs rule: Decode.induct)
  case (1 b0 b1 b2 b3 bs)
  have "length (b0 # b1 # b2 # b3 # bs) div 4 = Suc (length bs div 4)" by simp
  then show ?case
    using 1 word_value [of b0 b1 b2 b3]
    by (simp add: le_words_def upt_conv_Cons map_Suc_upt [symmetric] del: upt_Suc) (simp add: comp_def add.commute)
qed (simp_all add: le_words_def)

lemma ROTATE_LEFT_rotl: "n < 32 \<Longrightarrow> ROTATE_LEFT x n = word_rotl n x"
  unfolding ROTATE_LEFT_def by (rule rotate_rotl)

lemma xlated_converted: "xlated table True bs = converted table bs"
  by (simp add: xlated_def xlate_conv_def converted_def split: option.splits)

subsection \<open>Blocks\<close>

lemma process_short [simp]: "length m < 64 \<Longrightarrow> process tr s m = s"
  by (simp add: process.simps)

lemma process_block: "length m = 64 \<Longrightarrow> process tr s m = tr s m"
  by (simp add: process.simps [of tr s m])

lemma process_append:
  assumes "64 dvd length a"
  shows "process tr s (a @ b) = process tr (process tr s a) b"
  using assms
proof (induction tr s a rule: process.induct)
  case (1 tr s a)
  show ?case
  proof (cases "a = []")
    case False
    then have "64 \<le> length a" using "1.prems" by (auto dest: dvd_imp_le)
    moreover from this have "64 dvd length (drop 64 a)" using "1.prems" by (simp add: dvd_diff_nat)
    ultimately show ?thesis
      using "1.IH" process.simps [of tr s a] process.simps [of tr s "a @ b"] by simp
  qed simp
qed

subsection \<open>The count of bits\<close>

lemma unat_len_lo: "unat (len_lo n) = 8 * n mod 2 ^ 32"
  unfolding len_lo_def unsigned_of_nat take_bit_eq_mod by simp

lemma and_3F: "unat ((w :: 32 word) AND 0x3F) = unat w mod 64"
proof -
  have "w AND 0x3F = take_bit 6 w" by (simp add: take_bit_eq_mask mask_eq_exp_minus_1)
  then have "w AND 0x3F = w mod 64" by (simp add: take_bit_eq_mod)
  then show ?thesis by (simp add: unat_mod_distrib)
qed

lemma idx_len [simp]: "unat (drop_bit 3 (len_lo n) AND 0x3F) = n mod 64"
proof -
  have "8 * n mod 2 ^ 32 = 8 * (n mod 2 ^ 29)" by (simp add: mult_mod_right)
  then have "unat (drop_bit 3 (len_lo n)) = n mod 2 ^ 29"
    by (simp add: drop_bit_eq_div unat_div_distrib unat_len_lo)
  then show ?thesis unfolding and_3F by (simp add: mod_mod_cancel)
qed

lemma push_len: "push_bit 3 (word_of_nat k :: 32 word) = len_lo k"
  by (simp add: len_lo_def push_bit_eq_mult)

lemma drop_len:
  assumes "k < 2 ^ 32"
  shows "drop_bit 29 (word_of_nat k :: 32 word) = len_hi k"
proof -
  have "unat (word_of_nat k :: 32 word) = k"
    unfolding unsigned_of_nat using assms by (simp add: take_bit_nat_eq_self)
  then have "unat (drop_bit 29 (word_of_nat k :: 32 word)) = k div 2 ^ 29"
    by (simp add: drop_bit_eq_div unat_div_distrib)
  moreover have "8 * k div 2 ^ 32 = k div 2 ^ 29" by (simp add: div_mult2_eq [of _ 8 536870912, simplified])
  ultimately have "drop_bit 29 (word_of_nat k :: 32 word) = word_of_nat (8 * k div 2 ^ 32)" by (metis of_nat_unat ucast_id)
  then show ?thesis by (simp add: len_hi_def)
qed

lemma len_lo_add: "len_lo n + len_lo k = len_lo (n + k)"
  by (simp add: len_lo_def algebra_simps)

lemma sum_wraps:
  assumes "a < M" "b < (M :: nat)"
  shows "(a + b) mod M < b \<longleftrightarrow> M \<le> a + b" "(a + b) div M = (if M \<le> a + b then 1 else 0)"
proof -
  have "(a + b) mod M = (if M \<le> a + b then a + b - M else a + b)" using assms by (simp add: mod_if)
  then show "(a + b) mod M < b \<longleftrightarrow> M \<le> a + b" using assms by (simp split: if_splits)
  show "(a + b) div M = (if M \<le> a + b then 1 else 0)" using assms by (cases "M \<le> a + b") (simp_all add: div_if [of "a + b"])
qed

lemma len_hi_add:
  "(if len_lo (n + k) < len_lo k then len_hi n + 1 else len_hi n) + len_hi k = len_hi (n + k)"
proof -
  define M A B where "M = (2 :: nat) ^ 32" and "A = 8 * n" and "B = 8 * k"
  have M: "0 < M" by (simp add: M_def)
  have div: "(A + B) div M = A div M + B div M + (A mod M + B mod M) div M" by (rule div_add1_eq)
  have lt: "A mod M < M" "B mod M < M" using M by simp_all
  have "len_lo (n + k) < len_lo k \<longleftrightarrow> (A + B) mod M < B mod M"
    unfolding word_less_nat_alt unat_len_lo M_def A_def B_def by (simp only: distrib_left)
  also have "\<dots> \<longleftrightarrow> M \<le> A mod M + B mod M"
    using sum_wraps(1) [OF lt] unfolding mod_add_eq [of A M B] .
  finally have carry: "len_lo (n + k) < len_lo k \<longleftrightarrow> M \<le> A mod M + B mod M" .
  have "(A mod M + B mod M) div M = (if M \<le> A mod M + B mod M then 1 else 0)"
    using sum_wraps(2) [OF lt] .
  then have "(8 * (n + k)) div M = A div M + B div M + (if len_lo (n + k) < len_lo k then 1 else 0)"
    using div carry by (simp add: A_def B_def algebra_simps)
  then show ?thesis by (simp add: len_hi_def M_def A_def B_def)
qed

subsection \<open>Updates\<close>

lemma xlated_simps [simp]:
  "length (xlated t d xs) = length xs" "xlated t d (xs @ ys) = xlated t d xs @ xlated t d ys"
  "take n (xlated t d xs) = xlated t d (take n xs)" "drop n (xlated t d xs) = xlated t d (drop n xs)"
  "xlated None d xs = xs"
  by (simp_all add: xlated_def xlate_conv_def take_map drop_map split: option.splits)

lemma unat_plus_small: "unat i + k < 2 ^ 32 \<Longrightarrow> unat ((i :: 32 word) + word_of_nat k) = unat i + k"
  by (simp add: unat_word_ariths unsigned_of_nat take_bit_eq_mod)

text \<open>The loop on inputs of less than 4 gigabytes: all whole blocks from \<open>i\<close> on.\<close>

lemma md_blocks_ok:
  assumes "length input + 64 \<le> 2 ^ 32" "unat i \<le> length input"
  shows "md_blocks tr (xlated t d) input s i =
    Some (process tr s (xlated t d (drop (unat i) input)), word_of_nat (length input - (length input - unat i) mod 64))"
  using assms(2)
proof (induction "length input - unat i" arbitrary: i s rule: less_induct)
  case less
  have i63: "unat (i + 63) = unat i + 63" using unat_plus_small [of i 63] less.prems assms(1) by simp
  show ?case
  proof (cases "unat i + 63 < length input")
    case False
    then have "(length input - unat i) mod 64 = length input - unat i" by simp
    moreover have "word_of_nat (unat i) = i" by simp
    ultimately show ?thesis using False less.prems i63 by (subst md_blocks.simps) simp
  next
    case True
    have i64: "unat (i + 64) = unat i + 64" using unat_plus_small [of i 64] True assms(1) by simp
    have "process tr s (xlated t d (drop (unat i) input)) =
        process tr (tr s (xlated t d (take 64 (drop (unat i) input)))) (xlated t d (drop (unat (i + 64)) input))"
    proof -
      have "\<not> length (xlated t d (drop (unat i) input)) < 64" using True by simp
      then show ?thesis
        using i64 process.simps [of tr s "xlated t d (drop (unat i) input)"] by (simp add: add.commute)
    qed
    moreover have "(length input - unat (i + 64)) mod 64 = (length input - unat i) mod 64"
    proof -
      have "length input - unat i = 64 + (length input - unat (i + 64))" using True i64 by simp
      then show ?thesis by (metis mod_add_self1)
    qed
    ultimately show ?thesis
      using less.hyps [of "i + 64" "tr s (xlated t d (take 64 (drop (unat i) input)))"] True i63 i64
      by (subst md_blocks.simps) simp
  qed
qed

text \<open>The context after the message \<open>m\<close>.\<close>

definition md_rep :: "transform \<Rightarrow> 32 word list \<Rightarrow> md_ctx \<Rightarrow> byte list \<Rightarrow> bool" where
  "md_rep tr magic c m \<longleftrightarrow> length (md_buffer c) = 64 \<and> md_count0 c = len_lo (length m) \<and> md_count1 c = len_hi (length m) \<and>
     md_state c = process tr magic m \<and> take (length m mod 64) (md_buffer c) = drop (length m - length m mod 64) m"

lemma process_tail:
  "process tr s m = process tr s (take (length m - length m mod 64) m)"
proof -
  let ?k = "length m - length m mod 64"
  have "64 dvd ?k" by (rule dvd_minus_mod)
  moreover have "length (drop ?k m) < 64" by simp
  ultimately show ?thesis using process_append [of "take ?k m" tr s "drop ?k m"] by simp
qed

lemma process_more: "process tr s (m @ xs) = process tr (process tr s m) (drop (length m - length m mod 64) m @ xs)"
proof -
  let ?k = "length m - length m mod 64"
  have "64 dvd ?k" by (rule dvd_minus_mod)
  moreover have "length (take ?k m) = ?k" by simp
  ultimately have "64 dvd length (take ?k m)" by simp
  from process_append [OF this, of tr s "drop ?k m @ xs"]
  have "process tr s ((take ?k m @ drop ?k m) @ xs) = process tr (process tr s m) (drop ?k m @ xs)"
    unfolding append_assoc by (simp only: process_tail [of tr s m, symmetric])
  then show ?thesis by simp
qed

lemma counted_fields:
  "md_xlate (c\<lparr>md_count0 := a, md_count1 := b\<rparr>) = md_xlate c" "md_state (c\<lparr>md_count0 := a, md_count1 := b\<rparr>) = md_state c"
  "md_buffer (c\<lparr>md_count0 := a, md_count1 := b\<rparr>) = md_buffer c"
  by simp_all

lemma md_update_rep:
  assumes rep: "md_rep tr magic c m" and short: "length xs + 64 \<le> 2 ^ 32"
  shows "\<exists>c'. md_update tr c xs d = Some c' \<and> md_rep tr magic c' (m @ xlated (md_xlate c) d xs) \<and> md_xlate c' = md_xlate c"
proof -
  let ?x = "xlated (md_xlate c) d" and ?L = "length m"
  let ?p = "?L mod 64" and ?n = "length xs"
  define pend where "pend = drop (?L - ?p) m"
  have buf: "length (md_buffer c) = 64" "take ?p (md_buffer c) = pend" using rep by (simp_all add: md_rep_def pend_def)
  have pend: "length pend = ?p" by (simp add: pend_def)
  have p: "?p < 64" by simp
  have n: "?n < 2 ^ 32" using short by simp
  have lo: "md_count0 c + push_bit 3 (word_of_nat ?n) = len_lo (?L + ?n)"
    using rep by (simp add: md_rep_def push_len len_lo_add)
  have hi: "(if len_lo (?L + ?n) < push_bit 3 (word_of_nat ?n) then md_count1 c + 1 else md_count1 c) + drop_bit 29 (word_of_nat ?n) =
      len_hi (?L + ?n)"
    using rep len_hi_add [of ?L ?n] unfolding push_len drop_len [OF n] by (simp add: md_rep_def split: if_splits)
  have idx: "unat (drop_bit 3 (md_count0 c) AND 0x3F) = ?p" using rep by (simp add: md_rep_def)
  note more = process_more [of tr magic m "?x xs", folded pend_def]
  show ?thesis
  proof (cases "64 - ?p \<le> ?n")
    case True
    let ?k = "64 - ?p"
    let ?rest = "drop ?k xs"
    define r where "r = length ?rest mod 64"
    define buf1 where "buf1 = put (md_buffer c) ?p (?x (take ?k xs))"
    have block: "buf1 = pend @ ?x (take ?k xs)" "length buf1 = 64"
      using buf p True pend by (simp_all add: buf1_def put_all)
    have k: "unat (word_of_nat ?k :: 32 word) = ?k" unfolding unsigned_of_nat by (simp add: take_bit_nat_eq_self)
    have loop: "md_blocks tr ?x xs (tr (md_state c) buf1) (word_of_nat ?k) =
        Some (process tr (tr (md_state c) buf1) (?x ?rest), word_of_nat (?n - r))"
      using md_blocks_ok [OF short, of "word_of_nat ?k"] True unfolding k r_def by simp
    have i: "unat (word_of_nat (?n - r) :: 32 word) = ?n - r"
      unfolding unsigned_of_nat using n by (simp add: take_bit_nat_eq_self)
    let ?buf = "put buf1 0 (?x (drop (?n - r) xs))"
    let ?c = "c\<lparr>md_count0 := len_lo (?L + ?n), md_count1 := len_hi (?L + ?n),
      md_state := process tr (tr (md_state c) buf1) (?x ?rest), md_buffer := ?buf\<rparr>"
    have run: "md_update tr c xs d = Some ?c"
      unfolding md_update_def Let_def idx lo hi if_P [OF True]
      by (simp only: counted_fields buf1_def [symmetric] loop option.case prod.case i)
    have "process tr magic (m @ ?x xs) = process tr (md_state c) (buf1 @ ?x ?rest)"
      using more rep unfolding block(1) md_rep_def by (simp flip: xlated_simps(2))
    also have "\<dots> = process tr (tr (md_state c) buf1) (?x ?rest)"
      using process_append [of buf1 tr "md_state c"] block(2) by (simp add: process_block)
    finally have state: "process tr magic (m @ ?x xs) = process tr (tr (md_state c) buf1) (?x ?rest)" .
    have mod_r: "(?L + ?n) mod 64 = r"
    proof -
      have "?L + ?n = 64 * (?L div 64) + (?p + ?n)" by simp
      also have "?p + ?n = 64 + length ?rest" using True p by simp
      finally have "?L + ?n = 64 * Suc (?L div 64) + length ?rest" by simp
      then show ?thesis unfolding r_def by (metis mod_mult_self4)
    qed
    have r64: "r \<le> 64" unfolding r_def by (simp add: less_imp_le)
    have "r \<le> length ?rest" unfolding r_def by (rule mod_less_eq_dividend)
    then have rn: "r \<le> ?n" "length (drop (?n - r) xs) = r" by simp_all
    have "length ?buf = 64" using block(2) rn(2) r64 by (intro trans [OF length_put]) simp_all
    moreover have "take r ?buf = ?x (drop (?n - r) xs)" using take_put [of 0 buf1 "?x (drop (?n - r) xs)"] rn(2) by simp
    moreover have "drop (?L + ?n - r) (m @ ?x xs) = ?x (drop (?n - r) xs)" using rn(1) by simp
    ultimately have "md_rep tr magic ?c (m @ ?x xs)"
      unfolding md_rep_def using state mod_r by simp
    then show ?thesis using run by auto
  next
    case False
    let ?buf = "put (md_buffer c) ?p (?x xs)"
    let ?c = "c\<lparr>md_count0 := len_lo (?L + ?n), md_count1 := len_hi (?L + ?n), md_buffer := ?buf\<rparr>"
    have run: "md_update tr c xs d = Some ?c"
      using False unfolding md_update_def Let_def idx by (simp add: lo hi)
    have r: "(?L + ?n) mod 64 = ?p + ?n" using False by (metis add.commute less_diff_conv mod_add_right_eq mod_less not_le)
    have "process tr magic (m @ ?x xs) = md_state c"
      using more rep False pend by (simp add: md_rep_def)
    moreover have "take (?p + ?n) ?buf = pend @ ?x xs" using take_put [of ?p "md_buffer c" "?x xs"] buf p by simp
    moreover have "drop (?L + ?n - (?p + ?n)) (m @ ?x xs) = pend @ ?x xs" by (simp add: pend_def)
    ultimately have "md_rep tr magic ?c (m @ ?x xs)"
      using r buf False by (simp add: md_rep_def)
    then show ?thesis using run by auto
  qed
qed

subsection \<open>The end of a digest\<close>

lemma take_PADDING_aux:
  assumes "p < 64"
  shows "take (if p < 56 then 56 - p else 120 - p) PADDING = 0x80 # replicate ((119 - p) mod 64) 0"
proof (cases "p < 56")
  case True
  then have "119 - p = 64 + (55 - p)" "56 - p = Suc (55 - p)" by simp_all
  moreover from this have "(119 - p) mod 64 = (55 - p) mod 64" by (metis mod_add_self1)
  ultimately show ?thesis using True by (simp add: PADDING_def)
next
  case False
  then have "120 - p = Suc (119 - p)" "119 - p \<le> 63" using assms by simp_all
  then show ?thesis using False by (simp add: PADDING_def)
qed

lemma take_PADDING: "take (if n mod 64 < 56 then 56 - n mod 64 else 120 - n mod 64) PADDING = pad_zeros n"
  unfolding pad_zeros_def by (rule take_PADDING_aux) simp

lemma length_Encode [simp]: "length (Encode ws) = 4 * length ws"
  by (induction ws rule: Encode.induct) simp_all

lemma md_final_rep:
  assumes "md_rep tr magic c m"
  shows "md_final tr c = Some (md_digest tr magic m, md_zero)"
proof -
  let ?c = "c\<lparr>md_xlate := None\<rparr>"
  let ?bits = "Encode [len_lo (length m), len_hi (length m)]"
  have c: "md_rep tr magic ?c m" "md_xlate ?c = None" using assms by (simp_all add: md_rep_def)
  have counts: "md_count0 c = len_lo (length m)" "md_count1 c = len_hi (length m)" using assms by (simp_all add: md_rep_def)
  have "(119 - length m mod 64) mod 64 < 64" by simp
  then have "length (pad_zeros (length m)) + 64 \<le> 2 ^ 32" by (simp add: pad_zeros_def)
  from md_update_rep [OF c(1) this, of True]
  obtain c1 where c1: "md_update tr ?c (pad_zeros (length m)) True = Some c1" "md_rep tr magic c1 (m @ pad_zeros (length m))"
    "md_xlate c1 = None" using c(2) by auto
  have "length ?bits + 64 \<le> 2 ^ 32" by simp
  from md_update_rep [OF c1(2) this, of True]
  obtain c2 where c2: "md_update tr c1 ?bits True = Some c2" "md_rep tr magic c2 ((m @ pad_zeros (length m)) @ ?bits)"
    using c1(3) by auto
  have fields: "md_count0 ?c = md_count0 c" "md_count1 ?c = md_count1 c" by simp_all
  have "Encode (md_state c2) = md_digest tr magic m"
    using c2(2) by (simp add: md_rep_def md_digest_def Encode_le_bytes)
  then show ?thesis
    unfolding md_final_def Let_def fields counts idx_len take_PADDING by (simp only: c1(1) c2(1) option.case)
qed

lemma md_init_rep: "length (md_buffer c) = 64 \<Longrightarrow> md_rep tr magic (md_init magic c) []"
  by (simp add: md_rep_def md_init_def len_lo_def len_hi_def)

section \<open>Inputs of four gigabytes\<close>

text \<open>The 32-bit index never reaches the length of such an input.\<close>

lemma md_blocks_stuck:
  assumes "md_blocks tr conv input s i = Some r"
  shows "length input < 2 ^ 32"
  using assms
proof (induction tr conv input s i r rule: md_blocks.raw_induct [rotated, consumes 1, case_names step])
  case (step blocks tr conv input s i r)
  show ?case
  proof (cases "unat (i + 63) < length input")
    case True
    then show ?thesis using step.hyps step.IH by auto
  next
    case False
    then show ?thesis using unsigned_less [of "i + 63", where ?'a = nat] by simp
  qed
qed

lemma md_update_stuck:
  assumes "2 ^ 32 \<le> length input"
  shows "md_update tr c input d = None"
proof -
  have "md_blocks tr conv input s i = None" for conv s i
    using md_blocks_stuck [of tr conv input s i] assms by (cases "md_blocks tr conv input s i") auto
  moreover have "64 - unat (drop_bit 3 (md_count0 c) AND 0x3F) \<le> length input" using assms by simp
  ultimately show ?thesis by (simp add: md_update_def Let_def)
qed

section \<open>The interface of a digest\<close>

text \<open>Updates in a row, and the digest.\<close>

fun digest_chunks :: "('c \<Rightarrow> byte list \<Rightarrow> 'c option) \<Rightarrow> ('c \<Rightarrow> byte list option) \<Rightarrow> 'c \<Rightarrow> byte list list \<Rightarrow> byte list option" where
  "digest_chunks update final c [] = final c"
| "digest_chunks update final c (xs # xss) =
     (case update c xs of None \<Rightarrow> None | Some c \<Rightarrow> digest_chunks update final c xss)"

locale digest_stream =
  fixes rep :: "'c \<Rightarrow> byte list \<Rightarrow> bool"
    and update :: "'c \<Rightarrow> byte list \<Rightarrow> 'c option"
    and final :: "'c \<Rightarrow> byte list option"
    and digest :: "byte list \<Rightarrow> byte list"
    and view :: "byte list \<Rightarrow> byte list"
    and short :: "byte list \<Rightarrow> bool"
  assumes update_rep: "rep c m \<Longrightarrow> short xs \<Longrightarrow> \<exists>c'. update c xs = Some c' \<and> rep c' (m @ view xs)"
    and final_rep: "rep c m \<Longrightarrow> final c = Some (digest m)"
begin

lemma chunks:
  "rep c m \<Longrightarrow> list_all short xss \<Longrightarrow> digest_chunks update final c xss = Some (digest (m @ concat (map view xss)))"
proof (induction xss arbitrary: c m)
  case Nil
  then show ?case by (simp add: final_rep)
next
  case (Cons xs xss)
  then obtain c' where "update c xs = Some c'" "rep c' (m @ view xs)" using update_rep by fastforce
  then show ?case using Cons.IH Cons.prems(2) by simp
qed

text \<open>The same message in other pieces has the same digest.\<close>

lemma chunks_same:
  assumes "rep c []" "rep c' []" "list_all short xss" "list_all short yss" "concat (map view xss) = concat (map view yss)"
  shows "digest_chunks update final c xss = digest_chunks update final c' yss"
  using chunks [OF assms(1,3)] chunks [OF assms(2,4)] assms(5) by simp

end

text \<open>Any digest of the MD family, with or without a translation of its input.\<close>

definition md_short :: "byte list \<Rightarrow> bool" where
  "md_short xs \<longleftrightarrow> length xs + 64 \<le> 2 ^ 32"

interpretation md: digest_stream
  "\<lambda>c m. md_rep tr magic c m \<and> md_xlate c = t" "\<lambda>c xs. md_update tr c xs True" "\<lambda>c. map_option fst (md_final tr c)"
  "md_digest tr magic" "xlated t True" md_short
  for tr magic t
proof
  fix c m xs
  assume "md_rep tr magic c m \<and> md_xlate c = t" "md_short xs"
  then show "\<exists>c'. md_update tr c xs True = Some c' \<and> md_rep tr magic c' (m @ xlated t True xs) \<and> md_xlate c' = t"
    using md_update_rep [of tr magic c m xs True] by (auto simp: md_short_def)
qed (auto simp: md_final_rep)

end
