(* ===== verification/Apu_Md5.thy ===== *)
theory Apu_Md5
  imports Apu_Digest
begin

unbundle bit_operations_syntax

text \<open>
  MD5 (\<open>srclib/apr-util/crypto/apr_md5.c\<close>): the transformation, against the loop of RFC 1321, and the digest in
  pieces. The context and its update are those of \<open>Apu_Digest\<close>.
\<close>

section \<open>The transformation\<close>

definition md5_S11 :: nat where "md5_S11 = 7"
definition md5_S12 :: nat where "md5_S12 = 12"
definition md5_S13 :: nat where "md5_S13 = 17"
definition md5_S14 :: nat where "md5_S14 = 22"
definition md5_S21 :: nat where "md5_S21 = 5"
definition md5_S22 :: nat where "md5_S22 = 9"
definition md5_S23 :: nat where "md5_S23 = 14"
definition md5_S24 :: nat where "md5_S24 = 20"
definition md5_S31 :: nat where "md5_S31 = 4"
definition md5_S32 :: nat where "md5_S32 = 11"
definition md5_S33 :: nat where "md5_S33 = 16"
definition md5_S34 :: nat where "md5_S34 = 23"
definition md5_S41 :: nat where "md5_S41 = 6"
definition md5_S42 :: nat where "md5_S42 = 10"
definition md5_S43 :: nat where "md5_S43 = 15"
definition md5_S44 :: nat where "md5_S44 = 21"

definition md5_F :: "32 word \<Rightarrow> 32 word \<Rightarrow> 32 word \<Rightarrow> 32 word" where "md5_F x y z = ((x AND y) OR ((NOT x) AND z))"
definition md5_G :: "32 word \<Rightarrow> 32 word \<Rightarrow> 32 word \<Rightarrow> 32 word" where "md5_G x y z = ((x AND z) OR (y AND (NOT z)))"
definition md5_H :: "32 word \<Rightarrow> 32 word \<Rightarrow> 32 word \<Rightarrow> 32 word" where "md5_H x y z = (x XOR y XOR z)"
definition md5_I :: "32 word \<Rightarrow> 32 word \<Rightarrow> 32 word \<Rightarrow> 32 word" where "md5_I x y z = (y XOR (x OR (NOT z)))"

text \<open>The macros of the rounds: what they assign to their first argument.\<close>

definition md5_FF :: "32 word \<Rightarrow> 32 word \<Rightarrow> 32 word \<Rightarrow> 32 word \<Rightarrow> 32 word \<Rightarrow> nat \<Rightarrow> 32 word \<Rightarrow> 32 word" where
  "md5_FF a b c d x s ac =
     (let a = a + (md5_F b c d + x + ac);
          a = ROTATE_LEFT a s
      in a + b)"

definition md5_GG :: "32 word \<Rightarrow> 32 word \<Rightarrow> 32 word \<Rightarrow> 32 word \<Rightarrow> 32 word \<Rightarrow> nat \<Rightarrow> 32 word \<Rightarrow> 32 word" where
  "md5_GG a b c d x s ac =
     (let a = a + (md5_G b c d + x + ac);
          a = ROTATE_LEFT a s
      in a + b)"

definition md5_HH :: "32 word \<Rightarrow> 32 word \<Rightarrow> 32 word \<Rightarrow> 32 word \<Rightarrow> 32 word \<Rightarrow> nat \<Rightarrow> 32 word \<Rightarrow> 32 word" where
  "md5_HH a b c d x s ac =
     (let a = a + (md5_H b c d + x + ac);
          a = ROTATE_LEFT a s
      in a + b)"

definition md5_II :: "32 word \<Rightarrow> 32 word \<Rightarrow> 32 word \<Rightarrow> 32 word \<Rightarrow> 32 word \<Rightarrow> nat \<Rightarrow> 32 word \<Rightarrow> 32 word" where
  "md5_II a b c d x s ac =
     (let a = a + (md5_I b c d + x + ac);
          a = ROTATE_LEFT a s
      in a + b)"

definition MD5Transform :: transform where
  "MD5Transform state block =
     (let a = state ! 0; b = state ! 1; c = state ! 2; d = state ! 3;
          x = Decode block;
          a = md5_FF a b c d (x ! 0) md5_S11 0xd76aa478;
          d = md5_FF d a b c (x ! 1) md5_S12 0xe8c7b756;
          c = md5_FF c d a b (x ! 2) md5_S13 0x242070db;
          b = md5_FF b c d a (x ! 3) md5_S14 0xc1bdceee;
          a = md5_FF a b c d (x ! 4) md5_S11 0xf57c0faf;
          d = md5_FF d a b c (x ! 5) md5_S12 0x4787c62a;
          c = md5_FF c d a b (x ! 6) md5_S13 0xa8304613;
          b = md5_FF b c d a (x ! 7) md5_S14 0xfd469501;
          a = md5_FF a b c d (x ! 8) md5_S11 0x698098d8;
          d = md5_FF d a b c (x ! 9) md5_S12 0x8b44f7af;
          c = md5_FF c d a b (x ! 10) md5_S13 0xffff5bb1;
          b = md5_FF b c d a (x ! 11) md5_S14 0x895cd7be;
          a = md5_FF a b c d (x ! 12) md5_S11 0x6b901122;
          d = md5_FF d a b c (x ! 13) md5_S12 0xfd987193;
          c = md5_FF c d a b (x ! 14) md5_S13 0xa679438e;
          b = md5_FF b c d a (x ! 15) md5_S14 0x49b40821;
          a = md5_GG a b c d (x ! 1) md5_S21 0xf61e2562;
          d = md5_GG d a b c (x ! 6) md5_S22 0xc040b340;
          c = md5_GG c d a b (x ! 11) md5_S23 0x265e5a51;
          b = md5_GG b c d a (x ! 0) md5_S24 0xe9b6c7aa;
          a = md5_GG a b c d (x ! 5) md5_S21 0xd62f105d;
          d = md5_GG d a b c (x ! 10) md5_S22 0x2441453;
          c = md5_GG c d a b (x ! 15) md5_S23 0xd8a1e681;
          b = md5_GG b c d a (x ! 4) md5_S24 0xe7d3fbc8;
          a = md5_GG a b c d (x ! 9) md5_S21 0x21e1cde6;
          d = md5_GG d a b c (x ! 14) md5_S22 0xc33707d6;
          c = md5_GG c d a b (x ! 3) md5_S23 0xf4d50d87;
          b = md5_GG b c d a (x ! 8) md5_S24 0x455a14ed;
          a = md5_GG a b c d (x ! 13) md5_S21 0xa9e3e905;
          d = md5_GG d a b c (x ! 2) md5_S22 0xfcefa3f8;
          c = md5_GG c d a b (x ! 7) md5_S23 0x676f02d9;
          b = md5_GG b c d a (x ! 12) md5_S24 0x8d2a4c8a;
          a = md5_HH a b c d (x ! 5) md5_S31 0xfffa3942;
          d = md5_HH d a b c (x ! 8) md5_S32 0x8771f681;
          c = md5_HH c d a b (x ! 11) md5_S33 0x6d9d6122;
          b = md5_HH b c d a (x ! 14) md5_S34 0xfde5380c;
          a = md5_HH a b c d (x ! 1) md5_S31 0xa4beea44;
          d = md5_HH d a b c (x ! 4) md5_S32 0x4bdecfa9;
          c = md5_HH c d a b (x ! 7) md5_S33 0xf6bb4b60;
          b = md5_HH b c d a (x ! 10) md5_S34 0xbebfbc70;
          a = md5_HH a b c d (x ! 13) md5_S31 0x289b7ec6;
          d = md5_HH d a b c (x ! 0) md5_S32 0xeaa127fa;
          c = md5_HH c d a b (x ! 3) md5_S33 0xd4ef3085;
          b = md5_HH b c d a (x ! 6) md5_S34 0x4881d05;
          a = md5_HH a b c d (x ! 9) md5_S31 0xd9d4d039;
          d = md5_HH d a b c (x ! 12) md5_S32 0xe6db99e5;
          c = md5_HH c d a b (x ! 15) md5_S33 0x1fa27cf8;
          b = md5_HH b c d a (x ! 2) md5_S34 0xc4ac5665;
          a = md5_II a b c d (x ! 0) md5_S41 0xf4292244;
          d = md5_II d a b c (x ! 7) md5_S42 0x432aff97;
          c = md5_II c d a b (x ! 14) md5_S43 0xab9423a7;
          b = md5_II b c d a (x ! 5) md5_S44 0xfc93a039;
          a = md5_II a b c d (x ! 12) md5_S41 0x655b59c3;
          d = md5_II d a b c (x ! 3) md5_S42 0x8f0ccc92;
          c = md5_II c d a b (x ! 10) md5_S43 0xffeff47d;
          b = md5_II b c d a (x ! 1) md5_S44 0x85845dd1;
          a = md5_II a b c d (x ! 8) md5_S41 0x6fa87e4f;
          d = md5_II d a b c (x ! 15) md5_S42 0xfe2ce6e0;
          c = md5_II c d a b (x ! 6) md5_S43 0xa3014314;
          b = md5_II b c d a (x ! 13) md5_S44 0x4e0811a1;
          a = md5_II a b c d (x ! 4) md5_S41 0xf7537e82;
          d = md5_II d a b c (x ! 11) md5_S42 0xbd3af235;
          c = md5_II c d a b (x ! 2) md5_S43 0x2ad7d2bb;
          b = md5_II b c d a (x ! 9) md5_S44 0xeb86d391
      in [state ! 0 + a, state ! 1 + b, state ! 2 + c, state ! 3 + d])"

section \<open>The loop of RFC 1321\<close>

text \<open>Nothing of the code above is used here: the table of sines, the words and rotations of the steps, and the registers moved on by one in each step.\<close>

definition md5_T :: "32 word list" where
  "md5_T =
     [0xd76aa478, 0xe8c7b756, 0x242070db, 0xc1bdceee,
      0xf57c0faf, 0x4787c62a, 0xa8304613, 0xfd469501,
      0x698098d8, 0x8b44f7af, 0xffff5bb1, 0x895cd7be,
      0x6b901122, 0xfd987193, 0xa679438e, 0x49b40821,
      0xf61e2562, 0xc040b340, 0x265e5a51, 0xe9b6c7aa,
      0xd62f105d, 0x2441453, 0xd8a1e681, 0xe7d3fbc8,
      0x21e1cde6, 0xc33707d6, 0xf4d50d87, 0x455a14ed,
      0xa9e3e905, 0xfcefa3f8, 0x676f02d9, 0x8d2a4c8a,
      0xfffa3942, 0x8771f681, 0x6d9d6122, 0xfde5380c,
      0xa4beea44, 0x4bdecfa9, 0xf6bb4b60, 0xbebfbc70,
      0x289b7ec6, 0xeaa127fa, 0xd4ef3085, 0x4881d05,
      0xd9d4d039, 0xe6db99e5, 0x1fa27cf8, 0xc4ac5665,
      0xf4292244, 0x432aff97, 0xab9423a7, 0xfc93a039,
      0x655b59c3, 0x8f0ccc92, 0xffeff47d, 0x85845dd1,
      0x6fa87e4f, 0xfe2ce6e0, 0xa3014314, 0x4e0811a1,
      0xf7537e82, 0xbd3af235, 0x2ad7d2bb, 0xeb86d391]"

definition md5_word :: "nat \<Rightarrow> nat" where
  "md5_word i = (if i < 16 then i else if i < 32 then (5 * i + 1) mod 16 else if i < 48 then (3 * i + 5) mod 16 else (7 * i) mod 16)"

definition md5_shift :: "nat \<Rightarrow> nat" where
  "md5_shift i = [[7, 12, 17, 22], [5, 9, 14, 20], [4, 11, 16, 23], [6, 10, 15, 21]] ! (i div 16) ! (i mod 4)"

definition md5_mix :: "nat \<Rightarrow> 32 word \<Rightarrow> 32 word \<Rightarrow> 32 word \<Rightarrow> 32 word" where
  "md5_mix i x y z =
     (if i < 16 then (x AND y) OR (NOT x AND z) else if i < 32 then (x AND z) OR (y AND NOT z)
      else if i < 48 then x XOR y XOR z else y XOR (x OR NOT z))"

definition md5_step :: "32 word list \<Rightarrow> 32 word \<times> 32 word \<times> 32 word \<times> 32 word \<Rightarrow> nat \<Rightarrow> 32 word \<times> 32 word \<times> 32 word \<times> 32 word" where
  "md5_step x abcd i =
     (case abcd of (a, b, c, d) \<Rightarrow>
        (d, b + word_rotl (md5_shift i) (a + md5_mix i b c d + x ! md5_word i + md5_T ! i), b, c))"

definition md5_rfc :: transform where
  "md5_rfc state block =
     (case foldl (md5_step (le_words block)) (state ! 0, state ! 1, state ! 2, state ! 3) [0..<64] of
        (a, b, c, d) \<Rightarrow> [state ! 0 + a, state ! 1 + b, state ! 2 + c, state ! 3 + d])"

text \<open>Each macro is a step of the loop.\<close>

lemma md5_steps:
  "md5_FF a b c d x s ac = b + ROTATE_LEFT (a + md5_F b c d + x + ac) s"
  "md5_GG a b c d x s ac = b + ROTATE_LEFT (a + md5_G b c d + x + ac) s"
  "md5_HH a b c d x s ac = b + ROTATE_LEFT (a + md5_H b c d + x + ac) s"
  "md5_II a b c d x s ac = b + ROTATE_LEFT (a + md5_I b c d + x + ac) s"
  by (simp_all add: md5_FF_def md5_GG_def md5_HH_def md5_II_def add_ac Let_def)

lemma foldl_let: "foldl f (let v = e in g v) is = (let v = e in foldl f (g v) is)"
  by (simp add: Let_def)

lemma md5_step_let: "md5_step x (let v = e in g v) i = (let v = e in md5_step x (g v) i)"
  by (simp add: Let_def)

lemma case_let: "(case (let v = e in g v) of (a, b, c, d) \<Rightarrow> h a b c d) = (let v = e in case g v of (a, b, c, d) \<Rightarrow> h a b c d)"
  by (simp add: Let_def)

lemma upt_64: "[0..<64] = [0, 1, 2, 3, 4, 5, 6, 7, 8, 9, 10, 11, 12, 13, 14, 15, 16, 17, 18, 19, 20, 21, 22, 23, 24, 25, 26, 27, 28, 29,
   30, 31, 32, 33, 34, 35, 36, 37, 38, 39, 40, 41, 42, 43, 44, 45, 46, 47, 48, 49, 50, 51, 52, 53, 54, 55, 56, 57, 58, 59, 60, 61, 62, 63]"
  by (simp add: upt_rec)

lemmas md5_tables = md5_word_def md5_shift_def md5_mix_def md5_T_def md5_S11_def md5_S12_def md5_S13_def md5_S14_def
  md5_S21_def md5_S22_def md5_S23_def md5_S24_def md5_S31_def md5_S32_def md5_S33_def md5_S34_def md5_S41_def md5_S42_def
  md5_S43_def md5_S44_def

lemmas md5_functions = md5_F_def md5_G_def md5_H_def md5_I_def ROTATE_LEFT_rotl

text \<open>The macro, the word, the rotation and the constant of every step.\<close>

lemma md5_step_values:
  "md5_step x (a, b, c, d) 0 = (let r = md5_FF a b c d (x ! 0) md5_S11 0xd76aa478 in (d, r, b, c))"
  "md5_step x (a, b, c, d) 1 = (let r = md5_FF a b c d (x ! 1) md5_S12 0xe8c7b756 in (d, r, b, c))"
  "md5_step x (a, b, c, d) 2 = (let r = md5_FF a b c d (x ! 2) md5_S13 0x242070db in (d, r, b, c))"
  "md5_step x (a, b, c, d) 3 = (let r = md5_FF a b c d (x ! 3) md5_S14 0xc1bdceee in (d, r, b, c))"
  "md5_step x (a, b, c, d) 4 = (let r = md5_FF a b c d (x ! 4) md5_S11 0xf57c0faf in (d, r, b, c))"
  "md5_step x (a, b, c, d) 5 = (let r = md5_FF a b c d (x ! 5) md5_S12 0x4787c62a in (d, r, b, c))"
  "md5_step x (a, b, c, d) 6 = (let r = md5_FF a b c d (x ! 6) md5_S13 0xa8304613 in (d, r, b, c))"
  "md5_step x (a, b, c, d) 7 = (let r = md5_FF a b c d (x ! 7) md5_S14 0xfd469501 in (d, r, b, c))"
  "md5_step x (a, b, c, d) 8 = (let r = md5_FF a b c d (x ! 8) md5_S11 0x698098d8 in (d, r, b, c))"
  "md5_step x (a, b, c, d) 9 = (let r = md5_FF a b c d (x ! 9) md5_S12 0x8b44f7af in (d, r, b, c))"
  "md5_step x (a, b, c, d) 10 = (let r = md5_FF a b c d (x ! 10) md5_S13 0xffff5bb1 in (d, r, b, c))"
  "md5_step x (a, b, c, d) 11 = (let r = md5_FF a b c d (x ! 11) md5_S14 0x895cd7be in (d, r, b, c))"
  "md5_step x (a, b, c, d) 12 = (let r = md5_FF a b c d (x ! 12) md5_S11 0x6b901122 in (d, r, b, c))"
  "md5_step x (a, b, c, d) 13 = (let r = md5_FF a b c d (x ! 13) md5_S12 0xfd987193 in (d, r, b, c))"
  "md5_step x (a, b, c, d) 14 = (let r = md5_FF a b c d (x ! 14) md5_S13 0xa679438e in (d, r, b, c))"
  "md5_step x (a, b, c, d) 15 = (let r = md5_FF a b c d (x ! 15) md5_S14 0x49b40821 in (d, r, b, c))"
  "md5_step x (a, b, c, d) 16 = (let r = md5_GG a b c d (x ! 1) md5_S21 0xf61e2562 in (d, r, b, c))"
  "md5_step x (a, b, c, d) 17 = (let r = md5_GG a b c d (x ! 6) md5_S22 0xc040b340 in (d, r, b, c))"
  "md5_step x (a, b, c, d) 18 = (let r = md5_GG a b c d (x ! 11) md5_S23 0x265e5a51 in (d, r, b, c))"
  "md5_step x (a, b, c, d) 19 = (let r = md5_GG a b c d (x ! 0) md5_S24 0xe9b6c7aa in (d, r, b, c))"
  "md5_step x (a, b, c, d) 20 = (let r = md5_GG a b c d (x ! 5) md5_S21 0xd62f105d in (d, r, b, c))"
  "md5_step x (a, b, c, d) 21 = (let r = md5_GG a b c d (x ! 10) md5_S22 0x2441453 in (d, r, b, c))"
  "md5_step x (a, b, c, d) 22 = (let r = md5_GG a b c d (x ! 15) md5_S23 0xd8a1e681 in (d, r, b, c))"
  "md5_step x (a, b, c, d) 23 = (let r = md5_GG a b c d (x ! 4) md5_S24 0xe7d3fbc8 in (d, r, b, c))"
  "md5_step x (a, b, c, d) 24 = (let r = md5_GG a b c d (x ! 9) md5_S21 0x21e1cde6 in (d, r, b, c))"
  "md5_step x (a, b, c, d) 25 = (let r = md5_GG a b c d (x ! 14) md5_S22 0xc33707d6 in (d, r, b, c))"
  "md5_step x (a, b, c, d) 26 = (let r = md5_GG a b c d (x ! 3) md5_S23 0xf4d50d87 in (d, r, b, c))"
  "md5_step x (a, b, c, d) 27 = (let r = md5_GG a b c d (x ! 8) md5_S24 0x455a14ed in (d, r, b, c))"
  "md5_step x (a, b, c, d) 28 = (let r = md5_GG a b c d (x ! 13) md5_S21 0xa9e3e905 in (d, r, b, c))"
  "md5_step x (a, b, c, d) 29 = (let r = md5_GG a b c d (x ! 2) md5_S22 0xfcefa3f8 in (d, r, b, c))"
  "md5_step x (a, b, c, d) 30 = (let r = md5_GG a b c d (x ! 7) md5_S23 0x676f02d9 in (d, r, b, c))"
  "md5_step x (a, b, c, d) 31 = (let r = md5_GG a b c d (x ! 12) md5_S24 0x8d2a4c8a in (d, r, b, c))"
  "md5_step x (a, b, c, d) 32 = (let r = md5_HH a b c d (x ! 5) md5_S31 0xfffa3942 in (d, r, b, c))"
  "md5_step x (a, b, c, d) 33 = (let r = md5_HH a b c d (x ! 8) md5_S32 0x8771f681 in (d, r, b, c))"
  "md5_step x (a, b, c, d) 34 = (let r = md5_HH a b c d (x ! 11) md5_S33 0x6d9d6122 in (d, r, b, c))"
  "md5_step x (a, b, c, d) 35 = (let r = md5_HH a b c d (x ! 14) md5_S34 0xfde5380c in (d, r, b, c))"
  "md5_step x (a, b, c, d) 36 = (let r = md5_HH a b c d (x ! 1) md5_S31 0xa4beea44 in (d, r, b, c))"
  "md5_step x (a, b, c, d) 37 = (let r = md5_HH a b c d (x ! 4) md5_S32 0x4bdecfa9 in (d, r, b, c))"
  "md5_step x (a, b, c, d) 38 = (let r = md5_HH a b c d (x ! 7) md5_S33 0xf6bb4b60 in (d, r, b, c))"
  "md5_step x (a, b, c, d) 39 = (let r = md5_HH a b c d (x ! 10) md5_S34 0xbebfbc70 in (d, r, b, c))"
  "md5_step x (a, b, c, d) 40 = (let r = md5_HH a b c d (x ! 13) md5_S31 0x289b7ec6 in (d, r, b, c))"
  "md5_step x (a, b, c, d) 41 = (let r = md5_HH a b c d (x ! 0) md5_S32 0xeaa127fa in (d, r, b, c))"
  "md5_step x (a, b, c, d) 42 = (let r = md5_HH a b c d (x ! 3) md5_S33 0xd4ef3085 in (d, r, b, c))"
  "md5_step x (a, b, c, d) 43 = (let r = md5_HH a b c d (x ! 6) md5_S34 0x4881d05 in (d, r, b, c))"
  "md5_step x (a, b, c, d) 44 = (let r = md5_HH a b c d (x ! 9) md5_S31 0xd9d4d039 in (d, r, b, c))"
  "md5_step x (a, b, c, d) 45 = (let r = md5_HH a b c d (x ! 12) md5_S32 0xe6db99e5 in (d, r, b, c))"
  "md5_step x (a, b, c, d) 46 = (let r = md5_HH a b c d (x ! 15) md5_S33 0x1fa27cf8 in (d, r, b, c))"
  "md5_step x (a, b, c, d) 47 = (let r = md5_HH a b c d (x ! 2) md5_S34 0xc4ac5665 in (d, r, b, c))"
  "md5_step x (a, b, c, d) 48 = (let r = md5_II a b c d (x ! 0) md5_S41 0xf4292244 in (d, r, b, c))"
  "md5_step x (a, b, c, d) 49 = (let r = md5_II a b c d (x ! 7) md5_S42 0x432aff97 in (d, r, b, c))"
  "md5_step x (a, b, c, d) 50 = (let r = md5_II a b c d (x ! 14) md5_S43 0xab9423a7 in (d, r, b, c))"
  "md5_step x (a, b, c, d) 51 = (let r = md5_II a b c d (x ! 5) md5_S44 0xfc93a039 in (d, r, b, c))"
  "md5_step x (a, b, c, d) 52 = (let r = md5_II a b c d (x ! 12) md5_S41 0x655b59c3 in (d, r, b, c))"
  "md5_step x (a, b, c, d) 53 = (let r = md5_II a b c d (x ! 3) md5_S42 0x8f0ccc92 in (d, r, b, c))"
  "md5_step x (a, b, c, d) 54 = (let r = md5_II a b c d (x ! 10) md5_S43 0xffeff47d in (d, r, b, c))"
  "md5_step x (a, b, c, d) 55 = (let r = md5_II a b c d (x ! 1) md5_S44 0x85845dd1 in (d, r, b, c))"
  "md5_step x (a, b, c, d) 56 = (let r = md5_II a b c d (x ! 8) md5_S41 0x6fa87e4f in (d, r, b, c))"
  "md5_step x (a, b, c, d) 57 = (let r = md5_II a b c d (x ! 15) md5_S42 0xfe2ce6e0 in (d, r, b, c))"
  "md5_step x (a, b, c, d) 58 = (let r = md5_II a b c d (x ! 6) md5_S43 0xa3014314 in (d, r, b, c))"
  "md5_step x (a, b, c, d) 59 = (let r = md5_II a b c d (x ! 13) md5_S44 0x4e0811a1 in (d, r, b, c))"
  "md5_step x (a, b, c, d) 60 = (let r = md5_II a b c d (x ! 4) md5_S41 0xf7537e82 in (d, r, b, c))"
  "md5_step x (a, b, c, d) 61 = (let r = md5_II a b c d (x ! 11) md5_S42 0xbd3af235 in (d, r, b, c))"
  "md5_step x (a, b, c, d) 62 = (let r = md5_II a b c d (x ! 2) md5_S43 0x2ad7d2bb in (d, r, b, c))"
  "md5_step x (a, b, c, d) 63 = (let r = md5_II a b c d (x ! 9) md5_S44 0xeb86d391 in (d, r, b, c))"
  by (simp_all add: md5_step_def md5_steps md5_tables md5_functions)

lemma md5_rfc_let:
  "md5_rfc state block =
     (let a = state ! 0; b = state ! 1; c = state ! 2; d = state ! 3; x = Decode block
      in case foldl (md5_step x) (a, b, c, d) [0..<64] of
           (a, b, c, d) \<Rightarrow> [state ! 0 + a, state ! 1 + b, state ! 2 + c, state ! 3 + d])"
  by (simp add: md5_rfc_def Let_def Decode_le_words)

lemma md5_transform_rfc: "MD5Transform = md5_rfc"
proof (rule ext)+
  show "MD5Transform state block = md5_rfc state block" for state block
    unfolding md5_rfc_let upt_64 MD5Transform_def
    by (simp only: foldl_Cons foldl_Nil md5_step_values md5_step_let foldl_let case_let prod.case)
qed

section \<open>The operations\<close>

definition apr_md5_init :: "md_ctx \<Rightarrow> md_ctx" where
  "apr_md5_init context = md_init [0x67452301, 0xefcdab89, 0x98badcfe, 0x10325476] context"

definition apr_md5_set_xlate :: "md_ctx \<Rightarrow> apr_xlate \<Rightarrow> apr_status \<times> md_ctx" where
  "apr_md5_set_xlate context xlate = md_set_xlate context xlate"

definition md5_update_buffer :: "md_ctx \<Rightarrow> byte list \<Rightarrow> bool \<Rightarrow> md_ctx option" where
  "md5_update_buffer context input xlate_buffer = md_update MD5Transform context input xlate_buffer"

definition apr_md5_update :: "md_ctx \<Rightarrow> byte list \<Rightarrow> md_ctx option" where
  "apr_md5_update context input = md5_update_buffer context input True"

definition apr_md5_final :: "md_ctx \<Rightarrow> (byte list \<times> md_ctx) option" where
  "apr_md5_final context = md_final MD5Transform context"

text \<open>\<open>ctx\<close> is what the uninitialised local variable holds.\<close>

definition apr_md5 :: "md_ctx \<Rightarrow> byte list \<Rightarrow> byte list option" where
  "apr_md5 ctx input =
     (case apr_md5_update (apr_md5_init ctx) input of None \<Rightarrow> None | Some ctx \<Rightarrow> map_option fst (apr_md5_final ctx))"

text \<open>The digest: the loop of RFC 1321 over the padded message.\<close>

definition md5_digest :: "byte list \<Rightarrow> byte list" where
  "md5_digest m = md_digest md5_rfc [0x67452301, 0xefcdab89, 0x98badcfe, 0x10325476] m"

definition md5_rep :: "md_ctx \<Rightarrow> byte list \<Rightarrow> bool" where
  "md5_rep c m \<longleftrightarrow> md_rep md5_rfc [0x67452301, 0xefcdab89, 0x98badcfe, 0x10325476] c m"

lemmas md5_ops = apr_md5_init_def apr_md5_set_xlate_def md5_update_buffer_def apr_md5_update_def apr_md5_final_def
  md5_transform_rfc md5_digest_def md5_rep_def

lemma md5_init_rep [intro]: "length (md_buffer c) = 64 \<Longrightarrow> md5_rep (apr_md5_init c) []"
  by (simp add: md5_ops md_init_rep)

lemma md5_update_rep:
  "md5_rep c m \<Longrightarrow> md_short xs \<Longrightarrow>
   \<exists>c'. md5_update_buffer c xs d = Some c' \<and> md5_rep c' (m @ xlated (md_xlate c) d xs) \<and> md_xlate c' = md_xlate c"
  unfolding md5_ops md_short_def by (rule md_update_rep)

lemma md5_final_rep: "md5_rep c m \<Longrightarrow> apr_md5_final c = Some (md5_digest m, md_zero)"
  unfolding md5_ops by (rule md_final_rep)

lemma set_xlate_table:
  "md_xlate c = None \<Longrightarrow> md_xlate (snd (md_set_xlate c h)) = sbcs_table h"
  "md_rep tr magic (snd (md_set_xlate c h)) m = md_rep tr magic c m"
  by (auto simp: md_set_xlate_def apr_xlate_sb_get_def md_rep_def)

interpretation md5: digest_stream "\<lambda>c m. md5_rep c m \<and> md_xlate c = t" apr_md5_update "\<lambda>c. map_option fst (apr_md5_final c)"
  md5_digest "xlated t True" md_short
  for t
proof
  fix c m xs
  assume "md5_rep c m \<and> md_xlate c = t" "md_short xs"
  then show "\<exists>c'. apr_md5_update c xs = Some c' \<and> md5_rep c' (m @ xlated t True xs) \<and> md_xlate c' = t"
    using md5_update_rep [of c m xs True] by (auto simp: apr_md5_update_def)
qed (auto simp: md5_final_rep)

section \<open>The digest in pieces\<close>

lemma concat_xlated: "concat (map (xlated t d) pieces) = xlated t d (concat pieces)"
  by (induction pieces) (simp_all add: xlated_def xlate_conv_def split: option.splits)

lemma md5_started:
  assumes "length (md_buffer ctx) = 64"
  shows "md5_rep (snd (apr_md5_set_xlate (apr_md5_init ctx) h)) [] \<and>
    md_xlate (snd (apr_md5_set_xlate (apr_md5_init ctx) h)) = sbcs_table h"
  using assms by (simp add: md5_ops set_xlate_table md_init_rep) (simp add: md_init_def set_xlate_table)

text \<open>C16. A context that is initialised (whatever it held) and given a conversion handle, refused or not, and then updated
  with any pieces, each at most \<open>2 ^ 32 - 64\<close> bytes long, has the RFC 1321 digest of the whole, every byte replaced by that
  of the table when the handle was accepted: where the pieces begin and end does not matter, nor does the unrolled
  transformation.\<close>

theorem apr_md5_of_pieces:
  assumes "length (md_buffer ctx) = 64" and "list_all md_short pieces"
  shows "digest_chunks apr_md5_update (\<lambda>c. map_option fst (apr_md5_final c))
      (snd (apr_md5_set_xlate (apr_md5_init ctx) handle)) pieces =
    Some (md5_digest (converted (sbcs_table handle) (concat pieces)))"
  using md5.chunks [OF md5_started [OF assms(1)] assms(2)] by (simp add: concat_xlated xlated_converted)

theorem apr_md5_of_pieces_witness:
  "digest_chunks apr_md5_update (\<lambda>c. map_option fst (apr_md5_final c))
      (snd (apr_md5_set_xlate (apr_md5_init md_zero) \<lparr>sbcs_table = Some (rev make_identity_table)\<rparr>)) [[1, 2], [], [3]] =
    Some (md5_digest (converted (Some (rev make_identity_table)) [1, 2, 3]))"
  using apr_md5_of_pieces [of md_zero "[[1, 2], [], [3]]" "\<lparr>sbcs_table = Some (rev make_identity_table)\<rparr>"]
  by (simp add: md_zero_def md_short_def)

text \<open>C38. An update with 4 gigabytes or more never returns, whatever the context holds and whether or not the input is
  converted: the 32-bit index of the loop over the blocks wraps around before it reaches the length.\<close>

theorem apr_md5_update_hangs:
  assumes "2 ^ 32 \<le> length input"
  shows "apr_md5_update ctx input = None"
  unfolding md5_ops using assms by (rule md_update_stuck)

theorem apr_md5_update_hangs_witness: "apr_md5_update md_zero (replicate (2 ^ 32) 0) = None"
  by (rule apr_md5_update_hangs) (simp only: length_replicate)

end
