(* ===== verification/Apu_Md4.thy ===== *)
theory Apu_Md4
  imports Apu_Md5
begin

unbundle bit_operations_syntax

text \<open>
  MD4 (\<open>srclib/apr-util/crypto/apr_md4.c\<close>): the transformation, against the loop of RFC 1320, and the digest in
  pieces. The context, its update and its end are the shared ones of \<open>Apu_Digest\<close>; every input is converted when there is a
  handle.
\<close>

section \<open>The transformation\<close>

definition md4_S11 :: nat where "md4_S11 = 3"
definition md4_S12 :: nat where "md4_S12 = 7"
definition md4_S13 :: nat where "md4_S13 = 11"
definition md4_S14 :: nat where "md4_S14 = 19"
definition md4_S21 :: nat where "md4_S21 = 3"
definition md4_S22 :: nat where "md4_S22 = 5"
definition md4_S23 :: nat where "md4_S23 = 9"
definition md4_S24 :: nat where "md4_S24 = 13"
definition md4_S31 :: nat where "md4_S31 = 3"
definition md4_S32 :: nat where "md4_S32 = 9"
definition md4_S33 :: nat where "md4_S33 = 11"
definition md4_S34 :: nat where "md4_S34 = 15"

definition md4_F :: "32 word \<Rightarrow> 32 word \<Rightarrow> 32 word \<Rightarrow> 32 word" where "md4_F x y z = ((x AND y) OR ((NOT x) AND z))"
definition md4_G :: "32 word \<Rightarrow> 32 word \<Rightarrow> 32 word \<Rightarrow> 32 word" where "md4_G x y z = ((x AND y) OR (x AND z) OR (y AND z))"
definition md4_H :: "32 word \<Rightarrow> 32 word \<Rightarrow> 32 word \<Rightarrow> 32 word" where "md4_H x y z = (x XOR y XOR z)"

text \<open>The macros of the rounds: what they assign to their first argument.\<close>

definition md4_FF :: "32 word \<Rightarrow> 32 word \<Rightarrow> 32 word \<Rightarrow> 32 word \<Rightarrow> 32 word \<Rightarrow> nat \<Rightarrow> 32 word" where
  "md4_FF a b c d x s =
     (let a = a + (md4_F b c d + x)
      in ROTATE_LEFT a s)"

definition md4_GG :: "32 word \<Rightarrow> 32 word \<Rightarrow> 32 word \<Rightarrow> 32 word \<Rightarrow> 32 word \<Rightarrow> nat \<Rightarrow> 32 word" where
  "md4_GG a b c d x s =
     (let a = a + (md4_G b c d + x + 0x5a827999)
      in ROTATE_LEFT a s)"

definition md4_HH :: "32 word \<Rightarrow> 32 word \<Rightarrow> 32 word \<Rightarrow> 32 word \<Rightarrow> 32 word \<Rightarrow> nat \<Rightarrow> 32 word" where
  "md4_HH a b c d x s =
     (let a = a + (md4_H b c d + x + 0x6ed9eba1)
      in ROTATE_LEFT a s)"

definition MD4Transform :: transform where
  "MD4Transform state block =
     (let a = state ! 0; b = state ! 1; c = state ! 2; d = state ! 3;
          x = Decode block;
          a = md4_FF a b c d (x ! 0) md4_S11;
          d = md4_FF d a b c (x ! 1) md4_S12;
          c = md4_FF c d a b (x ! 2) md4_S13;
          b = md4_FF b c d a (x ! 3) md4_S14;
          a = md4_FF a b c d (x ! 4) md4_S11;
          d = md4_FF d a b c (x ! 5) md4_S12;
          c = md4_FF c d a b (x ! 6) md4_S13;
          b = md4_FF b c d a (x ! 7) md4_S14;
          a = md4_FF a b c d (x ! 8) md4_S11;
          d = md4_FF d a b c (x ! 9) md4_S12;
          c = md4_FF c d a b (x ! 10) md4_S13;
          b = md4_FF b c d a (x ! 11) md4_S14;
          a = md4_FF a b c d (x ! 12) md4_S11;
          d = md4_FF d a b c (x ! 13) md4_S12;
          c = md4_FF c d a b (x ! 14) md4_S13;
          b = md4_FF b c d a (x ! 15) md4_S14;
          a = md4_GG a b c d (x ! 0) md4_S21;
          d = md4_GG d a b c (x ! 4) md4_S22;
          c = md4_GG c d a b (x ! 8) md4_S23;
          b = md4_GG b c d a (x ! 12) md4_S24;
          a = md4_GG a b c d (x ! 1) md4_S21;
          d = md4_GG d a b c (x ! 5) md4_S22;
          c = md4_GG c d a b (x ! 9) md4_S23;
          b = md4_GG b c d a (x ! 13) md4_S24;
          a = md4_GG a b c d (x ! 2) md4_S21;
          d = md4_GG d a b c (x ! 6) md4_S22;
          c = md4_GG c d a b (x ! 10) md4_S23;
          b = md4_GG b c d a (x ! 14) md4_S24;
          a = md4_GG a b c d (x ! 3) md4_S21;
          d = md4_GG d a b c (x ! 7) md4_S22;
          c = md4_GG c d a b (x ! 11) md4_S23;
          b = md4_GG b c d a (x ! 15) md4_S24;
          a = md4_HH a b c d (x ! 0) md4_S31;
          d = md4_HH d a b c (x ! 8) md4_S32;
          c = md4_HH c d a b (x ! 4) md4_S33;
          b = md4_HH b c d a (x ! 12) md4_S34;
          a = md4_HH a b c d (x ! 2) md4_S31;
          d = md4_HH d a b c (x ! 10) md4_S32;
          c = md4_HH c d a b (x ! 6) md4_S33;
          b = md4_HH b c d a (x ! 14) md4_S34;
          a = md4_HH a b c d (x ! 1) md4_S31;
          d = md4_HH d a b c (x ! 9) md4_S32;
          c = md4_HH c d a b (x ! 5) md4_S33;
          b = md4_HH b c d a (x ! 13) md4_S34;
          a = md4_HH a b c d (x ! 3) md4_S31;
          d = md4_HH d a b c (x ! 11) md4_S32;
          c = md4_HH c d a b (x ! 7) md4_S33;
          b = md4_HH b c d a (x ! 15) md4_S34
      in [state ! 0 + a, state ! 1 + b, state ! 2 + c, state ! 3 + d])"

section \<open>The loop of RFC 1320\<close>

text \<open>The words and rotations of the steps, and the registers moved on by one in each step.\<close>

definition md4_word :: "nat \<Rightarrow> nat" where
  "md4_word i =
     (if i < 16 then i else if i < 32 then [0, 4, 8, 12, 1, 5, 9, 13, 2, 6, 10, 14, 3, 7, 11, 15] ! (i - 16)
      else [0, 8, 4, 12, 2, 10, 6, 14, 1, 9, 5, 13, 3, 11, 7, 15] ! (i - 32))"

definition md4_shift :: "nat \<Rightarrow> nat" where
  "md4_shift i = [[3, 7, 11, 19], [3, 5, 9, 13], [3, 9, 11, 15]] ! (i div 16) ! (i mod 4)"

definition md4_mix :: "nat \<Rightarrow> 32 word \<Rightarrow> 32 word \<Rightarrow> 32 word \<Rightarrow> 32 word" where
  "md4_mix i x y z =
     (if i < 16 then (x AND y) OR (NOT x AND z) else if i < 32 then ((x AND y) OR (x AND z) OR (y AND z)) + 0x5a827999
      else (x XOR y XOR z) + 0x6ed9eba1)"

definition md4_step :: "32 word list \<Rightarrow> 32 word \<times> 32 word \<times> 32 word \<times> 32 word \<Rightarrow> nat \<Rightarrow> 32 word \<times> 32 word \<times> 32 word \<times> 32 word" where
  "md4_step x abcd i =
     (case abcd of (a, b, c, d) \<Rightarrow>
        (d, word_rotl (md4_shift i) (a + md4_mix i b c d + x ! md4_word i), b, c))"

definition md4_rfc :: transform where
  "md4_rfc state block =
     (case foldl (md4_step (le_words block)) (state ! 0, state ! 1, state ! 2, state ! 3) [0..<48] of
        (a, b, c, d) \<Rightarrow> [state ! 0 + a, state ! 1 + b, state ! 2 + c, state ! 3 + d])"

text \<open>Each macro is a step of the loop.\<close>

lemma md4_steps:
  "md4_FF a b c d x s = ROTATE_LEFT (a + md4_F b c d + x) s"
  "md4_GG a b c d x s = ROTATE_LEFT (a + (md4_G b c d + 0x5a827999) + x) s"
  "md4_HH a b c d x s = ROTATE_LEFT (a + (md4_H b c d + 0x6ed9eba1) + x) s"
  by (simp_all add: md4_FF_def md4_GG_def md4_HH_def add_ac Let_def)

lemma md4_step_let: "md4_step x (let v = e in g v) i = (let v = e in md4_step x (g v) i)"
  by (simp add: Let_def)

lemma upt_48: "[0..<48] = [0, 1, 2, 3, 4, 5, 6, 7, 8, 9, 10, 11, 12, 13, 14, 15, 16, 17, 18, 19, 20, 21, 22, 23, 24, 25, 26, 27, 28, 29,
   30, 31, 32, 33, 34, 35, 36, 37, 38, 39, 40, 41, 42, 43, 44, 45, 46, 47]"
  by (simp add: upt_rec)

lemmas md4_tables = md4_word_def md4_shift_def md4_mix_def md4_S11_def md4_S12_def md4_S13_def md4_S14_def
  md4_S21_def md4_S22_def md4_S23_def md4_S24_def md4_S31_def md4_S32_def md4_S33_def md4_S34_def

text \<open>The macro, the word and the rotation of every step.\<close>

lemma md4_step_values:
  "md4_step x (a, b, c, d) 0 = (let r = md4_FF a b c d (x ! 0) md4_S11 in (d, r, b, c))"
  "md4_step x (a, b, c, d) 1 = (let r = md4_FF a b c d (x ! 1) md4_S12 in (d, r, b, c))"
  "md4_step x (a, b, c, d) 2 = (let r = md4_FF a b c d (x ! 2) md4_S13 in (d, r, b, c))"
  "md4_step x (a, b, c, d) 3 = (let r = md4_FF a b c d (x ! 3) md4_S14 in (d, r, b, c))"
  "md4_step x (a, b, c, d) 4 = (let r = md4_FF a b c d (x ! 4) md4_S11 in (d, r, b, c))"
  "md4_step x (a, b, c, d) 5 = (let r = md4_FF a b c d (x ! 5) md4_S12 in (d, r, b, c))"
  "md4_step x (a, b, c, d) 6 = (let r = md4_FF a b c d (x ! 6) md4_S13 in (d, r, b, c))"
  "md4_step x (a, b, c, d) 7 = (let r = md4_FF a b c d (x ! 7) md4_S14 in (d, r, b, c))"
  "md4_step x (a, b, c, d) 8 = (let r = md4_FF a b c d (x ! 8) md4_S11 in (d, r, b, c))"
  "md4_step x (a, b, c, d) 9 = (let r = md4_FF a b c d (x ! 9) md4_S12 in (d, r, b, c))"
  "md4_step x (a, b, c, d) 10 = (let r = md4_FF a b c d (x ! 10) md4_S13 in (d, r, b, c))"
  "md4_step x (a, b, c, d) 11 = (let r = md4_FF a b c d (x ! 11) md4_S14 in (d, r, b, c))"
  "md4_step x (a, b, c, d) 12 = (let r = md4_FF a b c d (x ! 12) md4_S11 in (d, r, b, c))"
  "md4_step x (a, b, c, d) 13 = (let r = md4_FF a b c d (x ! 13) md4_S12 in (d, r, b, c))"
  "md4_step x (a, b, c, d) 14 = (let r = md4_FF a b c d (x ! 14) md4_S13 in (d, r, b, c))"
  "md4_step x (a, b, c, d) 15 = (let r = md4_FF a b c d (x ! 15) md4_S14 in (d, r, b, c))"
  "md4_step x (a, b, c, d) 16 = (let r = md4_GG a b c d (x ! 0) md4_S21 in (d, r, b, c))"
  "md4_step x (a, b, c, d) 17 = (let r = md4_GG a b c d (x ! 4) md4_S22 in (d, r, b, c))"
  "md4_step x (a, b, c, d) 18 = (let r = md4_GG a b c d (x ! 8) md4_S23 in (d, r, b, c))"
  "md4_step x (a, b, c, d) 19 = (let r = md4_GG a b c d (x ! 12) md4_S24 in (d, r, b, c))"
  "md4_step x (a, b, c, d) 20 = (let r = md4_GG a b c d (x ! 1) md4_S21 in (d, r, b, c))"
  "md4_step x (a, b, c, d) 21 = (let r = md4_GG a b c d (x ! 5) md4_S22 in (d, r, b, c))"
  "md4_step x (a, b, c, d) 22 = (let r = md4_GG a b c d (x ! 9) md4_S23 in (d, r, b, c))"
  "md4_step x (a, b, c, d) 23 = (let r = md4_GG a b c d (x ! 13) md4_S24 in (d, r, b, c))"
  "md4_step x (a, b, c, d) 24 = (let r = md4_GG a b c d (x ! 2) md4_S21 in (d, r, b, c))"
  "md4_step x (a, b, c, d) 25 = (let r = md4_GG a b c d (x ! 6) md4_S22 in (d, r, b, c))"
  "md4_step x (a, b, c, d) 26 = (let r = md4_GG a b c d (x ! 10) md4_S23 in (d, r, b, c))"
  "md4_step x (a, b, c, d) 27 = (let r = md4_GG a b c d (x ! 14) md4_S24 in (d, r, b, c))"
  "md4_step x (a, b, c, d) 28 = (let r = md4_GG a b c d (x ! 3) md4_S21 in (d, r, b, c))"
  "md4_step x (a, b, c, d) 29 = (let r = md4_GG a b c d (x ! 7) md4_S22 in (d, r, b, c))"
  "md4_step x (a, b, c, d) 30 = (let r = md4_GG a b c d (x ! 11) md4_S23 in (d, r, b, c))"
  "md4_step x (a, b, c, d) 31 = (let r = md4_GG a b c d (x ! 15) md4_S24 in (d, r, b, c))"
  "md4_step x (a, b, c, d) 32 = (let r = md4_HH a b c d (x ! 0) md4_S31 in (d, r, b, c))"
  "md4_step x (a, b, c, d) 33 = (let r = md4_HH a b c d (x ! 8) md4_S32 in (d, r, b, c))"
  "md4_step x (a, b, c, d) 34 = (let r = md4_HH a b c d (x ! 4) md4_S33 in (d, r, b, c))"
  "md4_step x (a, b, c, d) 35 = (let r = md4_HH a b c d (x ! 12) md4_S34 in (d, r, b, c))"
  "md4_step x (a, b, c, d) 36 = (let r = md4_HH a b c d (x ! 2) md4_S31 in (d, r, b, c))"
  "md4_step x (a, b, c, d) 37 = (let r = md4_HH a b c d (x ! 10) md4_S32 in (d, r, b, c))"
  "md4_step x (a, b, c, d) 38 = (let r = md4_HH a b c d (x ! 6) md4_S33 in (d, r, b, c))"
  "md4_step x (a, b, c, d) 39 = (let r = md4_HH a b c d (x ! 14) md4_S34 in (d, r, b, c))"
  "md4_step x (a, b, c, d) 40 = (let r = md4_HH a b c d (x ! 1) md4_S31 in (d, r, b, c))"
  "md4_step x (a, b, c, d) 41 = (let r = md4_HH a b c d (x ! 9) md4_S32 in (d, r, b, c))"
  "md4_step x (a, b, c, d) 42 = (let r = md4_HH a b c d (x ! 5) md4_S33 in (d, r, b, c))"
  "md4_step x (a, b, c, d) 43 = (let r = md4_HH a b c d (x ! 13) md4_S34 in (d, r, b, c))"
  "md4_step x (a, b, c, d) 44 = (let r = md4_HH a b c d (x ! 3) md4_S31 in (d, r, b, c))"
  "md4_step x (a, b, c, d) 45 = (let r = md4_HH a b c d (x ! 11) md4_S32 in (d, r, b, c))"
  "md4_step x (a, b, c, d) 46 = (let r = md4_HH a b c d (x ! 7) md4_S33 in (d, r, b, c))"
  "md4_step x (a, b, c, d) 47 = (let r = md4_HH a b c d (x ! 15) md4_S34 in (d, r, b, c))"
  by (simp_all add: md4_step_def md4_steps md4_tables md4_F_def md4_G_def md4_H_def ROTATE_LEFT_rotl)

lemma md4_rfc_let:
  "md4_rfc state block =
     (let a = state ! 0; b = state ! 1; c = state ! 2; d = state ! 3; x = Decode block
      in case foldl (md4_step x) (a, b, c, d) [0..<48] of
           (a, b, c, d) \<Rightarrow> [state ! 0 + a, state ! 1 + b, state ! 2 + c, state ! 3 + d])"
  by (simp add: md4_rfc_def Let_def Decode_le_words)

lemma md4_transform_rfc: "MD4Transform = md4_rfc"
proof (rule ext)+
  show "MD4Transform state block = md4_rfc state block" for state block
    unfolding md4_rfc_let upt_48 MD4Transform_def
    by (simp only: foldl_Cons foldl_Nil md4_step_values md4_step_let foldl_let case_let prod.case)
qed

section \<open>The operations\<close>

definition apr_md4_init :: "md_ctx \<Rightarrow> md_ctx" where
  "apr_md4_init context = md_init [0x67452301, 0xefcdab89, 0x98badcfe, 0x10325476] context"

definition apr_md4_set_xlate :: "md_ctx \<Rightarrow> apr_xlate \<Rightarrow> apr_status \<times> md_ctx" where
  "apr_md4_set_xlate context xlate = md_set_xlate context xlate"

definition apr_md4_update :: "md_ctx \<Rightarrow> byte list \<Rightarrow> md_ctx option" where
  "apr_md4_update context input = md_update MD4Transform context input True"

definition apr_md4_final :: "md_ctx \<Rightarrow> (byte list \<times> md_ctx) option" where
  "apr_md4_final context = md_final MD4Transform context"

text \<open>\<open>ctx\<close> is what the uninitialised local variable holds.\<close>

definition apr_md4 :: "md_ctx \<Rightarrow> byte list \<Rightarrow> byte list option" where
  "apr_md4 ctx input =
     (case apr_md4_update (apr_md4_init ctx) input of None \<Rightarrow> None | Some ctx \<Rightarrow> map_option fst (apr_md4_final ctx))"

text \<open>The digest: the loop of RFC 1320 over the padded message.\<close>

definition md4_digest :: "byte list \<Rightarrow> byte list" where
  "md4_digest m = md_digest md4_rfc [0x67452301, 0xefcdab89, 0x98badcfe, 0x10325476] m"

text \<open>A context that is initialised (whatever it held) and given a conversion handle, refused or not, and then updated
  with any pieces, each at most \<open>2 ^ 32 - 64\<close> bytes long, has the RFC 1320 digest of the whole, converted when the handle was accepted.\<close>

theorem apr_md4_of_pieces:
  assumes "length (md_buffer ctx) = 64" and "list_all md_short pieces"
  shows "digest_chunks apr_md4_update (\<lambda>c. map_option fst (apr_md4_final c))
      (snd (apr_md4_set_xlate (apr_md4_init ctx) handle)) pieces =
    Some (md4_digest (converted (sbcs_table handle) (concat pieces)))"
proof -
  let ?magic = "[0x67452301, 0xefcdab89, 0x98badcfe, 0x10325476] :: 32 word list"
  let ?c = "snd (apr_md4_set_xlate (apr_md4_init ctx) handle)"
  have none: "md_xlate (md_init ?magic ctx) = None" by (simp add: md_init_def)
  have "md_rep md4_rfc ?magic ?c [] \<and> md_xlate ?c = sbcs_table handle"
    unfolding apr_md4_set_xlate_def apr_md4_init_def set_xlate_table(1) [OF none] set_xlate_table(2)
    using md_init_rep [OF assms(1)] by simp
  from md.chunks [OF this assms(2)]
  have "digest_chunks (\<lambda>c xs. md_update md4_rfc c xs True) (\<lambda>c. map_option fst (md_final md4_rfc c)) ?c pieces =
      Some (md_digest md4_rfc ?magic (converted (sbcs_table handle) (concat pieces)))"
    by (simp add: concat_xlated xlated_converted)
  then show ?thesis
    unfolding apr_md4_update_def [abs_def] apr_md4_final_def [abs_def] md4_digest_def md4_transform_rfc .
qed

theorem apr_md4_of_pieces_witness:
  "digest_chunks apr_md4_update (\<lambda>c. map_option fst (apr_md4_final c))
      (snd (apr_md4_set_xlate (apr_md4_init md_zero) \<lparr>sbcs_table = Some (rev make_identity_table)\<rparr>)) [[1, 2], [], [3]] =
    Some (md4_digest (converted (Some (rev make_identity_table)) [1, 2, 3]))"
  using apr_md4_of_pieces [of md_zero "[[1, 2], [], [3]]" "\<lparr>sbcs_table = Some (rev make_identity_table)\<rparr>"]
  by (simp add: md_zero_def md_short_def)

end
