(* ===== verification/Apu_Sha1.thy ===== *)
theory Apu_Sha1
  imports Apu_Digest Apu_Base64 Apr_Strings
begin

unbundle bit_operations_syntax

text \<open>
  SHA1 (\<open>srclib/apr-util/crypto/apr_sha1.c\<close>): the transformation, the digest in pieces against FIPS 180-1, and
  the password format \<open>{SHA}\<close>. The array \<open>data\<close> of the context is used both as 64 bytes and as 16 words: it is a list of
  bytes here, and its words are read and written in the byte order of the host, which is an argument (\<open>le\<close>,
  \<open>isLittleEndian()\<close>).
\<close>

section \<open>Words in memory\<close>

definition load32 :: "bool \<Rightarrow> byte list \<Rightarrow> nat \<Rightarrow> 32 word" where
  "load32 le buf i =
     (let b = (\<lambda>j. ucast (buf ! (4 * i + j)) :: 32 word)
      in if le then b 0 OR push_bit 8 (b 1) OR push_bit 16 (b 2) OR push_bit 24 (b 3)
         else push_bit 24 (b 0) OR push_bit 16 (b 1) OR push_bit 8 (b 2) OR b 3)"

definition store32 :: "bool \<Rightarrow> byte list \<Rightarrow> nat \<Rightarrow> 32 word \<Rightarrow> byte list" where
  "store32 le buf i w =
     (let b = (\<lambda>n. ucast (drop_bit n w) :: byte)
      in put buf (4 * i) (if le then [b 0, b 8, b 16, b 24] else [b 24, b 16, b 8, b 0]))"

text \<open>The loop of \<open>maybe_byte_reverse\<close> over \<open>count\<close> words.\<close>

fun byte_reverse :: "nat \<Rightarrow> byte list \<Rightarrow> byte list" where
  "byte_reverse (Suc count) (c0 # c1 # c2 # c3 # cp) = c3 # c2 # c1 # c0 # byte_reverse count cp"
| "byte_reverse count cp = cp"

definition maybe_byte_reverse :: "bool \<Rightarrow> byte list \<Rightarrow> nat \<Rightarrow> byte list" where
  "maybe_byte_reverse le buffer count = (if le then byte_reverse (count div 4) buffer else buffer)"

section \<open>The transformation\<close>

definition ROT32 :: "32 word \<Rightarrow> nat \<Rightarrow> 32 word" where
  "ROT32 x n = (push_bit n x OR drop_bit (32 - n) x)"

definition sha_f1 :: "32 word \<Rightarrow> 32 word \<Rightarrow> 32 word \<Rightarrow> 32 word" where "sha_f1 x y z = ((x AND y) OR (NOT x AND z))"
definition sha_f2 :: "32 word \<Rightarrow> 32 word \<Rightarrow> 32 word \<Rightarrow> 32 word" where "sha_f2 x y z = (x XOR y XOR z)"
definition sha_f3 :: "32 word \<Rightarrow> 32 word \<Rightarrow> 32 word \<Rightarrow> 32 word" where "sha_f3 x y z = ((x AND y) OR (x AND z) OR (y AND z))"
definition sha_f4 :: "32 word \<Rightarrow> 32 word \<Rightarrow> 32 word \<Rightarrow> 32 word" where "sha_f4 x y z = (x XOR y XOR z)"

definition sha_CONST1 :: "32 word" where "sha_CONST1 = 0x5a827999"
definition sha_CONST2 :: "32 word" where "sha_CONST2 = 0x6ed9eba1"
definition sha_CONST3 :: "32 word" where "sha_CONST3 = 0x8f1bbcdc"
definition sha_CONST4 :: "32 word" where "sha_CONST4 = 0xca62c1d6"

text \<open>\<open>f##n\<close> and \<open>CONST##n\<close>.\<close>

definition sha_f :: "nat \<Rightarrow> 32 word \<Rightarrow> 32 word \<Rightarrow> 32 word \<Rightarrow> 32 word" where
  "sha_f n = (if n = 1 then sha_f1 else if n = 2 then sha_f2 else if n = 3 then sha_f3 else sha_f4)"

definition sha_CONST :: "nat \<Rightarrow> 32 word" where
  "sha_CONST n = (if n = 1 then sha_CONST1 else if n = 2 then sha_CONST2 else if n = 3 then sha_CONST3 else sha_CONST4)"

type_synonym sha_regs = "32 word \<times> 32 word \<times> 32 word \<times> 32 word \<times> 32 word"

definition sha_FUNC :: "32 word list \<Rightarrow> sha_regs \<Rightarrow> nat \<times> nat \<Rightarrow> sha_regs" where
  "sha_FUNC W regs n_i =
     (case (regs, n_i) of ((A, B, C, D, E), (n, i)) \<Rightarrow>
        let temp = ROT32 A 5 + sha_f n B C D + E + W ! i + sha_CONST n;
            E = D; D = C; C = ROT32 B 30; B = A; A = temp
        in (A, B, C, D, E))"

record sha1_ctx =
  sha_digest :: "32 word list"
  sha_count_lo :: "32 word"
  sha_count_hi :: "32 word"
  sha_data :: "byte list"
  sha_local :: nat

definition sha_schedule :: "32 word list \<Rightarrow> 32 word list" where
  "sha_schedule data =
     foldl (\<lambda>W i. let w = W ! (i - 3) XOR W ! (i - 8) XOR W ! (i - 14) XOR W ! (i - 16) in W @ [ROT32 w 1]) data [16..<80]"

text \<open>The macro calls of the unrolled loops.\<close>

definition sha_calls :: "(nat \<times> nat) list" where
  "sha_calls =
     [(1, 0), (1, 1), (1, 2), (1, 3), (1, 4), (1, 5), (1, 6), (1, 7), (1, 8), (1, 9),
      (1, 10), (1, 11), (1, 12), (1, 13), (1, 14), (1, 15), (1, 16), (1, 17), (1, 18), (1, 19),
      (2, 20), (2, 21), (2, 22), (2, 23), (2, 24), (2, 25), (2, 26), (2, 27), (2, 28), (2, 29),
      (2, 30), (2, 31), (2, 32), (2, 33), (2, 34), (2, 35), (2, 36), (2, 37), (2, 38), (2, 39),
      (3, 40), (3, 41), (3, 42), (3, 43), (3, 44), (3, 45), (3, 46), (3, 47), (3, 48), (3, 49),
      (3, 50), (3, 51), (3, 52), (3, 53), (3, 54), (3, 55), (3, 56), (3, 57), (3, 58), (3, 59),
      (4, 60), (4, 61), (4, 62), (4, 63), (4, 64), (4, 65), (4, 66), (4, 67), (4, 68), (4, 69),
      (4, 70), (4, 71), (4, 72), (4, 73), (4, 74), (4, 75), (4, 76), (4, 77), (4, 78), (4, 79)]"

definition sha_transform :: "bool \<Rightarrow> sha1_ctx \<Rightarrow> sha1_ctx" where
  "sha_transform le sha_info =
     (let W = sha_schedule (map (load32 le (sha_data sha_info)) [0..<16]);
          d = sha_digest sha_info
      in case foldl (sha_FUNC W) (d ! 0, d ! 1, d ! 2, d ! 3, d ! 4) sha_calls of
           (A, B, C, D, E) \<Rightarrow> sha_info\<lparr>sha_digest := [d ! 0 + A, d ! 1 + B, d ! 2 + C, d ! 3 + D, d ! 4 + E]\<rparr>)"

section \<open>The operations\<close>

definition apr_sha1_init :: "sha1_ctx \<Rightarrow> sha1_ctx" where
  "apr_sha1_init sha_info =
     sha_info\<lparr>sha_digest := [0x67452301, 0xefcdab89, 0x98badcfe, 0x10325476, 0xc3d2e1f0],
       sha_count_lo := 0, sha_count_hi := 0, sha_local := 0\<rparr>"

text \<open>A full block: the bytes of the words are turned round, and the words are transformed.\<close>

definition sha_block :: "bool \<Rightarrow> sha1_ctx \<Rightarrow> sha1_ctx" where
  "sha_block le sha_info =
     sha_transform le (sha_info\<lparr>sha_data := maybe_byte_reverse le (sha_data sha_info) 64\<rparr>)"

text \<open>\<open>while (count >= SHA_BLOCKSIZE)\<close>: the context, and what is left of the input.\<close>

function sha_blocks :: "bool \<Rightarrow> sha1_ctx \<Rightarrow> byte list \<Rightarrow> nat \<Rightarrow> sha1_ctx \<times> byte list \<times> nat" where
  "sha_blocks le sha_info buffer count =
     (if count \<ge> 64
      then sha_blocks le (sha_block le (sha_info\<lparr>sha_data := put (sha_data sha_info) 0 (take 64 buffer)\<rparr>)) (drop 64 buffer) (count - 64)
      else (sha_info, buffer, count))"
  by pat_completeness auto
termination
  by (relation "measure (\<lambda>(le, c, b, n). n)") auto

declare sha_blocks.simps [simp del]

text \<open>The whole blocks of the input, and the rest into \<open>data\<close>.\<close>

definition sha_update_rest :: "bool \<Rightarrow> sha1_ctx \<Rightarrow> byte list \<Rightarrow> nat \<Rightarrow> sha1_ctx" where
  "sha_update_rest le sha_info buffer count =
     (case sha_blocks le sha_info buffer count of
        (sha_info, buffer, count) \<Rightarrow>
          sha_info\<lparr>sha_data := put (sha_data sha_info) 0 (take count buffer), sha_local := count\<rparr>)"

definition apr_sha1_update_binary :: "bool \<Rightarrow> sha1_ctx \<Rightarrow> byte list \<Rightarrow> 32 word \<Rightarrow> sha1_ctx" where
  "apr_sha1_update_binary le sha_info buffer count =
     (let count_hi = (if sha_count_lo sha_info + push_bit 3 count < sha_count_lo sha_info
                      then sha_count_hi sha_info + 1 else sha_count_hi sha_info);
          sha_info = sha_info\<lparr>sha_count_lo := sha_count_lo sha_info + push_bit 3 count,
            sha_count_hi := count_hi + drop_bit 29 count\<rparr>
      in if sha_local sha_info \<noteq> 0 then
           let i = 64 - sha_local sha_info;
               i = (if i > unat count then unat count else i);
               sha_info = sha_info\<lparr>sha_data := put (sha_data sha_info) (sha_local sha_info) (take i buffer)\<rparr>;
               count = unat count - i;
               buffer = drop i buffer;
               sha_info = sha_info\<lparr>sha_local := sha_local sha_info + i\<rparr>
           in if sha_local sha_info = 64 then sha_update_rest le (sha_block le sha_info) buffer count
              else sha_info
         else sha_update_rest le sha_info buffer (unat count))"

definition apr_sha1_update :: "bool \<Rightarrow> sha1_ctx \<Rightarrow> byte list \<Rightarrow> 32 word \<Rightarrow> sha1_ctx" where
  "apr_sha1_update le sha_info buf count = apr_sha1_update_binary le sha_info buf count"

text \<open>The words of the digest as bytes, most significant byte first.\<close>

fun sha_bytes :: "32 word list \<Rightarrow> byte list" where
  "sha_bytes [] = []"
| "sha_bytes (k # ks) =
     ucast (drop_bit 24 k AND 0xff) # ucast (drop_bit 16 k AND 0xff) # ucast (drop_bit 8 k AND 0xff) # ucast (k AND 0xff) # sha_bytes ks"

definition apr_sha1_final :: "bool \<Rightarrow> sha1_ctx \<Rightarrow> byte list \<times> sha1_ctx" where
  "apr_sha1_final le sha_info =
     (let lo_bit_count = sha_count_lo sha_info;
          hi_bit_count = sha_count_hi sha_info;
          count = unat (drop_bit 3 lo_bit_count AND 0x3f);
          sha_info = sha_info\<lparr>sha_data := put (sha_data sha_info) count [0x80]\<rparr>;
          count = count + 1;
          sha_info =
            (if count > 64 - 8 then
               let sha_info = sha_block le (sha_info\<lparr>sha_data := put (sha_data sha_info) count (replicate (64 - count) 0)\<rparr>)
               in sha_info\<lparr>sha_data := put (sha_data sha_info) 0 (replicate (64 - 8) 0)\<rparr>
             else sha_info\<lparr>sha_data := put (sha_data sha_info) count (replicate (64 - 8 - count) 0)\<rparr>);
          sha_info = sha_info\<lparr>sha_data := maybe_byte_reverse le (sha_data sha_info) 64\<rparr>;
          sha_info = sha_info\<lparr>sha_data := store32 le (store32 le (sha_data sha_info) 14 hi_bit_count) 15 lo_bit_count\<rparr>;
          sha_info = sha_transform le sha_info
      in (sha_bytes (sha_digest sha_info), sha_info))"

definition apr_sha1_base64 :: "bool \<Rightarrow> sha1_ctx \<Rightarrow> cstr \<Rightarrow> 32 word \<Rightarrow> byte list" where
  "apr_sha1_base64 le context clear len =
     (let context = apr_sha1_init context;
          context = apr_sha1_update le context (map byte_of clear) len;
          (digest, context) = apr_sha1_final le context;
          out = map byte_of (fst (apr_cpystrn ''{SHA}'' (5 + 1)));
          (encoded, l) = apr_base64_encode_binary digest 20;
          out = put out 5 encoded
      in put out (nat (l + 5)) [0])"

section \<open>FIPS 180-1\<close>

text \<open>
  The reference side, which uses nothing of the code above: words and bytes by powers of 256, the most significant first, the
  schedule as its recurrence, and rotations of the library.
\<close>

definition be_words :: "byte list \<Rightarrow> 32 word list" where
  "be_words bs = map (\<lambda>j. word_of_nat (\<Sum>i\<leftarrow>[0, 1, 2, 3]. unat (bs ! (4 * j + i)) * 256 ^ (3 - i))) [0..<16]"

definition be_bytes :: "32 word list \<Rightarrow> byte list" where
  "be_bytes ws = concat (map (\<lambda>w. map (\<lambda>i. word_of_nat (unat w div 256 ^ i mod 256)) [3, 2, 1, 0]) ws)"

fun sha_W :: "32 word list \<Rightarrow> nat \<Rightarrow> 32 word" where
  "sha_W M t =
     (if t < 16 then M ! t
      else word_rotl 1 (sha_W M (t - 3) XOR sha_W M (t - 8) XOR sha_W M (t - 14) XOR sha_W M (t - 16)))"

declare sha_W.simps [simp del]

definition sha_step :: "32 word list \<Rightarrow> sha_regs \<Rightarrow> nat \<Rightarrow> sha_regs" where
  "sha_step W regs t =
     (case regs of (a, b, c, d, e) \<Rightarrow>
        (word_rotl 5 a + (if t < 20 then (b AND c) OR (NOT b AND d) else if t < 40 \<or> 60 \<le> t then b XOR c XOR d
            else (b AND c) OR (b AND d) OR (c AND d)) + e + W ! t +
          [0x5a827999, 0x6ed9eba1, 0x8f1bbcdc, 0xca62c1d6] ! (t div 20),
         a, word_rotl 30 b, c, d))"

definition sha_fips :: transform where
  "sha_fips H block =
     (case foldl (sha_step (map (sha_W (be_words block)) [0..<80])) (H ! 0, H ! 1, H ! 2, H ! 3, H ! 4) [0..<80] of
        (a, b, c, d, e) \<Rightarrow> [H ! 0 + a, H ! 1 + b, H ! 2 + c, H ! 3 + d, H ! 4 + e])"

definition sha1_digest :: "byte list \<Rightarrow> byte list" where
  "sha1_digest m =
     be_bytes (process sha_fips [0x67452301, 0xefcdab89, 0x98badcfe, 0x10325476, 0xc3d2e1f0]
       (m @ pad_zeros (length m) @ be_bytes [len_hi (length m), len_lo (length m)]))"

subsection \<open>Words, bytes, rotations and the schedule of the code\<close>

lemma ROT32_rotl: "n < 32 \<Longrightarrow> ROT32 x n = word_rotl n x"
  unfolding ROT32_def by (rule rotate_rotl)

lemma sha_bytes_be: "sha_bytes ws = be_bytes ws"
proof (induction ws)
  case (Cons w ws)
  then show ?case
    using byte_value [of 0 w] byte_value [of 1 w] byte_value [of 2 w] byte_value [of 3 w]
    by (simp add: be_bytes_def)
qed (simp add: be_bytes_def)

lemmas sha1_digest_eq = sha1_digest_def [folded sha_bytes_be]

lemma load_words: "map (load32 False block) [0..<16] = be_words block"
proof -
  have "load32 False block j = word_of_nat (\<Sum>i\<leftarrow>[0, 1, 2, 3]. unat (block ! (4 * j + i)) * 256 ^ (3 - i))" for j
    using word_value [of "block ! (4 * j + 3)" "block ! (4 * j + 2)" "block ! (4 * j + 1)" "block ! (4 * j)"]
    by (simp add: load32_def Let_def or.assoc or.commute or.left_commute add.assoc add.commute add.left_commute)
  then show ?thesis by (simp add: be_words_def)
qed

text \<open>The loop that extends the words is the recurrence.\<close>

lemma sha_schedule_W:
  assumes "length M = 16"
  shows "sha_schedule M = map (sha_W M) [0..<80]"
proof -
  let ?f = "\<lambda>W i. let w = W ! (i - 3) XOR W ! (i - 8) XOR W ! (i - 14) XOR W ! (i - 16) in W @ [ROT32 w 1]"
  have "foldl ?f M [16..<n] = map (sha_W M) [0..<n]" if "16 \<le> n" for n
    using that
  proof (induction n rule: dec_induct)
    case base
    have "map (sha_W M) [0..<16] = map ((!) M) [0..<length M]" using assms by (simp add: sha_W.simps)
    then show ?case unfolding map_nth by simp
  next
    case (step n)
    have nth: "map (sha_W M) [0..<n] ! (n - k) = sha_W M (n - k)" if "k \<in> {3, 8, 14, 16}" for k
      using that step(1) by auto
    have "sha_W M n = ROT32 (sha_W M (n - 3) XOR sha_W M (n - 8) XOR sha_W M (n - 14) XOR sha_W M (n - 16)) 1"
      using step(1) by (subst sha_W.simps) (simp add: ROT32_rotl)
    then have "?f (map (sha_W M) [0..<n]) n = map (sha_W M) [0..<Suc n]"
      by (simp add: Let_def nth)
    then show ?case using step by simp
  qed
  moreover have "16 \<le> (80 :: nat)" by simp
  ultimately show ?thesis unfolding sha_schedule_def .
qed

subsection \<open>Blocks\<close>

lemma length_byte_reverse [simp]: "length (byte_reverse n d) = length d"
  by (induction n d rule: byte_reverse.induct) simp_all

lemma length_maybe_byte_reverse [simp]: "length (maybe_byte_reverse le d n) = length d"
  by (simp add: maybe_byte_reverse_def)

lemma byte_reverse_nth:
  assumes "4 * n \<le> length d" "i < n"
  shows "byte_reverse n d ! (4 * i) = d ! (4 * i + 3)" "byte_reverse n d ! (4 * i + 1) = d ! (4 * i + 2)"
    "byte_reverse n d ! (4 * i + 2) = d ! (4 * i + 1)" "byte_reverse n d ! (4 * i + 3) = d ! (4 * i)"
proof -
  have "byte_reverse n d ! (4 * i) = d ! (4 * i + 3) \<and> byte_reverse n d ! (4 * i + 1) = d ! (4 * i + 2) \<and>
      byte_reverse n d ! (4 * i + 2) = d ! (4 * i + 1) \<and> byte_reverse n d ! (4 * i + 3) = d ! (4 * i)"
    using assms
  proof (induction n d arbitrary: i rule: byte_reverse.induct)
    case (1 n c0 c1 c2 c3 cp)
    show ?case
    proof (cases i)
      case 0
      then show ?thesis by (simp add: numeral_eq_Suc)
    next
      case (Suc j)
      then show ?thesis using "1.IH" [of j] "1.prems" by (simp add: numeral_eq_Suc)
    qed
  qed auto
  then show "byte_reverse n d ! (4 * i) = d ! (4 * i + 3)" "byte_reverse n d ! (4 * i + 1) = d ! (4 * i + 2)"
    "byte_reverse n d ! (4 * i + 2) = d ! (4 * i + 1)" "byte_reverse n d ! (4 * i + 3) = d ! (4 * i)" by simp_all
qed

text \<open>On either host the words of the reversed block are those of the block, most significant byte first.\<close>

lemma load_reverse:
  assumes "length d = 64" "i < 16"
  shows "load32 le (maybe_byte_reverse le d 64) i = load32 False d i"
proof -
  have "4 * 16 \<le> length d" using assms by simp
  from byte_reverse_nth [OF this assms(2)] show ?thesis
    by (simp add: load32_def maybe_byte_reverse_def or.assoc or.commute or.left_commute)
qed

lemma sha_calls: "sha_calls = map (\<lambda>t. (t div 20 + 1, t)) [0..<80]"
  by (simp add: sha_calls_def upt_rec)

lemma sha_FUNC_step: "t < 80 \<Longrightarrow> sha_FUNC W regs (t div 20 + 1, t) = sha_step W regs t"
proof -
  assume "t < 80"
  then consider "t < 20" | "20 \<le> t" "t < 40" | "40 \<le> t" "t < 60" | "60 \<le> t" "t < 80" by linarith
  then show ?thesis
  proof cases
    case 1
    then have "t div 20 = 0" by simp
    then show ?thesis using 1 by (simp add: sha_FUNC_def sha_step_def ROT32_rotl Let_def sha_f_def sha_CONST_def sha_f1_def sha_CONST1_def split: prod.splits)
  next
    case 2
    then have "t div 20 = 1" by simp
    then show ?thesis using 2 by (simp add: sha_FUNC_def sha_step_def ROT32_rotl Let_def sha_f_def sha_CONST_def sha_f2_def sha_CONST2_def split: prod.splits)
  next
    case 3
    then have "t div 20 = 2" by simp
    then show ?thesis using 3 by (simp add: sha_FUNC_def sha_step_def ROT32_rotl Let_def sha_f_def sha_CONST_def sha_f3_def sha_CONST3_def split: prod.splits)
  next
    case 4
    then have "t div 20 = 3" by simp
    then show ?thesis using 4 by (simp add: sha_FUNC_def sha_step_def ROT32_rotl Let_def sha_f_def sha_CONST_def sha_f4_def sha_CONST4_def split: prod.splits)
  qed
qed

lemma sha_rounds: "foldl (sha_FUNC W) regs sha_calls = foldl (sha_step W) regs [0..<80]"
proof -
  have "foldl (sha_FUNC W) regs (map (\<lambda>t. (t div 20 + 1, t)) ts) = foldl (sha_step W) regs ts" if "\<forall>t\<in>set ts. t < 80" for ts
    using that by (induction ts arbitrary: regs) (simp_all add: sha_FUNC_step [simplified])
  then show ?thesis unfolding sha_calls by simp
qed

text \<open>What a block leaves.\<close>

lemma sha_transform_digest:
  assumes "\<And>i. i < 16 \<Longrightarrow> load32 le (sha_data c) i = load32 False block i"
  shows "sha_transform le c = c\<lparr>sha_digest := sha_fips (sha_digest c) block\<rparr>"
proof -
  have "map (load32 le (sha_data c)) [0..<16] = map (load32 False block) [0..<16]" using assms by simp
  then have W: "sha_schedule (map (load32 le (sha_data c)) [0..<16]) = map (sha_W (be_words block)) [0..<80]"
    using sha_schedule_W [of "be_words block"] by (simp add: load_words) (simp add: be_words_def)
  show ?thesis unfolding sha_transform_def sha_fips_def Let_def sha_rounds W by (simp split: prod.splits)
qed

lemma sha_block_eq:
  "length (sha_data c) = 64 \<Longrightarrow>
   sha_block le c = c\<lparr>sha_data := maybe_byte_reverse le (sha_data c) 64, sha_digest := sha_fips (sha_digest c) (sha_data c)\<rparr>"
  unfolding sha_block_def by (subst sha_transform_digest [of _ _ "sha_data c"]) (simp_all add: load_reverse)

text \<open>The loop over the blocks.\<close>

lemma process_step: "length m = 64 \<Longrightarrow> process tr s (m @ xs) = process tr (tr s m) xs"
  using process_append [of m tr s xs] by (simp add: process_block)

lemma sha_blocks_ok:
  assumes "length (sha_data c) = 64" "n \<le> length buffer"
  shows "\<exists>data. length data = 64 \<and>
    sha_blocks le c buffer n =
      (c\<lparr>sha_data := data, sha_digest := process sha_fips (sha_digest c) (take n buffer)\<rparr>, drop (n - n mod 64) buffer, n mod 64)"
  using assms
proof (induction le c buffer n rule: sha_blocks.induct)
  case (1 le c buffer n)
  show ?case
  proof (cases "64 \<le> n")
    case True
    let ?c = "sha_block le (c\<lparr>sha_data := put (sha_data c) 0 (take 64 buffer)\<rparr>)"
    have data: "put (sha_data c) 0 (take 64 buffer) = take 64 buffer" using 1 True by (simp add: put_all)
    have len: "length (take 64 buffer) = 64" using 1 True by simp
    have c: "?c = c\<lparr>sha_data := maybe_byte_reverse le (take 64 buffer) 64, sha_digest := sha_fips (sha_digest c) (take 64 buffer)\<rparr>"
      unfolding data using len by (simp add: sha_block_eq)
    have "length (sha_data ?c) = 64" "n - 64 \<le> length (drop 64 buffer)" using 1 c len by simp_all
    from "1.IH" [OF True this] obtain data where "length data = 64" and
      loop: "sha_blocks le ?c (drop 64 buffer) (n - 64) =
        (?c\<lparr>sha_data := data, sha_digest := process sha_fips (sha_digest ?c) (take (n - 64) (drop 64 buffer))\<rparr>,
         drop (n - 64 - (n - 64) mod 64) (drop 64 buffer), (n - 64) mod 64)"
      by (elim exE conjE)
    moreover have "process sha_fips (sha_digest ?c) (take (n - 64) (drop 64 buffer)) = process sha_fips (sha_digest c) (take n buffer)"
    proof -
      have "take n buffer = take 64 buffer @ take (n - 64) (drop 64 buffer)"
        using True by (metis le_add_diff_inverse take_add)
      then show ?thesis using process_step [OF len] c by simp
    qed
    moreover have "(n - 64) mod 64 = n mod 64" using True by (simp add: le_mod_geq)
    moreover have "drop (n - 64 - n mod 64) (drop 64 buffer) = drop (n - n mod 64) buffer"
    proof -
      have "n mod 64 \<le> n - 64" using \<open>(n - 64) mod 64 = n mod 64\<close> by (metis mod_less_eq_dividend)
      then show ?thesis using True by (simp add: add.commute)
    qed
    ultimately show ?thesis using True c by (subst sha_blocks.simps) auto
  next
    case False
    then show ?thesis using 1 by (subst sha_blocks.simps) (auto intro!: exI [of _ "sha_data c"])
  qed
qed

subsection \<open>Updates\<close>

definition sha_magic :: "32 word list" where
  "sha_magic = [0x67452301, 0xefcdab89, 0x98badcfe, 0x10325476, 0xc3d2e1f0]"

text \<open>The context after the message \<open>m\<close>.\<close>

definition sha_rep :: "sha1_ctx \<Rightarrow> byte list \<Rightarrow> bool" where
  "sha_rep c m \<longleftrightarrow> length (sha_data c) = 64 \<and> sha_count_lo c = len_lo (length m) \<and> sha_count_hi c = len_hi (length m) \<and>
     sha_digest c = process sha_fips sha_magic m \<and> sha_local c = length m mod 64 \<and>
     take (length m mod 64) (sha_data c) = drop (length m - length m mod 64) m"

text \<open>The blocks after the part that completes the pending one.\<close>

lemma sha_update_rest_rep:
  assumes "length (sha_data c) = 64" "sha_count_lo c = len_lo (length (m @ xs))" "sha_count_hi c = len_hi (length (m @ xs))"
    and "sha_digest c = process sha_fips sha_magic m" "64 dvd length m"
  shows "sha_rep (sha_update_rest le c xs (length xs)) (m @ xs)"
proof -
  let ?r = "length xs mod 64"
  obtain data where data: "length data = 64" and
    loop: "sha_blocks le c xs (length xs) =
      (c\<lparr>sha_data := data, sha_digest := process sha_fips (sha_digest c) xs\<rparr>, drop (length xs - ?r) xs, ?r)"
    using sha_blocks_ok [OF assms(1), of "length xs" xs le] by auto
  obtain k where "length m = 64 * k" using assms(5) by (elim dvdE)
  then have r: "length (m @ xs) mod 64 = ?r" by simp
  have tail: "length (drop (length xs - ?r) xs) = ?r" by simp
  let ?data = "put data 0 (take ?r (drop (length xs - ?r) xs))"
  have "length ?data = 64" using data by (simp add: less_imp_le)
  moreover have "take ?r ?data = drop (length xs - ?r) xs"
    using take_put [of 0 data "drop (length xs - ?r) xs"] tail by simp
  moreover have "drop (length (m @ xs) - ?r) (m @ xs) = drop (length xs - ?r) xs" by simp
  moreover have "process sha_fips (sha_digest c) xs = process sha_fips sha_magic (m @ xs)"
    using process_append [OF assms(5)] assms(4) by simp
  ultimately show ?thesis
    unfolding sha_update_rest_def loop sha_rep_def r using assms(2,3) by simp
qed

lemma len_hi_add':
  "(if len_lo (n + k) < len_lo n then len_hi n + 1 else len_hi n) + len_hi k = len_hi (n + k)"
  using len_hi_add [of k n] by (simp add: add.commute add.left_commute split: if_splits)

lemma pending_length: "length (drop (length m - length m mod 64) m) = length m mod 64"
  by simp

text \<open>The counts.\<close>

definition sha_counted :: "sha1_ctx \<Rightarrow> nat \<Rightarrow> sha1_ctx" where
  "sha_counted c n = c\<lparr>sha_count_lo := len_lo n, sha_count_hi := len_hi n\<rparr>"

lemma sha_counted_sel [simp]:
  "sha_digest (sha_counted c n) = sha_digest c" "sha_data (sha_counted c n) = sha_data c" "sha_local (sha_counted c n) = sha_local c"
  "sha_count_lo (sha_counted c n) = len_lo n" "sha_count_hi (sha_counted c n) = len_hi n"
  by (simp_all add: sha_counted_def)

lemma sha_update_counts:
  assumes "sha_rep c m" "length xs < 2 ^ 32"
  shows "apr_sha1_update_binary le c xs (word_of_nat (length xs)) =
    (let c = sha_counted c (length m + length xs); p = length m mod 64; i = min (64 - p) (length xs)
     in if p \<noteq> 0 then
          let c = c\<lparr>sha_data := put (sha_data c) p (take i xs), sha_local := p + i\<rparr>
          in if p + i = 64 then sha_update_rest le (sha_block le c) (drop i xs) (length xs - i) else c
        else sha_update_rest le c xs (length xs))"
proof -
  have n: "unat (word_of_nat (length xs) :: 32 word) = length xs"
    unfolding unsigned_of_nat using assms(2) by (simp add: take_bit_nat_eq_self)
  have c: "sha_count_lo c = len_lo (length m)" "sha_count_hi c = len_hi (length m)" "sha_local c = length m mod 64"
    using assms(1) by (simp_all add: sha_rep_def)
  have p: "length m mod 64 < 64" by simp
  show ?thesis
    unfolding apr_sha1_update_binary_def Let_def c push_len drop_len [OF assms(2)] len_lo_add len_hi_add' n
    using p by (simp add: sha_counted_def c min_def)
qed

lemma dvd_complete: "64 dvd n + (64 - n mod (64 :: nat))"
proof -
  have "n mod 64 \<le> n" "n mod 64 < 64" by simp_all
  then have "n + (64 - n mod 64) = (n - n mod 64) + 64" by linarith
  moreover have "64 dvd n - n mod 64" by (rule dvd_minus_mod)
  ultimately show ?thesis by (simp only: dvd_add dvd_refl)
qed

lemma apr_sha1_update_rep:
  assumes rep: "sha_rep c m" and short: "length xs < 2 ^ 32"
  shows "sha_rep (apr_sha1_update_binary le c xs (word_of_nat (length xs))) (m @ xs)"
proof -
  let ?p = "length m mod 64" and ?n = "length xs"
  define pend where "pend = drop (length m - ?p) m"
  have pend: "length pend = ?p" unfolding pend_def by (rule pending_length)
  have data: "length (sha_data c) = 64" "take ?p (sha_data c) = pend" and state: "sha_digest c = process sha_fips sha_magic m"
    using rep by (simp_all add: sha_rep_def pend_def)
  let ?c = "sha_counted c (length m + ?n)"
  note more = process_more [of sha_fips sha_magic m, folded pend_def state]
  consider "?p = 0" | "?p \<noteq> 0" "64 - ?p \<le> ?n" | "?p \<noteq> 0" "?n < 64 - ?p" by linarith
  then show ?thesis
  proof cases
    case 1
    then have "64 dvd length m" by (simp add: dvd_eq_mod_eq_0)
    then have "sha_rep (sha_update_rest le ?c xs ?n) (m @ xs)"
      using data state by (intro sha_update_rest_rep) simp_all
    then show ?thesis unfolding sha_update_counts [OF assms] Let_def using 1 by simp
  next
    case 2
    let ?i = "64 - ?p"
    let ?data = "put (sha_data c) ?p (take ?i xs)"
    let ?c1 = "?c\<lparr>sha_data := ?data, sha_local := 64\<rparr>"
    have block: "?data = pend @ take ?i xs" "length ?data = 64" using data 2 pend by (simp_all add: put_all)
    have c2: "sha_block le ?c1 = ?c1\<lparr>sha_data := maybe_byte_reverse le ?data 64, sha_digest := sha_fips (sha_digest c) ?data\<rparr>"
      using sha_block_eq [of ?c1 le] block(2) by simp
    have "process sha_fips (sha_digest c) (pend @ take ?i xs) = sha_fips (sha_digest c) ?data"
      unfolding block(1) [symmetric] using block(2) by (rule process_block)
    then have "sha_fips (sha_digest c) ?data = process sha_fips sha_magic (m @ take ?i xs)"
      using more [of "take ?i xs"] by simp
    moreover have "64 dvd length (m @ take ?i xs)"
    proof -
      have "length (m @ take ?i xs) = length m + (64 - ?p)" using 2 by (simp add: min_absorb2)
      then show ?thesis using dvd_complete [of "length m"] by simp
    qed
    ultimately have "sha_rep (sha_update_rest le (sha_block le ?c1) (drop ?i xs) (length (drop ?i xs))) ((m @ take ?i xs) @ drop ?i xs)"
      using block(2) by (intro sha_update_rest_rep) (simp_all add: c2)
    moreover have "?p + ?i = 64" by simp
    ultimately show ?thesis unfolding sha_update_counts [OF assms] Let_def using 2 by (simp add: min_absorb1)
  next
    case 3
    let ?data = "put (sha_data c) ?p xs"
    have "?p + ?n < 64" using 3 by simp
    then have r: "(length m + ?n) mod 64 = ?p + ?n" by (simp add: mod_add_left_eq [symmetric, of "length m"] del: mod_add_left_eq)
    have "process sha_fips sha_magic (m @ xs) = sha_digest c" using more [of xs] pend 3 by simp
    moreover have "take (?p + ?n) ?data = pend @ xs" using take_put [of ?p "sha_data c" xs] data 3 by simp
    moreover have "drop (length m + ?n - (?p + ?n)) (m @ xs) = pend @ xs" by (simp add: pend_def)
    moreover have "length ?data = 64" using data 3 by simp
    ultimately have "sha_rep (?c\<lparr>sha_data := ?data, sha_local := ?p + ?n\<rparr>) (m @ xs)"
      using r by (simp add: sha_rep_def)
    moreover have "?p + ?n \<noteq> 64" using 3 by simp
    ultimately show ?thesis unfolding sha_update_counts [OF assms] Let_def using 3 by (simp add: min_absorb2)
  qed
qed

subsection \<open>The end of a digest\<close>

text \<open>Writes of zeros, and of the count of bits behind the words that were turned round.\<close>

lemma sha_bytes_append [simp]: "sha_bytes (a @ b) = sha_bytes a @ sha_bytes b"
  by (induction a) simp_all

lemma length_sha_bytes [simp]: "length (sha_bytes ks) = 4 * length ks"
  by (induction ks) simp_all

lemma put_nth:
  assumes "off + length bs \<le> length buf" "n < length buf"
  shows "put buf off bs ! n = (if n < off then buf ! n else if n < off + length bs then bs ! (n - off) else buf ! n)"
  using assms by (cases "n < off"; cases "n < off + length bs") (auto simp: put_def nth_append)

lemma load_store:
  assumes "length buf = 64" "i < 16" "j < 16"
  shows "load32 le (store32 le buf i w) j = (if i = j then w else load32 le buf j)"
proof -
  have put: "put buf (4 * i) [a, b, c, d] ! (4 * j + k) = (if i = j then [a, b, c, d] ! k else buf ! (4 * j + k))"
    if "k < 4" for a b c d k
  proof -
    have lt: "4 * i + length [a, b, c, d] \<le> length buf" "4 * j + k < length buf" using assms that by simp_all
    have "4 * j + k < 4 * i \<longleftrightarrow> j < i" "4 * j + k < 4 * i + 4 \<longleftrightarrow> j \<le> i" using that by linarith+
    then show ?thesis unfolding put_nth [OF lt] by auto
  qed
  have "w = ucast (ucast w :: byte) OR push_bit 8 (ucast (ucast (drop_bit 8 w) :: byte)) OR
      push_bit 16 (ucast (ucast (drop_bit 16 w) :: byte)) OR push_bit 24 (ucast (ucast (drop_bit 24 w) :: byte))" (is "_ = ?w")
  proof (rule bit_word_eqI)
    fix n :: nat
    assume "n < LENGTH(32)"
    then have "n < 8 \<or> n = 8 + (n - 8) \<and> n - 8 < 8 \<or> n = 16 + (n - 16) \<and> n - 16 < 8 \<or> n = 24 + (n - 24) \<and> n - 24 < 8"
      by simp linarith
    then have "n < 8 \<or> (\<exists>k<8. n = 8 + k) \<or> (\<exists>k<8. n = 16 + k) \<or> (\<exists>k<8. n = 24 + k)" by metis
    then show "bit w n \<longleftrightarrow> bit ?w n" by (elim disjE exE conjE) (simp_all add: bit_simps)
  qed
  then show ?thesis
    using put [of 0] put [of 1] put [of 2] put [of 3]
    by (auto simp: load32_def store32_def Let_def or.assoc or.commute or.left_commute)
qed

lemma length_store32 [simp]: "length buf = 64 \<Longrightarrow> i < 16 \<Longrightarrow> length (store32 le buf i w) = 64"
  by (simp add: store32_def Let_def)

lemma and_mask_byte [simp]: "(ucast (w AND 0xff) :: byte) = ucast (w :: 32 word)"
proof -
  have "w AND 0xff = take_bit 8 w" by (simp add: take_bit_eq_mask mask_eq_exp_minus_1)
  then show ?thesis by (auto intro!: bit_word_eqI simp: bit_simps)
qed

text \<open>The words of the last block: those of the bytes before, then the count.\<close>

lemma load_bytes:
  assumes "j < length ks"
  shows "load32 False (sha_bytes ks) j = ks ! j"
  using assms
proof (induction ks arbitrary: j)
  case (Cons k ks)
  show ?case
  proof (cases j)
    case 0
    have "load32 False (store32 False (replicate 64 0) 0 k) 0 = k" by (simp add: load_store)
    then show ?thesis using 0 by (simp add: load32_def store32_def put_def and_mask_byte)
  next
    case (Suc i)
    then show ?thesis using Cons by (simp add: load32_def)
  qed
qed simp

lemma load_behind: "length a = 4 * n \<Longrightarrow> load32 le (a @ b) (n + i) = load32 le b i"
  by (simp add: load32_def nth_append add_mult_distrib2)

lemma load_before: "length a = 4 * n \<Longrightarrow> i < n \<Longrightarrow> load32 le (a @ b) i = load32 le a i"
  by (simp add: load32_def nth_append)

lemma last_words:
  assumes "length a = 56" "length buf = 64" "take 56 buf = a" "i < 16"
  shows "load32 le (store32 le (store32 le (maybe_byte_reverse le buf 64) 14 hi) 15 lo) i = load32 False (a @ sha_bytes [hi, lo]) i"
proof -
  have "load32 le (store32 le (store32 le (maybe_byte_reverse le buf 64) 14 hi) 15 lo) i =
      (if i = 15 then lo else if i = 14 then hi else load32 False buf i)"
    using assms(2,4) by (simp add: load_store load_reverse length_store32)
  moreover have "load32 False buf i = load32 False (a @ sha_bytes [hi, lo]) i" if "i < 14"
  proof -
    have "buf = a @ drop 56 buf" using assms(3) by (metis append_take_drop_id)
    then have "load32 False buf i = load32 False (a @ drop 56 buf) i" by simp
    then show ?thesis using that assms(1) by (simp only: load_before [of a 14])
  qed
  moreover have "load32 False (a @ sha_bytes [hi, lo]) (14 + j) = [hi, lo] ! j" if "j < 2" for j
    using load_behind [of a 14 False "sha_bytes [hi, lo]" j] load_bytes [of j "[hi, lo]"] assms(1) that by simp
  from this [of 0] this [of 1] have "load32 False (a @ sha_bytes [hi, lo]) 14 = hi" "load32 False (a @ sha_bytes [hi, lo]) 15 = lo"
    by simp_all
  moreover have "i < 14 \<or> i = 14 \<or> i = 15" using assms(4) by linarith
  ultimately show ?thesis by (elim disjE) simp_all
qed

text \<open>What the padding writes to a buffer that starts with the pending bytes.\<close>

lemma take_put_put:
  assumes "take p buf = pend" "length pend = p" "p < length buf" "n + p + 1 \<le> length buf"
  shows "take (p + 1 + n) (put (put buf p [0x80]) (p + 1) (replicate n 0)) = pend @ 0x80 # replicate n 0"
    "length (put (put buf p [0x80]) (p + 1) (replicate n 0)) = length buf"
proof -
  have len: "length (put buf p [0x80]) = length buf" using assms by simp
  have "take (p + 1) (put buf p [0x80]) = pend @ [0x80]" using take_put [of p buf "[0x80]"] assms by simp
  then show "take (p + 1 + n) (put (put buf p [0x80]) (p + 1) (replicate n 0)) = pend @ 0x80 # replicate n 0"
    using take_put [of "p + 1" "put buf p [0x80]" "replicate n 0"] len assms by simp
  show "length (put (put buf p [0x80]) (p + 1) (replicate n 0)) = length buf"
    using assms len by simp
qed

lemma sha_last_block:
  assumes "length (sha_data c) = 64" "length a = 56" "take 56 (sha_data c) = a"
  shows "sha_digest (sha_transform le (c\<lparr>sha_data := store32 le (store32 le (maybe_byte_reverse le (sha_data c) 64) 14 hi) 15 lo\<rparr>)) =
    sha_fips (sha_digest c) (a @ sha_bytes [hi, lo])"
  using sha_transform_digest [of le "c\<lparr>sha_data := store32 le (store32 le (maybe_byte_reverse le (sha_data c) 64) 14 hi) 15 lo\<rparr>"
      "a @ sha_bytes [hi, lo]"] last_words [OF assms(2,1,3)] by simp

lemma apr_sha1_final_rep:
  assumes rep: "sha_rep c m"
  shows "fst (apr_sha1_final le c) = sha1_digest m"
proof -
  let ?p = "length m mod 64"
  define pend where "pend = drop (length m - ?p) m"
  let ?bits = "sha_bytes [len_hi (length m), len_lo (length m)]"
  have pend: "length pend = ?p" unfolding pend_def by (rule pending_length)
  have data: "length (sha_data c) = 64" "take ?p (sha_data c) = pend" and state: "sha_digest c = process sha_fips sha_magic m"
    and counts: "sha_count_lo c = len_lo (length m)" "sha_count_hi c = len_hi (length m)"
    using rep by (simp_all add: sha_rep_def pend_def)
  note more = process_more [of sha_fips sha_magic m, folded pend_def state]
  have p: "?p < 64" by simp
  have zeros: "pad_zeros (length m) =
      0x80 # (if ?p < 56 then replicate (55 - ?p) 0 else replicate (63 - ?p) 0 @ replicate 56 0)"
  proof (cases "?p < 56")
    case True
    then have "119 - ?p = 64 + (55 - ?p)" by simp
    then have "(119 - ?p) mod 64 = (55 - ?p) mod 64" by (metis mod_add_self1)
    then show ?thesis using True by (simp add: pad_zeros_def)
  next
    case False
    then have "119 - ?p = 63 - ?p + 56" "119 - ?p < 64" using p by linarith+
    then show ?thesis using False by (simp only: pad_zeros_def mod_less replicate_add if_False)
  qed
  show ?thesis
  proof (cases "?p < 56")
    case True
    let ?d = "put (put (sha_data c) ?p [0x80]) (?p + 1) (replicate (55 - ?p) 0)"
    let ?a = "pend @ 0x80 # replicate (55 - ?p) 0"
    have d: "take (?p + 1 + (55 - ?p)) ?d = ?a" "length ?d = 64"
      using take_put_put [OF data(2) pend, of "55 - ?p"] data(1) True by simp_all
    have a: "length ?a = 56" "length (?a @ ?bits) = 64" "?p + 1 + (55 - ?p) = 56" using pend True by simp_all
    let ?c = "c\<lparr>sha_data := ?d\<rparr>"
    have "sha_fips (sha_digest c) (?a @ ?bits) = process sha_fips sha_magic (m @ 0x80 # replicate (55 - ?p) 0 @ ?bits)"
      using more [of "0x80 # replicate (55 - ?p) 0 @ ?bits"] process_block [OF a(2)] by simp
    moreover have "sha_digest (sha_transform le (?c\<lparr>sha_data := store32 le (store32 le (maybe_byte_reverse le (sha_data ?c) 64) 14
        (len_hi (length m))) 15 (len_lo (length m))\<rparr>)) = sha_fips (sha_digest c) (?a @ ?bits)"
      using sha_last_block [of ?c ?a] d a by simp
    ultimately show ?thesis
      using True unfolding apr_sha1_final_def Let_def counts idx_len sha1_digest_eq zeros sha_magic_def by simp
  next
    case False
    let ?d = "put (put (sha_data c) ?p [0x80]) (?p + 1) (replicate (63 - ?p) 0)"
    let ?a = "replicate 56 0 :: byte list" and ?z = "replicate (63 - ?p) 0 :: byte list"
    have d: "take (?p + 1 + (63 - ?p)) ?d = pend @ 0x80 # ?z" "length ?d = 64"
      using take_put_put [OF data(2) pend, of "63 - ?p"] data(1) False p by simp_all
    moreover have "?p + 1 + (63 - ?p) = 64" using p by linarith
    ultimately have block: "?d = pend @ 0x80 # ?z" by simp
    let ?b = "sha_block le (c\<lparr>sha_data := ?d\<rparr>)"
    have b: "?b = c\<lparr>sha_data := maybe_byte_reverse le ?d 64, sha_digest := sha_fips (sha_digest c) ?d\<rparr>"
      using sha_block_eq [of "c\<lparr>sha_data := ?d\<rparr>" le] d(2) by simp
    have "process sha_fips (sha_digest c) ?d = sha_fips (sha_digest c) ?d" using d(2) by (rule process_block)
    then have whole: "sha_fips (sha_digest c) ?d = process sha_fips sha_magic (m @ 0x80 # ?z)"
      using more [of "0x80 # ?z"] unfolding block by simp
    let ?c = "?b\<lparr>sha_data := put (sha_data ?b) 0 ?a\<rparr>"
    have c: "length (sha_data ?c) = 64" "take 56 (sha_data ?c) = ?a"
      using take_put [of 0 "sha_data ?b" ?a] d(2) arg_cong [OF b, of sha_data] by simp_all
    have "sha_digest (sha_transform le (?c\<lparr>sha_data := store32 le (store32 le (maybe_byte_reverse le (sha_data ?c) 64) 14
        (len_hi (length m))) 15 (len_lo (length m))\<rparr>)) = sha_fips (sha_digest ?c) (?a @ ?bits)"
      by (rule sha_last_block [OF c(1) _ c(2)]) simp
    moreover have "sha_digest ?c = process sha_fips sha_magic (m @ 0x80 # ?z)" unfolding b using whole by simp
    moreover have "sha_fips (process sha_fips sha_magic (m @ 0x80 # ?z)) (?a @ ?bits) =
        process sha_fips sha_magic ((m @ 0x80 # ?z) @ ?a @ ?bits)"
    proof -
      have "63 - ?p + 1 = 64 - ?p" using p by linarith
      then have "length (m @ 0x80 # ?z) = length m + (64 - ?p)"
        by (simp only: length_append length_Cons length_replicate Suc_eq_plus1)
      then have "64 dvd length (m @ 0x80 # ?z)" using dvd_complete [of "length m"] by (simp only:)
      from process_append [OF this, of sha_fips sha_magic "?a @ ?bits"] show ?thesis by (simp add: process_block)
    qed
    ultimately show ?thesis
      using False unfolding apr_sha1_final_def Let_def counts idx_len sha1_digest_eq zeros sha_magic_def by simp
  qed
qed

section \<open>The digest in pieces\<close>

lemma sha1_init_rep: "length (sha_data ctx) = 64 \<Longrightarrow> sha_rep (apr_sha1_init ctx) []"
  by (simp add: sha_rep_def apr_sha1_init_def len_lo_def len_hi_def sha_magic_def)

interpretation sha1: digest_stream sha_rep "\<lambda>c xs. Some (apr_sha1_update le c xs (word_of_nat (length xs)))"
  "\<lambda>c. Some (fst (apr_sha1_final le c))" sha1_digest "\<lambda>xs. xs" "\<lambda>xs. length xs < 2 ^ 32"
  for le
  by unfold_locales (simp_all add: apr_sha1_update_def apr_sha1_update_rep apr_sha1_final_rep)

text \<open>C17. An initialised context (whatever it held) that is updated with any pieces of less than 4 gigabytes has the digest
  of FIPS 180-1 of the whole, on hosts of either byte order: where the pieces begin and end does not matter, nor do the unrolled
  rounds and the words turned round in memory.\<close>

theorem apr_sha1_of_pieces:
  assumes "length (sha_data ctx) = 64" and "list_all (\<lambda>xs. length xs < 2 ^ 32) pieces"
  shows "digest_chunks (\<lambda>c xs. Some (apr_sha1_update le c xs (word_of_nat (length xs)))) (\<lambda>c. Some (fst (apr_sha1_final le c)))
      (apr_sha1_init ctx) pieces = Some (sha1_digest (concat pieces))"
  using sha1.chunks [OF sha1_init_rep [OF assms(1)] assms(2)] by simp

theorem apr_sha1_of_pieces_witness:
  "digest_chunks (\<lambda>c xs. Some (apr_sha1_update True c xs (word_of_nat (length xs)))) (\<lambda>c. Some (fst (apr_sha1_final True c)))
      (apr_sha1_init \<lparr>sha_digest = [], sha_count_lo = 1, sha_count_hi = 2, sha_data = replicate 64 3, sha_local = 9\<rparr>)
      [[1, 2], [], [3]] = Some (sha1_digest [1, 2, 3])"
  using apr_sha1_of_pieces [of "\<lparr>sha_digest = [], sha_count_lo = 1, sha_count_hi = 2, sha_data = replicate 64 3, sha_local = 9\<rparr>"
      "[[1, 2], [], [3]]" True] by simp

section \<open>Passwords\<close>

lemma length_process:
  "(\<And>s b. length (tr s b) = k) \<Longrightarrow> length s = k \<Longrightarrow> length (process tr s m) = k"
proof (induction tr s m rule: process.induct)
  case (1 tr s m)
  then show ?case by (subst process.simps) auto
qed

lemma length_sha1_digest: "length (sha1_digest m) = 20"
proof -
  have "length (sha_fips H block) = 5" for H block by (simp add: sha_fips_def split: prod.splits)
  then show ?thesis unfolding sha1_digest_eq by (simp add: length_process [of sha_fips 5])
qed

text \<open>The bytes of \<open>{SHA}\<close>, the digest as base64, and two NULs.\<close>

lemma sha1_base64_eq:
  assumes "length (sha_data ctx) = 64" "length clear < 2 ^ 32"
  shows "apr_sha1_base64 le ctx clear (word_of_nat (length clear)) =
    map byte_of ''{SHA}'' @ enc_from (sha1_digest (map byte_of clear)) 0 @ [0, 0]"
proof -
  let ?d = "sha1_digest (map byte_of clear)"
  have "sha_rep (apr_sha1_update le (apr_sha1_init ctx) (map byte_of clear) (word_of_nat (length (map byte_of clear))))
      ([] @ map byte_of clear)"
    unfolding apr_sha1_update_def using assms by (intro apr_sha1_update_rep sha1_init_rep) simp_all
  then have digest: "fst (apr_sha1_final le (apr_sha1_update le (apr_sha1_init ctx) (map byte_of clear) (word_of_nat (length clear)))) = ?d"
    using apr_sha1_final_rep by (metis append_Nil length_map)
  have "length (enc_from ?d 0) = 28" using length_enc_from [of 0 ?d] by (simp add: length_sha1_digest)
  then have enc: "apr_base64_encode_binary ?d 20 = (enc_from ?d 0 @ [0], int (Suc (length (enc_from ?d 0))))"
    using encode_binary_groups [of ?d] by (simp add: length_sha1_digest to_int32_id)
  have id: "map byte_of (fst (apr_cpystrn ''{SHA}'' (5 + 1))) = map byte_of ''{SHA}'' @ [0]"
    by (simp add: apr_cpystrn_def cpystrn_loop_eq byte_of_def)
  have out: "put (map byte_of ''{SHA}'' @ [0]) 5 (enc_from ?d 0 @ [0]) = map byte_of ''{SHA}'' @ enc_from ?d 0 @ [0]"
    by (simp add: put_def)
  have "nat (int (Suc (length (enc_from ?d 0))) + 5) = length (enc_from ?d 0) + 6" by simp
  then have "put (map byte_of ''{SHA}'' @ enc_from ?d 0 @ [0]) (nat (int (Suc (length (enc_from ?d 0))) + 5)) [0] =
      map byte_of ''{SHA}'' @ enc_from ?d 0 @ [0, 0]"
    by (simp only:) (simp add: put_def)
  then show ?thesis
    unfolding apr_sha1_base64_def Let_def id by (simp only: enc prod.case out digest case_prod_unfold fst_conv snd_conv)
qed

text \<open>\<open>apr_sha1_base64\<close> writes \<open>{SHA}\<close> and 28 more characters, none of them NUL, that decode to the SHA1 of the
  password, and then two NULs: 35 bytes, one more than the string needs.\<close>

theorem apr_sha1_base64_format:
  assumes "length (sha_data ctx) = 64" "length clear < 2 ^ 32"
  shows "\<exists>digits. apr_sha1_base64 le ctx clear (word_of_nat (length clear)) = map byte_of ''{SHA}'' @ digits @ [0, 0] \<and>
    length digits = 28 \<and> 0 \<notin> set digits \<and> apr_base64_decode_binary (digits @ [0]) = (sha1_digest (map byte_of clear), 20)"
proof (intro exI conjI)
  let ?d = "sha1_digest (map byte_of clear)"
  show "length (enc_from ?d 0) = 28" using length_enc_from [of 0 ?d] by (simp add: length_sha1_digest)
  show "apr_base64_decode_binary (enc_from ?d 0 @ [0]) = (?d, 20)"
    using decode_binary_enc [of ?d "[]"] by (simp add: length_sha1_digest)
qed (use sha1_base64_eq [OF assms] enc_from_nonzero in auto)

theorem apr_sha1_base64_format_witness:
  "\<exists>digits. apr_sha1_base64 False \<lparr>sha_digest = [], sha_count_lo = 1, sha_count_hi = 2, sha_data = replicate 64 3, sha_local = 9\<rparr>
      ''secret'' 6 = map byte_of ''{SHA}'' @ digits @ [0, 0] \<and>
    length digits = 28 \<and> 0 \<notin> set digits \<and> apr_base64_decode_binary (digits @ [0]) = (sha1_digest (map byte_of ''secret''), 20)"
  using apr_sha1_base64_format [of "\<lparr>sha_digest = [], sha_count_lo = 1, sha_count_hi = 2, sha_data = replicate 64 3, sha_local = 9\<rparr>"
      "''secret''" False] by simp

end
