(* ===== verification/Apu_Password.thy ===== *)
theory Apu_Password
  imports Apu_Md5 Apu_Sha1 "HOL-Library.Monad_Syntax"
begin

unbundle bit_operations_syntax

text \<open>
  The passwords of \<open>srclib/apr-util/crypto/apr_md5.c\<close>: the format \<open>$apr1$\<close>, and the validation against a
  password in this format, in that of \<open>apr_sha1_base64\<close>, or else by \<open>crypt\<close> of the platform, which is an argument. The
  lemmas show what string \<open>apr_md5_encode\<close> computes, and that the validation accepts what was encoded.
\<close>

section \<open>The format\<close>

definition apr1_id :: cstr where
  "apr1_id = ''$apr1$''"

definition itoa64 :: cstr where
  "itoa64 = ''./0123456789ABCDEFGHIJKLMNOPQRSTUVWXYZabcdefghijklmnopqrstuvwxyz''"

fun to64 :: "64 word \<Rightarrow> nat \<Rightarrow> cstr" where
  "to64 v 0 = []"
| "to64 v (Suc n) = itoa64 ! unat (v AND 0x3f) # to64 (drop_bit 6 v) n"

text \<open>\<open>ep - sp\<close> after the search for the end of the salt, which has room for \<open>room\<close> characters.\<close>

fun salt_length :: "cstr \<Rightarrow> nat \<Rightarrow> nat" where
  "salt_length (c # ep) (Suc room) = (if c \<noteq> CHR ''$'' then Suc (salt_length ep room) else 0)"
| "salt_length ep room = 0"

text \<open>\<open>for (pl = strlen(pw); pl > 0; pl -= APR_MD5_DIGESTSIZE)\<close>\<close>

function md5_fill :: "md_ctx \<Rightarrow> byte list \<Rightarrow> nat \<Rightarrow> md_ctx option" where
  "md5_fill ctx final pl =
     (if pl > 0 then do {
        ctx \<leftarrow> md5_update_buffer ctx (take (if pl > 16 then 16 else pl) final) False;
        md5_fill ctx final (pl - 16)
      } else Some ctx)"
  by pat_completeness auto
termination
  by (relation "measure (\<lambda>(c, f, pl). pl)") auto

declare md5_fill.simps [simp del]

text \<open>\<open>for (i = strlen(pw); i != 0; i >>= 1)\<close>\<close>

function md5_bits :: "md_ctx \<Rightarrow> byte list \<Rightarrow> byte list \<Rightarrow> nat \<Rightarrow> md_ctx option" where
  "md5_bits ctx final pw i =
     (if i \<noteq> 0 then do {
        ctx \<leftarrow> (if odd i then md5_update_buffer ctx (take 1 final) False else apr_md5_update ctx (take 1 pw));
        md5_bits ctx final pw (i div 2)
      } else Some ctx)"
  by pat_completeness auto
termination
  by (relation "measure (\<lambda>(c, f, p, i). i)") auto

declare md5_bits.simps [simp del]

text \<open>The rounds, for the given values of \<open>i\<close>.\<close>

fun md5_rounds :: "byte list \<Rightarrow> byte list \<Rightarrow> nat list \<Rightarrow> byte list \<Rightarrow> md_ctx \<Rightarrow> byte list option" where
  "md5_rounds pw sp [] final ctx1 = Some final"
| "md5_rounds pw sp (i # is) final ctx1 = do {
     ctx1 \<leftarrow> Some (apr_md5_init ctx1);
     ctx1 \<leftarrow> (if odd i then apr_md5_update ctx1 pw else md5_update_buffer ctx1 final False);
     ctx1 \<leftarrow> (if i mod 3 \<noteq> 0 then apr_md5_update ctx1 sp else Some ctx1);
     ctx1 \<leftarrow> (if i mod 7 \<noteq> 0 then apr_md5_update ctx1 pw else Some ctx1);
     ctx1 \<leftarrow> (if odd i then md5_update_buffer ctx1 final False else apr_md5_update ctx1 pw);
     (final, ctx1) \<leftarrow> apr_md5_final ctx1;
     md5_rounds pw sp is final ctx1
   }"

definition md5_chars :: "byte list \<Rightarrow> cstr" where
  "md5_chars final =
     (let l = (\<lambda>a b c. push_bit 16 (ucast (final ! a)) OR push_bit 8 (ucast (final ! b)) OR ucast (final ! c) :: 64 word)
      in to64 (l 0 6 12) 4 @ to64 (l 1 7 13) 4 @ to64 (l 2 8 14) 4 @ to64 (l 3 9 15) 4 @ to64 (l 4 10 5) 4 @
         to64 (ucast (final ! 11)) 2)"

text \<open>\<open>ctx\<close> and \<open>ctx1\<close> are what the uninitialised local variables hold; the result is what is written to \<open>result\<close>.\<close>

definition apr_md5_encode :: "md_ctx \<Rightarrow> md_ctx \<Rightarrow> cstr \<Rightarrow> cstr \<Rightarrow> 64 word \<Rightarrow> cstr option" where
  "apr_md5_encode ctx ctx1 pw salt nbytes =
     (let sp = (if take (length apr1_id) salt = apr1_id then drop (length apr1_id) salt else salt);
          sl = salt_length sp 8;
          pw = map byte_of pw; salt = map byte_of (take sl sp)
      in do {
        ctx \<leftarrow> Some (apr_md5_init ctx);
        ctx \<leftarrow> apr_md5_update ctx pw;
        ctx \<leftarrow> apr_md5_update ctx (map byte_of apr1_id);
        ctx \<leftarrow> apr_md5_update ctx salt;
        ctx1 \<leftarrow> Some (apr_md5_init ctx1);
        ctx1 \<leftarrow> apr_md5_update ctx1 pw;
        ctx1 \<leftarrow> apr_md5_update ctx1 salt;
        ctx1 \<leftarrow> apr_md5_update ctx1 pw;
        (final, ctx1) \<leftarrow> apr_md5_final ctx1;
        ctx \<leftarrow> md5_fill ctx final (length pw);
        final \<leftarrow> Some (replicate 16 0);
        ctx \<leftarrow> md5_bits ctx final pw (length pw);
        (final, ctx) \<leftarrow> apr_md5_final ctx;
        final \<leftarrow> md5_rounds pw salt [0..<1000] final ctx1;
        let passwd = apr1_id @ take sl sp @ ''$'' @ md5_chars final in
        Some (fst (apr_cpystrn passwd (unat (nbytes - 1))))
      })"

section \<open>Validation\<close>

text \<open>A buffer read as a string, and the ways not to return: a hang, or \<open>apr_cpystrn\<close> from NULL.\<close>

definition c_str :: "cstr \<Rightarrow> cstr" where
  "c_str buf = takeWhile (\<lambda>c. c \<noteq> NUL) buf"

definition char_of_byte :: "byte \<Rightarrow> char" where
  "char_of_byte b = char_of (unat b)"

datatype password_fault = Hangs | Null_dereference

definition apr_password_validate ::
  "(cstr \<Rightarrow> cstr \<Rightarrow> cstr option) \<Rightarrow> bool \<Rightarrow> md_ctx \<Rightarrow> md_ctx \<Rightarrow> sha1_ctx \<Rightarrow> cstr \<Rightarrow> cstr \<Rightarrow> password_fault + apr_status" where
  "apr_password_validate crypt le ctx ctx1 context passwd hash =
     (let sample =
        (if take (length apr1_id) hash = apr1_id then
           (case apr_md5_encode ctx ctx1 passwd hash 120 of None \<Rightarrow> Inl Hangs | Some sample \<Rightarrow> Inr sample)
         else if take 5 hash = ''{SHA}'' then
           Inr (map char_of_byte (apr_sha1_base64 le context passwd (word_of_nat (length passwd))))
         else
           (case crypt passwd hash of
              None \<Rightarrow> Inl Null_dereference
            | Some crypt_pw \<Rightarrow> Inr (fst (apr_cpystrn crypt_pw (120 - 1)))))
      in case sample of
           Inl fault \<Rightarrow> Inl fault
         | Inr sample \<Rightarrow> Inr (if c_str sample = hash then APR_SUCCESS else APR_EMISMATCH))"

section \<open>The string that is computed\<close>

definition apr1_salt :: "cstr \<Rightarrow> cstr" where
  "apr1_salt salt = take 8 (takeWhile (\<lambda>c. c \<noteq> CHR ''$'') (if take 6 salt = ''$apr1$'' then drop 6 salt else salt))"

fun apr1_bits :: "byte list \<Rightarrow> nat \<Rightarrow> byte list" where
  "apr1_bits p n = (if n = 0 then [] else (if odd n then [0] else take 1 p) @ apr1_bits p (n div 2))"

declare apr1_bits.simps [simp del]

definition apr1_round :: "byte list \<Rightarrow> byte list \<Rightarrow> byte list \<Rightarrow> nat \<Rightarrow> byte list" where
  "apr1_round p s f i =
     md5_digest ((if odd i then p else f) @ (if i mod 3 \<noteq> 0 then s else []) @ (if i mod 7 \<noteq> 0 then p else []) @
       (if odd i then f else p))"

text \<open>
  The characters of the format: \<open>.\<close>, \<open>/\<close>, the digits, the capital and the small letters stand for 0 to 63,
  numbers are written with the least significant character first, and the bytes of the digest are taken three at a time.
\<close>

definition crypt_char :: "nat \<Rightarrow> char" where
  "crypt_char n = char_of (if n < 12 then n + 46 else if n < 38 then n + 53 else n + 59)"

definition crypt_digits :: "nat \<Rightarrow> nat \<Rightarrow> cstr" where
  "crypt_digits v n = map (\<lambda>k. crypt_char (v div 64 ^ k mod 64)) [0..<n]"

definition apr1_digits :: "byte list \<Rightarrow> cstr" where
  "apr1_digits f =
     concat (map (\<lambda>i. crypt_digits (65536 * unat (f ! i) + 256 * unat (f ! (i + 6)) +
         unat (f ! (if i = 4 then 5 else i + 12))) 4) [0, 1, 2, 3, 4]) @
     crypt_digits (unat (f ! 11)) 2"

definition apr1_hash :: "cstr \<Rightarrow> cstr \<Rightarrow> cstr" where
  "apr1_hash pw salt =
     (let p = map byte_of pw; s = map byte_of salt;
          alternate = md5_digest (p @ s @ p);
          first = md5_digest (p @ map byte_of ''$apr1$'' @ s @
            take (length p) (concat (replicate (length p div 16 + 1) alternate)) @ apr1_bits p (length p))
      in ''$apr1$'' @ salt @ ''$'' @ apr1_digits (foldl (apr1_round p s) first [0..<1000]))"

subsection \<open>The characters\<close>

lemma itoa64_char:
  assumes "i < 64"
  shows "itoa64 ! i = crypt_char i"
proof -
  have "itoa64 = map crypt_char [0..<64]" by (simp add: itoa64_def crypt_char_def upt_rec char_of_def bit_Suc_0_iff)
  moreover have "map crypt_char [0..<64] ! i = crypt_char i" using assms by (subst nth_map_upt) simp_all
  ultimately show ?thesis by simp
qed

lemma to64_digits: "to64 v n = crypt_digits (unat v) n"
proof (induction n arbitrary: v)
  case (Suc n)
  have "v AND 0x3f = take_bit 6 v" by (simp add: take_bit_eq_mask mask_eq_exp_minus_1)
  then have "v AND 0x3f = v mod 64" by (simp add: take_bit_eq_mod)
  then have m: "unat (v AND 0x3f) = unat v mod 64" by (simp only: unat_mod_distrib) simp
  have d: "unat (drop_bit 6 v) = unat v div 64" by (simp add: drop_bit_eq_div unat_div_distrib)
  show ?case
    using Suc [of "drop_bit 6 v"]
    by (simp add: m d itoa64_char crypt_digits_def upt_conv_Cons map_Suc_upt [symmetric] div_mult2_eq [symmetric] del: upt_Suc)
qed (simp add: crypt_digits_def)

lemma three_bytes:
  "unat (push_bit 16 (ucast a) OR push_bit 8 (ucast b) OR ucast c :: 64 word) =
    65536 * unat (a :: byte) + 256 * unat (b :: byte) + unat (c :: byte)"
proof -
  have "push_bit 16 (ucast a) OR push_bit 8 (ucast b) OR ucast c =
      (ucast c OR push_bit 8 (ucast b OR push_bit 8 (ucast a)) :: 64 word)"
    by (simp add: push_bit_or or.commute or.left_commute)
  also have "\<dots> = ucast c + push_bit 8 (ucast b + push_bit 8 (ucast a))"
    unfolding or_push [OF take_bit_byte] by (rule refl)
  also have "\<dots> = word_of_nat (65536 * unat a + 256 * unat b + unat c)"
    by (simp add: push_bit_eq_mult algebra_simps)
  finally have w: "push_bit 16 (ucast a) OR push_bit 8 (ucast b) OR ucast c =
      (word_of_nat (65536 * unat a + 256 * unat b + unat c) :: 64 word)" .
  have "unat a < 256" "unat b < 256" "unat c < 256"
    using unsigned_less [of a, where ?'a = nat] unsigned_less [of b, where ?'a = nat] unsigned_less [of c, where ?'a = nat] by simp_all
  then have "65536 * unat a + 256 * unat b + unat c < 2 ^ 64" by simp
  then show ?thesis unfolding w unsigned_of_nat by (simp add: take_bit_nat_eq_self)
qed

lemma md5_chars_digits: "md5_chars final = apr1_digits final"
proof -
  have "unat (ucast b :: 64 word) = unat b" for b :: byte
    using unsigned_less [of b, where ?'a = nat] by (simp add: unsigned_ucast_eq take_bit_nat_eq_self)
  then show ?thesis
    unfolding md5_chars_def Let_def to64_digits three_bytes apr1_digits_def by simp
qed

subsection \<open>Updates without conversion\<close>

definition md5_on :: "md_ctx \<Rightarrow> byte list \<Rightarrow> bool" where
  "md5_on c m \<longleftrightarrow> md5_rep c m \<and> md_xlate c = None"

lemma md5_on_init: "length (md_buffer c) = 64 \<Longrightarrow> md5_on (apr_md5_init c) []"
  by (simp add: md5_on_def md5_init_rep) (simp add: apr_md5_init_def md_init_def)

lemma md5_on_update:
  "md5_on c m \<Longrightarrow> md_short xs \<Longrightarrow> \<exists>c'. md5_update_buffer c xs d = Some c' \<and> md5_on c' (m @ xs)"
  unfolding md5_on_def using md5_update_rep [of c m xs d] by auto

lemma md5_on_final: "md5_on c m \<Longrightarrow> apr_md5_final c = Some (md5_digest m, md_zero)"
  unfolding md5_on_def by (simp add: md5_final_rep)

text \<open>A step of a sequence of updates.\<close>

lemma md5_bind:
  assumes "md5_on c m" "md_short xs" "\<And>c'. md5_on c' (m @ xs) \<Longrightarrow> f c' = r"
  shows "md5_update_buffer c xs d \<bind> f = r" "apr_md5_update c xs \<bind> f = r"
proof -
  show buf: "md5_update_buffer c xs d \<bind> f = r" for d
    using md5_on_update [OF assms(1,2), of d] assms(3) by auto
  show "apr_md5_update c xs \<bind> f = r" unfolding apr_md5_update_def by (rule buf)
qed

lemma md5_bind_if:
  assumes "md5_on c m" "md_short xs" "\<And>c'. md5_on c' (m @ (if b then xs else [])) \<Longrightarrow> f c' = r"
  shows "(if b then apr_md5_update c xs else Some c) \<bind> f = r"
  using md5_bind(2) [OF assms(1,2), of f r] assms(1) assms(3) by (cases b) auto

lemma md5_bind_either:
  assumes "md5_on c m" "md_short xs" "md_short ys" "\<And>c'. md5_on c' (m @ (if b then xs else ys)) \<Longrightarrow> f c' = r"
  shows "(if b then apr_md5_update c xs else md5_update_buffer c ys d) \<bind> f = r"
    "(if b then md5_update_buffer c xs d else apr_md5_update c ys) \<bind> f = r"
  using md5_bind [OF assms(1,2), of f r] md5_bind [OF assms(1,3), of f r] assms(4) by (cases b; simp)+

lemma length_md_zero [simp]: "length (md_buffer md_zero) = 64"
  by (simp add: md_zero_def)

lemma length_md5_digest [simp]: "length (md5_digest m) = 16"
proof -
  have "length (md5_rfc H block) = 4" for H block by (simp add: md5_rfc_def split: prod.splits)
  then show ?thesis by (simp add: md5_digest_def md_digest_def Encode_le_bytes [symmetric] length_process [of md5_rfc 4])
qed

lemma md_short_small: "length xs \<le> 64 \<Longrightarrow> md_short xs"
  by (simp add: md_short_def)

subsection \<open>The loops\<close>

lemma md5_fill_ok:
  "md5_on c m \<Longrightarrow> length final = 16 \<Longrightarrow>
   \<exists>c'. md5_fill c final pl = Some c' \<and> md5_on c' (m @ take pl (concat (replicate (pl div 16 + 1) final)))"
proof (induction c final pl arbitrary: m rule: md5_fill.induct)
  case (1 c final pl)
  show ?case
  proof (cases "pl > 0")
    case True
    let ?n = "if pl > 16 then 16 else pl"
    have "md_short (take ?n final)" using "1.prems" by (intro md_short_small) simp
    from md5_on_update [OF "1.prems"(1) this, of False] obtain c1
      where c1: "md5_update_buffer c (take ?n final) False = Some c1" "md5_on c1 (m @ take ?n final)" by (elim exE conjE)
    obtain c2 where c2: "md5_fill c1 final (pl - 16) = Some c2"
      "md5_on c2 ((m @ take ?n final) @ take (pl - 16) (concat (replicate ((pl - 16) div 16 + 1) final)))"
      using "1.IH" [OF True, of c1 "m @ take ?n final"] c1 "1.prems" by auto
    have "take ?n final @ take (pl - 16) (concat (replicate ((pl - 16) div 16 + 1) final)) =
        take pl (concat (replicate (pl div 16 + 1) final))"
    proof (cases "pl > 16")
      case True
      then have "pl div 16 = (pl - 16) div 16 + 1" by (simp add: le_div_geq)
      then show ?thesis using True "1.prems"(2) by simp
    next
      case False
      then show ?thesis using "1.prems"(2) by simp
    qed
    then show ?thesis using c1 c2 True by (subst md5_fill.simps) simp
  next
    case False
    then show ?thesis using "1.prems" by (subst md5_fill.simps) simp
  qed
qed

lemma md5_bits_ok:
  "md5_on c m \<Longrightarrow> \<exists>c'. md5_bits c (replicate 16 0) p i = Some c' \<and> md5_on c' (m @ apr1_bits p i)"
proof (induction c "replicate 16 0 :: byte list" p i arbitrary: m rule: md5_bits.induct)
  case (1 c p i)
  show ?case
  proof (cases "i \<noteq> 0")
    case True
    let ?x = "if odd i then [0] else take 1 p"
    have one: "take 1 (replicate 16 0) = [0 :: byte]" by (simp add: numeral_eq_Suc)
    have "md_short ?x" by (intro md_short_small) (simp add: min_def)
    from md5_on_update [OF "1.prems" this] have
      "\<exists>c'. (if odd i then md5_update_buffer c (take 1 (replicate 16 0)) False else apr_md5_update c (take 1 p)) = Some c' \<and>
        md5_on c' (m @ ?x)"
      using one by (cases "odd i") (simp_all add: apr_md5_update_def)
    then obtain c1 where c1: "(if odd i then md5_update_buffer c (take 1 (replicate 16 0)) False else apr_md5_update c (take 1 p)) = Some c1"
      "md5_on c1 (m @ ?x)" by (elim exE conjE)
    obtain c2 where "md5_bits c1 (replicate 16 0) p (i div 2) = Some c2" "md5_on c2 ((m @ ?x) @ apr1_bits p (i div 2))"
      using "1.hyps" [OF True c1] by (elim exE conjE)
    moreover have "apr1_bits p i = ?x @ apr1_bits p (i div 2)" using True by (subst apr1_bits.simps) simp
    ultimately show ?thesis using c1(1) True by (subst md5_bits.simps) simp
  next
    case False
    then show ?thesis using "1.prems" by (subst md5_bits.simps) (simp add: apr1_bits.simps)
  qed
qed

lemma md5_round_ok:
  assumes "length (md_buffer ctx1) = 64" "md_short p" "md_short s" "length f = 16"
  shows "md5_rounds p s (i # is) f ctx1 = md5_rounds p s is (apr1_round p s f i) md_zero"
proof -
  have f: "md_short f" using assms(4) by (intro md_short_small) simp
  have final: "apr_md5_final c' \<bind> (\<lambda>(final, ctx1). md5_rounds p s is final ctx1) = md5_rounds p s is (apr1_round p s f i) md_zero"
    if "md5_on c' (((([] @ (if odd i then p else f)) @ (if i mod 3 \<noteq> 0 then s else [])) @ (if i mod 7 \<noteq> 0 then p else [])) @
      (if odd i then f else p))" for c'
    using md5_on_final [OF that] by (simp add: apr1_round_def)
  show ?thesis
    unfolding md5_rounds.simps Option.bind.simps
    by (rule md5_bind_either(1) [OF md5_on_init [OF assms(1)] assms(2) f], erule md5_bind_if [OF _ assms(3)],
        erule md5_bind_if [OF _ assms(2)], erule md5_bind_either(2) [OF _ f assms(2)], erule final)
qed

lemma md5_rounds_ok:
  "length (md_buffer ctx1) = 64 \<Longrightarrow> md_short p \<Longrightarrow> md_short s \<Longrightarrow> length f = 16 \<Longrightarrow>
   md5_rounds p s is f ctx1 = Some (foldl (apr1_round p s) f is)"
proof (induction "is" arbitrary: f ctx1)
  case (Cons i "is")
  have "length (apr1_round p s f i) = 16" by (simp add: apr1_round_def)
  then show ?case
    unfolding md5_round_ok [OF Cons.prems] foldl_Cons using Cons.prems by (intro Cons.IH) simp_all
qed simp

subsection \<open>The whole\<close>

lemma take_salt_length: "take (salt_length sp n) sp = take n (takeWhile (\<lambda>c. c \<noteq> CHR ''$'') sp)"
  by (induction sp n rule: salt_length.induct) simp_all

lemma length_apr1_id: "length apr1_id = 6"
  by (simp add: apr1_id_def)

lemma apr_md5_encode_eq:
  assumes buffers: "length (md_buffer ctx) = 64" "length (md_buffer ctx1) = 64" and "length pw + 64 \<le> 2 ^ 32"
  shows "apr_md5_encode ctx ctx1 pw salt nbytes = Some (fst (apr_cpystrn (apr1_hash pw (apr1_salt salt)) (unat (nbytes - 1))))"
proof -
  let ?p = "map byte_of pw" and ?id = "map byte_of apr1_id"
  define sp where "sp = (if take (length apr1_id) salt = apr1_id then drop (length apr1_id) salt else salt)"
  have salt: "take (salt_length sp 8) sp = apr1_salt salt"
    unfolding take_salt_length apr1_salt_def sp_def length_apr1_id by (simp add: apr1_id_def)
  define s where "s = map byte_of (apr1_salt salt)"
  have short: "md_short ?p" "md_short s" "md_short ?id"
    using assms(3) by (simp_all add: md_short_def s_def apr1_salt_def apr1_id_def min_def)
  define alternate where "alternate = md5_digest (?p @ s @ ?p)"
  define fill where "fill = take (length ?p) (concat (replicate (length ?p div 16 + 1) alternate))"
  define first where "first = md5_digest (?p @ ?id @ s @ fill @ apr1_bits ?p (length ?p))"
  show ?thesis
    unfolding apr_md5_encode_def Let_def sp_def [symmetric] salt s_def [symmetric] Option.bind.simps
    apply (rule md5_bind(2) [OF md5_on_init [OF buffers(1)] short(1)], erule md5_bind(2) [OF _ short(3)], erule md5_bind(2) [OF _ short(2)])
    subgoal premises on for _ _ c
      apply (rule md5_bind(2) [OF md5_on_init [OF buffers(2)] short(1)], erule md5_bind(2) [OF _ short(2)], erule md5_bind(2) [OF _ short(1)])
      subgoal premises on1 for _ _ c1
      proof -
        have final: "apr_md5_final c1 = Some (alternate, md_zero)" using md5_on_final [OF on1] by (simp add: alternate_def)
        obtain c2 where c2: "md5_fill c alternate (length ?p) = Some c2" "md5_on c2 (((([] @ ?p) @ ?id) @ s) @ fill)"
          using md5_fill_ok [OF on, of alternate "length ?p"] unfolding fill_def alternate_def by (auto simp del: length_map)
        obtain c3 where c3: "md5_bits c2 (replicate 16 0) ?p (length ?p) = Some c3"
          "md5_on c3 ((((([] @ ?p) @ ?id) @ s) @ fill) @ apr1_bits ?p (length ?p))"
          using md5_bits_ok [OF c2(2), of ?p "length ?p"] by (elim exE conjE)
        have "apr_md5_final c3 = Some (first, md_zero)" using md5_on_final [OF c3(2)] by (simp add: first_def)
        moreover have "md5_rounds ?p s [0..<1000] first md_zero = Some (foldl (apr1_round ?p s) first [0..<1000])"
          using short by (intro md5_rounds_ok) (simp_all add: first_def)
        ultimately show ?thesis
          unfolding final Option.bind.simps prod.case c2(1) c3(1)
          by (simp add: apr1_hash_def Let_def md5_chars_digits first_def fill_def alternate_def s_def apr1_id_def)
      qed
      done
    done
qed

section \<open>Encoding and validation\<close>

lemma length_to64: "length (to64 v n) = n"
  by (induction v n rule: to64.induct) simp_all

lemma to64_chars: "set (to64 v n) \<subseteq> set itoa64"
proof (induction v n rule: to64.induct)
  case (2 v n)
  have "v AND 0x3f \<le> 0x3f" by (rule word_and_le1)
  then have "unat (v AND 0x3f) < length itoa64" by (simp add: word_le_nat_alt itoa64_def)
  then show ?case using 2 by simp
qed simp

lemma length_md5_chars: "length (md5_chars final) = 22"
  by (simp add: md5_chars_def Let_def length_to64)

lemma md5_chars_no_NUL: "NUL \<notin> set (md5_chars final)"
proof -
  have "set (md5_chars final) \<subseteq> set itoa64" using to64_chars unfolding md5_chars_def Let_def by auto
  moreover have "NUL \<notin> set itoa64" by (simp add: itoa64_def)
  ultimately show ?thesis by blast
qed

text \<open>The parts of an encoded password.\<close>

lemma apr1_hash_parts:
  obtains digits where "apr1_hash pw salt = ''$apr1$'' @ salt @ ''$'' @ digits" "length digits = 22" "NUL \<notin> set digits"
  unfolding apr1_hash_def Let_def md5_chars_digits [symmetric] using length_md5_chars md5_chars_no_NUL by metis

lemma apr1_salt_ok: "length (apr1_salt salt) \<le> 8" "CHR ''$'' \<notin> set (apr1_salt salt)"
  "NUL \<notin> set salt \<Longrightarrow> NUL \<notin> set (apr1_salt salt)"
  by (auto simp: apr1_salt_def dest!: in_set_takeD in_set_dropD set_takeWhileD split: if_splits)

lemma length_apr1_hash: "length (apr1_hash pw (apr1_salt salt)) \<le> 37"
  by (rule apr1_hash_parts [of pw "apr1_salt salt"]) (use apr1_salt_ok(1) [of salt] in simp)

lemma apr1_salt_hash: "apr1_salt (''$apr1$'' @ apr1_salt salt @ ''$'' @ digits) = apr1_salt salt"
proof -
  let ?s = "apr1_salt salt"
  have "takeWhile (\<lambda>c. c \<noteq> CHR ''$'') (?s @ CHR ''$'' # digits) = ?s"
    using apr1_salt_ok(2) [of salt] by (subst takeWhile_append2) auto
  then show ?thesis using apr1_salt_ok(1) [of salt] by (subst apr1_salt_def) simp
qed

lemma cpystrn_eq: "0 < n \<Longrightarrow> fst (apr_cpystrn src n) = take (n - 1) src @ [NUL]"
  by (simp add: apr_cpystrn_def cpystrn_loop_eq)

lemma c_str_terminated: "NUL \<notin> set s \<Longrightarrow> c_str (s @ NUL # t) = s"
  unfolding c_str_def by (subst takeWhile_append2) auto

lemma unat_minus_1: "1 < (n :: 64 word) \<Longrightarrow> unat (n - 1) = unat n - 1"
  by (simp add: word_less_nat_alt unat_sub word_le_nat_alt)

text \<open>C19. \<open>apr_md5_encode\<close> of a password of at most \<open>2 ^ 32 - 64\<close> bytes writes the string of the \<open>$apr1$\<close> format, computed with
  the MD5 of RFC 1321 and the characters of \<open>crypt_char\<close> from the password and the salt alone, whether the salt is given as such or inside an encoded password: as
  much of it as is two characters less than the buffer, and a NUL.\<close>

theorem apr_md5_encode_computes:
  assumes "length (md_buffer ctx) = 64" "length (md_buffer ctx1) = 64" "length pw + 64 \<le> 2 ^ 32" "1 < nbytes"
  shows "apr_md5_encode ctx ctx1 pw salt nbytes = Some (take (unat nbytes - 2) (apr1_hash pw (apr1_salt salt)) @ [NUL])"
proof -
  have "1 < unat nbytes" using assms(4) by (simp add: word_less_nat_alt)
  then show ?thesis
    unfolding apr_md5_encode_eq [OF assms(1-3)] unat_minus_1 [OF assms(4)] by (simp add: cpystrn_eq numeral_2_eq_2)
qed

theorem apr_md5_encode_computes_witness:
  "apr_md5_encode md_zero md_zero ''secret'' ''$apr1$salt$'' 120 = Some (apr1_hash ''secret'' ''salt'' @ [NUL])"
proof -
  have salt: "apr1_salt ''$apr1$salt$'' = ''salt''" by (simp add: apr1_salt_def)
  have "length (apr1_hash ''secret'' ''salt'') \<le> 118"
    using length_apr1_hash [of "''secret''" "''$apr1$salt$''"] unfolding salt by simp
  then show ?thesis
    using apr_md5_encode_computes [of md_zero md_zero "''secret''" 120 "''$apr1$salt$''"] unfolding salt by simp
qed

text \<open>A validation against a string of the format.\<close>

lemma validate_apr1:
  assumes "length (md_buffer ctx) = 64" "length (md_buffer ctx1) = 64" "length pw + 64 \<le> 2 ^ 32" "NUL \<notin> set salt"
  shows "apr_password_validate crypt le ctx ctx1 context pw (''$apr1$'' @ apr1_salt salt @ ''$'' @ digits) =
    Inr (if apr1_hash pw (apr1_salt salt) = ''$apr1$'' @ apr1_salt salt @ ''$'' @ digits then APR_SUCCESS else APR_EMISMATCH)"
proof -
  let ?hash = "''$apr1$'' @ apr1_salt salt @ ''$'' @ digits"
  have "NUL \<notin> set (apr1_hash pw (apr1_salt salt))"
    by (rule apr1_hash_parts [of pw "apr1_salt salt"]) (use apr1_salt_ok(3) [OF assms(4)] in simp)
  moreover have "apr_md5_encode ctx ctx1 pw ?hash 120 = Some (apr1_hash pw (apr1_salt salt) @ [NUL])"
    unfolding apr_md5_encode_eq [OF assms(1-3)] apr1_salt_hash using length_apr1_hash [of pw salt] by (simp add: cpystrn_eq)
  ultimately show ?thesis
    unfolding apr_password_validate_def Let_def by (simp add: apr1_id_def c_str_terminated)
qed

lemma char_byte [simp]: "char_of_byte (byte_of c) = c" "char_of_byte b = NUL \<longleftrightarrow> b = 0"
proof -
  have "of_char c < (256 :: nat)" by (rule of_char_less)
  then show "char_of_byte (byte_of c) = c" by (simp add: char_of_byte_def byte_of_def unat_of_nat)
  show "char_of_byte b = NUL \<longleftrightarrow> b = 0"
  proof
    assume "char_of_byte b = NUL"
    then have "of_char (char_of (unat b)) = (0 :: nat)" by (simp add: char_of_byte_def)
    then show "b = 0" using unsigned_less [of b, where ?'a = nat] by (simp add: of_char_of unat_eq_zero)
  qed (simp add: char_of_byte_def char_of_def)
qed

text \<open>C18. Validation accepts what encoding wrote: a password validates against its \<open>apr_md5_encode\<close>, with any salt, in a
  buffer of 39 bytes or more, and against its \<open>apr_sha1_base64\<close>, whatever the local variables hold and whatever the host.\<close>

theorem apr_password_validate_accepts:
  assumes "length (md_buffer ctx) = 64" "length (md_buffer ctx1) = 64" "length (sha_data context) = 64"
    and "length pw + 64 \<le> 2 ^ 32" "NUL \<notin> set salt" "39 \<le> nbytes"
  shows "(\<exists>result. apr_md5_encode ctx ctx1 pw salt nbytes = Some result \<and>
      apr_password_validate crypt le ctx ctx1 context pw (c_str result) = Inr APR_SUCCESS) \<and>
    apr_password_validate crypt le ctx ctx1 context pw
      (c_str (map char_of_byte (apr_sha1_base64 le context pw (word_of_nat (length pw))))) = Inr APR_SUCCESS"
proof
  let ?hash = "apr1_hash pw (apr1_salt salt)"
  have big: "39 \<le> unat nbytes" "1 < nbytes" using assms(6) by (simp_all add: word_le_nat_alt word_less_nat_alt)
  then have "unat (nbytes - 1) = unat nbytes - 1" by (intro unat_minus_1)
  then have run: "apr_md5_encode ctx ctx1 pw salt nbytes = Some (?hash @ [NUL])"
    unfolding apr_md5_encode_eq [OF assms(1,2,4)] using length_apr1_hash [of pw salt] big(1) by (simp add: cpystrn_eq)
  obtain digits where hash: "?hash = ''$apr1$'' @ apr1_salt salt @ ''$'' @ digits" and "NUL \<notin> set digits"
    by (rule apr1_hash_parts)
  then have "NUL \<notin> set ?hash" using apr1_salt_ok(3) [OF assms(5)] by simp
  then have "c_str (?hash @ [NUL]) = ?hash" by (rule c_str_terminated)
  moreover have "apr_password_validate crypt le ctx ctx1 context pw ?hash = Inr APR_SUCCESS"
    using validate_apr1 [OF assms(1,2,4,5), of crypt le "context" digits] hash by simp
  ultimately show "\<exists>result. apr_md5_encode ctx ctx1 pw salt nbytes = Some result \<and>
      apr_password_validate crypt le ctx ctx1 context pw (c_str result) = Inr APR_SUCCESS"
    using run by simp
  let ?enc = "enc_from (sha1_digest (map byte_of pw)) 0"
  have out: "map char_of_byte (apr_sha1_base64 le context pw (word_of_nat (length pw))) =
      (''{SHA}'' @ map char_of_byte ?enc) @ NUL # [NUL]"
    using sha1_base64_eq [OF assms(3), of pw le] assms(4) by simp
  have "NUL \<notin> set (''{SHA}'' @ map char_of_byte ?enc)"
    using enc_from_nonzero [of 0 "sha1_digest (map byte_of pw)"] by (auto simp: eq_commute [of NUL])
  then have "c_str (map char_of_byte (apr_sha1_base64 le context pw (word_of_nat (length pw)))) = ''{SHA}'' @ map char_of_byte ?enc"
    unfolding out by (rule c_str_terminated)
  then show "apr_password_validate crypt le ctx ctx1 context pw
      (c_str (map char_of_byte (apr_sha1_base64 le context pw (word_of_nat (length pw))))) = Inr APR_SUCCESS"
    by (simp add: apr_password_validate_def Let_def apr1_id_def)
qed

theorem apr_password_validate_accepts_witness:
  "(\<exists>result. apr_md5_encode md_zero md_zero ''secret'' ''salt'' 120 = Some result \<and>
      apr_password_validate (\<lambda>pw hash. None) True md_zero md_zero
        \<lparr>sha_digest = [], sha_count_lo = 1, sha_count_hi = 2, sha_data = replicate 64 3, sha_local = 9\<rparr> ''secret'' (c_str result) =
      Inr APR_SUCCESS) \<and>
    apr_password_validate (\<lambda>pw hash. None) True md_zero md_zero
      \<lparr>sha_digest = [], sha_count_lo = 1, sha_count_hi = 2, sha_data = replicate 64 3, sha_local = 9\<rparr> ''secret''
      (c_str (map char_of_byte (apr_sha1_base64 True
        \<lparr>sha_digest = [], sha_count_lo = 1, sha_count_hi = 2, sha_data = replicate 64 3, sha_local = 9\<rparr> ''secret'' 6))) =
    Inr APR_SUCCESS"
  using apr_password_validate_accepts [of md_zero md_zero
      "\<lparr>sha_digest = [], sha_count_lo = 1, sha_count_hi = 2, sha_data = replicate 64 3, sha_local = 9\<rparr>"
      "''secret''" "''salt''" 120 "\<lambda>pw hash. None" True] by simp

text \<open>A buffer of exactly the size of the encoded password and its NUL is one byte too small: \<open>apr_md5_encode\<close>
  writes the string without its last character, reports success, and no password validates against what it wrote.\<close>

theorem apr_md5_encode_truncates:
  assumes "length (md_buffer ctx) = 64" "length (md_buffer ctx1) = 64" "length pw + 64 \<le> 2 ^ 32" "length other + 64 \<le> 2 ^ 32"
    and "NUL \<notin> set salt" "nbytes = word_of_nat (length (apr1_hash pw (apr1_salt salt)) + 1)"
  shows "\<exists>result. apr_md5_encode ctx ctx1 pw salt nbytes = Some result \<and> length result = unat nbytes - 1 \<and>
    apr_password_validate crypt le ctx ctx1 context other (c_str result) = Inr APR_EMISMATCH"
proof -
  let ?hash = "apr1_hash pw (apr1_salt salt)"
  obtain digits where hash: "?hash = ''$apr1$'' @ apr1_salt salt @ ''$'' @ digits" and digits: "length digits = 22" "NUL \<notin> set digits"
    by (rule apr1_hash_parts)
  have n: "unat nbytes = length ?hash + 1"
    unfolding assms(6) unsigned_of_nat using length_apr1_hash [of pw salt] by (simp add: take_bit_nat_eq_self)
  then have "1 < nbytes" using hash by (simp add: word_less_nat_alt)
  then have minus: "unat (nbytes - 1) = length ?hash" using unat_minus_1 n by simp
  have butlast: "take (length ?hash - 1) ?hash = ''$apr1$'' @ apr1_salt salt @ ''$'' @ butlast digits"
    using digits(1) unfolding butlast_conv_take [symmetric] hash by (auto simp: butlast_append)
  have "0 < length ?hash" unfolding hash by simp
  then have run: "apr_md5_encode ctx ctx1 pw salt nbytes = Some ((''$apr1$'' @ apr1_salt salt @ ''$'' @ butlast digits) @ [NUL])"
    unfolding apr_md5_encode_eq [OF assms(1-3)] minus by (simp only: cpystrn_eq butlast)
  have "NUL \<notin> set (''$apr1$'' @ apr1_salt salt @ ''$'' @ butlast digits)"
    using digits(2) apr1_salt_ok(3) [OF assms(5)] by (auto dest: in_set_butlastD)
  then have str: "c_str ((''$apr1$'' @ apr1_salt salt @ ''$'' @ butlast digits) @ [NUL]) =
      ''$apr1$'' @ apr1_salt salt @ ''$'' @ butlast digits" by (rule c_str_terminated)
  obtain digits' where hash': "apr1_hash other (apr1_salt salt) = ''$apr1$'' @ apr1_salt salt @ ''$'' @ digits'" "length digits' = 22"
    by (rule apr1_hash_parts)
  have "apr1_hash other (apr1_salt salt) \<noteq> ''$apr1$'' @ apr1_salt salt @ ''$'' @ butlast digits"
    using hash' digits(1) by auto
  then have "apr_password_validate crypt le ctx ctx1 context other (''$apr1$'' @ apr1_salt salt @ ''$'' @ butlast digits) =
      Inr APR_EMISMATCH"
    using validate_apr1 [OF assms(1,2,4,5)] by simp
  moreover have "length ((''$apr1$'' @ apr1_salt salt @ ''$'' @ butlast digits) @ [NUL]) = unat nbytes - 1"
    unfolding n hash using digits(1) by simp
  ultimately show ?thesis using run str by simp
qed

theorem apr_md5_encode_truncates_witness:
  "\<exists>result. apr_md5_encode md_zero md_zero ''secret'' ''saltsalt'' (word_of_nat (length (apr1_hash ''secret'' ''saltsalt'') + 1)) =
      Some result \<and>
    length result = unat (word_of_nat (length (apr1_hash ''secret'' ''saltsalt'') + 1) :: 64 word) - 1 \<and>
    apr_password_validate (\<lambda>pw hash. None) True md_zero md_zero
      \<lparr>sha_digest = [], sha_count_lo = 1, sha_count_hi = 2, sha_data = [], sha_local = 9\<rparr> ''secret'' (c_str result) =
    Inr APR_EMISMATCH"
proof -
  have "apr1_salt ''saltsalt'' = ''saltsalt''" by (simp add: apr1_salt_def)
  then show ?thesis
    using apr_md5_encode_truncates [of md_zero md_zero "''secret''" "''secret''" "''saltsalt''"
        "word_of_nat (length (apr1_hash ''secret'' ''saltsalt'') + 1)" "\<lambda>pw hash. None" True
        "\<lparr>sha_digest = [], sha_count_lo = 1, sha_count_hi = 2, sha_data = [], sha_local = 9\<rparr>"] by simp
qed

text \<open>A failing \<open>crypt\<close> returns NULL, which is copied.\<close>

lemma validate_crypt_fails:
  assumes "crypt pw hash = None" "take 6 hash \<noteq> ''$apr1$''" "take 5 hash \<noteq> ''{SHA}''"
  shows "apr_password_validate crypt le ctx ctx1 context pw hash = Inl Null_dereference"
  using assms by (simp add: apr_password_validate_def Let_def length_apr1_id) (simp add: apr1_id_def)

end
