(* ===== verification/Apu_Rmm.thy ===== *)
theory Apu_Rmm
  imports Apr_Pools
begin

text \<open>
  Relocatable memory, \<open>srclib/apr-util/misc/apr_rmm.c\<close>: blocks in a region, linked by offsets into a list of the used
  and a list of the free ones, both in address order. The headers of the blocks are a map from offsets to records, the bytes of
  the region another map; offsets and sizes are natural numbers, and the computation of a size from a request is done on words.
  What the lock calls return is an argument; \<open>None\<close> is a walk along the links that never ends.

  The abstract state is the layout of the region, the list of its blocks in address order. The lemmas relate the links to the
  layout and show that allocation and release act on it as they should.
\<close>

section \<open>The region\<close>

record rmm_block =
  rb_size :: nat
  rb_prev :: nat
  rb_next :: nat

record apr_rmm =
  abssize :: nat
  firstused :: nat
  firstfree :: nat
  blk :: "nat \<Rightarrow> rmm_block"
  bytes :: "nat \<Rightarrow> 8 word"
  rmm_size :: nat

abbreviation RMM_HDR_BLOCK_SIZE :: nat where "RMM_HDR_BLOCK_SIZE \<equiv> 24"
abbreviation RMM_BLOCK_SIZE :: nat where "RMM_BLOCK_SIZE \<equiv> 24"

definition set_size :: "nat \<Rightarrow> nat \<Rightarrow> (nat \<Rightarrow> rmm_block) \<Rightarrow> nat \<Rightarrow> rmm_block" where
  "set_size a v B = B(a := (B a)\<lparr>rb_size := v\<rparr>)"

definition set_prev :: "nat \<Rightarrow> nat \<Rightarrow> (nat \<Rightarrow> rmm_block) \<Rightarrow> nat \<Rightarrow> rmm_block" where
  "set_prev a v B = B(a := (B a)\<lparr>rb_prev := v\<rparr>)"

definition set_next :: "nat \<Rightarrow> nat \<Rightarrow> (nat \<Rightarrow> rmm_block) \<Rightarrow> nat \<Rightarrow> rmm_block" where
  "set_next a v B = B(a := (B a)\<lparr>rb_next := v\<rparr>)"

section \<open>Searching\<close>

text \<open>The loop of \<open>find_block_by_offset\<close>.\<close>

partial_function (option) find_offset_loop :: "(nat \<Rightarrow> rmm_block) \<Rightarrow> nat \<Rightarrow> nat \<Rightarrow> nat \<Rightarrow> bool \<Rightarrow> nat option" where
  "find_offset_loop B prev next wanted includes =
     (if next \<noteq> 0 then
        if wanted = next then Some next
        else if wanted < next then Some (if includes then prev else 0)
        else find_offset_loop B next (rb_next (B next)) wanted includes
      else Some (if includes then prev else 0))"

declare find_offset_loop.simps [code]

definition find_block_by_offset :: "apr_rmm \<Rightarrow> nat \<Rightarrow> nat \<Rightarrow> bool \<Rightarrow> nat option" where
  "find_block_by_offset rmm next wanted includes = find_offset_loop (blk rmm) 0 next wanted includes"

text \<open>The loop of \<open>find_block_of_size\<close>: a block of exactly the size, or the best and its size.\<close>

partial_function (option) best_fit_loop :: "(nat \<Rightarrow> rmm_block) \<Rightarrow> nat \<Rightarrow> nat \<Rightarrow> nat \<Rightarrow> nat \<Rightarrow> (nat + nat \<times> nat) option" where
  "best_fit_loop B sz next best bestsize =
     (if next \<noteq> 0 then
        if rb_size (B next) = sz then Some (Inl next)
        else if rb_size (B next) \<ge> sz \<and> (bestsize = 0 \<or> rb_size (B next) < bestsize)
        then best_fit_loop B sz (rb_next (B next)) next (rb_size (B next))
        else best_fit_loop B sz (rb_next (B next)) best bestsize
      else Some (Inr (best, bestsize)))"

declare best_fit_loop.simps [code]

text \<open>The rest of a block that is larger than needed becomes a block behind it.\<close>

definition split_block :: "nat \<Rightarrow> nat \<Rightarrow> (nat \<Rightarrow> rmm_block) \<Rightarrow> nat \<Rightarrow> rmm_block" where
  "split_block best sz B =
     (let new = best + sz;
          B = set_size new (rb_size (B best) - sz) B;
          B = set_next new (rb_next (B best)) B;
          B = set_prev new best B;
          B = set_size best sz B;
          B = set_next best (best + sz) B
      in if rb_next (B new) \<noteq> 0 then set_prev (rb_next (B new)) (best + sz) B else B)"

definition find_block_of_size :: "apr_rmm \<Rightarrow> nat \<Rightarrow> (nat \<times> apr_rmm) option" where
  "find_block_of_size rmm sz =
     (case best_fit_loop (blk rmm) sz (firstfree rmm) 0 0 of
        None \<Rightarrow> None
      | Some (Inl next) \<Rightarrow> Some (next, rmm)
      | Some (Inr (best, bestsize)) \<Rightarrow>
          if bestsize > RMM_BLOCK_SIZE + sz then Some (best, rmm\<lparr>blk := split_block best sz (blk rmm)\<rparr>)
          else Some (best, rmm))"

section \<open>Moving a block between the lists\<close>

definition close_gap :: "apr_rmm \<Rightarrow> nat \<Rightarrow> bool \<Rightarrow> apr_rmm" where
  "close_gap rmm this free =
     (let b = blk rmm this;
          rmm = (if rb_prev b \<noteq> 0 then rmm\<lparr>blk := set_next (rb_prev b) (rb_next b) (blk rmm)\<rparr>
                 else if free then rmm\<lparr>firstused := rb_next b\<rparr>
                 else rmm\<lparr>firstfree := rb_next b\<rparr>)
      in if rb_next b \<noteq> 0 then rmm\<lparr>blk := set_prev (rb_next b) (rb_prev b) (blk rmm)\<rparr> else rmm)"

text \<open>The place in the other list: at its head, or behind the block found.\<close>

definition find_place :: "apr_rmm \<Rightarrow> nat \<Rightarrow> bool \<Rightarrow> apr_rmm option" where
  "find_place rmm this free =
     (case find_block_by_offset rmm (if free then firstfree rmm else firstused rmm) this True of
        None \<Rightarrow> None
      | Some p \<Rightarrow>
          let rmm = rmm\<lparr>blk := set_prev this p (blk rmm)\<rparr>
          in Some (if p = 0 then
                     if free then rmm\<lparr>blk := set_next this (firstfree rmm) (blk rmm), firstfree := this\<rparr>
                     else rmm\<lparr>blk := set_next this (firstused rmm) (blk rmm), firstused := this\<rparr>
                   else rmm))"

text \<open>Linked behind its predecessor, or swallowed by it; the block that it is now in.\<close>

definition open_behind :: "apr_rmm \<Rightarrow> nat \<Rightarrow> bool \<Rightarrow> apr_rmm \<times> nat" where
  "open_behind rmm this free =
     (let p = rb_prev (blk rmm this)
      in if p \<noteq> 0 then
           if free \<and> p + rb_size (blk rmm p) = this
           then (rmm\<lparr>blk := set_size p (rb_size (blk rmm p) + rb_size (blk rmm this)) (blk rmm)\<rparr>, p)
           else (rmm\<lparr>blk := set_next p this (set_next this (rb_next (blk rmm p)) (blk rmm))\<rparr>, this)
         else (rmm, this))"

text \<open>Linked before its successor, or swallowing it.\<close>

definition open_before :: "apr_rmm \<Rightarrow> nat \<Rightarrow> bool \<Rightarrow> apr_rmm" where
  "open_before rmm this free =
     (let n = rb_next (blk rmm this)
      in if n \<noteq> 0 then
           if free \<and> this + rb_size (blk rmm this) = n then
             let B = set_size this (rb_size (blk rmm this) + rb_size (blk rmm n)) (blk rmm);
                 B = set_next this (rb_next (B n)) B
             in rmm\<lparr>blk := if rb_next (B this) \<noteq> 0 then set_prev (rb_next (B this)) this B else B\<rparr>
           else rmm\<lparr>blk := set_prev n this (blk rmm)\<rparr>
         else rmm)"

definition move_block :: "apr_rmm \<Rightarrow> nat \<Rightarrow> bool \<Rightarrow> apr_rmm option" where
  "move_block rmm this free =
     (case find_place (close_gap rmm this free) this free of
        None \<Rightarrow> None
      | Some rmm \<Rightarrow> (case open_behind rmm this free of (rmm, this) \<Rightarrow> Some (open_before rmm this free)))"

section \<open>The operations\<close>

definition apr_rmm_init :: "apr_status \<Rightarrow> apr_status \<Rightarrow> apr_rmm \<Rightarrow> 64 word \<Rightarrow> apr_status \<times> apr_rmm" where
  "apr_rmm_init lock_rv unlock_rv rmm sz =
     (if lock_rv \<noteq> APR_SUCCESS then (lock_rv, rmm)
      else
        let rmm = rmm\<lparr>rmm_size := unat sz, abssize := unat sz, firstused := 0, firstfree := RMM_HDR_BLOCK_SIZE\<rparr>;
            B = set_size (firstfree rmm) (unat (sz - 24)) (blk rmm);
            B = set_prev (firstfree rmm) 0 B;
            B = set_next (firstfree rmm) 0 B
        in (unlock_rv, rmm\<lparr>blk := B\<rparr>))"

text \<open>\<open>do ... while (this)\<close>: the links of a list are cleared.\<close>

partial_function (option) unlink_loop :: "(nat \<Rightarrow> rmm_block) \<Rightarrow> nat \<Rightarrow> (nat \<Rightarrow> rmm_block) option" where
  "unlink_loop B this =
     (let n = rb_next (B this);
          B = set_prev this 0 (set_next this 0 B)
      in if n \<noteq> 0 then unlink_loop B n else Some B)"

declare unlink_loop.simps [code]

definition apr_rmm_destroy :: "apr_status \<Rightarrow> apr_status \<Rightarrow> apr_rmm \<Rightarrow> (apr_status \<times> apr_rmm) option" where
  "apr_rmm_destroy lock_rv unlock_rv rmm =
     (if lock_rv \<noteq> APR_SUCCESS then Some (lock_rv, rmm)
      else
        case (if firstused rmm \<noteq> 0 then unlink_loop (blk rmm) (firstused rmm) else Some (blk rmm)) of
          None \<Rightarrow> None
        | Some B \<Rightarrow>
            (case (if firstfree rmm \<noteq> 0 then unlink_loop B (firstfree rmm) else Some B) of
               None \<Rightarrow> None
             | Some B \<Rightarrow> Some (unlock_rv, rmm\<lparr>blk := B, firstused := 0, firstfree := 0, abssize := 0, rmm_size := 0\<rparr>)))"

definition apr_rmm_attach :: "apr_rmm \<Rightarrow> apr_status \<times> apr_rmm" where
  "apr_rmm_attach rmm = (APR_SUCCESS, rmm\<lparr>rmm_size := abssize rmm\<rparr>)"

definition apr_rmm_detach :: "apr_rmm \<Rightarrow> apr_status" where
  "apr_rmm_detach rmm = APR_SUCCESS"

text \<open>The result of an allocation is 0 when it fails.\<close>

definition apr_rmm_malloc :: "apr_rmm \<Rightarrow> 64 word \<Rightarrow> (nat \<times> apr_rmm) option" where
  "apr_rmm_malloc rmm reqsize =
     (let sz = APR_ALIGN_DEFAULT reqsize + 24
      in if sz < reqsize then Some (0, rmm)
         else case find_block_of_size rmm (unat sz) of
                None \<Rightarrow> None
              | Some (this, rmm) \<Rightarrow>
                  if this \<noteq> 0 then
                    case move_block rmm this False of
                      None \<Rightarrow> None
                    | Some rmm \<Rightarrow> Some (this + RMM_BLOCK_SIZE, rmm)
                  else Some (this, rmm))"

definition apr_rmm_calloc :: "apr_rmm \<Rightarrow> 64 word \<Rightarrow> (nat \<times> apr_rmm) option" where
  "apr_rmm_calloc rmm reqsize =
     (let sz = APR_ALIGN_DEFAULT reqsize + 24
      in if sz < reqsize then Some (0, rmm)
         else case find_block_of_size rmm (unat sz) of
                None \<Rightarrow> None
              | Some (this, rmm) \<Rightarrow>
                  if this \<noteq> 0 then
                    case move_block rmm this False of
                      None \<Rightarrow> None
                    | Some rmm \<Rightarrow>
                        let this = this + RMM_BLOCK_SIZE
                        in Some (this, rmm\<lparr>bytes := \<lambda>a. if this \<le> a \<and> a < this + (unat sz - RMM_BLOCK_SIZE) then 0 else bytes rmm a\<rparr>)
                  else Some (this, rmm))"

definition apr_rmm_free :: "apr_status \<Rightarrow> apr_status \<Rightarrow> apr_rmm \<Rightarrow> nat \<Rightarrow> (apr_status \<times> apr_rmm) option" where
  "apr_rmm_free lock_rv unlock_rv rmm this =
     (if this < RMM_HDR_BLOCK_SIZE + RMM_BLOCK_SIZE then Some (APR_EINVAL, rmm)
      else
        let this = this - RMM_BLOCK_SIZE; b = blk rmm this
        in if lock_rv \<noteq> APR_SUCCESS then Some (lock_rv, rmm)
           else if (if rb_prev b \<noteq> 0 then rb_next (blk rmm (rb_prev b)) \<noteq> this else firstused rmm \<noteq> this) then Some (APR_EINVAL, rmm)
           else if rb_next b \<noteq> 0 \<and> rb_prev (blk rmm (rb_next b)) \<noteq> this then Some (APR_EINVAL, rmm)
           else case move_block rmm this True of None \<Rightarrow> None | Some rmm \<Rightarrow> Some (unlock_rv, rmm))"

text \<open>Addresses are offsets from the base of the region; NULL is \<open>None\<close>.\<close>

definition apr_rmm_realloc :: "apr_status \<Rightarrow> apr_status \<Rightarrow> apr_rmm \<Rightarrow> nat option \<Rightarrow> 64 word \<Rightarrow> (nat \<times> apr_rmm) option" where
  "apr_rmm_realloc lock_rv unlock_rv rmm entity reqsize =
     (case entity of
        None \<Rightarrow> apr_rmm_malloc rmm reqsize
      | Some old \<Rightarrow>
          let sz = APR_ALIGN_DEFAULT reqsize
          in if sz < reqsize then Some (0, rmm)
             else case apr_rmm_malloc rmm sz of
                    None \<Rightarrow> None
                  | Some (this, rmm) \<Rightarrow>
                      if this = 0 then Some (0, rmm)
                      else
                        let oldsize = rb_size (blk rmm (old - RMM_BLOCK_SIZE));
                            n = (if oldsize < unat sz then oldsize else unat sz);
                            rmm = rmm\<lparr>bytes := \<lambda>a. if this \<le> a \<and> a < this + n then bytes rmm (old + (a - this)) else bytes rmm a\<rparr>
                        in case apr_rmm_free lock_rv unlock_rv rmm old of
                             None \<Rightarrow> None
                           | Some (rv, rmm) \<Rightarrow> Some (this, rmm))"

definition apr_rmm_addr_get :: "64 word \<Rightarrow> 64 word \<Rightarrow> 64 word" where
  "apr_rmm_addr_get base entity = base + entity"

definition apr_rmm_offset_get :: "64 word \<Rightarrow> 64 word \<Rightarrow> 64 word" where
  "apr_rmm_offset_get base entity = entity - base"

text \<open>The \<open>int\<close> is extended with its sign to the width of a size.\<close>

definition apr_rmm_overhead_get :: "32 word \<Rightarrow> 64 word" where
  "apr_rmm_overhead_get n = 24 + scast n * (24 + APR_ALIGN_DEFAULT 1)"

section \<open>Linked lists\<close>

definition hd0 :: "nat list \<Rightarrow> nat \<Rightarrow> nat" where
  "hd0 xs n = (case xs of [] \<Rightarrow> n | x # _ \<Rightarrow> x)"

definition last0 :: "nat \<Rightarrow> nat list \<Rightarrow> nat" where
  "last0 p xs = (if xs = [] then p else last xs)"

lemma hd0_simps [simp]: "hd0 [] n = n" "hd0 (x # xs) n = x" "hd0 (xs @ ys) n = hd0 xs (hd0 ys n)"
  by (cases xs; simp add: hd0_def)+

lemma last0_simps [simp]: "last0 p [] = p" "last0 p (x # xs) = last0 x xs" "last0 p (xs @ ys) = last0 (last0 p xs) ys"
  by (simp_all add: last0_def)

text \<open>A segment of a list: its blocks, the block before and the block behind.\<close>

fun dls :: "(nat \<Rightarrow> rmm_block) \<Rightarrow> nat \<Rightarrow> nat list \<Rightarrow> nat \<Rightarrow> bool" where
  "dls B p [] n \<longleftrightarrow> True"
| "dls B p (x # xs) n \<longleftrightarrow> x \<noteq> 0 \<and> rb_prev (B x) = p \<and> rb_next (B x) = hd0 xs n \<and> dls B x xs n"

lemma dls_append [simp]: "dls B p (xs @ ys) n \<longleftrightarrow> dls B p xs (hd0 ys n) \<and> dls B (last0 p xs) ys n"
  by (induction xs arbitrary: p) auto

lemma dls_cong:
  "(\<And>x. x \<in> set xs \<Longrightarrow> rb_prev (B' x) = rb_prev (B x) \<and> rb_next (B' x) = rb_next (B x)) \<Longrightarrow> dls B' p xs n = dls B p xs n"
  by (induction xs arbitrary: p) auto

lemma set_links_simps [simp]:
  "rb_size (set_prev a v B x) = rb_size (B x)" "rb_size (set_next a v B x) = rb_size (B x)"
  "rb_next (set_prev a v B x) = rb_next (B x)" "rb_prev (set_next a v B x) = rb_prev (B x)"
  "rb_next (set_size a v B x) = rb_next (B x)" "rb_prev (set_size a v B x) = rb_prev (B x)"
  "rb_prev (set_prev a v B x) = (if x = a then v else rb_prev (B x))"
  "rb_next (set_next a v B x) = (if x = a then v else rb_next (B x))"
  "rb_size (set_size a v B x) = (if x = a then v else rb_size (B x))"
  by (simp_all add: set_prev_def set_next_def set_size_def)

lemma dls_frame [simp]:
  "a \<notin> set xs \<Longrightarrow> dls (set_prev a v B) p xs n = dls B p xs n"
  "a \<notin> set xs \<Longrightarrow> dls (set_next a v B) p xs n = dls B p xs n"
  "dls (set_size a v B) p xs n = dls B p xs n"
  by (rule dls_cong; auto)+

lemma dls_nonzero: "dls B p xs n \<Longrightarrow> 0 \<notin> set xs"
  by (induction xs arbitrary: p) auto

lemma last0_in: "last0 p xs \<noteq> p \<Longrightarrow> last0 p xs \<in> set xs"
  by (auto simp: last0_def split: if_splits)

lemma last0_split: "last0 0 xs \<noteq> 0 \<Longrightarrow> \<exists>ys. xs = ys @ [last0 0 xs]"
  by (cases xs rule: rev_cases) auto

lemma last0_zero: "dls B p xs n \<Longrightarrow> last0 0 xs = 0 \<Longrightarrow> xs = []"
  using dls_nonzero [of B p xs n] by (cases xs rule: rev_cases) auto

text \<open>A new successor of the last block, and a new predecessor of the first.\<close>

lemma dls_set_next_last: "dls B p (xs @ [x]) n \<Longrightarrow> x \<notin> set xs \<Longrightarrow> dls (set_next x m B) p (xs @ [x]) m"
  by simp

lemma dls_set_prev_hd: "dls B p (y # ys) n \<Longrightarrow> y \<notin> set ys \<Longrightarrow> dls (set_prev y q B) q (y # ys) n"
  by simp

text \<open>The lists of a region.\<close>

definition lists_ok :: "apr_rmm \<Rightarrow> nat list \<Rightarrow> nat list \<Rightarrow> bool" where
  "lists_ok rmm us fs \<longleftrightarrow> dls (blk rmm) 0 us 0 \<and> firstused rmm = hd0 us 0 \<and> dls (blk rmm) 0 fs 0 \<and> firstfree rmm = hd0 fs 0 \<and>
     distinct (us @ fs)"

subsection \<open>Searches\<close>

lemma find_offset_last:
  assumes "dls B p xs 0" "sorted_wrt (<) xs" "wanted \<notin> set xs"
  shows "find_offset_loop B q (hd0 xs 0) wanted True = Some (last0 q (takeWhile (\<lambda>x. x < wanted) xs))"
  using assms
proof (induction xs arbitrary: p q)
  case Nil
  then show ?case by (simp add: find_offset_loop.simps)
next
  case (Cons x xs)
  then show ?case
    by (subst find_offset_loop.simps) auto
qed

lemma takeWhile_lower:
  "sorted_wrt (<) (xs @ ys) \<Longrightarrow> \<forall>x\<in>set xs. x < wanted \<Longrightarrow> \<forall>y\<in>set ys. wanted < y \<Longrightarrow> takeWhile (\<lambda>x. x < (wanted :: nat)) (xs @ ys) = xs"
  by (cases ys) (simp_all add: takeWhile_append not_less less_imp_le)

text \<open>The best fit among the free blocks, by their sizes.\<close>

fun best_fit :: "nat \<Rightarrow> (nat \<times> nat) list \<Rightarrow> nat \<Rightarrow> nat \<Rightarrow> nat + nat \<times> nat" where
  "best_fit sz [] best bestsize = Inr (best, bestsize)"
| "best_fit sz ((b, s) # fs) best bestsize =
     (if s = sz then Inl b else if s \<ge> sz \<and> (bestsize = 0 \<or> s < bestsize) then best_fit sz fs b s
      else best_fit sz fs best bestsize)"

lemma best_fit_loop_eq:
  "dls B p fs 0 \<Longrightarrow> best_fit_loop B sz (hd0 fs 0) best bestsize = Some (best_fit sz (map (\<lambda>b. (b, rb_size (B b))) fs) best bestsize)"
  by (induction fs arbitrary: p best bestsize) (subst best_fit_loop.simps; auto)+

subsection \<open>Moving a block\<close>

definition gap :: "(nat \<Rightarrow> rmm_block) \<Rightarrow> rmm_block \<Rightarrow> nat \<Rightarrow> rmm_block" where
  "gap B b =
     (let B = (if rb_prev b \<noteq> 0 then set_next (rb_prev b) (rb_next b) B else B)
      in if rb_next b \<noteq> 0 then set_prev (rb_next b) (rb_prev b) B else B)"

lemma close_gap_fields:
  "blk (close_gap rmm t free) = gap (blk rmm) (blk rmm t)"
  "firstused (close_gap rmm t free) = (if free \<and> rb_prev (blk rmm t) = 0 then rb_next (blk rmm t) else firstused rmm)"
  "firstfree (close_gap rmm t free) = (if \<not> free \<and> rb_prev (blk rmm t) = 0 then rb_next (blk rmm t) else firstfree rmm)"
  "abssize (close_gap rmm t free) = abssize rmm" "bytes (close_gap rmm t free) = bytes rmm" "rmm_size (close_gap rmm t free) = rmm_size rmm"
  by (simp_all add: close_gap_def gap_def Let_def)

lemma dls_links: "dls B 0 (xs @ t # ys) 0 \<Longrightarrow> rb_prev (B t) = last0 0 xs \<and> rb_next (B t) = hd0 ys 0"
  by simp

lemma gap_size [simp]: "rb_size (gap B b a) = rb_size (B a)"
  by (simp add: gap_def Let_def)

lemma gap_other: "a \<noteq> rb_prev b \<or> a = 0 \<Longrightarrow> a \<noteq> rb_next b \<or> a = 0 \<Longrightarrow> gap B b a = B a"
  by (auto simp: gap_def Let_def set_prev_def set_next_def)

lemma gap_dls:
  assumes "dls B 0 (xs @ t # ys) 0" "distinct (xs @ t # ys)"
  shows "dls (gap B (B t)) 0 (xs @ ys) 0"
proof -
  have t: "rb_prev (B t) = last0 0 xs" "rb_next (B t) = hd0 ys 0" using assms(1) by simp_all
  show ?thesis
  proof (cases xs rule: rev_cases)
    case Nil
    then show ?thesis using assms t by (cases ys) (simp_all add: gap_def)
  next
    case (snoc zs z)
    then have "z \<noteq> 0" using assms(1) by simp
    then show ?thesis using assms t snoc by (cases ys) (auto simp: gap_def Let_def)
  qed
qed

text \<open>The other list does not change.\<close>

lemma gap_frame:
  assumes "dls B 0 (xs @ t # ys) 0" "distinct (xs @ t # ys @ zs)" "0 \<notin> set zs"
  shows "dls (gap B (B t)) p zs n = dls B p zs n"
proof (rule dls_cong)
  fix z
  assume "z \<in> set zs"
  moreover have t: "rb_prev (B t) = last0 0 xs" "rb_next (B t) = hd0 ys 0" using assms(1) by simp_all
  moreover have "last0 0 xs \<noteq> 0 \<Longrightarrow> last0 0 xs \<in> set xs" by (rule last0_in)
  moreover have "hd0 ys 0 \<noteq> 0 \<Longrightarrow> hd0 ys 0 \<in> set ys" by (cases ys) simp_all
  ultimately have "gap B (B t) z = B z" using assms(2,3) by (intro gap_other) auto
  then show "rb_prev (gap B (B t) z) = rb_prev (B z) \<and> rb_next (gap B (B t) z) = rb_next (B z)" by simp
qed

text \<open>Behind the gap: the lists without the block.\<close>

definition without :: "apr_rmm \<Rightarrow> nat \<Rightarrow> nat list \<Rightarrow> nat list \<Rightarrow> bool" where
  "without rmm t us fs \<longleftrightarrow> lists_ok rmm us fs \<and> t \<noteq> 0 \<and> t \<notin> set (us @ fs)"

lemma close_gap_used:
  assumes "lists_ok rmm (xs @ t # ys) fs"
  shows "without (close_gap rmm t True) t (xs @ ys) fs"
proof -
  have used: "dls (blk rmm) 0 (xs @ t # ys) 0" "distinct (xs @ t # ys)" and frees: "dls (blk rmm) 0 fs 0" "distinct (xs @ t # ys @ fs)"
    and heads: "firstused rmm = hd0 (xs @ t # ys) 0" "firstfree rmm = hd0 fs 0"
    using assms by (auto simp: lists_ok_def)
  have "dls (gap (blk rmm) (blk rmm t)) 0 fs 0" using gap_frame [OF used(1) frees(2)] frees(1) dls_nonzero by blast
  moreover have "(if rb_prev (blk rmm t) = 0 then rb_next (blk rmm t) else firstused rmm) = hd0 (xs @ ys) 0"
  proof (cases "last0 0 xs = 0")
    case True
    then have "xs = []" using last0_zero [of "blk rmm" 0 xs t] used(1) by simp
    then show ?thesis using dls_links [OF used(1)] by simp
  next
    case False
    then show ?thesis using dls_links [OF used(1)] heads by (cases xs) simp_all
  qed
  ultimately show ?thesis
    using gap_dls [OF used] heads frees(2) dls_nonzero [OF used(1)] by (auto simp: without_def lists_ok_def close_gap_fields simp del: dls_append hd0_simps(3))
qed

lemma close_gap_free:
  assumes "lists_ok rmm us (xs @ t # ys)"
  shows "without (close_gap rmm t False) t us (xs @ ys)"
proof -
  have used: "dls (blk rmm) 0 us 0" and frees: "dls (blk rmm) 0 (xs @ t # ys) 0" "distinct (xs @ t # ys)" "distinct (xs @ t # ys @ us)"
    and heads: "firstused rmm = hd0 us 0" "firstfree rmm = hd0 (xs @ t # ys) 0"
    using assms by (auto simp: lists_ok_def)
  have "dls (gap (blk rmm) (blk rmm t)) 0 us 0" using gap_frame [OF frees(1,3)] used dls_nonzero by blast
  moreover have "(if rb_prev (blk rmm t) = 0 then rb_next (blk rmm t) else firstfree rmm) = hd0 (xs @ ys) 0"
  proof (cases "last0 0 xs = 0")
    case True
    then have "xs = []" using last0_zero [of "blk rmm" 0 xs t] frees(1) by simp
    then show ?thesis using dls_links [OF frees(1)] by simp
  next
    case False
    then show ?thesis using dls_links [OF frees(1)] heads by (cases xs) simp_all
  qed
  ultimately show ?thesis
    using gap_dls [OF frees(1,2)] heads frees(3) dls_nonzero [OF frees(1)] by (auto simp: without_def lists_ok_def close_gap_fields simp del: dls_append hd0_simps(3))
qed

lemma find_place_eq:
  assumes "without rmm t us fs" "(if free then fs else us) = xs @ ys" "sorted_wrt (<) (xs @ ys)" "\<forall>x\<in>set xs. x < t" "\<forall>y\<in>set ys. t < y"
  shows "find_place rmm t free =
    (let rmm = rmm\<lparr>blk := set_prev t (last0 0 xs) (blk rmm)\<rparr>
     in Some (if xs = [] then
                if free then rmm\<lparr>blk := set_next t (hd0 ys 0) (blk rmm), firstfree := t\<rparr>
                else rmm\<lparr>blk := set_next t (hd0 ys 0) (blk rmm), firstused := t\<rparr>
              else rmm))"
proof -
  have "dls (blk rmm) 0 (xs @ ys) 0" and head: "(if free then firstfree rmm else firstused rmm) = hd0 (xs @ ys) 0" and "t \<notin> set (xs @ ys)"
    using assms(1,2) by (auto simp: without_def lists_ok_def split: if_splits)
  note list = this
  have "find_block_by_offset rmm (hd0 (xs @ ys) 0) t True = Some (last0 0 xs)"
    unfolding find_block_by_offset_def
    using find_offset_last [OF list(1) assms(3) list(3), of 0] takeWhile_lower [OF assms(3-5)] by simp
  moreover have "last0 0 xs = 0 \<longleftrightarrow> xs = []" using last0_zero [of "blk rmm" 0 xs "hd0 ys 0"] list(1) by auto
  ultimately show ?thesis
    unfolding find_place_def head using head by (cases xs; cases free) (auto simp: Let_def)
qed

text \<open>A block that becomes used.\<close>

lemma open_used:
  assumes "without rmm t (xs @ ys) fs" "sorted_wrt (<) (xs @ ys)" "\<forall>x\<in>set xs. x < t" "\<forall>y\<in>set ys. t < y"
  shows "\<exists>rmm' rmm2. find_place rmm t False = Some rmm' \<and> open_behind rmm' t False = (rmm2, t) \<and>
    lists_ok (open_before rmm2 t False) (xs @ t # ys) fs \<and>
    (\<forall>a. rb_size (blk (open_before rmm2 t False) a) = rb_size (blk rmm a)) \<and>
    abssize (open_before rmm2 t False) = abssize rmm \<and> bytes (open_before rmm2 t False) = bytes rmm \<and>
    rmm_size (open_before rmm2 t False) = rmm_size rmm"
proof (cases xs rule: rev_cases)
  case Nil
  then show ?thesis
    using assms(1) find_place_eq [OF assms(1) _ assms(2-4), of False]
    by (cases ys) (auto simp: Let_def open_behind_def open_before_def without_def lists_ok_def)
next
  case (snoc zs z)
  then have "z \<noteq> 0" using assms(1) by (auto simp: without_def lists_ok_def)
  then show ?thesis
    using snoc assms(1) find_place_eq [OF assms(1) _ assms(2-4), of False]
    by (cases ys) (auto simp: Let_def open_behind_def open_before_def without_def lists_ok_def)
qed

text \<open>A block that becomes free: first it is linked behind its predecessor, or joined to it, and its successor follows.\<close>

definition half :: "apr_rmm \<Rightarrow> nat list \<Rightarrow> nat list \<Rightarrow> nat list \<Rightarrow> bool" where
  "half rmm us xs ys \<longleftrightarrow> dls (blk rmm) 0 xs (hd0 ys 0) \<and> (\<exists>q. dls (blk rmm) q ys 0) \<and> dls (blk rmm) 0 us 0 \<and>
     firstused rmm = hd0 us 0 \<and> firstfree rmm = hd0 xs 0 \<and> distinct (us @ xs @ ys)"

definition same_region :: "apr_rmm \<Rightarrow> apr_rmm \<Rightarrow> bool" where
  "same_region rmm rmm' \<longleftrightarrow> abssize rmm' = abssize rmm \<and> bytes rmm' = bytes rmm \<and> rmm_size rmm' = rmm_size rmm"

definition sizes :: "apr_rmm \<Rightarrow> nat \<Rightarrow> nat" where
  "sizes rmm a = rb_size (blk rmm a)"

lemma sizes_blk [simp]:
  "sizes (rmm\<lparr>blk := set_prev a v B\<rparr>) = sizes (rmm\<lparr>blk := B\<rparr>)" "sizes (rmm\<lparr>blk := set_next a v B\<rparr>) = sizes (rmm\<lparr>blk := B\<rparr>)"
  "sizes (rmm\<lparr>blk := set_size a v B\<rparr>) = (sizes (rmm\<lparr>blk := B\<rparr>))(a := v)"
  by (auto simp: sizes_def fun_eq_iff)

lemma open_behind_free:
  assumes "without rmm t us (xs @ ys)" "sorted_wrt (<) (xs @ ys)" "\<forall>x\<in>set xs. x < t" "\<forall>y\<in>set ys. t < y"
    and "xs \<noteq> [] \<Longrightarrow> last xs + sizes rmm (last xs) \<noteq> t"
  shows "\<exists>rmm' rmm2. find_place rmm t True = Some rmm' \<and> open_behind rmm' t True = (rmm2, t) \<and> half rmm2 us (xs @ [t]) ys \<and>
    sizes rmm2 = sizes rmm \<and> same_region rmm rmm2"
proof (cases xs rule: rev_cases)
  case Nil
  then show ?thesis
    using assms(1) find_place_eq [OF assms(1) _ assms(2-4), of True]
    by (auto simp: Let_def open_behind_def without_def lists_ok_def half_def same_region_def sizes_def fun_eq_iff)
next
  case (snoc zs z)
  then have "z \<noteq> 0" using assms(1) by (auto simp: without_def lists_ok_def)
  then show ?thesis
    using snoc assms(1,5) find_place_eq [OF assms(1) _ assms(2-4), of True]
    by (cases ys) (auto simp: Let_def open_behind_def without_def lists_ok_def half_def same_region_def sizes_def fun_eq_iff)
qed

lemma open_behind_join:
  assumes "without rmm t us ((zs @ [z]) @ ys)" "sorted_wrt (<) ((zs @ [z]) @ ys)" "\<forall>x\<in>set (zs @ [z]). x < t" "\<forall>y\<in>set ys. t < y"
    and "z + sizes rmm z = t"
  shows "\<exists>rmm' rmm2. find_place rmm t True = Some rmm' \<and> open_behind rmm' t True = (rmm2, z) \<and> half rmm2 us (zs @ [z]) ys \<and>
    sizes rmm2 = (sizes rmm)(z := sizes rmm z + sizes rmm t) \<and> same_region rmm rmm2"
proof -
  have "z \<noteq> 0" using assms(1) by (auto simp: without_def lists_ok_def)
  then show ?thesis
    using assms(1,5) find_place_eq [OF assms(1) _ assms(2-4), of True]
    by (cases ys) (auto simp: Let_def open_behind_def without_def lists_ok_def half_def same_region_def sizes_def fun_eq_iff)
qed

lemma open_before_free:
  assumes "half rmm us (xs @ [t]) ys" "ys \<noteq> [] \<Longrightarrow> t + sizes rmm t \<noteq> hd ys"
  shows "lists_ok (open_before rmm t True) us (xs @ t # ys) \<and> sizes (open_before rmm t True) = sizes rmm \<and>
    same_region rmm (open_before rmm t True)"
  using assms by (cases ys) (auto simp: Let_def open_before_def lists_ok_def half_def same_region_def sizes_def fun_eq_iff)

lemma open_before_join:
  assumes "half rmm us (xs @ [t]) (y # ys)" "t + sizes rmm t = y"
  shows "lists_ok (open_before rmm t True) us (xs @ t # ys) \<and>
    sizes (open_before rmm t True) = (sizes rmm)(t := sizes rmm t + sizes rmm y) \<and> same_region rmm (open_before rmm t True)"
  using assms by (cases ys) (auto simp: Let_def open_before_def lists_ok_def half_def same_region_def sizes_def fun_eq_iff)

section \<open>The layout\<close>

text \<open>The blocks in address order: their sizes, and whether they are used.\<close>

type_synonym layout = "(nat \<times> bool) list"

definition width :: "layout \<Rightarrow> nat" where
  "width L = sum_list (map fst L)"

fun offs :: "bool \<Rightarrow> nat \<Rightarrow> layout \<Rightarrow> nat list" where
  "offs u p [] = []"
| "offs u p ((s, v) # L) = (if u = v then [p] else []) @ offs u (p + s) L"

fun sized :: "(nat \<Rightarrow> nat) \<Rightarrow> nat \<Rightarrow> layout \<Rightarrow> bool" where
  "sized f p [] \<longleftrightarrow> True"
| "sized f p ((s, v) # L) \<longleftrightarrow> f p = s \<and> 0 < s \<and> sized f (p + s) L"

definition layout_rel :: "apr_rmm \<Rightarrow> layout \<Rightarrow> bool" where
  "layout_rel rmm L \<longleftrightarrow> lists_ok rmm (offs True 24 L) (offs False 24 L) \<and> sized (sizes rmm) 24 L \<and> abssize rmm = 24 + width L"

lemma width_simps [simp]: "width [] = 0" "width (x # L) = fst x + width L" "width (A @ B) = width A + width B"
  by (simp_all add: width_def)

lemma offs_append [simp]: "offs u p (A @ B) = offs u p A @ offs u (p + width A) B"
  by (induction A arbitrary: p) (auto simp: add.assoc)

lemma sized_append [simp]: "sized f p (A @ B) \<longleftrightarrow> sized f p A \<and> sized f (p + width A) B"
  by (induction A arbitrary: p) (auto simp: add.assoc)

lemma offs_bounds: "sized f p L \<Longrightarrow> x \<in> set (offs u p L) \<Longrightarrow> p \<le> x \<and> x + f x \<le> p + width L \<and> 0 < f x"
  by (induction L arbitrary: p) (fastforce split: if_splits)+

lemma offs_sorted: "sized f p L \<Longrightarrow> sorted_wrt (<) (offs u p L)"
proof (induction L arbitrary: p)
  case (Cons b L)
  obtain s v where b: "b = (s, v)" by (cases b)
  show ?case using Cons.IH [of "p + s"] Cons.prems offs_bounds [of f "p + s" L _ u] b by fastforce
qed simp

lemma sized_cong: "(\<And>x u. x \<in> set (offs u p L) \<Longrightarrow> f' x = f x) \<Longrightarrow> sized f' p L = sized f p L"
proof (induction L arbitrary: p)
  case (Cons b L)
  obtain s v where b: "b = (s, v)" by (cases b)
  have "f' p = f p" using Cons.prems [of p v] b by simp
  moreover have "sized f' (p + s) L = sized f (p + s) L"
  proof (rule Cons.IH)
    fix x u
    assume "x \<in> set (offs u (p + s) L)"
    then show "f' x = f x" using Cons.prems [of x u] b by simp
  qed
  ultimately show ?case using b by simp
qed simp

lemma sized_update [simp]:
  "sized f p L \<Longrightarrow> a < p \<or> p + width L \<le> a \<Longrightarrow> sized (f(a := v)) p L"
proof -
  assume "sized f p L" "a < p \<or> p + width L \<le> a"
  moreover have "sized (f(a := v)) p L = sized f p L" using calculation offs_bounds by (intro sized_cong) fastforce
  ultimately show ?thesis by simp
qed

text \<open>The block at the end of the part \<open>A\<close>.\<close>

lemma last_offs:
  assumes "sized f p A" "A \<noteq> []"
  shows "offs u p A \<noteq> [] \<and> last (offs u p A) + f (last (offs u p A)) = p + width A \<longleftrightarrow> snd (last A) = u"
    and "snd (last A) = u \<Longrightarrow> offs u p A = offs u p (butlast A) @ [p + width (butlast A)]"
    and "f (p + width (butlast A)) = fst (last A)" "width (butlast A) + fst (last A) = width A"
proof -
  obtain A' s v where A: "A = A' @ [(s, v)]" using assms(2) by (metis append_butlast_last_id surj_pair)
  have f: "sized f p A'" "f (p + width A') = s" "0 < s" using assms(1) A by simp_all
  show "offs u p A \<noteq> [] \<and> last (offs u p A) + f (last (offs u p A)) = p + width A \<longleftrightarrow> snd (last A) = u"
  proof (cases "v = u")
    case True
    then show ?thesis using A f by simp
  next
    case False
    then have "x + f x \<le> p + width A'" if "x \<in> set (offs u p A)" for x
      using that A offs_bounds [OF f(1)] by simp
    then have "offs u p A = [] \<or> last (offs u p A) + f (last (offs u p A)) \<le> p + width A'" by (metis last_in_set)
    then show ?thesis using False A f(3) by auto
  qed
  show "snd (last A) = u \<Longrightarrow> offs u p A = offs u p (butlast A) @ [p + width (butlast A)]"
    "f (p + width (butlast A)) = fst (last A)" "width (butlast A) + fst (last A) = width A"
    using A f by simp_all
qed

text \<open>The block at the start of the part \<open>C\<close>.\<close>

lemma hd_offs:
  assumes "sized f p C" "C \<noteq> []"
  shows "offs u p C \<noteq> [] \<and> hd (offs u p C) = p \<longleftrightarrow> snd (hd C) = u"
proof -
  obtain s v C' where C: "C = (s, v) # C'" using assms(2) by (cases C) auto
  have "0 < s" "sized f (p + s) C'" using assms(1) C by simp_all
  moreover from this have "p < x" if "x \<in> set (offs u (p + s) C')" for x
    using offs_bounds [of f "p + s" C' x u] that by simp
  then have "offs u (p + s) C' = [] \<or> p < hd (offs u (p + s) C')" by (metis hd_in_set)
  ultimately show ?thesis using C by auto
qed

subsection \<open>Best fit\<close>

text \<open>The free blocks with their sizes.\<close>

fun frees :: "nat \<Rightarrow> layout \<Rightarrow> (nat \<times> nat) list" where
  "frees p [] = []"
| "frees p ((s, v) # L) = (if v then [] else [(p, s)]) @ frees (p + s) L"

lemma frees_offs: "sized f p L \<Longrightarrow> map (\<lambda>b. (b, f b)) (offs False p L) = frees p L"
  by (induction L arbitrary: p) auto

lemma frees_split: "(b, s) \<in> set (frees p L) \<Longrightarrow> \<exists>A C. L = A @ (s, False) # C \<and> b = p + width A"
proof (induction L arbitrary: p)
  case (Cons x L)
  obtain t v where x: "x = (t, v)" by (cases x)
  show ?case
  proof (cases "\<not> v \<and> b = p \<and> s = t")
    case True
    then show ?thesis using x by (intro exI [of _ "[]"] exI [of _ L]) simp
  next
    case False
    then have "(b, s) \<in> set (frees (p + t) L)" using Cons.prems x by (auto split: if_splits)
    then obtain A C where "L = A @ (s, False) # C" "b = p + t + width A" using Cons.IH by blast
    then show ?thesis using x by (intro exI [of _ "x # A"] exI [of _ C]) simp
  qed
qed simp

lemma frees_sizes: "(\<exists>b. (b, s) \<in> set (frees p L)) \<longleftrightarrow> (s, False) \<in> set L"
proof (induction L arbitrary: p)
  case (Cons x L)
  obtain t v where "x = (t, v)" by (cases x)
  then show ?case using Cons.IH [of "p + t"] by (cases v) auto
qed simp

definition no_fit :: "nat \<Rightarrow> (nat \<times> nat) list \<Rightarrow> bool" where
  "no_fit sz fs \<longleftrightarrow> (\<forall>(b, s)\<in>set fs. s < sz)"

definition tightest :: "nat \<Rightarrow> (nat \<times> nat) list \<Rightarrow> nat \<Rightarrow> nat \<Rightarrow> bool" where
  "tightest sz fs b s \<longleftrightarrow> (b, s) \<in> set fs \<and> sz \<le> s \<and> (\<forall>(b', s')\<in>set fs. sz \<le> s' \<longrightarrow> s \<le> s')"

text \<open>The state of the search: nothing found yet among those seen, or the tightest of them.\<close>

lemma best_fit_ok:
  assumes "0 < sz" "bestsize = 0 \<and> best = 0 \<and> no_fit sz seen \<or> sz < bestsize \<and> tightest sz seen best bestsize"
  shows "case best_fit sz fs best bestsize of
      Inl b \<Rightarrow> tightest sz (seen @ fs) b sz
    | Inr (b, s) \<Rightarrow> s = 0 \<and> b = 0 \<and> no_fit sz (seen @ fs) \<or> sz < s \<and> tightest sz (seen @ fs) b s"
  using assms(2)
proof (induction sz fs best bestsize arbitrary: seen rule: best_fit.induct)
  case (1 sz best bestsize)
  then show ?case by simp
next
  case (2 sz b s fs best bestsize)
  note IH = "2.IH" [where seen = "seen @ [(b, s)]", unfolded append_assoc append_Cons append_Nil]
  consider "s = sz" | "s \<noteq> sz" "s \<ge> sz \<and> (bestsize = 0 \<or> s < bestsize)" | "s \<noteq> sz" "\<not> (s \<ge> sz \<and> (bestsize = 0 \<or> s < bestsize))"
    by blast
  then show ?case
  proof cases
    case 1
    then show ?thesis by (auto simp: tightest_def)
  next
    case 2
    then have "sz < s \<and> tightest sz (seen @ (b, s) # []) b s"
      using "2.prems" by (auto simp: tightest_def no_fit_def)
    then show ?thesis using 2 IH(1) by simp
  next
    case 3
    then have "bestsize = 0 \<and> best = 0 \<and> no_fit sz (seen @ (b, s) # []) \<or> sz < bestsize \<and> tightest sz (seen @ (b, s) # []) best bestsize"
      using "2.prems" by (auto simp: tightest_def no_fit_def)
    then show ?thesis unfolding best_fit.simps if_not_P [OF 3(1)] if_not_P [OF 3(2)] by (rule IH(2) [OF 3])
  qed
qed

subsection \<open>Splitting a block\<close>

definition alloc_block :: "nat \<Rightarrow> nat \<Rightarrow> layout" where
  "alloc_block sz s = (if s > 24 + sz then [(sz, True), (s - sz, False)] else [(s, True)])"

text \<open>The free block split in two free ones.\<close>

lemma split_block_ok:
  assumes rel: "layout_rel rmm (A @ (s, False) # C)" and sz: "0 < sz" "sz < s"
  shows "layout_rel (rmm\<lparr>blk := split_block (24 + width A) sz (blk rmm)\<rparr>) (A @ (sz, False) # (s - sz, False) # C)"
proof -
  let ?b = "24 + width A"
  let ?n = "?b + sz"
  let ?fa = "offs False 24 A" and ?fc = "offs False (?b + s) C"
  let ?us = "offs True 24 (A @ (s, False) # C)"
  define B where "B = blk rmm"
  have sized: "sized (sizes rmm) 24 A" "sizes rmm ?b = s" "sized (sizes rmm) (?b + s) C"
    using rel by (simp_all add: layout_rel_def)
  have lists: "dls B 0 ?us 0" "dls B 0 (?fa @ ?b # ?fc) 0" "distinct (?us @ ?fa @ ?b # ?fc)"
    "firstused rmm = hd0 ?us 0" "firstfree rmm = hd0 (?fa @ ?b # ?fc) 0"
    using rel by (simp_all add: layout_rel_def lists_ok_def B_def)
  have below: "x < ?b" if "x \<in> set (offs u 24 A)" for x u using offs_bounds [OF sized(1) that] by simp
  have above: "?b + s \<le> x" if "x \<in> set (offs u (?b + s) C)" for x u using offs_bounds [OF sized(3) that] by simp
  have fresh: "?n \<notin> set (?us @ ?fa @ ?b # ?fc)" using below above sz by fastforce
  have notin: "?b \<notin> set ?fa" "?b \<notin> set ?fc" "?b \<notin> set ?us" "?n \<notin> set ?fa" "?n \<notin> set ?fc" "?n \<notin> set ?us" "?n \<noteq> ?b"
    using lists(3) fresh sz by auto
  let ?B = "split_block ?b sz B"
  have link: "rb_next (B ?b) = hd0 ?fc 0" "rb_prev (B ?b) = last0 0 ?fa" using dls_links [OF lists(2)] by simp_all
  have used: "dls ?B 0 ?us 0"
  proof -
    have "hd0 ?fc 0 \<notin> set ?us" if "hd0 ?fc 0 \<noteq> 0" using that lists(3) by (cases ?fc) auto
    then show ?thesis using lists(1) notin link by (simp add: split_block_def Let_def)
  qed
  have frees: "dls ?B 0 (?fa @ ?b # ?n # ?fc) 0"
    using lists(2,3) notin link by (cases ?fc) (simp_all add: split_block_def Let_def)
  have "sizes (rmm\<lparr>blk := ?B\<rparr>) = (sizes rmm)(?b := sz, ?n := s - sz)"
    using notin sized(2) by (auto simp: split_block_def Let_def sizes_def B_def fun_eq_iff)
  then have "sized (sizes (rmm\<lparr>blk := ?B\<rparr>)) 24 (A @ (sz, False) # (s - sz, False) # C)"
    using sized sz notin by (simp add: add.assoc)
  moreover have "lists_ok (rmm\<lparr>blk := ?B\<rparr>) ?us (?fa @ ?b # ?n # ?fc)"
    using used frees lists notin by (auto simp: lists_ok_def)
  ultimately show ?thesis
    using rel sz unfolding layout_rel_def B_def [symmetric] by (simp add: add.assoc)
qed

section \<open>Allocation\<close>

definition need :: "64 word \<Rightarrow> nat" where
  "need reqsize = (unat reqsize + 7) div 8 * 8 + 24"

lemma alloc_size:
  assumes "\<not> APR_ALIGN_DEFAULT reqsize + 24 < reqsize"
  shows "unat (APR_ALIGN_DEFAULT reqsize + 24) = need reqsize" "need reqsize < 2 ^ 64"
proof -
  let ?x = "unat reqsize" and ?a = "unat (APR_ALIGN_DEFAULT reqsize)"
  have x: "?x < 2 ^ 64" using unsigned_less [of reqsize, where ?'a = nat] by simp
  have plus: "unat (w + v) = (unat w + unat v) mod 2 ^ 64" for w v :: "64 word" by (simp add: unat_word_ariths)
  have a: "?a = (?x + 7) mod 2 ^ 64 div 8 * 8"
    using align_unat [of reqsize 3] plus [of reqsize 7] by (simp add: APR_ALIGN_DEFAULT_def)
  have le: "?x \<le> (?a + 24) mod 2 ^ 64" using assms plus [of "APR_ALIGN_DEFAULT reqsize" 24] by (simp add: word_less_nat_alt not_less)
  have no_wrap: "?x + 7 < 2 ^ 64"
  proof (rule ccontr)
    assume wrap: "\<not> ?x + 7 < 2 ^ 64"
    then have "(?x + 7) mod 2 ^ 64 = ?x + 7 - 2 ^ 64" using x by (simp add: mod_if)
    then have "(?x + 7) mod 2 ^ 64 < 8" using x by simp
    then have "?a = 0" using a by simp
    then show False using le wrap by simp
  qed
  then have a': "?a = (?x + 7) div 8 * 8" using a by simp
  have "?x \<le> (?x + 7) div 8 * 8" "(?x + 7) div 8 * 8 \<le> ?x + 7" by linarith+
  then have "?a + 24 < 2 ^ 64" using le a' no_wrap by (simp add: mod_if split: if_splits)
  then show "unat (APR_ALIGN_DEFAULT reqsize + 24) = need reqsize" "need reqsize < 2 ^ 64"
    using plus [of "APR_ALIGN_DEFAULT reqsize" 24] a' by (simp_all add: need_def)
qed

lemma align_fits:
  assumes "need reqsize < 2 ^ 64"
  shows "\<not> APR_ALIGN_DEFAULT reqsize + 24 < reqsize"
proof -
  let ?x = "unat reqsize"
  have plus: "unat (w + v) = (unat w + unat v) mod 2 ^ 64" for w v :: "64 word" by (simp add: unat_word_ariths)
  have le: "?x \<le> (?x + 7) div 8 * 8" by linarith
  then have "?x + 7 < 2 ^ 64" using assms by (simp add: need_def)
  then have "unat (APR_ALIGN_DEFAULT reqsize) = (?x + 7) div 8 * 8"
    using align_unat [of reqsize 3] plus [of reqsize 7] by (simp add: APR_ALIGN_DEFAULT_def)
  then have "unat (APR_ALIGN_DEFAULT reqsize + 24) = need reqsize"
    using plus [of "APR_ALIGN_DEFAULT reqsize" 24] assms by (simp add: need_def)
  then show ?thesis using le by (simp add: word_less_nat_alt need_def)
qed

text \<open>The block that is chosen, split if it is much larger.\<close>

lemma find_block_of_size_ok:
  assumes rel: "layout_rel rmm L" and sz: "0 < sz"
  shows "find_block_of_size rmm sz = Some (0, rmm) \<and> (\<forall>s. (s, False) \<in> set L \<longrightarrow> s < sz) \<or>
    (\<exists>A s C rmm' rest. L = A @ (s, False) # C \<and> sz \<le> s \<and> (\<forall>s'. (s', False) \<in> set L \<longrightarrow> sz \<le> s' \<longrightarrow> s \<le> s') \<and>
       find_block_of_size rmm sz = Some (24 + width A, rmm') \<and> same_region rmm rmm' \<and>
       alloc_block sz s = (fst (hd (alloc_block sz s)), True) # rest \<and>
       layout_rel rmm' (A @ (fst (hd (alloc_block sz s)), False) # rest @ C))"
proof -
  have lists: "dls (blk rmm) 0 (offs False 24 L) 0" "firstfree rmm = hd0 (offs False 24 L) 0" "sized (sizes rmm) 24 L"
    using rel by (simp_all add: layout_rel_def lists_ok_def)
  have "map (\<lambda>b. (b, rb_size (blk rmm b))) (offs False 24 L) = frees 24 L"
    using frees_offs [OF lists(3)] by (simp add: sizes_def)
  then have loop: "best_fit_loop (blk rmm) sz (firstfree rmm) 0 0 = Some (best_fit sz (frees 24 L) 0 0)"
    using best_fit_loop_eq [OF lists(1), of sz 0 0] lists(2) by simp
  have "(0::nat) = 0 \<and> (0::nat) = 0 \<and> no_fit sz [] \<or> sz < 0 \<and> tightest sz [] 0 0" by (simp add: no_fit_def)
  note best = best_fit_ok [OF sz this, of "frees 24 L", unfolded append_Nil]
  have minimal: "\<forall>s'. (s', False) \<in> set L \<longrightarrow> sz \<le> s' \<longrightarrow> s \<le> s'" if "tightest sz (frees 24 L) b s" for b s
    using that frees_sizes [of _ 24 L, symmetric] by (fastforce simp: tightest_def)
  show ?thesis
  proof (cases "best_fit sz (frees 24 L) 0 0")
    case (Inl b)
    then have t: "tightest sz (frees 24 L) b sz" using best by simp
    then obtain A C where L: "L = A @ (sz, False) # C" "b = 24 + width A"
      using frees_split [of b sz 24 L] by (auto simp: tightest_def)
    moreover have "find_block_of_size rmm sz = Some (24 + width A, rmm)"
      using loop Inl L by (simp add: find_block_of_size_def)
    moreover have "alloc_block sz sz = (sz, True) # []" by (simp add: alloc_block_def)
    ultimately show ?thesis using minimal [OF t] rel
      by (intro disjI2 exI [of _ A] exI [of _ sz] exI [of _ C] exI [of _ rmm] exI [of _ "[]"]) (simp add: same_region_def)
  next
    case (Inr p)
    obtain b s where p: "p = (b, s)" by (cases p)
    then consider "s = 0" "b = 0" "no_fit sz (frees 24 L)" | "sz < s" "tightest sz (frees 24 L) b s"
      using best Inr by auto
    then show ?thesis
    proof cases
      case 1
      then have "\<forall>s. (s, False) \<in> set L \<longrightarrow> s < sz" using frees_sizes [of _ 24 L, symmetric] by (fastforce simp: no_fit_def)
      then show ?thesis using loop Inr p 1 by (simp add: find_block_of_size_def)
    next
      case 2
      then obtain A C where L: "L = A @ (s, False) # C" "b = 24 + width A"
        using frees_split [of b s 24 L] by (auto simp: tightest_def)
      show ?thesis
      proof (cases "s > 24 + sz")
        case True
        let ?r = "rmm\<lparr>blk := split_block b sz (blk rmm)\<rparr>"
        have "layout_rel ?r (A @ (sz, False) # (s - sz, False) # C)"
          using split_block_ok [of rmm A s C sz] rel sz 2(1) L by simp
        moreover have "find_block_of_size rmm sz = Some (24 + width A, ?r)"
          using loop Inr p True L by (simp add: find_block_of_size_def)
        moreover have "alloc_block sz s = (sz, True) # [(s - sz, False)]" using True by (simp add: alloc_block_def)
        ultimately show ?thesis using minimal [OF 2(2)] L 2(1)
          by (intro disjI2 exI [of _ A] exI [of _ s] exI [of _ C] exI [of _ ?r] exI [of _ "[(s - sz, False)]"])
            (simp add: same_region_def)
      next
        case False
        have "find_block_of_size rmm sz = Some (24 + width A, rmm)"
          using loop Inr p False L by (simp add: find_block_of_size_def)
        moreover have "alloc_block sz s = (s, True) # []" using False by (simp add: alloc_block_def)
        ultimately show ?thesis using minimal [OF 2(2)] L 2(1) rel
          by (intro disjI2 exI [of _ A] exI [of _ s] exI [of _ C] exI [of _ rmm] exI [of _ "[]"]) (simp add: same_region_def)
      qed
    qed
  qed
qed

text \<open>A free block moved to the used ones.\<close>

lemma move_block_used:
  assumes rel: "layout_rel rmm (A @ (s, False) # C)"
  shows "\<exists>rmm'. move_block rmm (24 + width A) False = Some rmm' \<and> layout_rel rmm' (A @ (s, True) # C) \<and> same_region rmm rmm'"
proof -
  let ?b = "24 + width A"
  let ?us = "offs True 24 A" and ?vs = "offs True (?b + s) C"
  have sized: "sized (sizes rmm) 24 (A @ (s, False) # C)" "sized (sizes rmm) 24 A" "sized (sizes rmm) (?b + s) C" "0 < s"
    and lists: "lists_ok rmm (?us @ ?vs) (offs False 24 A @ ?b # offs False (?b + s) C)"
    using rel by (simp_all add: layout_rel_def)
  let ?r = "close_gap rmm ?b False"
  have w: "without ?r ?b (?us @ ?vs) (offs False 24 A @ offs False (?b + s) C)" by (rule close_gap_free [OF lists])
  have sorted: "sorted_wrt (<) (?us @ ?vs)" using offs_sorted [OF sized(1), of True] by simp
  have below: "\<forall>x\<in>set ?us. x < ?b" using offs_bounds [OF sized(2)] by fastforce
  have above: "\<forall>y\<in>set ?vs. ?b < y" using offs_bounds [OF sized(3)] sized(4) by fastforce
  from open_used [OF w sorted below above] obtain rmm1 rmm2 where step: "find_place ?r ?b False = Some rmm1" "open_behind rmm1 ?b False = (rmm2, ?b)"
    and ok: "lists_ok (open_before rmm2 ?b False) (?us @ ?b # ?vs) (offs False 24 A @ offs False (?b + s) C)"
      "\<forall>a. rb_size (blk (open_before rmm2 ?b False) a) = rb_size (blk ?r a)"
      "abssize (open_before rmm2 ?b False) = abssize ?r" "bytes (open_before rmm2 ?b False) = bytes ?r"
      "rmm_size (open_before rmm2 ?b False) = rmm_size ?r"
    by (elim exE conjE)
  have "sizes (open_before rmm2 ?b False) = sizes rmm" using ok(2) by (simp add: sizes_def close_gap_fields fun_eq_iff)
  then have "layout_rel (open_before rmm2 ?b False) (A @ (s, True) # C)"
    using ok rel by (simp add: layout_rel_def close_gap_fields)
  then show ?thesis using step ok by (simp add: move_block_def same_region_def close_gap_fields)
qed

text \<open>Where an allocation puts a block, or why it fails.\<close>

definition fits :: "layout \<Rightarrow> nat \<Rightarrow> layout \<Rightarrow> nat \<Rightarrow> layout \<Rightarrow> bool" where
  "fits L sz A s C \<longleftrightarrow> L = A @ (s, False) # C \<and> sz \<le> s \<and> (\<forall>s'. (s', False) \<in> set L \<longrightarrow> sz \<le> s' \<longrightarrow> s \<le> s')"

lemma find_and_move:
  assumes "layout_rel rmm L" "0 < sz"
  shows "find_block_of_size rmm sz = Some (0, rmm) \<and> (\<forall>s. (s, False) \<in> set L \<longrightarrow> s < sz) \<or>
    (\<exists>A s C rmm1 rmm'. fits L sz A s C \<and> find_block_of_size rmm sz = Some (24 + width A, rmm1) \<and>
       move_block rmm1 (24 + width A) False = Some rmm' \<and> same_region rmm rmm' \<and> layout_rel rmm' (A @ alloc_block sz s @ C))"
  using find_block_of_size_ok [OF assms]
proof (elim disjE exE conjE)
  fix A s C rmm1 rest
  let ?t = "fst (hd (alloc_block sz s))"
  assume found: "L = A @ (s, False) # C" "sz \<le> s" "\<forall>s'. (s', False) \<in> set L \<longrightarrow> sz \<le> s' \<longrightarrow> s \<le> s'"
    "find_block_of_size rmm sz = Some (24 + width A, rmm1)" "same_region rmm rmm1"
    and block: "alloc_block sz s = (?t, True) # rest" and rel: "layout_rel rmm1 (A @ (?t, False) # rest @ C)"
  from move_block_used [OF rel] obtain rmm' where "move_block rmm1 (24 + width A) False = Some rmm'"
    "layout_rel rmm' (A @ (?t, True) # rest @ C)" "same_region rmm1 rmm'" by (elim exE conjE)
  moreover from this(2) have "layout_rel rmm' (A @ alloc_block sz s @ C)" by (subst block) simp
  ultimately show ?thesis using found
    by (intro disjI2 exI [of _ A] exI [of _ s] exI [of _ C] exI [of _ rmm1] exI [of _ rmm']) (auto simp: fits_def same_region_def)
qed simp

lemma apr_rmm_malloc_ok:
  assumes rel: "layout_rel rmm L"
  shows "apr_rmm_malloc rmm reqsize = Some (0, rmm) \<and>
      (2 ^ 64 \<le> need reqsize \<or> (\<forall>s. (s, False) \<in> set L \<longrightarrow> s < need reqsize)) \<or>
    (\<exists>A s C rmm'. fits L (need reqsize) A s C \<and> apr_rmm_malloc rmm reqsize = Some (24 + width A + 24, rmm') \<and>
       same_region rmm rmm' \<and> layout_rel rmm' (A @ alloc_block (need reqsize) s @ C))"
proof (cases "APR_ALIGN_DEFAULT reqsize + 24 < reqsize")
  case False
  have "0 < need reqsize" by (simp add: need_def)
  from find_and_move [OF rel this] show ?thesis
    using False alloc_size(1) [OF False] by (auto simp: apr_rmm_malloc_def)
next
  case True
  have "2 ^ 64 \<le> need reqsize"
  proof (rule ccontr)
    assume "\<not> 2 ^ 64 \<le> need reqsize"
    then show False using True align_fits [of reqsize] by simp
  qed
  then show ?thesis using True by (simp add: apr_rmm_malloc_def)
qed

section \<open>Release\<close>

text \<open>A block becomes free and is joined with the free blocks on either side.\<close>

definition join_left :: "layout \<Rightarrow> nat \<Rightarrow> layout \<times> nat" where
  "join_left A s = (if A \<noteq> [] \<and> \<not> snd (last A) then (butlast A, fst (last A) + s) else (A, s))"

definition join_right :: "nat \<Rightarrow> layout \<Rightarrow> layout" where
  "join_right s C = (if C \<noteq> [] \<and> \<not> snd (hd C) then (s + fst (hd C), False) # tl C else (s, False) # C)"

definition release :: "layout \<Rightarrow> nat \<Rightarrow> layout \<Rightarrow> layout" where
  "release A s C = (case join_left A s of (A, s) \<Rightarrow> A @ join_right s C)"

text \<open>The state between the two joins.\<close>

definition released :: "apr_rmm \<Rightarrow> layout \<Rightarrow> nat \<Rightarrow> layout \<Rightarrow> bool" where
  "released rmm A s C \<longleftrightarrow>
     half rmm (offs True 24 A @ offs True (24 + width A + s) C) (offs False 24 A @ [24 + width A]) (offs False (24 + width A + s) C) \<and>
     sized (sizes rmm) 24 A \<and> sizes rmm (24 + width A) = s \<and> 0 < s \<and> sized (sizes rmm) (24 + width A + s) C \<and>
     abssize rmm = 24 + width A + s + width C"

lemma release_behind:
  assumes rel: "layout_rel rmm (A @ (s, True) # C)"
  shows "\<exists>rmm1 rmm2. find_place (close_gap rmm (24 + width A) True) (24 + width A) True = Some rmm1 \<and>
    open_behind rmm1 (24 + width A) True = (rmm2, 24 + width (fst (join_left A s))) \<and>
    released rmm2 (fst (join_left A s)) (snd (join_left A s)) C \<and> same_region rmm rmm2"
proof -
  let ?b = "24 + width A"
  let ?us = "offs True 24 A @ offs True (?b + s) C" and ?fa = "offs False 24 A" and ?fc = "offs False (?b + s) C"
  let ?r = "close_gap rmm ?b True"
  have sized: "sized (sizes rmm) 24 (A @ (s, True) # C)" "sized (sizes rmm) 24 A" "sized (sizes rmm) (?b + s) C" "0 < s"
    "sizes rmm ?b = s"
    and lists: "lists_ok rmm (offs True 24 A @ ?b # offs True (?b + s) C) (?fa @ ?fc)"
    using rel by (simp_all add: layout_rel_def)
  have region: "same_region rmm ?r" "sizes ?r = sizes rmm"
    by (simp_all add: same_region_def close_gap_fields sizes_def fun_eq_iff)
  have w: "without ?r ?b ?us (?fa @ ?fc)" by (rule close_gap_used [OF lists])
  have sorted: "sorted_wrt (<) (?fa @ ?fc)" using offs_sorted [OF sized(1), of False] by simp
  have below: "\<forall>x\<in>set ?fa. x < ?b" using offs_bounds [OF sized(2)] by fastforce
  have above: "\<forall>y\<in>set ?fc. ?b < y" using offs_bounds [OF sized(3)] sized(4) by fastforce
  have absz: "abssize rmm = ?b + s + width C" using rel by (simp add: layout_rel_def)
  show ?thesis
  proof (cases "A \<noteq> [] \<and> \<not> snd (last A)")
    case True
    let ?A = "butlast A" and ?z = "24 + width (butlast A)" and ?s = "fst (last A)"
    have "A \<noteq> []" "snd (last A) = False" using True by simp_all
    note ends = last_offs [OF sized(2) this(1)]
    have fa: "?fa = offs False 24 ?A @ [?z]" by (rule ends(2) [OF \<open>snd (last A) = False\<close>])
    have A: "A = ?A @ [(?s, False)]" using True by (metis append_butlast_last_id prod.collapse)
    have z: "?z + ?s = ?b" "sizes rmm ?z = ?s" using ends(3,4) by simp_all
    have used: "offs True 24 A = offs True 24 ?A" by (subst A) simp
    from open_behind_join [OF w [unfolded fa] sorted [unfolded fa] below [unfolded fa] above] z region(2)
    obtain rmm1 rmm2 where step: "find_place ?r ?b True = Some rmm1" "open_behind rmm1 ?b True = (rmm2, ?z)"
      and half: "half rmm2 ?us (offs False 24 ?A @ [?z]) ?fc" and sz: "sizes rmm2 = (sizes rmm)(?z := ?s + s)"
      and same: "same_region ?r rmm2" using sized(5) by auto
    have "sized (sizes rmm) 24 ?A" using sized(2) by (subst (asm) A) simp
    moreover have e: "?z + (?s + s) = ?b + s" "?z < ?b + s" using z(1) sized(4) by simp_all
    moreover have "sized (sizes rmm2) (?b + s) C" unfolding sz by (rule sized_update [OF sized(3)]) (use e in simp)
    ultimately have "released rmm2 ?A (?s + s) C"
      unfolding released_def e(1) using half sz sized(4) absz same region(1) used by (simp add: same_region_def)
    then show ?thesis using step same region(1) True by (auto simp: join_left_def same_region_def)
  next
    case False
    have "last ?fa + sizes ?r (last ?fa) \<noteq> ?b" if "?fa \<noteq> []"
      using that False last_offs(1) [OF sized(2), of False] region(2) by (cases "A = []") auto
    from open_behind_free [OF w sorted below above this]
    obtain rmm1 rmm2 where step: "find_place ?r ?b True = Some rmm1" "open_behind rmm1 ?b True = (rmm2, ?b)"
      and half: "half rmm2 ?us (?fa @ [?b]) ?fc" and sz: "sizes rmm2 = sizes rmm" and same: "same_region ?r rmm2"
      using region(2) by auto
    then have "released rmm2 A s C" using sized absz region(1) by (simp add: released_def same_region_def)
    then show ?thesis using step same region(1) False by (auto simp: join_left_def same_region_def)
  qed
qed

lemma release_before:
  assumes "released rmm A s C"
  shows "layout_rel (open_before rmm (24 + width A) True) (A @ join_right s C) \<and> same_region rmm (open_before rmm (24 + width A) True)"
proof -
  let ?b = "24 + width A"
  let ?us = "offs True 24 A @ offs True (?b + s) C" and ?fa = "offs False 24 A" and ?fc = "offs False (?b + s) C"
  have half: "half rmm ?us (?fa @ [?b]) ?fc" and sized: "sized (sizes rmm) 24 A" "sizes rmm ?b = s" "0 < s" "sized (sizes rmm) (?b + s) C"
    and absz: "abssize rmm = ?b + s + width C"
    using assms by (simp_all add: released_def)
  show ?thesis
  proof (cases "C \<noteq> [] \<and> \<not> snd (hd C)")
    case True
    then obtain t C' where C: "C = (t, False) # C'" by (cases C) auto
    have t: "sizes rmm (?b + s) = t" "0 < t" "sized (sizes rmm) (?b + s + t) C'" using sized(4) C by simp_all
    have "half rmm ?us (?fa @ [?b]) ((?b + s) # offs False (?b + s + t) C')" using half C by simp
    from open_before_join [OF this] sized(2) t(1)
    have ok: "lists_ok (open_before rmm ?b True) ?us (?fa @ ?b # offs False (?b + s + t) C')"
      "sizes (open_before rmm ?b True) = (sizes rmm)(?b := s + t)" "same_region rmm (open_before rmm ?b True)" by simp_all
    then show ?thesis
      using C sized t absz by (simp add: layout_rel_def join_right_def same_region_def add.assoc)
  next
    case False
    have "?b + sizes rmm ?b \<noteq> hd ?fc" if "?fc \<noteq> []"
      using that False hd_offs [OF sized(4), of False] sized(2) by (cases "C = []") auto
    from open_before_free [OF half this]
    have "lists_ok (open_before rmm ?b True) ?us (?fa @ ?b # ?fc)" "sizes (open_before rmm ?b True) = sizes rmm"
      "same_region rmm (open_before rmm ?b True)" by simp_all
    then show ?thesis using False sized absz by (auto simp: layout_rel_def join_right_def same_region_def add.assoc)
  qed
qed

lemma apr_rmm_free_ok:
  assumes rel: "layout_rel rmm (A @ (s, True) # C)"
  shows "\<exists>rmm'. apr_rmm_free APR_SUCCESS unlock_rv rmm (24 + width A + 24) = Some (unlock_rv, rmm') \<and>
    layout_rel rmm' (release A s C) \<and> same_region rmm rmm'"
proof -
  let ?b = "24 + width A"
  let ?us = "offs True 24 A" and ?vs = "offs True (?b + s) C"
  obtain rmm1 rmm2 where step: "find_place (close_gap rmm ?b True) ?b True = Some rmm1"
    "open_behind rmm1 ?b True = (rmm2, 24 + width (fst (join_left A s)))"
    and mid: "released rmm2 (fst (join_left A s)) (snd (join_left A s)) C" "same_region rmm rmm2"
    using release_behind [OF rel] by (elim exE conjE)
  let ?r = "open_before rmm2 (24 + width (fst (join_left A s))) True"
  have move: "move_block rmm ?b True = Some ?r" using step by (simp add: move_block_def)
  have ok: "layout_rel ?r (release A s C)" "same_region rmm ?r"
    using release_before [OF mid(1)] mid(2) by (simp_all add: release_def split_def same_region_def)
  have used: "dls (blk rmm) 0 (?us @ ?b # ?vs) 0" "firstused rmm = hd0 (?us @ ?b # ?vs) 0"
    using rel by (simp_all add: layout_rel_def lists_ok_def)
  have "(if rb_prev (blk rmm ?b) \<noteq> 0 then rb_next (blk rmm (rb_prev (blk rmm ?b))) = ?b else firstused rmm = ?b)"
  proof (cases ?us rule: rev_cases)
    case Nil
    then show ?thesis using used by simp
  next
    case (snoc xs x)
    then show ?thesis using used by auto
  qed
  moreover have "rb_next (blk rmm ?b) \<noteq> 0 \<longrightarrow> rb_prev (blk rmm (rb_next (blk rmm ?b))) = ?b"
    using used by (cases ?vs) simp_all
  ultimately show ?thesis using move ok by (auto simp: apr_rmm_free_def Let_def split: if_splits)
qed

section \<open>Histories\<close>

text \<open>No two free blocks are neighbours; blocks have room for their header and are aligned.\<close>

definition tidy :: "layout \<Rightarrow> bool" where
  "tidy L \<longleftrightarrow> successively (\<lambda>x y. snd x \<or> snd y) L \<and> (\<forall>(s, u)\<in>set L. 24 \<le> s \<and> 8 dvd s)"

lemma need_props [simp]: "24 \<le> need reqsize" "8 dvd need reqsize" "unat reqsize + 24 \<le> need reqsize"
proof -
  show "24 \<le> need reqsize" by (simp add: need_def)
  have "8 dvd (24 :: nat)" by (rule dvdI [of _ _ 3]) simp
  then show "8 dvd need reqsize" unfolding need_def by (intro dvd_add) simp_all
  show "unat reqsize + 24 \<le> need reqsize" unfolding need_def by linarith
qed

lemma tidy_alloc:
  assumes "tidy (A @ (s, False) # C)" "need reqsize \<le> s"
  shows "tidy (A @ alloc_block (need reqsize) s @ C)"
  using assms unfolding tidy_def alloc_block_def
  by (auto simp: successively_append_iff successively_Cons dvd_diff_nat)

lemma tidy_release:
  assumes "tidy (A @ (s, True) # C)"
  shows "tidy (release A s C)"
proof -
  have A: "successively (\<lambda>x y. snd x \<or> snd y) A" "\<forall>(s, u)\<in>set A. 24 \<le> s \<and> 8 dvd s"
    and C: "successively (\<lambda>x y. snd x \<or> snd y) C" "\<forall>(s, u)\<in>set C. 24 \<le> s \<and> 8 dvd s" and s: "24 \<le> s" "8 dvd s"
    using assms by (auto simp: tidy_def successively_append_iff successively_Cons)
  obtain A' s' where left: "join_left A s = (A', s')" by fastforce
  have A': "successively (\<lambda>x y. snd x \<or> snd y) A'" "\<forall>(s, u)\<in>set A'. 24 \<le> s \<and> 8 dvd s" "24 \<le> s'" "8 dvd s'"
    "A' \<noteq> [] \<Longrightarrow> snd (last A')"
    using left A s by (cases A rule: rev_cases; auto simp: join_left_def successively_append_iff split: if_splits)+
  have "successively (\<lambda>x y. snd x \<or> snd y) (join_right s' C)" "\<forall>(s, u)\<in>set (join_right s' C). 24 \<le> s \<and> 8 dvd s"
    using C A'(3,4) by (cases C; cases "tl C"; auto simp: join_right_def successively_Cons split: if_splits)+
  then show ?thesis
    using A' left by (auto simp: tidy_def release_def successively_append_iff)
qed

text \<open>The used blocks with their sizes.\<close>

fun useds :: "nat \<Rightarrow> layout \<Rightarrow> (nat \<times> nat) list" where
  "useds p [] = []"
| "useds p ((s, v) # L) = (if v then [(p, s)] else []) @ useds (p + s) L"

lemma useds_append [simp]: "useds p (A @ B) = useds p A @ useds (p + width A) B"
  by (induction A arbitrary: p) (auto simp: add.assoc)

lemma useds_split: "(b, s) \<in> set (useds p L) \<Longrightarrow> \<exists>A C. L = A @ (s, True) # C \<and> b = p + width A"
proof (induction L arbitrary: p)
  case (Cons x L)
  obtain t v where x: "x = (t, v)" by (cases x)
  show ?case
  proof (cases "v \<and> b = p \<and> s = t")
    case True
    then show ?thesis using x by (intro exI [of _ "[]"] exI [of _ L]) simp
  next
    case False
    then have "(b, s) \<in> set (useds (p + t) L)" using Cons.prems x by (auto split: if_splits)
    then obtain A C where "L = A @ (s, True) # C" "b = p + t + width A" using Cons.IH by blast
    then show ?thesis using x by (intro exI [of _ "x # A"] exI [of _ C]) simp
  qed
qed simp

lemma useds_bounds: "\<forall>(s, u)\<in>set L. 0 < s \<Longrightarrow> (b, s) \<in> set (useds p L) \<Longrightarrow> p \<le> b \<and> b + s \<le> p + width L"
  by (induction L arbitrary: p) (fastforce split: if_splits)+

text \<open>The used blocks lie one behind the other.\<close>

lemma useds_apart: "sorted_wrt (\<lambda>x y. fst x + snd x \<le> fst y) (useds p L)"
proof (induction L arbitrary: p)
  case (Cons x L)
  obtain s v where x: "x = (s, v)" by (cases x)
  have "q \<le> fst y" if "y \<in> set (useds q L)" for y q
    using that by (induction L arbitrary: q) (fastforce split: if_splits)+
  then show ?case using Cons.IH x by auto
qed simp

lemma useds_alloc:
  "24 \<le> sz \<Longrightarrow> sz \<le> s \<Longrightarrow> \<exists>t. sz \<le> t \<and> useds p (A @ alloc_block sz s @ C) = useds p A @ (p + width A, t) # useds (p + width A + s) C"
  by (auto simp: alloc_block_def add.assoc)

lemma useds_release: "useds p (release A s C) = useds p A @ useds (p + width A + s) C"
proof -
  obtain A' s' where left: "join_left A s = (A', s')" by fastforce
  have "useds p A' = useds p A \<and> width A' + s' = width A + s"
    using left by (cases A rule: rev_cases) (auto simp: join_left_def split: if_splits)
  moreover have "useds q (join_right s' C) = useds (q + s') C" for q
    by (cases C) (auto simp: join_right_def add.assoc)
  ultimately show ?thesis using left by (simp add: release_def add.assoc)
qed

text \<open>What a client does; it knows the addresses it got and what it asked for, and locks succeed.\<close>

datatype rmm_op = Malloc "64 word" | Calloc "64 word" | Free nat | Realloc nat "64 word"

type_synonym live = "(nat \<times> nat) list"

definition drop_nth :: "nat \<Rightarrow> 'a list \<Rightarrow> 'a list" where
  "drop_nth i xs = take i xs @ drop (Suc i) xs"

definition rmm_got :: "nat \<Rightarrow> nat \<Rightarrow> live \<Rightarrow> live \<Rightarrow> live" where
  "rmm_got a n old new = (if a = 0 then old else (a, n) # new)"

fun rmm_do :: "rmm_op \<Rightarrow> apr_rmm \<times> live \<Rightarrow> (apr_rmm \<times> live) option" where
  "rmm_do (Malloc req) (rmm, live) =
     map_option (\<lambda>(a, rmm). (rmm, rmm_got a (unat req) live live)) (apr_rmm_malloc rmm req)"
| "rmm_do (Calloc req) (rmm, live) =
     map_option (\<lambda>(a, rmm). (rmm, rmm_got a (unat req) live live)) (apr_rmm_calloc rmm req)"
| "rmm_do (Free i) (rmm, live) =
     (if i < length live
      then map_option (\<lambda>(rv, rmm). (rmm, drop_nth i live)) (apr_rmm_free APR_SUCCESS APR_SUCCESS rmm (fst (live ! i)))
      else Some (rmm, live))"
| "rmm_do (Realloc i req) (rmm, live) =
     (if i < length live
      then map_option (\<lambda>(a, rmm). (rmm, rmm_got a (unat req) live (drop_nth i live)))
        (apr_rmm_realloc APR_SUCCESS APR_SUCCESS rmm (Some (fst (live ! i))) req)
      else Some (rmm, live))"

fun rmm_run :: "rmm_op list \<Rightarrow> apr_rmm \<times> live \<Rightarrow> (apr_rmm \<times> live) option" where
  "rmm_run [] st = Some st"
| "rmm_run (p # ps) st = (case rmm_do p st of None \<Rightarrow> None | Some st \<Rightarrow> rmm_run ps st)"

text \<open>The client holds exactly the used blocks, each with the room it asked for.\<close>

definition owns :: "layout \<Rightarrow> live \<Rightarrow> bool" where
  "owns L live \<longleftrightarrow> mset (map fst live) = mset (map (\<lambda>(b, s). b + 24) (useds 24 L)) \<and>
     (\<forall>(a, n)\<in>set live. \<exists>b s. (b, s) \<in> set (useds 24 L) \<and> a = b + 24 \<and> n + 24 \<le> s)"

definition rmm_inv :: "nat \<Rightarrow> apr_rmm \<times> live \<Rightarrow> bool" where
  "rmm_inv room st \<longleftrightarrow> (case st of (rmm, live) \<Rightarrow> \<exists>L. layout_rel rmm L \<and> tidy L \<and> 24 + width L = room \<and> owns L live)"

lemma tidy_pos: "tidy L \<Longrightarrow> \<forall>(s, u)\<in>set L. 0 < s"
  by (fastforce simp: tidy_def)

lemma useds_distinct: "tidy L \<Longrightarrow> distinct (map fst (useds p L))"
proof -
  assume tidy: "tidy L"
  have "0 < s" if "(b, s) \<in> set (useds q M)" "\<forall>(s, u)\<in>set M. 0 < s" for b s q M
    using that by (induction M arbitrary: q) (auto split: if_splits)
  then have "\<forall>x\<in>set (useds p L). 0 < snd x" using tidy_pos [OF tidy] by auto
  then have "sorted_wrt (\<lambda>x y. fst x < fst y) (useds p L)"
    using useds_apart [of p L] by (rule_tac sorted_wrt_mono_rel [rotated]) fastforce+
  then show ?thesis unfolding strict_sorted_iff [symmetric, THEN iffD1] sorted_wrt_map [symmetric]
    by (metis strict_sorted_iff sorted_wrt_map)
qed

lemma owns_alloc:
  assumes "owns L live" "useds 24 L = U @ V" "useds 24 L' = U @ (b, t) # V" "n + 24 \<le> t"
  shows "owns L' ((b + 24, n) # live)"
  using assms by (fastforce simp: owns_def)

lemma owns_release:
  assumes "owns L live" "tidy L" "useds 24 L = U @ (b, s) # V" "useds 24 L' = U @ V" "i < length live" "fst (live ! i) = b + 24"
  shows "owns L' (drop_nth i live)"
proof -
  have live: "live = take i live @ live ! i # drop (Suc i) live" using assms(5) by (rule id_take_nth_drop)
  have "mset (map fst (X @ v # Y)) = mset (map fst (X @ Y)) + {#fst v#}" for X Y :: live and v by simp
  from this [of "take i live" "live ! i" "drop (Suc i) live"]
  have "mset (map fst live) = mset (map fst (drop_nth i live)) + {#b + 24#}"
    unfolding live [symmetric] drop_nth_def assms(6) .
  moreover have "mset (map fst live) = mset (map (\<lambda>(b, s). b + 24) (U @ V)) + {#b + 24#}"
    using assms(1,3) by (simp add: owns_def)
  ultimately have eq: "mset (map fst (drop_nth i live)) = mset (map (\<lambda>(b, s). b + 24) (U @ V))" by simp
  have "distinct (map fst (U @ (b, s) # V))" using useds_distinct [OF assms(2), of 24] assms(3) by simp
  then have notin: "b \<notin> fst ` set (U @ V)" by auto
  have "\<exists>c t. (c, t) \<in> set (U @ V) \<and> a = c + 24 \<and> n + 24 \<le> t" if an: "(a, n) \<in> set (drop_nth i live)" for a n
  proof -
    have "(a, n) \<in> set live" using an by (auto simp: drop_nth_def dest: in_set_takeD in_set_dropD)
    then obtain c t where c: "(c, t) \<in> set (U @ (b, s) # V)" "a = c + 24" "n + 24 \<le> t"
      using assms(1,3) by (fastforce simp: owns_def)
    have "a \<in> set (map fst (drop_nth i live))" using an by force
    then have "a \<in> set (map (\<lambda>(b, s). b + 24) (U @ V))" using eq by (metis set_mset_mset)
    then have "c \<in> fst ` set (U @ V)" using c(2) by force
    then have "c \<noteq> b" using notin by auto
    then show ?thesis using c by auto
  qed
  then show ?thesis using eq assms(4) by (auto simp: owns_def)
qed

lemma layout_rel_bytes [simp]: "layout_rel (rmm\<lparr>bytes := f\<rparr>) L = layout_rel rmm L"
  by (simp add: layout_rel_def lists_ok_def sizes_def [abs_def])

text \<open>Zeroed memory.\<close>

lemma apr_rmm_calloc_eq:
  "apr_rmm_calloc rmm reqsize =
   map_option (\<lambda>(a, rmm). if a = 0 then (0, rmm)
     else (a, rmm\<lparr>bytes := \<lambda>k. if a \<le> k \<and> k < a + (need reqsize - 24) then 0 else bytes rmm k\<rparr>)) (apr_rmm_malloc rmm reqsize)"
  by (auto simp: apr_rmm_calloc_def apr_rmm_malloc_def Let_def alloc_size split: option.splits prod.splits if_splits)

text \<open>Every step succeeds and keeps the invariant.\<close>

lemma rmm_malloc_inv:
  assumes "layout_rel rmm L" "tidy L" "24 + width L = room" "owns L live"
  shows "\<exists>a rmm'. apr_rmm_malloc rmm req = Some (a, rmm') \<and> bytes rmm' = bytes rmm \<and>
    (a = 0 \<and> rmm' = rmm \<or>
     (\<exists>L' U V b t. layout_rel rmm' L' \<and> tidy L' \<and> 24 + width L' = room \<and> a = b + 24 \<and> useds 24 L = U @ V \<and>
        useds 24 L' = U @ (b, t) # V \<and> need req \<le> t \<and> owns L' ((a, unat req) # live)))"
  using apr_rmm_malloc_ok [OF assms(1), of req]
proof (elim disjE exE conjE)
  fix A s C rmm'
  assume fit: "fits L (need req) A s C" and run: "apr_rmm_malloc rmm req = Some (24 + width A + 24, rmm')"
    and same: "same_region rmm rmm'" and rel: "layout_rel rmm' (A @ alloc_block (need req) s @ C)"
  let ?L = "A @ alloc_block (need req) s @ C"
  have L: "L = A @ (s, False) # C" "need req \<le> s" using fit by (simp_all add: fits_def)
  obtain t where t: "need req \<le> t" "useds 24 ?L = useds 24 A @ (24 + width A, t) # useds (24 + width A + s) C"
    using useds_alloc [OF need_props(1) L(2), of 24 A C] by (elim exE conjE)
  have "unat req + 24 \<le> t" using need_props(3) [of req] t(1) by (rule order_trans)
  from owns_alloc [OF assms(4) _ t(2) this] have "owns ?L ((24 + width A + 24, unat req) # live)" using L(1) by simp
  moreover have "tidy ?L" using tidy_alloc [of A s C req] assms(2) L by simp
  moreover have "24 + width ?L = room" using L assms(3) by (auto simp: alloc_block_def)
  moreover have "useds 24 L = useds 24 A @ useds (24 + width A + s) C" using L(1) by simp
  ultimately show ?thesis using run same rel t unfolding same_region_def by blast
qed (auto simp: same_region_def)

lemma rmm_free_inv:
  assumes "layout_rel rmm L" "tidy L" "24 + width L = room" "owns L live" "i < length live"
  shows "\<exists>rmm' L'. apr_rmm_free APR_SUCCESS APR_SUCCESS rmm (fst (live ! i)) = Some (APR_SUCCESS, rmm') \<and>
    bytes rmm' = bytes rmm \<and> layout_rel rmm' L' \<and> tidy L' \<and> 24 + width L' = room \<and> owns L' (drop_nth i live)"
proof -
  have "live ! i \<in> set live" using assms(5) by simp
  then obtain b s where b: "(b, s) \<in> set (useds 24 L)" "fst (live ! i) = b + 24" using assms(4) by (fastforce simp: owns_def)
  obtain A C where L: "L = A @ (s, True) # C" "b = 24 + width A" using useds_split [OF b(1)] by (elim exE conjE)
  from apr_rmm_free_ok [of rmm A s C APR_SUCCESS] assms(1) L obtain rmm'
    where run: "apr_rmm_free APR_SUCCESS APR_SUCCESS rmm (24 + width A + 24) = Some (APR_SUCCESS, rmm')"
      "layout_rel rmm' (release A s C)" "same_region rmm rmm'" by auto
  moreover have "tidy (release A s C)" using tidy_release assms(2) L(1) by simp
  moreover have "owns (release A s C) (drop_nth i live)"
    by (rule owns_release [OF assms(4,2) _ useds_release assms(5) b(2)]) (simp add: L)
  moreover have "24 + width (release A s C) = room"
    using run(2,3) assms(1,3) by (simp add: layout_rel_def same_region_def)
  ultimately show ?thesis using b(2) L(2) by (auto simp: same_region_def)
qed

lemma owns_weaken: "owns L ((a, n) # live) \<Longrightarrow> m \<le> n \<Longrightarrow> owns L ((a, m) # live)"
  by (fastforce simp: owns_def)

text \<open>The state in the middle of \<open>apr_rmm_realloc\<close>, and its end.\<close>

lemma rmm_realloc_inv:
  assumes "layout_rel rmm L" "tidy L" "24 + width L = room" "owns L live" "i < length live"
  shows "\<exists>a rmm'. apr_rmm_realloc APR_SUCCESS APR_SUCCESS rmm (Some (fst (live ! i))) req = Some (a, rmm') \<and>
    (a = 0 \<and> rmm' = rmm \<or>
     (\<exists>L'. layout_rel rmm' L' \<and> tidy L' \<and> 24 + width L' = room \<and> owns L' ((a, unat req) # drop_nth i live)))"
proof (cases "APR_ALIGN_DEFAULT req < req")
  case True
  then show ?thesis by (simp add: apr_rmm_realloc_def)
next
  case False
  let ?sz = "APR_ALIGN_DEFAULT req" and ?old = "fst (live ! i)"
  from rmm_malloc_inv [OF assms(1-4), of ?sz] obtain a rmm1 where
    run: "apr_rmm_malloc rmm ?sz = Some (a, rmm1)" and
    got: "a = 0 \<and> rmm1 = rmm \<or> (\<exists>L'. layout_rel rmm1 L' \<and> tidy L' \<and> 24 + width L' = room \<and> a \<noteq> 0 \<and> owns L' ((a, unat ?sz) # live))"
    by fastforce
  show ?thesis
  proof (cases "a = 0")
    case True
    then show ?thesis using run got False by (auto simp: apr_rmm_realloc_def Let_def)
  next
    case a: False
    then obtain L1 where L1: "layout_rel rmm1 L1" "tidy L1" "24 + width L1 = room" "owns L1 ((a, unat ?sz) # live)" using got by auto
    define n where "n = (if rb_size (blk rmm1 (?old - RMM_BLOCK_SIZE)) < unat ?sz then rb_size (blk rmm1 (?old - RMM_BLOCK_SIZE)) else unat ?sz)"
    define rmm2 where "rmm2 = rmm1\<lparr>bytes := \<lambda>k. if a \<le> k \<and> k < a + n then bytes rmm1 (?old + (k - a)) else bytes rmm1 k\<rparr>"
    have "layout_rel rmm2 L1" using L1(1) by (simp add: rmm2_def)
    moreover have "unat req \<le> unat ?sz" using False by (simp add: word_less_nat_alt not_less)
    moreover have "Suc i < length ((a, unat req) # live)" using assms(5) by simp
    ultimately obtain rmm3 L3 where "apr_rmm_free APR_SUCCESS APR_SUCCESS rmm2 (fst (((a, unat req) # live) ! Suc i)) = Some (APR_SUCCESS, rmm3)"
      "layout_rel rmm3 L3" "tidy L3" "24 + width L3 = room" "owns L3 (drop_nth (Suc i) ((a, unat req) # live))"
      using rmm_free_inv [of rmm2 L1 room "(a, unat req) # live" "Suc i"] L1 owns_weaken by blast
    then show ?thesis using run a False
      by (simp add: apr_rmm_realloc_def Let_def flip: n_def) (simp add: rmm2_def drop_nth_def, blast)
  qed
qed

lemma rmm_do_inv:
  assumes "rmm_inv room st"
  shows "\<exists>st'. rmm_do p st = Some st' \<and> rmm_inv room st'"
proof -
  obtain rmm live where st: "st = (rmm, live)" by (cases st)
  obtain L where L: "layout_rel rmm L" "tidy L" "24 + width L = room" "owns L live" using assms st by (auto simp: rmm_inv_def)
  have malloc: "\<exists>a rmm'. apr_rmm_malloc rmm req = Some (a, rmm') \<and> rmm_inv room (rmm', rmm_got a (unat req) live live)" for req
    using rmm_malloc_inv [OF L, of req]
  proof (elim exE conjE disjE)
    fix a rmm'
    assume "apr_rmm_malloc rmm req = Some (a, rmm')" "a = 0" "rmm' = rmm"
    then show ?thesis using assms st by (simp add: rmm_got_def)
  next
    fix a rmm' L' U V b t
    assume "apr_rmm_malloc rmm req = Some (a, rmm')" "layout_rel rmm' L'" "tidy L'" "24 + width L' = room"
      "owns L' ((a, unat req) # live)" "a = b + 24"
    then show ?thesis by (auto simp: rmm_inv_def rmm_got_def)
  qed
  show ?thesis
  proof (cases p)
    case (Malloc req)
    then show ?thesis using malloc [of req] st by auto
  next
    case (Calloc req)
    obtain a rmm' where "apr_rmm_malloc rmm req = Some (a, rmm')" "rmm_inv room (rmm', rmm_got a (unat req) live live)"
      using malloc [of req] by (elim exE conjE)
    then show ?thesis using Calloc st by (cases "a = 0") (simp_all add: rmm_inv_def apr_rmm_calloc_eq rmm_got_def)
  next
    case (Free i)
    show ?thesis
    proof (cases "i < length live")
      case True
      from rmm_free_inv [OF L True] obtain rmm' L' where "apr_rmm_free APR_SUCCESS APR_SUCCESS rmm (fst (live ! i)) = Some (APR_SUCCESS, rmm')"
        "layout_rel rmm' L'" "tidy L'" "24 + width L' = room" "owns L' (drop_nth i live)" by (elim exE conjE)
      then show ?thesis using Free True st by (auto simp: rmm_inv_def)
    qed (use Free st assms in simp)
  next
    case (Realloc i req)
    show ?thesis
    proof (cases "i < length live")
      case True
      from rmm_realloc_inv [OF L True, of req] obtain a rmm' where
        run: "apr_rmm_realloc APR_SUCCESS APR_SUCCESS rmm (Some (fst (live ! i))) req = Some (a, rmm')" and
        got: "a = 0 \<and> rmm' = rmm \<or>
          (\<exists>L'. layout_rel rmm' L' \<and> tidy L' \<and> 24 + width L' = room \<and> owns L' ((a, unat req) # drop_nth i live))"
        by (elim exE conjE)
      have "rmm_inv room (rmm', rmm_got a (unat req) live (drop_nth i live))"
      proof (cases "a = 0 \<and> rmm' = rmm")
        case True
        then show ?thesis using assms st by (simp add: rmm_got_def)
      next
        case False
        then obtain L' where L': "layout_rel rmm' L'" "tidy L'" "24 + width L' = room" "owns L' ((a, unat req) # drop_nth i live)"
          using got by blast
        then have "a \<noteq> 0" by (auto simp: owns_def)
        then show ?thesis using L' by (auto simp: rmm_inv_def rmm_got_def)
      qed
      then show ?thesis using Realloc True st run by simp
    qed (use Realloc st assms in simp)
  qed
qed

lemma rmm_run_inv: "rmm_inv room st \<Longrightarrow> \<exists>st'. rmm_run ps st = Some st' \<and> rmm_inv room st'"
proof (induction ps arbitrary: st)
  case (Cons p ps)
  from rmm_do_inv [OF Cons.prems, of p] obtain st1 where "rmm_do p st = Some st1" "rmm_inv room st1" by (elim exE conjE)
  then show ?case using Cons.IH [of st1] by simp
qed simp

lemma apr_rmm_init_inv:
  assumes "48 \<le> room" "8 dvd unat room"
  shows "rmm_inv (unat room) (snd (apr_rmm_init APR_SUCCESS unlock_rv rmm room), [])"
proof -
  have ge: "48 \<le> unat room" using assms(1) by (simp add: word_le_nat_alt)
  then have rest: "unat (room - 24) = unat room - 24" by (simp add: unat_sub word_le_nat_alt)
  have "8 dvd unat room - 24" using assms(2) ge dvd_diff_nat [of 8 "unat room" 24] by simp
  then have "tidy [(unat room - 24, False)]" using ge by (simp add: tidy_def)
  moreover have "layout_rel (snd (apr_rmm_init APR_SUCCESS unlock_rv rmm room)) [(unat room - 24, False)]"
    using ge by (simp add: apr_rmm_init_def layout_rel_def lists_ok_def sizes_def rest)
  ultimately show ?thesis using ge by (auto simp: rmm_inv_def owns_def)
qed



lemma useds_aligned: "tidy L \<Longrightarrow> (b, s) \<in> set (useds 24 L) \<Longrightarrow> 8 dvd b"
proof -
  assume tidy: "tidy L" and used: "(b, s) \<in> set (useds 24 L)"
  obtain A C where L: "L = A @ (s, True) # C" "b = 24 + width A" using useds_split [OF used] by blast
  have "8 dvd width A" if "\<forall>(s, u)\<in>set A. 8 dvd s" for A :: layout
    using that by (induction A) (auto intro: dvd_add)
  moreover have "\<forall>(s, u)\<in>set A. 8 dvd s" using tidy L(1) by (auto simp: tidy_def)
  moreover have "8 dvd (24 :: nat)" by (rule dvdI [of _ _ 3]) simp
  ultimately show ?thesis using L(2) by (auto intro: dvd_add)
qed

lemma useds_ordered:
  assumes "x \<in> set (useds p L)" "y \<in> set (useds p L)"
  shows "x = y \<or> fst x + snd x \<le> fst y \<or> fst y + snd y \<le> fst x"
proof -
  obtain i j where "i < length (useds p L)" "x = useds p L ! i" "j < length (useds p L)" "y = useds p L ! j"
    using assms by (metis in_set_conv_nth)
  then show ?thesis using useds_apart [of p L] by (cases i j rule: linorder_cases) (auto simp: sorted_wrt_iff_nth_less)
qed

lemma useds_split_conv: "(s, True) \<in> set L \<Longrightarrow> useds p L \<noteq> []"
  by (induction L arbitrary: p) auto

section \<open>Properties\<close>

text \<open>C24. Whatever a client allocates, zeroes, resizes and frees in a new region, every call returns, and the areas it
  holds lie inside the region, are aligned to eight bytes and do not overlap: between any two there is room for a header.\<close>

theorem apr_rmm_areas_apart:
  assumes "48 \<le> room" "8 dvd unat room"
  shows "\<exists>rmm' live. rmm_run ops (snd (apr_rmm_init APR_SUCCESS unlock_rv rmm room), []) = Some (rmm', live) \<and>
    (\<forall>(a, n)\<in>set live. 8 dvd a \<and> 48 \<le> a \<and> a + n \<le> unat room) \<and>
    (\<forall>(a, n)\<in>set live. \<forall>(b, m)\<in>set live. a = b \<or> a + n + 24 \<le> b \<or> b + m + 24 \<le> a) \<and> distinct (map fst live)"
proof -
  from rmm_run_inv [OF apr_rmm_init_inv [OF assms], of ops unlock_rv rmm] obtain rmm' live L where
    run: "rmm_run ops (snd (apr_rmm_init APR_SUCCESS unlock_rv rmm room), []) = Some (rmm', live)" and
    L: "layout_rel rmm' L" "tidy L" "24 + width L = unat room" "owns L live"
    by (auto simp: rmm_inv_def)
  have block: "\<exists>b s. (b, s) \<in> set (useds 24 L) \<and> a = b + 24 \<and> n + 24 \<le> s" if "(a, n) \<in> set live" for a n
    using L(4) that by (auto simp: owns_def)
  have "8 dvd b \<and> 24 \<le> b \<and> b + s \<le> unat room" if "(b, s) \<in> set (useds 24 L)" for b s
    using useds_aligned [OF L(2) that] useds_bounds [OF tidy_pos [OF L(2)] that] L(3) by simp
  then have "\<forall>(a, n)\<in>set live. 8 dvd a \<and> 48 \<le> a \<and> a + n \<le> unat room" using block by (fastforce intro: dvd_add)
  moreover have "a = b \<or> a + n + 24 \<le> b \<or> b + m + 24 \<le> a" if held: "(a, n) \<in> set live" "(b, m) \<in> set live" for a n b m
  proof -
    obtain c s where c: "(c, s) \<in> set (useds 24 L)" "a = c + 24" "n + 24 \<le> s" using block [OF held(1)] by blast
    obtain d t where d: "(d, t) \<in> set (useds 24 L)" "b = d + 24" "m + 24 \<le> t" using block [OF held(2)] by blast
    show ?thesis using useds_ordered [OF c(1) d(1)] c d by auto
  qed
  moreover have "distinct (map fst live)"
  proof -
    have "distinct (map (\<lambda>(b, s). b + 24) (useds 24 L))"
      using useds_distinct [OF L(2), of 24] by (auto simp: distinct_map inj_on_def split_def)
    then show ?thesis using L(4) unfolding owns_def by (metis mset_eq_imp_distinct_iff)
  qed
  ultimately show ?thesis using run by (intro exI [of _ rmm'] exI [of _ live] conjI) blast+
qed

text \<open>C23. The links, the sizes and the headers implement the layout of the region: an allocation takes the smallest free
  block that is large enough, splits it if enough is left, and fails exactly when there is none (or the size does not fit a word);
  a release joins the block with the free blocks on either side. Nothing but the headers is written.\<close>

theorem apr_rmm_refines_layout:
  assumes "layout_rel rmm L"
  shows "(apr_rmm_malloc rmm reqsize = Some (0, rmm) \<and>
        (2 ^ 64 \<le> need reqsize \<or> (\<forall>s. (s, False) \<in> set L \<longrightarrow> s < need reqsize)) \<or>
      (\<exists>A s C rmm'. fits L (need reqsize) A s C \<and> apr_rmm_malloc rmm reqsize = Some (24 + width A + 24, rmm') \<and>
         same_region rmm rmm' \<and> layout_rel rmm' (A @ alloc_block (need reqsize) s @ C))) \<and>
    (\<forall>A s C. L = A @ (s, True) # C \<longrightarrow>
      (\<exists>rmm'. apr_rmm_free APR_SUCCESS unlock_rv rmm (24 + width A + 24) = Some (unlock_rv, rmm') \<and>
        layout_rel rmm' (release A s C) \<and> same_region rmm rmm'))"
  using apr_rmm_malloc_ok [OF assms, of reqsize] apr_rmm_free_ok [of rmm] assms by blast

text \<open>C25. When a client has freed all it allocated, in whatever order, the region is one free block again.\<close>

theorem apr_rmm_all_freed_whole:
  assumes "48 \<le> room" "8 dvd unat room"
    and "rmm_run ops (snd (apr_rmm_init APR_SUCCESS unlock_rv rmm room), []) = Some (rmm', [])"
  shows "firstused rmm' = 0 \<and> firstfree rmm' = 24 \<and> rb_size (blk rmm' 24) = unat room - 24 \<and>
    rb_prev (blk rmm' 24) = 0 \<and> rb_next (blk rmm' 24) = 0"
proof -
  from rmm_run_inv [OF apr_rmm_init_inv [OF assms(1,2)], of ops unlock_rv rmm] obtain L
    where L: "layout_rel rmm' L" "tidy L" "24 + width L = unat room" "owns L []"
    using assms(3) by (auto simp: rmm_inv_def)
  have "useds 24 L = []" using L(4) by (simp add: owns_def)
  then have "\<forall>x\<in>set L. \<not> snd x" using useds_split_conv [of _ L 24] by fastforce
  moreover have "successively (\<lambda>x y. snd x \<or> snd y) L" using L(2) by (simp add: tidy_def)
  ultimately have "length L \<le> 1" by (cases L; cases "tl L") auto
  moreover have "48 \<le> unat room" using assms(1) by (simp add: word_le_nat_alt)
  then have "L \<noteq> []" using L(3) by auto
  ultimately obtain s u where "L = [(s, u)]" by (cases L) auto
  then have "L = [(unat room - 24, False)]" using L(3) \<open>\<forall>x\<in>set L. \<not> snd x\<close> by auto
  then show ?thesis using L(1) by (simp add: layout_rel_def lists_ok_def sizes_def)
qed

definition sample_rmm :: apr_rmm where
  "sample_rmm = \<lparr>abssize = 152, firstused = 120, firstfree = 24,
     blk = (\<lambda>b. if b = 24 then \<lparr>rb_size = 96, rb_prev = 0, rb_next = 0\<rparr> else \<lparr>rb_size = 32, rb_prev = 0, rb_next = 0\<rparr>),
     bytes = word_of_nat, rmm_size = 152\<rparr>"

lemma sample_layout: "layout_rel sample_rmm [(96, False), (32, True)]" "tidy [(96, False), (32, True)]"
proof -
  have "8 dvd (96 :: nat)" "8 dvd (32 :: nat)" by (simp_all add: dvd_eq_mod_eq_0)
  then show "tidy [(96, False), (32, True)]" by (simp add: tidy_def)
qed (simp add: layout_rel_def lists_ok_def sizes_def sample_rmm_def)

theorem apr_rmm_areas_apart_witness:
  "\<exists>rmm' live. rmm_run [Malloc 10, Calloc 20, Realloc 0 40, Free 1]
      (snd (apr_rmm_init APR_SUCCESS APR_SUCCESS sample_rmm 4096), []) = Some (rmm', live) \<and> distinct (map fst live)"
  using apr_rmm_areas_apart [of 4096 "[Malloc 10, Calloc 20, Realloc 0 40, Free 1]" APR_SUCCESS sample_rmm]
  by (auto simp: dvd_eq_mod_eq_0)

theorem apr_rmm_refines_layout_witness:
  "\<exists>rmm'. apr_rmm_free APR_SUCCESS APR_SUCCESS sample_rmm 144 = Some (APR_SUCCESS, rmm') \<and>
    layout_rel rmm' [(128, False)] \<and> same_region sample_rmm rmm'"
proof -
  have "\<exists>rmm'. apr_rmm_free APR_SUCCESS APR_SUCCESS sample_rmm (24 + width [(96, False)] + 24) = Some (APR_SUCCESS, rmm') \<and>
      layout_rel rmm' (release [(96, False)] 32 []) \<and> same_region sample_rmm rmm'"
    using apr_rmm_refines_layout [OF sample_layout(1), of 40 APR_SUCCESS, THEN conjunct2, rule_format, of "[(96, False)]" 32 "[]"] by simp
  then show ?thesis by (simp add: release_def join_left_def join_right_def)
qed

theorem apr_rmm_all_freed_whole_witness:
  "firstused (snd (apr_rmm_init APR_SUCCESS APR_SUCCESS sample_rmm 4096)) = 0 \<and>
   firstfree (snd (apr_rmm_init APR_SUCCESS APR_SUCCESS sample_rmm 4096)) = 24"
  using apr_rmm_all_freed_whole [of 4096 "[]" APR_SUCCESS sample_rmm "snd (apr_rmm_init APR_SUCCESS APR_SUCCESS sample_rmm 4096)"]
  by (simp add: dvd_eq_mod_eq_0)



end
