(* ===== verification/Apr_Time.thy ===== *)
theory Apr_Time
  imports Apr_Prelude "HOL-Library.Signed_Division"
begin

text \<open>
  Times, \<open>srclib/apr/time/unix/time.c\<close> and \<open>timestr.c\<close>: exploding and imploding, and the two printed forms. The fields of an
  exploded time and the microseconds are integers; division is the one of C, which truncates (\<open>sdiv\<close>, \<open>smod\<close>).
  \<open>gmtime_r\<close> of the C library counts years and months from 1970; \<open>localtime_r\<close>, \<open>gettimeofday\<close>, \<open>strftime\<close> and \<open>select\<close>
  depend on the system and are arguments. The system has \<open>tm_gmtoff\<close> in its \<open>struct tm\<close>.
\<close>

section \<open>The C library\<close>

record tm =
  tm_sec :: int
  tm_min :: int
  tm_hour :: int
  tm_mday :: int
  tm_mon :: int
  tm_year :: int
  tm_wday :: int
  tm_yday :: int
  tm_isdst :: int
  tm_gmtoff :: int

record timeval =
  tv_sec :: int
  tv_usec :: int

text \<open>Years count from 1900, months from 0.\<close>

definition leap :: "int \<Rightarrow> bool" where
  "leap y \<longleftrightarrow> 4 dvd y + 1900 \<and> (\<not> 100 dvd y + 1900 \<or> 400 dvd y + 1900)"

definition year_len :: "int \<Rightarrow> int" where
  "year_len y = (if leap y then 366 else 365)"

definition month_lens :: "int \<Rightarrow> int list" where
  "month_lens y = [31, if leap y then 29 else 28, 31, 30, 31, 30, 31, 31, 30, 31, 30, 31]"

function split_year :: "int \<Rightarrow> int \<Rightarrow> int \<times> int" where
  "split_year y d =
     (if d < 0 then split_year (y - 1) (d + year_len (y - 1))
      else if year_len y \<le> d then split_year (y + 1) (d - year_len y)
      else (y, d))"
  by auto
termination
  by (relation "measure (\<lambda>(y, d). if d < 0 then nat (1000 - d) else nat d)") (auto simp: year_len_def split: if_splits)

declare split_year.simps [simp del]

fun split_month :: "int list \<Rightarrow> int \<Rightarrow> int \<times> int" where
  "split_month [] d = (0, d)"
| "split_month (l # ls) d = (if d < l then (0, d) else case split_month ls (d - l) of (m, r) \<Rightarrow> (m + 1, r))"

definition gmtime :: "int \<Rightarrow> tm" where
  "gmtime tt =
     (let days = tt div 86400; s = tt mod 86400;
          (y, yday) = split_year 70 days;
          (m, d) = split_month (month_lens y) yday
      in \<lparr>tm_sec = s mod 60, tm_min = s div 60 mod 60, tm_hour = s div 3600, tm_mday = d + 1, tm_mon = m, tm_year = y,
          tm_wday = (days + 4) mod 7, tm_yday = yday, tm_isdst = 0, tm_gmtoff = 0\<rparr>)"

section \<open>Exploded times\<close>

record apr_time_exp = tm +
  tm_usec :: int

abbreviation APR_USEC_PER_SEC :: int where "APR_USEC_PER_SEC \<equiv> 1000000"

definition get_offset :: "tm \<Rightarrow> int" where
  "get_offset t = tm_gmtoff t"

definition apr_time_ansi_put :: "int \<Rightarrow> apr_status \<times> int" where
  "apr_time_ansi_put t = (APR_SUCCESS, t * APR_USEC_PER_SEC)"

definition apr_time_now :: "timeval \<Rightarrow> int" where
  "apr_time_now tv = tv_sec tv * APR_USEC_PER_SEC + tv_usec tv"

definition explode_time :: "(int \<Rightarrow> tm) \<Rightarrow> int \<Rightarrow> int \<Rightarrow> bool \<Rightarrow> apr_time_exp" where
  "explode_time localtime t offset use_localtime =
     (let tt = t sdiv APR_USEC_PER_SEC + offset;
          usec = t smod APR_USEC_PER_SEC;
          tm = (if use_localtime then localtime tt else gmtime tt)
      in \<lparr>tm_sec = tm_sec tm, tm_min = tm_min tm, tm_hour = tm_hour tm, tm_mday = tm_mday tm, tm_mon = tm_mon tm,
          tm_year = tm_year tm, tm_wday = tm_wday tm, tm_yday = tm_yday tm, tm_isdst = tm_isdst tm, tm_gmtoff = get_offset tm,
          tm_usec = usec\<rparr>)"

definition apr_time_exp_tz :: "int \<Rightarrow> int \<Rightarrow> apr_time_exp" where
  "apr_time_exp_tz t offs = (explode_time gmtime t offs False)\<lparr>tm_gmtoff := offs\<rparr>"

definition apr_time_exp_gmt :: "int \<Rightarrow> apr_time_exp" where
  "apr_time_exp_gmt t = apr_time_exp_tz t 0"

definition apr_time_exp_lt :: "(int \<Rightarrow> tm) \<Rightarrow> int \<Rightarrow> apr_time_exp" where
  "apr_time_exp_lt localtime t = explode_time localtime t 0 True"

definition dayoffset :: "int list" where
  "dayoffset = [306, 337, 0, 31, 61, 92, 122, 153, 184, 214, 245, 275]"

text \<open>The days since 1 January 1970, by way of those since 1 March 1900.\<close>

definition days_since_epoch :: "int \<Rightarrow> int \<Rightarrow> int \<Rightarrow> int" where
  "days_since_epoch y mon mday =
     (let year = (if mon < 2 then y - 1 else y);
          days = year * 365 + year sdiv 4 - year sdiv 100 + (year sdiv 100 + 3) sdiv 4;
          days = days + (dayoffset ! nat mon + mday - 1)
      in days - 25508)"

definition apr_time_exp_get :: "apr_time_exp \<Rightarrow> apr_status + int" where
  "apr_time_exp_get xt =
     (let days = days_since_epoch (tm_year xt) (tm_mon xt) (tm_mday xt);
          days = ((days * 24 + tm_hour xt) * 60 + tm_min xt) * 60 + tm_sec xt
      in if days < 0 then Inl APR_EBADDATE else Inr (days * APR_USEC_PER_SEC + tm_usec xt))"

definition apr_time_exp_gmt_get :: "apr_time_exp \<Rightarrow> apr_status + int" where
  "apr_time_exp_gmt_get xt =
     (case apr_time_exp_get xt of
        Inl status \<Rightarrow> Inl status
      | Inr t \<Rightarrow> Inr (t - tm_gmtoff xt * APR_USEC_PER_SEC))"

definition apr_os_imp_time_get :: "int \<Rightarrow> timeval" where
  "apr_os_imp_time_get aprtime = \<lparr>tv_sec = aprtime sdiv APR_USEC_PER_SEC, tv_usec = aprtime smod APR_USEC_PER_SEC\<rparr>"

definition apr_os_imp_time_put :: "timeval \<Rightarrow> int" where
  "apr_os_imp_time_put ostime = tv_sec ostime * APR_USEC_PER_SEC + tv_usec ostime"

definition apr_os_exp_time_get :: "apr_time_exp \<Rightarrow> tm" where
  "apr_os_exp_time_get aprtime =
     \<lparr>tm_sec = tm_sec aprtime, tm_min = tm_min aprtime, tm_hour = tm_hour aprtime, tm_mday = tm_mday aprtime,
      tm_mon = tm_mon aprtime, tm_year = tm_year aprtime, tm_wday = tm_wday aprtime, tm_yday = tm_yday aprtime,
      tm_isdst = tm_isdst aprtime, tm_gmtoff = tm_gmtoff aprtime\<rparr>"

definition apr_os_exp_time_put :: "apr_time_exp \<Rightarrow> tm \<Rightarrow> apr_time_exp" where
  "apr_os_exp_time_put aprtime ostime =
     aprtime\<lparr>tm_sec := tm_sec ostime, tm_min := tm_min ostime, tm_hour := tm_hour ostime, tm_mday := tm_mday ostime,
       tm_mon := tm_mon ostime, tm_year := tm_year ostime, tm_wday := tm_wday ostime, tm_yday := tm_yday ostime,
       tm_isdst := tm_isdst ostime, tm_gmtoff := tm_gmtoff ostime\<rparr>"

text \<open>The timeout that \<open>select\<close> gets.\<close>

definition apr_sleep :: "int \<Rightarrow> timeval" where
  "apr_sleep t = \<lparr>tv_sec = t sdiv APR_USEC_PER_SEC, tv_usec = t smod APR_USEC_PER_SEC\<rparr>"

section \<open>Printed times\<close>

definition apr_month_snames :: "string list" where
  "apr_month_snames = [''Jan'', ''Feb'', ''Mar'', ''Apr'', ''May'', ''Jun'', ''Jul'', ''Aug'', ''Sep'', ''Oct'', ''Nov'', ''Dec'']"

definition apr_day_snames :: "string list" where
  "apr_day_snames = [''Sun'', ''Mon'', ''Tue'', ''Wed'', ''Thu'', ''Fri'', ''Sat'']"

text \<open>\<open>n + '0'\<close>, stored in a \<open>char\<close>.\<close>

definition digit_char :: "int \<Rightarrow> char" where
  "digit_char n = char_of (n + 48)"

definition apr_rfc822_date :: "int \<Rightarrow> cstr" where
  "apr_rfc822_date t =
     (let xt = apr_time_exp_gmt t;
          s = apr_day_snames ! nat (tm_wday xt);
          m = apr_month_snames ! nat (tm_mon xt);
          real_year = 1900 + tm_year xt
      in [char_at s 0, char_at s 1, char_at s 2, CHR '','', CHR '' '',
          digit_char (tm_mday xt sdiv 10), digit_char (tm_mday xt smod 10), CHR '' '',
          char_at m 0, char_at m 1, char_at m 2, CHR '' '',
          digit_char (real_year sdiv 1000), digit_char (real_year smod 1000 sdiv 100),
          digit_char (real_year smod 100 sdiv 10), digit_char (real_year smod 10), CHR '' '',
          digit_char (tm_hour xt sdiv 10), digit_char (tm_hour xt smod 10), CHR '':'',
          digit_char (tm_min xt sdiv 10), digit_char (tm_min xt smod 10), CHR '':'',
          digit_char (tm_sec xt sdiv 10), digit_char (tm_sec xt smod 10), CHR '' '',
          CHR ''G'', CHR ''M'', CHR ''T''])"

definition apr_ctime :: "(int \<Rightarrow> tm) \<Rightarrow> int \<Rightarrow> cstr" where
  "apr_ctime localtime t =
     (let xt = apr_time_exp_lt localtime t;
          s = apr_day_snames ! nat (tm_wday xt);
          m = apr_month_snames ! nat (tm_mon xt);
          real_year = 1900 + tm_year xt
      in [char_at s 0, char_at s 1, char_at s 2, CHR '' '',
          char_at m 0, char_at m 1, char_at m 2, CHR '' '',
          digit_char (tm_mday xt sdiv 10), digit_char (tm_mday xt smod 10), CHR '' '',
          digit_char (tm_hour xt sdiv 10), digit_char (tm_hour xt smod 10), CHR '':'',
          digit_char (tm_min xt sdiv 10), digit_char (tm_min xt smod 10), CHR '':'',
          digit_char (tm_sec xt sdiv 10), digit_char (tm_sec xt smod 10), CHR '' '',
          digit_char (real_year sdiv 1000), digit_char (real_year smod 1000 sdiv 100),
          digit_char (real_year smod 100 sdiv 10), digit_char (real_year smod 10)])"

text \<open>The fields that \<open>strftime\<close> is given.\<close>

definition apr_strftime :: "(tm \<Rightarrow> 'a) \<Rightarrow> apr_time_exp \<Rightarrow> 'a" where
  "apr_strftime strftime xt =
     strftime \<lparr>tm_sec = tm_sec xt, tm_min = tm_min xt, tm_hour = tm_hour xt, tm_mday = tm_mday xt,
       tm_mon = tm_mon xt, tm_year = tm_year xt, tm_wday = tm_wday xt, tm_yday = tm_yday xt,
       tm_isdst = tm_isdst xt, tm_gmtoff = tm_gmtoff xt\<rparr>"

section \<open>The calendar\<close>

lemma sdiv_nonneg [simp]: "0 \<le> a \<Longrightarrow> 0 < b \<Longrightarrow> (a :: int) sdiv b = a div b"
  by (simp add: signed_divide_int_def sgn_if)

lemma smod_nonneg [simp]: "0 \<le> a \<Longrightarrow> 0 < b \<Longrightarrow> (a :: int) smod b = a mod b"
  by (simp add: signed_modulo_int_def sgn_if)

lemma div_step:
  assumes "0 < n"
  shows "(a :: int) div n = (a - 1) div n + (if n dvd a then 1 else 0)"
proof (cases "n dvd a")
  case True
  then obtain k where "a = n * k" by (rule dvdE)
  then have "(a - 1) div n = k - 1" using assms by (intro int_div_pos_eq [of _ n _ "n - 1"]) (simp_all add: algebra_simps)
  then show ?thesis using \<open>a = n * k\<close> assms by simp
next
  case False
  then have "0 < a mod n" using assms by (simp add: dvd_eq_mod_eq_0 order_less_le)
  then have "(a - 1) div n = a div n"
    using assms pos_mod_bound [OF assms, of a] mult_div_mod_eq [of n a]
    by (intro int_div_pos_eq [of _ n _ "a mod n - 1"]) linarith+
  then show ?thesis using False by simp
qed

text \<open>The days from 1 January 1970 to the first of January of a year.\<close>

definition new_year :: "int \<Rightarrow> int" where
  "new_year y = (y - 1) * 365 + (y - 1) div 4 - (y - 1) div 100 + (y + 299) div 400 + 306 - 25508"

lemma new_year_70 [simp]: "new_year 70 = 0"
  by (simp add: new_year_def)

lemma leap_rule:
  "l = (a \<and> (\<not> b \<or> c)) \<Longrightarrow> (b \<Longrightarrow> a) \<Longrightarrow> (c \<Longrightarrow> b) \<Longrightarrow>
    (if l then 366 else 365) = 365 + (if a then 1 else 0) - (if b then 1 else 0) + (if c then 1 else 0 :: int)"
  by (cases a; cases b; cases c) simp_all

lemma year_sums:
  fixes l :: int
  assumes "l = 365 + f - h + r" "a' = a + f" "b' = b + h" "c' = c + r"
    "n' = y * 365 + a' - b' + c' + 306 - 25508" "n = (y - 1) * 365 + a - b + c + 306 - 25508"
  shows "n' = n + l"
  unfolding assms by simp

lemma new_year_step: "new_year (y + 1) = new_year y + year_len y"
proof -
  define four hundred rest :: int
    where "four = (if 4 dvd y then 1 else 0)" and "hundred = (if 100 dvd y then 1 else 0)" and "rest = (if 400 dvd y + 300 then 1 else 0)"
  have shift: "4 dvd y + 1900 \<longleftrightarrow> 4 dvd y" "100 dvd y + 1900 \<longleftrightarrow> 100 dvd y" "100 dvd y + 300 \<longleftrightarrow> 100 dvd y"
    by (rule dvd_add_left_iff; simp)+
  have "400 dvd y + 300 + 1600 \<longleftrightarrow> 400 dvd y + 300" by (rule dvd_add_left_iff) simp
  then have "leap y \<longleftrightarrow> 4 dvd y \<and> (\<not> 100 dvd y \<or> 400 dvd y + 300)" unfolding leap_def shift by (simp only: add.assoc) simp
  moreover have "100 dvd y \<Longrightarrow> 4 dvd y" by (rule dvd_trans [of _ 100]) simp_all
  moreover have "400 dvd y + 300 \<Longrightarrow> 100 dvd y" unfolding shift(3) [symmetric] by (rule dvd_trans [of _ 400]) simp_all
  ultimately have "year_len y = 365 + four - hundred + rest"
    unfolding year_len_def four_def hundred_def rest_def
    by (rule leap_rule)
  moreover have "y div 4 = (y - 1) div 4 + four" "y div 100 = (y - 1) div 100 + hundred"
    unfolding four_def hundred_def by (rule div_step; simp)+
  moreover have "(y + 300) div 400 = (y + 300 - 1) div 400 + rest" unfolding rest_def by (rule div_step) simp
  then have "(y + 300) div 400 = (y + 299) div 400 + rest" by simp
  moreover have "new_year (y + 1) = y * 365 + y div 4 - y div 100 + (y + 300) div 400 + 306 - 25508"
    by (simp add: new_year_def)
  moreover have "new_year y = (y - 1) * 365 + (y - 1) div 4 - (y - 1) div 100 + (y + 299) div 400 + 306 - 25508"
    by (rule new_year_def)
  ultimately show ?thesis by (rule year_sums)
qed

lemma year_len_pos: "365 \<le> year_len y"
  by (simp add: year_len_def)

lemma new_year_mono: "y \<le> z \<Longrightarrow> new_year y \<le> new_year z"
proof (induction rule: int_ge_induct)
  case (step z)
  then show ?case using new_year_step [of z] year_len_pos [of z] by simp
qed simp

lemma split_year_sound:
  "split_year y d = (y', d') \<Longrightarrow> new_year y + d = new_year y' + d' \<and> 0 \<le> d' \<and> d' < year_len y'"
proof (induction y d rule: split_year.induct)
  case (1 y d)
  consider "d < 0" | "0 \<le> d" "year_len y \<le> d" | "0 \<le> d" "d < year_len y" by linarith
  then show ?case
  proof cases
    case 1
    then show ?thesis using "1.IH"(1) "1.prems" new_year_step [of "y - 1"] by (simp add: split_year.simps [of y d])
  next
    case 2
    then show ?thesis using "1.IH"(2) "1.prems" new_year_step [of y] by (simp add: split_year.simps [of y d])
  next
    case 3
    then show ?thesis using "1.prems" by (simp add: split_year.simps [of y d])
  qed
qed

lemma split_month_sound:
  "split_month ls d = (m, r) \<Longrightarrow> 0 \<le> d \<Longrightarrow> d < sum_list ls \<Longrightarrow>
     0 \<le> m \<and> m < int (length ls) \<and> 0 \<le> r \<and> r < ls ! nat m \<and> d = sum_list (take (nat m) ls) + r"
proof (induction ls arbitrary: d m r)
  case (Cons l ls)
  show ?case
  proof (cases "d < l")
    case False
    obtain m' r' where rec: "split_month ls (d - l) = (m', r')" by fastforce
    with Cons.IH [OF rec] Cons.prems False have "0 \<le> m' \<and> m' < int (length ls) \<and> 0 \<le> r' \<and> r' < ls ! nat m' \<and>
        d - l = sum_list (take (nat m') ls) + r'" "m = m' + 1" "r = r'" by simp_all
    then show ?thesis by (simp add: nat_add_distrib)
  qed (use Cons.prems in simp)
qed simp

lemma year_months: "sum_list (month_lens y) = year_len y"
  by (simp add: month_lens_def year_len_def)

lemma length_month_lens [simp]: "length (month_lens y) = 12"
  by (simp add: month_lens_def)

text \<open>A date as the number of days since 1 January 1970.\<close>

definition civil :: "int \<Rightarrow> int \<Rightarrow> int \<Rightarrow> int" where
  "civil y m d = new_year y + sum_list (take (nat m) (month_lens y)) + (d - 1)"

lemma months_cases:
  assumes "0 \<le> m" "m < (12 :: int)"
  shows "m = 0 \<or> m = 1 \<or> m = 2 \<or> m = 3 \<or> m = 4 \<or> m = 5 \<or> m = 6 \<or> m = 7 \<or> m = 8 \<or> m = 9 \<or> m = 10 \<or> m = 11"
  using assms by presburger

lemma months_before:
  assumes "0 \<le> m" "m < 12"
  shows "sum_list (take (nat m) (month_lens y)) = dayoffset ! nat m - 306 + (if m < 2 then 0 else year_len y)"
  using months_cases [OF assms] by (elim disjE) (simp_all add: dayoffset_def month_lens_def year_len_def)

lemma days_since_epoch_civil:
  assumes "0 \<le> m" "m < 12" "0 \<le> y"
  shows "days_since_epoch y m d = civil y m d"
proof -
  have four: "(x div 100 + 3) div 4 = (x + 300) div 400" for x :: int
    using zdiv_zmult2_eq [of 4 "x + 300" 100] by simp
  have C: "x * 365 + x sdiv 4 - x sdiv 100 + (x sdiv 100 + 3) sdiv 4 - 25508 = new_year (x + 1) - 306" if "- 1 \<le> x" for x
  proof (cases "x = - 1")
    case True
    then show ?thesis by (simp add: new_year_def signed_divide_int_def)
  next
    case False
    then show ?thesis using that pos_imp_zdiv_nonneg_iff [of 100 x] by (simp add: four new_year_def)
  qed
  show ?thesis
  proof (cases "m < 2")
    case True
    then show ?thesis using C [of "y - 1"] assms(3) months_before [OF assms(1,2), of y]
      by (simp add: days_since_epoch_def civil_def Let_def)
  next
    case False
    then show ?thesis using C [of y] assms(3) months_before [OF assms(1,2), of y] new_year_step [of y]
      by (simp add: days_since_epoch_def civil_def Let_def)
  qed
qed

lemma days_before_1900:
  assumes "0 \<le> m" "m < 12" "y < 0" "d \<le> 31"
  shows "days_since_epoch y m d < 0"
proof -
  define x where "x = (if m < 2 then y - 1 else y)"
  have x: "x \<le> 0" using assms(3) by (simp add: x_def)
  have quot: "x sdiv n \<le> 0 \<and> x \<le> x sdiv n" if "0 < n" for n
  proof -
    have "x sdiv n = - (- x div n)" using x that by (cases "x = 0") (simp_all add: signed_divide_int_def sgn_if)
    moreover have "0 \<le> - x div n" using x that by (simp add: pos_imp_zdiv_nonneg_iff)
    moreover have "- x div n \<le> - x" using zdiv_mono2 [of "- x" 1 n] x that by simp
    ultimately show ?thesis by simp
  qed
  have "(q + 3) sdiv 4 \<le> 0" if "q \<le> 0" for q :: int
  proof (cases "0 \<le> q + 3")
    case True
    then show ?thesis using that by simp
  next
    case False
    then show ?thesis using pos_imp_zdiv_nonneg_iff [of 4 "- (q + 3)"] by (simp add: signed_divide_int_def sgn_if)
  qed
  then have "(x sdiv 100 + 3) sdiv 4 \<le> 0" using quot [of 100] by simp
  moreover have "dayoffset ! nat m \<le> 337"
    using months_cases [OF assms(1,2)] by (elim disjE) (simp_all add: dayoffset_def)
  ultimately show ?thesis
    using quot [of 4] quot [of 100] x assms(4) by (simp add: days_since_epoch_def x_def [symmetric] Let_def)
qed

lemma gmtime_civil:
  fixes tt defines "x \<equiv> gmtime tt"
  shows "civil (tm_year x) (tm_mon x) (tm_mday x) = tt div 86400"
    "0 \<le> tm_mon x" "tm_mon x < 12" "1 \<le> tm_mday x" "tm_mday x \<le> month_lens (tm_year x) ! nat (tm_mon x)"
    "((tm_hour x) * 60 + tm_min x) * 60 + tm_sec x = tt mod 86400"
    "0 \<le> tm_hour x" "tm_hour x < 24" "0 \<le> tm_min x" "tm_min x < 60" "0 \<le> tm_sec x" "tm_sec x < 60"
    "0 \<le> tm_wday x" "tm_wday x < 7" "tt div 86400 < new_year (tm_year x + 1)" "new_year (tm_year x) \<le> tt div 86400"
proof -
  obtain y yday where year: "split_year 70 (tt div 86400) = (y, yday)" by fastforce
  obtain m d where month: "split_month (month_lens y) yday = (m, d)" by fastforce
  define s where "s = tt mod 86400"
  have x: "x = \<lparr>tm_sec = s mod 60, tm_min = s div 60 mod 60, tm_hour = s div 3600, tm_mday = d + 1, tm_mon = m, tm_year = y,
      tm_wday = (tt div 86400 + 4) mod 7, tm_yday = yday, tm_isdst = 0, tm_gmtoff = 0\<rparr>"
    by (simp add: x_def gmtime_def year month s_def Let_def)
  have y: "tt div 86400 = new_year y + yday" "0 \<le> yday" "yday < year_len y" using split_year_sound [OF year] by simp_all
  have m: "0 \<le> m" "m < 12" "0 \<le> d" "d < month_lens y ! nat m" "yday = sum_list (take (nat m) (month_lens y)) + d"
    using split_month_sound [OF month] y(2,3) by (simp_all add: year_months)
  show "civil (tm_year x) (tm_mon x) (tm_mday x) = tt div 86400" using y(1) m(5) by (simp add: x civil_def)
  show "0 \<le> tm_mon x" "tm_mon x < 12" "1 \<le> tm_mday x" "tm_mday x \<le> month_lens (tm_year x) ! nat (tm_mon x)"
    using m by (simp_all add: x)
  show "tt div 86400 < new_year (tm_year x + 1)" "new_year (tm_year x) \<le> tt div 86400"
    using y new_year_step [of y] by (simp_all add: x)
  have s: "0 \<le> s" "s < 86400" by (simp_all add: s_def)
  have "s div 3600 = s div 60 div 60" using zdiv_zmult2_eq [of 60 s 60] by simp
  then have "(s div 3600 * 60 + s div 60 mod 60) * 60 + s mod 60 = s"
    using div_mult_mod_eq [of "s div 60" 60] div_mult_mod_eq [of s 60] by simp
  then show "((tm_hour x) * 60 + tm_min x) * 60 + tm_sec x = tt mod 86400" by (simp add: x s_def)
  have "0 \<le> s div 3600" "s div 3600 < 24"
    using s mult_div_mod_eq [of 3600 s] pos_mod_bound [of 3600 s] pos_mod_sign [of 3600 s] by linarith+
  then show "0 \<le> tm_hour x" "tm_hour x < 24" "0 \<le> tm_min x" "tm_min x < 60" "0 \<le> tm_sec x" "tm_sec x < 60" "0 \<le> tm_wday x" "tm_wday x < 7"
    by (simp_all add: x)
qed

lemma month_len_bounds: "0 \<le> m \<Longrightarrow> m < 12 \<Longrightarrow> month_lens y ! nat m \<le> 31"
  by (drule (1) months_cases, elim disjE) (simp_all add: month_lens_def)

text \<open>Imploding the fields that the C library gives.\<close>

lemma get_of_gmtime:
  assumes "tm_year xt = tm_year (gmtime tt)" "tm_mon xt = tm_mon (gmtime tt)" "tm_mday xt = tm_mday (gmtime tt)"
    "tm_hour xt = tm_hour (gmtime tt)" "tm_min xt = tm_min (gmtime tt)" "tm_sec xt = tm_sec (gmtime tt)"
  shows "apr_time_exp_get xt = (if tt < 0 then Inl APR_EBADDATE else Inr (tt * APR_USEC_PER_SEC + tm_usec xt))"
proof -
  define days where "days = days_since_epoch (tm_year xt) (tm_mon xt) (tm_mday xt)"
  note g = gmtime_civil [of tt]
  have run: "apr_time_exp_get xt =
      (let s = days * 86400 + tt mod 86400 in if s < 0 then Inl APR_EBADDATE else Inr (s * APR_USEC_PER_SEC + tm_usec xt))"
    using g(6) unfolding apr_time_exp_get_def assms days_def Let_def by (simp add: algebra_simps)
  show ?thesis
  proof (cases "0 \<le> tm_year (gmtime tt)")
    case True
    then have "days = tt div 86400" unfolding days_def assms by (simp add: days_since_epoch_civil g)
    then have "days * 86400 + tt mod 86400 = tt" by simp
    then show ?thesis by (simp add: run Let_def)
  next
    case False
    have "days < 0"
      unfolding days_def assms using False month_len_bounds [OF g(2,3), of "tm_year (gmtime tt)"] g(5)
      by (intro days_before_1900 [OF g(2,3)]) linarith+
    moreover have "tt < 0" using new_year_mono [of "tm_year (gmtime tt) + 1" 70] False g(15) by simp
    moreover have "tt mod 86400 < 86400" by simp
    ultimately have "days * 86400 + tt mod 86400 < 0" by linarith
    then show ?thesis using \<open>tt < 0\<close> by (simp add: run Let_def)
  qed
qed

text \<open>The same number, by counting the years and the months.\<close>

definition calendar_days :: "int \<Rightarrow> int \<Rightarrow> int \<Rightarrow> int" where
  "calendar_days y m d =
     (\<Sum>k = 70..<y. year_len k) - (\<Sum>k = y..<70. year_len k) + sum_list (take (nat m) (month_lens y)) + (d - 1)"

lemma new_year_sum: "new_year y = (\<Sum>k = 70..<y. year_len k) - (\<Sum>k = y..<70. year_len k)"
proof (induction y rule: int_induct [where k = 70])
  case (step1 y)
  then have "{70..<y + 1} = insert y {70..<y}" by auto
  then show ?case using step1 new_year_step [of y] by simp
next
  case (step2 y)
  then have "{y - 1..<70} = insert (y - 1) {y..<70}" by auto
  then show ?case using step2 new_year_step [of "y - 1"] by simp
qed simp

lemma civil_calendar: "civil y m d = calendar_days y m d"
  by (simp add: civil_def calendar_days_def new_year_sum)

section \<open>Properties\<close>

text \<open>C27. Imploding undoes exploding: for every time and every offset from GMT, \<open>apr_time_exp_gmt_get\<close> gives back the
  time that \<open>apr_time_exp_tz\<close> exploded, microseconds included, and \<open>apr_time_exp_get\<close> the time moved by the offset; dates
  before 1970, counted with the offset, are refused. So the formula of \<open>apr_time_exp_get\<close> agrees with counting the
  years and months of the calendar.\<close>

theorem apr_time_exp_get_inverts_tz:
  "apr_time_exp_get (apr_time_exp_tz t offs) =
     (if t sdiv APR_USEC_PER_SEC + offs < 0 then Inl APR_EBADDATE else Inr (t + offs * APR_USEC_PER_SEC)) \<and>
   apr_time_exp_gmt_get (apr_time_exp_tz t offs) = (if t sdiv APR_USEC_PER_SEC + offs < 0 then Inl APR_EBADDATE else Inr t)"
proof -
  have "(t sdiv APR_USEC_PER_SEC + offs) * APR_USEC_PER_SEC + t smod APR_USEC_PER_SEC = t + offs * APR_USEC_PER_SEC"
    using sdiv_mult_smod_eq [of t APR_USEC_PER_SEC] by (simp add: distrib_right)
  then show ?thesis
    using get_of_gmtime [of "apr_time_exp_tz t offs" "t sdiv APR_USEC_PER_SEC + offs"]
    by (simp add: apr_time_exp_gmt_get_def apr_time_exp_tz_def explode_time_def Let_def)
qed

end
