(* ===== verification/Apu_Date.thy ===== *)
theory Apu_Date
  imports Apr_Time Apu_Uri
begin

text \<open>
  Parsing dates, \<open>srclib/apr-util/misc/apr_date.c\<close>. A pointer into the string is what is left of it; \<open>None\<close> is NULL.
  \<open>strtol\<close>, and with it \<open>atoi\<close>, is the one of the C library. The lemmas show which dates are accepted and that
  what \<open>apr_rfc822_date\<close> and \<open>apr_ctime\<close> print is read back.
\<close>

section \<open>Masks\<close>

definition apr_islower :: "char \<Rightarrow> bool" where
  "apr_islower c \<longleftrightarrow> 97 \<le> (of_char c :: nat) \<and> (of_char c :: nat) \<le> 122"

definition apr_isxdigit :: "char \<Rightarrow> bool" where
  "apr_isxdigit c \<longleftrightarrow> decimal c \<or> 65 \<le> (of_char c :: nat) \<and> (of_char c :: nat) \<le> 70 \<or>
     97 \<le> (of_char c :: nat) \<and> (of_char c :: nat) \<le> 102"

text \<open>The loop, with what is left of the 256 rounds.\<close>

fun checkmask_loop :: "cstr \<Rightarrow> cstr \<Rightarrow> nat \<Rightarrow> nat \<Rightarrow> bool" where
  "checkmask_loop data msk i 0 = False"
| "checkmask_loop data msk i (Suc n) =
     (let d = char_at data i; m = char_at msk i
      in if m = NUL then d = NUL
         else if m = CHR ''*'' then True
         else if m = CHR ''@'' then (if \<not> isupper d then False else checkmask_loop data msk (i + 1) n)
         else if m = CHR ''$'' then (if \<not> apr_islower d then False else checkmask_loop data msk (i + 1) n)
         else if m = CHR ''#'' then (if \<not> decimal d then False else checkmask_loop data msk (i + 1) n)
         else if m = CHR ''&'' then (if \<not> apr_isxdigit d then False else checkmask_loop data msk (i + 1) n)
         else if m = CHR ''~'' then (if d \<noteq> CHR '' '' \<and> \<not> decimal d then False else checkmask_loop data msk (i + 1) n)
         else if m \<noteq> d then False else checkmask_loop data msk (i + 1) n)"

definition apr_date_checkmask :: "cstr \<Rightarrow> cstr \<Rightarrow> bool" where
  "apr_date_checkmask data msk = checkmask_loop data msk 0 256"

section \<open>Parts of a date\<close>

definition APR_DATE_BAD :: int where
  "APR_DATE_BAD = 0"

text \<open>A \<open>char\<close> in an expression: it is signed.\<close>

definition char_int :: "char \<Rightarrow> int" where
  "char_int c = (if (of_char c :: int) < 128 then of_char c else of_char c - 256)"

text \<open>\<open>date[i] - '0'\<close>.\<close>

definition dg :: "cstr \<Rightarrow> nat \<Rightarrow> int" where
  "dg date i = char_int (char_at date i) - 48"

definition dg2 :: "cstr \<Rightarrow> nat \<Rightarrow> int" where
  "dg2 date i = dg date i * 10 + dg date (i + 1)"

text \<open>A year of four digits, refused when it is before 1900, and one of two digits.\<close>

definition long_year :: "cstr \<Rightarrow> nat \<Rightarrow> int option" where
  "long_year date i =
     (let tm_year = (dg2 date i - 19) * 100
      in if tm_year < 0 then None else Some (tm_year + dg2 date (i + 2)))"

definition short_year :: "cstr \<Rightarrow> nat \<Rightarrow> int" where
  "short_year date i = (let tm_year = dg2 date i in if tm_year < 70 then tm_year + 100 else tm_year)"

definition month_code :: "char \<Rightarrow> char \<Rightarrow> char \<Rightarrow> int" where
  "month_code a b c = or (or (push_bit 16 (char_int a)) (push_bit 8 (char_int b))) (char_int c)"

definition months :: "int list" where
  "months =
     [month_code (CHR ''J'') (CHR ''a'') (CHR ''n''), month_code (CHR ''F'') (CHR ''e'') (CHR ''b''),
      month_code (CHR ''M'') (CHR ''a'') (CHR ''r''), month_code (CHR ''A'') (CHR ''p'') (CHR ''r''),
      month_code (CHR ''M'') (CHR ''a'') (CHR ''y''), month_code (CHR ''J'') (CHR ''u'') (CHR ''n''),
      month_code (CHR ''J'') (CHR ''u'') (CHR ''l''), month_code (CHR ''A'') (CHR ''u'') (CHR ''g''),
      month_code (CHR ''S'') (CHR ''e'') (CHR ''p''), month_code (CHR ''O'') (CHR ''c'') (CHR ''t''),
      month_code (CHR ''N'') (CHR ''o'') (CHR ''v''), month_code (CHR ''D'') (CHR ''e'') (CHR ''c'')]"

text \<open>The first month with the code, 12 when there is none.\<close>

fun month_loop :: "int \<Rightarrow> int list \<Rightarrow> int" where
  "month_loop mint [] = 0"
| "month_loop mint (m # ms) = (if mint = m then 0 else 1 + month_loop mint ms)"

definition month_of :: "cstr \<Rightarrow> int" where
  "month_of monstr = month_loop (month_code (char_at monstr 0) (char_at monstr 1) (char_at monstr 2)) months"

definition bad_day :: "int \<Rightarrow> int \<Rightarrow> int \<Rightarrow> bool" where
  "bad_day year mon mday \<longleftrightarrow>
     mday = 31 \<and> (mon = 3 \<or> mon = 5 \<or> mon = 8 \<or> mon = 10) \<or>
     mon = 1 \<and> (mday > 29 \<or>
       mday = 29 \<and> (and year 3 \<noteq> 0 \<or> year smod 100 = 0 \<and> year smod 400 \<noteq> 100))"

text \<open>The exploded date; the fields that the code leaves alone are not read.\<close>

definition ds_of :: "int \<Rightarrow> int \<Rightarrow> int \<Rightarrow> int \<times> int \<times> int \<Rightarrow> int \<Rightarrow> apr_time_exp" where
  "ds_of year mon mday t gmtoff =
     (case t of (hour, mi, se) \<Rightarrow>
       \<lparr>tm_sec = se, tm_min = mi, tm_hour = hour, tm_mday = mday, tm_mon = mon, tm_year = year,
        tm_wday = 0, tm_yday = 0, tm_isdst = 0, tm_gmtoff = gmtoff, tm_usec = 0\<rparr>)"

section \<open>Dates of HTTP\<close>

text \<open>Behind the white space and the first word.\<close>

definition after_weekday :: "cstr \<Rightarrow> cstr option" where
  "after_weekday date =
     (let date = dropWhile apr_isspace date
      in if date = [] then None
         else let date = dropWhile (\<lambda>c. c \<noteq> CHR '' '') date
              in if date = [] then None else Some (tl date))"

text \<open>Year, day, and where the month and the time are.\<close>

definition http_fields :: "cstr \<Rightarrow> (int \<times> int \<times> cstr \<times> cstr) option" where
  "http_fields date =
     (if apr_date_checkmask date ''## @$$ #### ##:##:## *'' then
        map_option (\<lambda>year. (year, dg2 date 0, drop 3 date, drop 12 date)) (long_year date 7)
      else if apr_date_checkmask date ''##-@$$-## ##:##:## *'' then
        Some (short_year date 7, dg2 date 0, drop 3 date, drop 10 date)
      else if apr_date_checkmask date ''@$$ ~# ##:##:## ####*'' then
        map_option (\<lambda>year. (year, (if char_at date 4 = CHR '' '' then 0 else dg date 4 * 10) + dg date 5, date, drop 7 date))
          (long_year date 16)
      else if apr_date_checkmask date ''# @$$ #### ##:##:## *'' then
        map_option (\<lambda>year. (year, dg date 0, drop 2 date, drop 11 date)) (long_year date 6)
      else None)"

definition apr_date_parse_http :: "cstr option \<Rightarrow> int" where
  "apr_date_parse_http date =
     (case Option.bind date after_weekday of
        None \<Rightarrow> APR_DATE_BAD
      | Some date \<Rightarrow>
          (case http_fields date of
             None \<Rightarrow> APR_DATE_BAD
           | Some (year, mday, monstr, timstr) \<Rightarrow>
               if mday \<le> 0 \<or> mday > 31 then APR_DATE_BAD
               else
                 let hour = dg2 timstr 0; mi = dg2 timstr 3; se = dg2 timstr 6
                 in if hour > 23 \<or> mi > 59 \<or> se > 61 then APR_DATE_BAD
                    else
                      let mon = month_of monstr
                      in if mon = 12 then APR_DATE_BAD
                         else if bad_day year mon mday then APR_DATE_BAD
                         else (case apr_time_exp_get (ds_of year mon mday (hour, mi, se) 0) of
                                 Inl rv \<Rightarrow> APR_DATE_BAD
                               | Inr result \<Rightarrow> result)))"

section \<open>Dates of mail\<close>

definition TIMEPARSE :: "char \<Rightarrow> char \<Rightarrow> char \<Rightarrow> char \<Rightarrow> char \<Rightarrow> char \<Rightarrow> int \<times> int \<times> int" where
  "TIMEPARSE hr10 hr1 min10 min1 sec10 sec1 =
     ((char_int hr10 - 48) * 10 + (char_int hr1 - 48), (char_int min10 - 48) * 10 + (char_int min1 - 48),
      (char_int sec10 - 48) * 10 + (char_int sec1 - 48))"

definition TIMEPARSE_STD :: "cstr \<Rightarrow> int \<times> int \<times> int" where
  "TIMEPARSE_STD timstr =
     TIMEPARSE (char_at timstr 0) (char_at timstr 1) (char_at timstr 3) (char_at timstr 4) (char_at timstr 6) (char_at timstr 7)"

text \<open>The last formats: no seconds, or a single digit for the hour.\<close>

definition TIMEPARSE_min :: "cstr \<Rightarrow> int \<times> int \<times> int" where
  "TIMEPARSE_min timstr =
     TIMEPARSE (char_at timstr 0) (char_at timstr 1) (char_at timstr 3) (char_at timstr 4) (CHR ''0'') (CHR ''0'')"

definition TIMEPARSE_hour :: "cstr \<Rightarrow> int \<times> int \<times> int" where
  "TIMEPARSE_hour timstr =
     TIMEPARSE (CHR ''0'') (char_at timstr 1) (char_at timstr 3) (char_at timstr 4) (char_at timstr 6) (char_at timstr 7)"

text \<open>Year, day, where the month is, the time, and where the time zone is.\<close>

definition rfc_fields :: "cstr \<Rightarrow> (int \<times> int \<times> cstr \<times> (int \<times> int \<times> int) \<times> cstr option) option" where
  "rfc_fields date =
     (if apr_date_checkmask date ''## @$$ #### ##:##:## *'' then
        map_option (\<lambda>year. (year, dg2 date 0, drop 3 date, TIMEPARSE_STD (drop 12 date), Some (drop 21 date))) (long_year date 7)
      else if apr_date_checkmask date ''##-@$$-## ##:##:## *'' then
        Some (short_year date 7, dg2 date 0, drop 3 date, TIMEPARSE_STD (drop 10 date), Some (drop 19 date))
      else if apr_date_checkmask date ''@$$ ~# ##:##:## ####*'' then
        map_option (\<lambda>year. (year, (if char_at date 4 = CHR '' '' then 0 else dg date 4 * 10) + dg date 5, date,
            TIMEPARSE_STD (drop 7 date), None)) (long_year date 16)
      else if apr_date_checkmask date ''# @$$ #### ##:##:## *'' then
        map_option (\<lambda>year. (year, dg date 0, drop 2 date, TIMEPARSE_STD (drop 11 date), Some (drop 20 date))) (long_year date 6)
      else if apr_date_checkmask date ''## @$$ ## ##:##:## *'' then
        Some (short_year date 7, dg2 date 0, drop 3 date, TIMEPARSE_STD (drop 10 date), Some (drop 19 date))
      else if apr_date_checkmask date '' # @$$ ## ##:##:## *'' then
        Some (short_year date 7, dg date 1, drop 3 date, TIMEPARSE_STD (drop 10 date), Some (drop 19 date))
      else if apr_date_checkmask date ''# @$$ ## ##:##:## *'' then
        Some (short_year date 6, dg date 0, drop 2 date, TIMEPARSE_STD (drop 9 date), Some (drop 18 date))
      else if apr_date_checkmask date ''## @$$ ## ##:## *'' then
        Some (short_year date 7, dg2 date 0, drop 3 date, TIMEPARSE_min (drop 10 date), None)
      else if apr_date_checkmask date ''# @$$ ## ##:## *'' then
        Some (short_year date 6, dg date 0, drop 2 date, TIMEPARSE_min (drop 9 date), None)
      else if apr_date_checkmask date ''## @$$ ## #:##:## *'' then
        Some (short_year date 7, dg2 date 0, drop 3 date, TIMEPARSE_hour (drop 9 date), Some (drop 18 date))
      else if apr_date_checkmask date ''# @$$ ## #:##:## *'' then
        Some (short_year date 6, dg date 0, drop 2 date, TIMEPARSE_hour (drop 8 date), Some (drop 17 date))
      else if apr_date_checkmask date '' # @$$ #### ##:##:## *'' then
        map_option (\<lambda>year. (year, dg date 1, drop 3 date, TIMEPARSE_STD (drop 12 date), Some (drop 21 date))) (long_year date 7)
      else if apr_date_checkmask date ''##-@$$-#### ##:##:## *'' then
        map_option (\<lambda>year. (year, dg2 date 0, drop 3 date, TIMEPARSE_STD (drop 12 date), Some (drop 21 date))) (long_year date 7)
      else None)"

definition atoi :: "cstr \<Rightarrow> 32 word" where
  "atoi s = word_of_int (fst (strtol s))"

text \<open>\<open>tm_gmtoff\<close>, in 32 bits.\<close>

definition zone :: "cstr option \<Rightarrow> int" where
  "zone gmtstr =
     (case gmtstr of
        None \<Rightarrow> 0
      | Some gmtstr \<Rightarrow>
          let offset = sint (atoi (drop 1 gmtstr));
              seconds = word_of_int ((offset sdiv 100) * 60 * 60) + word_of_int ((offset smod 100) * 60) :: 32 word
          in if char_at gmtstr 0 = CHR ''-'' then sint (- seconds)
             else if char_at gmtstr 0 = CHR ''+'' then sint seconds
             else 0)"

definition apr_date_parse_rfc :: "cstr option \<Rightarrow> int" where
  "apr_date_parse_rfc date =
     (case Option.bind date (\<lambda>date. if \<not> decimal (char_at date 0) then after_weekday date else Some date) of
        None \<Rightarrow> APR_DATE_BAD
      | Some date \<Rightarrow>
          (case rfc_fields date of
             None \<Rightarrow> APR_DATE_BAD
           | Some (year, mday, monstr, (hour, mi, se), gmtstr) \<Rightarrow>
               if mday \<le> 0 \<or> mday > 31 then APR_DATE_BAD
               else if hour > 23 \<or> mi > 59 \<or> se > 61 then APR_DATE_BAD
               else
                 let mon = month_of monstr
                 in if mon = 12 then APR_DATE_BAD
                    else if bad_day year mon mday then APR_DATE_BAD
                    else (case apr_time_exp_gmt_get (ds_of year mon mday (hour, mi, se) (zone gmtstr)) of
                            Inl rv \<Rightarrow> APR_DATE_BAD
                          | Inr result \<Rightarrow> result)))"

section \<open>What a mask accepts\<close>

definition mask_ok :: "char \<Rightarrow> char \<Rightarrow> bool" where
  "mask_ok m d \<longleftrightarrow>
     (if m = CHR ''@'' then isupper d else if m = CHR ''$'' then apr_islower d else if m = CHR ''#'' then decimal d
      else if m = CHR ''&'' then apr_isxdigit d else if m = CHR ''~'' then d = CHR '' '' \<or> decimal d else m = d)"

fun matches :: "cstr \<Rightarrow> cstr \<Rightarrow> bool" where
  "matches data [] \<longleftrightarrow> char_at data 0 = NUL"
| "matches data (m # ms) \<longleftrightarrow> m = CHR ''*'' \<or> (\<exists>d s. data = d # s \<and> mask_ok m d \<and> matches s ms)"

lemma mask_ok_NUL: "m \<noteq> NUL \<Longrightarrow> \<not> mask_ok m NUL"
  by (auto simp: mask_ok_def isupper_def apr_islower_def apr_isxdigit_def decimal_def)

lemma checkmask_loop_matches:
  assumes "NUL \<notin> set msk" "i \<le> length msk" "length msk - i < n"
  shows "checkmask_loop data msk i n = matches (drop i data) (drop i msk)"
  using assms
proof (induction n arbitrary: i)
  case (Suc n)
  show ?case
  proof (cases "i < length msk")
    case True
    have "msk ! i \<noteq> NUL" using Suc.prems(1) nth_mem [OF True] by metis
    then have m: "char_at msk i = msk ! i" "msk ! i \<noteq> NUL" "drop i msk = msk ! i # drop (Suc i) msk"
      using True by (simp_all add: char_at_def Cons_nth_drop_Suc)
    have data: "(\<exists>d s. drop i data = d # s \<and> mask_ok (msk ! i) d \<and> P s) \<longleftrightarrow>
        mask_ok (msk ! i) (char_at data i) \<and> P (drop (Suc i) data)" for P
      using mask_ok_NUL [OF m(2)] by (cases "i < length data") (auto simp: char_at_def Cons_nth_drop_Suc [symmetric])
    have "checkmask_loop data msk (i + 1) n = matches (drop (Suc i) data) (drop (Suc i) msk)" using Suc True by simp
    then show ?thesis using m data by (auto simp: mask_ok_def Let_def)
  next
    case False
    then have "i = length msk" using Suc.prems(2) by simp
    then show ?thesis by (simp add: char_at_def)
  qed
qed simp

lemma apr_date_checkmask_matches:
  "NUL \<notin> set msk \<Longrightarrow> length msk < 256 \<Longrightarrow> apr_date_checkmask data msk = matches data msk"
  using checkmask_loop_matches [of msk 0 256 data] by (simp add: apr_date_checkmask_def)

section \<open>Digits and names\<close>

lemma digit_char:
  assumes "0 \<le> n" "n < 10"
  shows "char_int (digit_char n) = n + 48" "decimal (digit_char n)" "digit_char n \<noteq> CHR '' ''"
    "digit_value (digit_char n) = Some (nat n)"
proof -
  have "n = 0 \<or> n = 1 \<or> n = 2 \<or> n = 3 \<or> n = 4 \<or> n = 5 \<or> n = 6 \<or> n = 7 \<or> n = 8 \<or> n = 9" using assms by presburger
  then show "char_int (digit_char n) = n + 48" "decimal (digit_char n)" "digit_char n \<noteq> CHR '' ''"
    "digit_value (digit_char n) = Some (nat n)"
    by (elim disjE; simp add: digit_char_def char_int_def decimal_def digit_value_def char_of_def)+
qed

lemma decimal_nonneg: "decimal c \<Longrightarrow> 48 \<le> char_int c \<and> char_int c \<le> 57"
proof -
  have "(of_char c :: int) = int (of_char c)" by (simp only: of_nat_of_char)
  then show "decimal c \<Longrightarrow> ?thesis" by (auto simp: decimal_def char_int_def)
qed

lemma two_digits:
  assumes "0 \<le> n" "n < 100"
  shows "0 \<le> n div 10" "n div 10 < 10" "(char_int (digit_char (n div 10)) - 48) * 10 + (char_int (digit_char (n mod 10)) - 48) = n"
    "decimal (digit_char (n div 10))" "decimal (digit_char (n mod 10))" "digit_char (n div 10) \<noteq> CHR '' ''"
proof -
  show b: "0 \<le> n div 10" "n div 10 < 10" using assms mult_div_mod_eq [of 10 n] pos_mod_sign [of 10 n] by (simp_all add: pos_imp_zdiv_nonneg_iff)
  have "0 \<le> n mod 10" "n mod 10 < 10" by simp_all
  then show "(char_int (digit_char (n div 10)) - 48) * 10 + (char_int (digit_char (n mod 10)) - 48) = n"
    "decimal (digit_char (n div 10))" "decimal (digit_char (n mod 10))" "digit_char (n div 10) \<noteq> CHR '' ''"
    using digit_char b div_mult_mod_eq [of n 10] by simp_all
qed

lemma month_names:
  assumes "0 \<le> m" "m < 12"
  obtains a b c where "apr_month_snames ! nat m = [a, b, c]" "isupper a" "apr_islower b" "apr_islower c" "\<not> decimal a"
    "month_loop (month_code a b c) months = m"
proof -
  have "\<exists>a b c. apr_month_snames ! nat m = [a, b, c] \<and> isupper a \<and> apr_islower b \<and> apr_islower c \<and> \<not> decimal a \<and>
      month_loop (month_code a b c) months = m"
    using months_cases [OF assms]
    by (elim disjE) (simp_all add: apr_month_snames_def isupper_def apr_islower_def decimal_def months_def month_code_def char_int_def)
  then show thesis using that by blast
qed

lemma day_names:
  assumes "0 \<le> w" "w < 7"
  obtains a b c where "apr_day_snames ! nat w = [a, b, c]" "\<not> apr_isspace a" "a \<noteq> CHR '' ''" "b \<noteq> CHR '' ''" "c \<noteq> CHR '' ''" "\<not> decimal a"
proof -
  have "w = 0 \<or> w = 1 \<or> w = 2 \<or> w = 3 \<or> w = 4 \<or> w = 5 \<or> w = 6" using assms by presburger
  then have "\<exists>a b c. apr_day_snames ! nat w = [a, b, c] \<and> \<not> apr_isspace a \<and> a \<noteq> CHR '' '' \<and> b \<noteq> CHR '' '' \<and> c \<noteq> CHR '' '' \<and>
      \<not> decimal a"
    by (elim disjE) (simp_all add: apr_day_snames_def apr_isspace_def decimal_def)
  then show thesis using that by blast
qed

section \<open>Days of the calendar\<close>

lemma and_3: "and y 3 = y mod (4 :: int)"
proof -
  have "(3 :: int) = mask 2" by (simp add: mask_eq_exp_minus_1)
  then have "and y 3 = take_bit 2 y" by (simp only: take_bit_eq_mask)
  then show ?thesis by (simp add: take_bit_eq_mod)
qed

lemma leap_tests:
  assumes "0 \<le> y"
  shows "leap y \<longleftrightarrow> \<not> (and y 3 \<noteq> 0 \<or> y smod 100 = 0 \<and> y smod 400 \<noteq> 100)"
proof -
  have "4 dvd y + 1900 \<longleftrightarrow> 4 dvd y" "100 dvd y + 1900 \<longleftrightarrow> 100 dvd y" by (rule dvd_add_left_iff; simp)+
  moreover have "400 dvd y + 1900 \<longleftrightarrow> 400 dvd y - 100" using dvd_add_left_iff [of 400 2000 "y - 100"] by (simp add: add.commute)
  moreover have "400 dvd y - 100 \<longleftrightarrow> y mod 400 = 100" using mod_eq_dvd_iff [of y 400 100] by simp
  ultimately show ?thesis
    using assms unfolding leap_def and_3 by (simp add: dvd_eq_mod_eq_0)
qed

lemma bad_day_iff:
  assumes "0 \<le> year" "0 \<le> mon" "mon < 12" "1 \<le> mday" "mday \<le> 31"
  shows "bad_day year mon mday \<longleftrightarrow> month_lens year ! nat mon < mday"
  using months_cases [OF assms(2,3)] assms(4,5)
  by (elim disjE) (auto simp: bad_day_def month_lens_def leap_tests [OF assms(1)])

lemma month_loop_bounds: "0 \<le> month_loop mint ms \<and> month_loop mint ms \<le> int (length ms)"
  by (induction ms) auto

lemma month_of_bounds: "0 \<le> month_of monstr" "month_of monstr \<le> 12"
  using month_loop_bounds [of _ months] by (simp_all add: month_of_def months_def)

section \<open>Accepted dates\<close>

text \<open>The position \<open>i\<close> of the mask asks for a digit.\<close>

definition digit_at :: "cstr \<Rightarrow> nat \<Rightarrow> bool" where
  "digit_at msk i \<longleftrightarrow> NUL \<notin> set msk \<and> length msk < 256 \<and> i < length msk \<and> msk ! i = CHR ''#'' \<and> CHR ''*'' \<notin> set (take i msk)"

lemma matches_at:
  "matches data msk \<Longrightarrow> i < length msk \<Longrightarrow> msk ! i \<noteq> CHR ''*'' \<Longrightarrow> CHR ''*'' \<notin> set (take i msk) \<Longrightarrow>
     mask_ok (msk ! i) (char_at data i)"
proof (induction data msk arbitrary: i rule: matches.induct)
  case (2 data m ms)
  then show ?case by (cases i) auto
qed simp

lemma dg_nonneg: "apr_date_checkmask data msk \<Longrightarrow> digit_at msk i \<Longrightarrow> 0 \<le> dg data i"
  using matches_at [of data msk i] decimal_nonneg [of "char_at data i"]
  by (simp add: digit_at_def apr_date_checkmask_matches mask_ok_def dg_def)

lemma long_year_nonneg:
  assumes "long_year data i = Some y" "apr_date_checkmask data msk" "digit_at msk (i + 2)" "digit_at msk (i + 3)"
  shows "0 \<le> y"
  using dg_nonneg [OF assms(2,3)] dg_nonneg [OF assms(2,4)] assms(1)
  by (simp add: long_year_def dg2_def Let_def eval_nat_numeral split: if_splits)

lemma short_year_nonneg:
  assumes "apr_date_checkmask data msk" "digit_at msk i" "digit_at msk (i + 1)"
  shows "0 \<le> short_year data i"
  using dg_nonneg [OF assms(1,2)] dg_nonneg [OF assms(1,3)] by (simp add: short_year_def dg2_def Let_def)

lemma long_year_masks:
  "apr_date_checkmask d ''## @$$ #### ##:##:## *'' \<Longrightarrow> long_year d 7 = Some y \<Longrightarrow> 0 \<le> y"
  "apr_date_checkmask d ''@$$ ~# ##:##:## ####*'' \<Longrightarrow> long_year d 16 = Some y \<Longrightarrow> 0 \<le> y"
  "apr_date_checkmask d ''# @$$ #### ##:##:## *'' \<Longrightarrow> long_year d 6 = Some y \<Longrightarrow> 0 \<le> y"
  "apr_date_checkmask d '' # @$$ #### ##:##:## *'' \<Longrightarrow> long_year d 7 = Some y \<Longrightarrow> 0 \<le> y"
  "apr_date_checkmask d ''##-@$$-#### ##:##:## *'' \<Longrightarrow> long_year d 7 = Some y \<Longrightarrow> 0 \<le> y"
  by - (erule long_year_nonneg, assumption, simp add: digit_at_def, simp add: digit_at_def)+

lemma short_year_masks:
  "apr_date_checkmask d ''##-@$$-## ##:##:## *'' \<Longrightarrow> 0 \<le> short_year d 7"
  "apr_date_checkmask d ''## @$$ ## ##:##:## *'' \<Longrightarrow> 0 \<le> short_year d 7"
  "apr_date_checkmask d '' # @$$ ## ##:##:## *'' \<Longrightarrow> 0 \<le> short_year d 7"
  "apr_date_checkmask d ''# @$$ ## ##:##:## *'' \<Longrightarrow> 0 \<le> short_year d 6"
  "apr_date_checkmask d ''## @$$ ## ##:## *'' \<Longrightarrow> 0 \<le> short_year d 7"
  "apr_date_checkmask d ''# @$$ ## ##:## *'' \<Longrightarrow> 0 \<le> short_year d 6"
  "apr_date_checkmask d ''## @$$ ## #:##:## *'' \<Longrightarrow> 0 \<le> short_year d 7"
  "apr_date_checkmask d ''# @$$ ## #:##:## *'' \<Longrightarrow> 0 \<le> short_year d 6"
  by - (erule short_year_nonneg, simp add: digit_at_def, simp add: digit_at_def)+

lemma http_fields_year: "http_fields date = Some (year, mday, monstr, timstr) \<Longrightarrow> 0 \<le> year"
  unfolding http_fields_def by (auto split: if_splits dest: long_year_masks short_year_masks)

lemma rfc_fields_year: "rfc_fields date = Some (year, mday, monstr, t, gmtstr) \<Longrightarrow> 0 \<le> year"
  unfolding rfc_fields_def by (auto split: if_splits dest: long_year_masks short_year_masks)

text \<open>A date as it is written, and the seconds since 1970 by counting along the calendar.\<close>

definition valid_date :: "int \<Rightarrow> int \<Rightarrow> int \<Rightarrow> int \<times> int \<times> int \<Rightarrow> bool" where
  "valid_date year mon mday t \<longleftrightarrow>
     (case t of (hour, mi, se) \<Rightarrow>
       mon < 12 \<and> 1 \<le> mday \<and> mday \<le> month_lens year ! nat mon \<and> hour \<le> 23 \<and> mi \<le> 59 \<and> se \<le> 61)"

definition seconds :: "int \<Rightarrow> int \<Rightarrow> int \<Rightarrow> int \<times> int \<times> int \<Rightarrow> int" where
  "seconds year mon mday t = (case t of (hour, mi, se) \<Rightarrow> ((calendar_days year mon mday * 24 + hour) * 60 + mi) * 60 + se)"

lemma get_ds_of:
  assumes "0 \<le> year" "0 \<le> mon" "mon < 12"
  shows "apr_time_exp_get (ds_of year mon mday t off) =
    (if seconds year mon mday t < 0 then Inl APR_EBADDATE else Inr (seconds year mon mday t * APR_USEC_PER_SEC))"
  using assms
  by (simp add: apr_time_exp_get_def ds_of_def seconds_def days_since_epoch_civil civil_calendar Let_def split: prod.split)

lemma valid_date_tests:
  assumes "0 \<le> year"
  shows "(mday \<le> 0 \<or> mday > 31) \<or> (hour > 23 \<or> mi > 59 \<or> se > 61) \<or> month_of monstr = 12 \<or> bad_day year (month_of monstr) mday \<longleftrightarrow>
    \<not> valid_date year (month_of monstr) mday (hour, mi, se)"
proof -
  show ?thesis
  proof (cases "month_of monstr = 12")
    case False
    then have mon: "month_of monstr < 12" using month_of_bounds [of monstr] by simp
    note len = month_len_bounds [OF month_of_bounds(1) mon, of year]
    show ?thesis
    proof (cases "1 \<le> mday \<and> mday \<le> 31")
      case True
      then show ?thesis using bad_day_iff [OF assms month_of_bounds(1) mon, of mday] False mon by (auto simp: valid_date_def)
    next
      case out: False
      then show ?thesis using len by (auto simp: valid_date_def)
    qed
  qed (simp add: valid_date_def)
qed

section \<open>Printed dates\<close>

text \<open>The form of RFC 1123 and the one of \<open>asctime\<close>.\<close>

definition date_1123 :: "int \<Rightarrow> string \<Rightarrow> int \<Rightarrow> int \<Rightarrow> int \<Rightarrow> int \<Rightarrow> cstr \<Rightarrow> cstr" where
  "date_1123 d m y h mi se z =
     [digit_char (d div 10), digit_char (d mod 10), CHR '' '', char_at m 0, char_at m 1, char_at m 2, CHR '' '',
      digit_char (y div 1000), digit_char (y mod 1000 div 100), digit_char (y mod 100 div 10), digit_char (y mod 10), CHR '' '',
      digit_char (h div 10), digit_char (h mod 10), CHR '':'', digit_char (mi div 10), digit_char (mi mod 10), CHR '':'',
      digit_char (se div 10), digit_char (se mod 10), CHR '' ''] @ z"

definition date_asctime :: "int \<Rightarrow> string \<Rightarrow> int \<Rightarrow> int \<Rightarrow> int \<Rightarrow> int \<Rightarrow> cstr" where
  "date_asctime d m y h mi se =
     [char_at m 0, char_at m 1, char_at m 2, CHR '' '', digit_char (d div 10), digit_char (d mod 10), CHR '' '',
      digit_char (h div 10), digit_char (h mod 10), CHR '':'', digit_char (mi div 10), digit_char (mi mod 10), CHR '':'',
      digit_char (se div 10), digit_char (se mod 10), CHR '' '',
      digit_char (y div 1000), digit_char (y mod 1000 div 100), digit_char (y mod 100 div 10), digit_char (y mod 10)]"

lemma year_digits:
  assumes "0 \<le> r" "r < (10000 :: int)"
  shows "0 \<le> r div 1000" "r div 1000 < 10" "0 \<le> r mod 1000 div 100" "r mod 1000 div 100 < 10"
    "0 \<le> r mod 100 div 10" "r mod 100 div 10 < 10" "r div 1000 * 10 + r mod 1000 div 100 = r div 100"
    "r mod 100 div 10 * 10 + r mod 10 = r mod 100"
proof -
  define q where "q = r div 100"
  have q: "0 \<le> q" "q < 100"
    using assms mult_div_mod_eq [of 100 r] pos_mod_sign [of 100 r] by (simp_all add: q_def pos_imp_zdiv_nonneg_iff)
  have "r mod 1000 = 100 * (q mod 10) + r mod 100" using zmod_zmult2_eq [of 10 r 100] by (simp add: q_def)
  then have hundreds: "r mod 1000 div 100 = q mod 10" by (intro int_div_pos_eq [of _ _ _ "r mod 100"]) simp_all
  have thousands: "r div 1000 = q div 10" using zdiv_zmult2_eq [of 10 r 100] by (simp add: q_def)
  have "r mod 100 = 10 * (r div 10 mod 10) + r mod 10" using zmod_zmult2_eq [of 10 r 10] by simp
  moreover from this have tens: "r mod 100 div 10 = r div 10 mod 10" by (intro int_div_pos_eq [of _ _ _ "r mod 10"]) simp_all
  ultimately show "r mod 100 div 10 * 10 + r mod 10 = r mod 100" by simp
  show "0 \<le> r div 1000" "r div 1000 < 10" "0 \<le> r mod 1000 div 100" "r mod 1000 div 100 < 10"
    "0 \<le> r mod 100 div 10" "r mod 100 div 10 < 10" "r div 1000 * 10 + r mod 1000 div 100 = r div 100"
    unfolding hundreds thousands tens using two_digits(1,2) [OF q] by (simp_all add: q_def [symmetric])
qed

text \<open>Four characters of a year.\<close>

lemma long_year_digits:
  assumes "1900 \<le> r" "r < 10000" and "dg date i = r div 1000" "dg date (i + 1) = r mod 1000 div 100"
    "dg date (i + 2) = r mod 100 div 10" "dg date (i + 2 + 1) = r mod 10"
  shows "long_year date i = Some (r - 1900)"
proof -
  have "0 \<le> r" using assms(1) by simp
  note d = year_digits [OF this assms(2)]
  have "19 \<le> r div 100" using assms(1) mult_div_mod_eq [of 100 r] pos_mod_bound [of 100 r] by simp
  moreover have "dg2 date i = r div 100" "dg2 date (i + 2) = r mod 100"
    unfolding dg2_def assms(3-6) by (rule d(7), rule d(8))
  ultimately show ?thesis using mult_div_mod_eq [of 100 r] by (simp add: long_year_def)
qed

text \<open>What is found in strings of these forms.\<close>

definition num :: "char \<Rightarrow> char \<Rightarrow> int" where
  "num a b = (char_int a - 48) * 10 + (char_int b - 48)"

lemma fields_1123:
  fixes date :: cstr
  assumes date: "date = [d1, d2, CHR '' '', a, b, c, CHR '' '', y1, y2, y3, y4, CHR '' '', h1, h2, CHR '':'', m1, m2, CHR '':'', s1, s2, CHR '' ''] @ z"
    and "decimal d1" "decimal d2" "decimal y1" "decimal y2" "decimal y3" "decimal y4" "decimal h1" "decimal h2"
    "decimal m1" "decimal m2" "decimal s1" "decimal s2" "isupper a" "apr_islower b" "apr_islower c"
  shows "http_fields date = map_option (\<lambda>year. (year, num d1 d2, drop 3 date, drop 12 date)) (long_year date 7)"
    "rfc_fields date = map_option (\<lambda>year. (year, num d1 d2, drop 3 date, (num h1 h2, num m1 m2, num s1 s2), Some z)) (long_year date 7)"
    "month_of (drop 3 date) = month_loop (month_code a b c) months"
    "dg2 (drop 12 date) 0 = num h1 h2" "dg2 (drop 12 date) 3 = num m1 m2" "dg2 (drop 12 date) 6 = num s1 s2"
    "dg date 7 = char_int y1 - 48" "dg date (7 + 1) = char_int y2 - 48" "dg date (7 + 2) = char_int y3 - 48"
    "dg date (7 + 2 + 1) = char_int y4 - 48"
proof -
  have "apr_date_checkmask date ''## @$$ #### ##:##:## *''"
    using assms(2-) by (simp add: date apr_date_checkmask_matches mask_ok_def)
  moreover have "dg2 date 0 = num d1 d2" by (simp add: date dg2_def dg_def num_def char_at_def)
  moreover have "TIMEPARSE_STD (drop 12 date) = (num h1 h2, num m1 m2, num s1 s2)" "drop 21 date = z"
    by (simp_all add: date TIMEPARSE_STD_def TIMEPARSE_def num_def char_at_def)
  ultimately show "http_fields date = map_option (\<lambda>year. (year, num d1 d2, drop 3 date, drop 12 date)) (long_year date 7)"
    "rfc_fields date = map_option (\<lambda>year. (year, num d1 d2, drop 3 date, (num h1 h2, num m1 m2, num s1 s2), Some z)) (long_year date 7)"
    by (simp_all add: http_fields_def rfc_fields_def)
qed (simp_all add: date month_of_def dg2_def dg_def num_def char_at_def)

lemma fields_asctime:
  fixes date :: cstr
  assumes date: "date = [a, b, c, CHR '' '', d1, d2, CHR '' '', h1, h2, CHR '':'', m1, m2, CHR '':'', s1, s2, CHR '' '', y1, y2, y3, y4]"
    and "decimal d1" "decimal d2" "decimal y1" "decimal y2" "decimal y3" "decimal y4" "decimal h1" "decimal h2"
    "decimal m1" "decimal m2" "decimal s1" "decimal s2" "isupper a" "apr_islower b" "apr_islower c" "\<not> decimal a" "d1 \<noteq> CHR '' ''"
  shows "http_fields date = map_option (\<lambda>year. (year, num d1 d2, date, drop 7 date)) (long_year date 16)"
    "rfc_fields date = map_option (\<lambda>year. (year, num d1 d2, date, (num h1 h2, num m1 m2, num s1 s2), None)) (long_year date 16)"
    "month_of date = month_loop (month_code a b c) months"
    "dg2 (drop 7 date) 0 = num h1 h2" "dg2 (drop 7 date) 3 = num m1 m2" "dg2 (drop 7 date) 6 = num s1 s2"
    "dg date 16 = char_int y1 - 48" "dg date (16 + 1) = char_int y2 - 48" "dg date (16 + 2) = char_int y3 - 48"
    "dg date (16 + 2 + 1) = char_int y4 - 48"
proof -
  have "\<not> apr_date_checkmask date ''## @$$ #### ##:##:## *''" "\<not> apr_date_checkmask date ''##-@$$-## ##:##:## *''"
    using assms(17) by (simp_all add: date apr_date_checkmask_matches mask_ok_def)
  moreover have "apr_date_checkmask date ''@$$ ~# ##:##:## ####*''"
    using assms(2-) by (simp add: date apr_date_checkmask_matches mask_ok_def)
  moreover have "(if char_at date 4 = CHR '' '' then 0 else dg date 4 * 10) + dg date 5 = num d1 d2"
    using assms(18) by (simp add: date dg_def num_def char_at_def)
  moreover have "TIMEPARSE_STD (drop 7 date) = (num h1 h2, num m1 m2, num s1 s2)"
    by (simp add: date TIMEPARSE_STD_def TIMEPARSE_def num_def char_at_def)
  ultimately show "http_fields date = map_option (\<lambda>year. (year, num d1 d2, date, drop 7 date)) (long_year date 16)"
    "rfc_fields date = map_option (\<lambda>year. (year, num d1 d2, date, (num h1 h2, num m1 m2, num s1 s2), None)) (long_year date 16)"
    by (simp_all add: http_fields_def rfc_fields_def)
qed (simp_all add: date month_of_def dg2_def dg_def num_def char_at_def)

text \<open>The tests and the time at the end of both functions.\<close>

lemma parse_tail:
  assumes "0 \<le> year"
  shows "(if mday \<le> 0 \<or> mday > 31 then bad
     else if hour > 23 \<or> mi > 59 \<or> se > 61 then bad
     else if month_of monstr = 12 then bad else if bad_day year (month_of monstr) mday then bad else good) =
    (if valid_date year (month_of monstr) mday (hour, mi, se) then good else bad)"
  using valid_date_tests [OF assms, of mday hour mi se monstr] by auto

lemma after_word:
  assumes "w \<noteq> []" "\<not> apr_isspace (hd w)" "CHR '' '' \<notin> set w"
  shows "after_weekday (w @ CHR '' '' # rest) = Some rest"
proof -
  have "dropWhile apr_isspace (w @ CHR '' '' # rest) = w @ CHR '' '' # rest" using assms(1,2) by (cases w) simp_all
  moreover have "dropWhile (\<lambda>c. c \<noteq> CHR '' '') (w @ CHR '' '' # rest) = CHR '' '' # rest"
    using assms(3) by (simp add: dropWhile_append3 dropWhile_append) 
  ultimately show ?thesis using assms(1) by (simp add: after_weekday_def)
qed

lemma http_calendar:
  assumes "after_weekday date = Some rest" "http_fields rest = Some (year, mday, monstr, timstr)"
  shows "apr_date_parse_http (Some date) =
    (let t = (dg2 timstr 0, dg2 timstr 3, dg2 timstr 6); mon = month_of monstr
     in if valid_date year mon mday t \<and> 0 \<le> seconds year mon mday t then seconds year mon mday t * APR_USEC_PER_SEC
        else APR_DATE_BAD)"
proof -
  have year: "0 \<le> year" by (rule http_fields_year [OF assms(2)])
  let ?t = "(dg2 timstr 0, dg2 timstr 3, dg2 timstr 6)"
  have "apr_date_parse_http (Some date) =
      (if valid_date year (month_of monstr) mday ?t
       then (case apr_time_exp_get (ds_of year (month_of monstr) mday ?t 0) of Inl rv \<Rightarrow> APR_DATE_BAD | Inr result \<Rightarrow> result)
       else APR_DATE_BAD)"
    by (simp only: apr_date_parse_http_def assms Option.bind.simps option.case prod.case Let_def parse_tail [OF year])
  then show ?thesis using get_ds_of [OF year month_of_bounds(1), of monstr mday ?t 0] by (auto simp: valid_date_def Let_def)
qed

lemma rfc_calendar:
  assumes "(if \<not> decimal (char_at date 0) then after_weekday date else Some date) = Some rest"
    "rfc_fields rest = Some (year, mday, monstr, t, gmtstr)"
  shows "apr_date_parse_rfc (Some date) =
    (let mon = month_of monstr
     in if valid_date year mon mday t \<and> 0 \<le> seconds year mon mday t
        then seconds year mon mday t * APR_USEC_PER_SEC - zone gmtstr * APR_USEC_PER_SEC
        else APR_DATE_BAD)"
proof -
  have year: "0 \<le> year" by (rule rfc_fields_year [OF assms(2)])
  obtain hour mi se where t: "t = (hour, mi, se)" by (cases t)
  have "apr_date_parse_rfc (Some date) =
      (if valid_date year (month_of monstr) mday (hour, mi, se)
       then (case apr_time_exp_gmt_get (ds_of year (month_of monstr) mday (hour, mi, se) (zone gmtstr)) of
               Inl rv \<Rightarrow> APR_DATE_BAD | Inr result \<Rightarrow> result)
       else APR_DATE_BAD)"
    by (simp only: apr_date_parse_rfc_def assms t Option.bind.simps option.case prod.case Let_def parse_tail [OF year])
  moreover have "tm_gmtoff (ds_of year (month_of monstr) mday (hour, mi, se) (zone gmtstr)) = zone gmtstr" by (simp add: ds_of_def)
  ultimately show ?thesis using get_ds_of [OF year month_of_bounds(1), of monstr mday t "zone gmtstr"]
    by (auto simp: valid_date_def apr_time_exp_gmt_get_def t Let_def)
qed

lemma date_1123_shape:
  "date_1123 d [a, b, c] y h mi se z =
     [digit_char (d div 10), digit_char (d mod 10), CHR '' '', a, b, c, CHR '' '',
      digit_char (y div 1000), digit_char (y mod 1000 div 100), digit_char (y mod 100 div 10), digit_char (y mod 10), CHR '' '',
      digit_char (h div 10), digit_char (h mod 10), CHR '':'', digit_char (mi div 10), digit_char (mi mod 10), CHR '':'',
      digit_char (se div 10), digit_char (se mod 10), CHR '' ''] @ z"
  by (simp add: date_1123_def char_at_def)

lemma date_asctime_shape:
  "date_asctime d [a, b, c] y h mi se =
     [a, b, c, CHR '' '', digit_char (d div 10), digit_char (d mod 10), CHR '' '',
      digit_char (h div 10), digit_char (h mod 10), CHR '':'', digit_char (mi div 10), digit_char (mi mod 10), CHR '':'',
      digit_char (se div 10), digit_char (se mod 10), CHR '' '',
      digit_char (y div 1000), digit_char (y mod 1000 div 100), digit_char (y mod 100 div 10), digit_char (y mod 10)]"
  by (simp add: date_asctime_def char_at_def)

lemma clock_sum: "(h * 60 + m) * 60 + s = r \<Longrightarrow> q * 86400 + r = t \<Longrightarrow> ((q * 24 + h) * 60 + m) * 60 + s = (t :: int)"
  by simp

text \<open>The fields of a time until the end of the year 9999 are those of a valid date.\<close>

lemma gmtime_date:
  fixes tt
  defines "x \<equiv> gmtime tt"
  assumes "0 \<le> tt" "tt < 253402300800"
  shows "70 \<le> tm_year x" "tm_year x < 8100"
    "valid_date (tm_year x) (tm_mon x) (tm_mday x) (tm_hour x, tm_min x, tm_sec x)"
    "seconds (tm_year x) (tm_mon x) (tm_mday x) (tm_hour x, tm_min x, tm_sec x) = tt"
proof -
  note g = gmtime_civil [of tt, folded x_def]
  have "0 \<le> tt div 86400" "tt div 86400 < 2932897"
    using assms(2,3) mult_div_mod_eq [of 86400 tt] pos_mod_sign [of 86400 tt] by (simp_all add: pos_imp_zdiv_nonneg_iff)
  moreover have "new_year 8100 = 2932897" by (simp add: new_year_def)
  ultimately show "70 \<le> tm_year x" "tm_year x < 8100"
    using new_year_mono [of "tm_year x + 1" 70] new_year_mono [of 8100 "tm_year x"] g(15,16) new_year_70 by linarith+
  show "valid_date (tm_year x) (tm_mon x) (tm_mday x) (tm_hour x, tm_min x, tm_sec x)"
    using g(3-5,8,10,12) by (simp add: valid_date_def)
  have "((tt div 86400 * 24 + tm_hour x) * 60 + tm_min x) * 60 + tm_sec x = tt"
    by (rule clock_sum [OF g(6) div_mult_mod_eq])
  then show "seconds (tm_year x) (tm_mon x) (tm_mday x) (tm_hour x, tm_min x, tm_sec x) = tt"
    using g(1) by (simp add: seconds_def civil_calendar)
qed

lemma seconds_range:
  assumes "0 \<le> t" "t < 253402300800000000"
  shows "0 \<le> t div APR_USEC_PER_SEC" "t div APR_USEC_PER_SEC < 253402300800"
proof -
  show "0 \<le> t div APR_USEC_PER_SEC" using assms(1) by (simp add: pos_imp_zdiv_nonneg_iff)
  show "t div APR_USEC_PER_SEC < 253402300800"
    using assms(2) mult_div_mod_eq [of APR_USEC_PER_SEC t] pos_mod_sign [of APR_USEC_PER_SEC t] by simp
qed

text \<open>A string of the form of RFC 1123 with such fields.\<close>

lemma parse_1123:
  fixes tt
  defines "x \<equiv> gmtime tt"
  assumes time: "0 \<le> tt" "tt < 253402300800" and word: "w \<noteq> []" "\<not> apr_isspace (hd w)" "CHR '' '' \<notin> set w" "\<not> decimal (hd w)"
  shows "let date = w @ CHR '' '' # date_1123 (tm_mday x) (apr_month_snames ! nat (tm_mon x)) (1900 + tm_year x) (tm_hour x) (tm_min x) (tm_sec x) z
    in apr_date_parse_http (Some date) = tt * APR_USEC_PER_SEC \<and>
       apr_date_parse_rfc (Some date) = tt * APR_USEC_PER_SEC - zone (Some z) * APR_USEC_PER_SEC"
proof -
  note g = gmtime_civil [of tt, folded x_def] and d = gmtime_date [OF time, folded x_def]
  have day: "0 \<le> tm_mday x" "tm_mday x < 100"
    using g(4,5) month_len_bounds [OF g(2,3), of "tm_year x"] by linarith+
  have y: "0 \<le> 1900 + tm_year x" "1900 + tm_year x < 10000" "1900 \<le> 1900 + tm_year x" using d(1,2) by simp_all
  obtain a b c where m: "apr_month_snames ! nat (tm_mon x) = [a, b, c]" "isupper a" "apr_islower b" "apr_islower c"
    "month_loop (month_code a b c) months = tm_mon x" by (rule month_names [OF g(2,3)])
  let ?rest = "date_1123 (tm_mday x) [a, b, c] (1900 + tm_year x) (tm_hour x) (tm_min x) (tm_sec x) z"
  have clock: "tm_hour x < 100" "tm_min x < 100" "tm_sec x < 100" using g(8,10,12) by simp_all
  note digits = two_digits [OF day] two_digits [OF g(7) clock(1)] two_digits [OF g(9) clock(2)] two_digits [OF g(11) clock(3)]
  note yd = year_digits [OF y(1,2)]
  have last: "0 \<le> (1900 + tm_year x) mod 10" "(1900 + tm_year x) mod 10 < 10" by simp_all
  note f = fields_1123 [OF date_1123_shape digits(4,5) digit_char(2) [OF yd(1,2)] digit_char(2) [OF yd(3,4)]
    digit_char(2) [OF yd(5,6)] digit_char(2) [OF last] digits(10,11,16,17,22,23) m(2,3,4), of z]
  have "dg ?rest 7 = (1900 + tm_year x) div 1000" "dg ?rest (7 + 1) = (1900 + tm_year x) mod 1000 div 100"
    "dg ?rest (7 + 2) = (1900 + tm_year x) mod 100 div 10" "dg ?rest (7 + 2 + 1) = (1900 + tm_year x) mod 10"
    by (simp_all only: f(7-10) digit_char(1) [OF yd(1,2)] digit_char(1) [OF yd(3,4)] digit_char(1) [OF yd(5,6)] digit_char(1) [OF last]
        add_diff_cancel_right')
  note long_year_digits [OF y(3,2) this]
  then have fields: "http_fields ?rest = Some (tm_year x, tm_mday x, drop 3 ?rest, drop 12 ?rest)"
    "rfc_fields ?rest = Some (tm_year x, tm_mday x, drop 3 ?rest, (tm_hour x, tm_min x, tm_sec x), Some z)"
    by (simp_all only: f(1,2) num_def digits(3,9,15,21) option.map add_diff_cancel_left')
  have clock_read: "dg2 (drop 12 ?rest) 0 = tm_hour x" "dg2 (drop 12 ?rest) 3 = tm_min x" "dg2 (drop 12 ?rest) 6 = tm_sec x"
    by (simp_all only: f(4-6) num_def digits(9,15,21))
  have mon: "month_of (drop 3 ?rest) = tm_mon x" using f(3) m(5) by simp
  let ?date = "w @ CHR '' '' # ?rest"
  have after: "after_weekday ?date = Some ?rest" by (rule after_word [OF word(1-3)])
  have "char_at ?date 0 = hd w" using word(1) by (cases w) simp_all
  then have after': "(if \<not> decimal (char_at ?date 0) then after_weekday ?date else Some ?date) = Some ?rest" using word(4) after by simp
  show ?thesis
    using http_calendar [OF after fields(1)] rfc_calendar [OF after' fields(2)] d(3,4) time(1)
    by (simp add: mon clock_read m(1) Let_def)
qed

lemma parse_asctime:
  fixes tt
  defines "x \<equiv> gmtime tt"
  assumes time: "0 \<le> tt" "tt < 253402300800" and word: "w \<noteq> []" "\<not> apr_isspace (hd w)" "CHR '' '' \<notin> set w"
  shows "apr_date_parse_http (Some (w @ CHR '' '' # date_asctime (tm_mday x) (apr_month_snames ! nat (tm_mon x)) (1900 + tm_year x)
      (tm_hour x) (tm_min x) (tm_sec x))) = tt * APR_USEC_PER_SEC"
proof -
  note g = gmtime_civil [of tt, folded x_def] and d = gmtime_date [OF time, folded x_def]
  have day: "0 \<le> tm_mday x" "tm_mday x < 100"
    using g(4,5) month_len_bounds [OF g(2,3), of "tm_year x"] by linarith+
  have y: "0 \<le> 1900 + tm_year x" "1900 + tm_year x < 10000" "1900 \<le> 1900 + tm_year x" using d(1,2) by simp_all
  obtain a b c where m: "apr_month_snames ! nat (tm_mon x) = [a, b, c]" "isupper a" "apr_islower b" "apr_islower c" "\<not> decimal a"
    "month_loop (month_code a b c) months = tm_mon x" by (rule month_names [OF g(2,3)])
  let ?rest = "date_asctime (tm_mday x) [a, b, c] (1900 + tm_year x) (tm_hour x) (tm_min x) (tm_sec x)"
  have clock: "tm_hour x < 100" "tm_min x < 100" "tm_sec x < 100" using g(8,10,12) by simp_all
  note digits = two_digits [OF day] two_digits [OF g(7) clock(1)] two_digits [OF g(9) clock(2)] two_digits [OF g(11) clock(3)]
  note yd = year_digits [OF y(1,2)]
  have last: "0 \<le> (1900 + tm_year x) mod 10" "(1900 + tm_year x) mod 10 < 10" by simp_all
  note f = fields_asctime [OF date_asctime_shape digits(4,5) digit_char(2) [OF yd(1,2)] digit_char(2) [OF yd(3,4)]
    digit_char(2) [OF yd(5,6)] digit_char(2) [OF last] digits(10,11,16,17,22,23) m(2-5) digits(6)]
  have "dg ?rest 16 = (1900 + tm_year x) div 1000" "dg ?rest (16 + 1) = (1900 + tm_year x) mod 1000 div 100"
    "dg ?rest (16 + 2) = (1900 + tm_year x) mod 100 div 10" "dg ?rest (16 + 2 + 1) = (1900 + tm_year x) mod 10"
    by (simp_all only: f(7-10) digit_char(1) [OF yd(1,2)] digit_char(1) [OF yd(3,4)] digit_char(1) [OF yd(5,6)] digit_char(1) [OF last]
        add_diff_cancel_right')
  note long_year_digits [OF y(3,2) this]
  then have fields: "http_fields ?rest = Some (tm_year x, tm_mday x, ?rest, drop 7 ?rest)"
    by (simp_all only: f(1) num_def digits(3) option.map add_diff_cancel_left')
  have clock_read: "dg2 (drop 7 ?rest) 0 = tm_hour x" "dg2 (drop 7 ?rest) 3 = tm_min x" "dg2 (drop 7 ?rest) 6 = tm_sec x"
    by (simp_all only: f(4-6) num_def digits(9,15,21))
  have mon: "month_of ?rest = tm_mon x" using f(3) m(6) by simp
  show ?thesis
    using http_calendar [OF after_word [OF word] fields] d(3,4) time(1) by (simp add: mon clock_read m(1) Let_def)
qed

text \<open>What \<open>apr_rfc822_date\<close> and \<open>apr_ctime\<close> print.\<close>

lemma rfc822_shape:
  assumes "0 \<le> t" "t < 253402300800000000"
  defines "x \<equiv> gmtime (t div APR_USEC_PER_SEC)"
  obtains w where "\<forall>z. take 26 (apr_rfc822_date t) @ z = w @ CHR '' '' # date_1123 (tm_mday x) (apr_month_snames ! nat (tm_mon x))
      (1900 + tm_year x) (tm_hour x) (tm_min x) (tm_sec x) z"
    "apr_rfc822_date t = take 26 (apr_rfc822_date t) @ ''GMT''" "w \<noteq> []" "\<not> apr_isspace (hd w)" "CHR '' '' \<notin> set w" "\<not> decimal (hd w)"
proof -
  note g = gmtime_civil [of "t div APR_USEC_PER_SEC", folded x_def]
  have y: "0 \<le> 1900 + tm_year x" using gmtime_date(1) [OF seconds_range [OF assms(1,2)], folded x_def] by simp
  obtain a b c where day: "apr_day_snames ! nat (tm_wday x) = [a, b, c]" "\<not> apr_isspace a" "a \<noteq> CHR '' ''" "b \<noteq> CHR '' ''"
    "c \<noteq> CHR '' ''" "\<not> decimal a" by (rule day_names [OF g(13,14)])
  have fields: "tm_wday (apr_time_exp_gmt t) = tm_wday x" "tm_mon (apr_time_exp_gmt t) = tm_mon x"
    "tm_mday (apr_time_exp_gmt t) = tm_mday x" "tm_year (apr_time_exp_gmt t) = tm_year x" "tm_hour (apr_time_exp_gmt t) = tm_hour x"
    "tm_min (apr_time_exp_gmt t) = tm_min x" "tm_sec (apr_time_exp_gmt t) = tm_sec x"
    using assms(1) by (simp_all add: apr_time_exp_gmt_def apr_time_exp_tz_def explode_time_def x_def Let_def)
  have printed: "apr_rfc822_date t = [a, b, c, CHR '',''] @ CHR '' '' # date_1123 (tm_mday x) (apr_month_snames ! nat (tm_mon x))
      (1900 + tm_year x) (tm_hour x) (tm_min x) (tm_sec x) ''GMT''"
    unfolding apr_rfc822_date_def Let_def fields day(1) date_1123_def
    using y g(4,7,9,11) by (simp add: char_at_def)
  show thesis
    by (rule that [of "[a, b, c, CHR '','']"]) (use day in \<open>simp_all add: printed date_1123_def\<close>)
qed

lemma rfc822_suffix:
  assumes "0 \<le> t" "t < 253402300800000000"
  shows "apr_date_parse_http (Some (take 26 (apr_rfc822_date t) @ z)) = t - t mod APR_USEC_PER_SEC"
    "apr_date_parse_rfc (Some (take 26 (apr_rfc822_date t) @ z)) = t - t mod APR_USEC_PER_SEC - zone (Some z) * APR_USEC_PER_SEC"
    "take 26 (apr_rfc822_date t) @ ''GMT'' = apr_rfc822_date t"
proof -
  define x where "x = gmtime (t div APR_USEC_PER_SEC)"
  obtain w where w: "\<forall>z. take 26 (apr_rfc822_date t) @ z = w @ CHR '' '' # date_1123 (tm_mday x) (apr_month_snames ! nat (tm_mon x))
      (1900 + tm_year x) (tm_hour x) (tm_min x) (tm_sec x) z"
    and gmt: "apr_rfc822_date t = take 26 (apr_rfc822_date t) @ ''GMT''"
    and word: "w \<noteq> []" "\<not> apr_isspace (hd w)" "CHR '' '' \<notin> set w" "\<not> decimal (hd w)"
    unfolding x_def by (rule rfc822_shape [OF assms])
  have "t - t mod APR_USEC_PER_SEC = t div APR_USEC_PER_SEC * APR_USEC_PER_SEC" by (rule minus_mod_eq_div_mult)
  then show "apr_date_parse_http (Some (take 26 (apr_rfc822_date t) @ z)) = t - t mod APR_USEC_PER_SEC"
    "apr_date_parse_rfc (Some (take 26 (apr_rfc822_date t) @ z)) = t - t mod APR_USEC_PER_SEC - zone (Some z) * APR_USEC_PER_SEC"
    using parse_1123 [OF seconds_range [OF assms] word, folded x_def, of z] by (simp_all only: w Let_def simp_thms)
  show "take 26 (apr_rfc822_date t) @ ''GMT'' = apr_rfc822_date t" by (rule gmt [symmetric])
qed

lemma ctime_parses:
  assumes "0 \<le> t" "0 \<le> t div APR_USEC_PER_SEC + off" "t div APR_USEC_PER_SEC + off < 253402300800"
  shows "apr_date_parse_http (Some (apr_ctime (\<lambda>tt. gmtime (tt + off)) t)) = (t div APR_USEC_PER_SEC + off) * APR_USEC_PER_SEC"
proof -
  define x where "x = gmtime (t div APR_USEC_PER_SEC + off)"
  note g = gmtime_civil [of "t div APR_USEC_PER_SEC + off", folded x_def]
  have y: "0 \<le> 1900 + tm_year x" using gmtime_date(1) [OF assms(2,3), folded x_def] by simp
  obtain a b c where day: "apr_day_snames ! nat (tm_wday x) = [a, b, c]" "\<not> apr_isspace a" "a \<noteq> CHR '' ''" "b \<noteq> CHR '' ''"
    "c \<noteq> CHR '' ''" "\<not> decimal a" by (rule day_names [OF g(13,14)])
  let ?xt = "apr_time_exp_lt (\<lambda>tt. gmtime (tt + off)) t"
  have fields: "tm_wday ?xt = tm_wday x" "tm_mon ?xt = tm_mon x" "tm_mday ?xt = tm_mday x" "tm_year ?xt = tm_year x"
    "tm_hour ?xt = tm_hour x" "tm_min ?xt = tm_min x" "tm_sec ?xt = tm_sec x"
    using assms(1) by (simp_all add: apr_time_exp_lt_def explode_time_def x_def Let_def)
  have "apr_ctime (\<lambda>tt. gmtime (tt + off)) t = [a, b, c] @ CHR '' '' # date_asctime (tm_mday x) (apr_month_snames ! nat (tm_mon x))
      (1900 + tm_year x) (tm_hour x) (tm_min x) (tm_sec x)"
    unfolding apr_ctime_def Let_def fields day(1) date_asctime_def
    using y g(4,7,9,11) by (simp add: char_at_def)
  then show ?thesis using parse_asctime [OF assms(2,3), of "[a, b, c]", folded x_def] day by simp
qed

text \<open>The zone of four digits, hours and minutes east or west of GMT.\<close>

definition zone_string :: "bool \<Rightarrow> int \<Rightarrow> int \<Rightarrow> cstr" where
  "zone_string west h m =
     [if west then CHR ''-'' else CHR ''+'', digit_char (h div 10), digit_char (h mod 10), digit_char (m div 10), digit_char (m mod 10)]"

lemma four_digits:
  assumes "0 \<le> h" "h < 100" "0 \<le> m" "m < 100"
  shows "fst (strtol [digit_char (h div 10), digit_char (h mod 10), digit_char (m div 10), digit_char (m mod 10)]) = h * 100 + m"
proof -
  note hd = two_digits [OF assms(1,2)] and md = two_digits [OF assms(3,4)]
  let ?ds = "[digit_char (h div 10), digit_char (h mod 10), digit_char (m div 10), digit_char (m mod 10)]"
  have "skip_space ?ds = 0" using decimal_cases [OF hd(4)] by (simp add: skip_space_def)
  moreover have "takeWhile decimal ?ds = ?ds" using hd(4,5) md(4,5) by simp
  moreover have "digits_value 10 0 ?ds = h * 100 + m"
    using digit_char(4) [OF hd(1,2)] digit_char(4) [of "h mod 10"] digit_char(4) [OF md(1,2)] digit_char(4) [of "m mod 10"]
      hd(1) md(1) div_mult_mod_eq [of h 10] div_mult_mod_eq [of m 10] by simp
  ultimately show ?thesis using decimal_cases [OF hd(4)] assms by (simp add: strtol_def Let_def)
qed

lemma zone_string:
  assumes "0 \<le> h" "h < 100" "0 \<le> m" "m < 100"
  shows "zone (Some (zone_string west h m)) = (if west then - ((h * 60 + m) * 60) else (h * 60 + m) * 60)"
proof -
  have small: "sint (word_of_int v :: 32 word) = v" if "- (2 ^ 31) \<le> v" "v < 2 ^ 31" for v
    using that by (simp add: signed_of_int signed_take_bit_int_eq_self)
  have off: "sint (atoi (drop 1 (zone_string west h m))) = h * 100 + m"
    unfolding zone_string_def drop_Suc_Cons drop0 One_nat_def atoi_def four_digits [OF assms] using assms by (intro small) simp_all
  have "(h * 100 + m) div 100 = h" "(h * 100 + m) mod 100 = m" using assms by simp_all
  moreover have "word_of_int (h * 60 * 60) + word_of_int (m * 60) = (word_of_int ((h * 60 + m) * 60) :: 32 word)"
    by (simp add: algebra_simps)
  moreover have "sint (- word_of_int ((h * 60 + m) * 60) :: 32 word) = - ((h * 60 + m) * 60)"
    using small [of "- ((h * 60 + m) * 60)"] assms by simp
  moreover have "sint (word_of_int ((h * 60 + m) * 60) :: 32 word) = (h * 60 + m) * 60"
    using small [of "(h * 60 + m) * 60"] assms by simp
  ultimately show ?thesis unfolding zone_def option.case Let_def off using assms by (simp add: zone_string_def)
qed

section \<open>Dates as they are written\<close>

text \<open>
  What the formats of HTTP are, without the masks and the tests of the code: a weekday (any word, after any white space), then
  one of five forms, with the year, the name of the month, the day and the time that are written. A year of two digits is one
  from 1970 to 2069.
\<close>

definition digit_string :: "nat \<Rightarrow> cstr \<Rightarrow> bool" where
  "digit_string n ds \<longleftrightarrow> length ds = n \<and> list_all decimal ds"

definition number_of :: "cstr \<Rightarrow> int" where
  "number_of ds = foldl (\<lambda>n c. 10 * n + (of_char c - 48)) 0 ds"

inductive http_rest :: "cstr \<Rightarrow> int \<Rightarrow> string \<Rightarrow> int \<Rightarrow> int \<times> int \<times> int \<Rightarrow> bool" where
  rfc1123: "digit_string 2 d \<Longrightarrow> digit_string 4 y \<Longrightarrow> digit_string 2 h \<Longrightarrow> digit_string 2 mi \<Longrightarrow> digit_string 2 s \<Longrightarrow>
    http_rest (d @ '' '' @ m @ '' '' @ y @ '' '' @ h @ '':'' @ mi @ '':'' @ s @ '' '' @ z)
      (number_of y) m (number_of d) (number_of h, number_of mi, number_of s)"
| one_digit: "digit_string 1 d \<Longrightarrow> digit_string 4 y \<Longrightarrow> digit_string 2 h \<Longrightarrow> digit_string 2 mi \<Longrightarrow> digit_string 2 s \<Longrightarrow>
    http_rest (d @ '' '' @ m @ '' '' @ y @ '' '' @ h @ '':'' @ mi @ '':'' @ s @ '' '' @ z)
      (number_of y) m (number_of d) (number_of h, number_of mi, number_of s)"
| rfc850: "digit_string 2 d \<Longrightarrow> digit_string 2 y \<Longrightarrow> digit_string 2 h \<Longrightarrow> digit_string 2 mi \<Longrightarrow> digit_string 2 s \<Longrightarrow>
    http_rest (d @ ''-'' @ m @ ''-'' @ y @ '' '' @ h @ '':'' @ mi @ '':'' @ s @ '' '' @ z)
      (if number_of y < 70 then 2000 + number_of y else 1900 + number_of y) m (number_of d) (number_of h, number_of mi, number_of s)"
| asctime: "digit_string 2 d \<Longrightarrow> digit_string 4 y \<Longrightarrow> digit_string 2 h \<Longrightarrow> digit_string 2 mi \<Longrightarrow> digit_string 2 s \<Longrightarrow>
    http_rest (m @ '' '' @ d @ '' '' @ h @ '':'' @ mi @ '':'' @ s @ '' '' @ y @ z)
      (number_of y) m (number_of d) (number_of h, number_of mi, number_of s)"
| asctime_padded: "digit_string 1 d \<Longrightarrow> digit_string 4 y \<Longrightarrow> digit_string 2 h \<Longrightarrow> digit_string 2 mi \<Longrightarrow> digit_string 2 s \<Longrightarrow>
    http_rest (m @ ''  '' @ d @ '' '' @ h @ '':'' @ mi @ '':'' @ s @ '' '' @ y @ z)
      (number_of y) m (number_of d) (number_of h, number_of mi, number_of s)"

inductive http_date :: "cstr \<Rightarrow> int \<Rightarrow> string \<Rightarrow> int \<Rightarrow> int \<times> int \<times> int \<Rightarrow> bool" where
  "list_all apr_isspace sp \<Longrightarrow> w \<noteq> [] \<Longrightarrow> \<not> apr_isspace (hd w) \<Longrightarrow> CHR '' '' \<notin> set w \<Longrightarrow> http_rest rest y m d t \<Longrightarrow>
    http_date (sp @ w @ '' '' @ rest) y m d t"

text \<open>The time of a date that is in the calendar and not before 1970, in microseconds, and 0 for any other.\<close>

definition calendar_time :: "int \<Rightarrow> string \<Rightarrow> int \<Rightarrow> int \<times> int \<times> int \<Rightarrow> int" where
  "calendar_time y m d t =
     (let mon = int (length (takeWhile (\<lambda>name. name \<noteq> m) apr_month_snames))
      in if 1900 \<le> y \<and> valid_date (y - 1900) mon d t \<and> 0 \<le> seconds (y - 1900) mon d t
         then seconds (y - 1900) mon d t * APR_USEC_PER_SEC else 0)"

subsection \<open>Digits and months\<close>

lemma digit_string_cases:
  "digit_string 1 ds \<longleftrightarrow> (\<exists>a. ds = [a] \<and> decimal a)"
  "digit_string (Suc 0) ds \<longleftrightarrow> (\<exists>a. ds = [a] \<and> decimal a)"
  "digit_string 2 ds \<longleftrightarrow> (\<exists>a b. ds = [a, b] \<and> decimal a \<and> decimal b)"
  "digit_string 4 ds \<longleftrightarrow> (\<exists>a b c d. ds = [a, b, c, d] \<and> decimal a \<and> decimal b \<and> decimal c \<and> decimal d)"
  by (auto simp: digit_string_def length_Suc_conv eval_nat_numeral)

lemma number_simps:
  "decimal a \<Longrightarrow> number_of [a] = char_int a - 48"
  "decimal a \<Longrightarrow> decimal b \<Longrightarrow> number_of [a, b] = num a b"
  "decimal a \<Longrightarrow> decimal b \<Longrightarrow> decimal c \<Longrightarrow> decimal d \<Longrightarrow> number_of [a, b, c, d] = 100 * num a b + num c d"
proof -
  have "of_char c = char_int c" if "decimal c" for c
  proof -
    have "(of_char c :: int) = int (of_char c)" by (simp only: of_nat_of_char)
    then show ?thesis using that by (simp add: char_int_def decimal_def)
  qed
  then show "decimal a \<Longrightarrow> number_of [a] = char_int a - 48"
    "decimal a \<Longrightarrow> decimal b \<Longrightarrow> number_of [a, b] = num a b"
    "decimal a \<Longrightarrow> decimal b \<Longrightarrow> decimal c \<Longrightarrow> decimal d \<Longrightarrow> number_of [a, b, c, d] = 100 * num a b + num c d"
    by (simp_all add: number_of_def num_def)
qed

lemma num_bounds: "decimal a \<Longrightarrow> decimal b \<Longrightarrow> 0 \<le> num a b \<and> num a b < 100"
  using decimal_nonneg [of a] decimal_nonneg [of b] by (simp add: num_def)

lemma long_year_number:
  assumes "dg2 date i = num a b" "dg2 date (i + 2) = num c d" "decimal a" "decimal b" "decimal c" "decimal d"
  shows "long_year date i = (if number_of [a, b, c, d] < 1900 then None else Some (number_of [a, b, c, d] - 1900))"
  using num_bounds [of c d] assms by (auto simp: long_year_def number_simps)

lemma or_sum: "take_bit k x = x \<Longrightarrow> or (push_bit k y) x = push_bit k y + (x :: int)"
proof (rule disjunctive_add_eq_or [symmetric], rule bit_eqI)
  fix n :: nat
  assume x: "take_bit k x = x"
  then have "bit x n \<Longrightarrow> n < k" by (metis bit_take_bit_iff)
  then show "bit (and (push_bit k y) x) n = bit (0 :: int) n" by (auto simp: bit_simps)
qed

definition letter :: "char \<Rightarrow> bool" where
  "letter c \<longleftrightarrow> isupper c \<or> apr_islower c"

lemma month_code_sum:
  assumes "letter a" "letter b" "letter c"
  shows "month_code a b c = of_char a * 65536 + of_char b * 256 + of_char c"
proof -
  have bounds: "(of_char x :: int) = int (of_char x)" "char_int x = of_char x" "0 \<le> (of_char x :: int)" "(of_char x :: int) < 256"
    if "letter x" for x
  proof -
    show eq: "(of_char x :: int) = int (of_char x)" by (simp only: of_nat_of_char)
    show "char_int x = of_char x" "0 \<le> (of_char x :: int)" "(of_char x :: int) < 256"
      using that by (auto simp: letter_def isupper_def apr_islower_def char_int_def eq)
  qed
  have "or (push_bit 16 (of_char a)) (push_bit 8 (of_char b)) = (push_bit 16 (of_char a) + push_bit 8 (of_char b) :: int)"
    using bounds(3,4) [OF assms(2)] by (intro or_sum) (simp add: take_bit_int_eq_self push_bit_eq_mult)
  moreover have "or (push_bit 8 (push_bit 8 (of_char a) + of_char b)) (of_char c) =
      (push_bit 8 (push_bit 8 (of_char a) + of_char b) + of_char c :: int)"
    using bounds(3,4) [OF assms(3)] by (intro or_sum) (simp add: take_bit_int_eq_self)
  ultimately show ?thesis
    using bounds(2) [OF assms(1)] bounds(2) [OF assms(2)] bounds(2) [OF assms(3)]
    by (simp add: month_code_def push_bit_eq_mult algebra_simps)
qed

lemma base_256:
  assumes "p * 256 + x = q * 256 + (y :: int)" "0 \<le> x" "x < 256" "0 \<le> y" "y < 256"
  shows "p = q \<and> x = y"
proof -
  have "(p * 256 + x) div 256 = p" "(q * 256 + y) div 256 = q" using assms(2-5) by simp_all
  then have "p = q" using assms(1) by metis
  then show ?thesis using assms(1) by simp
qed

lemma month_code_inj:
  assumes "letter a" "letter b" "letter c" "letter a'" "letter b'" "letter c'"
  shows "month_code a b c = month_code a' b' c' \<longleftrightarrow> [a, b, c] = [a', b', c']"
proof
  have b: "0 \<le> (of_char x :: int)" "(of_char x :: int) < 256" for x :: char
  proof -
    have "(of_char x :: int) = int (of_char x)" by (simp only: of_nat_of_char)
    then show "0 \<le> (of_char x :: int)" "(of_char x :: int) < 256" using of_char_less [of x] by linarith+
  qed
  assume "month_code a b c = month_code a' b' c'"
  then have "(of_char a * 256 + of_char b) * 256 + of_char c = (of_char a' * 256 + of_char b') * 256 + (of_char c' :: int)"
    by (simp add: month_code_sum assms)
  from base_256 [OF this b b] have c: "of_char a * 256 + of_char b = of_char a' * 256 + (of_char b' :: int)" "(of_char c :: int) = of_char c'"
    by simp_all
  from base_256 [OF c(1) b b] c(2) have "(of_char a :: int) = of_char a' \<and> (of_char b :: int) = of_char b' \<and> (of_char c :: int) = of_char c'"
    by simp
  then show "[a, b, c] = [a', b', c']" by simp
qed simp

lemma months_map: "months = map (\<lambda>n. month_code (n ! 0) (n ! 1) (n ! 2)) apr_month_snames"
  by (simp add: months_def apr_month_snames_def)

lemma month_loop_map: "month_loop v (map f ns) = int (length (takeWhile (\<lambda>n. f n \<noteq> v) ns))"
  by (induction ns) auto

lemma month_letters:
  "n \<in> set apr_month_snames \<Longrightarrow> \<exists>a b c. n = [a, b, c] \<and> isupper a \<and> apr_islower b \<and> apr_islower c"
  by (auto simp: apr_month_snames_def isupper_def apr_islower_def)

lemma month_index:
  assumes "isupper a" "apr_islower b" "apr_islower c"
  shows "month_loop (month_code a b c) months = int (length (takeWhile (\<lambda>name. name \<noteq> [a, b, c]) apr_month_snames))"
proof -
  have "month_code (n ! 0) (n ! 1) (n ! 2) \<noteq> month_code a b c \<longleftrightarrow> n \<noteq> [a, b, c]" if n: "n \<in> set apr_month_snames" for n
  proof -
    obtain a' b' c' where "n = [a', b', c']" "isupper a'" "apr_islower b'" "apr_islower c'"
      using month_letters [OF n] by blast
    then show ?thesis using month_code_inj [of a' b' c' a b c] assms by (simp add: letter_def)
  qed
  then show ?thesis unfolding months_map month_loop_map by (simp cong: takeWhile_cong)
qed


subsection \<open>The masks\<close>

lemma http_forms:
  assumes l: "isupper a" "apr_islower b" "apr_islower c"
    and n: "decimal d2" "decimal h1" "decimal h2" "decimal m1" "decimal m2" "decimal s1" "decimal s2" "decimal y1" "decimal y2"
  shows "decimal d1 \<Longrightarrow> decimal y3 \<Longrightarrow> decimal y4 \<Longrightarrow>
      date = [d1, d2, CHR '' '', a, b, c, CHR '' '', y1, y2, y3, y4, CHR '' '', h1, h2, CHR '':'', m1, m2, CHR '':'', s1, s2, CHR '' ''] @ z \<Longrightarrow>
      http_fields date = map_option (\<lambda>year. (year, num d1 d2, drop 3 date, drop 12 date)) (long_year date 7)"
    "decimal y3 \<Longrightarrow> decimal y4 \<Longrightarrow>
      date = [d2, CHR '' '', a, b, c, CHR '' '', y1, y2, y3, y4, CHR '' '', h1, h2, CHR '':'', m1, m2, CHR '':'', s1, s2, CHR '' ''] @ z \<Longrightarrow>
      http_fields date = map_option (\<lambda>year. (year, dg date 0, drop 2 date, drop 11 date)) (long_year date 6)"
    "decimal d1 \<Longrightarrow>
      date = [d1, d2, CHR ''-'', a, b, c, CHR ''-'', y1, y2, CHR '' '', h1, h2, CHR '':'', m1, m2, CHR '':'', s1, s2, CHR '' ''] @ z \<Longrightarrow>
      http_fields date = Some (short_year date 7, num d1 d2, drop 3 date, drop 10 date)"
    "decimal d1 \<or> d1 = CHR '' '' \<Longrightarrow> decimal y3 \<Longrightarrow> decimal y4 \<Longrightarrow>
      date = [a, b, c, CHR '' '', d1, d2, CHR '' '', h1, h2, CHR '':'', m1, m2, CHR '':'', s1, s2, CHR '' '', y1, y2, y3, y4] @ z \<Longrightarrow>
      http_fields date = map_option (\<lambda>year. (year, (if d1 = CHR '' '' then 0 else (char_int d1 - 48) * 10) + (char_int d2 - 48), date, drop 7 date))
          (long_year date 16)"
proof -
  have a: "\<not> decimal a" using l(1) by (simp add: isupper_def decimal_def)
  have sp: "\<not> decimal CHR '' ''" "\<not> isupper CHR '' ''" by (simp_all add: decimal_def isupper_def)
  have d: "\<not> isupper x" if "decimal x" for x using that by (simp add: isupper_def decimal_def)
  note defs = http_fields_def apr_date_checkmask_matches mask_ok_def dg2_def dg_def num_def char_at_def
  show "decimal d1 \<Longrightarrow> decimal y3 \<Longrightarrow> decimal y4 \<Longrightarrow>
      date = [d1, d2, CHR '' '', a, b, c, CHR '' '', y1, y2, y3, y4, CHR '' '', h1, h2, CHR '':'', m1, m2, CHR '':'', s1, s2, CHR '' ''] @ z \<Longrightarrow>
      http_fields date = map_option (\<lambda>year. (year, num d1 d2, drop 3 date, drop 12 date)) (long_year date 7)"
    using l n by (simp add: defs)
  show "decimal y3 \<Longrightarrow> decimal y4 \<Longrightarrow>
      date = [d2, CHR '' '', a, b, c, CHR '' '', y1, y2, y3, y4, CHR '' '', h1, h2, CHR '':'', m1, m2, CHR '':'', s1, s2, CHR '' ''] @ z \<Longrightarrow>
      http_fields date = map_option (\<lambda>year. (year, dg date 0, drop 2 date, drop 11 date)) (long_year date 6)"
    using l n d sp by (simp add: defs)
  show "decimal d1 \<Longrightarrow>
      date = [d1, d2, CHR ''-'', a, b, c, CHR ''-'', y1, y2, CHR '' '', h1, h2, CHR '':'', m1, m2, CHR '':'', s1, s2, CHR '' ''] @ z \<Longrightarrow>
      http_fields date = Some (short_year date 7, num d1 d2, drop 3 date, drop 10 date)"
    using l n by (simp add: defs)
  show "decimal d1 \<or> d1 = CHR '' '' \<Longrightarrow> decimal y3 \<Longrightarrow> decimal y4 \<Longrightarrow>
      date = [a, b, c, CHR '' '', d1, d2, CHR '' '', h1, h2, CHR '':'', m1, m2, CHR '':'', s1, s2, CHR '' '', y1, y2, y3, y4] @ z \<Longrightarrow>
      http_fields date = map_option (\<lambda>year. (year, (if d1 = CHR '' '' then 0 else (char_int d1 - 48) * 10) + (char_int d2 - 48), date, drop 7 date))
          (long_year date 16)"
    using l n a by (auto simp: defs)
qed

lemma http_fields_shape:
  assumes "http_fields date \<noteq> None"
  obtains (f1) d1 d2 a b c y1 y2 y3 y4 h1 h2 m1 m2 s1 s2 z where
      "date = [d1, d2, CHR '' '', a, b, c, CHR '' '', y1, y2, y3, y4, CHR '' '', h1, h2, CHR '':'', m1, m2, CHR '':'', s1, s2, CHR '' ''] @ z"
      "list_all decimal [d1, d2, y1, y2, y3, y4, h1, h2, m1, m2, s1, s2]" "isupper a" "apr_islower b" "apr_islower c"
  | (f2) d1 d2 a b c y1 y2 h1 h2 m1 m2 s1 s2 z where
      "date = [d1, d2, CHR ''-'', a, b, c, CHR ''-'', y1, y2, CHR '' '', h1, h2, CHR '':'', m1, m2, CHR '':'', s1, s2, CHR '' ''] @ z"
      "list_all decimal [d1, d2, y1, y2, h1, h2, m1, m2, s1, s2]" "isupper a" "apr_islower b" "apr_islower c"
  | (f3) d1 d2 a b c y1 y2 y3 y4 h1 h2 m1 m2 s1 s2 z where
      "date = [a, b, c, CHR '' '', d1, d2, CHR '' '', h1, h2, CHR '':'', m1, m2, CHR '':'', s1, s2, CHR '' '', y1, y2, y3, y4] @ z"
      "list_all decimal [d2, y1, y2, y3, y4, h1, h2, m1, m2, s1, s2]" "d1 = CHR '' '' \<or> decimal d1" "isupper a" "apr_islower b" "apr_islower c"
  | (f4) d a b c y1 y2 y3 y4 h1 h2 m1 m2 s1 s2 z where
      "date = [d, CHR '' '', a, b, c, CHR '' '', y1, y2, y3, y4, CHR '' '', h1, h2, CHR '':'', m1, m2, CHR '':'', s1, s2, CHR '' ''] @ z"
      "list_all decimal [d, y1, y2, y3, y4, h1, h2, m1, m2, s1, s2]" "isupper a" "apr_islower b" "apr_islower c"
proof -
  from assms consider "apr_date_checkmask date ''## @$$ #### ##:##:## *''" | "apr_date_checkmask date ''##-@$$-## ##:##:## *''"
    | "apr_date_checkmask date ''@$$ ~# ##:##:## ####*''" | "apr_date_checkmask date ''# @$$ #### ##:##:## *''"
    by (auto simp: http_fields_def split: if_splits)
  then show thesis
  proof cases
    case 1
    then show thesis by (auto simp: apr_date_checkmask_matches mask_ok_def intro: f1)
  next
    case 2
    then show thesis by (auto simp: apr_date_checkmask_matches mask_ok_def intro: f2)
  next
    case 3
    then show thesis by (auto simp: apr_date_checkmask_matches mask_ok_def intro: f3)
  next
    case 4
    then show thesis by (auto simp: apr_date_checkmask_matches mask_ok_def intro: f4)
  qed
qed

text \<open>The time of one of the forms.\<close>

lemma calendar_time_month:
  "m \<notin> set apr_month_snames \<Longrightarrow> calendar_time y m d t = 0"
proof -
  assume "m \<notin> set apr_month_snames"
  then have "takeWhile (\<lambda>name. name \<noteq> m) apr_month_snames = apr_month_snames" by (auto simp: takeWhile_eq_all_conv)
  then have "length (takeWhile (\<lambda>name. name \<noteq> m) apr_month_snames) = 12" by (simp add: apr_month_snames_def)
  then show ?thesis by (simp add: calendar_time_def valid_date_def split: prod.split)
qed

lemma http_calendar_time:
  assumes "after_weekday date = Some rest"
    and "http_fields rest = (if y < 1900 then None else Some (y - 1900, d, monstr, timstr))"
    and "month_of monstr = month_loop (month_code a b c) months" "isupper a" "apr_islower b" "apr_islower c"
    and "dg2 timstr 0 = h" "dg2 timstr 3 = mi" "dg2 timstr 6 = s"
  shows "apr_date_parse_http (Some date) = calendar_time y [a, b, c] d (h, mi, s)"
proof (cases "y < 1900")
  case True
  then show ?thesis using assms(1,2) by (simp add: apr_date_parse_http_def calendar_time_def APR_DATE_BAD_def)
next
  case False
  then have "http_fields rest = Some (y - 1900, d, monstr, timstr)" using assms(2) by simp
  from http_calendar [OF assms(1) this] show ?thesis
    using False by (simp add: calendar_time_def month_index [OF assms(4-6)] assms(3,7-9) APR_DATE_BAD_def Let_def)
qed

lemma http_rest_time:
  assumes rest: "http_rest rest y m d t" and m: "m = [a, b, c]" "isupper a" "apr_islower b" "apr_islower c"
    and after: "after_weekday date = Some rest"
  shows "apr_date_parse_http (Some date) = calendar_time y m d t"
  using rest
proof cases
  case (rfc1123 dd yy hh mm ss z)
  obtain d1 d2 y1 y2 y3 y4 h1 h2 m1 m2 s1 s2 where ds: "dd = [d1, d2]" "yy = [y1, y2, y3, y4]" "hh = [h1, h2]" "mm = [m1, m2]" "ss = [s1, s2]"
    and dec: "decimal d1" "decimal d2" "decimal y1" "decimal y2" "decimal y3" "decimal y4" "decimal h1" "decimal h2"
      "decimal m1" "decimal m2" "decimal s1" "decimal s2"
    using rfc1123(5-9) by (auto simp: digit_string_cases)
  have rest: "rest = [d1, d2, CHR '' '', a, b, c, CHR '' '', y1, y2, y3, y4, CHR '' '', h1, h2, CHR '':'', m1, m2, CHR '':'', s1, s2, CHR '' ''] @ z"
    using rfc1123(1) by (simp add: ds m)
  have "long_year rest 7 = (if number_of [y1, y2, y3, y4] < 1900 then None else Some (number_of [y1, y2, y3, y4] - 1900))"
    by (rule long_year_number) (simp_all add: rest dg2_def dg_def num_def char_at_def dec)
  then show ?thesis
    unfolding m(1) rfc1123(2-4) ds using dec http_forms(1) [OF m(2-4) _ _ _ _ _ _ _ _ _ _ _ _ rest]
    by (intro http_calendar_time [OF after _ _ m(2-4), where monstr = "drop 3 rest" and timstr = "drop 12 rest"])
      (simp_all add: rest number_simps month_of_def dg2_def dg_def num_def char_at_def)
next
  case (one_digit dd yy hh mm ss z)
  obtain d2 y1 y2 y3 y4 h1 h2 m1 m2 s1 s2 where ds: "dd = [d2]" "yy = [y1, y2, y3, y4]" "hh = [h1, h2]" "mm = [m1, m2]" "ss = [s1, s2]"
    and dec: "decimal d2" "decimal y1" "decimal y2" "decimal y3" "decimal y4" "decimal h1" "decimal h2"
      "decimal m1" "decimal m2" "decimal s1" "decimal s2"
    using one_digit(5-9) by (auto simp: digit_string_cases)
  have rest: "rest = [d2, CHR '' '', a, b, c, CHR '' '', y1, y2, y3, y4, CHR '' '', h1, h2, CHR '':'', m1, m2, CHR '':'', s1, s2, CHR '' ''] @ z"
    using one_digit(1) by (simp add: ds m)
  have "long_year rest 6 = (if number_of [y1, y2, y3, y4] < 1900 then None else Some (number_of [y1, y2, y3, y4] - 1900))"
    by (rule long_year_number) (simp_all add: rest dg2_def dg_def num_def char_at_def dec)
  then show ?thesis
    unfolding m(1) one_digit(2-4) ds using dec http_forms(2) [OF m(2-4) _ _ _ _ _ _ _ _ _ _ _ rest]
    by (intro http_calendar_time [OF after _ _ m(2-4), where monstr = "drop 2 rest" and timstr = "drop 11 rest"])
      (simp_all add: rest number_simps month_of_def dg2_def dg_def num_def char_at_def)
next
  case (rfc850 dd yy hh mm ss z)
  obtain d1 d2 y1 y2 h1 h2 m1 m2 s1 s2 where ds: "dd = [d1, d2]" "yy = [y1, y2]" "hh = [h1, h2]" "mm = [m1, m2]" "ss = [s1, s2]"
    and dec: "decimal d1" "decimal d2" "decimal y1" "decimal y2" "decimal h1" "decimal h2"
      "decimal m1" "decimal m2" "decimal s1" "decimal s2"
    using rfc850(5-9) by (auto simp: digit_string_cases)
  have rest: "rest = [d1, d2, CHR ''-'', a, b, c, CHR ''-'', y1, y2, CHR '' '', h1, h2, CHR '':'', m1, m2, CHR '':'', s1, s2, CHR '' ''] @ z"
    using rfc850(1) by (simp add: ds m)
  have "dg2 rest 7 = num y1 y2" by (simp add: rest dg2_def dg_def num_def char_at_def)
  then have year: "short_year rest 7 = (if number_of [y1, y2] < 70 then 2000 + number_of [y1, y2] else 1900 + number_of [y1, y2]) - 1900"
    "\<not> (if number_of [y1, y2] < 70 then 2000 + number_of [y1, y2] else 1900 + number_of [y1, y2]) < 1900"
    using dec num_bounds [of y1 y2] by (simp_all add: short_year_def number_simps Let_def)
  then show ?thesis
    unfolding m(1) rfc850(2-4) ds using dec http_forms(3) [OF m(2-4) _ _ _ _ _ _ _ _ _ _ rest]
    by (intro http_calendar_time [OF after _ _ m(2-4), where monstr = "drop 3 rest" and timstr = "drop 10 rest"])
      (simp_all add: rest number_simps month_of_def dg2_def dg_def num_def char_at_def)
next
  case (asctime dd yy hh mm ss z)
  obtain d1 d2 y1 y2 y3 y4 h1 h2 m1 m2 s1 s2 where ds: "dd = [d1, d2]" "yy = [y1, y2, y3, y4]" "hh = [h1, h2]" "mm = [m1, m2]" "ss = [s1, s2]"
    and dec: "decimal d1" "decimal d2" "decimal y1" "decimal y2" "decimal y3" "decimal y4" "decimal h1" "decimal h2"
      "decimal m1" "decimal m2" "decimal s1" "decimal s2"
    using asctime(5-9) by (auto simp: digit_string_cases)
  have rest: "rest = [a, b, c, CHR '' '', d1, d2, CHR '' '', h1, h2, CHR '':'', m1, m2, CHR '':'', s1, s2, CHR '' '', y1, y2, y3, y4] @ z"
    using asctime(1) by (simp add: ds m)
  have "d1 \<noteq> CHR '' ''" using dec(1) by (auto simp: decimal_def)
  moreover have "long_year rest 16 = (if number_of [y1, y2, y3, y4] < 1900 then None else Some (number_of [y1, y2, y3, y4] - 1900))"
    by (rule long_year_number) (simp_all add: rest dg2_def dg_def num_def char_at_def dec)
  ultimately show ?thesis
    unfolding m(1) asctime(2-4) ds using dec http_forms(4) [OF m(2-4) _ _ _ _ _ _ _ _ _ _ _ _ rest]
    by (intro http_calendar_time [OF after _ _ m(2-4), where monstr = "rest" and timstr = "drop 7 rest"])
      (simp_all add: rest number_simps month_of_def dg2_def dg_def num_def char_at_def)
next
  case (asctime_padded dd yy hh mm ss z)
  obtain d2 y1 y2 y3 y4 h1 h2 m1 m2 s1 s2 where ds: "dd = [d2]" "yy = [y1, y2, y3, y4]" "hh = [h1, h2]" "mm = [m1, m2]" "ss = [s1, s2]"
    and dec: "decimal d2" "decimal y1" "decimal y2" "decimal y3" "decimal y4" "decimal h1" "decimal h2"
      "decimal m1" "decimal m2" "decimal s1" "decimal s2"
    using asctime_padded(5-9) by (auto simp: digit_string_cases)
  have rest: "rest = [a, b, c, CHR '' '', CHR '' '', d2, CHR '' '', h1, h2, CHR '':'', m1, m2, CHR '':'', s1, s2, CHR '' '', y1, y2, y3, y4] @ z"
    using asctime_padded(1) by (simp add: ds m)
  have "long_year rest 16 = (if number_of [y1, y2, y3, y4] < 1900 then None else Some (number_of [y1, y2, y3, y4] - 1900))"
    by (rule long_year_number) (simp_all add: rest dg2_def dg_def num_def char_at_def dec)
  then show ?thesis
    unfolding m(1) asctime_padded(2-4) ds using dec http_forms(4) [OF m(2-4) _ _ _ _ _ _ _ _ _ _ _ _ rest]
    by (intro http_calendar_time [OF after _ _ m(2-4), where monstr = "rest" and timstr = "drop 7 rest"])
      (simp_all add: rest number_simps month_of_def dg2_def dg_def num_def char_at_def)
qed

lemma http_rest_complete:
  assumes "http_fields rest \<noteq> None"
  shows "\<exists>a b c y d t. http_rest rest y [a, b, c] d t \<and> isupper a \<and> apr_islower b \<and> apr_islower c"
  using assms
proof (cases rule: http_fields_shape)
  case (f1 d1 d2 a b c y1 y2 y3 y4 h1 h2 m1 m2 s1 s2 z)
  then have "\<exists>y d t. http_rest rest y [a, b, c] d t"
    using http_rest.rfc1123 [of "[d1, d2]" "[y1, y2, y3, y4]" "[h1, h2]" "[m1, m2]" "[s1, s2]" "[a, b, c]" z]
    by (intro exI) (simp add: digit_string_cases)
  then show ?thesis using f1(3-5) by blast
next
  case (f2 d1 d2 a b c y1 y2 h1 h2 m1 m2 s1 s2 z)
  then have "\<exists>y d t. http_rest rest y [a, b, c] d t"
    using http_rest.rfc850 [of "[d1, d2]" "[y1, y2]" "[h1, h2]" "[m1, m2]" "[s1, s2]" "[a, b, c]" z]
    by (intro exI) (simp add: digit_string_cases)
  then show ?thesis using f2(3-5) by blast
next
  case (f3 d1 d2 a b c y1 y2 y3 y4 h1 h2 m1 m2 s1 s2 z)
  have "\<exists>y d t. http_rest rest y [a, b, c] d t"
  proof (cases "d1 = CHR '' ''")
    case True
    then show ?thesis
      using f3 http_rest.asctime_padded [of "[d2]" "[y1, y2, y3, y4]" "[h1, h2]" "[m1, m2]" "[s1, s2]" "[a, b, c]" z]
      by (intro exI) (simp add: digit_string_cases)
  next
    case False
    then show ?thesis
      using f3 http_rest.asctime [of "[d1, d2]" "[y1, y2, y3, y4]" "[h1, h2]" "[m1, m2]" "[s1, s2]" "[a, b, c]" z]
      by (intro exI) (simp add: digit_string_cases)
  qed
  then show ?thesis using f3(4-6) by blast
next
  case (f4 d a b c y1 y2 y3 y4 h1 h2 m1 m2 s1 s2 z)
  then have "\<exists>y d t. http_rest rest y [a, b, c] d t"
    using http_rest.one_digit [of "[d]" "[y1, y2, y3, y4]" "[h1, h2]" "[m1, m2]" "[s1, s2]" "[a, b, c]" z]
    by (intro exI) (simp add: digit_string_cases)
  then show ?thesis using f4(3-5) by blast
qed

lemma after_space:
  "list_all apr_isspace sp \<Longrightarrow> w \<noteq> [] \<Longrightarrow> \<not> apr_isspace (hd w) \<Longrightarrow> after_weekday (sp @ w @ rest) = after_weekday (w @ rest)"
  by (cases w) (simp_all add: after_weekday_def dropWhile_append2 list_all_iff)

lemma after_weekday_shape:
  assumes "after_weekday date = Some rest"
  obtains sp w where "date = sp @ w @ '' '' @ rest" "list_all apr_isspace sp" "w \<noteq> []" "\<not> apr_isspace (hd w)" "CHR '' '' \<notin> set w"
proof -
  let ?sp = "takeWhile apr_isspace date" and ?d = "dropWhile apr_isspace date"
  let ?w = "takeWhile (\<lambda>c. c \<noteq> CHR '' '') ?d" and ?r = "dropWhile (\<lambda>c. c \<noteq> CHR '' '') ?d"
  have d: "?d \<noteq> []" "?r \<noteq> []" "rest = tl ?r" using assms by (auto simp: after_weekday_def Let_def split: if_splits)
  have "hd ?r = CHR '' ''" using hd_dropWhile [OF d(2)] by simp
  then have r: "?r = '' '' @ rest" using d(2,3) by (cases ?r) auto
  have hd: "\<not> apr_isspace (hd ?d)" using hd_dropWhile [OF d(1)] .
  then have "hd ?d \<noteq> CHR '' ''" by (auto simp: apr_isspace_def)
  then have w: "?w \<noteq> []" "hd ?w = hd ?d" using d(1) by (cases ?d; simp)+
  show thesis
  proof (rule that [of ?sp ?w])
    show "date = ?sp @ ?w @ '' '' @ rest" unfolding r [symmetric] by simp
  qed (use w hd in \<open>auto simp: list_all_iff dest: set_takeWhileD\<close>)
qed

section \<open>Properties\<close>

text \<open>C26. Every date that \<open>apr_rfc822_date\<close> prints, until the end of the year 9999, is read back by both parsers as the time that
  was printed, without the microseconds; and what \<open>apr_ctime\<close> prints, in a zone with any offset, as the local time.\<close>

theorem apr_date_reads_printed:
  assumes "0 \<le> t" "t < 253402300800000000" "0 \<le> t div APR_USEC_PER_SEC + off" "t div APR_USEC_PER_SEC + off < 253402300800"
  shows "apr_date_parse_http (Some (apr_rfc822_date t)) = t - t mod APR_USEC_PER_SEC \<and>
    apr_date_parse_rfc (Some (apr_rfc822_date t)) = t - t mod APR_USEC_PER_SEC \<and>
    apr_date_parse_http (Some (apr_ctime (\<lambda>tt. gmtime (tt + off)) t)) = (t div APR_USEC_PER_SEC + off) * APR_USEC_PER_SEC"
proof -
  have "zone (Some ''GMT'') = 0" by (simp add: zone_def Let_def)
  then show ?thesis
    using rfc822_suffix(1,2) [OF assms(1,2), of "''GMT''", unfolded rfc822_suffix(3) [OF assms(1,2)]] ctime_parses [OF assms(1,3,4)] by simp
qed

theorem apr_date_reads_printed_witness:
  "apr_date_parse_http (Some (apr_rfc822_date 784111777123456)) = 784111777000000 \<and>
   apr_date_parse_rfc (Some (apr_rfc822_date 784111777123456)) = 784111777000000"
  using apr_date_reads_printed [of 784111777123456 3600] by simp

text \<open>C40. A date as \<open>apr_rfc822_date\<close> prints it, but with a zone of four digits in the place of GMT, is read by
  \<open>apr_date_parse_rfc\<close> as the time that lies that many hours and minutes earlier when the zone is east of GMT, and later
  when it is west, as long as this time is not before 1970. (Otherwise the code returns a negative time.)\<close>

theorem apr_date_parse_rfc_zone:
  assumes "0 \<le> t" "t < 253402300800000000" "0 \<le> h" "h < 100" "0 \<le> m" "m < 100"
    and "0 \<le> t - t mod APR_USEC_PER_SEC - (if west then -1 else 1) * ((h * 60 + m) * 60) * APR_USEC_PER_SEC"
  shows "apr_date_parse_rfc (Some (take 26 (apr_rfc822_date t) @ zone_string west h m)) =
    t - t mod APR_USEC_PER_SEC - (if west then -1 else 1) * ((h * 60 + m) * 60) * APR_USEC_PER_SEC"
  using rfc822_suffix(2) [OF assms(1,2), of "zone_string west h m"] zone_string [OF assms(3-6), of west] by simp

theorem apr_date_parse_rfc_zone_witness:
  "apr_date_parse_rfc (Some (take 26 (apr_rfc822_date 784111777123456) @ zone_string True 8 0)) = 784140577000000"
  using apr_date_parse_rfc_zone [of 784111777123456 8 0 True] by simp

text \<open>C28. \<open>apr_date_parse_http\<close> on any string: a result other than 0 is returned exactly for the strings of the formats of
  HTTP whose month is one of the twelve names, whose year is 1900 or later, whose month has that day in that year, whose clock is in
  its range (seconds up to 61) and whose time is not before 1970; it is the time that counting the years and months gives.\<close>

theorem apr_date_parse_http_calendar:
  "apr_date_parse_http (Some date) = r \<and> r \<noteq> APR_DATE_BAD \<longleftrightarrow>
    (\<exists>y m d t. http_date date y m d t \<and> calendar_time y m d t = r) \<and> r \<noteq> APR_DATE_BAD"
proof
  assume r: "apr_date_parse_http (Some date) = r \<and> r \<noteq> APR_DATE_BAD"
  then obtain rest where after: "after_weekday date = Some rest" "http_fields rest \<noteq> None"
    by (auto simp: apr_date_parse_http_def split: option.splits)
  obtain a b c y d t where rest: "http_rest rest y [a, b, c] d t" "isupper a" "apr_islower b" "apr_islower c"
    using http_rest_complete [OF after(2)] by blast
  obtain sp w where "date = sp @ w @ '' '' @ rest" "list_all apr_isspace sp" "w \<noteq> []" "\<not> apr_isspace (hd w)" "CHR '' '' \<notin> set w"
    by (rule after_weekday_shape [OF after(1)])
  then have "http_date date y [a, b, c] d t" using http_date.intros rest(1) by blast
  moreover have "calendar_time y [a, b, c] d t = r" using http_rest_time [OF rest(1) refl rest(2-4) after(1)] r by simp
  ultimately show "(\<exists>y m d t. http_date date y m d t \<and> calendar_time y m d t = r) \<and> r \<noteq> APR_DATE_BAD" using r by blast
next
  assume "(\<exists>y m d t. http_date date y m d t \<and> calendar_time y m d t = r) \<and> r \<noteq> APR_DATE_BAD"
  then obtain y m d t where date: "http_date date y m d t" "calendar_time y m d t = r" "r \<noteq> APR_DATE_BAD" by blast
  then have "m \<in> set apr_month_snames" using calendar_time_month [of m y d t] by (auto simp: APR_DATE_BAD_def)
  then obtain a b c where m: "m = [a, b, c]" "isupper a" "apr_islower b" "apr_islower c" using month_letters by blast
  from date(1) obtain sp w rest where d: "date = sp @ w @ '' '' @ rest" "list_all apr_isspace sp" "w \<noteq> []" "\<not> apr_isspace (hd w)"
    "CHR '' '' \<notin> set w" "http_rest rest y m d t" by (cases rule: http_date.cases) blast
  have "after_weekday date = Some rest" using after_space [OF d(2-4)] after_word [OF d(3-5), of rest] by (simp add: d(1))
  from http_rest_time [OF d(6) m this] show "apr_date_parse_http (Some date) = r \<and> r \<noteq> APR_DATE_BAD" using date by simp
qed

theorem apr_date_parse_http_calendar_witness:
  "apr_date_parse_http (Some ''Sunday, 06-Nov-94 08:49:37 GMT'') = 784111777000000"
proof -
  have "http_rest ''06-Nov-94 08:49:37 GMT'' 1994 ''Nov'' 6 (8, 49, 37)"
    using http_rest.rfc850 [of "''06''" "''94''" "''08''" "''49''" "''37''" "''Nov''" "''GMT''"]
    by (simp add: digit_string_def number_of_def decimal_def)
  then have "http_date ''Sunday, 06-Nov-94 08:49:37 GMT'' 1994 ''Nov'' 6 (8, 49, 37)"
    using http_date.intros [of "[]" "''Sunday,''"] by (simp add: apr_isspace_def)
  moreover have "calendar_time 1994 ''Nov'' 6 (8, 49, 37) = 784111777000000"
    by (simp add: calendar_time_def apr_month_snames_def valid_date_def seconds_def month_lens_def leap_def civil_calendar [symmetric]
        civil_def new_year_def)
  ultimately show ?thesis
    using apr_date_parse_http_calendar [of "''Sunday, 06-Nov-94 08:49:37 GMT''" 784111777000000] by (auto simp: APR_DATE_BAD_def)
qed

end
