(* ===== verification/Spec2Isabelle.thy ===== *)
theory Spec2Isabelle
  imports Apr_Table_Laws Apr_Overlap Apr_Hash Apr_Fnmatch_Laws Apr_Numbers Apr_Pool_Laws Apu_Base64 Apu_Queue Apu_Brigade_Theorems Apu_Strmatch Apu_Uri Apu_Optional_Hooks Apu_Md4 Apu_Password Apu_Rmm Apu_Date
begin

text \<open>
  A verification library for the Apache Portable Runtime, the C code of the repository:
  \<open>srclib/apr\<close> and \<open>srclib/apr-util\<close> of the httpd 2.2.22 tree (paths below are
  relative to \<open>src/PHP/httpd-2.2.22/srclib\<close>). The server itself is not in the tree, only its headers.

  \<^bold>\<open>The program.\<close> Everything in APR lives in memory pools. A pool takes nodes from an allocator
  and hands out pieces of them; strings, arrays, tables and hash tables are built of such pieces and are
  never freed one by one. APR-util adds data flows on top: buckets are windows on reference-counted
  buffers, brigades are sequences of buckets, and a bounded queue passes pointers between threads.

  \<^bold>\<open>Theories and code.\<close>
    \<^item> \<open>Apr_Prelude\<close>: status codes (\<open>apr_errno.h\<close>), C characters and strings, index loops, facts on
      lists and words, the collections \<open>apr_invar\<close> and \<open>apr_refine\<close>.
    \<^item> \<open>Apr_Strings\<close>: \<open>apr/strings/apr_strings.c\<close>, \<open>apr_cpystrn.c\<close>: copying, joining, \<open>strcasecmp\<close>.
    \<^item> \<open>Apr_Numbers\<close>: \<open>apr_strtoi64\<close> and the functions that print integers, of \<open>apr_strings.c\<close>.
    \<^item> \<open>Apr_Arrays\<close>: the arrays of \<open>apr/tables/apr_tables.c\<close>. A header is a record with its block as a list
      of slots; \<open>None\<close> is memory that was never written. A second model with a store of blocks covers the
      headers that share one (\<open>apr_array_copy_hdr\<close>, \<open>apr_array_append\<close>). The locale \<open>growable\<close> is
      what every append promises.
    \<^item> \<open>Apr_Tables\<close>, \<open>Apr_Table_Laws\<close>: the string tables of \<open>apr_tables.c\<close>, with the index by the
      initial character (\<open>index_first\<close>, \<open>index_last\<close>, \<open>index_initialized\<close>) and the key checksum. The
      abstract specification is the plain list of entries; the refinement theorem covers all updates.
    \<^item> \<open>Apr_Mergesort\<close>, \<open>Apr_Overlap\<close>: \<open>table_mergesort\<close>, \<open>apr_table_compress\<close>,
      \<open>apr_table_cat\<close> and \<open>apr_table_overlap\<close>, against the loop that documents \<open>apr_table_overlap\<close>.
      The sort works for any comparison that meets the locale \<open>weak_order\<close>.
    \<^item> \<open>Apr_Hash\<close>: \<open>apr/tables/apr_hash.c\<close>: chains, growth, deletion during iteration, merge;
      the abstract specification is a partial map.
    \<^item> \<open>Apr_Store_Interface\<close>: the contract (locale \<open>keyed_store\<close>) that tables and hash tables share.
    \<^item> \<open>Apr_Fnmatch\<close>, \<open>Apr_Fnmatch_Laws\<close>: \<open>apr/strings/apr_fnmatch.c\<close>, with a reference meaning of
      patterns (\<open>pieces\<close>, \<open>glob\<close>) that tries every length for every star.
    \<^item> \<open>Apr_Allocator\<close>: the node allocator of \<open>apr/memory/unix/apr_pools.c\<close>: free lists by size, the
      sink for large nodes, the limit on free memory. The locale \<open>node_source\<close> is what pools rely on.
    \<^item> \<open>Apr_Subprocess\<close>: \<open>free_proc_chain\<close> of the same file, over any behaviour of the system calls;
      a blocking wait may never return.
    \<^item> \<open>Apr_Pools\<close>: the memory of a pool, \<open>apr_palloc\<close> on the ring of nodes, clearing.
    \<^item> \<open>Apr_Pool_Tree\<close>, \<open>Apr_Pool_Laws\<close>: creating, clearing and destroying pools in a store, linked by
      \<open>parent\<close>, \<open>child\<close>, \<open>sibling\<close> and \<open>ref\<close> as in the code; cleanups, subprocesses and abort functions are
      calls of parameters that may change the whole world. The laws relate the links to a tree
      (\<open>seg\<close>, \<open>subpools\<close>) and are about cleanups with effects outside the pools, and waits for subprocesses that return (\<open>quiet\<close>).
    \<^item> \<open>Apu_Base64\<close>: \<open>apr-util/encoding/apr_base64.c\<close>, with the casts of sizes to 32-bit integers (\<open>to_int32\<close>).
    \<^item> \<open>Apu_Digest\<close>: what the digests of \<open>apr-util/crypto\<close> share: bytes and words, contexts, updates in pieces, padding;
      the conversion of single bytes of \<open>apr-util/xlate/xlate.c\<close>. The locale \<open>digest_stream\<close> is the contract of every digest.
    \<^item> \<open>Apu_Md5\<close>, \<open>Apu_Md4\<close>, \<open>Apu_Sha1\<close>: \<open>apr_md5.c\<close>, \<open>apr_md4.c\<close> and \<open>apr_sha1.c\<close>, whose
      unrolled transformations are shown to be the loops of RFC 1321, RFC 1320 and FIPS 180-1. The reference digests
      have their own rotation, byte order, tables and message schedule, and share nothing with the model of the code.
    \<^item> \<open>Apu_Password\<close>: \<open>apr_md5_encode\<close> and \<open>apr_password_validate\<close> of \<open>apr_md5.c\<close>, against the
      \<open>$apr1$\<close> format with its characters given one by one (\<open>apr1_hash\<close>); \<open>crypt\<close> is an argument.
    \<^item> \<open>Apu_Strmatch\<close>: \<open>apr-util/strmatch/apr_strmatch.c\<close>, against the first occurrence.
    \<^item> \<open>Apu_Uri\<close>: \<open>apr-util/uri/apr_uri.c\<close>; \<open>strtol\<close> is the one of the C library.
    \<^item> \<open>Apu_Hooks\<close>, \<open>Apu_Optional_Hooks\<close>: \<open>apr-util/hooks/apr_hooks.c\<close>: the topological sort of hooks
      against the relation that their names describe, and the registry over the hash tables. \<open>qsort\<close> is an argument.
    \<^item> \<open>Apu_Queue\<close>: \<open>apr-util/misc/apr_queue.c\<close>. The pieces between two lock operations are functions;
      a step relation interleaves any number of threads, with signals and spurious wake-ups (errors of the lock
      calls are arguments of the functions; in the step relation they succeed). The locale \<open>bounded_fifo\<close> is the contract of the ring buffer.
    \<^item> \<open>Apu_Rmm\<close>: \<open>apr-util/misc/apr_rmm.c\<close>: blocks of a relocatable region, linked by offsets, against the
      layout of the region (the list of its blocks in address order).
    \<^item> \<open>Apr_Time\<close>: \<open>apr/time/unix/time.c\<close> and \<open>timestr.c\<close>: exploding, imploding and printing times, against the
      calendar counted by years and months. \<open>localtime_r\<close> is an argument.
    \<^item> \<open>Apu_Date\<close>: \<open>apr-util/misc/apr_date.c\<close>: the masks and the two date parsers, the one of HTTP against a
      grammar of dates on strings (\<open>http_date\<close>) and the time counted along the calendar (\<open>calendar_time\<close>).
    \<^item> \<open>Apu_Buckets\<close>: \<open>apr-util/buckets\<close>: immortal, transient, heap, pool, pipe and metadata buckets over
      a store of reference-counted buffers; the locale \<open>data_bucket\<close> is the contract of split and copy.
    \<^item> \<open>Apu_Brigade\<close>, \<open>Apu_Brigade_Laws\<close>, \<open>Apu_Brigade_Theorems\<close>:
      \<open>apr-util/buckets/apr_brigade.c\<close>; a brigade is the list of its buckets, its meaning the bytes they hold.

  \<^bold>\<open>What the lemmas show.\<close> Each theory has a well-formedness invariant (\<open>array_ok\<close>, \<open>table_ok\<close>,
  \<open>hash_inv\<close>, \<open>queue_inv\<close>, \<open>mem_inv\<close>, \<open>allocator_ok\<close>, \<open>pool_ok\<close>,
  \<open>layout_rel\<close> and \<open>tidy\<close>), the lemmas that every operation keeps it, the
  effect of each operation on the abstract value on every branch, and then the properties, which are
  few lines over those lemmas. The properties that a caller reads first are the refinements
  (tables against lists, hash tables against maps), the equivalence of the pattern matcher with its reference,
  the safety and liveness of the queue under all schedules, the exactness of the reference counts,
  the disjointness of the memory that pools hand out, and the order and completeness of what destroying a pool does,
  the digests of inputs in pieces, the validation of encoded passwords, the layout of relocatable memory, and the dates
  that are read back as they were printed. Nine theorems state what the code gets wrong: writes
  into shared heap buckets, the overrun of \<open>apr_brigade_puts\<close>, the limit of the
  allocator when it is lowered, numbers that \<open>apr_strtoi64\<close> accepts although they overflow,
  ports that \<open>apr_uri_parse\<close> cuts to 16 bits, digests of 4 gigabytes that never end, encoded passwords that lose
  their last character, base64 of \<open>2 ^ 32\<close> digits and more, for which the size of the buffer is cut to 32 bits, and
  \<open>apr_rmm_realloc\<close>, which reads behind the area that it moves.

  \<^bold>\<open>Bounds and fuel.\<close> Integers whose width matters are words: the sizes of allocator and pools are \<open>64 word\<close>,
  hashes, checksums and indices \<open>32 word\<close>, base64 and the digests work on \<open>8 word\<close> and \<open>32 word\<close>; the sizes of base64 are
  integers cut to 32 bits; other sizes are natural numbers, times and their fields integers. So tables and hash tables of
  \<open>2 ^ 31\<close> entries, times at the ends of the range of \<open>apr_time_t\<close> and differences of the order of hooks that overflow are outside
  the model. No definition uses fuel. Loops whose end is not structural are \<open>function\<close>s with a
  measure, or, where the end is part of the property, \<open>partial_function (option)\<close>: the pattern matcher, the string search and
  the polling of subprocesses, each with a theorem that it returns \<open>Some\<close>, the blocking waits for subprocesses, which return when the waits of the system do, the search of the topological sort, with a theorem
  that says when it returns, the searches along the links of a relocatable region, which return for every region that a client can build, the blocks of an MD4 or MD5 update, which end for less than 4 gigabytes, and the loops of the pools that run
  cleanups, which need not return when a cleanup registers new ones; they do for cleanups that leave the pools alone, when the waits for subprocesses return.

  \<^bold>\<open>Parameters.\<close> What \<open>malloc\<close> returns is an argument wherever it matters (an address, or NULL); histories
  assume that it returns memory not in use, and, for pools, aligned to eight bytes. System calls are
  arbitrary functions of an arbitrary state. Locks make the operations they bracket atomic; the tests that
  \<open>apr_queue_trypush\<close> and \<open>apr_queue_trypop\<close> make before they lock are part of the same step. A read behind the end of a
  relocatable region gives an arbitrary byte. The name of the module that registers hooks is the empty string, not NULL,
  before the first one is set.

  \<^bold>\<open>Not modelled.\<close> Vendored code (PCRE, Expat), bindings to libraries outside the tree (databases,
  LDAP, iconv), covers of system calls (files, sockets, polling, locks, processes), the ports to other
  platforms, \<open>apr_snprintf\<close> (varargs and floating point, and with it \<open>apr_psprintf\<close>), the
  one-time set-up of the pools and their user data, SHA-2 and the random numbers, and the
  Android application. Pool debugging and the build with mmap are compiled out of the configuration that is modelled.
\<close>

end
